(* ===== verification/MX_Prelude.thy ===== *)
theory MX_Prelude
  imports Main "HOL-Library.Word" "HOL-Library.Monad_Syntax"
begin

text \<open>
  Shared vocabulary of the development: pointers and explicit stores for the components that
  link objects through raw pointers, the reading and writing of a store with the failure of a
  dereference written out, and the machine integer types of the code.

  A pointer is a natural number and \<open>NULL\<close> is 0. A store is a partial map from addresses to
  objects. Reading or writing through \<open>NULL\<close> or through an address that holds no object is
  undefined behaviour in the code; in the model it is \<open>None\<close>, so a theorem that an operation
  returns \<open>Some\<close> also says that the operation dereferences only live objects.
\<close>

unbundle bit_operations_syntax

section \<open>Machine integers\<close>

type_synonym u8 = "8 word"
type_synonym u16 = "16 word"
type_synonym u32 = "32 word"
type_synonym u64 = "64 word"

section \<open>Pointers and stores\<close>

type_synonym ptr = nat

abbreviation NULL :: ptr where
  "NULL \<equiv> 0"

type_synonym 'n store = "ptr \<rightharpoonup> 'n"

definition load :: "'n store \<Rightarrow> ptr \<Rightarrow> 'n option" where
  "load h p = (if p = NULL then None else h p)"

definition store :: "'n store \<Rightarrow> ptr \<Rightarrow> ('n \<Rightarrow> 'n) \<Rightarrow> 'n store option" where
  "store h p f = (case load h p of None \<Rightarrow> None | Some n \<Rightarrow> Some (h(p \<mapsto> f n)))"

named_theorems store_simps \<open>evaluation of loads and stores\<close>

lemma load_NULL [simp, store_simps]: "load h NULL = None"
  by (simp add: load_def)

lemma load_nonnull [store_simps]: "p \<noteq> NULL \<Longrightarrow> load h p = h p"
  by (simp add: load_def)

lemma store_Some [store_simps]: "p \<noteq> NULL \<Longrightarrow> h p = Some n \<Longrightarrow> store h p f = Some (h(p \<mapsto> f n))"
  by (simp add: store_def load_def)

lemma load_upd [store_simps]:
  "load (h(p \<mapsto> n)) q = (if q = NULL then None else if q = p then Some n else load h q)"
  by (simp add: load_def)

lemma store_NULL [simp, store_simps]: "store h NULL f = None"
  by (simp add: store_def)

section \<open>First and last element, with a default\<close>

definition hd_or :: "ptr list \<Rightarrow> ptr \<Rightarrow> ptr" where
  "hd_or xs d = (case xs of [] \<Rightarrow> d | x # _ \<Rightarrow> x)"

definition last_or :: "ptr list \<Rightarrow> ptr \<Rightarrow> ptr" where
  "last_or xs d = (if xs = [] then d else last xs)"

lemma hd_or_simps [simp]:
  "hd_or [] d = d" "hd_or (x # xs) d = x" "hd_or (xs @ ys) d = hd_or xs (hd_or ys d)"
  by (simp_all add: hd_or_def split: list.split)

lemma last_or_simps [simp]:
  "last_or [] d = d" "last_or (x # xs) d = last_or xs x"
  "last_or (xs @ ys) d = last_or ys (last_or xs d)"
  by (simp_all add: last_or_def)

lemma hd_or_in: "xs \<noteq> [] \<Longrightarrow> hd_or xs d \<in> set xs"
  by (cases xs) auto

lemma last_or_in: "xs \<noteq> [] \<Longrightarrow> last_or xs d \<in> set xs"
  by (simp add: last_or_def)

lemma hd_or_neq [simp]: "x \<notin> set xs \<Longrightarrow> x \<noteq> d \<Longrightarrow> hd_or xs d \<noteq> x"
  by (cases xs) auto

lemma last_or_neq [simp]: "x \<notin> set xs \<Longrightarrow> x \<noteq> d \<Longrightarrow> last_or xs d \<noteq> x"
  by (auto simp: last_or_def)

lemma hd_or_NULL: "NULL \<notin> set xs \<Longrightarrow> hd_or xs NULL = NULL \<longleftrightarrow> xs = []"
  by (cases xs) auto

lemma last_or_NULL: "NULL \<notin> set xs \<Longrightarrow> last_or xs NULL = NULL \<longleftrightarrow> xs = []"
  by (cases xs rule: rev_cases) auto

section \<open>Machine words\<close>

lemma unat_inc: "(i :: 'a::len word) < n \<Longrightarrow> unat (i + 1) = Suc (unat i)"
proof -
  assume "i < n"
  then have "Suc (unat i) < 2 ^ LENGTH('a)"
    using unsigned_less [of n] by (metis Suc_leI le_less_trans word_less_nat_alt)
  then show ?thesis
    by (simp add: unat_word_ariths)
qed

lemma unat_add_small: "unat a + unat b < 2 ^ LENGTH('a) \<Longrightarrow> unat (a + b :: 'a::len word) = unat a + unat b"
  by (simp add: unat_word_ariths)

lemma unat_mult_small: "unat a * unat b < 2 ^ LENGTH('a) \<Longrightarrow> unat (a * b :: 'a::len word) = unat a * unat b"
  by (simp add: unat_word_ariths)

lemma unat_sub_le: "(b :: 'a::len word) \<le> a \<Longrightarrow> unat (a - b) = unat a - unat b"
  by (simp add: unat_sub)

lemma and_mask_nat: "unat (x AND mask n :: 'a::len word) = unat x mod 2 ^ n"
  by (simp only: take_bit_eq_mask [symmetric] unsigned_take_bit_eq) (simp only: take_bit_eq_mod)

lemma drop_bit_nat: "unat (drop_bit n x :: 'a::len word) = unat x div 2 ^ n"
  by (simp only: unsigned_drop_bit_eq) (simp add: drop_bit_eq_div take_bit_nat_eq_self)

lemma push_bit_nat: "unat x * 2 ^ n < 2 ^ LENGTH('a) \<Longrightarrow> unat (push_bit n x :: 'a::len word) = unat x * 2 ^ n"
  by (simp only: unsigned_push_bit_eq) (simp only: push_bit_eq_mult take_bit_nat_eq_self)

section \<open>Comparison callbacks\<close>

text \<open>
  What a user of an ordered container owes it: an insertion callback that orders the elements by a
  key, and a search callback that orders a key against an element the same way.
\<close>

locale callback_order =
  fixes key :: "'a \<Rightarrow> 'k :: linorder" and ins :: "'a \<Rightarrow> 'a \<Rightarrow> int"
  assumes ins_less: "ins x y < 0 \<longleftrightarrow> key x < key y"
    and ins_greater: "0 < ins x y \<longleftrightarrow> key y < key x"
begin

lemma ins_equal: "ins x y = 0 \<longleftrightarrow> key x = key y"
  using ins_less [of x y] ins_greater [of x y] by (cases "ins x y" "0 :: int" rule: linorder_cases) auto

lemma ins_nonneg: "0 \<le> ins x y \<longleftrightarrow> key y \<le> key x"
  using ins_less [of x y] by (simp add: linorder_not_less [symmetric, of "0"] linorder_not_less [symmetric, of "key y"] del: not_less)

lemma ins_nonpos: "ins x y \<le> 0 \<longleftrightarrow> key x \<le> key y"
  using ins_greater [of x y] by (simp add: linorder_not_less [symmetric, of _ "0"] linorder_not_less [symmetric, of "key x"] del: not_less)

lemma ins_sgn: "sgn (ins x y) = (if key x < key y then - 1 else if key y < key x then 1 else 0)"
  using ins_less [of x y] ins_greater [of x y] by (auto simp: sgn_if)

end

locale search_order = callback_order key ins for key :: "'a \<Rightarrow> 'k :: linorder" and ins +
  fixes srch :: "'q \<Rightarrow> 'a \<Rightarrow> int" and qkey :: "'q \<Rightarrow> 'k"
  assumes srch_less: "srch q y < 0 \<longleftrightarrow> qkey q < key y"
    and srch_greater: "0 < srch q y \<longleftrightarrow> key y < qkey q"
begin

lemma srch_equal: "srch q y = 0 \<longleftrightarrow> qkey q = key y"
  using srch_less [of q y] srch_greater [of q y] by (cases "srch q y" "0 :: int" rule: linorder_cases) auto

lemma srch_sgn: "sgn (srch q y) = (if qkey q < key y then - 1 else if key y < qkey q then 1 else 0)"
  using srch_less [of q y] srch_greater [of q y] by (auto simp: sgn_if)

end

section \<open>Cutting a list\<close>

lemma takeWhile_split:
  assumes "\<forall>y \<in> set ys. P y" and "\<forall>z \<in> set zs. \<not> P z"
  shows "takeWhile P (ys @ zs) = ys" "dropWhile P (ys @ zs) = zs"
  using assms by (induction ys) (auto simp: takeWhile_eq_Nil_iff dropWhile_eq_self_iff)

end
