(* ===== verification/LinkedList.thy ===== *)
theory LinkedList
  imports MX_Prelude
begin

text \<open>
  \<open>CLnkLst\<close> and \<open>CLnkLstNode\<close> of \<open>Include/LinkedList.h\<close>: the intrusive doubly linked list. The
  nodes live in a store; a list object holds its head, its tail and its 64-bit counter. The
  abstraction relation \<open>lst_rep\<close> says which sequence of addresses a list object holds, and
  each operation is shown to perform the corresponding operation on that sequence, without a
  bad dereference. The assertions of the header are compiled out of release builds
  (\<open>MX_ASSERT\<close>) and are not part of the operations.
\<close>

section \<open>Data\<close>

record lnode =
  ln_list :: ptr
  ln_next :: ptr
  ln_prev :: ptr

definition CLnkLstNode :: lnode where
  "CLnkLstNode = \<lparr>ln_list = NULL, ln_next = NULL, ln_prev = NULL\<rparr>"

record lst =
  lst_nodes :: "lnode store"
  lst_head :: ptr
  lst_tail :: ptr
  lst_count :: u64

definition CLnkLst :: "lnode store \<Rightarrow> lst" where
  "CLnkLst h = \<lparr>lst_nodes = h, lst_head = NULL, lst_tail = NULL, lst_count = 0\<rparr>"

section \<open>Operations\<close>

definition lst_IsEmpty :: "lst \<Rightarrow> bool" where
  "lst_IsEmpty s = (lst_head s = NULL)"

definition lst_Remove :: "lst \<Rightarrow> ptr \<Rightarrow> lst option" where
  "lst_Remove s x = do {
     h \<leftarrow> store (lst_nodes s) x (\<lambda>n. n\<lparr>ln_list := NULL\<rparr>);
     hd' \<leftarrow> (if lst_head s = x then map_option ln_next (load h x) else Some (lst_head s));
     tl' \<leftarrow> (if lst_tail s = x then map_option ln_prev (load h x) else Some (lst_tail s));
     n \<leftarrow> load h x;
     h \<leftarrow> (if ln_next n \<noteq> NULL
           then store h (ln_next n) (\<lambda>m. m\<lparr>ln_prev := ln_prev n\<rparr>) else Some h);
     n \<leftarrow> load h x;
     h \<leftarrow> (if ln_prev n \<noteq> NULL
           then store h (ln_prev n) (\<lambda>m. m\<lparr>ln_next := ln_next n\<rparr>) else Some h);
     h \<leftarrow> store h x (\<lambda>n. n\<lparr>ln_next := NULL, ln_prev := NULL\<rparr>);
     Some (s\<lparr>lst_nodes := h, lst_head := hd', lst_tail := tl', lst_count := lst_count s - 1\<rparr>)
   }"

definition lst_PushHead :: "ptr \<Rightarrow> lst \<Rightarrow> ptr \<Rightarrow> lst option" where
  "lst_PushHead this s x = do {
     h \<leftarrow> store (lst_nodes s) x (\<lambda>n. n\<lparr>ln_list := this\<rparr>);
     h \<leftarrow> (if lst_head s \<noteq> NULL
           then store h (lst_head s) (\<lambda>m. m\<lparr>ln_prev := x\<rparr>) else Some h);
     h \<leftarrow> store h x (\<lambda>n. n\<lparr>ln_next := lst_head s\<rparr>);
     Some (s\<lparr>lst_nodes := h, lst_head := x,
             lst_tail := (if lst_tail s = NULL then x else lst_tail s),
             lst_count := lst_count s + 1\<rparr>)
   }"

definition lst_PushTail :: "ptr \<Rightarrow> lst \<Rightarrow> ptr \<Rightarrow> lst option" where
  "lst_PushTail this s x = do {
     h \<leftarrow> store (lst_nodes s) x (\<lambda>n. n\<lparr>ln_list := this\<rparr>);
     h \<leftarrow> (if lst_tail s \<noteq> NULL
           then store h (lst_tail s) (\<lambda>m. m\<lparr>ln_next := x\<rparr>) else Some h);
     h \<leftarrow> store h x (\<lambda>n. n\<lparr>ln_prev := lst_tail s\<rparr>);
     Some (s\<lparr>lst_nodes := h, lst_tail := x,
             lst_head := (if lst_head s = NULL then x else lst_head s),
             lst_count := lst_count s + 1\<rparr>)
   }"

definition lst_PushAfter :: "ptr \<Rightarrow> lst \<Rightarrow> ptr \<Rightarrow> ptr \<Rightarrow> lst option" where
  "lst_PushAfter this s x a =
     (if a = lst_tail s then lst_PushTail this s x
      else if a = NULL then lst_PushHead this s x
      else do {
        h \<leftarrow> store (lst_nodes s) x (\<lambda>n. n\<lparr>ln_list := this\<rparr>);
        an \<leftarrow> load h a;
        h \<leftarrow> store h x (\<lambda>n. n\<lparr>ln_next := ln_next an\<rparr>);
        h \<leftarrow> store h x (\<lambda>n. n\<lparr>ln_prev := a\<rparr>);
        an \<leftarrow> load h a;
        h \<leftarrow> (if ln_next an \<noteq> NULL
              then store h (ln_next an) (\<lambda>m. m\<lparr>ln_prev := x\<rparr>) else Some h);
        h \<leftarrow> store h a (\<lambda>m. m\<lparr>ln_next := x\<rparr>);
        Some (s\<lparr>lst_nodes := h, lst_count := lst_count s + 1\<rparr>)
      })"

definition lst_PushBefore :: "ptr \<Rightarrow> lst \<Rightarrow> ptr \<Rightarrow> ptr \<Rightarrow> lst option" where
  "lst_PushBefore this s x b =
     (if b = lst_head s then lst_PushHead this s x
      else if b = NULL then lst_PushTail this s x
      else do {
        h \<leftarrow> store (lst_nodes s) x (\<lambda>n. n\<lparr>ln_list := this\<rparr>);
        h \<leftarrow> store h x (\<lambda>n. n\<lparr>ln_next := b\<rparr>);
        bn \<leftarrow> load h b;
        h \<leftarrow> store h x (\<lambda>n. n\<lparr>ln_prev := ln_prev bn\<rparr>);
        bn \<leftarrow> load h b;
        h \<leftarrow> (if ln_prev bn \<noteq> NULL
              then store h (ln_prev bn) (\<lambda>m. m\<lparr>ln_next := x\<rparr>) else Some h);
        h \<leftarrow> store h b (\<lambda>m. m\<lparr>ln_prev := x\<rparr>);
        Some (s\<lparr>lst_nodes := h, lst_count := lst_count s + 1\<rparr>)
      })"

definition lst_GetHead :: "lst \<Rightarrow> ptr" where
  "lst_GetHead s = lst_head s"

definition lst_GetTail :: "lst \<Rightarrow> ptr" where
  "lst_GetTail s = lst_tail s"

definition lst_PopHead :: "lst \<Rightarrow> (ptr \<times> lst) option" where
  "lst_PopHead s =
     (let x = lst_head s in
      if x = NULL then Some (NULL, s)
      else do { s \<leftarrow> lst_Remove s (lst_head s); Some (x, s) })"

definition lst_PopTail :: "lst \<Rightarrow> (ptr \<times> lst) option" where
  "lst_PopTail s =
     (let x = lst_tail s in
      if x = NULL then Some (NULL, s)
      else do { s \<leftarrow> lst_Remove s (lst_tail s); Some (x, s) })"

partial_function (option) lst_RemoveAll :: "lst \<Rightarrow> lst option" where
  "lst_RemoveAll s =
     (if lst_head s \<noteq> NULL
      then do { s' \<leftarrow> lst_Remove s (lst_head s); lst_RemoveAll s' }
      else Some s)"

definition lst_GetCount :: "lst \<Rightarrow> u64" where
  "lst_GetCount s = lst_count s"

text \<open>
  The iterators: \<open>Begin\<close> and \<open>Next\<close> return the node under the cursor and advance the cursor
  before the caller sees the node, so the caller may remove it.
\<close>

record lst_iter =
  it_cursor :: ptr
  it_next :: ptr

definition lst_iter_Next :: "lnode store \<Rightarrow> lst_iter \<Rightarrow> (ptr \<times> lst_iter) option" where
  "lst_iter_Next h it =
     (let c = it_next it; it = it\<lparr>it_cursor := c\<rparr> in
      if c = NULL then Some (NULL, it)
      else do { n \<leftarrow> load h c; Some (c, it\<lparr>it_next := ln_next n\<rparr>) })"

definition lst_iter_Begin :: "lst \<Rightarrow> lst_iter \<Rightarrow> (ptr \<times> lst_iter) option" where
  "lst_iter_Begin s it = lst_iter_Next (lst_nodes s) (it\<lparr>it_next := lst_head s\<rparr>)"

definition lst_iterrev_Next :: "lnode store \<Rightarrow> lst_iter \<Rightarrow> (ptr \<times> lst_iter) option" where
  "lst_iterrev_Next h it =
     (let c = it_next it; it = it\<lparr>it_cursor := c\<rparr> in
      if c = NULL then Some (NULL, it)
      else do { n \<leftarrow> load h c; Some (c, it\<lparr>it_next := ln_prev n\<rparr>) })"

definition lst_iterrev_Begin :: "lst \<Rightarrow> lst_iter \<Rightarrow> (ptr \<times> lst_iter) option" where
  "lst_iterrev_Begin s it = lst_iterrev_Next (lst_nodes s) (it\<lparr>it_next := lst_tail s\<rparr>)"

text \<open>The loops that use the iterators collect what the calls return.\<close>

partial_function (option) lst_collect ::
    "(lst_iter \<Rightarrow> (ptr \<times> lst_iter) option) \<Rightarrow> ptr \<Rightarrow> lst_iter \<Rightarrow> ptr list option" where
  "lst_collect nxt x it =
     (if x = NULL then Some []
      else do { (y, it') \<leftarrow> nxt it; xs \<leftarrow> lst_collect nxt y it'; Some (x # xs) })"

section \<open>The sequence a list object holds\<close>

fun dseg :: "lnode store \<Rightarrow> ptr \<Rightarrow> ptr \<Rightarrow> ptr list \<Rightarrow> ptr \<Rightarrow> bool" where
  "dseg h L p [] n = True"
| "dseg h L p (x # xs) n =
     (x \<noteq> NULL \<and> h x = Some \<lparr>ln_list = L, ln_next = hd_or xs n, ln_prev = p\<rparr> \<and> dseg h L x xs n)"

definition lst_rep :: "ptr \<Rightarrow> lst \<Rightarrow> ptr list \<Rightarrow> bool" where
  "lst_rep L s xs \<longleftrightarrow>
     dseg (lst_nodes s) L NULL xs NULL \<and> distinct xs \<and>
     lst_head s = hd_or xs NULL \<and> lst_tail s = last_or xs NULL \<and>
     lst_count s = of_nat (length xs)"

definition unlinked :: "lnode store \<Rightarrow> ptr \<Rightarrow> bool" where
  "unlinked h x \<longleftrightarrow> x \<noteq> NULL \<and> h x = Some CLnkLstNode"

lemma dseg_append [simp]:
  "dseg h L p (xs @ ys) n \<longleftrightarrow> dseg h L p xs (hd_or ys n) \<and> dseg h L (last_or xs p) ys n"
  by (induction xs arbitrary: p) auto

lemma dseg_upd [simp]: "x \<notin> set xs \<Longrightarrow> dseg (h(x \<mapsto> v)) L p xs n = dseg h L p xs n"
  by (induction xs arbitrary: p) auto

lemma dseg_nonnull: "dseg h L p xs n \<Longrightarrow> NULL \<notin> set xs"
  by (induction xs arbitrary: p) auto

lemma dseg_alloc: "dseg h L p xs n \<Longrightarrow> x \<in> set xs \<Longrightarrow> \<exists>v. h x = Some v \<and> ln_list v = L"
  by (induction xs arbitrary: p) auto

lemma dseg_distinct_NULL: "lst_rep L s xs \<Longrightarrow> NULL \<notin> set xs"
  by (auto simp: lst_rep_def dest: dseg_nonnull)

lemma lst_rep_heads:
  assumes "lst_rep L s xs"
  shows "lst_head s = NULL \<longleftrightarrow> xs = []" and "lst_tail s = NULL \<longleftrightarrow> xs = []"
  using assms dseg_distinct_NULL [OF assms] by (simp_all add: lst_rep_def hd_or_NULL last_or_NULL)

lemma unlinked_notin: "unlinked (lst_nodes s) x \<Longrightarrow> lst_rep L s xs \<Longrightarrow> L \<noteq> NULL \<Longrightarrow> x \<notin> set xs"
  by (auto simp: unlinked_def lst_rep_def CLnkLstNode_def dest: dseg_alloc)

lemma lst_rep_empty: "lst_rep L (CLnkLst h) []"
  by (simp add: lst_rep_def CLnkLst_def)

section \<open>What each operation does to the sequence\<close>

text \<open>
  The four removal cases (only node, head, tail, inner node) are the four combinations of an
  empty and a non-empty part before and behind the node.
\<close>

lemma lst_Remove_rep:
  assumes "lst_rep L s (ys @ x # zs)"
  shows "\<exists>s'. lst_Remove s x = Some s' \<and> lst_rep L s' (ys @ zs) \<and> unlinked (lst_nodes s') x \<and>
           (\<forall>y. y \<notin> set (ys @ x # zs) \<longrightarrow> lst_nodes s' y = lst_nodes s y)"
proof (cases ys rule: rev_cases)
  case Nil
  then show ?thesis using assms dseg_distinct_NULL [OF assms]
    by (cases zs)
      (auto simp: lst_rep_def lst_Remove_def unlinked_def CLnkLstNode_def store_simps)
next
  case (snoc ys' a)
  then show ?thesis using assms dseg_distinct_NULL [OF assms]
    by (cases zs)
      (auto simp: lst_rep_def lst_Remove_def unlinked_def CLnkLstNode_def store_simps)
qed

lemma lst_PushHead_rep:
  assumes "lst_rep L s xs" and "unlinked (lst_nodes s) x" and "L \<noteq> NULL"
  shows "\<exists>s'. lst_PushHead L s x = Some s' \<and> lst_rep L s' (x # xs) \<and>
           (\<forall>y. y \<notin> set (x # xs) \<longrightarrow> lst_nodes s' y = lst_nodes s y)"
  using assms unlinked_notin [OF assms(2,1,3)] dseg_distinct_NULL [OF assms(1)]
  by (cases xs)
    (auto simp: lst_rep_def lst_PushHead_def unlinked_def CLnkLstNode_def store_simps last_or_NULL)

lemma lst_PushTail_rep:
  assumes "lst_rep L s xs" and "unlinked (lst_nodes s) x" and "L \<noteq> NULL"
  shows "\<exists>s'. lst_PushTail L s x = Some s' \<and> lst_rep L s' (xs @ [x]) \<and>
           (\<forall>y. y \<notin> set (x # xs) \<longrightarrow> lst_nodes s' y = lst_nodes s y)"
  using assms unlinked_notin [OF assms(2,1,3)] dseg_distinct_NULL [OF assms(1)]
  by (cases xs rule: rev_cases)
    (auto simp: lst_rep_def lst_PushTail_def unlinked_def CLnkLstNode_def store_simps hd_or_NULL)

lemma lst_PushAfter_rep:
  assumes "lst_rep L s (ys @ a # zs)" and "unlinked (lst_nodes s) x" and "L \<noteq> NULL"
  shows "\<exists>s'. lst_PushAfter L s x a = Some s' \<and> lst_rep L s' (ys @ a # x # zs) \<and>
           (\<forall>y. y \<notin> set (x # ys @ a # zs) \<longrightarrow> lst_nodes s' y = lst_nodes s y)"
proof (cases zs)
  case Nil
  then have "a = lst_tail s"
    using assms(1) by (simp add: lst_rep_def)
  then show ?thesis
    using lst_PushTail_rep [OF assms] Nil by (simp add: lst_PushAfter_def)
next
  case (Cons b zs')
  have "a \<noteq> lst_tail s" and "a \<noteq> NULL"
    using assms(1) Cons by (auto simp: lst_rep_def dest: last_or_neq [THEN not_sym])
  then show ?thesis
    using assms Cons unlinked_notin [OF assms(2,1,3)] dseg_distinct_NULL [OF assms(1)]
    by (auto simp: lst_rep_def lst_PushAfter_def unlinked_def CLnkLstNode_def store_simps)
qed

lemma lst_PushBefore_rep:
  assumes "lst_rep L s (ys @ b # zs)" and "unlinked (lst_nodes s) x" and "L \<noteq> NULL"
  shows "\<exists>s'. lst_PushBefore L s x b = Some s' \<and> lst_rep L s' (ys @ x # b # zs) \<and>
           (\<forall>y. y \<notin> set (x # ys @ b # zs) \<longrightarrow> lst_nodes s' y = lst_nodes s y)"
proof (cases ys rule: rev_cases)
  case Nil
  then have "b = lst_head s"
    using assms(1) by (simp add: lst_rep_def)
  then show ?thesis
    using lst_PushHead_rep [OF assms] Nil by (simp add: lst_PushBefore_def)
next
  case (snoc ys' a)
  have "b \<noteq> lst_head s" and "b \<noteq> NULL"
    using assms(1) snoc by (cases ys'; auto simp: lst_rep_def)+
  then show ?thesis
    using assms snoc unlinked_notin [OF assms(2,1,3)] dseg_distinct_NULL [OF assms(1)]
    by (auto simp: lst_rep_def lst_PushBefore_def unlinked_def CLnkLstNode_def store_simps)
qed

lemma lst_PushAfter_NULL:
  assumes "lst_rep L s xs" and "unlinked (lst_nodes s) x" and "L \<noteq> NULL"
  shows "\<exists>s'. lst_PushAfter L s x NULL = Some s' \<and> lst_rep L s' (x # xs)"
  using lst_PushTail_rep [OF assms] lst_PushHead_rep [OF assms] lst_rep_heads(2) [OF assms(1)]
  by (cases "xs = []") (auto simp: lst_PushAfter_def)

lemma lst_PushBefore_NULL:
  assumes "lst_rep L s xs" and "unlinked (lst_nodes s) x" and "L \<noteq> NULL"
  shows "\<exists>s'. lst_PushBefore L s x NULL = Some s' \<and> lst_rep L s' (xs @ [x])"
  using lst_PushTail_rep [OF assms] lst_PushHead_rep [OF assms] lst_rep_heads(1) [OF assms(1)]
  by (cases "xs = []") (auto simp: lst_PushBefore_def)

lemma lst_PopHead_rep:
  assumes "lst_rep L s (x # xs)"
  shows "\<exists>s'. lst_PopHead s = Some (x, s') \<and> lst_rep L s' xs \<and> unlinked (lst_nodes s') x \<and>
           (\<forall>y. y \<notin> set (x # xs) \<longrightarrow> lst_nodes s' y = lst_nodes s y)"
proof -
  have "lst_head s = x" and "x \<noteq> NULL"
    using assms by (auto simp: lst_rep_def)
  then show ?thesis
    using lst_Remove_rep [of L s "[]" x xs] assms by (auto simp: lst_PopHead_def)
qed

lemma lst_PopTail_rep:
  assumes "lst_rep L s (xs @ [x])"
  shows "\<exists>s'. lst_PopTail s = Some (x, s') \<and> lst_rep L s' xs \<and> unlinked (lst_nodes s') x \<and>
           (\<forall>y. y \<notin> set (x # xs) \<longrightarrow> lst_nodes s' y = lst_nodes s y)"
proof -
  have "lst_tail s = x" and "x \<noteq> NULL"
    using assms by (auto simp: lst_rep_def)
  then show ?thesis
    using lst_Remove_rep [of L s xs x "[]"] assms by (auto simp: lst_PopTail_def)
qed

lemma lst_Pop_empty:
  assumes "lst_rep L s []"
  shows "lst_PopHead s = Some (NULL, s)" and "lst_PopTail s = Some (NULL, s)"
  using assms by (simp_all add: lst_rep_def lst_PopHead_def lst_PopTail_def)

lemma unlinked_cong: "h' x = h x \<Longrightarrow> unlinked h' x = unlinked h x"
  by (simp add: unlinked_def)

text \<open>
  \<open>RemoveAll\<close> terminates, empties the list and unlinks every node.
\<close>

lemma lst_RemoveAll_rep:
  assumes "lst_rep L s xs"
  shows "\<exists>s'. lst_RemoveAll s = Some s' \<and> lst_rep L s' [] \<and>
           (\<forall>x \<in> set xs. unlinked (lst_nodes s') x) \<and>
           (\<forall>y. y \<notin> set xs \<longrightarrow> lst_nodes s' y = lst_nodes s y)"
  using assms
proof (induction xs arbitrary: s)
  case Nil
  then show ?case
    by (subst lst_RemoveAll.simps) (simp add: lst_rep_heads(1))
next
  case (Cons x xs)
  have hd: "lst_head s = x" "x \<noteq> NULL" and "x \<notin> set xs"
    using Cons.prems by (auto simp: lst_rep_def)
  obtain s1 where s1: "lst_Remove s x = Some s1" "lst_rep L s1 xs" "unlinked (lst_nodes s1) x"
      "\<forall>y. y \<notin> set (x # xs) \<longrightarrow> lst_nodes s1 y = lst_nodes s y"
    using lst_Remove_rep [of L s "[]" x xs] Cons.prems by auto
  then show ?case
    using Cons.IH [OF s1(2)] hd \<open>x \<notin> set xs\<close>
    by (subst lst_RemoveAll.simps) (auto cong: unlinked_cong)
qed

section \<open>Iteration\<close>

lemma lst_iter_Next_node:
  assumes "x \<noteq> NULL" and "h x = Some n"
  shows "lst_iter_Next h (it\<lparr>it_next := x\<rparr>) = Some (x, it\<lparr>it_cursor := x, it_next := ln_next n\<rparr>)"
    and "lst_iterrev_Next h (it\<lparr>it_next := x\<rparr>) = Some (x, it\<lparr>it_cursor := x, it_next := ln_prev n\<rparr>)"
  using assms by (simp_all add: lst_iter_Next_def lst_iterrev_Next_def load_nonnull)

lemma lst_collect_forward:
  assumes "dseg h L p xs NULL"
  shows "\<exists>it'. lst_iter_Next h (it\<lparr>it_next := hd_or xs NULL\<rparr>) = Some (hd_or xs NULL, it') \<and>
           lst_collect (lst_iter_Next h) (hd_or xs NULL) it' = Some xs"
  using assms
proof (induction xs arbitrary: p it)
  case Nil
  then show ?case
    by (subst lst_collect.simps) (simp add: lst_iter_Next_def)
next
  case (Cons x xs)
  let ?it = "it\<lparr>it_cursor := x\<rparr>"
  have x: "x \<noteq> NULL" "h x = Some \<lparr>ln_list = L, ln_next = hd_or xs NULL, ln_prev = p\<rparr>"
    and rest: "dseg h L x xs NULL"
    using Cons.prems by auto
  obtain it' where "lst_iter_Next h (?it\<lparr>it_next := hd_or xs NULL\<rparr>) = Some (hd_or xs NULL, it')"
      "lst_collect (lst_iter_Next h) (hd_or xs NULL) it' = Some xs"
    using Cons.IH [OF rest] by blast
  then have "lst_collect (lst_iter_Next h) x (?it\<lparr>it_next := hd_or xs NULL\<rparr>) = Some (x # xs)"
    using x(1) by (subst lst_collect.simps) simp
  then show ?case
    using lst_iter_Next_node(1) [of x h, OF x] by simp
qed

lemma lst_collect_backward:
  assumes "dseg h L NULL xs n"
  shows "\<exists>it'. lst_iterrev_Next h (it\<lparr>it_next := last_or xs NULL\<rparr>) = Some (last_or xs NULL, it') \<and>
           lst_collect (lst_iterrev_Next h) (last_or xs NULL) it' = Some (rev xs)"
  using assms
proof (induction xs arbitrary: n it rule: rev_induct)
  case Nil
  then show ?case
    by (subst lst_collect.simps) (simp add: lst_iterrev_Next_def)
next
  case (snoc x xs)
  let ?it = "it\<lparr>it_cursor := x\<rparr>"
  have x: "x \<noteq> NULL" "h x = Some \<lparr>ln_list = L, ln_next = n, ln_prev = last_or xs NULL\<rparr>"
    and rest: "dseg h L NULL xs x"
    using snoc.prems by auto
  obtain it' where "lst_iterrev_Next h (?it\<lparr>it_next := last_or xs NULL\<rparr>) = Some (last_or xs NULL, it')"
      "lst_collect (lst_iterrev_Next h) (last_or xs NULL) it' = Some (rev xs)"
    using snoc.IH [OF rest] by blast
  then have "lst_collect (lst_iterrev_Next h) x (?it\<lparr>it_next := last_or xs NULL\<rparr>) = Some (x # rev xs)"
    using x(1) by (subst lst_collect.simps) simp
  then show ?case
    using lst_iter_Next_node(2) [of x h, OF x] by simp
qed

section \<open>Several lists over one node store\<close>

text \<open>
  \<open>CLnkLstNode::Remove\<close> goes through the node's own list pointer, so the state is the node
  store together with every list object. Operations on one list leave the others as they are.
\<close>

record lobj =
  lo_head :: ptr
  lo_tail :: ptr
  lo_count :: u64

record lsys =
  ls_nodes :: "lnode store"
  ls_lists :: "lobj store"

definition open_list :: "lsys \<Rightarrow> lobj \<Rightarrow> lst" where
  "open_list w b = \<lparr>lst_nodes = ls_nodes w, lst_head = lo_head b, lst_tail = lo_tail b,
                    lst_count = lo_count b\<rparr>"

definition close_list :: "lsys \<Rightarrow> ptr \<Rightarrow> lst \<Rightarrow> lsys" where
  "close_list w L s = \<lparr>ls_nodes = lst_nodes s,
     ls_lists = (ls_lists w)(L \<mapsto> \<lparr>lo_head = lst_head s, lo_tail = lst_tail s, lo_count = lst_count s\<rparr>)\<rparr>"

definition node_Remove :: "lsys \<Rightarrow> ptr \<Rightarrow> lsys option" where
  "node_Remove w x = do {
     n \<leftarrow> load (ls_nodes w) x;
     if ln_list n \<noteq> NULL
     then do { b \<leftarrow> load (ls_lists w) (ln_list n);
               s \<leftarrow> lst_Remove (open_list w b) x;
               Some (close_list w (ln_list n) s) }
     else Some w
   }"

definition lsys_rep :: "lsys \<Rightarrow> ptr \<Rightarrow> ptr list \<Rightarrow> bool" where
  "lsys_rep w L xs \<longleftrightarrow> L \<noteq> NULL \<and> (\<exists>b. ls_lists w L = Some b \<and> lst_rep L (open_list w b) xs)"

lemma dseg_cong: "(\<And>x. x \<in> set xs \<Longrightarrow> h' x = h x) \<Longrightarrow> dseg h' L p xs n = dseg h L p xs n"
  by (induction xs arbitrary: p) auto

lemma lst_open_close [simp]:
  "ls_lists (close_list w L s) L' =
     (if L' = L then Some \<lparr>lo_head = lst_head s, lo_tail = lst_tail s, lo_count = lst_count s\<rparr>
      else ls_lists w L')"
  "ls_nodes (close_list w L s) = lst_nodes s"
  "open_list (close_list w L s) \<lparr>lo_head = lst_head s, lo_tail = lst_tail s, lo_count = lst_count s\<rparr> = s"
  by (simp_all add: close_list_def open_list_def)

lemma lsys_disjoint:
  assumes "lsys_rep w L xs" and "lsys_rep w L' xs'" and "L \<noteq> L'"
  shows "set xs \<inter> set xs' = {}"
  using assms by (fastforce simp: lsys_rep_def lst_rep_def open_list_def dest: dseg_alloc)

lemma lsys_rep_frame:
  assumes "lsys_rep w L' xs'" and "L' \<noteq> L"
    and "\<And>y. y \<in> set xs' \<Longrightarrow> lst_nodes s y = ls_nodes w y"
  shows "lsys_rep (close_list w L s) L' xs'"
  using assms dseg_cong [of xs' "lst_nodes s" "ls_nodes w"]
  by (auto simp: lsys_rep_def lst_rep_def open_list_def)

lemma node_Remove_rep:
  assumes "lsys_rep w L (ys @ x # zs)"
  shows "\<exists>w'. node_Remove w x = Some w' \<and> lsys_rep w' L (ys @ zs) \<and> unlinked (ls_nodes w') x \<and>
           (\<forall>L' xs'. L' \<noteq> L \<longrightarrow> lsys_rep w L' xs' \<longrightarrow> lsys_rep w' L' xs')"
proof -
  obtain b where b: "ls_lists w L = Some b" "lst_rep L (open_list w b) (ys @ x # zs)" "L \<noteq> NULL"
    using assms by (auto simp: lsys_rep_def)
  then obtain n where n: "ls_nodes w x = Some n" "ln_list n = L" "x \<noteq> NULL"
    by (auto simp: lst_rep_def open_list_def)
  obtain s' where s': "lst_Remove (open_list w b) x = Some s'" "lst_rep L s' (ys @ zs)"
      "unlinked (lst_nodes s') x"
      "\<And>y. y \<notin> set (ys @ x # zs) \<Longrightarrow> lst_nodes s' y = ls_nodes w y"
    using lst_Remove_rep [OF b(2)] by (auto simp: open_list_def)
  have "node_Remove w x = Some (close_list w L s')"
    using b n s' by (simp add: node_Remove_def load_nonnull)
  moreover have "lsys_rep (close_list w L s') L (ys @ zs)"
    using s' b by (simp add: lsys_rep_def)
  moreover have "lsys_rep (close_list w L s') L' xs'" if "L' \<noteq> L" "lsys_rep w L' xs'" for L' xs'
    using lsys_disjoint [OF assms that(2)] that by (auto intro!: lsys_rep_frame s'(4))
  ultimately show ?thesis
    using s' by auto
qed

lemma node_Remove_unlinked: "unlinked (ls_nodes w) x \<Longrightarrow> node_Remove w x = Some w"
  by (simp add: unlinked_def node_Remove_def load_nonnull CLnkLstNode_def)

section \<open>Runs of operations\<close>

text \<open>
  The operations as commands, what each does to a sequence, and when a call is within the
  contract of the header: a pushed node belongs to the pool and is in no list, a removed or
  reference node is in this list.
\<close>

datatype lst_op =
    PushHead ptr | PushTail ptr | PushAfter ptr ptr | PushBefore ptr ptr
  | Remove ptr | PopHead | PopTail | RemoveAll

definition lst_call :: "ptr \<Rightarrow> lst_op \<Rightarrow> lst \<Rightarrow> (ptr \<times> lst) option" where
  "lst_call L c s = (case c of
     PushHead x \<Rightarrow> map_option (Pair NULL) (lst_PushHead L s x)
   | PushTail x \<Rightarrow> map_option (Pair NULL) (lst_PushTail L s x)
   | PushAfter x a \<Rightarrow> map_option (Pair NULL) (lst_PushAfter L s x a)
   | PushBefore x b \<Rightarrow> map_option (Pair NULL) (lst_PushBefore L s x b)
   | Remove x \<Rightarrow> map_option (Pair NULL) (lst_Remove s x)
   | PopHead \<Rightarrow> lst_PopHead s
   | PopTail \<Rightarrow> lst_PopTail s
   | RemoveAll \<Rightarrow> map_option (Pair NULL) (lst_RemoveAll s))"

fun lst_run :: "ptr \<Rightarrow> lst_op list \<Rightarrow> lst \<Rightarrow> (ptr list \<times> lst) option" where
  "lst_run L [] s = Some ([], s)"
| "lst_run L (c # cs) s =
     do { (r, s) \<leftarrow> lst_call L c s; (rs, s) \<leftarrow> lst_run L cs s; Some (r # rs, s) }"

fun ins_after :: "ptr \<Rightarrow> ptr \<Rightarrow> ptr list \<Rightarrow> ptr list" where
  "ins_after x a [] = []"
| "ins_after x a (y # ys) = (if y = a then y # x # ys else y # ins_after x a ys)"

fun ins_before :: "ptr \<Rightarrow> ptr \<Rightarrow> ptr list \<Rightarrow> ptr list" where
  "ins_before x b [] = []"
| "ins_before x b (y # ys) = (if y = b then x # y # ys else y # ins_before x b ys)"

fun seq_step :: "lst_op \<Rightarrow> ptr list \<Rightarrow> ptr \<times> ptr list" where
  "seq_step (PushHead x) xs = (NULL, x # xs)"
| "seq_step (PushTail x) xs = (NULL, xs @ [x])"
| "seq_step (PushAfter x a) xs = (NULL, if a = NULL then x # xs else ins_after x a xs)"
| "seq_step (PushBefore x b) xs = (NULL, if b = NULL then xs @ [x] else ins_before x b xs)"
| "seq_step (Remove x) xs = (NULL, remove1 x xs)"
| "seq_step PopHead xs = (hd_or xs NULL, tl xs)"
| "seq_step PopTail xs = (last_or xs NULL, butlast xs)"
| "seq_step RemoveAll xs = (NULL, [])"

fun seq_legal :: "ptr set \<Rightarrow> lst_op \<Rightarrow> ptr list \<Rightarrow> bool" where
  "seq_legal P (PushHead x) xs = (x \<in> P - set xs)"
| "seq_legal P (PushTail x) xs = (x \<in> P - set xs)"
| "seq_legal P (PushAfter x a) xs = (x \<in> P - set xs \<and> (a = NULL \<or> a \<in> set xs))"
| "seq_legal P (PushBefore x b) xs = (x \<in> P - set xs \<and> (b = NULL \<or> b \<in> set xs))"
| "seq_legal P (Remove x) xs = (x \<in> set xs)"
| "seq_legal P PopHead xs = True"
| "seq_legal P PopTail xs = True"
| "seq_legal P RemoveAll xs = True"

fun seq_run :: "lst_op list \<Rightarrow> ptr list \<Rightarrow> ptr list \<times> ptr list" where
  "seq_run [] xs = ([], xs)"
| "seq_run (c # cs) xs =
     (let (r, xs) = seq_step c xs; (rs, xs) = seq_run cs xs in (r # rs, xs))"

fun run_legal :: "ptr set \<Rightarrow> lst_op list \<Rightarrow> ptr list \<Rightarrow> bool" where
  "run_legal P [] xs = True"
| "run_legal P (c # cs) xs = (seq_legal P c xs \<and> run_legal P cs (snd (seq_step c xs)))"

definition pool_rep :: "ptr \<Rightarrow> ptr set \<Rightarrow> lst \<Rightarrow> ptr list \<Rightarrow> bool" where
  "pool_rep L P s xs \<longleftrightarrow> L \<noteq> NULL \<and> lst_rep L s xs \<and> set xs \<subseteq> P \<and>
     (\<forall>x \<in> P - set xs. unlinked (lst_nodes s) x)"

lemma ins_after_split: "a \<notin> set ys \<Longrightarrow> ins_after x a (ys @ a # zs) = ys @ a # x # zs"
  by (induction ys) auto

lemma ins_before_split: "b \<notin> set ys \<Longrightarrow> ins_before x b (ys @ b # zs) = ys @ x # b # zs"
  by (induction ys) auto

lemma lst_rep_split:
  assumes "lst_rep L s xs" and "x \<in> set xs"
  obtains ys zs where "xs = ys @ x # zs" "x \<notin> set ys" "x \<notin> set zs"
  using assms by (auto simp: lst_rep_def dest!: split_list)

text \<open>A push or a removal in the pool, from the facts about its frame.\<close>

lemma pool_push:
  assumes "pool_rep L P s xs" and "x \<in> P - set xs"
    and "lst_rep L s' xs'" and "set xs' = insert x (set xs)"
    and "\<And>y. y \<notin> insert x (set xs) \<Longrightarrow> lst_nodes s' y = lst_nodes s y"
  shows "pool_rep L P s' xs'"
  using assms by (auto simp: pool_rep_def unlinked_def)

lemma pool_drop:
  assumes "pool_rep L P s xs" and "lst_rep L s' xs'" and "set xs' \<subseteq> set xs"
    and "\<And>y. y \<in> set xs - set xs' \<Longrightarrow> unlinked (lst_nodes s') y"
    and "\<And>y. y \<notin> set xs \<Longrightarrow> lst_nodes s' y = lst_nodes s y"
  shows "pool_rep L P s' xs'"
  using assms unfolding pool_rep_def by (metis DiffD1 DiffD2 DiffI subset_trans unlinked_cong)

text \<open>Each operation refines its step on the sequence, operation by operation.\<close>

definition refines_step :: "ptr \<Rightarrow> ptr set \<Rightarrow> lst_op \<Rightarrow> lst \<Rightarrow> ptr list \<Rightarrow> bool" where
  "refines_step L P c s xs \<longleftrightarrow>
     (\<exists>s'. lst_call L c s = Some (fst (seq_step c xs), s') \<and> pool_rep L P s' (snd (seq_step c xs)))"

lemma pool_repD:
  assumes "pool_rep L P s xs"
  shows "L \<noteq> NULL" "lst_rep L s xs" "x \<in> P - set xs \<Longrightarrow> unlinked (lst_nodes s) x"
  using assms by (auto simp: pool_rep_def)

lemma refines_push_ends:
  assumes "pool_rep L P s xs" and "x \<in> P - set xs"
  shows "refines_step L P (PushHead x) s xs" and "refines_step L P (PushTail x) s xs"
  using lst_PushHead_rep [of L s xs x] lst_PushTail_rep [of L s xs x]
    pool_repD [OF assms(1)] assms
  by (fastforce simp: refines_step_def lst_call_def intro!: pool_push [OF assms])+

lemma refines_push_after:
  assumes "pool_rep L P s xs" and "x \<in> P - set xs" and "a = NULL \<or> a \<in> set xs"
  shows "refines_step L P (PushAfter x a) s xs"
proof (cases "a = NULL")
  case True
  show ?thesis
  proof (cases "xs = []")
    case True
    then have "lst_PushAfter L s x a = lst_PushTail L s x"
      using \<open>a = NULL\<close> lst_rep_heads(2) [OF pool_repD(2) [OF assms(1)]] by (simp add: lst_PushAfter_def)
    then show ?thesis
      using refines_push_ends(2) [OF assms(1,2)] True \<open>a = NULL\<close>
      by (simp add: refines_step_def lst_call_def)
  next
    case False
    then have "lst_PushAfter L s x a = lst_PushHead L s x"
      using \<open>a = NULL\<close> lst_rep_heads(2) [OF pool_repD(2) [OF assms(1)]] by (simp add: lst_PushAfter_def)
    then show ?thesis
      using refines_push_ends(1) [OF assms(1,2)] \<open>a = NULL\<close>
      by (simp add: refines_step_def lst_call_def)
  qed
next
  case False
  with assms(3) obtain ys zs where xs: "xs = ys @ a # zs" "a \<notin> set ys"
    using lst_rep_split [OF pool_repD(2) [OF assms(1)]] by metis
  then obtain s' where s': "lst_PushAfter L s x a = Some s'" "lst_rep L s' (ys @ a # x # zs)"
      "\<forall>y. y \<notin> set (x # ys @ a # zs) \<longrightarrow> lst_nodes s' y = lst_nodes s y"
    using lst_PushAfter_rep [of L s ys a zs x] pool_repD [OF assms(1)] assms(2) by auto
  then have "pool_rep L P s' (ys @ a # x # zs)"
    using xs by (intro pool_push [OF assms(1,2)]) auto
  then show ?thesis
    using s' xs False by (simp add: refines_step_def lst_call_def ins_after_split)
qed

lemma refines_push_before:
  assumes "pool_rep L P s xs" and "x \<in> P - set xs" and "b = NULL \<or> b \<in> set xs"
  shows "refines_step L P (PushBefore x b) s xs"
proof (cases "b = NULL")
  case True
  show ?thesis
  proof (cases "xs = []")
    case True
    then have "lst_PushBefore L s x b = lst_PushHead L s x"
      using \<open>b = NULL\<close> lst_rep_heads(1) [OF pool_repD(2) [OF assms(1)]] by (simp add: lst_PushBefore_def)
    then show ?thesis
      using refines_push_ends(1) [OF assms(1,2)] True \<open>b = NULL\<close>
      by (simp add: refines_step_def lst_call_def)
  next
    case False
    then have "lst_PushBefore L s x b = lst_PushTail L s x"
      using \<open>b = NULL\<close> lst_rep_heads(1) [OF pool_repD(2) [OF assms(1)]] by (simp add: lst_PushBefore_def)
    then show ?thesis
      using refines_push_ends(2) [OF assms(1,2)] \<open>b = NULL\<close>
      by (simp add: refines_step_def lst_call_def)
  qed
next
  case False
  with assms(3) obtain ys zs where xs: "xs = ys @ b # zs" "b \<notin> set ys"
    using lst_rep_split [OF pool_repD(2) [OF assms(1)]] by metis
  then obtain s' where s': "lst_PushBefore L s x b = Some s'" "lst_rep L s' (ys @ x # b # zs)"
      "\<forall>y. y \<notin> set (x # ys @ b # zs) \<longrightarrow> lst_nodes s' y = lst_nodes s y"
    using lst_PushBefore_rep [of L s ys b zs x] pool_repD [OF assms(1)] assms(2) by auto
  then have "pool_rep L P s' (ys @ x # b # zs)"
    using xs by (intro pool_push [OF assms(1,2)]) auto
  then show ?thesis
    using s' xs False by (simp add: refines_step_def lst_call_def ins_before_split)
qed

lemma refines_remove:
  assumes "pool_rep L P s xs" and "x \<in> set xs"
  shows "refines_step L P (Remove x) s xs"
proof -
  obtain ys zs where xs: "xs = ys @ x # zs" "x \<notin> set ys" "x \<notin> set zs"
    using lst_rep_split [OF pool_repD(2) [OF assms(1)] assms(2)] by metis
  obtain s' where s': "lst_Remove s x = Some s'" "lst_rep L s' (ys @ zs)" "unlinked (lst_nodes s') x"
      "\<forall>y. y \<notin> set (ys @ x # zs) \<longrightarrow> lst_nodes s' y = lst_nodes s y"
    using lst_Remove_rep [of L s ys x zs] pool_repD(2) [OF assms(1)] xs by auto
  then have "pool_rep L P s' (ys @ zs)"
    using xs by (intro pool_drop [OF assms(1)]) auto
  then show ?thesis
    using s' xs by (simp add: refines_step_def lst_call_def remove1_append)
qed

lemma refines_pop:
  assumes "pool_rep L P s xs"
  shows "refines_step L P PopHead s xs" and "refines_step L P PopTail s xs"
proof -
  note rep = pool_repD(2) [OF assms]
  show "refines_step L P PopHead s xs"
  proof (cases xs)
    case Nil
    then show ?thesis
      using lst_Pop_empty rep assms by (auto simp: refines_step_def lst_call_def)
  next
    case (Cons x ys)
    then obtain s' where s': "lst_PopHead s = Some (x, s')" "lst_rep L s' ys" "unlinked (lst_nodes s') x"
        "\<forall>y. y \<notin> set (x # ys) \<longrightarrow> lst_nodes s' y = lst_nodes s y"
      using lst_PopHead_rep rep by blast
    then have "pool_rep L P s' ys"
      using Cons by (intro pool_drop [OF assms]) auto
    then show ?thesis
      using s' Cons by (simp add: refines_step_def lst_call_def)
  qed
  show "refines_step L P PopTail s xs"
  proof (cases xs rule: rev_cases)
    case Nil
    then show ?thesis
      using lst_Pop_empty rep assms by (auto simp: refines_step_def lst_call_def)
  next
    case (snoc ys x)
    then obtain s' where s': "lst_PopTail s = Some (x, s')" "lst_rep L s' ys" "unlinked (lst_nodes s') x"
        "\<forall>y. y \<notin> set (x # ys) \<longrightarrow> lst_nodes s' y = lst_nodes s y"
      using lst_PopTail_rep rep by blast
    then have "pool_rep L P s' ys"
      using snoc by (intro pool_drop [OF assms]) auto
    then show ?thesis
      using s' snoc by (simp add: refines_step_def lst_call_def)
  qed
qed

lemma refines_remove_all:
  assumes "pool_rep L P s xs"
  shows "refines_step L P RemoveAll s xs"
proof -
  obtain s' where s': "lst_RemoveAll s = Some s'" "lst_rep L s' []"
      "\<forall>x \<in> set xs. unlinked (lst_nodes s') x" "\<forall>y. y \<notin> set xs \<longrightarrow> lst_nodes s' y = lst_nodes s y"
    using lst_RemoveAll_rep [OF pool_repD(2) [OF assms]] by blast
  then have "pool_rep L P s' []"
    by (intro pool_drop [OF assms]) auto
  then show ?thesis
    using s' by (simp add: refines_step_def lst_call_def)
qed

lemma lst_call_refines: "pool_rep L P s xs \<Longrightarrow> seq_legal P c xs \<Longrightarrow> refines_step L P c s xs"
  by (cases c)
    (simp_all add: refines_push_ends refines_push_after refines_push_before refines_remove
      refines_pop refines_remove_all)

lemma lst_run_pool:
  assumes "pool_rep L P s xs" and "run_legal P cs xs"
  shows "\<exists>s'. lst_run L cs s = Some (fst (seq_run cs xs), s') \<and> pool_rep L P s' (snd (seq_run cs xs))"
  using assms
proof (induction cs arbitrary: s xs)
  case Nil
  then show ?case by simp
next
  case (Cons c cs)
  then obtain s1 where s1: "lst_call L c s = Some (fst (seq_step c xs), s1)"
      "pool_rep L P s1 (snd (seq_step c xs))"
    using lst_call_refines [of L P s xs c] by (auto simp: refines_step_def)
  then obtain s2 where "lst_run L cs s1 = Some (fst (seq_run cs (snd (seq_step c xs))), s2)"
      "pool_rep L P s2 (snd (seq_run cs (snd (seq_step c xs))))"
    using Cons.IH Cons.prems by auto
  then show ?case
    using s1 by (simp add: case_prod_unfold Let_def)
qed

section \<open>The list as a queue\<close>

text \<open>
  The interface of a first-in first-out queue over a partial state: what a client that only
  appends and takes may rely on. Both directions of the linked list provide it.
\<close>

fun enq_all :: "('s \<Rightarrow> ptr \<Rightarrow> 's option) \<Rightarrow> 's \<Rightarrow> ptr list \<Rightarrow> 's option" where
  "enq_all enq s [] = Some s"
| "enq_all enq s (x # xs) = do { s \<leftarrow> enq s x; enq_all enq s xs }"

fun deq_n :: "('s \<Rightarrow> (ptr \<times> 's) option) \<Rightarrow> 's \<Rightarrow> nat \<Rightarrow> (ptr list \<times> 's) option" where
  "deq_n deq s 0 = Some ([], s)"
| "deq_n deq s (Suc n) = do { (x, s) \<leftarrow> deq s; (xs, s) \<leftarrow> deq_n deq s n; Some (x # xs, s) }"

locale fifo_queue =
  fixes enq :: "'s \<Rightarrow> ptr \<Rightarrow> 's option"
    and deq :: "'s \<Rightarrow> (ptr \<times> 's) option"
    and rep :: "'s \<Rightarrow> ptr list \<Rightarrow> bool"
    and free :: "'s \<Rightarrow> ptr \<Rightarrow> bool"
  assumes enq_law: "rep s xs \<Longrightarrow> free s x \<Longrightarrow>
      \<exists>s'. enq s x = Some s' \<and> rep s' (xs @ [x]) \<and> (\<forall>y. y \<noteq> x \<longrightarrow> free s y \<longrightarrow> free s' y)"
    and deq_law: "rep s (x # xs) \<Longrightarrow> \<exists>s'. deq s = Some (x, s') \<and> rep s' xs"
begin

lemma enq_all_rep:
  "rep s xs \<Longrightarrow> distinct ys \<Longrightarrow> (\<forall>y \<in> set ys. free s y) \<Longrightarrow>
    \<exists>s'. enq_all enq s ys = Some s' \<and> rep s' (xs @ ys)"
proof (induction ys arbitrary: s xs)
  case Nil
  then show ?case by simp
next
  case (Cons y ys)
  then obtain s1 where s1: "enq s y = Some s1" "rep s1 (xs @ [y])" "\<forall>z \<in> set ys. free s1 z"
    using enq_law [of s xs y] by fastforce
  then show ?case
    using Cons.IH [of s1 "xs @ [y]"] Cons.prems by auto
qed

lemma deq_n_rep: "rep s (xs @ ys) \<Longrightarrow> \<exists>s'. deq_n deq s (length xs) = Some (xs, s') \<and> rep s' ys"
proof (induction xs arbitrary: s)
  case Nil
  then show ?case by simp
next
  case (Cons x xs)
  then obtain s1 where s1: "deq s = Some (x, s1)" "rep s1 (xs @ ys)"
    using deq_law [of s x "xs @ ys"] by auto
  then obtain s2 where "deq_n deq s1 (length xs) = Some (xs, s2)" "rep s2 ys"
    using Cons.IH by blast
  then show ?case
    using s1 by simp
qed

lemma fifo:
  assumes "rep s []" and "distinct ys" and "\<forall>y \<in> set ys. free s y"
  shows "\<exists>s' s''. enq_all enq s ys = Some s' \<and> deq_n deq s' (length ys) = Some (ys, s'') \<and> rep s'' []"
proof -
  obtain s' where "enq_all enq s ys = Some s'" "rep s' ys"
    using enq_all_rep [OF assms] by auto
  then show ?thesis
    using deq_n_rep [of s' ys "[]"] by auto
qed

end

definition owns :: "ptr \<Rightarrow> lst \<Rightarrow> ptr list \<Rightarrow> bool" where
  "owns L s xs \<longleftrightarrow> L \<noteq> NULL \<and> lst_rep L s xs"

lemma owns_push:
  assumes "owns L s xs" and "unlinked (lst_nodes s) x"
    and "\<exists>s'. f L s x = Some s' \<and> lst_rep L s' xs' \<and>
           (\<forall>y. y \<notin> set (x # xs) \<longrightarrow> lst_nodes s' y = lst_nodes s y)"
  shows "\<exists>s'. f L s x = Some s' \<and> owns L s' xs' \<and>
           (\<forall>y. y \<noteq> x \<longrightarrow> unlinked (lst_nodes s) y \<longrightarrow> unlinked (lst_nodes s') y)"
proof -
  obtain s' where s': "f L s x = Some s'" "lst_rep L s' xs'"
      "\<And>y. y \<notin> set (x # xs) \<Longrightarrow> lst_nodes s' y = lst_nodes s y"
    using assms(3) by blast
  have "unlinked (lst_nodes s') y" if "y \<noteq> x" "unlinked (lst_nodes s) y" for y
    using that s'(3) [of y] unlinked_notin [of s y L xs] assms(1) by (auto simp: owns_def unlinked_def)
  then show ?thesis
    using s' assms(1) by (auto simp: owns_def)
qed

interpretation tail_to_head: fifo_queue "lst_PushTail L" lst_PopHead "owns L" "\<lambda>s. unlinked (lst_nodes s)"
proof unfold_locales
  fix s xs x
  assume "owns L s xs" and "unlinked (lst_nodes s) x"
  then show "\<exists>s'. lst_PushTail L s x = Some s' \<and> owns L s' (xs @ [x]) \<and>
      (\<forall>y. y \<noteq> x \<longrightarrow> unlinked (lst_nodes s) y \<longrightarrow> unlinked (lst_nodes s') y)"
    using lst_PushTail_rep [of L s xs x] by (intro owns_push) (auto simp: owns_def)
next
  fix s x xs
  assume "owns L s (x # xs)"
  then show "\<exists>s'. lst_PopHead s = Some (x, s') \<and> owns L s' xs"
    using lst_PopHead_rep [of L s x xs] by (auto simp: owns_def)
qed

interpretation head_to_tail: fifo_queue "lst_PushHead L" lst_PopTail "\<lambda>s xs. owns L s (rev xs)"
    "\<lambda>s. unlinked (lst_nodes s)"
proof unfold_locales
  fix s xs x
  assume "owns L s (rev xs)" and "unlinked (lst_nodes s) x"
  then show "\<exists>s'. lst_PushHead L s x = Some s' \<and> owns L s' (rev (xs @ [x])) \<and>
      (\<forall>y. y \<noteq> x \<longrightarrow> unlinked (lst_nodes s) y \<longrightarrow> unlinked (lst_nodes s') y)"
    using lst_PushHead_rep [of L s "rev xs" x]
    by (intro owns_push [of L s "rev xs" x lst_PushHead "rev (xs @ [x])"]) (auto simp: owns_def)
next
  fix s x xs
  assume "owns L s (rev (x # xs))"
  then show "\<exists>s'. lst_PopTail s = Some (x, s') \<and> owns L s' (rev xs)"
    using lst_PopTail_rep [of L s "rev xs" x] by (auto simp: owns_def)
qed


section \<open>Properties\<close>

definition pool :: "ptr list \<Rightarrow> lnode store" where
  "pool xs = map_of (map (\<lambda>x. (x, CLnkLstNode)) xs)"

lemma pool_unlinked: "x \<in> set xs \<Longrightarrow> x \<noteq> NULL \<Longrightarrow> unlinked (pool xs) x"
  by (induction xs) (auto simp: unlinked_def pool_def)

lemma pool_rep_new: "L \<noteq> NULL \<Longrightarrow> NULL \<notin> set xs \<Longrightarrow> pool_rep L (set xs) (CLnkLst (pool xs)) []"
  by (auto simp: pool_rep_def lst_rep_empty) (metis CLnkLst_def lst.select_convs(1) pool_unlinked)

text \<open>
  C11. Every run of list operations that respects the contract of \<open>CLnkLst\<close> (push a node that is
  in no list, remove or refer to a node of this list) performs no bad dereference, terminates,
  returns what the same run returns on a plain sequence, and leaves the list object holding
  exactly that sequence, with correct links in both directions, head, tail and count, and with
  every other node of the pool unlinked.
\<close>

theorem lst_run_refines:
  assumes "pool_rep L P s xs" and "run_legal P cs xs"
  shows "\<exists>s'. lst_run L cs s = Some (fst (seq_run cs xs), s') \<and> pool_rep L P s' (snd (seq_run cs xs))"
  using assms by (rule lst_run_pool)

lemma lst_run_refines_witness:
  "\<exists>s'. lst_run 9 [PushTail 1, PushHead 2, PushAfter 3 2, PushBefore 4 1, Remove 3, PopTail, PopHead]
          (CLnkLst (pool [1, 2, 3, 4])) = Some ([0, 0, 0, 0, 0, 1, 2], s') \<and>
        pool_rep 9 {1, 2, 3, 4} s' [4]"
proof -
  have "pool_rep 9 (set [1, 2, 3, 4]) (CLnkLst (pool [1, 2, 3, 4])) []"
    by (rule pool_rep_new) simp_all
  from lst_run_refines [OF this, of "[PushTail 1, PushHead 2, PushAfter 3 2, PushBefore 4 1, Remove 3, PopTail, PopHead]"]
  show ?thesis by simp
qed

text \<open>
  \<open>Iterator\<close> and \<open>IteratorRev\<close> visit the nodes of the list once each, in order and in reverse
  order, and end, from any state of the iterator object.
\<close>

theorem lst_iterate:
  assumes "lst_rep L s xs"
  shows "do { (x, it) \<leftarrow> lst_iter_Begin s it; lst_collect (lst_iter_Next (lst_nodes s)) x it } = Some xs \<and>
    do { (x, it) \<leftarrow> lst_iterrev_Begin s it; lst_collect (lst_iterrev_Next (lst_nodes s)) x it } = Some (rev xs)"
  using lst_collect_forward [of "lst_nodes s" L NULL xs it] lst_collect_backward [of "lst_nodes s" L xs NULL it] assms
  by (auto simp: lst_rep_def lst_iter_Begin_def lst_iterrev_Begin_def)

lemma lst_iterate_witness:
  "\<exists>s. lst_run 9 [PushTail 1, PushHead 2, PushAfter 3 2] (CLnkLst (pool [1, 2, 3])) = Some ([0, 0, 0], s) \<and>
     do { (x, it) \<leftarrow> lst_iterrev_Begin s \<lparr>it_cursor = 7, it_next = 7\<rparr>;
          lst_collect (lst_iterrev_Next (lst_nodes s)) x it } = Some [1, 3, 2]"
proof -
  have "pool_rep 9 (set [1, 2, 3]) (CLnkLst (pool [1, 2, 3])) []"
    by (rule pool_rep_new) simp_all
  from lst_run_pool [OF this, of "[PushTail 1, PushHead 2, PushAfter 3 2]"]
  obtain s where "lst_run 9 [PushTail 1, PushHead 2, PushAfter 3 2] (CLnkLst (pool [1, 2, 3])) = Some ([0, 0, 0], s)"
      "pool_rep 9 {1, 2, 3} s [2, 3, 1]"
    by auto
  then show ?thesis
    using lst_iterate [of 9 s "[2, 3, 1]" "\<lparr>it_cursor = 7, it_next = 7\<rparr>"] by (auto simp: pool_rep_def)
qed

text \<open>
  \<open>CLnkLstNode::Remove\<close>, which finds the list through the node: the list that owns the node
  loses exactly this node, the node becomes unlinked, removing it a second time does nothing, and
  every other list of the program holds what it held.
\<close>

theorem node_remove_only_here:
  assumes "lsys_rep w L (ys @ x # zs)"
  shows "\<exists>w'. node_Remove w x = Some w' \<and> lsys_rep w' L (ys @ zs) \<and> unlinked (ls_nodes w') x \<and>
    node_Remove w' x = Some w' \<and>
    (\<forall>L' xs'. L' \<noteq> L \<longrightarrow> lsys_rep w L' xs' \<longrightarrow> lsys_rep w' L' xs')"
  using node_Remove_rep [OF assms] node_Remove_unlinked by blast

definition sample_lsys :: lsys where
  "sample_lsys = \<lparr>
     ls_nodes = [1 \<mapsto> \<lparr>ln_list = 9, ln_next = 2, ln_prev = 0\<rparr>, 2 \<mapsto> \<lparr>ln_list = 9, ln_next = 0, ln_prev = 1\<rparr>,
                 3 \<mapsto> \<lparr>ln_list = 8, ln_next = 0, ln_prev = 0\<rparr>],
     ls_lists = [9 \<mapsto> \<lparr>lo_head = 1, lo_tail = 2, lo_count = 2\<rparr>, 8 \<mapsto> \<lparr>lo_head = 3, lo_tail = 3, lo_count = 1\<rparr>]\<rparr>"

lemma node_remove_only_here_witness:
  "\<exists>w'. node_Remove sample_lsys 2 = Some w' \<and> lsys_rep w' 9 [1] \<and> lsys_rep w' 8 [3]"
proof -
  have "lsys_rep sample_lsys 9 ([1] @ 2 # [])" and "lsys_rep sample_lsys 8 [3]"
    by (simp_all add: lsys_rep_def sample_lsys_def lst_rep_def open_list_def)
  then show ?thesis
    using node_remove_only_here [of sample_lsys 9 "[1]" 2 "[]"] by auto
qed

text \<open>
  The list as a queue, tail in and head out: distinct unlinked nodes that are pushed at the
  tail of an empty list are popped at the head in the same order, and the list is empty again.
\<close>

theorem push_tail_pop_head:
  assumes "owns L s []" and "distinct ys" and "\<forall>y \<in> set ys. unlinked (lst_nodes s) y"
  shows "\<exists>s' s''. enq_all (lst_PushTail L) s ys = Some s' \<and> deq_n lst_PopHead s' (length ys) = Some (ys, s'') \<and>
    owns L s'' []"
  by (rule tail_to_head.fifo [OF assms])

lemma push_tail_pop_head_witness:
  "\<exists>s' s''. enq_all (lst_PushTail 9) (CLnkLst (pool [1, 2, 3])) [1, 2, 3] = Some s' \<and>
     deq_n lst_PopHead s' 3 = Some ([1, 2, 3], s'') \<and> owns 9 s'' []"
proof -
  have "owns 9 (CLnkLst (pool [1, 2, 3])) []"
    by (simp add: owns_def lst_rep_empty)
  moreover have "\<forall>y \<in> set [1, 2, 3]. unlinked (lst_nodes (CLnkLst (pool [1, 2, 3]))) y"
    by (simp add: pool_unlinked CLnkLst_def)
  ultimately show ?thesis
    using push_tail_pop_head [of 9 _ "[1, 2, 3]"] by (simp add: numeral_3_eq_3)
qed

end
