(* ===== verification/RBTree_Model.thy ===== *)
theory RBTree_Model
  imports MX_Prelude
begin

text \<open>
  \<open>CRedBlackTreeNode\<close> and \<open>CRedBlackTree\<close> of \<open>Include/RedBlackTree.h\<close>: the intrusive red-black
  tree with parent pointers. This theory holds the state and the operations, pointer by pointer
  and in the order of the code. A dereference of a null or dead pointer is \<open>None\<close>, and so is a
  loop that does not end (\<open>partial_function (option)\<close>). \<open>GetLeft\<close>, \<open>GetRight\<close>, \<open>GetParent\<close>,
  \<open>IsRed\<close>, \<open>SetBlack\<close> and \<open>SetRed\<close> test \<open>this\<close> and accept a null pointer, as in the code. The
  comparison callbacks are function parameters that see the context, the new node or the key,
  and a node. \<open>MX_ASSERT\<close> and \<open>CheckTree\<close> exist in debug builds only; \<open>CheckTree\<close> is modelled
  on its own.
\<close>

section \<open>Data\<close>

record rbnode =
  rb_red :: bool
  rb_tree :: ptr
  rb_left :: ptr
  rb_right :: ptr
  rb_parent :: ptr

definition CRedBlackTreeNode :: rbnode where
  "CRedBlackTreeNode =
     \<lparr>rb_red = False, rb_tree = NULL, rb_left = NULL, rb_right = NULL, rb_parent = NULL\<rparr>"

record rbt =
  rb_nodes :: "rbnode store"
  rb_root :: ptr
  rb_count :: u64

definition CRedBlackTree :: "rbnode store \<Rightarrow> rbt" where
  "CRedBlackTree h = \<lparr>rb_nodes = h, rb_root = NULL, rb_count = 0\<rparr>"

section \<open>Accessors that accept a null pointer\<close>

definition GetLeft :: "rbnode store \<Rightarrow> ptr \<Rightarrow> ptr option" where
  "GetLeft h p = (if p \<noteq> NULL then map_option rb_left (load h p) else Some NULL)"

definition GetRight :: "rbnode store \<Rightarrow> ptr \<Rightarrow> ptr option" where
  "GetRight h p = (if p \<noteq> NULL then map_option rb_right (load h p) else Some NULL)"

definition GetParent :: "rbnode store \<Rightarrow> ptr \<Rightarrow> ptr option" where
  "GetParent h p = (if p \<noteq> NULL then map_option rb_parent (load h p) else Some NULL)"

definition IsRed :: "rbnode store \<Rightarrow> ptr \<Rightarrow> bool option" where
  "IsRed h p = (if p \<noteq> NULL then map_option rb_red (load h p) else Some False)"

definition SetBlack :: "rbnode store \<Rightarrow> ptr \<Rightarrow> rbnode store option" where
  "SetBlack h p = (if p \<noteq> NULL then store h p (\<lambda>n. n\<lparr>rb_red := False\<rparr>) else Some h)"

definition SetRed :: "rbnode store \<Rightarrow> ptr \<Rightarrow> rbnode store option" where
  "SetRed h p = (if p \<noteq> NULL then store h p (\<lambda>n. n\<lparr>rb_red := True\<rparr>) else Some h)"

section \<open>Walking the tree\<close>

text \<open>The inner loops: down a spine, and up while the node is a right (left) child.\<close>

partial_function (option) down_left :: "rbnode store \<Rightarrow> ptr \<Rightarrow> ptr option" where
  "down_left h p = do {
     n \<leftarrow> load h p;
     if rb_left n \<noteq> NULL then down_left h (rb_left n) else Some p
   }"

partial_function (option) down_right :: "rbnode store \<Rightarrow> ptr \<Rightarrow> ptr option" where
  "down_right h p = do {
     n \<leftarrow> load h p;
     if rb_right n \<noteq> NULL then down_right h (rb_right n) else Some p
   }"

partial_function (option) up_while_right :: "rbnode store \<Rightarrow> ptr \<Rightarrow> ptr \<Rightarrow> ptr option" where
  "up_while_right h p nd =
     (if p = NULL then Some NULL
      else do {
        n \<leftarrow> load h p;
        if nd = rb_right n then up_while_right h (rb_parent n) p else Some p
      })"

partial_function (option) up_while_left :: "rbnode store \<Rightarrow> ptr \<Rightarrow> ptr \<Rightarrow> ptr option" where
  "up_while_left h p nd =
     (if p = NULL then Some NULL
      else do {
        n \<leftarrow> load h p;
        if nd = rb_left n then up_while_left h (rb_parent n) p else Some p
      })"

definition rb_GetNext :: "rbnode store \<Rightarrow> ptr \<Rightarrow> ptr option" where
  "rb_GetNext h this = do {
     n \<leftarrow> load h this;
     if rb_right n \<noteq> NULL then down_left h (rb_right n)
     else up_while_right h (rb_parent n) this
   }"

definition rb_GetPrev :: "rbnode store \<Rightarrow> ptr \<Rightarrow> ptr option" where
  "rb_GetPrev h this = do {
     n \<leftarrow> load h this;
     if rb_left n \<noteq> NULL then down_right h (rb_left n)
     else up_while_left h (rb_parent n) this
   }"

definition rb_GetFirst :: "rbt \<Rightarrow> ptr option" where
  "rb_GetFirst s = (if rb_root s = NULL then Some NULL else down_left (rb_nodes s) (rb_root s))"

definition rb_GetLast :: "rbt \<Rightarrow> ptr option" where
  "rb_GetLast s = (if rb_root s = NULL then Some NULL else down_right (rb_nodes s) (rb_root s))"

definition rb_IsEmpty :: "rbt \<Rightarrow> bool" where
  "rb_IsEmpty s = (rb_root s = NULL)"

definition rb_GetCount :: "rbt \<Rightarrow> u64" where
  "rb_GetCount s = rb_count s"

section \<open>Searching\<close>

text \<open>
  The search callback \<open>cmp key node\<close> returns a negative, zero or positive number when the key
  is before, at or after the node.
\<close>

partial_function (option) find_loop ::
    "rbnode store \<Rightarrow> ('k \<Rightarrow> ptr \<Rightarrow> int) \<Rightarrow> 'k \<Rightarrow> ptr \<Rightarrow> ptr option" where
  "find_loop h cmp key p =
     (if p = NULL then Some NULL
      else if cmp key p = 0 then Some p
      else do {
        n \<leftarrow> load h p;
        find_loop h cmp key (if cmp key p < 0 then rb_left n else rb_right n)
      })"

definition rb_Find :: "rbt \<Rightarrow> ('k \<Rightarrow> ptr \<Rightarrow> int) \<Rightarrow> 'k \<Rightarrow> ptr option" where
  "rb_Find s cmp key = find_loop (rb_nodes s) cmp key (rb_root s)"

partial_function (option) ceiling_loop ::
    "rbnode store \<Rightarrow> ('k \<Rightarrow> ptr \<Rightarrow> int) \<Rightarrow> 'k \<Rightarrow> ptr \<Rightarrow> ptr option" where
  "ceiling_loop h cmp key p =
     (if p = NULL then Some NULL
      else if cmp key p = 0 then Some p
      else do {
        n \<leftarrow> load h p;
        if cmp key p < 0 then
          (if rb_left n = NULL then Some p else ceiling_loop h cmp key (rb_left n))
        else if rb_right n \<noteq> NULL then ceiling_loop h cmp key (rb_right n)
        else up_while_right h (rb_parent n) p
      })"

definition rb_GetCeiling :: "rbt \<Rightarrow> ('k \<Rightarrow> ptr \<Rightarrow> int) \<Rightarrow> 'k \<Rightarrow> ptr option" where
  "rb_GetCeiling s cmp key = ceiling_loop (rb_nodes s) cmp key (rb_root s)"

partial_function (option) floor_loop ::
    "rbnode store \<Rightarrow> ('k \<Rightarrow> ptr \<Rightarrow> int) \<Rightarrow> 'k \<Rightarrow> ptr \<Rightarrow> ptr option" where
  "floor_loop h cmp key p =
     (if p = NULL then Some NULL
      else if cmp key p = 0 then Some p
      else do {
        n \<leftarrow> load h p;
        if cmp key p > 0 then
          (if rb_right n = NULL then Some p else floor_loop h cmp key (rb_right n))
        else if rb_left n \<noteq> NULL then floor_loop h cmp key (rb_left n)
        else up_while_left h (rb_parent n) p
      })"

definition rb_GetFloor :: "rbt \<Rightarrow> ('k \<Rightarrow> ptr \<Rightarrow> int) \<Rightarrow> 'k \<Rightarrow> ptr option" where
  "rb_GetFloor s cmp key = floor_loop (rb_nodes s) cmp key (rb_root s)"

partial_function (option) higher_loop ::
    "rbnode store \<Rightarrow> ('k \<Rightarrow> ptr \<Rightarrow> int) \<Rightarrow> 'k \<Rightarrow> ptr \<Rightarrow> ptr option" where
  "higher_loop h cmp key p =
     (if p = NULL then Some NULL
      else do {
        n \<leftarrow> load h p;
        if cmp key p < 0 then
          (if rb_left n = NULL then Some p else higher_loop h cmp key (rb_left n))
        else if rb_right n \<noteq> NULL then higher_loop h cmp key (rb_right n)
        else up_while_right h (rb_parent n) p
      })"

definition rb_GetHigher :: "rbt \<Rightarrow> ('k \<Rightarrow> ptr \<Rightarrow> int) \<Rightarrow> 'k \<Rightarrow> ptr option" where
  "rb_GetHigher s cmp key = higher_loop (rb_nodes s) cmp key (rb_root s)"

partial_function (option) lower_loop ::
    "rbnode store \<Rightarrow> ('k \<Rightarrow> ptr \<Rightarrow> int) \<Rightarrow> 'k \<Rightarrow> ptr \<Rightarrow> ptr option" where
  "lower_loop h cmp key p =
     (if p = NULL then Some NULL
      else do {
        n \<leftarrow> load h p;
        if cmp key p > 0 then
          (if rb_right n = NULL then Some p else lower_loop h cmp key (rb_right n))
        else if rb_left n \<noteq> NULL then lower_loop h cmp key (rb_left n)
        else up_while_left h (rb_parent n) p
      })"

definition rb_GetLower :: "rbt \<Rightarrow> ('k \<Rightarrow> ptr \<Rightarrow> int) \<Rightarrow> 'k \<Rightarrow> ptr option" where
  "rb_GetLower s cmp key = lower_loop (rb_nodes s) cmp key (rb_root s)"

section \<open>Rotations\<close>

text \<open>Hangs \<open>r\<close> where \<open>p\<close> hung: under the parent of \<open>p\<close>, or at the root.\<close>

definition LeftRotate :: "rbt \<Rightarrow> ptr \<Rightarrow> rbt option" where
  "LeftRotate s p =
     (if p \<noteq> NULL then do {
        n \<leftarrow> load (rb_nodes s) p;
        let r = rb_right n;
        rn \<leftarrow> load (rb_nodes s) r;
        h \<leftarrow> store (rb_nodes s) p (\<lambda>n. n\<lparr>rb_right := rb_left rn\<rparr>);
        h \<leftarrow> (if rb_left rn \<noteq> NULL
              then store h (rb_left rn) (\<lambda>m. m\<lparr>rb_parent := p\<rparr>) else Some h);
        n \<leftarrow> load h p;
        h \<leftarrow> store h r (\<lambda>m. m\<lparr>rb_parent := rb_parent n\<rparr>);
        (rt, h) \<leftarrow>
          (if rb_parent n = NULL then Some (r, h)
           else do {
             pn \<leftarrow> load h (rb_parent n);
             h \<leftarrow> (if p = rb_left pn
                   then store h (rb_parent n) (\<lambda>m. m\<lparr>rb_left := r\<rparr>)
                   else store h (rb_parent n) (\<lambda>m. m\<lparr>rb_right := r\<rparr>));
             Some (rb_root s, h)
           });
        h \<leftarrow> store h r (\<lambda>m. m\<lparr>rb_left := p\<rparr>);
        h \<leftarrow> store h p (\<lambda>m. m\<lparr>rb_parent := r\<rparr>);
        Some (s\<lparr>rb_nodes := h, rb_root := rt\<rparr>)
      }
      else Some s)"

definition RightRotate :: "rbt \<Rightarrow> ptr \<Rightarrow> rbt option" where
  "RightRotate s p =
     (if p \<noteq> NULL then do {
        n \<leftarrow> load (rb_nodes s) p;
        let l = rb_left n;
        ln \<leftarrow> load (rb_nodes s) l;
        h \<leftarrow> store (rb_nodes s) p (\<lambda>n. n\<lparr>rb_left := rb_right ln\<rparr>);
        h \<leftarrow> (if rb_right ln \<noteq> NULL
              then store h (rb_right ln) (\<lambda>m. m\<lparr>rb_parent := p\<rparr>) else Some h);
        n \<leftarrow> load h p;
        h \<leftarrow> store h l (\<lambda>m. m\<lparr>rb_parent := rb_parent n\<rparr>);
        (rt, h) \<leftarrow>
          (if rb_parent n = NULL then Some (l, h)
           else do {
             pn \<leftarrow> load h (rb_parent n);
             h \<leftarrow> (if p = rb_right pn
                   then store h (rb_parent n) (\<lambda>m. m\<lparr>rb_right := l\<rparr>)
                   else store h (rb_parent n) (\<lambda>m. m\<lparr>rb_left := l\<rparr>));
             Some (rb_root s, h)
           });
        h \<leftarrow> store h l (\<lambda>m. m\<lparr>rb_right := p\<rparr>);
        h \<leftarrow> store h p (\<lambda>m. m\<lparr>rb_parent := l\<rparr>);
        Some (s\<lparr>rb_nodes := h, rb_root := rt\<rparr>)
      }
      else Some s)"

section \<open>Insertion\<close>

definition GetGrandParent :: "rbnode store \<Rightarrow> ptr \<Rightarrow> ptr option" where
  "GetGrandParent h x = do { p \<leftarrow> GetParent h x; GetParent h p }"

text \<open>
  The descent: the compare callback is called with the new node and the current node. The result
  is the matching node, when duplicates are refused, or the parent to hang the new node from
  with the last comparison.
\<close>

partial_function (option) insert_search ::
    "rbnode store \<Rightarrow> (ptr \<Rightarrow> ptr \<Rightarrow> int) \<Rightarrow> bool \<Rightarrow> ptr \<Rightarrow> ptr \<Rightarrow> (ptr + ptr \<times> int) option" where
  "insert_search h cmp dup x p =
     (let cr = cmp x p in
      if cr = 0 \<and> \<not> dup then Some (Inl p)
      else do {
        n \<leftarrow> load h p;
        let nx = (if cr < 0 then rb_left n else rb_right n);
        if nx \<noteq> NULL then insert_search h cmp dup x nx else Some (Inr (p, cr))
      })"

text \<open>The loop body of the repair, for a parent that is a left and a right child.\<close>

definition insert_fix_left :: "rbt \<Rightarrow> ptr \<Rightarrow> (ptr \<times> rbt) option" where
  "insert_fix_left s x = do {
     gp \<leftarrow> GetGrandParent (rb_nodes s) x;
     u \<leftarrow> GetRight (rb_nodes s) gp;
     ured \<leftarrow> IsRed (rb_nodes s) u;
     if ured then do {
       p \<leftarrow> GetParent (rb_nodes s) x;
       h \<leftarrow> SetBlack (rb_nodes s) p;
       h \<leftarrow> SetBlack h u;
       gp \<leftarrow> GetGrandParent h x;
       h \<leftarrow> SetRed h gp;
       gp \<leftarrow> GetGrandParent h x;
       Some (gp, s\<lparr>rb_nodes := h\<rparr>)
     }
     else do {
       p \<leftarrow> GetParent (rb_nodes s) x;
       pr \<leftarrow> GetRight (rb_nodes s) p;
       (x, s) \<leftarrow> (if x = pr then do { s \<leftarrow> LeftRotate s p; Some (p, s) } else Some (x, s));
       p \<leftarrow> GetParent (rb_nodes s) x;
       h \<leftarrow> SetBlack (rb_nodes s) p;
       gp \<leftarrow> GetGrandParent h x;
       h \<leftarrow> SetRed h gp;
       gp \<leftarrow> GetGrandParent h x;
       s \<leftarrow> RightRotate (s\<lparr>rb_nodes := h\<rparr>) gp;
       Some (x, s)
     }
   }"

definition insert_fix_right :: "rbt \<Rightarrow> ptr \<Rightarrow> (ptr \<times> rbt) option" where
  "insert_fix_right s x = do {
     gp \<leftarrow> GetGrandParent (rb_nodes s) x;
     u \<leftarrow> GetLeft (rb_nodes s) gp;
     ured \<leftarrow> IsRed (rb_nodes s) u;
     if ured then do {
       p \<leftarrow> GetParent (rb_nodes s) x;
       h \<leftarrow> SetBlack (rb_nodes s) p;
       h \<leftarrow> SetBlack h u;
       gp \<leftarrow> GetGrandParent h x;
       h \<leftarrow> SetRed h gp;
       gp \<leftarrow> GetGrandParent h x;
       Some (gp, s\<lparr>rb_nodes := h\<rparr>)
     }
     else do {
       p \<leftarrow> GetParent (rb_nodes s) x;
       pl \<leftarrow> GetLeft (rb_nodes s) p;
       (x, s) \<leftarrow> (if x = pl then do { s \<leftarrow> RightRotate s p; Some (p, s) } else Some (x, s));
       p \<leftarrow> GetParent (rb_nodes s) x;
       h \<leftarrow> SetBlack (rb_nodes s) p;
       gp \<leftarrow> GetGrandParent h x;
       h \<leftarrow> SetRed h gp;
       gp \<leftarrow> GetGrandParent h x;
       s \<leftarrow> LeftRotate (s\<lparr>rb_nodes := h\<rparr>) gp;
       Some (x, s)
     }
   }"

partial_function (option) insert_fix :: "rbt \<Rightarrow> ptr \<Rightarrow> rbt option" where
  "insert_fix s x =
     (if x = NULL \<or> x = rb_root s then Some s
      else do {
        n \<leftarrow> load (rb_nodes s) x;
        pn \<leftarrow> load (rb_nodes s) (rb_parent n);
        if rb_red pn then do {
          p \<leftarrow> GetParent (rb_nodes s) x;
          gp \<leftarrow> GetParent (rb_nodes s) p;
          gl \<leftarrow> GetLeft (rb_nodes s) gp;
          (x, s) \<leftarrow> (if p = gl then insert_fix_left s x else insert_fix_right s x);
          insert_fix s x
        }
        else Some s
      })"

text \<open>Result: the returned flag, the matching node (\<open>lplpMatchingNode\<close>) and the new state.\<close>

definition rb_Insert ::
    "ptr \<Rightarrow> rbt \<Rightarrow> ptr \<Rightarrow> (ptr \<Rightarrow> ptr \<Rightarrow> int) \<Rightarrow> bool \<Rightarrow> (bool \<times> ptr \<times> rbt) option" where
  "rb_Insert this s x cmp dup =
     (if rb_root s = NULL then do {
        h \<leftarrow> store (rb_nodes s) x (\<lambda>n. n\<lparr>rb_parent := NULL, rb_left := NULL, rb_right := NULL,
                                       rb_tree := this, rb_red := False\<rparr>);
        Some (True, NULL, s\<lparr>rb_nodes := h, rb_root := x, rb_count := rb_count s + 1\<rparr>)
      }
      else do {
        found \<leftarrow> insert_search (rb_nodes s) cmp dup x (rb_root s);
        case found of
          Inl m \<Rightarrow> Some (False, m, s)
        | Inr (p, cr) \<Rightarrow> do {
            h \<leftarrow> store (rb_nodes s) x (\<lambda>n. n\<lparr>rb_left := NULL, rb_right := NULL, rb_parent := p\<rparr>);
            h \<leftarrow> (if cr < 0 then store h p (\<lambda>n. n\<lparr>rb_left := x\<rparr>)
                  else store h p (\<lambda>n. n\<lparr>rb_right := x\<rparr>));
            h \<leftarrow> store h x (\<lambda>n. n\<lparr>rb_tree := this, rb_red := True\<rparr>);
            s \<leftarrow> insert_fix (s\<lparr>rb_nodes := h\<rparr>) x;
            h \<leftarrow> store (rb_nodes s) (rb_root s) (\<lambda>n. n\<lparr>rb_red := False\<rparr>);
            Some (True, NULL, s\<lparr>rb_nodes := h, rb_count := rb_count s + 1\<rparr>)
          }
      })"

section \<open>Removal\<close>

text \<open>
  One turn of the loop of \<open>DeleteFixup\<close> for a left child: a red sibling is rotated away first
  (\<open>delete_sib_left\<close>); then the black sibling is repainted and the loop moves up, or one or two
  rotations end it. The flag of the result is the \<open>break\<close>.
\<close>

definition delete_sib_left :: "rbt \<Rightarrow> ptr \<Rightarrow> (ptr \<times> rbt) option" where
  "delete_sib_left s x = do {
     p \<leftarrow> GetParent (rb_nodes s) x;
     sib \<leftarrow> GetRight (rb_nodes s) p;
     sred \<leftarrow> IsRed (rb_nodes s) sib;
     if sred then do {
       h \<leftarrow> SetBlack (rb_nodes s) sib;
       p \<leftarrow> GetParent h x;
       h \<leftarrow> SetRed h p;
       p \<leftarrow> GetParent h x;
       s \<leftarrow> LeftRotate (s\<lparr>rb_nodes := h\<rparr>) p;
       p \<leftarrow> GetParent (rb_nodes s) x;
       sib \<leftarrow> GetRight (rb_nodes s) p;
       Some (sib, s)
     }
     else Some (sib, s)
   }"

definition delete_turn_left :: "rbt \<Rightarrow> ptr \<Rightarrow> ptr \<Rightarrow> (ptr \<times> bool \<times> rbt) option" where
  "delete_turn_left s x sib = do {
     sr \<leftarrow> GetRight (rb_nodes s) sib;
     srred \<leftarrow> IsRed (rb_nodes s) sr;
     sl \<leftarrow> GetLeft (rb_nodes s) sib;
     slred \<leftarrow> IsRed (rb_nodes s) sl;
     if \<not> srred \<and> \<not> slred then do {
       h \<leftarrow> SetRed (rb_nodes s) sib;
       p \<leftarrow> GetParent h x;
       Some (p, False, s\<lparr>rb_nodes := h\<rparr>)
     }
     else do {
       (sib, s) \<leftarrow>
         (if \<not> srred then do {
            h \<leftarrow> SetBlack (rb_nodes s) sl;
            h \<leftarrow> SetRed h sib;
            s \<leftarrow> RightRotate (s\<lparr>rb_nodes := h\<rparr>) sib;
            p \<leftarrow> GetParent (rb_nodes s) x;
            sib \<leftarrow> GetRight (rb_nodes s) p;
            Some (sib, s)
          }
          else Some (sib, s));
       p \<leftarrow> GetParent (rb_nodes s) x;
       pred \<leftarrow> IsRed (rb_nodes s) p;
       h \<leftarrow> (if pred then SetRed (rb_nodes s) sib else SetBlack (rb_nodes s) sib);
       p \<leftarrow> GetParent h x;
       h \<leftarrow> SetBlack h p;
       sr \<leftarrow> GetRight h sib;
       h \<leftarrow> SetBlack h sr;
       p \<leftarrow> GetParent h x;
       s \<leftarrow> LeftRotate (s\<lparr>rb_nodes := h\<rparr>) p;
       Some (x, True, s)
     }
   }"

definition delete_sib_right :: "rbt \<Rightarrow> ptr \<Rightarrow> (ptr \<times> rbt) option" where
  "delete_sib_right s x = do {
     p \<leftarrow> GetParent (rb_nodes s) x;
     sib \<leftarrow> GetLeft (rb_nodes s) p;
     sred \<leftarrow> IsRed (rb_nodes s) sib;
     if sred then do {
       h \<leftarrow> SetBlack (rb_nodes s) sib;
       p \<leftarrow> GetParent h x;
       h \<leftarrow> SetRed h p;
       p \<leftarrow> GetParent h x;
       s \<leftarrow> RightRotate (s\<lparr>rb_nodes := h\<rparr>) p;
       p \<leftarrow> GetParent (rb_nodes s) x;
       sib \<leftarrow> GetLeft (rb_nodes s) p;
       Some (sib, s)
     }
     else Some (sib, s)
   }"

definition delete_turn_right :: "rbt \<Rightarrow> ptr \<Rightarrow> ptr \<Rightarrow> (ptr \<times> bool \<times> rbt) option" where
  "delete_turn_right s x sib = do {
     sr \<leftarrow> GetRight (rb_nodes s) sib;
     srred \<leftarrow> IsRed (rb_nodes s) sr;
     sl \<leftarrow> GetLeft (rb_nodes s) sib;
     slred \<leftarrow> IsRed (rb_nodes s) sl;
     if \<not> srred \<and> \<not> slred then do {
       h \<leftarrow> SetRed (rb_nodes s) sib;
       p \<leftarrow> GetParent h x;
       Some (p, False, s\<lparr>rb_nodes := h\<rparr>)
     }
     else do {
       (sib, s) \<leftarrow>
         (if \<not> slred then do {
            h \<leftarrow> SetBlack (rb_nodes s) sr;
            h \<leftarrow> SetRed h sib;
            s \<leftarrow> LeftRotate (s\<lparr>rb_nodes := h\<rparr>) sib;
            p \<leftarrow> GetParent (rb_nodes s) x;
            sib \<leftarrow> GetLeft (rb_nodes s) p;
            Some (sib, s)
          }
          else Some (sib, s));
       p \<leftarrow> GetParent (rb_nodes s) x;
       pred \<leftarrow> IsRed (rb_nodes s) p;
       h \<leftarrow> (if pred then SetRed (rb_nodes s) sib else SetBlack (rb_nodes s) sib);
       p \<leftarrow> GetParent h x;
       h \<leftarrow> SetBlack h p;
       sl \<leftarrow> GetLeft h sib;
       h \<leftarrow> SetBlack h sl;
       p \<leftarrow> GetParent h x;
       s \<leftarrow> RightRotate (s\<lparr>rb_nodes := h\<rparr>) p;
       Some (x, True, s)
     }
   }"

partial_function (option) delete_loop :: "rbt \<Rightarrow> ptr \<Rightarrow> (ptr \<times> rbt) option" where
  "delete_loop s x =
     (if x = rb_root s then Some (x, s)
      else do {
        xred \<leftarrow> IsRed (rb_nodes s) x;
        if xred then Some (x, s)
        else do {
          p \<leftarrow> GetParent (rb_nodes s) x;
          pl \<leftarrow> GetLeft (rb_nodes s) p;
          (y, brk, s) \<leftarrow>
            (if x = pl
             then do { (sib, s) \<leftarrow> delete_sib_left s x; delete_turn_left s x sib }
             else do { (sib, s) \<leftarrow> delete_sib_right s x; delete_turn_right s x sib });
          if brk then Some (y, s) else delete_loop s y
        }
      })"

definition DeleteFixup :: "rbt \<Rightarrow> ptr \<Rightarrow> rbt option" where
  "DeleteFixup s x = do {
     (y, s) \<leftarrow> delete_loop s x;
     h \<leftarrow> SetBlack (rb_nodes s) y;
     Some (s\<lparr>rb_nodes := h\<rparr>)
   }"

text \<open>
  \<open>Remove\<close>, first part: a node with two children changes places with its successor, links and
  colours, and the successor has no left child.
\<close>

definition remove_swap :: "rbt \<Rightarrow> ptr \<Rightarrow> rbt option" where
  "remove_swap s d = do {
     dn \<leftarrow> load (rb_nodes s) d;
     sc \<leftarrow> down_left (rb_nodes s) (rb_right dn);
     sn \<leftarrow> load (rb_nodes s) sc;
     h \<leftarrow> store (rb_nodes s) sc (\<lambda>n. n\<lparr>rb_red := rb_red dn\<rparr>);
     h \<leftarrow> store h d (\<lambda>n. n\<lparr>rb_red := rb_red sn\<rparr>);
     h \<leftarrow> store h sc (\<lambda>n. n\<lparr>rb_left := rb_left dn\<rparr>);
     h \<leftarrow> store h d (\<lambda>n. n\<lparr>rb_left := NULL\<rparr>);
     sn \<leftarrow> load h sc;
     h \<leftarrow> (if rb_left sn \<noteq> NULL
           then store h (rb_left sn) (\<lambda>n. n\<lparr>rb_parent := sc\<rparr>) else Some h);
     dn \<leftarrow> load h d;
     (rt, h) \<leftarrow>
       (if rb_parent dn \<noteq> NULL then do {
          pn \<leftarrow> load h (rb_parent dn);
          h \<leftarrow> (if rb_left pn = d
                then store h (rb_parent dn) (\<lambda>n. n\<lparr>rb_left := sc\<rparr>)
                else store h (rb_parent dn) (\<lambda>n. n\<lparr>rb_right := sc\<rparr>));
          Some (rb_root s, h)
        }
        else Some (sc, h));
     dn \<leftarrow> load h d;
     sn \<leftarrow> load h sc;
     h \<leftarrow>
       (if sc = rb_right dn then do {
          h \<leftarrow> store h d (\<lambda>n. n\<lparr>rb_right := rb_right sn\<rparr>);
          h \<leftarrow> store h sc (\<lambda>n. n\<lparr>rb_right := d\<rparr>);
          h \<leftarrow> store h sc (\<lambda>n. n\<lparr>rb_parent := rb_parent dn\<rparr>);
          h \<leftarrow> store h d (\<lambda>n. n\<lparr>rb_parent := sc\<rparr>);
          dn \<leftarrow> load h d;
          (if rb_right dn \<noteq> NULL
           then store h (rb_right dn) (\<lambda>n. n\<lparr>rb_parent := d\<rparr>) else Some h)
        }
        else do {
          h \<leftarrow> store h sc (\<lambda>n. n\<lparr>rb_right := rb_right dn\<rparr>);
          h \<leftarrow> store h d (\<lambda>n. n\<lparr>rb_right := rb_right sn\<rparr>);
          h \<leftarrow> store h sc (\<lambda>n. n\<lparr>rb_parent := rb_parent dn\<rparr>);
          h \<leftarrow> store h d (\<lambda>n. n\<lparr>rb_parent := rb_parent sn\<rparr>);
          dn \<leftarrow> load h d;
          h \<leftarrow> (if rb_right dn \<noteq> NULL
                then store h (rb_right dn) (\<lambda>n. n\<lparr>rb_parent := d\<rparr>) else Some h);
          sn \<leftarrow> load h sc;
          h \<leftarrow> (if rb_right sn \<noteq> NULL
                then store h (rb_right sn) (\<lambda>n. n\<lparr>rb_parent := sc\<rparr>) else Some h);
          dn \<leftarrow> load h d;
          (if rb_parent dn \<noteq> NULL then do {
             pn \<leftarrow> load h (rb_parent dn);
             (if rb_left pn = sc
              then store h (rb_parent dn) (\<lambda>n. n\<lparr>rb_left := d\<rparr>)
              else store h (rb_parent dn) (\<lambda>n. n\<lparr>rb_right := d\<rparr>))
           }
           else Some h)
        });
     Some (s\<lparr>rb_nodes := h, rb_root := rt\<rparr>)
   }"

text \<open>
  Second part: a node with at most one child is unlinked. An only child takes its place and is
  the start of the repair; a leaf stays in place as its own sentinel during the repair and is
  cut off afterwards. The address 1 is the poison the code writes into the dead links.
\<close>

definition remove_unlink :: "rbt \<Rightarrow> ptr \<Rightarrow> rbt option" where
  "remove_unlink s d = do {
     dn \<leftarrow> load (rb_nodes s) d;
     let n = (if rb_left dn = NULL then rb_right dn else rb_left dn);
     if n \<noteq> NULL then do {
       h \<leftarrow> store (rb_nodes s) n (\<lambda>m. m\<lparr>rb_parent := rb_parent dn\<rparr>);
       (rt, h) \<leftarrow>
         (if rb_parent dn = NULL then Some (n, h)
          else do {
            pn \<leftarrow> load h (rb_parent dn);
            h \<leftarrow> (if d = rb_left pn
                  then store h (rb_parent dn) (\<lambda>m. m\<lparr>rb_left := n\<rparr>)
                  else store h (rb_parent dn) (\<lambda>m. m\<lparr>rb_right := n\<rparr>));
            Some (rb_root s, h)
          });
       h \<leftarrow> store h d (\<lambda>m. m\<lparr>rb_left := 1, rb_right := 1, rb_parent := 1\<rparr>);
       dn \<leftarrow> load h d;
       let s' = s\<lparr>rb_nodes := h, rb_root := rt\<rparr>;
       if \<not> rb_red dn then DeleteFixup s' n else Some s'
     }
     else if rb_parent dn = NULL then Some (s\<lparr>rb_root := NULL\<rparr>)
     else do {
       s \<leftarrow> (if \<not> rb_red dn then DeleteFixup s d else Some s);
       dn \<leftarrow> load (rb_nodes s) d;
       h \<leftarrow>
         (if rb_parent dn \<noteq> NULL then do {
            pn \<leftarrow> load (rb_nodes s) (rb_parent dn);
            (if rb_left pn = d
             then store (rb_nodes s) (rb_parent dn) (\<lambda>m. m\<lparr>rb_left := NULL\<rparr>)
             else if rb_right pn = d
             then store (rb_nodes s) (rb_parent dn) (\<lambda>m. m\<lparr>rb_right := NULL\<rparr>)
             else Some (rb_nodes s))
          }
          else Some (rb_nodes s));
       Some (s\<lparr>rb_nodes := h\<rparr>)
     }
   }"

definition rb_Remove :: "rbt \<Rightarrow> ptr \<Rightarrow> rbt option" where
  "rb_Remove s d = do {
     dn \<leftarrow> load (rb_nodes s) d;
     s \<leftarrow> (if rb_left dn \<noteq> NULL \<and> rb_right dn \<noteq> NULL then remove_swap s d else Some s);
     s \<leftarrow> remove_unlink s d;
     h \<leftarrow> store (rb_nodes s) d (\<lambda>m. m\<lparr>rb_tree := NULL, rb_left := NULL, rb_right := NULL,
                                     rb_parent := NULL\<rparr>);
     Some (s\<lparr>rb_nodes := h, rb_count := rb_count s - 1\<rparr>)
   }"

partial_function (option) rb_RemoveAll :: "rbt \<Rightarrow> rbt option" where
  "rb_RemoveAll s =
     (if rb_root s \<noteq> NULL
      then do { s' \<leftarrow> rb_Remove s (rb_root s); rb_RemoveAll s' }
      else Some s)"

section \<open>Iterators\<close>

text \<open>
  The iterator holds the node it returns next, so the caller may remove the node it was given.
\<close>

definition rb_iter_Next :: "rbnode store \<Rightarrow> ptr \<Rightarrow> (ptr \<times> ptr) option" where
  "rb_iter_Next h cur =
     (if cur = NULL then Some (NULL, cur)
      else do { nx \<leftarrow> rb_GetNext h cur; Some (cur, nx) })"

definition rb_iter_Begin :: "rbt \<Rightarrow> (ptr \<times> ptr) option" where
  "rb_iter_Begin s = do { f \<leftarrow> rb_GetFirst s; rb_iter_Next (rb_nodes s) f }"

definition rb_iterrev_Next :: "rbnode store \<Rightarrow> ptr \<Rightarrow> (ptr \<times> ptr) option" where
  "rb_iterrev_Next h cur =
     (if cur = NULL then Some (NULL, cur)
      else do { nx \<leftarrow> rb_GetPrev h cur; Some (cur, nx) })"

definition rb_iterrev_Begin :: "rbt \<Rightarrow> (ptr \<times> ptr) option" where
  "rb_iterrev_Begin s = do { f \<leftarrow> rb_GetLast s; rb_iterrev_Next (rb_nodes s) f }"

text \<open>The loop over an iterator, which collects the nodes it is given.\<close>

partial_function (option) rb_collect ::
    "(ptr \<Rightarrow> (ptr \<times> ptr) option) \<Rightarrow> ptr \<Rightarrow> ptr \<Rightarrow> ptr list option" where
  "rb_collect nxt x cur =
     (if x = NULL then Some []
      else do { (y, cur) \<leftarrow> nxt cur; xs \<leftarrow> rb_collect nxt y cur; Some (x # xs) })"

section \<open>The debug checker\<close>

text \<open>
  \<open>CheckTree\<close>: the result is whether every assertion holds. \<open>CheckBlacksRecursive\<close> threads the
  black path counter, -1 until the first leaf is met.
\<close>

partial_function (option) CheckRecursive :: "rbt \<Rightarrow> ptr \<Rightarrow> bool option" where
  "CheckRecursive s p =
     (if p = NULL then Some True
      else do {
        n \<leftarrow> load (rb_nodes s) p;
        lr \<leftarrow> IsRed (rb_nodes s) (rb_left n);
        rr \<leftarrow> IsRed (rb_nodes s) (rb_right n);
        pr \<leftarrow> (if rb_red n then map_option rb_red (load (rb_nodes s) (rb_parent n)) else Some False);
        lp \<leftarrow> GetParent (rb_nodes s) (rb_left n);
        rp \<leftarrow> GetParent (rb_nodes s) (rb_right n);
        a \<leftarrow> CheckRecursive s (rb_left n);
        b \<leftarrow> CheckRecursive s (rb_right n);
        Some ((p = rb_root s \<or> rb_parent n \<noteq> NULL) \<and>
              (rb_red n \<longrightarrow> \<not> lr \<and> \<not> rr \<and> \<not> pr) \<and>
              (rb_left n = NULL \<or> rb_left n \<noteq> rb_parent n \<and> lp = p) \<and>
              (rb_right n = NULL \<or>
                 rb_right n \<noteq> rb_parent n \<and> rp = p \<and> rb_right n \<noteq> rb_left n) \<and> a \<and> b)
      })"

partial_function (option) CheckBlacksRecursive ::
    "rbnode store \<Rightarrow> ptr \<Rightarrow> int \<Rightarrow> int \<Rightarrow> (bool \<times> int) option" where
  "CheckBlacksRecursive h p nCounter path =
     (if p \<noteq> NULL then do {
        n \<leftarrow> load h p;
        let c = (if \<not> rb_red n then nCounter + 1 else nCounter);
        (a, path) \<leftarrow> CheckBlacksRecursive h (rb_left n) c path;
        (b, path) \<leftarrow> CheckBlacksRecursive h (rb_right n) c path;
        Some (a \<and> b, path)
      }
      else if path = -1 then Some (True, nCounter)
      else Some (nCounter = path, path))"

definition CheckTree :: "rbt \<Rightarrow> bool option" where
  "CheckTree s =
     (if rb_root s \<noteq> NULL then do {
        rn \<leftarrow> load (rb_nodes s) (rb_root s);
        a \<leftarrow> CheckRecursive s (rb_root s);
        (b, _) \<leftarrow> CheckBlacksRecursive (rb_nodes s) (rb_root s) 1 (-1);
        Some (\<not> rb_red rn \<and> rb_parent rn = NULL \<and> a \<and> b)
      }
      else Some True)"

end
