(* ===== verification/RBTree_Rep.thy ===== *)
theory RBTree_Rep
  imports RBTree_Model
begin

text \<open>
  The abstraction of the pointer structure: a binary tree whose nodes are addresses with a
  colour, and a focus in it (a subtree and the path above it). The relation \<open>zrep\<close> says that the
  store holds exactly this tree, links in all three directions included. Rotations, recolourings
  and reads at the focus are proved once against it; the algorithms of the later theories only
  move the focus. The mirror image exchanges left and right in the store and in the tree, so
  each pair of symmetric routines of the code needs one proof.
\<close>

section \<open>Trees of addresses and paths\<close>

datatype tree = Lf | Nd tree ptr bool tree

datatype frame = InL ptr bool tree | InR tree ptr bool

type_synonym path = "frame list"

fun topp :: "tree \<Rightarrow> ptr" where
  "topp Lf = NULL"
| "topp (Nd l a c r) = a"

fun red :: "tree \<Rightarrow> bool" where
  "red Lf = False"
| "red (Nd l a c r) = c"

fun black :: "tree \<Rightarrow> tree" where
  "black Lf = Lf"
| "black (Nd l a c r) = Nd l a False r"

fun inorder :: "tree \<Rightarrow> ptr list" where
  "inorder Lf = []"
| "inorder (Nd l a c r) = inorder l @ a # inorder r"

fun f_ptr :: "frame \<Rightarrow> ptr" where
  "f_ptr (InL a c r) = a"
| "f_ptr (InR l a c) = a"

fun f_red :: "frame \<Rightarrow> bool" where
  "f_red (InL a c r) = c"
| "f_red (InR l a c) = c"

fun f_black :: "frame \<Rightarrow> frame" where
  "f_black (InL a c r) = InL a False r"
| "f_black (InR l a c) = InR l a False"

fun f_sib :: "frame \<Rightarrow> tree" where
  "f_sib (InL a c r) = r"
| "f_sib (InR l a c) = l"

fun plugf :: "tree \<Rightarrow> frame \<Rightarrow> tree" where
  "plugf t (InL a c r) = Nd t a c r"
| "plugf t (InR l a c) = Nd l a c t"

fun plug :: "tree \<Rightarrow> path \<Rightarrow> tree" where
  "plug t [] = t"
| "plug t (f # fs) = plug (plugf t f) fs"

text \<open>What stands before and after the focus, in order.\<close>

fun befores :: "path \<Rightarrow> ptr list" where
  "befores [] = []"
| "befores (InL a c r # fs) = befores fs"
| "befores (InR l a c # fs) = befores fs @ inorder l @ [a]"

fun afters :: "path \<Rightarrow> ptr list" where
  "afters [] = []"
| "afters (InL a c r # fs) = a # inorder r @ afters fs"
| "afters (InR l a c # fs) = afters fs"

definition paddrs :: "path \<Rightarrow> ptr set" where
  "paddrs fs = set (befores fs) \<union> set (afters fs)"

lemma inorder_plug: "inorder (plug t fs) = befores fs @ inorder t @ afters fs"
proof (induction fs arbitrary: t)
  case (Cons f fs)
  then show ?case by (cases f) simp_all
qed simp

lemma plug_append: "plug t (fs @ gs) = plug (plug t fs) gs"
  by (induction fs arbitrary: t) auto

lemma befores_append: "befores (fs @ gs) = befores gs @ befores fs"
proof (induction fs)
  case (Cons f fs)
  then show ?case by (cases f) simp_all
qed simp

lemma afters_append: "afters (fs @ gs) = afters fs @ afters gs"
proof (induction fs)
  case (Cons f fs)
  then show ?case by (cases f) simp_all
qed simp

lemma paddrs_simps [simp]:
  "paddrs [] = {}"
  "paddrs (InL a c r # fs) = insert a (set (inorder r) \<union> paddrs fs)"
  "paddrs (InR l a c # fs) = insert a (set (inorder l) \<union> paddrs fs)"
  "paddrs (fs @ gs) = paddrs fs \<union> paddrs gs"
  by (auto simp: paddrs_def befores_append afters_append)

lemma plugf_simps [simp]: "topp (plugf t f) = f_ptr f" "red (plugf t f) = f_red f"
  by (cases f; simp)+

lemma black_simps [simp]:
  "topp (black t) = topp t" "red (black t) = False" "inorder (black t) = inorder t"
  "black (black t) = black t"
  by (cases t; simp)+

lemma black_id: "\<not> red t \<Longrightarrow> black t = t"
  by (cases t) auto

lemma topp_in: "t \<noteq> Lf \<Longrightarrow> topp t \<in> set (inorder t)"
  by (cases t) auto

lemma topp_neq [simp]:
  "x \<noteq> NULL \<Longrightarrow> x \<notin> set (inorder t) \<Longrightarrow> topp t \<noteq> x"
  "x \<noteq> NULL \<Longrightarrow> x \<notin> set (inorder t) \<Longrightarrow> x \<noteq> topp t"
  by (cases t; auto)+

definition root_of :: "ptr \<Rightarrow> path \<Rightarrow> ptr" where
  "root_of x fs = (if fs = [] then x else f_ptr (last fs))"

lemma root_of_simps [simp]: "root_of x [] = x" "root_of x (f # fs) = root_of (f_ptr f) fs"
  by (simp_all add: root_of_def)

lemma topp_plug: "topp (plug t fs) = root_of (topp t) fs"
  by (induction fs arbitrary: t) auto

definition parent_of :: "path \<Rightarrow> ptr" where
  "parent_of fs = (case fs of [] \<Rightarrow> NULL | f # _ \<Rightarrow> f_ptr f)"

lemma parent_of_simps [simp]: "parent_of [] = NULL" "parent_of (f # fs) = f_ptr f"
  by (simp_all add: parent_of_def)

section \<open>The store holds the tree\<close>

fun tree_at :: "rbnode store \<Rightarrow> ptr \<Rightarrow> ptr \<Rightarrow> tree \<Rightarrow> bool" where
  "tree_at h T p Lf = True"
| "tree_at h T p (Nd l a c r) =
     (a \<noteq> NULL \<and> h a = Some \<lparr>rb_red = c, rb_tree = T, rb_left = topp l, rb_right = topp r, rb_parent = p\<rparr> \<and>
      tree_at h T a l \<and> tree_at h T a r)"

fun path_at :: "rbnode store \<Rightarrow> ptr \<Rightarrow> ptr \<Rightarrow> path \<Rightarrow> bool" where
  "path_at h T x [] = True"
| "path_at h T x (InL a c r # fs) =
     (a \<noteq> NULL \<and>
      h a = Some \<lparr>rb_red = c, rb_tree = T, rb_left = x, rb_right = topp r, rb_parent = parent_of fs\<rparr> \<and>
      tree_at h T a r \<and> path_at h T a fs)"
| "path_at h T x (InR l a c # fs) =
     (a \<noteq> NULL \<and>
      h a = Some \<lparr>rb_red = c, rb_tree = T, rb_left = topp l, rb_right = x, rb_parent = parent_of fs\<rparr> \<and>
      tree_at h T a l \<and> path_at h T a fs)"

lemma tree_at_upd [simp]: "x \<notin> set (inorder t) \<Longrightarrow> tree_at (h(x \<mapsto> v)) T p t = tree_at h T p t"
  by (induction t arbitrary: p) auto

lemma path_at_upd [simp]: "x \<notin> paddrs fs \<Longrightarrow> path_at (h(x \<mapsto> v)) T y fs = path_at h T y fs"
proof (induction fs arbitrary: y)
  case (Cons f fs)
  then have "x \<noteq> f_ptr f" and "x \<notin> set (inorder (f_sib f))" and "x \<notin> paddrs fs"
    by (cases f; simp)+
  with Cons.IH show ?case by (cases f) (simp_all del: fun_upd_apply add: fun_upd_other)
qed simp

lemma tree_at_nonnull: "tree_at h T p t \<Longrightarrow> NULL \<notin> set (inorder t)"
  by (induction t arbitrary: p) auto

lemma path_at_nonnull: "path_at h T x fs \<Longrightarrow> NULL \<notin> paddrs fs"
proof (induction fs arbitrary: x)
  case (Cons f fs)
  then show ?case by (cases f) (auto dest: tree_at_nonnull)
qed simp

lemma tree_at_alloc: "tree_at h T p t \<Longrightarrow> x \<in> set (inorder t) \<Longrightarrow> \<exists>n. h x = Some n \<and> rb_tree n = T"
  by (induction t arbitrary: p) auto

lemma path_at_alloc: "path_at h T y fs \<Longrightarrow> x \<in> paddrs fs \<Longrightarrow> \<exists>n. h x = Some n \<and> rb_tree n = T"
proof (induction fs arbitrary: y)
  case (Cons f fs)
  then show ?case by (cases f) (auto dest: tree_at_alloc)
qed simp

lemma tree_at_cong: "(\<And>x. x \<in> set (inorder t) \<Longrightarrow> h' x = h x) \<Longrightarrow> tree_at h' T p t = tree_at h T p t"
  by (induction t arbitrary: p) auto

lemma tree_at_topp: "tree_at h T p t \<Longrightarrow> topp t = NULL \<longleftrightarrow> t = Lf"
  by (cases t) auto

lemma tree_at_plug: "tree_at h T NULL (plug t fs) \<longleftrightarrow> tree_at h T (parent_of fs) t \<and> path_at h T (topp t) fs"
proof (induction fs arbitrary: t)
  case (Cons f fs)
  then show ?case by (cases f) auto
qed simp

text \<open>
  \<open>zrep h0 T n s t fs\<close>: the tree object whose address is \<open>T\<close> holds \<open>plug t fs\<close>, its root and
  counter included, and the store agrees with \<open>h0\<close> outside the tree.
\<close>

definition zrep :: "rbnode store \<Rightarrow> ptr \<Rightarrow> u64 \<Rightarrow> rbt \<Rightarrow> tree \<Rightarrow> path \<Rightarrow> bool" where
  "zrep h0 T n s t fs \<longleftrightarrow>
     tree_at (rb_nodes s) T (parent_of fs) t \<and> path_at (rb_nodes s) T (topp t) fs \<and>
     rb_root s = root_of (topp t) fs \<and> rb_count s = n \<and>
     distinct (befores fs @ inorder t @ afters fs) \<and>
     (\<forall>x. x \<notin> set (inorder t) \<union> paddrs fs \<longrightarrow> rb_nodes s x = h0 x)"

lemma zrep_up: "zrep h0 T n s t (f # fs) \<longleftrightarrow> zrep h0 T n s (plugf t f) fs"
  by (cases f) (auto simp: zrep_def)

lemma zrep_plug: "zrep h0 T n s t fs \<longleftrightarrow> zrep h0 T n s (plug t fs) []"
  by (induction fs arbitrary: t) (simp_all add: zrep_up)

lemma zrep_same: "plug t fs = plug t' fs' \<Longrightarrow> zrep h0 T n s t fs \<longleftrightarrow> zrep h0 T n s t' fs'"
  by (metis zrep_plug)

lemma zrep_node:
  assumes "zrep h0 T n s (Nd l a c r) fs"
  shows "a \<noteq> NULL" "rb_nodes s a = Some \<lparr>rb_red = c, rb_tree = T, rb_left = topp l,
           rb_right = topp r, rb_parent = parent_of fs\<rparr>"
  using assms by (simp_all add: zrep_def)

lemma zrep_distinct: "zrep h0 T n s t fs \<Longrightarrow> distinct (inorder (plug t fs))"
  by (simp add: zrep_def inorder_plug)

lemma zrep_nonnull: "zrep h0 T n s t fs \<Longrightarrow> NULL \<notin> set (inorder (plug t fs))"
  by (auto simp: zrep_def inorder_plug paddrs_def dest!: tree_at_nonnull path_at_nonnull)

section \<open>Reads and recolourings at the focus\<close>

lemma zrep_load:
  assumes "zrep h0 T n s (Nd l a c r) fs"
  shows "load (rb_nodes s) a = Some \<lparr>rb_red = c, rb_tree = T, rb_left = topp l,
           rb_right = topp r, rb_parent = parent_of fs\<rparr>"
  using zrep_node [OF assms] by (simp add: load_nonnull)

lemma zrep_get:
  assumes "zrep h0 T n s (Nd l a c r) fs"
  shows "GetLeft (rb_nodes s) a = Some (topp l)" "GetRight (rb_nodes s) a = Some (topp r)"
    "GetParent (rb_nodes s) a = Some (parent_of fs)" "IsRed (rb_nodes s) a = Some c"
  using zrep_load [OF assms] zrep_node(1) [OF assms]
  by (simp_all add: GetLeft_def GetRight_def GetParent_def IsRed_def)

lemma zrep_down:
  assumes "zrep h0 T n s (Nd l a c r) fs"
  shows "zrep h0 T n s l (InL a c r # fs)" "zrep h0 T n s r (InR l a c # fs)"
  using assms by (simp_all add: zrep_up)

lemma zrep_IsRed: "zrep h0 T n s t fs \<Longrightarrow> IsRed (rb_nodes s) (topp t) = Some (red t)"
  by (cases t) (simp_all add: IsRed_def zrep_load zrep_node(1))

lemmas heap_simps = store_simps fun_upd_same fun_upd_other

lemma zrep_store_color:
  assumes "zrep h0 T n s (Nd l a c r) fs"
  shows "\<exists>h. store (rb_nodes s) a (\<lambda>m. m\<lparr>rb_red := d\<rparr>) = Some h \<and>
           zrep h0 T n (s\<lparr>rb_nodes := h\<rparr>) (Nd l a d r) fs"
  using assms zrep_node [OF assms]
  by (auto simp: heap_simps zrep_def paddrs_def simp del: fun_upd_apply)

section \<open>Rotations\<close>

lemma LeftRotate_rep:
  assumes "zrep h0 T n s (Nd l a c (Nd m b d r)) fs"
  shows "\<exists>s'. LeftRotate s a = Some s' \<and> zrep h0 T n s' (Nd (Nd l a c m) b d r) fs"
proof (cases fs)
  case Nil
  then show ?thesis
    using assms
    by (cases m) (auto simp: LeftRotate_def heap_simps zrep_def paddrs_def simp del: fun_upd_apply)
next
  case (Cons f fs)
  then show ?thesis
    using assms
    by (cases m; cases f)
      (auto simp: LeftRotate_def heap_simps zrep_def paddrs_def simp del: fun_upd_apply)
qed

section \<open>The mirror image\<close>

definition mir_node :: "rbnode \<Rightarrow> rbnode" where
  "mir_node n = n\<lparr>rb_left := rb_right n, rb_right := rb_left n\<rparr>"

definition mir_heap :: "rbnode store \<Rightarrow> rbnode store" where
  "mir_heap h = (\<lambda>p. map_option mir_node (h p))"

definition mir :: "rbt \<Rightarrow> rbt" where
  "mir s = s\<lparr>rb_nodes := mir_heap (rb_nodes s)\<rparr>"

fun mir_tree :: "tree \<Rightarrow> tree" where
  "mir_tree Lf = Lf"
| "mir_tree (Nd l a c r) = Nd (mir_tree r) a c (mir_tree l)"

fun mir_frame :: "frame \<Rightarrow> frame" where
  "mir_frame (InL a c r) = InR (mir_tree r) a c"
| "mir_frame (InR l a c) = InL a c (mir_tree l)"

abbreviation mir_path :: "path \<Rightarrow> path" where
  "mir_path fs \<equiv> map mir_frame fs"

named_theorems mirror \<open>how the mirror image passes through the operations\<close>

lemma mir_node_sel [mirror]:
  "rb_red (mir_node n) = rb_red n" "rb_tree (mir_node n) = rb_tree n"
  "rb_left (mir_node n) = rb_right n" "rb_right (mir_node n) = rb_left n"
  "rb_parent (mir_node n) = rb_parent n" "mir_node (mir_node n) = n"
  by (simp_all add: mir_node_def)

lemma mir_sel [mirror]:
  "rb_nodes (mir s) = mir_heap (rb_nodes s)" "rb_root (mir s) = rb_root s"
  "rb_count (mir s) = rb_count s"
  "(mir s)\<lparr>rb_nodes := mir_heap h\<rparr> = mir (s\<lparr>rb_nodes := h\<rparr>)"
  "(mir s)\<lparr>rb_root := rt\<rparr> = mir (s\<lparr>rb_root := rt\<rparr>)"
  by (simp_all add: mir_def)

lemma mir_heap_heap [mirror]: "mir_heap (mir_heap h) = h"
  by (simp add: mir_heap_def mir_node_sel option.map_comp o_def option.map_ident)

lemma mir_mir [mirror]: "mir (mir s) = s"
  by (simp add: mir_def mir_heap_heap)

lemma mir_tree_tree [mirror]: "mir_tree (mir_tree t) = t"
  by (induction t) auto

lemma mir_frame_frame [mirror]: "mir_frame (mir_frame f) = f"
  by (cases f) (auto simp: mirror)

lemma mir_path_path [mirror]: "mir_path (mir_path fs) = fs" "map (mir_frame \<circ> mir_frame) fs = fs"
  by (induction fs) (auto simp: mirror)

lemma map_mir_mir [mirror]: "map_option mir (map_option mir m) = m"
  by (cases m) (simp_all add: mirror)

lemma load_mir [mirror]: "load (mir_heap h) p = map_option mir_node (load h p)"
  by (simp add: load_def mir_heap_def)

lemma store_mir:
  assumes "\<And>n. f (mir_node n) = mir_node (g n)"
  shows "store (mir_heap h) p f = map_option mir_heap (store h p g)"
  using assms
  by (auto simp: store_def load_mir mir_heap_def fun_eq_iff load_def split: option.split)

lemma store_fields_mir [mirror]:
  "store (mir_heap h) p (\<lambda>n. n\<lparr>rb_red := c\<rparr>) = map_option mir_heap (store h p (\<lambda>n. n\<lparr>rb_red := c\<rparr>))"
  "store (mir_heap h) p (\<lambda>n. n\<lparr>rb_parent := q\<rparr>) = map_option mir_heap (store h p (\<lambda>n. n\<lparr>rb_parent := q\<rparr>))"
  "store (mir_heap h) p (\<lambda>n. n\<lparr>rb_left := q\<rparr>) = map_option mir_heap (store h p (\<lambda>n. n\<lparr>rb_right := q\<rparr>))"
  "store (mir_heap h) p (\<lambda>n. n\<lparr>rb_right := q\<rparr>) = map_option mir_heap (store h p (\<lambda>n. n\<lparr>rb_left := q\<rparr>))"
  by (rule store_mir, simp add: mir_node_def)+

lemma get_mir [mirror]:
  "GetLeft (mir_heap h) p = GetRight h p" "GetRight (mir_heap h) p = GetLeft h p"
  "GetParent (mir_heap h) p = GetParent h p" "IsRed (mir_heap h) p = IsRed h p"
  "SetBlack (mir_heap h) p = map_option mir_heap (SetBlack h p)"
  "SetRed (mir_heap h) p = map_option mir_heap (SetRed h p)"
  by (simp_all add: GetLeft_def GetRight_def GetParent_def IsRed_def SetBlack_def SetRed_def
      mirror option.map_comp o_def)

lemma GetGrandParent_mir [mirror]: "GetGrandParent (mir_heap h) p = GetGrandParent h p"
  by (simp add: GetGrandParent_def mirror)

lemma bind_map [mirror]: "Option.bind (map_option f m) g = Option.bind m (\<lambda>x. g (f x))"
  by (cases m) simp_all

lemma map_bind [mirror]: "map_option f (Option.bind m k) = Option.bind m (\<lambda>x. map_option f (k x))"
  by (cases m) simp_all

lemma bind_if [mirror]: "Option.bind (if b then m else m') g = (if b then Option.bind m g else Option.bind m' g)"
  by simp

lemma map_if [mirror]: "map_option f (if b then m else m') = (if b then map_option f m else map_option f m')"
  by simp

lemma bind_bind [mirror]: "Option.bind (Option.bind m k) g = Option.bind m (\<lambda>x. Option.bind (k x) g)"
  by (cases m) simp_all

lemma RightRotate_mir [mirror]: "RightRotate (mir s) p = map_option mir (LeftRotate s p)"
  unfolding RightRotate_def LeftRotate_def Let_def
  by (simp add: mirror cong: if_cong)

lemma LeftRotate_mir [mirror]: "LeftRotate (mir s) p = map_option mir (RightRotate s p)"
  using RightRotate_mir [of "mir s" p] by (simp add: mirror option.map_comp o_def option.map_ident)

lemma mir_tree_sel [mirror]:
  "topp (mir_tree t) = topp t" "red (mir_tree t) = red t" "black (mir_tree t) = mir_tree (black t)"
  "inorder (mir_tree t) = rev (inorder t)" "mir_tree t = Lf \<longleftrightarrow> t = Lf"
  by (induction t) auto

lemma mir_frame_sel [mirror]:
  "f_ptr (mir_frame f) = f_ptr f" "f_red (mir_frame f) = f_red f"
  "f_black (mir_frame f) = mir_frame (f_black f)" "f_sib (mir_frame f) = mir_tree (f_sib f)"
  by (cases f; simp)+

lemma plugf_mir [mirror]: "plugf (mir_tree t) (mir_frame f) = mir_tree (plugf t f)"
  by (cases f) simp_all

lemma mir_path_sel [mirror]:
  "befores (mir_path fs) = rev (afters fs)" "afters (mir_path fs) = rev (befores fs)"
  "parent_of (mir_path fs) = parent_of fs" "root_of x (mir_path fs) = root_of x fs"
proof -
  show "befores (mir_path fs) = rev (afters fs)"
    by (induction fs rule: befores.induct) (simp_all add: mirror)
  show "afters (mir_path fs) = rev (befores fs)"
    by (induction fs rule: befores.induct) (simp_all add: mirror)
  show "parent_of (mir_path fs) = parent_of fs"
    by (cases fs) (simp_all add: mirror)
  show "root_of x (mir_path fs) = root_of x fs"
    by (induction fs arbitrary: x) (simp_all add: mirror)
qed

lemma paddrs_mir [mirror]: "paddrs (mir_path fs) = paddrs fs"
  by (auto simp: paddrs_def mirror)

lemma plug_mir [mirror]: "plug (mir_tree t) (mir_path fs) = mir_tree (plug t fs)"
proof (induction fs arbitrary: t)
  case (Cons f fs)
  then show ?case using Cons.IH [of "plugf t f"] by (cases f) simp_all
qed simp

lemma tree_at_mir_1: "tree_at h T p t \<Longrightarrow> tree_at (mir_heap h) T p (mir_tree t)"
  by (induction t arbitrary: p) (simp_all add: mirror, simp add: mir_heap_def mir_node_def)

lemma tree_at_mir [mirror]: "tree_at (mir_heap h) T p (mir_tree t) = tree_at h T p t"
  using tree_at_mir_1 [of h T p t] tree_at_mir_1 [of "mir_heap h" T p "mir_tree t"]
  by (auto simp: mirror)

lemma zrep_mir_1:
  assumes "zrep h0 T n s t fs"
  shows "zrep (mir_heap h0) T n (mir s) (mir_tree t) (mir_path fs)"
proof -
  have "zrep (mir_heap h0) T n (mir s) (mir_tree (plug t fs)) []"
    using assms unfolding zrep_plug [of h0 T n s t fs]
    by (auto simp: zrep_def mirror) (simp add: mir_heap_def)
  then show ?thesis
    by (simp add: zrep_plug [of _ _ _ _ "mir_tree t"] mirror)
qed

lemma zrep_mir: "zrep (mir_heap h0) T n (mir s) (mir_tree t) (mir_path fs) = zrep h0 T n s t fs"
  using zrep_mir_1 [of h0 T n s t fs]
    zrep_mir_1 [of "mir_heap h0" T n "mir s" "mir_tree t" "mir_path fs"]
  by (auto simp: mirror)

lemma zrep_unmir: "zrep (mir_heap h0) T n s (mir_tree t) (mir_path fs) \<Longrightarrow> zrep h0 T n (mir s) t fs"
  using zrep_mir [of h0 T n "mir s" t fs] by (simp add: mirror)

lemma RightRotate_rep:
  assumes "zrep h0 T n s (Nd (Nd l b d m) a c r) fs"
  shows "\<exists>s'. RightRotate s a = Some s' \<and> zrep h0 T n s' (Nd l b d (Nd m a c r)) fs"
proof -
  have "zrep (mir_heap h0) T n (mir s) (Nd (mir_tree r) a c (Nd (mir_tree m) b d (mir_tree l))) (mir_path fs)"
    using zrep_mir_1 [OF assms] by simp
  then obtain s' where s': "LeftRotate (mir s) a = Some s'"
      "zrep (mir_heap h0) T n s' (mir_tree (Nd l b d (Nd m a c r))) (mir_path fs)"
    using LeftRotate_rep by fastforce
  then have "RightRotate s a = Some (mir s')"
    using RightRotate_mir [of "mir s" a] by (simp add: mir_mir)
  then show ?thesis
    using zrep_unmir [OF s'(2)] by blast
qed

section \<open>Reads and recolourings around the focus\<close>

fun f_col :: "bool \<Rightarrow> frame \<Rightarrow> frame" where
  "f_col d (InL a c r) = InL a d r"
| "f_col d (InR l a c) = InR l a d"

lemma f_col_simps [simp]:
  "f_ptr (f_col d f) = f_ptr f" "f_red (f_col d f) = d" "f_sib (f_col d f) = f_sib f"
  "f_col d (f_col e f) = f_col d f" "f_col False f = f_black f"
  by (cases f; simp)+

lemma SetColor_rep:
  assumes "zrep h0 T n s t fs"
  shows "\<exists>h. SetBlack (rb_nodes s) (topp t) = Some h \<and> zrep h0 T n (s\<lparr>rb_nodes := h\<rparr>) (black t) fs"
    and "\<exists>h. SetRed (rb_nodes s) (topp t) = Some h \<and> zrep h0 T n (s\<lparr>rb_nodes := h\<rparr>)
           (case t of Lf \<Rightarrow> Lf | Nd l a c r \<Rightarrow> Nd l a True r) fs"
  using assms zrep_store_color [of h0 T n s _ _ _ _ fs] zrep_node(1) [of h0 T n s _ _ _ _ fs]
  by (cases t; fastforce simp: SetBlack_def SetRed_def)+

lemma SetColor_path:
  assumes "zrep h0 T n s t (ps @ f # fs)"
  shows "\<exists>h. SetBlack (rb_nodes s) (f_ptr f) = Some h \<and>
           zrep h0 T n (s\<lparr>rb_nodes := h\<rparr>) t (ps @ f_black f # fs)"
    and "\<exists>h. SetRed (rb_nodes s) (f_ptr f) = Some h \<and>
           zrep h0 T n (s\<lparr>rb_nodes := h\<rparr>) t (ps @ f_col True f # fs)"
proof -
  have "zrep h0 T n s (plugf (plug t ps) f) fs"
    using assms zrep_same [of t "ps @ f # fs" "plugf (plug t ps) f" fs] by (simp add: plug_append)
  from SetColor_rep [OF this]
  show "\<exists>h. SetBlack (rb_nodes s) (f_ptr f) = Some h \<and>
      zrep h0 T n (s\<lparr>rb_nodes := h\<rparr>) t (ps @ f_black f # fs)"
    and "\<exists>h. SetRed (rb_nodes s) (f_ptr f) = Some h \<and>
      zrep h0 T n (s\<lparr>rb_nodes := h\<rparr>) t (ps @ f_col True f # fs)"
    using zrep_same [of "plugf (plug t ps) (f_black f)" fs t "ps @ f_black f # fs"]
      zrep_same [of "plugf (plug t ps) (f_col True f)" fs t "ps @ f_col True f # fs"]
    by (cases f; simp add: plug_append)+
qed

lemma zrep_frame:
  assumes "zrep h0 T n s t (f # fs)"
  shows "f_ptr f \<noteq> NULL" "GetParent (rb_nodes s) (f_ptr f) = Some (parent_of fs)"
    "IsRed (rb_nodes s) (f_ptr f) = Some (f_red f)"
    "load (rb_nodes s) (f_ptr f) = Some
       \<lparr>rb_red = f_red f, rb_tree = T,
        rb_left = (case f of InL a c r \<Rightarrow> topp t | InR l a c \<Rightarrow> topp l),
        rb_right = (case f of InL a c r \<Rightarrow> topp r | InR l a c \<Rightarrow> topp t),
        rb_parent = parent_of fs\<rparr>"
    "GetLeft (rb_nodes s) (f_ptr f) = Some (case f of InL a c r \<Rightarrow> topp t | InR l a c \<Rightarrow> topp l)"
    "GetRight (rb_nodes s) (f_ptr f) = Some (case f of InL a c r \<Rightarrow> topp r | InR l a c \<Rightarrow> topp t)"
  using assms by (cases f; auto simp: zrep_up dest: zrep_get zrep_node(1) zrep_load)+

lemma zrep_GetParent: "zrep h0 T n s t fs \<Longrightarrow> t \<noteq> Lf \<Longrightarrow> GetParent (rb_nodes s) (topp t) = Some (parent_of fs)"
  by (cases t) (auto dest: zrep_get)

lemma zrep_GetGrandParent:
  "zrep h0 T n s t (f # fs) \<Longrightarrow> t \<noteq> Lf \<Longrightarrow> GetGrandParent (rb_nodes s) (topp t) = Some (parent_of fs)"
  by (simp add: GetGrandParent_def zrep_GetParent zrep_frame)

lemma zrep_topp_nonnull: "zrep h0 T n s t fs \<Longrightarrow> topp t = NULL \<longleftrightarrow> t = Lf"
  by (auto simp: zrep_def dest: tree_at_topp)

lemma zrep_root: "zrep h0 T n s t fs \<Longrightarrow> t \<noteq> Lf \<Longrightarrow> rb_root s = topp t \<longleftrightarrow> fs = []"
proof (cases fs rule: rev_cases)
  case (snoc gs f)
  assume "zrep h0 T n s t fs" and "t \<noteq> Lf"
  then have "f_ptr f \<noteq> topp t"
    using snoc by (cases t; cases f) (auto simp: zrep_def befores_append afters_append)
  then show ?thesis
    using \<open>zrep h0 T n s t fs\<close> snoc by (simp add: zrep_def root_of_def)
qed (simp add: zrep_def)

lemma zrep_neq_frame:
  assumes "zrep h0 T n s t (f # fs)" and "t \<noteq> Lf"
  shows "f_sib f \<noteq> Lf \<Longrightarrow> topp (f_sib f) \<noteq> topp t" "topp (f_sib f) = topp t \<longleftrightarrow> False"
proof -
  have "topp t \<noteq> NULL" "topp t \<in> set (inorder t)" "topp t \<notin> set (inorder (f_sib f))"
    using assms zrep_topp_nonnull [OF assms(1)]
    by (cases t; cases f; auto simp: zrep_def)+
  then show "f_sib f \<noteq> Lf \<Longrightarrow> topp (f_sib f) \<noteq> topp t" "topp (f_sib f) = topp t \<longleftrightarrow> False"
    by auto
qed

end
