(* ===== verification/RBTree_Insert.thy ===== *)
theory RBTree_Insert
  imports RBTree_Rep
begin

text \<open>
  The red-black invariant on trees and on paths, and the correctness of \<open>Insert\<close>: the descent
  finds the place a search tree prescribes, the repair loop ends, keeps the in-order sequence
  and restores the invariant.
\<close>

section \<open>The red-black invariant\<close>

fun bh :: "tree \<Rightarrow> nat" where
  "bh Lf = 0"
| "bh (Nd l a c r) = (if c then bh l else Suc (bh l))"

fun invh :: "tree \<Rightarrow> bool" where
  "invh Lf = True"
| "invh (Nd l a c r) = (bh l = bh r \<and> invh l \<and> invh r)"

fun invc :: "tree \<Rightarrow> bool" where
  "invc Lf = True"
| "invc (Nd l a c r) = ((c \<longrightarrow> \<not> red l \<and> \<not> red r) \<and> invc l \<and> invc r)"

definition rbinv :: "tree \<Rightarrow> bool" where
  "rbinv t \<longleftrightarrow> invh t \<and> invc t \<and> \<not> red t"

text \<open>The same for a path whose hole has a given black height and colour.\<close>

fun pinvh :: "nat \<Rightarrow> path \<Rightarrow> bool" where
  "pinvh k [] = True"
| "pinvh k (f # fs) =
     (invh (f_sib f) \<and> bh (f_sib f) = k \<and> pinvh (if f_red f then k else Suc k) fs)"

fun pinvc :: "bool \<Rightarrow> path \<Rightarrow> bool" where
  "pinvc c [] = True"
| "pinvc c (f # fs) = (invc (f_sib f) \<and> (f_red f \<longrightarrow> \<not> c \<and> \<not> red (f_sib f)) \<and> pinvc (f_red f) fs)"

definition root_black :: "path \<Rightarrow> bool" where
  "root_black fs \<longleftrightarrow> fs \<noteq> [] \<longrightarrow> \<not> f_red (last fs)"

lemma root_black_simps [simp]:
  "root_black []" "root_black (f # fs) = (if fs = [] then \<not> f_red f else root_black fs)"
  by (simp_all add: root_black_def)

lemma invh_plug: "invh (plug t fs) \<longleftrightarrow> invh t \<and> pinvh (bh t) fs"
proof (induction fs arbitrary: t)
  case (Cons f fs)
  have "invh (plugf t f) \<and> pinvh (bh (plugf t f)) fs \<longleftrightarrow> invh t \<and> pinvh (bh t) (f # fs)"
    by (cases f; cases "bh (f_sib f) = bh t") (simp_all add: conj_commute conj_left_commute)
  with Cons.IH [of "plugf t f"] show ?case by simp
qed simp

lemma invc_plug: "invc (plug t fs) \<longleftrightarrow> invc t \<and> pinvc (red t) fs"
proof (induction fs arbitrary: t)
  case (Cons f fs)
  then show ?case by (cases f) auto
qed simp

lemma red_plug: "red (plug t fs) \<longleftrightarrow> (if fs = [] then red t else f_red (last fs))"
  by (induction fs arbitrary: t) auto

lemma rbinv_plug:
  "rbinv (plug t fs) \<longleftrightarrow> invh t \<and> invc t \<and> pinvh (bh t) fs \<and> pinvc (red t) fs \<and>
     (fs = [] \<longrightarrow> \<not> red t) \<and> root_black fs"
  by (auto simp: rbinv_def invh_plug invc_plug red_plug root_black_def)

lemma plug_Lf: "plug t fs = Lf \<longleftrightarrow> t = Lf \<and> fs = []"
proof (induction fs arbitrary: t)
  case (Cons f fs)
  then show ?case by (cases f) auto
qed simp

lemma pinvc_False: "pinvc c fs \<Longrightarrow> pinvc False fs"
  by (cases fs) auto

lemma pinvh_append: "pinvh k (fs @ gs) \<longleftrightarrow> pinvh k fs \<and> pinvh (k + length (filter (Not \<circ> f_red) fs)) gs"
  by (induction fs arbitrary: k) auto

lemma invh_black [simp]: "invh (black t) = invh t"
  by (cases t) auto

lemma invc_black: "invc t \<Longrightarrow> invc (black t)"
  by (cases t) auto

lemma bh_black: "bh (black t) = (if red t then Suc (bh t) else bh t)"
  by (cases t) auto

section \<open>The descent\<close>

text \<open>
  What the descent computes: the path to the empty place where the new node goes, or the node
  it matches.
\<close>

fun ins_path :: "(ptr \<Rightarrow> ptr \<Rightarrow> int) \<Rightarrow> bool \<Rightarrow> ptr \<Rightarrow> tree \<Rightarrow> path \<Rightarrow> ptr + path" where
  "ins_path cmp dup x Lf fs = Inr fs"
| "ins_path cmp dup x (Nd l a c r) fs =
     (if cmp x a = 0 \<and> \<not> dup then Inl a
      else if cmp x a < 0 then ins_path cmp dup x l (InL a c r # fs)
      else ins_path cmp dup x r (InR l a c # fs))"

lemma ins_path_plug: "ins_path cmp dup x t fs = Inr gs \<Longrightarrow> plug Lf gs = plug t fs"
  by (induction t arbitrary: fs) (auto split: if_splits)

lemma ins_path_nonempty: "ins_path cmp dup x t fs = Inr gs \<Longrightarrow> t \<noteq> Lf \<or> fs \<noteq> [] \<Longrightarrow> gs \<noteq> []"
  by (induction t arbitrary: fs) (auto split: if_splits)

text \<open>The frame the new node hangs from, with the side the last comparison chose.\<close>

lemma insert_search_rep:
  assumes "zrep h0 T n s t fs" and "t \<noteq> Lf"
  shows "\<exists>r. insert_search (rb_nodes s) cmp dup x (topp t) = Some r \<and>
     (case ins_path cmp dup x t fs of
        Inl m \<Rightarrow> r = Inl m
      | Inr gs \<Rightarrow> \<exists>cr. r = Inr (parent_of gs, cr) \<and>
          (case gs of [] \<Rightarrow> False | InL a c u # hs \<Rightarrow> cr < 0 | InR u a c # hs \<Rightarrow> 0 \<le> cr))"
  using assms
proof (induction t arbitrary: fs)
  case (Nd l a c r)
  note z = zrep_load [OF Nd.prems(1)] zrep_topp_nonnull [OF zrep_down(1) [OF Nd.prems(1)]]
    zrep_topp_nonnull [OF zrep_down(2) [OF Nd.prems(1)]]
  show ?case
  proof (cases "cmp x a = 0 \<and> \<not> dup")
    case True
    then show ?thesis by (subst insert_search.simps) simp
  next
    case match: False
    show ?thesis
    proof (cases "cmp x a < 0")
      case True
      then show ?thesis
        using match z Nd.IH(1) [OF zrep_down(1) [OF Nd.prems(1)]]
        by (subst insert_search.simps) (cases "l = Lf"; auto simp: Let_def)
    next
      case False
      then show ?thesis
        using match z Nd.IH(2) [OF zrep_down(2) [OF Nd.prems(1)]]
        by (subst insert_search.simps) (cases "r = Lf"; auto simp: Let_def)
    qed
  qed
qed simp

section \<open>The repair loop\<close>

lemma insert_fix_left_red:
  assumes "zrep h0 T n s t (f # InL g gc u # fs)" and "t \<noteq> Lf" and "red u"
  shows "\<exists>s'. insert_fix_left s (topp t) = Some (g, s') \<and>
           zrep h0 T n s' (Nd (plugf t (f_black f)) g True (black u)) fs"
proof -
  let ?g = "InL g gc u"
  note z = assms(1)
  obtain h1 where h1: "SetBlack (rb_nodes s) (f_ptr f) = Some h1"
      "zrep h0 T n (s\<lparr>rb_nodes := h1\<rparr>) t (f_black f # ?g # fs)"
    using SetColor_path(1) [of h0 T n s t "[]"] z by auto
  then have "zrep h0 T n (s\<lparr>rb_nodes := h1\<rparr>) u (InR (plugf t (f_black f)) g gc # fs)"
    by (simp add: zrep_up)
  then obtain h2 where h2: "SetBlack h1 (topp u) = Some h2"
      "zrep h0 T n (s\<lparr>rb_nodes := h2\<rparr>) (black u) (InR (plugf t (f_black f)) g gc # fs)"
    using SetColor_rep(1) by fastforce
  then have z2: "zrep h0 T n (s\<lparr>rb_nodes := h2\<rparr>) t ([f_black f] @ InL g gc (black u) # fs)"
    by (simp add: zrep_up)
  then obtain h3 where h3: "SetRed h2 g = Some h3"
      "zrep h0 T n (s\<lparr>rb_nodes := h3\<rparr>) t (f_black f # InL g True (black u) # fs)"
    using SetColor_path(2) [OF z2] by auto
  have "insert_fix_left s (topp t) = Some (g, s\<lparr>rb_nodes := h3\<rparr>)"
    using assms h1 h2 h3 z2 zrep_GetParent [OF z] zrep_GetGrandParent [OF z]
      zrep_frame(6) [of h0 T n s "plugf t f" ?g fs] zrep_IsRed [of h0 T n s u "InR (plugf t f) g gc # fs"]
      zrep_GetGrandParent [OF z2 [simplified]] zrep_GetGrandParent [OF h3(2)]
    by (simp add: insert_fix_left_def zrep_up)
  then show ?thesis
    using h3(2) by (simp add: zrep_up)
qed

text \<open>The final recolouring and rotation when the new node is an outer grandchild.\<close>

lemma insert_fix_left_end:
  assumes "zrep h0 T n s t (InL p pc ps # InL g gc u # fs)" and "t \<noteq> Lf"
  shows "\<exists>h h' s'. SetBlack (rb_nodes s) p = Some h \<and> GetParent (rb_nodes s) (topp t) = Some p \<and>
           GetGrandParent h (topp t) = Some g \<and> SetRed h g = Some h' \<and>
           GetGrandParent h' (topp t) = Some g \<and> RightRotate (s\<lparr>rb_nodes := h'\<rparr>) g = Some s' \<and>
           zrep h0 T n s' (Nd t p False (Nd ps g True u)) fs"
proof -
  note z = assms(1)
  obtain h1 where h1: "SetBlack (rb_nodes s) p = Some h1"
      "zrep h0 T n (s\<lparr>rb_nodes := h1\<rparr>) t ([InL p False ps] @ InL g gc u # fs)"
    using SetColor_path(1) [of h0 T n s t "[]" "InL p pc ps" "InL g gc u # fs"] z by auto
  obtain h2 where h2: "SetRed h1 g = Some h2"
      "zrep h0 T n (s\<lparr>rb_nodes := h2\<rparr>) t (InL p False ps # InL g True u # fs)"
    using SetColor_path(2) [OF h1(2)] by auto
  then have "zrep h0 T n (s\<lparr>rb_nodes := h2\<rparr>) (Nd (Nd t p False ps) g True u) fs"
    by (simp add: zrep_up)
  then obtain s' where "RightRotate (s\<lparr>rb_nodes := h2\<rparr>) g = Some s'"
      "zrep h0 T n s' (Nd t p False (Nd ps g True u)) fs"
    using RightRotate_rep by blast
  then show ?thesis
    using h1 h2 zrep_GetParent [OF z] zrep_GetGrandParent [OF h1(2) [simplified]]
      zrep_GetGrandParent [OF h2(2)] assms(2) by auto
qed

lemma insert_fix_left_outer:
  assumes "zrep h0 T n s t (InL p pc ps # InL g gc u # fs)" and "t \<noteq> Lf" and "\<not> red u"
  shows "\<exists>s'. insert_fix_left s (topp t) = Some (topp t, s') \<and>
           zrep h0 T n s' (Nd t p False (Nd ps g True u)) fs"
proof -
  note z = assms(1)
  have "topp t \<noteq> topp ps"
    using zrep_neq_frame(2) [OF z assms(2)] by auto
  then show ?thesis
    using insert_fix_left_end [OF z assms(2)] assms zrep_GetParent [OF z] zrep_GetGrandParent [OF z]
      zrep_frame(6) [of h0 T n s "plugf t (InL p pc ps)" "InL g gc u" fs] zrep_frame(6) [OF z]
      zrep_IsRed [of h0 T n s u "InR (plugf t (InL p pc ps)) g gc # fs"]
    by (auto simp: insert_fix_left_def zrep_up)
qed

lemma insert_fix_left_inner:
  assumes "zrep h0 T n s (Nd ta x xc tb) (InR pl p pc # InL g gc u # fs)" and "\<not> red u"
  shows "\<exists>s'. insert_fix_left s x = Some (p, s') \<and>
           zrep h0 T n s' (Nd (Nd pl p pc ta) x False (Nd tb g True u)) fs"
proof -
  note z = assms(1)
  have z': "zrep h0 T n s (Nd pl p pc (Nd ta x xc tb)) (InL g gc u # fs)"
    using z by (simp add: zrep_up)
  then obtain s1 where s1: "LeftRotate s p = Some s1"
      "zrep h0 T n s1 (Nd (Nd pl p pc ta) x xc tb) (InL g gc u # fs)"
    using LeftRotate_rep by blast
  then have "zrep h0 T n s1 (Nd pl p pc ta) (InL x xc tb # InL g gc u # fs)"
    by (simp add: zrep_up)
  from insert_fix_left_end [OF this] show ?thesis
    using assms s1 zrep_GetParent [OF z] zrep_GetGrandParent [OF z] zrep_frame(6) [OF z'] zrep_frame(6) [OF z]
      zrep_IsRed [of h0 T n s u "InR (Nd pl p pc (Nd ta x xc tb)) g gc # fs"]
    by (auto simp: insert_fix_left_def zrep_up)
qed

lemma insert_fix_right_mir: "insert_fix_right (mir s) x = map_option (map_prod id mir) (insert_fix_left s x)"
  unfolding insert_fix_right_def insert_fix_left_def
  by (simp add: mirror cong: if_cong)

text \<open>The three cases for a parent that is a right child, as mirror images.\<close>

lemma mirror_step:
  assumes "f = (\<lambda>s x. map_option (map_prod id mir) (g (mir s) x))"
    and "g (mir s) x = Some (y, s1)" and "zrep (mir_heap h0) T n s1 (mir_tree t') (mir_path fs')"
  shows "\<exists>s'. f s x = Some (y, s') \<and> zrep h0 T n s' t' fs'"
  using assms zrep_unmir [of h0 T n s1 t' fs'] by auto

lemma insert_fix_right_eq: "insert_fix_right = (\<lambda>s x. map_option (map_prod id mir) (insert_fix_left (mir s) x))"
  using insert_fix_right_mir [of "mir _"] by (auto simp: fun_eq_iff mir_mir)

lemma insert_fix_right_red:
  assumes "zrep h0 T n s t (f # InR u g gc # fs)" and "t \<noteq> Lf" and "red u"
  shows "\<exists>s'. insert_fix_right s (topp t) = Some (g, s') \<and>
           zrep h0 T n s' (Nd (black u) g True (plugf t (f_black f))) fs"
proof -
  have "zrep (mir_heap h0) T n (mir s) (mir_tree t) (mir_frame f # InL g gc (mir_tree u) # mir_path fs)"
    using zrep_mir_1 [OF assms(1)] by simp
  from insert_fix_left_red [OF this] obtain s1 where
    "insert_fix_left (mir s) (topp t) = Some (g, s1)"
    "zrep (mir_heap h0) T n s1 (Nd (plugf (mir_tree t) (f_black (mir_frame f))) g True (black (mir_tree u))) (mir_path fs)"
    using assms(2,3) by (auto simp: mirror)
  then show ?thesis
    by (intro mirror_step [OF insert_fix_right_eq]) (simp_all add: mirror)
qed

lemma insert_fix_right_outer:
  assumes "zrep h0 T n s t (InR ps p pc # InR u g gc # fs)" and "t \<noteq> Lf" and "\<not> red u"
  shows "\<exists>s'. insert_fix_right s (topp t) = Some (topp t, s') \<and>
           zrep h0 T n s' (Nd (Nd u g True ps) p False t) fs"
proof -
  have "zrep (mir_heap h0) T n (mir s) (mir_tree t) (InL p pc (mir_tree ps) # InL g gc (mir_tree u) # mir_path fs)"
    using zrep_mir_1 [OF assms(1)] by simp
  from insert_fix_left_outer [OF this] obtain s1 where
    "insert_fix_left (mir s) (topp t) = Some (topp t, s1)"
    "zrep (mir_heap h0) T n s1 (mir_tree (Nd (Nd u g True ps) p False t)) (mir_path fs)"
    using assms(2,3) by (auto simp: mirror)
  then show ?thesis
    by (intro mirror_step [OF insert_fix_right_eq])
qed

lemma insert_fix_right_inner:
  assumes "zrep h0 T n s (Nd ta x xc tb) (InL p pc pr # InR u g gc # fs)" and "\<not> red u"
  shows "\<exists>s'. insert_fix_right s x = Some (p, s') \<and>
           zrep h0 T n s' (Nd (Nd u g True ta) x False (Nd tb p pc pr)) fs"
proof -
  have "zrep (mir_heap h0) T n (mir s) (Nd (mir_tree tb) x xc (mir_tree ta))
      (InR (mir_tree pr) p pc # InL g gc (mir_tree u) # mir_path fs)"
    using zrep_mir_1 [OF assms(1)] by simp
  from insert_fix_left_inner [OF this] obtain s1 where
    "insert_fix_left (mir s) x = Some (p, s1)"
    "zrep (mir_heap h0) T n s1 (mir_tree (Nd (Nd u g True ta) x False (Nd tb p pc pr))) (mir_path fs)"
    using assms(2) by (auto simp: mirror)
  then show ?thesis
    by (intro mirror_step [OF insert_fix_right_eq])
qed

text \<open>
  One turn of the repair loop when the parent is red: either the violation moves two levels up,
  or the tree is repaired and the node of the next turn has a black parent or is the root.
\<close>

definition ins_ok :: "tree \<Rightarrow> path \<Rightarrow> bool" where
  "ins_ok t fs \<longleftrightarrow> red t \<and> invc t \<and> invh t \<and> pinvh (bh t) fs \<and> pinvc False fs \<and> root_black fs"

definition ins_done :: "tree \<Rightarrow> path \<Rightarrow> bool" where
  "ins_done t fs \<longleftrightarrow> ins_ok t fs \<and> (fs \<noteq> [] \<longrightarrow> \<not> f_red (hd fs))"

lemma ins_ok_parents:
  assumes "ins_ok t (f # fs)" and "f_red f"
  obtains g gs where "fs = g # gs" "\<not> f_red g" "\<not> red (f_sib f)"
  using assms by (cases fs) (auto simp: ins_ok_def)

lemma insert_fix_turn:
  assumes z: "zrep h0 T n s t (f # g # gs)" and ok: "ins_ok t (f # g # gs)" and fr: "f_red f"
  shows "\<exists>s' t' gs' y. (case g of InL _ _ _ \<Rightarrow> insert_fix_left s (topp t) | InR _ _ _ \<Rightarrow> insert_fix_right s (topp t))
             = Some (y, s') \<and> y = topp t' \<and> zrep h0 T n s' t' gs' \<and> ins_ok t' gs' \<and>
           length gs' < length (f # g # gs) \<and>
           inorder (plug t' gs') = inorder (plug t (f # g # gs))"
proof -
  have gb: "\<not> f_red g" and fs: "\<not> red (f_sib f)"
    using ins_ok_parents [OF ok fr] by auto
  obtain ta x tb where t: "t = Nd ta x True tb"
    using ok by (cases t) (auto simp: ins_ok_def)
  note inv = ok [unfolded ins_ok_def] fr gb fs t
  show ?thesis
  proof (cases "red (f_sib g)")
    case True
    show ?thesis
    proof (cases g)
      case (InL a c u)
      then obtain s' where "insert_fix_left s (topp t) = Some (a, s')"
          "zrep h0 T n s' (Nd (plugf t (f_black f)) a True (black u)) gs"
        using insert_fix_left_red [of h0 T n s t f a c u gs] z True t by auto
      moreover have "ins_ok (Nd (plugf t (f_black f)) a True (black u)) gs"
        using inv InL True by (cases f) (auto simp: ins_ok_def bh_black invc_black split: if_splits)
      ultimately show ?thesis
        using InL by (intro exI [of _ s'] exI [of _ "Nd (plugf t (f_black f)) a True (black u)"] exI [of _ gs])
          (cases f, auto simp: inorder_plug)
    next
      case (InR u a c)
      then obtain s' where "insert_fix_right s (topp t) = Some (a, s')"
          "zrep h0 T n s' (Nd (black u) a True (plugf t (f_black f))) gs"
        using insert_fix_right_red [of h0 T n s t f u a c gs] z True t by auto
      moreover have "ins_ok (Nd (black u) a True (plugf t (f_black f))) gs"
        using inv InR True by (cases f) (auto simp: ins_ok_def bh_black invc_black split: if_splits)
      ultimately show ?thesis
        using InR by (intro exI [of _ s'] exI [of _ "Nd (black u) a True (plugf t (f_black f))"] exI [of _ gs])
          (cases f, auto simp: inorder_plug)
    qed
  next
    case False
    show ?thesis
    proof (cases g; cases f)
      fix a c u p pc ps assume g: "g = InL a c u" and f: "f = InL p pc ps"
      then obtain s' where "insert_fix_left s (topp t) = Some (topp t, s')"
          "zrep h0 T n s' (Nd t p False (Nd ps a True u)) gs"
        using insert_fix_left_outer [of h0 T n s t p pc ps a c u gs] z False t by auto
      then have "zrep h0 T n s' t (InL p False (Nd ps a True u) # gs)"
        by (simp add: zrep_up)
      moreover have "ins_ok t (InL p False (Nd ps a True u) # gs)"
        using inv g f False by (auto simp: ins_ok_def)
      ultimately show ?thesis
        using g f \<open>insert_fix_left s (topp t) = _\<close>
        by (intro exI [of _ s'] exI [of _ t] exI [of _ "InL p False (Nd ps a True u) # gs"]) (auto simp: inorder_plug)
    next
      fix a c u p pc ps assume g: "g = InL a c u" and f: "f = InR ps p pc"
      then obtain s' where "insert_fix_left s x = Some (p, s')"
          "zrep h0 T n s' (Nd (Nd ps p pc ta) x False (Nd tb a True u)) gs"
        using insert_fix_left_inner [of h0 T n s ta x True tb ps p pc a c u gs] z False t by auto
      then have "zrep h0 T n s' (Nd ps p pc ta) (InL x False (Nd tb a True u) # gs)"
        by (simp add: zrep_up)
      moreover have "ins_ok (Nd ps p pc ta) (InL x False (Nd tb a True u) # gs)"
        using inv g f False by (auto simp: ins_ok_def)
      ultimately show ?thesis
        using g f t \<open>insert_fix_left s x = _\<close>
        by (intro exI [of _ s'] exI [of _ "Nd ps p pc ta"] exI [of _ "InL x False (Nd tb a True u) # gs"])
          (auto simp: inorder_plug)
    next
      fix a c u p pc ps assume g: "g = InR u a c" and f: "f = InL p pc ps"
      then obtain s' where "insert_fix_right s x = Some (p, s')"
          "zrep h0 T n s' (Nd (Nd u a True ta) x False (Nd tb p pc ps)) gs"
        using insert_fix_right_inner [of h0 T n s ta x True tb p pc ps u a c gs] z False t by auto
      then have "zrep h0 T n s' (Nd tb p pc ps) (InR (Nd u a True ta) x False # gs)"
        by (simp add: zrep_up)
      moreover have "ins_ok (Nd tb p pc ps) (InR (Nd u a True ta) x False # gs)"
        using inv g f False by (auto simp: ins_ok_def)
      ultimately show ?thesis
        using g f t \<open>insert_fix_right s x = _\<close>
        by (intro exI [of _ s'] exI [of _ "Nd tb p pc ps"] exI [of _ "InR (Nd u a True ta) x False # gs"])
          (auto simp: inorder_plug)
    next
      fix a c u p pc ps assume g: "g = InR u a c" and f: "f = InR ps p pc"
      then obtain s' where "insert_fix_right s (topp t) = Some (topp t, s')"
          "zrep h0 T n s' (Nd (Nd u a True ps) p False t) gs"
        using insert_fix_right_outer [of h0 T n s t ps p pc u a c gs] z False t by auto
      then have "zrep h0 T n s' t (InR (Nd u a True ps) p False # gs)"
        by (simp add: zrep_up)
      moreover have "ins_ok t (InR (Nd u a True ps) p False # gs)"
        using inv g f False by (auto simp: ins_ok_def)
      ultimately show ?thesis
        using g f \<open>insert_fix_right s (topp t) = _\<close>
        by (intro exI [of _ s'] exI [of _ t] exI [of _ "InR (Nd u a True ps) p False # gs"]) (auto simp: inorder_plug)
    qed
  qed
qed

lemma ins_ok_final:
  assumes "ins_ok t fs" and "fs \<noteq> [] \<longrightarrow> \<not> f_red (hd fs)"
  shows "rbinv (black (plug t fs))"
proof (cases fs)
  case Nil
  then show ?thesis
    using assms by (simp add: ins_ok_def rbinv_def invc_black)
next
  case (Cons f gs)
  then have "rbinv (plug t fs)"
    using assms unfolding rbinv_plug by (auto simp: ins_ok_def)
  then show ?thesis
    by (simp add: rbinv_def black_id)
qed

lemma insert_fix_rep:
  assumes "zrep h0 T n s t fs" and "ins_ok t fs"
  shows "\<exists>s' t'. insert_fix s (topp t) = Some s' \<and> zrep h0 T n s' t' [] \<and> t' \<noteq> Lf \<and>
           inorder t' = inorder (plug t fs) \<and> rbinv (black t')"
  using assms
proof (induction "length fs" arbitrary: s t fs rule: less_induct)
  case less
  note z = less.prems(1) and ok = less.prems(2)
  have nz: "t \<noteq> Lf" "topp t \<noteq> NULL"
    using ok zrep_topp_nonnull [OF z] by (auto simp: ins_ok_def)
  show ?case
  proof (cases fs)
    case Nil
    then show ?thesis
      using z ok nz zrep_root [OF z nz(1)] ins_ok_final [OF ok]
      by (subst insert_fix.simps) auto
  next
    case (Cons f gs)
    obtain l a c r where t: "t = Nd l a c r" using nz by (cases t) auto
    have load: "load (rb_nodes s) (topp t) = Some \<lparr>rb_red = c, rb_tree = T, rb_left = topp l,
        rb_right = topp r, rb_parent = f_ptr f\<rparr>"
      using zrep_load [of h0 T n s l a c r fs] z t Cons by simp
    have root: "topp t \<noteq> rb_root s"
      using zrep_root [OF z nz(1)] Cons by simp
    note fr = zrep_frame [OF z [unfolded Cons]]
    show ?thesis
    proof (cases "f_red f")
      case False
      have "plug t fs \<noteq> Lf"
        by (simp add: plug_Lf nz)
      moreover have "zrep h0 T n s (plug t fs) []"
        using z zrep_plug by blast
      moreover have "insert_fix s (topp t) = Some s"
        using load root nz fr False by (subst insert_fix.simps) simp
      ultimately show ?thesis
        using ins_ok_final [OF ok] False Cons by auto
    next
      case True
      then obtain g hs where g: "gs = g # hs" using ok Cons by (metis ins_ok_parents)
      have z2: "zrep h0 T n s (plugf t f) (g # hs)"
        using z Cons g by (simp add: zrep_up)
      obtain s' t' gs' where turn:
          "(case g of InL _ _ _ \<Rightarrow> insert_fix_left s (topp t) | InR _ _ _ \<Rightarrow> insert_fix_right s (topp t))
             = Some (topp t', s')" "zrep h0 T n s' t' gs'" "ins_ok t' gs'"
          "length gs' < length fs" "inorder (plug t' gs') = inorder (plug t fs)"
        using insert_fix_turn [of h0 T n s t f g hs] z ok True Cons g by auto
      obtain gl where gl: "GetLeft (rb_nodes s) (f_ptr g) = Some gl"
          "f_ptr f = gl \<longleftrightarrow> (case g of InL _ _ _ \<Rightarrow> True | InR _ _ _ \<Rightarrow> False)"
        using zrep_frame(5) [OF z2] zrep_neq_frame(2) [OF z2] by (cases g; cases f; simp)
      have "insert_fix s (topp t) = do {
          (x, s) \<leftarrow> (if f_ptr f = gl then insert_fix_left s (topp t) else insert_fix_right s (topp t));
          insert_fix s x }"
        using load root nz fr(2,4) True g gl(1) zrep_GetParent [OF z nz(1)] Cons
        by (subst insert_fix.simps) simp
      also have "\<dots> = insert_fix s' (topp t')"
        using turn(1) gl(2) by (cases g) simp_all
      finally have "insert_fix s (topp t) = insert_fix s' (topp t')" .
      then show ?thesis
        using less.hyps [OF turn(4) turn(2,3)] turn(5) by auto
    qed
  qed
qed

section \<open>Insert\<close>

text \<open>
  \<open>rb_rep T s t\<close>: the tree object at address \<open>T\<close> is a well-formed red-black tree with the
  shape \<open>t\<close>, links, root and counter included.
\<close>

definition rb_rep :: "ptr \<Rightarrow> rbt \<Rightarrow> tree \<Rightarrow> bool" where
  "rb_rep T s t \<longleftrightarrow> T \<noteq> NULL \<and> zrep (rb_nodes s) T (of_nat (length (inorder t))) s t [] \<and> rbinv t"

text \<open>
  The callback orders the new node against the nodes of the tree monotonically: no node that
  compares after it stands before one that compares equal or before it.
\<close>

definition cmp_mono :: "('k \<Rightarrow> ptr \<Rightarrow> int) \<Rightarrow> 'k \<Rightarrow> ptr list \<Rightarrow> bool" where
  "cmp_mono cmp x xs \<longleftrightarrow> sorted_wrt (\<lambda>a b. sgn (cmp x b) \<le> sgn (cmp x a)) xs"

lemma cmp_mono_append:
  "cmp_mono cmp x (xs @ ys) \<longleftrightarrow>
     cmp_mono cmp x xs \<and> cmp_mono cmp x ys \<and>
     (\<forall>a \<in> set xs. \<forall>b \<in> set ys. sgn (cmp x b) \<le> sgn (cmp x a))"
  by (simp add: cmp_mono_def sorted_wrt_append)

lemma cmp_mono_Cons:
  "cmp_mono cmp x (y # ys) \<longleftrightarrow>
     cmp_mono cmp x ys \<and> (\<forall>b \<in> set ys. sgn (cmp x b) \<le> sgn (cmp x y))"
  by (auto simp: cmp_mono_def)

lemma sgn_int_le:
  "sgn (a::int) \<le> sgn b \<Longrightarrow> b < 0 \<Longrightarrow> a < 0" "sgn (a::int) \<le> sgn b \<Longrightarrow> b \<le> 0 \<Longrightarrow> a \<le> 0"
  "sgn (a::int) \<le> sgn b \<Longrightarrow> 0 < a \<Longrightarrow> 0 < b" "sgn (a::int) \<le> sgn b \<Longrightarrow> 0 \<le> a \<Longrightarrow> 0 \<le> b"
  by (auto simp: sgn_if split: if_splits)

lemma ins_path_match: "ins_path cmp dup x t fs = Inl m \<Longrightarrow> m \<in> set (inorder t) \<and> cmp x m = 0 \<and> \<not> dup"
  by (induction t arbitrary: fs) (auto split: if_splits)

lemma ins_path_cut:
  assumes "ins_path cmp dup x t fs = Inr gs" and "cmp_mono cmp x (inorder t)"
  shows "\<exists>ys zs. inorder t = ys @ zs \<and> befores gs = befores fs @ ys \<and> afters gs = zs @ afters fs \<and>
           (\<forall>y \<in> set ys. 0 \<le> cmp x y) \<and> (\<forall>z \<in> set zs. cmp x z < 0) \<and>
           (\<not> dup \<longrightarrow> (\<forall>y \<in> set ys. 0 < cmp x y))"
  using assms
proof (induction t arbitrary: fs)
  case Lf
  then show ?case by simp
next
  case (Nd l a c r)
  note mono = Nd.prems(2) [simplified inorder.simps cmp_mono_append cmp_mono_Cons]
  show ?case
  proof (cases "cmp x a < 0")
    case True
    then obtain ys zs where "inorder l = ys @ zs" "befores gs = befores fs @ ys"
        "afters gs = zs @ a # inorder r @ afters fs" "\<forall>y \<in> set ys. 0 \<le> cmp x y"
        "\<forall>z \<in> set zs. cmp x z < 0" "\<not> dup \<longrightarrow> (\<forall>y \<in> set ys. 0 < cmp x y)"
      using Nd.IH(1) [of "InL a c r # fs"] Nd.prems(1) mono by (auto split: if_splits)
    moreover have "\<forall>z \<in> set (inorder r). cmp x z < 0"
      using True mono sgn_int_le(1) by blast
    ultimately show ?thesis
      using True by (intro exI [of _ ys] exI [of _ "zs @ a # inorder r"]) auto
  next
    case False
    then obtain ys zs where *: "inorder r = ys @ zs" "befores gs = befores fs @ inorder l @ a # ys"
        "afters gs = zs @ afters fs" "\<forall>y \<in> set ys. 0 \<le> cmp x y"
        "\<forall>z \<in> set zs. cmp x z < 0" "\<not> dup \<longrightarrow> (\<forall>y \<in> set ys. 0 < cmp x y)"
        "dup \<or> 0 < cmp x a"
      using Nd.IH(2) [of "InR l a c # fs"] Nd.prems(1) mono by (auto split: if_splits)
    moreover have "\<forall>y \<in> set (inorder l). 0 \<le> cmp x y" "dup \<or> (\<forall>y \<in> set (inorder l). 0 < cmp x y)"
      using False mono *(7) sgn_int_le(3,4) by (metis linorder_not_less UnCI set_append list.set_intros(1))+
    ultimately show ?thesis
      using False by (intro exI [of _ "inorder l @ a # ys"] exI [of _ zs]) auto
  qed
qed

text \<open>Hanging the new red leaf from the place the descent found.\<close>

lemma hang_rep:
  assumes "zrep h0 T n s Lf gs" and "gs \<noteq> []" and "x \<noteq> NULL" and "x \<notin> paddrs gs" and "rb_nodes s x = Some m"
    and "case gs of [] \<Rightarrow> False | InL a c u # hs \<Rightarrow> cr < 0 | InR u a c # hs \<Rightarrow> 0 \<le> (cr::int)"
  shows "\<exists>h1 h2 h3. store (rb_nodes s) x (\<lambda>n. n\<lparr>rb_left := NULL, rb_right := NULL, rb_parent := parent_of gs\<rparr>) = Some h1 \<and>
           (if cr < 0 then store h1 (parent_of gs) (\<lambda>n. n\<lparr>rb_left := x\<rparr>)
            else store h1 (parent_of gs) (\<lambda>n. n\<lparr>rb_right := x\<rparr>)) = Some h2 \<and>
           store h2 x (\<lambda>n. n\<lparr>rb_tree := T, rb_red := True\<rparr>) = Some h3 \<and>
           zrep h0 T n (s\<lparr>rb_nodes := h3\<rparr>) (Nd Lf x True Lf) gs"
proof (cases gs)
  case (Cons f hs)
  then show ?thesis
    using assms
    by (cases f) (auto simp: heap_simps zrep_def paddrs_def simp del: fun_upd_apply)
qed (use assms in simp)

lemma zrep_black_root:
  assumes "zrep h0 T n s t []" and "t \<noteq> Lf"
  shows "\<exists>h. store (rb_nodes s) (rb_root s) (\<lambda>n. n\<lparr>rb_red := False\<rparr>) = Some h \<and>
           zrep h0 T m (s\<lparr>rb_nodes := h, rb_count := m\<rparr>) (black t) []"
proof (cases t)
  case (Nd l a c r)
  have "rb_root s = a"
    using assms Nd by (simp add: zrep_def)
  moreover obtain h where "store (rb_nodes s) a (\<lambda>n. n\<lparr>rb_red := False\<rparr>) = Some h"
      "zrep h0 T n (s\<lparr>rb_nodes := h\<rparr>) (black t) []"
    using zrep_store_color [of h0 T n s l a c r "[]" False] assms Nd by auto
  ultimately show ?thesis
    by (auto simp: zrep_def)
qed (use assms in simp)

lemma rb_rep_nonnull: "rb_rep T s t \<Longrightarrow> NULL \<notin> set (inorder t)"
  using zrep_nonnull by (fastforce simp: rb_rep_def)

lemma rb_rep_root: "rb_rep T s t \<Longrightarrow> rb_root s = topp t \<and> (topp t = NULL \<longleftrightarrow> t = Lf)"
  by (auto simp: rb_rep_def zrep_def dest: tree_at_topp)

lemma rb_rep_of_zrep:
  assumes "zrep h0 T (of_nat (length (inorder t))) s t []" and "rbinv t" and "T \<noteq> NULL"
  shows "rb_rep T s t"
  using assms by (auto simp: rb_rep_def zrep_def)

text \<open>A refused duplicate: the tree is unchanged and the matching node is reported.\<close>

lemma rb_Insert_match:
  assumes "rb_rep T s t" and "ins_path cmp dup x t [] = Inl m"
  shows "rb_Insert T s x cmp dup = Some (False, m, s)"
proof -
  have z: "zrep (rb_nodes s) T (of_nat (length (inorder t))) s t []" and "t \<noteq> Lf"
    using assms by (auto simp: rb_rep_def)
  then show ?thesis
    using insert_search_rep [OF z, of cmp dup x] rb_rep_root [OF assms(1)] assms(2)
    by (auto simp: rb_Insert_def)
qed

text \<open>An accepted node: where the descent says, with the tree repaired.\<close>

lemma rb_Insert_new:
  assumes rep: "rb_rep T s t" and path: "ins_path cmp dup x t [] = Inr gs"
    and x: "x \<noteq> NULL" "rb_nodes s x = Some m" "x \<notin> set (inorder t)"
  shows "\<exists>s' t'. rb_Insert T s x cmp dup = Some (True, NULL, s') \<and> rb_rep T s' t' \<and>
           inorder t' = befores gs @ x # afters gs \<and>
           (\<forall>y. y \<notin> insert x (set (inorder t)) \<longrightarrow> rb_nodes s' y = rb_nodes s y)"
proof (cases t)
  case Lf
  then have "rb_root s = NULL" and gs: "gs = []"
    using rb_rep_root [OF rep] path by auto
  moreover obtain h where h: "h = (rb_nodes s)(x \<mapsto> m\<lparr>rb_parent := NULL, rb_left := NULL,
      rb_right := NULL, rb_tree := T, rb_red := False\<rparr>)"
    by simp
  ultimately show ?thesis
    using x rep Lf
    by (intro exI [of _ "s\<lparr>rb_nodes := h, rb_root := x, rb_count := rb_count s + 1\<rparr>"] exI [of _ "Nd Lf x False Lf"])
      (auto simp: rb_Insert_def heap_simps rb_rep_def rbinv_def zrep_def)
next
  case (Nd l a c r)
  let ?h0 = "rb_nodes s" and ?n = "of_nat (length (inorder t)) :: u64"
  have z: "zrep ?h0 T ?n s t []" and T: "T \<noteq> NULL" and inv: "rbinv t"
    using rep by (auto simp: rb_rep_def)
  have plug: "plug Lf gs = t" and gs: "gs \<noteq> []"
    using ins_path_plug [OF path] ins_path_nonempty [OF path] Nd by auto
  then have io: "inorder t = befores gs @ afters gs"
    using inorder_plug [of Lf gs] by simp
  obtain cr where cr: "insert_search ?h0 cmp dup x (rb_root s) = Some (Inr (parent_of gs, cr))"
      "case gs of [] \<Rightarrow> False | InL a c u # hs \<Rightarrow> cr < 0 | InR u a c # hs \<Rightarrow> 0 \<le> cr"
    using insert_search_rep [OF z, of cmp dup x] path Nd rb_rep_root [OF rep] by auto
  have zl: "zrep ?h0 T ?n s Lf gs"
    using z zrep_plug [of ?h0 T ?n s Lf gs] by (simp add: plug)
  have "x \<notin> paddrs gs"
    using x(3) by (simp add: paddrs_def io)
  then obtain h1 h2 h3 where h:
      "store ?h0 x (\<lambda>n. n\<lparr>rb_left := NULL, rb_right := NULL, rb_parent := parent_of gs\<rparr>) = Some h1"
      "(if cr < 0 then store h1 (parent_of gs) (\<lambda>n. n\<lparr>rb_left := x\<rparr>)
        else store h1 (parent_of gs) (\<lambda>n. n\<lparr>rb_right := x\<rparr>)) = Some h2"
      "store h2 x (\<lambda>n. n\<lparr>rb_tree := T, rb_red := True\<rparr>) = Some h3"
      "zrep ?h0 T ?n (s\<lparr>rb_nodes := h3\<rparr>) (Nd Lf x True Lf) gs"
    using hang_rep [OF zl gs x(1) _ x(2) cr(2)] by blast
  have "ins_ok (Nd Lf x True Lf) gs"
    using inv rbinv_plug [of Lf gs] by (auto simp: ins_ok_def plug)
  from insert_fix_rep [OF h(4) this] obtain s1 t1 where s1:
      "insert_fix (s\<lparr>rb_nodes := h3\<rparr>) x = Some s1" "zrep ?h0 T ?n s1 t1 []" "t1 \<noteq> Lf"
      "inorder t1 = befores gs @ x # afters gs" "rbinv (black t1)"
    by (auto simp: inorder_plug)
  obtain h4 where h4: "store (rb_nodes s1) (rb_root s1) (\<lambda>n. n\<lparr>rb_red := False\<rparr>) = Some h4"
      "zrep ?h0 T (?n + 1) (s1\<lparr>rb_nodes := h4, rb_count := ?n + 1\<rparr>) (black t1) []"
    using zrep_black_root [OF s1(2,3)] by blast
  have count: "rb_count s1 = ?n"
    using s1(2) by (simp add: zrep_def)
  let ?s' = "s1\<lparr>rb_nodes := h4, rb_count := ?n + 1\<rparr>"
  have "rb_Insert T s x cmp dup = Some (True, NULL, ?s')"
    using cr(1) h(1,2,3) s1(1) h4(1) count rb_rep_root [OF rep] Nd by (simp add: rb_Insert_def)
  moreover have "rb_rep T ?s' (black t1)"
    using h4(2) s1(4,5) T io by (intro rb_rep_of_zrep) (simp_all add: add.commute)
  moreover have "rb_nodes ?s' y = rb_nodes s y" if "y \<notin> insert x (set (inorder t))" for y
    using h4(2) that s1(4) io by (simp add: zrep_def)
  ultimately show ?thesis
    using s1(4) by (metis black_simps(3))
qed

end
