(* ===== verification/RBTree_Remove.thy ===== *)
theory RBTree_Remove
  imports RBTree_Insert
begin

text \<open>
  Correctness of \<open>Remove\<close>: the exchange with the successor keeps the shape, the unlinking and the
  repair loop of \<open>DeleteFixup\<close> give a red-black tree without the node, and the loop ends.
\<close>

section \<open>One turn of the repair\<close>

lemma delete_sib_left_black:
  assumes "zrep h0 T n s t (InL p pc sib # fs)" and "t \<noteq> Lf" and "\<not> red sib"
  shows "delete_sib_left s (topp t) = Some (topp sib, s)"
  using assms zrep_GetParent [OF assms(1)] zrep_frame(6) [OF assms(1)]
    zrep_IsRed [of h0 T n s sib "InR t p pc # fs"]
  by (simp add: delete_sib_left_def zrep_up)

lemma delete_sib_left_red:
  assumes "zrep h0 T n s t (InL p pc (Nd sl q True sr) # fs)" and "t \<noteq> Lf"
  shows "\<exists>s'. delete_sib_left s (topp t) = Some (topp sl, s') \<and>
           zrep h0 T n s' t (InL p True sl # InL q False sr # fs)"
proof -
  note z = assms(1)
  have zq: "zrep h0 T n s (Nd sl q True sr) (InR t p pc # fs)"
    using z by (simp add: zrep_up)
  obtain h1 where h1: "SetBlack (rb_nodes s) q = Some h1"
      "zrep h0 T n (s\<lparr>rb_nodes := h1\<rparr>) (Nd sl q False sr) (InR t p pc # fs)"
    using SetColor_rep(1) [OF zq] by auto
  then have z1: "zrep h0 T n (s\<lparr>rb_nodes := h1\<rparr>) t ([] @ InL p pc (Nd sl q False sr) # fs)"
    by (simp add: zrep_up)
  obtain h2 where h2: "SetRed h1 p = Some h2"
      "zrep h0 T n (s\<lparr>rb_nodes := h2\<rparr>) t (InL p True (Nd sl q False sr) # fs)"
    using SetColor_path(2) [OF z1] by auto
  then obtain s' where s': "LeftRotate (s\<lparr>rb_nodes := h2\<rparr>) p = Some s'"
      "zrep h0 T n s' (Nd (Nd t p True sl) q False sr) fs"
    using LeftRotate_rep [of h0 T n "s\<lparr>rb_nodes := h2\<rparr>" t p True sl q False sr fs] by (auto simp: zrep_up)
  then have z3: "zrep h0 T n s' t (InL p True sl # InL q False sr # fs)"
    by (simp add: zrep_up)
  have "delete_sib_left s (topp t) = Some (topp sl, s')"
    using assms h1 h2 s' z1 zrep_GetParent [OF z] zrep_frame(6) [OF z] zrep_IsRed [OF zq]
      zrep_GetParent [OF z1] zrep_GetParent [OF h2(2)] zrep_GetParent [OF z3] zrep_frame(6) [OF z3]
    by (simp add: delete_sib_left_def)
  then show ?thesis using z3 by blast
qed

lemma delete_turn_left_up:
  assumes "zrep h0 T n s t (InL p pc (Nd sl q False sr) # fs)" and "t \<noteq> Lf" and "\<not> red sl" "\<not> red sr"
  shows "\<exists>s'. delete_turn_left s (topp t) q = Some (p, False, s') \<and>
           zrep h0 T n s' t (InL p pc (Nd sl q True sr) # fs)"
proof -
  note z = assms(1)
  have zq: "zrep h0 T n s (Nd sl q False sr) (InR t p pc # fs)"
    using z by (simp add: zrep_up)
  obtain h1 where h1: "SetRed (rb_nodes s) q = Some h1"
      "zrep h0 T n (s\<lparr>rb_nodes := h1\<rparr>) (Nd sl q True sr) (InR t p pc # fs)"
    using SetColor_rep(2) [OF zq] by auto
  then have z1: "zrep h0 T n (s\<lparr>rb_nodes := h1\<rparr>) t (InL p pc (Nd sl q True sr) # fs)"
    by (simp add: zrep_up)
  have "delete_turn_left s (topp t) q = Some (p, False, s\<lparr>rb_nodes := h1\<rparr>)"
    using assms h1 zrep_get [OF zq] zrep_IsRed [OF zrep_down(1) [OF zq]] zrep_IsRed [OF zrep_down(2) [OF zq]]
      zrep_GetParent [OF z1]
    by (simp add: delete_turn_left_def)
  then show ?thesis using z1 by blast
qed

text \<open>The last recolouring and rotation, when the far child of the sibling is red.\<close>

lemma delete_left_last:
  assumes "zrep h0 T n s t (InL p pc (Nd sl q qc sr) # fs)" and "t \<noteq> Lf"
  shows "\<exists>h1 h2 h3 s'. GetParent (rb_nodes s) (topp t) = Some p \<and> IsRed (rb_nodes s) p = Some pc \<and>
     (if pc then SetRed (rb_nodes s) q else SetBlack (rb_nodes s) q) = Some h1 \<and>
     GetParent h1 (topp t) = Some p \<and> SetBlack h1 p = Some h2 \<and>
     GetRight h2 q = Some (topp sr) \<and> SetBlack h2 (topp sr) = Some h3 \<and>
     GetParent h3 (topp t) = Some p \<and> LeftRotate (s\<lparr>rb_nodes := h3\<rparr>) p = Some s' \<and>
     zrep h0 T n s' t (InL p False sl # InL q pc (black sr) # fs)"
proof -
  note z = assms(1)
  have zq: "zrep h0 T n s (Nd sl q qc sr) (InR t p pc # fs)"
    using z by (simp add: zrep_up)
  obtain h1 where h1: "(if pc then SetRed (rb_nodes s) q else SetBlack (rb_nodes s) q) = Some h1"
      "zrep h0 T n (s\<lparr>rb_nodes := h1\<rparr>) (Nd sl q pc sr) (InR t p pc # fs)"
    using SetColor_rep [OF zq] by (cases pc) auto
  then have z1: "zrep h0 T n (s\<lparr>rb_nodes := h1\<rparr>) t ([] @ InL p pc (Nd sl q pc sr) # fs)"
    by (simp add: zrep_up)
  obtain h2 where h2: "SetBlack h1 p = Some h2"
      "zrep h0 T n (s\<lparr>rb_nodes := h2\<rparr>) t (InL p False (Nd sl q pc sr) # fs)"
    using SetColor_path(1) [OF z1] by auto
  then have z2: "zrep h0 T n (s\<lparr>rb_nodes := h2\<rparr>) (Nd sl q pc sr) (InR t p False # fs)"
    by (simp add: zrep_up)
  obtain h3 where h3: "SetBlack h2 (topp sr) = Some h3"
      "zrep h0 T n (s\<lparr>rb_nodes := h3\<rparr>) (black sr) (InR sl q pc # InR t p False # fs)"
    using SetColor_rep(1) [OF zrep_down(2) [OF z2]] by auto
  then have z3: "zrep h0 T n (s\<lparr>rb_nodes := h3\<rparr>) t (InL p False (Nd sl q pc (black sr)) # fs)"
    by (simp add: zrep_up)
  then obtain s' where "LeftRotate (s\<lparr>rb_nodes := h3\<rparr>) p = Some s'"
      "zrep h0 T n s' (Nd (Nd t p False sl) q pc (black sr)) fs"
    using LeftRotate_rep [of h0 T n "s\<lparr>rb_nodes := h3\<rparr>" t p False sl q pc "black sr" fs] by (auto simp: zrep_up)
  then show ?thesis
    using h1(1) h2(1) h3(1) assms(2) zrep_GetParent [OF z] zrep_frame(3) [OF z] zrep_GetParent [OF z1]
      zrep_get [OF z2] zrep_GetParent [OF z3] by (auto simp: zrep_up)
qed

lemma delete_turn_left_far:
  assumes "zrep h0 T n s t (InL p pc (Nd sl q False sr) # fs)" and "t \<noteq> Lf" and "red sr"
  shows "\<exists>s'. delete_turn_left s (topp t) q = Some (topp t, True, s') \<and>
           zrep h0 T n s' t (InL p False sl # InL q pc (black sr) # fs)"
proof -
  have zq: "zrep h0 T n s (Nd sl q False sr) (InR t p pc # fs)"
    using assms(1) by (simp add: zrep_up)
  show ?thesis
    using assms delete_left_last [OF assms(1,2)] zrep_get [OF zq]
      zrep_IsRed [OF zrep_down(1) [OF zq]] zrep_IsRed [OF zrep_down(2) [OF zq]]
    by (auto simp: delete_turn_left_def)
qed

lemma delete_turn_left_near:
  assumes "zrep h0 T n s t (InL p pc (Nd (Nd sll x True slr) q False sr) # fs)" and "t \<noteq> Lf" and "\<not> red sr"
  shows "\<exists>s'. delete_turn_left s (topp t) q = Some (topp t, True, s') \<and>
           zrep h0 T n s' t (InL p False sll # InL x pc (Nd slr q False sr) # fs)"
proof -
  have zq: "zrep h0 T n s (Nd (Nd sll x True slr) q False sr) (InR t p pc # fs)"
    using assms(1) by (simp add: zrep_up)
  obtain h1 where h1: "SetBlack (rb_nodes s) x = Some h1"
      "zrep h0 T n (s\<lparr>rb_nodes := h1\<rparr>) (Nd sll x False slr) (InL q False sr # InR t p pc # fs)"
    using SetColor_rep(1) [OF zrep_down(1) [OF zq]] by auto
  then have z1: "zrep h0 T n (s\<lparr>rb_nodes := h1\<rparr>) (Nd (Nd sll x False slr) q False sr) (InR t p pc # fs)"
    by (simp add: zrep_up)
  obtain h2 where h2: "SetRed h1 q = Some h2"
      "zrep h0 T n (s\<lparr>rb_nodes := h2\<rparr>) (Nd (Nd sll x False slr) q True sr) (InR t p pc # fs)"
    using SetColor_rep(2) [OF z1] by auto
  then obtain s2 where s2: "RightRotate (s\<lparr>rb_nodes := h2\<rparr>) q = Some s2"
      "zrep h0 T n s2 (Nd sll x False (Nd slr q True sr)) (InR t p pc # fs)"
    using RightRotate_rep by blast
  then have z2: "zrep h0 T n s2 t (InL p pc (Nd sll x False (Nd slr q True sr)) # fs)"
    by (simp add: zrep_up)
  show ?thesis
    using assms h1 h2 s2 delete_left_last [OF z2 assms(2)] zrep_get [OF zq]
      zrep_IsRed [OF zrep_down(1) [OF zq]] zrep_IsRed [OF zrep_down(2) [OF zq]]
      zrep_GetParent [OF z2] zrep_frame(6) [OF z2]
    by (auto simp: delete_turn_left_def)
qed

section \<open>The repair loop\<close>

definition hole_ok :: "nat \<Rightarrow> path \<Rightarrow> bool" where
  "hole_ok k fs \<longleftrightarrow> pinvh k fs \<and> pinvc False fs \<and> root_black fs"

definition same_place :: "path \<Rightarrow> path \<Rightarrow> bool" where
  "same_place fs gs \<longleftrightarrow> befores fs = befores gs \<and> afters fs = afters gs"

lemma hole_ok_Cons:
  "hole_ok k (f # fs) \<longleftrightarrow>
     invh (f_sib f) \<and> bh (f_sib f) = k \<and> invc (f_sib f) \<and> (f_red f \<longrightarrow> \<not> red (f_sib f)) \<and>
     pinvh (if f_red f then k else Suc k) fs \<and> pinvc (f_red f) fs \<and>
     (if fs = [] then \<not> f_red f else root_black fs)"
  by (auto simp: hole_ok_def)

text \<open>
  What one turn does for a focus that is one black node short under the frame \<open>f\<close>: it ends with
  the hole filled, or the shortage moves up to the node of \<open>f\<close>.
\<close>

definition turn_result ::
    "rbnode store \<Rightarrow> ptr \<Rightarrow> u64 \<Rightarrow> nat \<Rightarrow> tree \<Rightarrow> frame \<Rightarrow> path \<Rightarrow> ptr \<times> bool \<times> rbt \<Rightarrow> bool" where
  "turn_result h0 T n k t f fs r \<longleftrightarrow> (case r of (y, brk, s') \<Rightarrow>
     if brk then y = topp t \<and>
       (\<exists>gs. zrep h0 T n s' t gs \<and> hole_ok k gs \<and> same_place gs (f # fs) \<and> gs \<noteq> [])
     else y = f_ptr f \<and>
       (\<exists>g gs. zrep h0 T n s' t (g # gs) \<and> f_ptr g = f_ptr f \<and> same_place (g # gs) (f # fs) \<and>
          invh (f_sib g) \<and> invc (f_sib g) \<and> bh (f_sib g) = k \<and>
          (if f_red g then hole_ok (Suc k) gs else gs = fs \<and> hole_ok (Suc (Suc k)) fs)))"

definition body_left :: "rbt \<Rightarrow> ptr \<Rightarrow> (ptr \<times> bool \<times> rbt) option" where
  "body_left s x = do { (sib, s) \<leftarrow> delete_sib_left s x; delete_turn_left s x sib }"

definition body_right :: "rbt \<Rightarrow> ptr \<Rightarrow> (ptr \<times> bool \<times> rbt) option" where
  "body_right s x = do { (sib, s) \<leftarrow> delete_sib_right s x; delete_turn_right s x sib }"

lemma pinvc_True: "pinvc True fs \<Longrightarrow> pinvc False fs"
  by (rule pinvc_False)

lemma bh_pos: "bh t = Suc k \<Longrightarrow> t \<noteq> Lf"
  by auto

text \<open>The turn with a black sibling, under a parent of any colour.\<close>

lemma turn_left_black:
  assumes z: "zrep h0 T n s t (InL p pc sib # fs)" and t: "t \<noteq> Lf" and "\<not> red sib"
    and ok: "hole_ok (Suc k) (InL p pc sib # fs)"
  shows "\<exists>r. delete_turn_left s (topp t) (topp sib) = Some r \<and> turn_result h0 T n k t (InL p pc sib) fs r"
proof -
  obtain sl q sr where sib: "sib = Nd sl q False sr"
    using ok assms(3) by (cases sib) (auto simp: hole_ok_Cons)
  note okq = ok [unfolded hole_ok_Cons sib, simplified]
  note z = z [unfolded sib]
  show ?thesis
  proof (cases "red sr")
    case True
    then obtain s' where s': "delete_turn_left s (topp t) q = Some (topp t, True, s')"
        "zrep h0 T n s' t (InL p False sl # InL q pc (black sr) # fs)"
      using delete_turn_left_far [OF z t] by blast
    have "hole_ok k (InL p False sl # InL q pc (black sr) # fs)"
      using okq True by (auto simp: hole_ok_Cons bh_black invc_black hole_ok_def)
    then show ?thesis
      using s' sib by (auto simp: turn_result_def same_place_def)
  next
    case far: False
    show ?thesis
    proof (cases "red sl")
      case True
      then obtain sll x slr where sl: "sl = Nd sll x True slr"
        by (cases sl) auto
      then obtain s' where s': "delete_turn_left s (topp t) q = Some (topp t, True, s')"
          "zrep h0 T n s' t (InL p False sll # InL x pc (Nd slr q False sr) # fs)"
        using delete_turn_left_near [of h0 T n s t p pc sll x slr q sr fs] z t far by auto
      have "hole_ok k (InL p False sll # InL x pc (Nd slr q False sr) # fs)"
        using okq far sl by (auto simp: hole_ok_Cons hole_ok_def)
      then show ?thesis
        using s' sib sl by (auto simp: turn_result_def same_place_def)
    next
      case False
      then obtain s' where s': "delete_turn_left s (topp t) q = Some (p, False, s')"
          "zrep h0 T n s' t (InL p pc (Nd sl q True sr) # fs)"
        using delete_turn_left_up [OF z t] far by blast
      have "turn_result h0 T n k t (InL p pc sib) fs (p, False, s')"
        unfolding turn_result_def using s'(2) okq far False sib
        by (auto intro!: exI [of _ "InL p pc (Nd sl q True sr)"] exI [of _ fs]
            simp: same_place_def hole_ok_def dest: pinvc_False split: if_splits)
      then show ?thesis
        using s'(1) sib by auto
    qed
  qed
qed

lemma turn_left:
  assumes z: "zrep h0 T n s t (InL p pc sib # fs)" and t: "t \<noteq> Lf"
    and ok: "hole_ok (Suc k) (InL p pc sib # fs)"
  shows "\<exists>r. body_left s (topp t) = Some r \<and> turn_result h0 T n k t (InL p pc sib) fs r"
proof (cases "red sib")
  case False
  then show ?thesis
    using turn_left_black [OF z t False ok] delete_sib_left_black [OF z t False] by (auto simp: body_left_def)
next
  case True
  then obtain sl q sr where sib: "sib = Nd sl q True sr"
    by (cases sib) auto
  obtain s1 where s1: "delete_sib_left s (topp t) = Some (topp sl, s1)"
      "zrep h0 T n s1 t (InL p True sl # InL q False sr # fs)"
    using delete_sib_left_red [of h0 T n s t p pc sl q sr fs] z t sib by auto
  note okq = ok [unfolded hole_ok_Cons sib, simplified]
  have ok1: "hole_ok (Suc k) (InL p True sl # InL q False sr # fs)" and slb: "\<not> red sl"
    using okq by (auto simp: hole_ok_Cons hole_ok_def)
  obtain r where r: "delete_turn_left s1 (topp t) (topp sl) = Some r"
      "turn_result h0 T n k t (InL p True sl) (InL q False sr # fs) r"
    using turn_left_black [OF s1(2) t slb ok1] by blast
  have place: "same_place gs (InL p pc sib # fs) = same_place gs (InL p True sl # InL q False sr # fs)" for gs
    by (simp add: same_place_def sib)
  have "bh sr = Suc k"
    using okq by simp
  then have "\<not> hole_ok (Suc (Suc k)) (InL q False sr # fs)"
    by (simp add: hole_ok_def)
  then have "turn_result h0 T n k t (InL p pc sib) fs r"
    using r(2) unfolding turn_result_def place by (fastforce split: if_splits)
  then show ?thesis
    using s1(1) r(1) by (auto simp: body_left_def)
qed

section \<open>The mirror image of a turn\<close>

lemma reads_commute: "Option.bind m (\<lambda>a. Option.bind m' (\<lambda>b. f a b)) = Option.bind m' (\<lambda>b. Option.bind m (\<lambda>a. f a b))"
  by (cases m; cases m') simp_all

lemma delete_sib_mir: "delete_sib_right (mir s) x = map_option (map_prod id mir) (delete_sib_left s x)"
  unfolding delete_sib_right_def delete_sib_left_def by (simp add: mirror cong: if_cong)

lemma delete_turn_mir:
  "delete_turn_right (mir s) x sib = map_option (map_prod id (map_prod id mir)) (delete_turn_left s x sib)"
proof (cases "GetLeft (rb_nodes s) sib")
  case left: (Some sl)
  show ?thesis
  proof (cases "IsRed (rb_nodes s) sl")
    case (Some slred)
    then show ?thesis
      using left unfolding delete_turn_right_def delete_turn_left_def
      by (cases slred) (simp_all add: mirror conj_commute cong: if_cong)
  next
    case None
    then show ?thesis
      using left unfolding delete_turn_right_def delete_turn_left_def by (simp add: mirror cong: if_cong)
  qed
next
  case None
  then show ?thesis
    unfolding delete_turn_right_def delete_turn_left_def by (simp add: mirror cong: if_cong)
qed

lemma body_right_mir: "body_right (mir s) x = map_option (map_prod id (map_prod id mir)) (body_left s x)"
  unfolding body_right_def body_left_def
  by (simp add: mirror delete_sib_mir delete_turn_mir split_beta)

lemma mir_invc [mirror]: "invc (mir_tree t) = invc t"
  by (induction t) (auto simp: mirror)

lemma mir_invh_1: "invh t \<Longrightarrow> invh (mir_tree t) \<and> bh (mir_tree t) = bh t"
  by (induction t) auto

lemma mir_invh [mirror]: "invh (mir_tree t) = invh t"
  using mir_invh_1 [of t] mir_invh_1 [of "mir_tree t"] by (auto simp: mirror)

lemma mir_bh: "invh t \<Longrightarrow> bh (mir_tree t) = bh t"
  using mir_invh_1 by blast

lemma hole_ok_mir_1: "pinvh k fs \<Longrightarrow> pinvh k (mir_path fs)"
  by (induction fs arbitrary: k) (auto simp: mirror mir_bh)

lemma hole_ok_mir [mirror]: "hole_ok k (mir_path fs) = hole_ok k fs"
proof -
  have "pinvh k (mir_path fs) = pinvh k fs"
    using hole_ok_mir_1 [of k fs] hole_ok_mir_1 [of k "mir_path fs"] by (auto simp: mirror)
  moreover have "pinvc c (mir_path fs) = pinvc c fs" for c
    by (induction fs arbitrary: c) (auto simp: mirror)
  moreover have "root_black (mir_path fs) = root_black fs"
    by (induction fs) (auto simp: mirror)
  ultimately show ?thesis
    by (simp add: hole_ok_def)
qed

lemma same_place_mir [mirror]: "same_place (mir_path fs) (mir_path gs) = same_place fs gs"
  by (auto simp: same_place_def mirror)

lemma turn_result_mir:
  assumes "turn_result (mir_heap h0) T n k (mir_tree t) (mir_frame f) (mir_path fs) r"
  shows "turn_result h0 T n k t f fs (map_prod id (map_prod id mir) r)"
proof -
  obtain y brk s' where r: "r = (y, brk, s')" by (cases r)
  show ?thesis
  proof (cases brk)
    case True
    then obtain gs where gs: "y = topp t" "zrep (mir_heap h0) T n s' (mir_tree t) gs" "hole_ok k gs"
        "same_place gs (mir_path (f # fs))" "gs \<noteq> []"
      using assms r by (auto simp: turn_result_def mirror)
    then show ?thesis
      using zrep_unmir [of h0 T n s' t "mir_path gs"] hole_ok_mir [of k gs]
        same_place_mir [of "mir_path gs" "f # fs"] r True
      by (auto simp: turn_result_def mirror intro!: exI [of _ "mir_path gs"])
  next
    case False
    then obtain g gs where gs: "y = f_ptr f" "zrep (mir_heap h0) T n s' (mir_tree t) (g # gs)" "f_ptr g = f_ptr f"
        "same_place (g # gs) (mir_path (f # fs))" "invh (f_sib g)" "invc (f_sib g)" "bh (f_sib g) = k"
        "if f_red g then hole_ok (Suc k) gs else gs = mir_path fs \<and> hole_ok (Suc (Suc k)) (mir_path fs)"
      using assms r by (auto simp: turn_result_def mirror)
    then show ?thesis
      using zrep_unmir [of h0 T n s' t "mir_path (g # gs)"] hole_ok_mir [of "Suc k" gs]
        same_place_mir [of "mir_path (g # gs)" "f # fs"] r False mir_bh [of "f_sib g"]
      by (auto simp: turn_result_def mirror intro!: exI [of _ "mir_frame g"] exI [of _ "mir_path gs"])
  qed
qed

lemma turn_right:
  assumes z: "zrep h0 T n s t (InR sib p pc # fs)" and t: "t \<noteq> Lf"
    and ok: "hole_ok (Suc k) (InR sib p pc # fs)"
  shows "\<exists>r. body_right s (topp t) = Some r \<and> turn_result h0 T n k t (InR sib p pc) fs r"
proof -
  have "zrep (mir_heap h0) T n (mir s) (mir_tree t) (InL p pc (mir_tree sib) # mir_path fs)"
    using zrep_mir_1 [OF z] by simp
  moreover have "hole_ok (Suc k) (InL p pc (mir_tree sib) # mir_path fs)"
    using hole_ok_mir [of "Suc k" "InR sib p pc # fs"] ok by simp
  ultimately obtain r where "body_left (mir s) (topp t) = Some r"
      "turn_result (mir_heap h0) T n k (mir_tree t) (mir_frame (InR sib p pc)) (mir_path fs) r"
    using turn_left [of "mir_heap h0" T n "mir s" "mir_tree t" p pc "mir_tree sib" "mir_path fs" k] t
    by (auto simp: mirror)
  then show ?thesis
    using turn_result_mir body_right_mir [of "mir s" "topp t"] by (auto simp: mir_mir)
qed

end
