(* ===== verification/RBTree_Delete.thy ===== *)
theory RBTree_Delete
  imports RBTree_Remove
begin

text \<open>
  The two halves of \<open>Remove\<close> that come before and after the unlinking: the repair loop of
  \<open>DeleteFixup\<close> ends with the hole filled, and the exchange with the successor keeps the tree up
  to the two addresses it exchanges.
\<close>

section \<open>The repair loop\<close>

definition del_result :: "rbnode store \<Rightarrow> ptr \<Rightarrow> u64 \<Rightarrow> nat \<Rightarrow> tree \<Rightarrow> path \<Rightarrow> rbt option \<Rightarrow> bool" where
  "del_result h0 T n k t fs r \<longleftrightarrow>
     (\<exists>s' gs. r = Some s' \<and> zrep h0 T n s' (black t) gs \<and> hole_ok (if red t then Suc k else k) gs \<and>
        same_place gs fs \<and> (fs \<noteq> [] \<longrightarrow> gs \<noteq> []))"

lemma DeleteFixup_stop:
  assumes z: "zrep h0 T n s t fs" and "t \<noteq> Lf" and "fs = [] \<or> red t" and "hole_ok (Suc k) fs"
  shows "del_result h0 T n k t fs (DeleteFixup s (topp t))"
proof -
  have "delete_loop s (topp t) = Some (topp t, s)"
    using assms zrep_root [OF z] zrep_IsRed [OF z] by (subst delete_loop.simps) auto
  moreover obtain h where "SetBlack (rb_nodes s) (topp t) = Some h" "zrep h0 T n (s\<lparr>rb_nodes := h\<rparr>) (black t) fs"
    using SetColor_rep(1) [OF z] by blast
  ultimately show ?thesis
    using assms(3,4) by (auto simp: DeleteFixup_def del_result_def same_place_def hole_ok_def)
qed

lemma delete_loop_turn:
  assumes z: "zrep h0 T n s t (f # fs)" and "t \<noteq> Lf" and "\<not> red t" and "hole_ok (Suc k) (f # fs)"
  shows "\<exists>y brk s'. delete_loop s (topp t) = (if brk then Some (y, s') else delete_loop s' y) \<and>
           turn_result h0 T n k t f fs (y, brk, s')"
proof (cases f)
  case (InL p pc sib)
  then obtain r where "body_left s (topp t) = Some r" "turn_result h0 T n k t f fs r"
    using turn_left [of h0 T n s t p pc sib fs k] assms by auto
  moreover have "delete_loop s (topp t) = do { (y, brk, s') \<leftarrow> body_left s (topp t);
      if brk then Some (y, s') else delete_loop s' y }"
    using assms InL zrep_root [OF z] zrep_IsRed [OF z] zrep_GetParent [OF z] zrep_frame(5) [OF z]
    by (subst delete_loop.simps) (auto simp: body_left_def)
  ultimately show ?thesis
    by (intro exI [of _ "fst r"] exI [of _ "fst (snd r)"] exI [of _ "snd (snd r)"]) (simp add: split_beta)
next
  case (InR sib p pc)
  then obtain r where "body_right s (topp t) = Some r" "turn_result h0 T n k t f fs r"
    using turn_right [of h0 T n s t sib p pc fs k] assms by auto
  moreover have "delete_loop s (topp t) = do { (y, brk, s') \<leftarrow> body_right s (topp t);
      if brk then Some (y, s') else delete_loop s' y }"
    using assms InR zrep_root [OF z] zrep_IsRed [OF z] zrep_GetParent [OF z] zrep_frame(5) [OF z]
      zrep_neq_frame(2) [OF z]
    by (subst delete_loop.simps) (auto simp: body_right_def)
  ultimately show ?thesis
    by (intro exI [of _ "fst r"] exI [of _ "fst (snd r)"] exI [of _ "snd (snd r)"]) (simp add: split_beta)
qed

lemma same_place_Cons: "same_place gs hs \<Longrightarrow> same_place (f # hs) fs \<Longrightarrow> same_place (f # gs) fs"
  by (cases f) (auto simp: same_place_def)

lemma DeleteFixup_rep:
  assumes "zrep h0 T n s t fs" and "t \<noteq> Lf" and "hole_ok (Suc k) fs"
  shows "del_result h0 T n k t fs (DeleteFixup s (topp t))"
  using assms
proof (induction "length fs" arbitrary: s t fs k)
  case 0
  then show ?case
    by (simp add: DeleteFixup_stop)
next
  case (Suc m)
  note z = Suc.prems(1) and t = Suc.prems(2) and ok = Suc.prems(3)
  obtain f fs' where fs: "fs = f # fs'" "length fs' = m"
    using Suc.hyps(2) by (cases fs) auto
  show ?case
  proof (cases "red t")
    case True
    then show ?thesis
      using DeleteFixup_stop [OF z t _ ok] by simp
  next
    case black: False
    obtain y brk s1 where turn: "delete_loop s (topp t) = (if brk then Some (y, s1) else delete_loop s1 y)"
        "turn_result h0 T n k t f fs' (y, brk, s1)"
      using delete_loop_turn z t black ok fs by blast
    show ?thesis
    proof (cases brk)
      case True
      then obtain gs where gs: "y = topp t" "zrep h0 T n s1 t gs" "hole_ok k gs" "same_place gs (f # fs')" "gs \<noteq> []"
        using turn(2) by (auto simp: turn_result_def)
      moreover obtain h where "SetBlack (rb_nodes s1) (topp t) = Some h"
          "zrep h0 T n (s1\<lparr>rb_nodes := h\<rparr>) (black t) gs"
        using SetColor_rep(1) [OF gs(2)] by blast
      ultimately show ?thesis
        using turn(1) True black fs by (auto simp: DeleteFixup_def del_result_def)
    next
      case False
      then obtain g gs where gs: "y = f_ptr f" "zrep h0 T n s1 t (g # gs)" "f_ptr g = f_ptr f"
          "same_place (g # gs) fs" "invh (f_sib g)" "invc (f_sib g)" "bh (f_sib g) = k"
          "if f_red g then hole_ok (Suc k) gs else gs = fs' \<and> hole_ok (Suc (Suc k)) fs'"
        using turn(2) fs by (auto simp: turn_result_def)
      have zg: "zrep h0 T n s1 (plugf t g) gs" and tg: "plugf t g \<noteq> Lf"
        using gs(2) by (auto simp: zrep_up) (cases g; simp)
      have step: "DeleteFixup s (topp t) = DeleteFixup s1 (topp (plugf t g))"
        using turn(1) False gs(1,3) by (simp add: DeleteFixup_def)
      have "del_result h0 T n (if f_red g then k else Suc k) (plugf t g) gs (DeleteFixup s1 (topp (plugf t g)))"
        using DeleteFixup_stop [OF zg tg] Suc.hyps(1) [OF _ zg tg] gs(8) fs(2) by (auto split: if_splits)
      then obtain s' hs where hs: "DeleteFixup s1 (topp (plugf t g)) = Some s'"
          "zrep h0 T n s' (black (plugf t g)) hs" "hole_ok (Suc k) hs" "same_place hs gs"
        by (auto simp: del_result_def split: if_splits)
      have "black (plugf t g) = plugf t (f_black g)"
        by (cases g) simp_all
      then have "zrep h0 T n s' (black t) (f_black g # hs)"
        using hs(2) black by (simp add: zrep_up black_id)
      moreover have "hole_ok k (f_black g # hs)"
        using hs(3) gs(5,6,7) by (cases g) (auto simp: hole_ok_Cons hole_ok_def)
      moreover have "same_place (f_black g # gs) fs"
        using gs(4) by (cases g) (simp_all add: same_place_def)
      then have "same_place (f_black g # hs) fs"
        using same_place_Cons hs(4) by blast
      ultimately show ?thesis
        using step hs(1) black by (auto simp: del_result_def)
    qed
  qed
qed


section \<open>The exchange with the successor\<close>

text \<open>A stretch of a path, with the address above it.\<close>

fun seg_at :: "rbnode store \<Rightarrow> ptr \<Rightarrow> ptr \<Rightarrow> ptr \<Rightarrow> path \<Rightarrow> bool" where
  "seg_at h T x y [] = True"
| "seg_at h T x y (InL a c r # fs) =
     (a \<noteq> NULL \<and>
      h a = Some \<lparr>rb_red = c, rb_tree = T, rb_left = x, rb_right = topp r,
                  rb_parent = (if fs = [] then y else parent_of fs)\<rparr> \<and>
      tree_at h T a r \<and> seg_at h T a y fs)"
| "seg_at h T x y (InR l a c # fs) =
     (a \<noteq> NULL \<and>
      h a = Some \<lparr>rb_red = c, rb_tree = T, rb_left = topp l, rb_right = x,
                  rb_parent = (if fs = [] then y else parent_of fs)\<rparr> \<and>
      tree_at h T a l \<and> seg_at h T a y fs)"

lemma parent_of_append: "parent_of (fs @ gs) = (if fs = [] then parent_of gs else parent_of fs)"
  by (cases fs) simp_all

lemma root_of_append: "root_of x (fs @ gs) = root_of (root_of x fs) gs"
  by (induction fs arbitrary: x) simp_all

lemma path_at_append:
  "path_at h T x (fs @ gs) \<longleftrightarrow> seg_at h T x (parent_of gs) fs \<and> path_at h T (root_of x fs) gs"
proof (induction fs arbitrary: x)
  case (Cons f fs)
  then show ?case by (cases f) (auto simp: parent_of_append)
qed simp

lemma seg_at_upd [simp]: "x \<notin> paddrs fs \<Longrightarrow> seg_at (h(x \<mapsto> v)) T y z fs = seg_at h T y z fs"
proof (induction fs arbitrary: y)
  case (Cons f fs)
  then have "x \<noteq> f_ptr f" and "x \<notin> set (inorder (f_sib f))" and "x \<notin> paddrs fs"
    by (cases f; simp)+
  with Cons.IH show ?case by (cases f) (simp_all del: fun_upd_apply add: fun_upd_other)
qed simp

lemma path_cases:
  obtains "fs = []" | a c r gs where "fs = InL a c r # gs" | l a c gs where "fs = InR l a c # gs"
  by (metis frame.exhaust list.exhaust)

lemmas swap_simps = remove_swap_def heap_simps zrep_def paddrs_def path_at_append parent_of_append
  root_of_append befores_append afters_append

text \<open>The successor is the right child of the node, or a grandchild, or further down.\<close>

lemma swap_direct:
  assumes "zrep h0 T n s (Nd Lf sc rc sr) (InR l d c # fs)" and "l \<noteq> Lf" and "down_left (rb_nodes s) sc = Some sc"
  shows "\<exists>s'. remove_swap s d = Some s' \<and> zrep h0 T n s' (Nd Lf d rc sr) (InR l sc c # fs)"
proof -
  obtain ll x xc lr where l: "l = Nd ll x xc lr" using assms(2) by (cases l) auto
  show ?thesis
    using assms l
    by (cases fs rule: path_cases; cases sr) (clarsimp simp del: fun_upd_apply simp add: swap_simps)+
qed

lemma swap_near:
  assumes "zrep h0 T n s (Nd Lf sc rc sr) (InL q qc v # InR l d c # fs)" and "l \<noteq> Lf"
    and "down_left (rb_nodes s) q = Some sc"
  shows "\<exists>s'. remove_swap s d = Some s' \<and> zrep h0 T n s' (Nd Lf d rc sr) (InL q qc v # InR l sc c # fs)"
proof -
  obtain ll x xc lr where l: "l = Nd ll x xc lr" using assms(2) by (cases l) auto
  show ?thesis
    using assms l
    by (cases fs rule: path_cases; cases sr) (clarsimp simp del: fun_upd_apply simp add: swap_simps)+
qed

lemma swap_far:
  assumes "zrep h0 T n s (Nd Lf sc rc sr) (InL p pc u # mid @ InL q qc v # InR l d c # fs)" and "l \<noteq> Lf"
    and "down_left (rb_nodes s) q = Some sc"
  shows "\<exists>s'. remove_swap s d = Some s' \<and>
           zrep h0 T n s' (Nd Lf d rc sr) (InL p pc u # mid @ InL q qc v # InR l sc c # fs)"
proof -
  obtain ll x xc lr where l: "l = Nd ll x xc lr" using assms(2) by (cases l) auto
  show ?thesis
    using assms l
    by (cases fs rule: path_cases; cases sr) (clarsimp simp del: fun_upd_apply simp add: swap_simps)+
qed

lemma leftmost:
  assumes "zrep h0 T n s t fs" and "t \<noteq> Lf"
  shows "\<exists>lp sc rc sr. t = plug (Nd Lf sc rc sr) lp \<and> (\<forall>f \<in> set lp. \<exists>a c u. f = InL a c u) \<and>
           down_left (rb_nodes s) (topp t) = Some sc"
  using assms
proof (induction t arbitrary: fs)
  case (Nd l a c r)
  note z = Nd.prems(1)
  show ?case
  proof (cases "l = Lf")
    case True
    then have "down_left (rb_nodes s) a = Some a"
      using zrep_load [OF z] by (subst down_left.simps) simp
    with True show ?thesis
      by (intro exI [of _ "[]"]) auto
  next
    case False
    then obtain lp sc rc sr where lp: "l = plug (Nd Lf sc rc sr) lp" "\<forall>f \<in> set lp. \<exists>a c u. f = InL a c u"
        "down_left (rb_nodes s) (topp l) = Some sc"
      using Nd.IH(1) [OF zrep_down(1) [OF z]] by blast
    then have "down_left (rb_nodes s) a = Some sc"
      using zrep_load [OF z] False zrep_topp_nonnull [OF zrep_down(1) [OF z]]
      by (subst down_left.simps) simp
    with lp show ?thesis
      by (intro exI [of _ "lp @ [InL a c r]"] exI [of _ sc] exI [of _ rc] exI [of _ sr]) (auto simp: plug_append)
  qed
qed simp

lemma befores_InL: "\<forall>f \<in> set fs. \<exists>a c u. f = InL a c u \<Longrightarrow> befores fs = []"
  by (induction fs) auto

lemma remove_swap_rep:
  assumes z: "zrep h0 T n s (Nd l d c r) fs" and "l \<noteq> Lf" and "r \<noteq> Lf"
  shows "\<exists>s' lp sc rc sr. remove_swap s d = Some s' \<and> r = plug (Nd Lf sc rc sr) lp \<and> befores lp = [] \<and>
           zrep h0 T n s' (Nd Lf d rc sr) (lp @ InR l sc c # fs)"
proof -
  obtain lp sc rc sr where lp: "r = plug (Nd Lf sc rc sr) lp" "\<forall>f \<in> set lp. \<exists>a c u. f = InL a c u"
      "down_left (rb_nodes s) (topp r) = Some sc"
    using leftmost [OF zrep_down(2) [OF z] assms(3)] by blast
  have zf: "zrep h0 T n s (Nd Lf sc rc sr) (lp @ InR l d c # fs)"
    using zrep_down(2) [OF z] lp(1) zrep_same by (metis plug_append)
  have "\<exists>s'. remove_swap s d = Some s' \<and> zrep h0 T n s' (Nd Lf d rc sr) (lp @ InR l sc c # fs)"
  proof (cases lp rule: rev_cases)
    case Nil
    then show ?thesis
      using swap_direct [of h0 T n s sc rc sr l d c fs] zf lp assms(2) by simp
  next
    case (snoc mid f)
    then obtain q qc v where f: "f = InL q qc v" and top: "topp r = q"
      using lp(1,2) by (auto simp: plug_append)
    show ?thesis
    proof (cases mid)
      case Nil
      then show ?thesis
        using swap_near [of h0 T n s sc rc sr q qc v l d c fs] zf lp(3) top assms(2) snoc f by simp
    next
      case (Cons g mid')
      then obtain p pc u where "g = InL p pc u"
        using snoc lp(2) by auto
      then show ?thesis
        using swap_far [of h0 T n s sc rc sr p pc u mid' q qc v l d c fs] zf lp(3) top assms(2) snoc f Cons by simp
    qed
  qed
  then show ?thesis
    using lp(1,2) befores_InL by blast
qed

end
