(* ===== verification/RBTree_Unlink.thy ===== *)
theory RBTree_Unlink
  imports RBTree_Delete
begin

text \<open>
  Correctness of \<open>Remove\<close> and \<open>RemoveAll\<close>: the node is unlinked, the tree that stays is a
  red-black tree of the other nodes in their order, and the node may be inserted again.
\<close>

section \<open>Unlinking\<close>

definition unlinked :: "rbnode store \<Rightarrow> ptr \<Rightarrow> u64 \<Rightarrow> rbt \<Rightarrow> ptr \<Rightarrow> tree \<Rightarrow> path \<Rightarrow> bool" where
  "unlinked h0 T n s d t fs \<longleftrightarrow> (\<exists>m. rb_nodes s d = Some m \<and> zrep (h0(d \<mapsto> m)) T n s t fs \<and>
     d \<notin> set (inorder t) \<union> paddrs fs)"

text \<open>An only child takes the place of the node.\<close>

definition take_place :: "rbt \<Rightarrow> ptr \<Rightarrow> ptr \<Rightarrow> rbt option" where
  "take_place s d n = do {
     dn \<leftarrow> load (rb_nodes s) d;
     h \<leftarrow> store (rb_nodes s) n (\<lambda>m. m\<lparr>rb_parent := rb_parent dn\<rparr>);
     (rt, h) \<leftarrow>
       (if rb_parent dn = NULL then Some (n, h)
        else do {
          pn \<leftarrow> load h (rb_parent dn);
          h \<leftarrow> (if d = rb_left pn
                then store h (rb_parent dn) (\<lambda>m. m\<lparr>rb_left := n\<rparr>)
                else store h (rb_parent dn) (\<lambda>m. m\<lparr>rb_right := n\<rparr>));
          Some (rb_root s, h)
        });
     h \<leftarrow> store h d (\<lambda>m. m\<lparr>rb_left := 1, rb_right := 1, rb_parent := 1\<rparr>);
     Some (s\<lparr>rb_nodes := h, rb_root := rt\<rparr>)
   }"

lemma take_place_rep:
  assumes "zrep h0 T n s (Nd l d c r) fs" and "l = Lf \<and> r = Nd xl x xc xr \<or> r = Lf \<and> l = Nd xl x xc xr"
  shows "\<exists>s'. take_place s d x = Some s' \<and> unlinked h0 T n s' d (Nd xl x xc xr) fs \<and>
           rb_nodes s' d = Some \<lparr>rb_red = c, rb_tree = T, rb_left = 1, rb_right = 1, rb_parent = 1\<rparr>"
  using assms(2)
proof
  assume "l = Lf \<and> r = Nd xl x xc xr"
  then show ?thesis
    using assms(1) by (cases fs rule: path_cases)
      (clarsimp simp del: fun_upd_apply simp add: take_place_def unlinked_def heap_simps zrep_def paddrs_def;
       simp add: fun_upd_def)+
next
  assume "r = Lf \<and> l = Nd xl x xc xr"
  then show ?thesis
    using assms(1) by (cases fs rule: path_cases)
      (clarsimp simp del: fun_upd_apply simp add: take_place_def unlinked_def heap_simps zrep_def paddrs_def;
       simp add: fun_upd_def)+
qed


lemma remove_unlink_child:
  assumes "load (rb_nodes s) d = Some dn" and "n = (if rb_left dn = NULL then rb_right dn else rb_left dn)"
    and "n \<noteq> NULL" and "take_place s d n = Some s'" and "load (rb_nodes s') d = Some m"
  shows "remove_unlink s d = (if \<not> rb_red m then DeleteFixup s' n else Some s')"
  using assms
  by (auto simp: remove_unlink_def take_place_def split: if_splits bind_splits option.splits)

text \<open>A leaf is cut off from its parent.\<close>

definition cut_off :: "rbt \<Rightarrow> ptr \<Rightarrow> rbt option" where
  "cut_off s d = do {
     dn \<leftarrow> load (rb_nodes s) d;
     h \<leftarrow>
       (if rb_parent dn \<noteq> NULL then do {
          pn \<leftarrow> load (rb_nodes s) (rb_parent dn);
          (if rb_left pn = d
           then store (rb_nodes s) (rb_parent dn) (\<lambda>m. m\<lparr>rb_left := NULL\<rparr>)
           else if rb_right pn = d
           then store (rb_nodes s) (rb_parent dn) (\<lambda>m. m\<lparr>rb_right := NULL\<rparr>)
           else Some (rb_nodes s))
        }
        else Some (rb_nodes s));
     Some (s\<lparr>rb_nodes := h\<rparr>)
   }"

lemma cut_off_rep:
  assumes "zrep h0 T n s (Nd Lf d c Lf) (f # fs)"
  shows "\<exists>s'. cut_off s d = Some s' \<and> unlinked h0 T n s' d Lf (f # fs)"
  using assms
  by (cases f) (clarsimp simp del: fun_upd_apply simp add: cut_off_def unlinked_def heap_simps zrep_def paddrs_def;
       auto simp add: fun_upd_def)+

lemma remove_unlink_leaf:
  assumes "zrep h0 T n s (Nd Lf d c Lf) (f # fs)"
  shows "remove_unlink s d = do { s \<leftarrow> (if \<not> c then DeleteFixup s d else Some s); cut_off s d }"
  using zrep_load [OF assms] zrep_frame(1) [OF assms]
  by (simp add: remove_unlink_def cut_off_def)


lemma same_place_paddrs: "same_place gs fs \<Longrightarrow> paddrs gs = paddrs fs"
  by (simp add: same_place_def paddrs_def)

lemma unlinkedI:
  assumes "zrep (h0(d \<mapsto> m)) T n s t fs" and "d \<notin> set (inorder t) \<union> paddrs fs"
  shows "unlinked h0 T n s d t fs"
  using assms by (auto simp: unlinked_def zrep_def intro!: exI [of _ m])

lemma remove_unlink_only_child:
  assumes z: "zrep h0 T n s (Nd l d c r) fs" and inv: "rbinv (plug (Nd l d c r) fs)"
    and child: "l = Lf \<and> r = Nd xl x xc xr \<or> r = Lf \<and> l = Nd xl x xc xr"
  shows "\<exists>s' u gs. remove_unlink s d = Some s' \<and> unlinked h0 T n s' d u gs \<and> rbinv (plug u gs) \<and>
           inorder u = inorder l @ inorder r \<and> same_place gs fs"
proof -
  let ?x = "Nd xl x xc xr"
  have inv': "invh ?x" "invc ?x" "xc" "\<not> c" "hole_ok (Suc 0) fs" "bh xl = 0"
    using inv child by (auto simp: rbinv_plug hole_ok_def split: if_splits)
  have x: "x \<noteq> NULL"
    using child zrep_topp_nonnull [OF zrep_down(1) [OF z]] zrep_topp_nonnull [OF zrep_down(2) [OF z]] by auto
  obtain s1 where s1: "take_place s d x = Some s1" "unlinked h0 T n s1 d ?x fs"
      "rb_nodes s1 d = Some \<lparr>rb_red = c, rb_tree = T, rb_left = 1, rb_right = 1, rb_parent = 1\<rparr>"
    using take_place_rep [OF z child] by blast
  have eq: "remove_unlink s d = DeleteFixup s1 x"
    using remove_unlink_child [OF zrep_load [OF z] _ x s1(1)] s1(3) child zrep_node(1) [OF z] inv'(4)
    by (auto simp: load_def)
  obtain m where m: "zrep (h0(d \<mapsto> m)) T n s1 ?x fs" "d \<notin> set (inorder ?x) \<union> paddrs fs"
    using s1(2) by (auto simp: unlinked_def)
  obtain s' gs where gs: "DeleteFixup s1 x = Some s'" "zrep (h0(d \<mapsto> m)) T n s' (black ?x) gs"
      "hole_ok (Suc 0) gs" "same_place gs fs"
    using DeleteFixup_rep [OF m(1) _ inv'(5)] inv'(3) by (auto simp: del_result_def)
  have "rbinv (plug (black ?x) gs)"
    using gs(3) inv'(1,2,3,6) by (auto simp: rbinv_plug hole_ok_def)
  moreover have "unlinked h0 T n s' d (black ?x) gs"
    using unlinkedI [OF gs(2)] m(2) same_place_paddrs [OF gs(4)] by simp
  moreover have "inorder (black ?x) = inorder l @ inorder r"
    using child by auto
  ultimately show ?thesis
    using eq gs(1,4) by (intro exI [of _ s'] exI [of _ "black ?x"] exI [of _ gs]) simp
qed

lemma remove_unlink_leaf_rep:
  assumes z: "zrep h0 T n s (Nd Lf d c Lf) (f # fs)" and inv: "rbinv (plug (Nd Lf d c Lf) (f # fs))"
  shows "\<exists>s' gs. remove_unlink s d = Some s' \<and> unlinked h0 T n s' d Lf gs \<and> rbinv (plug Lf gs) \<and>
           same_place gs (f # fs)"
proof (cases c)
  case True
  then have "rbinv (plug Lf (f # fs))"
    using inv by (auto simp: rbinv_plug simp del: pinvh.simps pinvc.simps plug.simps dest: pinvc_False)
  then show ?thesis
    using cut_off_rep [OF z] remove_unlink_leaf [OF z] True
    by (auto simp: same_place_def intro!: exI [of _ "f # fs"])
next
  case False
  have "hole_ok (Suc 0) (f # fs)"
    using inv False by (auto simp: rbinv_plug hole_ok_def simp del: pinvh.simps pinvc.simps plug.simps)
  then obtain s1 gs where gs: "DeleteFixup s d = Some s1" "zrep h0 T n s1 (Nd Lf d False Lf) gs"
      "hole_ok 0 gs" "same_place gs (f # fs)" "gs \<noteq> []"
    using DeleteFixup_rep [OF z, of 0] False by (auto simp: del_result_def)
  then obtain s' where "cut_off s1 d = Some s'" "unlinked h0 T n s' d Lf gs"
    using cut_off_rep [of h0 T n s1 d False "hd gs" "tl gs"] by auto
  moreover have "rbinv (plug Lf gs)"
    using gs(3) by (simp add: rbinv_plug hole_ok_def)
  ultimately show ?thesis
    using remove_unlink_leaf [OF z] False gs(1,4) by auto
qed

lemma remove_unlink_rep:
  assumes z: "zrep h0 T n s (Nd l d c r) fs" and inv: "rbinv (plug (Nd l d c r) fs)" and "l = Lf \<or> r = Lf"
  shows "\<exists>s' u. remove_unlink s d = Some s' \<and> unlinked h0 T n s' d u [] \<and> rbinv u \<and>
           inorder u = befores fs @ inorder l @ inorder r @ afters fs"
proof -
  have plug: "unlinked h0 T n s' d u gs \<Longrightarrow> unlinked h0 T n s' d (plug u gs) []" for s' u gs
    by (auto simp: unlinked_def inorder_plug paddrs_def simp flip: zrep_plug)
  consider (leaf) "l = Lf" "r = Lf" | (left) xl x xc xr where "r = Lf" "l = Nd xl x xc xr"
    | (right) xl x xc xr where "l = Lf" "r = Nd xl x xc xr"
    using assms(3) by (cases l; cases r) auto
  then show ?thesis
  proof cases
    case leaf
    show ?thesis
    proof (cases fs)
      case Nil
      then have "remove_unlink s d = Some (s\<lparr>rb_root := NULL\<rparr>)"
        using zrep_load [OF z] leaf by (simp add: remove_unlink_def)
      moreover have "unlinked h0 T n (s\<lparr>rb_root := NULL\<rparr>) d Lf []"
        using z leaf Nil by (auto simp: unlinked_def zrep_def)
      ultimately show ?thesis
        using leaf Nil by (auto simp: rbinv_def)
    next
      case (Cons f gs)
      then show ?thesis
        using remove_unlink_leaf_rep [of h0 T n s d c f gs] z inv leaf plug
        by (fastforce simp: inorder_plug same_place_def)
    qed
  next
    case left
    then show ?thesis
      using remove_unlink_only_child [OF z inv, of xl x xc xr] plug by (fastforce simp: inorder_plug same_place_def)
  next
    case right
    then show ?thesis
      using remove_unlink_only_child [OF z inv, of xl x xc xr] plug by (fastforce simp: inorder_plug same_place_def)
  qed
qed


section \<open>Remove and RemoveAll\<close>

lemma split_at: "d \<in> set (inorder t) \<Longrightarrow> \<exists>l c r fs. t = plug (Nd l d c r) fs"
proof (induction t)
  case (Nd l a c r)
  show ?case
  proof (cases "d = a")
    case True
    then show ?thesis
      by (intro exI [of _ l] exI [of _ c] exI [of _ r] exI [of _ "[]"]) simp
  next
    case False
    then consider "d \<in> set (inorder l)" | "d \<in> set (inorder r)"
      using Nd.prems by auto
    then show ?thesis
    proof cases
      case 1
      then obtain l' c' r' fs where "l = plug (Nd l' d c' r') fs"
        using Nd.IH(1) by blast
      then show ?thesis
        by (intro exI [of _ l'] exI [of _ c'] exI [of _ r'] exI [of _ "fs @ [InL a c r]"]) (simp add: plug_append)
    next
      case 2
      then obtain l' c' r' fs where "r = plug (Nd l' d c' r') fs"
        using Nd.IH(2) by blast
      then show ?thesis
        by (intro exI [of _ l'] exI [of _ c'] exI [of _ r'] exI [of _ "fs @ [InR l a c]"]) (simp add: plug_append)
    qed
  qed
qed simp

lemma rbinv_readdress: "rbinv (plug (Nd Lf d rc sr) (lp @ InR l sc c # fs)) = rbinv (plug (Nd Lf sc rc sr) (lp @ InR l d c # fs))"
proof -
  have "pinvh k (lp @ InR l sc c # fs) = pinvh k (lp @ InR l d c # fs)" for k
    by (simp add: pinvh_append)
  moreover have "pinvc k (lp @ InR l sc c # fs) = pinvc k (lp @ InR l d c # fs)" for k
    by (induction lp arbitrary: k) auto
  moreover have "root_black (lp @ InR l sc c # fs) = root_black (lp @ InR l d c # fs)"
    by (induction lp) auto
  ultimately show ?thesis
    by (simp add: rbinv_plug)
qed

lemma remove_core:
  assumes z: "zrep h0 T n s (Nd l d c r) fs" and inv: "rbinv (plug (Nd l d c r) fs)"
  shows "\<exists>s' u. do { s \<leftarrow> (if topp l \<noteq> NULL \<and> topp r \<noteq> NULL then remove_swap s d else Some s); remove_unlink s d } = Some s' \<and>
           unlinked h0 T n s' d u [] \<and> rbinv u \<and> inorder u = befores fs @ inorder l @ inorder r @ afters fs"
proof (cases "l = Lf \<or> r = Lf")
  case True
  then show ?thesis
    using remove_unlink_rep [OF z inv] by auto
next
  case False
  then obtain s1 lp sc rc sr where s1: "remove_swap s d = Some s1" "r = plug (Nd Lf sc rc sr) lp" "befores lp = []"
      "zrep h0 T n s1 (Nd Lf d rc sr) (lp @ InR l sc c # fs)"
    using remove_swap_rep [OF z] by blast
  have "rbinv (plug (Nd Lf d rc sr) (lp @ InR l sc c # fs))"
    using inv s1(2) rbinv_readdress [of d rc sr lp l sc c fs] by (simp add: plug_append)
  from remove_unlink_rep [OF s1(4) this] show ?thesis
    using s1 False zrep_topp_nonnull [OF zrep_down(1) [OF z]] zrep_topp_nonnull [OF zrep_down(2) [OF z]]
    by (auto simp: befores_append afters_append inorder_plug)
qed

definition node_free :: "rbnode \<Rightarrow> bool" where
  "node_free m \<longleftrightarrow> rb_tree m = NULL \<and> rb_left m = NULL \<and> rb_right m = NULL \<and> rb_parent m = NULL"

lemma rb_Remove_rep:
  assumes rep: "rb_rep T s t" and d: "d \<in> set (inorder t)"
  shows "\<exists>s' t' m. rb_Remove s d = Some s' \<and> rb_rep T s' t' \<and> inorder t' = remove1 d (inorder t) \<and>
           rb_nodes s' d = Some m \<and> node_free m \<and>
           (\<forall>y. y \<notin> set (inorder t) \<longrightarrow> rb_nodes s' y = rb_nodes s y)"
proof -
  let ?n = "of_nat (length (inorder t)) :: u64"
  obtain l c r fs where t: "t = plug (Nd l d c r) fs"
    using split_at d by blast
  have z: "zrep (rb_nodes s) T ?n s (Nd l d c r) fs" and inv: "rbinv (plug (Nd l d c r) fs)" and T: "T \<noteq> NULL"
    using rep t by (simp_all add: rb_rep_def zrep_plug [of _ _ _ _ "Nd l d c r" fs])
  obtain s1 u where s1: "do { s \<leftarrow> (if topp l \<noteq> NULL \<and> topp r \<noteq> NULL then remove_swap s d else Some s); remove_unlink s d } = Some s1"
      "unlinked (rb_nodes s) T ?n s1 d u []" "rbinv u" "inorder u = befores fs @ inorder l @ inorder r @ afters fs"
    using remove_core [OF z inv] by blast
  obtain m where m: "rb_nodes s1 d = Some m" "zrep ((rb_nodes s)(d \<mapsto> m)) T ?n s1 u []" "d \<notin> set (inorder u)"
    using s1(2) by (auto simp: unlinked_def)
  let ?m = "m\<lparr>rb_tree := NULL, rb_left := NULL, rb_right := NULL, rb_parent := NULL\<rparr>"
  let ?s = "s1\<lparr>rb_nodes := (rb_nodes s1)(d \<mapsto> ?m), rb_count := rb_count s1 - 1\<rparr>"
  have nd: "d \<noteq> NULL"
    using zrep_node(1) [OF z] .
  have "rb_Remove s d = Some ?s"
    unfolding rb_Remove_def zrep_load [OF z] bind.bind_lunit rbnode.simps
    using s1(1) m(1) nd by (simp add: load_def store_def flip: Option.bind_assoc)
  moreover have len: "length (inorder t) = Suc (length (inorder u))" and in_t: "set (inorder t) = insert d (set (inorder u))"
    using t s1(4) by (auto simp: inorder_plug)
  have "zrep ((rb_nodes s)(d \<mapsto> ?m)) T (of_nat (length (inorder u))) ?s u []"
    using m(2,3) len by (auto simp: zrep_def)
  then have "rb_rep T ?s u"
    using rb_rep_of_zrep s1(3) T by blast
  moreover have "inorder u = remove1 d (inorder t)"
    using s1(4) t m(3) by (auto simp: inorder_plug remove1_append)
  moreover have "\<forall>y. y \<notin> set (inorder t) \<longrightarrow> rb_nodes ?s y = rb_nodes s y"
    using m(2) in_t by (auto simp: zrep_def)
  ultimately show ?thesis
    by (intro exI [of _ ?s] exI [of _ u] exI [of _ ?m]) (simp add: node_free_def)
qed

lemma rb_RemoveAll_rep:
  assumes "rb_rep T s t"
  shows "\<exists>s'. rb_RemoveAll s = Some s' \<and> rb_rep T s' Lf \<and>
           (\<forall>x \<in> set (inorder t). \<exists>m. rb_nodes s' x = Some m \<and> node_free m) \<and>
           (\<forall>y. y \<notin> set (inorder t) \<longrightarrow> rb_nodes s' y = rb_nodes s y)"
  using assms
proof (induction "length (inorder t)" arbitrary: s t)
  case 0
  then have "t = Lf"
    by (cases t) auto
  then show ?case
    using 0 rb_rep_root [OF 0(2)] by (subst rb_RemoveAll.simps) auto
next
  case (Suc k)
  then have "t \<noteq> Lf"
    by auto
  then have root: "rb_root s = topp t" "topp t \<noteq> NULL" "topp t \<in> set (inorder t)"
    using rb_rep_root [OF Suc.prems] topp_in by auto
  obtain s1 t1 m where s1: "rb_Remove s (topp t) = Some s1" "rb_rep T s1 t1" "inorder t1 = remove1 (topp t) (inorder t)"
      "rb_nodes s1 (topp t) = Some m" "node_free m"
      "\<forall>y. y \<notin> set (inorder t) \<longrightarrow> rb_nodes s1 y = rb_nodes s y"
    using rb_Remove_rep [OF Suc.prems root(3)] by blast
  have dist: "distinct (inorder t)"
    using Suc.prems by (auto simp: rb_rep_def zrep_def)
  have "k = length (inorder t1)"
    using Suc.hyps(2) s1(3) root(3) by (simp add: length_remove1)
  then obtain s' where s': "rb_RemoveAll s1 = Some s'" "rb_rep T s' Lf"
      "\<forall>x \<in> set (inorder t1). \<exists>m. rb_nodes s' x = Some m \<and> node_free m"
      "\<forall>y. y \<notin> set (inorder t1) \<longrightarrow> rb_nodes s' y = rb_nodes s1 y"
    using Suc.hyps(1) s1(2) by blast
  have "set (inorder t1) = set (inorder t) - {topp t}"
    using s1(3) dist by simp
  then have "rb_RemoveAll s = Some s' \<and> rb_rep T s' Lf \<and>
           (\<forall>x \<in> set (inorder t). \<exists>m. rb_nodes s' x = Some m \<and> node_free m) \<and>
           (\<forall>y. y \<notin> set (inorder t) \<longrightarrow> rb_nodes s' y = rb_nodes s y)"
    using root s1 s' by (subst rb_RemoveAll.simps) auto
  then show ?case
    by blast
qed

end
