(* ===== verification/RBTree_Search.thy ===== *)
theory RBTree_Search
  imports RBTree_Unlink
begin

text \<open>
  What the reading operations of \<open>CRedBlackTree\<close> return, against the in-order list of the tree:
  the neighbours of a node, the ends of the tree, the five searches, the two iterators (also when
  the caller removes nodes on the way) and the debug checker.
\<close>

section \<open>Neighbours\<close>

lemma zrep_step_up: "zrep h0 T n s t (f # fs) \<Longrightarrow> zrep h0 T n s (plugf t f) fs \<and> plugf t f \<noteq> Lf"
  by (cases f) (simp_all add: zrep_up)

lemma down_left_rep:
  "zrep h0 T n s t fs \<Longrightarrow> t \<noteq> Lf \<Longrightarrow> down_left (rb_nodes s) (topp t) = Some (hd_or (inorder t) d)"
proof (induction t arbitrary: fs)
  case (Nd l a c r)
  note z = Nd.prems(1)
  show ?case
    using zrep_load [OF z] zrep_topp_nonnull [OF zrep_down(1) [OF z]] Nd.IH(1) [OF zrep_down(1) [OF z]]
    by (subst down_left.simps) (cases l; auto)
qed simp

lemma down_right_rep:
  "zrep h0 T n s t fs \<Longrightarrow> t \<noteq> Lf \<Longrightarrow> down_right (rb_nodes s) (topp t) = Some (last_or (inorder t) d)"
proof (induction t arbitrary: fs)
  case (Nd l a c r)
  note z = Nd.prems(1)
  show ?case
    using zrep_load [OF z] zrep_topp_nonnull [OF zrep_down(2) [OF z]] Nd.IH(2) [OF zrep_down(2) [OF z]]
    by (subst down_right.simps) (cases r; auto)
qed simp

lemma up_while_right_rep:
  "zrep h0 T n s t fs \<Longrightarrow> t \<noteq> Lf \<Longrightarrow>
     up_while_right (rb_nodes s) (parent_of fs) (topp t) = Some (hd_or (afters fs) NULL)"
proof (induction fs arbitrary: t)
  case Nil
  then show ?case by (subst up_while_right.simps) (simp add: hd_or_def)
next
  case (Cons f fs)
  note z = Cons.prems(1)
  have "zrep h0 T n s (plugf t f) fs" and "plugf t f \<noteq> Lf"
    using zrep_step_up [OF z] by simp_all
  then show ?case
    using Cons.IH [of "plugf t f"] Cons.prems zrep_frame [OF z] zrep_neq_frame(2) [OF z]
    by (subst up_while_right.simps) (cases f; auto)
qed

lemma up_while_left_rep:
  "zrep h0 T n s t fs \<Longrightarrow> t \<noteq> Lf \<Longrightarrow>
     up_while_left (rb_nodes s) (parent_of fs) (topp t) = Some (last_or (befores fs) NULL)"
proof (induction fs arbitrary: t)
  case Nil
  then show ?case by (subst up_while_left.simps) (simp add: last_or_def)
next
  case (Cons f fs)
  note z = Cons.prems(1)
  have "zrep h0 T n s (plugf t f) fs" and "plugf t f \<noteq> Lf"
    using zrep_step_up [OF z] by simp_all
  then show ?case
    using Cons.IH [of "plugf t f"] Cons.prems zrep_frame [OF z] zrep_neq_frame(2) [OF z]
    by (subst up_while_left.simps) (cases f; auto)
qed

lemma zrep_GetNext:
  assumes z: "zrep h0 T n s (Nd l a c r) fs"
  shows "rb_GetNext (rb_nodes s) a = Some (hd_or (inorder r @ afters fs) NULL)"
  using zrep_load [OF z] zrep_topp_nonnull [OF zrep_down(2) [OF z]] down_left_rep [OF zrep_down(2) [OF z]]
    up_while_right_rep [OF z]
  by (cases r) (auto simp: rb_GetNext_def)

lemma zrep_GetPrev:
  assumes z: "zrep h0 T n s (Nd l a c r) fs"
  shows "rb_GetPrev (rb_nodes s) a = Some (last_or (befores fs @ inorder l) NULL)"
  using zrep_load [OF z] zrep_topp_nonnull [OF zrep_down(1) [OF z]] down_right_rep [OF zrep_down(1) [OF z]]
    up_while_left_rep [OF z]
  by (cases l) (auto simp: rb_GetPrev_def)

text \<open>A tree object, and the position of a node in its order.\<close>

lemma rb_rep_zrep: "rb_rep T s t \<Longrightarrow> zrep (rb_nodes s) T (of_nat (length (inorder t))) s t []"
  by (simp add: rb_rep_def)

lemma rb_rep_distinct: "rb_rep T s t \<Longrightarrow> distinct (inorder t)"
  using zrep_distinct rb_rep_zrep by fastforce

lemma rb_rep_split:
  assumes "rb_rep T s t" and "inorder t = xs @ a # ys"
  shows "\<exists>l c r fs. zrep (rb_nodes s) T (of_nat (length (inorder t))) s (Nd l a c r) fs \<and>
           befores fs @ inorder l = xs \<and> inorder r @ afters fs = ys"
proof -
  obtain l c r fs where t: "t = plug (Nd l a c r) fs"
    using split_at [of a t] assms(2) by auto
  have "(befores fs @ inorder l) @ a # inorder r @ afters fs = xs @ a # ys"
    using assms(2) t by (simp add: inorder_plug)
  moreover have "a \<notin> set xs" "a \<notin> set ys"
    using rb_rep_distinct [OF assms(1)] assms(2) by auto
  ultimately have "befores fs @ inorder l = xs" "inorder r @ afters fs = ys"
    using append_Cons_eq_iff [of a xs ys] by metis+
  then show ?thesis
    using rb_rep_zrep [OF assms(1)] t zrep_plug by blast
qed

lemma rb_GetNext_rep:
  "rb_rep T s t \<Longrightarrow> inorder t = xs @ a # ys \<Longrightarrow> rb_GetNext (rb_nodes s) a = Some (hd_or ys NULL)"
  using rb_rep_split zrep_GetNext by metis

lemma rb_GetPrev_rep:
  "rb_rep T s t \<Longrightarrow> inorder t = xs @ a # ys \<Longrightarrow> rb_GetPrev (rb_nodes s) a = Some (last_or xs NULL)"
  using rb_rep_split zrep_GetPrev by metis

lemma rb_GetFirst_rep: "rb_rep T s t \<Longrightarrow> rb_GetFirst s = Some (hd_or (inorder t) NULL)"
  using down_left_rep [OF rb_rep_zrep, of T s t] rb_rep_root [of T s t]
  by (cases "t = Lf") (auto simp: rb_GetFirst_def)

lemma rb_GetLast_rep: "rb_rep T s t \<Longrightarrow> rb_GetLast s = Some (last_or (inorder t) NULL)"
  using down_right_rep [OF rb_rep_zrep, of T s t] rb_rep_root [of T s t]
  by (cases "t = Lf") (auto simp: rb_GetLast_def)

lemma rb_GetCount_rep: "rb_rep T s t \<Longrightarrow> rb_GetCount s = of_nat (length (inorder t))"
  by (simp add: rb_rep_def zrep_def rb_GetCount_def)

lemma rb_IsEmpty_rep: "rb_rep T s t \<Longrightarrow> rb_IsEmpty s \<longleftrightarrow> inorder t = []"
  using rb_rep_root [of T s t] by (cases t) (auto simp: rb_IsEmpty_def)


section \<open>Searches\<close>

lemma cmp_mono_node:
  assumes "cmp_mono cmp key (inorder (Nd l a c r))"
  shows "cmp_mono cmp key (inorder l)" "cmp_mono cmp key (inorder r)"
    "0 \<le> cmp key a \<Longrightarrow> filter (\<lambda>y. cmp key y < 0) (inorder l) = []"
    "cmp key a \<le> 0 \<Longrightarrow> filter (\<lambda>y. 0 < cmp key y) (inorder r) = []"
    "0 < cmp key a \<Longrightarrow> \<forall>y \<in> set (inorder l). 0 < cmp key y"
    "cmp key a < 0 \<Longrightarrow> \<forall>y \<in> set (inorder r). cmp key y < 0"
proof -
  have l: "\<forall>y \<in> set (inorder l). sgn (cmp key a) \<le> sgn (cmp key y)"
    and r: "\<forall>y \<in> set (inorder r). sgn (cmp key y) \<le> sgn (cmp key a)"
    using assms by (simp_all add: cmp_mono_append cmp_mono_Cons)
  show "cmp_mono cmp key (inorder l)" "cmp_mono cmp key (inorder r)"
    using assms by (simp_all add: cmp_mono_append cmp_mono_Cons)
  show "0 \<le> cmp key a \<Longrightarrow> filter (\<lambda>y. cmp key y < 0) (inorder l) = []"
    and "0 < cmp key a \<Longrightarrow> \<forall>y \<in> set (inorder l). 0 < cmp key y"
    using l by (fastforce simp: filter_empty_conv sgn_if split: if_splits)+
  show "cmp key a \<le> 0 \<Longrightarrow> filter (\<lambda>y. 0 < cmp key y) (inorder r) = []"
    and "cmp key a < 0 \<Longrightarrow> \<forall>y \<in> set (inorder r). cmp key y < 0"
    using r by (fastforce simp: filter_empty_conv sgn_if split: if_splits)+
qed

lemma find_loop_rep:
  assumes "zrep h0 T n s t fs" and "cmp_mono cmp key (inorder t)"
  shows "\<exists>p. find_loop (rb_nodes s) cmp key (topp t) = Some p \<and>
           (if p = NULL then \<forall>y \<in> set (inorder t). cmp key y \<noteq> 0 else p \<in> set (inorder t) \<and> cmp key p = 0)"
  using assms
proof (induction t arbitrary: fs)
  case Lf
  then show ?case by (subst find_loop.simps) simp
next
  case (Nd l a c r)
  note z = Nd.prems(1)
  have a: "a \<noteq> NULL" "NULL \<notin> set (inorder l)" "NULL \<notin> set (inorder r)"
    using zrep_nonnull [OF z] by (auto simp: inorder_plug)
  note mono = cmp_mono_node [OF Nd.prems(2)]
  consider "cmp key a = 0" | "cmp key a < 0" | "0 < cmp key a"
    by linarith
  then show ?case
  proof cases
    case 1
    then show ?thesis using a by (subst find_loop.simps) auto
  next
    case 2
    then show ?thesis
      using a zrep_load [OF z] Nd.IH(1) [OF zrep_down(1) [OF z] mono(1)] mono(6)
      by (subst find_loop.simps) (fastforce split: if_splits)
  next
    case 3
    then show ?thesis
      using a zrep_load [OF z] Nd.IH(2) [OF zrep_down(2) [OF z] mono(2)] mono(5)
      by (subst find_loop.simps) (fastforce split: if_splits)
  qed
qed

lemma higher_loop_rep:
  assumes "zrep h0 T n s t fs" and "cmp_mono cmp key (inorder t)" and "t \<noteq> Lf"
  shows "higher_loop (rb_nodes s) cmp key (topp t) =
           Some (hd_or (filter (\<lambda>y. cmp key y < 0) (inorder t) @ afters fs) NULL)"
  using assms
proof (induction t arbitrary: fs)
  case (Nd l a c r)
  note z = Nd.prems(1) and mono = cmp_mono_node [OF Nd.prems(2)]
  show ?case
    using zrep_load [OF z] zrep_node(1) [OF z] up_while_right_rep [OF z] mono(3)
      zrep_topp_nonnull [OF zrep_down(1) [OF z]] zrep_topp_nonnull [OF zrep_down(2) [OF z]]
      Nd.IH(1) [OF zrep_down(1) [OF z] mono(1)] Nd.IH(2) [OF zrep_down(2) [OF z] mono(2)]
    by (subst higher_loop.simps) (cases "l = Lf"; cases "r = Lf"; auto)
qed simp

lemma lower_loop_rep:
  assumes "zrep h0 T n s t fs" and "cmp_mono cmp key (inorder t)" and "t \<noteq> Lf"
  shows "lower_loop (rb_nodes s) cmp key (topp t) =
           Some (last_or (befores fs @ filter (\<lambda>y. 0 < cmp key y) (inorder t)) NULL)"
  using assms
proof (induction t arbitrary: fs)
  case (Nd l a c r)
  note z = Nd.prems(1) and mono = cmp_mono_node [OF Nd.prems(2)]
  show ?case
    using zrep_load [OF z] zrep_node(1) [OF z] up_while_left_rep [OF z] mono(4)
      zrep_topp_nonnull [OF zrep_down(1) [OF z]] zrep_topp_nonnull [OF zrep_down(2) [OF z]]
      Nd.IH(1) [OF zrep_down(1) [OF z] mono(1)] Nd.IH(2) [OF zrep_down(2) [OF z] mono(2)]
    by (subst lower_loop.simps) (cases "l = Lf"; cases "r = Lf"; auto)
qed simp

text \<open>With an exact match below the focus some match is found; otherwise the search is strict.\<close>

lemma ceiling_loop_rep:
  assumes "zrep h0 T n s t fs" and "cmp_mono cmp key (inorder t)" and "t \<noteq> Lf"
  shows "\<exists>p. ceiling_loop (rb_nodes s) cmp key (topp t) = Some p \<and>
           (if \<exists>y \<in> set (inorder t). cmp key y = 0 then p \<in> set (inorder t) \<and> cmp key p = 0
            else p = hd_or (filter (\<lambda>y. cmp key y < 0) (inorder t) @ afters fs) NULL)"
  using assms
proof (induction t arbitrary: fs)
  case (Nd l a c r)
  note z = Nd.prems(1) and mono = cmp_mono_node [OF Nd.prems(2)]
  have a: "a \<noteq> NULL"
    using zrep_node(1) [OF z] .
  consider "cmp key a = 0" | "cmp key a < 0" | "0 < cmp key a"
    by linarith
  then show ?case
  proof cases
    case 1
    then show ?thesis using a by (subst ceiling_loop.simps) auto
  next
    case 2
    then have ex: "(\<exists>y \<in> set (inorder (Nd l a c r)). cmp key y = 0) \<longleftrightarrow> (\<exists>y \<in> set (inorder l). cmp key y = 0)"
      using mono(6) by fastforce
    show ?thesis
    proof (cases "l = Lf")
      case True
      then show ?thesis
        using 2 a ex zrep_load [OF z] by (subst ceiling_loop.simps) simp
    next
      case False
      then obtain p where p: "ceiling_loop (rb_nodes s) cmp key (topp l) = Some p"
          "if \<exists>y \<in> set (inorder l). cmp key y = 0 then p \<in> set (inorder l) \<and> cmp key p = 0
           else p = hd_or (filter (\<lambda>y. cmp key y < 0) (inorder l) @ afters (InL a c r # fs)) NULL"
        using Nd.IH(1) [OF zrep_down(1) [OF z] mono(1)] by auto
      then have "ceiling_loop (rb_nodes s) cmp key a = Some p"
        using 2 a False zrep_load [OF z] zrep_topp_nonnull [OF zrep_down(1) [OF z]]
        by (subst ceiling_loop.simps) simp
      then show ?thesis
        using p(2) 2 mono(3,4) unfolding ex by (intro exI [of _ p]) (simp split: if_splits)
    qed
  next
    case 3
    then have ex: "(\<exists>y \<in> set (inorder (Nd l a c r)). cmp key y = 0) \<longleftrightarrow> (\<exists>y \<in> set (inorder r). cmp key y = 0)"
      using mono(5) by fastforce
    show ?thesis
    proof (cases "r = Lf")
      case True
      then show ?thesis
        using 3 a ex zrep_load [OF z] up_while_right_rep [OF z] mono(3) by (subst ceiling_loop.simps) simp
    next
      case False
      then obtain p where p: "ceiling_loop (rb_nodes s) cmp key (topp r) = Some p"
          "if \<exists>y \<in> set (inorder r). cmp key y = 0 then p \<in> set (inorder r) \<and> cmp key p = 0
           else p = hd_or (filter (\<lambda>y. cmp key y < 0) (inorder r) @ afters (InR l a c # fs)) NULL"
        using Nd.IH(2) [OF zrep_down(2) [OF z] mono(2)] by auto
      then have "ceiling_loop (rb_nodes s) cmp key a = Some p"
        using 3 a False zrep_load [OF z] zrep_topp_nonnull [OF zrep_down(2) [OF z]]
        by (subst ceiling_loop.simps) simp
      then show ?thesis
        using p(2) 3 mono(3,4) unfolding ex by (intro exI [of _ p]) (simp split: if_splits)
    qed
  qed
qed simp

lemma floor_loop_rep:
  assumes "zrep h0 T n s t fs" and "cmp_mono cmp key (inorder t)" and "t \<noteq> Lf"
  shows "\<exists>p. floor_loop (rb_nodes s) cmp key (topp t) = Some p \<and>
           (if \<exists>y \<in> set (inorder t). cmp key y = 0 then p \<in> set (inorder t) \<and> cmp key p = 0
            else p = last_or (befores fs @ filter (\<lambda>y. 0 < cmp key y) (inorder t)) NULL)"
  using assms
proof (induction t arbitrary: fs)
  case (Nd l a c r)
  note z = Nd.prems(1) and mono = cmp_mono_node [OF Nd.prems(2)]
  have a: "a \<noteq> NULL"
    using zrep_node(1) [OF z] .
  consider "cmp key a = 0" | "cmp key a < 0" | "0 < cmp key a"
    by linarith
  then show ?case
  proof cases
    case 1
    then show ?thesis using a by (subst floor_loop.simps) auto
  next
    case 2
    then have ex: "(\<exists>y \<in> set (inorder (Nd l a c r)). cmp key y = 0) \<longleftrightarrow> (\<exists>y \<in> set (inorder l). cmp key y = 0)"
      using mono(6) by fastforce
    show ?thesis
    proof (cases "l = Lf")
      case True
      then show ?thesis
        using 2 a ex zrep_load [OF z] up_while_left_rep [OF z] mono(4) by (subst floor_loop.simps) simp
    next
      case False
      then obtain p where p: "floor_loop (rb_nodes s) cmp key (topp l) = Some p"
          "if \<exists>y \<in> set (inorder l). cmp key y = 0 then p \<in> set (inorder l) \<and> cmp key p = 0
           else p = last_or (befores (InL a c r # fs) @ filter (\<lambda>y. 0 < cmp key y) (inorder l)) NULL"
        using Nd.IH(1) [OF zrep_down(1) [OF z] mono(1)] by auto
      then have "floor_loop (rb_nodes s) cmp key a = Some p"
        using 2 a False zrep_load [OF z] zrep_topp_nonnull [OF zrep_down(1) [OF z]]
        by (subst floor_loop.simps) simp
      then show ?thesis
        using p(2) 2 mono(3,4) unfolding ex by (intro exI [of _ p]) (simp split: if_splits)
    qed
  next
    case 3
    then have ex: "(\<exists>y \<in> set (inorder (Nd l a c r)). cmp key y = 0) \<longleftrightarrow> (\<exists>y \<in> set (inorder r). cmp key y = 0)"
      using mono(5) by fastforce
    show ?thesis
    proof (cases "r = Lf")
      case True
      then show ?thesis
        using 3 a ex zrep_load [OF z] by (subst floor_loop.simps) simp
    next
      case False
      then obtain p where p: "floor_loop (rb_nodes s) cmp key (topp r) = Some p"
          "if \<exists>y \<in> set (inorder r). cmp key y = 0 then p \<in> set (inorder r) \<and> cmp key p = 0
           else p = last_or (befores (InR l a c # fs) @ filter (\<lambda>y. 0 < cmp key y) (inorder r)) NULL"
        using Nd.IH(2) [OF zrep_down(2) [OF z] mono(2)] by auto
      then have "floor_loop (rb_nodes s) cmp key a = Some p"
        using 3 a False zrep_load [OF z] zrep_topp_nonnull [OF zrep_down(2) [OF z]]
        by (subst floor_loop.simps) simp
      then show ?thesis
        using p(2) 3 mono(3,4) unfolding ex by (intro exI [of _ p]) (simp split: if_splits)
    qed
  qed
qed simp


text \<open>The searches of a tree object.\<close>

lemma loops_NULL:
  "find_loop h cmp key NULL = Some NULL" "ceiling_loop h cmp key NULL = Some NULL"
  "floor_loop h cmp key NULL = Some NULL" "higher_loop h cmp key NULL = Some NULL"
  "lower_loop h cmp key NULL = Some NULL"
  by (simp_all add: find_loop.simps ceiling_loop.simps floor_loop.simps higher_loop.simps lower_loop.simps)

lemma rb_Find_rep:
  assumes "rb_rep T s t" and "cmp_mono cmp key (inorder t)"
  shows "\<exists>p. rb_Find s cmp key = Some p \<and>
           (if p = NULL then \<forall>y \<in> set (inorder t). cmp key y \<noteq> 0 else p \<in> set (inorder t) \<and> cmp key p = 0)"
  using find_loop_rep [OF rb_rep_zrep [OF assms(1)] assms(2)] rb_rep_root [OF assms(1)]
  by (simp add: rb_Find_def)

lemma rb_GetHigher_rep:
  assumes "rb_rep T s t" and "cmp_mono cmp key (inorder t)"
  shows "rb_GetHigher s cmp key = Some (hd_or (filter (\<lambda>y. cmp key y < 0) (inorder t)) NULL)"
  using higher_loop_rep [OF rb_rep_zrep [OF assms(1)] assms(2)] rb_rep_root [OF assms(1)]
  by (cases "t = Lf") (simp_all add: rb_GetHigher_def loops_NULL)

lemma rb_GetLower_rep:
  assumes "rb_rep T s t" and "cmp_mono cmp key (inorder t)"
  shows "rb_GetLower s cmp key = Some (last_or (filter (\<lambda>y. 0 < cmp key y) (inorder t)) NULL)"
  using lower_loop_rep [OF rb_rep_zrep [OF assms(1)] assms(2)] rb_rep_root [OF assms(1)]
  by (cases "t = Lf") (simp_all add: rb_GetLower_def loops_NULL)

lemma rb_GetCeiling_rep:
  assumes "rb_rep T s t" and "cmp_mono cmp key (inorder t)"
  shows "\<exists>p. rb_GetCeiling s cmp key = Some p \<and>
           (if \<exists>y \<in> set (inorder t). cmp key y = 0 then p \<in> set (inorder t) \<and> cmp key p = 0
            else p = hd_or (filter (\<lambda>y. cmp key y < 0) (inorder t)) NULL)"
  using ceiling_loop_rep [OF rb_rep_zrep [OF assms(1)] assms(2)] rb_rep_root [OF assms(1)]
  by (cases "t = Lf") (simp_all add: rb_GetCeiling_def loops_NULL del: split_paired_Ex cong: if_cong)

lemma rb_GetFloor_rep:
  assumes "rb_rep T s t" and "cmp_mono cmp key (inorder t)"
  shows "\<exists>p. rb_GetFloor s cmp key = Some p \<and>
           (if \<exists>y \<in> set (inorder t). cmp key y = 0 then p \<in> set (inorder t) \<and> cmp key p = 0
            else p = last_or (filter (\<lambda>y. 0 < cmp key y) (inorder t)) NULL)"
  using floor_loop_rep [OF rb_rep_zrep [OF assms(1)] assms(2)] rb_rep_root [OF assms(1)]
  by (cases "t = Lf") (simp_all add: rb_GetFloor_def loops_NULL del: split_paired_Ex cong: if_cong)

section \<open>Iterators\<close>

lemma rb_rep_in_nonnull: "rb_rep T s t \<Longrightarrow> inorder t = xs @ x # ys \<Longrightarrow> x \<noteq> NULL"
  using rb_rep_nonnull by fastforce

lemma rb_iter_Next_rep:
  "rb_rep T s t \<Longrightarrow> inorder t = xs @ ys \<Longrightarrow>
     rb_iter_Next (rb_nodes s) (hd_or ys NULL) = Some (hd_or ys NULL, hd_or (tl ys) NULL)"
  using rb_GetNext_rep rb_rep_in_nonnull by (cases ys) (fastforce simp: rb_iter_Next_def)+

lemma rb_iterrev_Next_rep:
  "rb_rep T s t \<Longrightarrow> inorder t = xs @ ys \<Longrightarrow>
     rb_iterrev_Next (rb_nodes s) (last_or xs NULL) = Some (last_or xs NULL, last_or (butlast xs) NULL)"
  using rb_GetPrev_rep rb_rep_in_nonnull by (cases xs rule: rev_cases) (fastforce simp: rb_iterrev_Next_def)+

lemma rb_collect_forward:
  assumes rep: "rb_rep T s t"
  shows "inorder t = xs @ ys \<Longrightarrow>
    rb_collect (rb_iter_Next (rb_nodes s)) (hd_or ys NULL) (hd_or (tl ys) NULL) = Some ys"
proof (induction ys arbitrary: xs)
  case Nil
  then show ?case by (subst rb_collect.simps) simp
next
  case (Cons y ys)
  have "rb_collect (rb_iter_Next (rb_nodes s)) (hd_or ys NULL) (hd_or (tl ys) NULL) = Some ys"
    using Cons.IH [of "xs @ [y]"] Cons.prems by simp
  then show ?case
    using rb_rep_in_nonnull [OF rep Cons.prems] rb_iter_Next_rep [OF rep, of "xs @ [y]" ys] Cons.prems
    by (subst rb_collect.simps) simp
qed

lemma rb_collect_backward:
  assumes rep: "rb_rep T s t"
  shows "inorder t = xs @ ys \<Longrightarrow>
    rb_collect (rb_iterrev_Next (rb_nodes s)) (last_or xs NULL) (last_or (butlast xs) NULL) = Some (rev xs)"
proof (induction xs arbitrary: ys rule: rev_induct)
  case Nil
  then show ?case by (subst rb_collect.simps) simp
next
  case (snoc x xs)
  have "rb_collect (rb_iterrev_Next (rb_nodes s)) (last_or xs NULL) (last_or (butlast xs) NULL) = Some (rev xs)"
    using snoc.IH [of "x # ys"] snoc.prems by simp
  moreover have "inorder t = xs @ x # ys"
    using snoc.prems by simp
  ultimately show ?case
    using rb_rep_in_nonnull [OF rep, of xs x ys] rb_iterrev_Next_rep [OF rep, of xs "x # ys"]
    by (subst rb_collect.simps) simp
qed

text \<open>
  A loop whose body may remove the node it was given, the reason why the iterator keeps the
  next node and not the current one.
\<close>

partial_function (option) rb_sweep ::
    "(ptr \<Rightarrow> bool) \<Rightarrow> rbt \<Rightarrow> ptr \<Rightarrow> ptr \<Rightarrow> (ptr list \<times> rbt) option" where
  "rb_sweep P s x cur =
     (if x = NULL then Some ([], s)
      else do {
        s \<leftarrow> (if P x then rb_Remove s x else Some s);
        (y, cur) \<leftarrow> rb_iter_Next (rb_nodes s) cur;
        (xs, s) \<leftarrow> rb_sweep P s y cur;
        Some (x # xs, s)
      })"

lemma rb_sweep_rep:
  assumes "rb_rep T s t" and "inorder t = xs @ ys"
  shows "\<exists>s' t'. rb_sweep P s (hd_or ys NULL) (hd_or (tl ys) NULL) = Some (ys, s') \<and> rb_rep T s' t' \<and>
           inorder t' = xs @ filter (\<lambda>x. \<not> P x) ys"
  using assms
proof (induction ys arbitrary: s t xs)
  case Nil
  then show ?case by (subst rb_sweep.simps) auto
next
  case (Cons y ys)
  have y: "y \<noteq> NULL"
    using rb_rep_in_nonnull [OF Cons.prems] .
  show ?case
  proof (cases "P y")
    case True
    have "y \<notin> set xs" "y \<in> set (inorder t)"
      using rb_rep_distinct [OF Cons.prems(1)] Cons.prems(2) by auto
    then obtain s1 t1 where s1: "rb_Remove s y = Some s1" "rb_rep T s1 t1" "inorder t1 = xs @ ys"
      using rb_Remove_rep [OF Cons.prems(1), of y] Cons.prems(2) by (auto simp: remove1_append)
    show ?thesis
      using Cons.IH [OF s1(2,3)] rb_iter_Next_rep [OF s1(2,3)] s1(1) True y
      by (subst rb_sweep.simps) auto
  next
    case False
    then show ?thesis
      using Cons.IH [OF Cons.prems(1), of "xs @ [y]"] rb_iter_Next_rep [OF Cons.prems(1), of "xs @ [y]" ys]
        Cons.prems(2) y by (subst rb_sweep.simps) auto
  qed
qed

section \<open>The debug checker\<close>

lemma CheckRecursive_rep:
  assumes "zrep h0 T n s t fs" and "invc t" and "red t \<longrightarrow> fs \<noteq> [] \<and> \<not> f_red (hd fs)"
  shows "CheckRecursive s (topp t) = Some True"
  using assms
proof (induction t arbitrary: fs)
  case Lf
  then show ?case by (subst CheckRecursive.simps) simp
next
  case (Nd l a c r)
  note z = Nd.prems(1)
  note zl = zrep_down(1) [OF z] and zr = zrep_down(2) [OF z]
  have kids: "CheckRecursive s (topp l) = Some True" "CheckRecursive s (topp r) = Some True"
    using Nd.IH(1) [OF zl] Nd.IH(2) [OF zr] Nd.prems(2) by auto
  have par: "if c then map_option rb_red (load (rb_nodes s) (parent_of fs)) = Some False else True"
  proof (cases fs)
    case (Cons f gs)
    then show ?thesis using zrep_frame(4) [of h0 T n s "Nd l a c r" f gs] z Nd.prems(3) by auto
  qed (use Nd.prems(3) in simp)
  have up: "a = rb_root s \<or> parent_of fs \<noteq> NULL"
    using zrep_root [OF z] zrep_frame(1) [of h0 T n s "Nd l a c r" "hd fs" "tl fs"] z by (cases fs) auto
  have ptrs: "topp l \<noteq> NULL \<longrightarrow> topp l \<noteq> parent_of fs" "topp r \<noteq> NULL \<longrightarrow> topp r \<noteq> parent_of fs \<and> topp r \<noteq> topp l"
  proof -
    have "distinct (inorder (plug (Nd l a c r) fs))"
      using zrep_distinct [OF z] .
    then have d: "set (inorder (Nd l a c r)) \<inter> paddrs fs = {}" "set (inorder l) \<inter> set (inorder r) = {}"
      by (auto simp: inorder_plug paddrs_def)
    have "fs \<noteq> [] \<Longrightarrow> parent_of fs \<in> paddrs fs"
      by (cases fs; cases "hd fs") auto
    then show "topp l \<noteq> NULL \<longrightarrow> topp l \<noteq> parent_of fs" "topp r \<noteq> NULL \<longrightarrow> topp r \<noteq> parent_of fs \<and> topp r \<noteq> topp l"
      using d topp_in [of l] topp_in [of r] by (cases "fs = []"; cases "l = Lf"; cases "r = Lf"; force)+
  qed
  show ?case
    using kids par up ptrs zrep_load [OF z] zrep_node(1) [OF z] zrep_IsRed [OF zl] zrep_IsRed [OF zr]
      zrep_GetParent [OF zl] zrep_GetParent [OF zr] zrep_topp_nonnull [OF zl] zrep_topp_nonnull [OF zr] Nd.prems(2)
    by (subst CheckRecursive.simps) (cases "l = Lf"; cases "r = Lf"; auto simp: GetParent_def)
qed

lemma CheckBlacksRecursive_rep:
  assumes "zrep h0 T n s t fs" and "invh t" and "0 \<le> k" and "path = -1 \<or> path = k + int (bh t)"
  shows "CheckBlacksRecursive (rb_nodes s) (topp t) k path = Some (True, k + int (bh t))"
  using assms
proof (induction t arbitrary: fs k path)
  case Lf
  then show ?case by (subst CheckBlacksRecursive.simps) auto
next
  case (Nd l a c r)
  note z = Nd.prems(1)
  let ?k = "if \<not> c then k + 1 else k"
  have "CheckBlacksRecursive (rb_nodes s) (topp l) ?k path = Some (True, ?k + int (bh l))"
    using Nd.IH(1) [OF zrep_down(1) [OF z], of ?k path] Nd.prems by (auto split: if_splits)
  moreover have "CheckBlacksRecursive (rb_nodes s) (topp r) ?k (?k + int (bh l)) = Some (True, ?k + int (bh r))"
    using Nd.IH(2) [OF zrep_down(2) [OF z], of ?k "?k + int (bh l)"] Nd.prems by auto
  ultimately show ?case
    using zrep_load [OF z] zrep_node(1) [OF z] Nd.prems(2)
    by (subst CheckBlacksRecursive.simps) (simp add: Let_def)
qed

lemma CheckTree_rep:
  assumes rep: "rb_rep T s t"
  shows "CheckTree s = Some True"
proof (cases t)
  case Lf
  then show ?thesis
    using rb_rep_root [OF rep] by (simp add: CheckTree_def)
next
  case (Nd l a c r)
  note z = rb_rep_zrep [OF rep]
  have inv: "invc t" "invh t" "\<not> red t"
    using rep by (auto simp: rb_rep_def rbinv_def)
  show ?thesis
    using rb_rep_root [OF rep] Nd CheckRecursive_rep [OF z inv(1)] inv(3)
      CheckBlacksRecursive_rep [OF z inv(2), of 1 "-1"] zrep_load [of _ T _ s l a c r "[]"] z
    by (auto simp: CheckTree_def)
qed

end
