(* ===== verification/RBTree.thy ===== *)
theory RBTree
  imports RBTree_Search
begin

text \<open>
  The contract of \<open>CRedBlackTree\<close>: what each operation promises about the in-order list of nodes,
  the interface its users need of their comparison callbacks (locales \<open>tree_order\<close> and
  \<open>searchable_order\<close>), and what the tree then promises about the keys.
\<close>

section \<open>Insertion and the in-order list\<close>

definition fresh_node :: "rbt \<Rightarrow> ptr \<Rightarrow> bool" where
  "fresh_node s x \<longleftrightarrow> (\<exists>m. rb_nodes s x = Some m \<and> rb_tree m = NULL)"

lemma rb_rep_owner: "rb_rep T s t \<Longrightarrow> x \<in> set (inorder t) \<Longrightarrow> \<exists>m. rb_nodes s x = Some m \<and> rb_tree m = T"
  using tree_at_alloc by (fastforce simp: rb_rep_def zrep_def)

lemma fresh_node_notin: "rb_rep T s t \<Longrightarrow> fresh_node s x \<Longrightarrow> x \<notin> set (inorder t)"
  using rb_rep_owner [of T s t x] by (auto simp: fresh_node_def rb_rep_def)

lemma rb_Insert_refused:
  assumes "rb_rep T s t" and "cmp_mono cmp x (inorder t)" and "\<exists>y \<in> set (inorder t). cmp x y = 0"
  shows "\<exists>m \<in> set (inorder t). cmp x m = 0 \<and> rb_Insert T s x cmp False = Some (False, m, s)"
proof (cases "ins_path cmp False x t []")
  case (Inl m)
  then show ?thesis
    using rb_Insert_match [OF assms(1) Inl] ins_path_match [OF Inl] by blast
next
  case (Inr gs)
  have False
    using ins_path_cut [OF Inr assms(2)] assms(3) by fastforce
  then show ?thesis ..
qed

lemma rb_Insert_added:
  assumes rep: "rb_rep T s t" and mono: "cmp_mono cmp x (inorder t)" and x: "x \<noteq> NULL" "fresh_node s x"
    and new: "dup \<or> (\<forall>y \<in> set (inorder t). cmp x y \<noteq> 0)"
  shows "\<exists>s' t' ys zs. rb_Insert T s x cmp dup = Some (True, NULL, s') \<and> rb_rep T s' t' \<and>
           inorder t = ys @ zs \<and> inorder t' = ys @ x # zs \<and>
           (\<forall>y \<in> set ys. 0 \<le> cmp x y) \<and> (\<forall>z \<in> set zs. cmp x z < 0) \<and>
           (\<forall>y. y \<notin> insert x (set (inorder t)) \<longrightarrow> rb_nodes s' y = rb_nodes s y)"
proof (cases "ins_path cmp dup x t []")
  case (Inl m)
  then show ?thesis
    using ins_path_match [OF Inl] new by blast
next
  case (Inr gs)
  obtain m where m: "rb_nodes s x = Some m"
    using x(2) by (auto simp: fresh_node_def)
  obtain s' t' where s': "rb_Insert T s x cmp dup = Some (True, NULL, s')" "rb_rep T s' t'"
      "inorder t' = befores gs @ x # afters gs"
      "\<forall>y. y \<notin> insert x (set (inorder t)) \<longrightarrow> rb_nodes s' y = rb_nodes s y"
    using rb_Insert_new [OF rep Inr x(1) m fresh_node_notin [OF rep x(2)]] by blast
  obtain ys zs where "inorder t = ys @ zs" "befores gs = ys" "afters gs = zs"
      "\<forall>y \<in> set ys. 0 \<le> cmp x y" "\<forall>z \<in> set zs. cmp x z < 0"
    using ins_path_cut [OF Inr mono] by auto
  with s' show ?thesis
    by (intro exI [of _ s'] exI [of _ t'] exI [of _ ys] exI [of _ zs]) simp
qed

lemma rb_rep_empty: "T \<noteq> NULL \<Longrightarrow> rb_rep T (CRedBlackTree h) Lf"
  by (simp add: rb_rep_def zrep_def rbinv_def CRedBlackTree_def)

section \<open>The height\<close>

fun tree_height :: "tree \<Rightarrow> nat" where
  "tree_height Lf = 0"
| "tree_height (Nd l a c r) = Suc (max (tree_height l) (tree_height r))"

lemma bh_size: "invh t \<Longrightarrow> 2 ^ bh t \<le> Suc (length (inorder t))"
  by (induction t) (auto simp: power_Suc)

lemma height_bh: "invc t \<Longrightarrow> invh t \<Longrightarrow> tree_height t \<le> 2 * bh t + (if red t then 1 else 0)"
  by (induction t) (auto split: if_splits)

lemma height_bound: "rbinv t \<Longrightarrow> 2 ^ ((tree_height t + 1) div 2) \<le> Suc (length (inorder t))"
proof -
  assume inv: "rbinv t"
  then have "(tree_height t + 1) div 2 \<le> bh t"
    using height_bh [of t] by (auto simp: rbinv_def)
  then have "(2::nat) ^ ((tree_height t + 1) div 2) \<le> 2 ^ bh t"
    by (rule power_increasing) simp
  also have "\<dots> \<le> Suc (length (inorder t))"
    using bh_size [of t] inv by (simp add: rbinv_def)
  finally show ?thesis .
qed

section \<open>Comparison callbacks\<close>

text \<open>
  A tree whose insertion callback orders the nodes by a key stays sorted by the key; with a search
  callback of the same order the nodes are found by their keys.
\<close>

locale tree_order = callback_order key ins for key :: "ptr \<Rightarrow> 'k :: linorder" and ins
begin

lemma ins_mono: "sorted (map key xs) \<Longrightarrow> cmp_mono ins x xs"
  by (induction xs) (auto simp: cmp_mono_Cons ins_sgn, auto simp: cmp_mono_def)

lemma insert_sorted:
  assumes rep: "rb_rep T s t" and "sorted (map key (inorder t))" and "x \<noteq> NULL" "fresh_node s x"
    and "dup \<or> key x \<notin> key ` set (inorder t)"
  shows "\<exists>s' t'. rb_Insert T s x ins dup = Some (True, NULL, s') \<and> rb_rep T s' t' \<and>
           inorder t' = takeWhile (\<lambda>y. key y \<le> key x) (inorder t) @ x # dropWhile (\<lambda>y. key y \<le> key x) (inorder t) \<and>
           sorted (map key (inorder t')) \<and>
           (\<forall>y. y \<notin> insert x (set (inorder t)) \<longrightarrow> rb_nodes s' y = rb_nodes s y)"
proof -
  have new: "dup \<or> (\<forall>y \<in> set (inorder t). ins x y \<noteq> 0)"
    using assms(5) ins_equal by fastforce
  obtain s' t' ys zs where r: "rb_Insert T s x ins dup = Some (True, NULL, s')" "rb_rep T s' t'"
      "inorder t = ys @ zs" "inorder t' = ys @ x # zs" "\<forall>y \<in> set ys. 0 \<le> ins x y" "\<forall>z \<in> set zs. ins x z < 0"
      "\<forall>y. y \<notin> insert x (set (inorder t)) \<longrightarrow> rb_nodes s' y = rb_nodes s y"
    using rb_Insert_added [OF rep ins_mono [OF assms(2)] assms(3,4) new] by auto
  have ys: "\<forall>y \<in> set ys. key y \<le> key x" and zs: "\<forall>z \<in> set zs. key x < key z"
    using r(5,6) by (simp_all add: ins_less ins_nonneg)
  have "takeWhile (\<lambda>y. key y \<le> key x) (inorder t) = ys" "dropWhile (\<lambda>y. key y \<le> key x) (inorder t) = zs"
    using takeWhile_split [of ys "\<lambda>y. key y \<le> key x" zs] ys zs r(3) by (simp_all add: not_le)
  moreover have "sorted (map key (inorder t'))"
    using r(3,4) ys zs assms(2) by (auto simp: sorted_append intro: less_imp_le)
  ultimately show ?thesis
    using r by auto
qed

lemma insert_refused:
  assumes "rb_rep T s t" and "sorted (map key (inorder t))" and "key x \<in> key ` set (inorder t)"
  shows "\<exists>m \<in> set (inorder t). key m = key x \<and> rb_Insert T s x ins False = Some (False, m, s)"
  using rb_Insert_refused [OF assms(1) ins_mono [OF assms(2)]] assms(3) ins_equal by (metis imageE)

lemma first_minimal:
  assumes "rb_rep T s t" and "sorted (map key (inorder t))" and "t \<noteq> Lf"
  shows "\<exists>x \<in> set (inorder t). rb_GetFirst s = Some x \<and> (\<forall>y \<in> set (inorder t). key x \<le> key y)"
proof -
  obtain x xs where "inorder t = x # xs"
    using assms(3) by (cases "inorder t"; cases t) auto
  then show ?thesis
    using rb_GetFirst_rep [OF assms(1)] assms(2) by auto
qed

lemma remove_sorted:
  assumes "rb_rep T s t" and "sorted (map key (inorder t))" and "d \<in> set (inorder t)"
  shows "\<exists>s' t'. rb_Remove s d = Some s' \<and> rb_rep T s' t' \<and> inorder t' = remove1 d (inorder t) \<and>
           sorted (map key (inorder t')) \<and> fresh_node s' d"
proof -
  obtain s' t' m where "rb_Remove s d = Some s'" "rb_rep T s' t'" "inorder t' = remove1 d (inorder t)"
      "rb_nodes s' d = Some m" "node_free m"
    using rb_Remove_rep [OF assms(1,3)] by blast
  then show ?thesis
    using sorted_map_remove1 [OF assms(2)] by (auto simp: fresh_node_def node_free_def)
qed

end

locale searchable_order = tree_order key ins + search_order key ins srch qkey
  for key :: "ptr \<Rightarrow> 'k :: linorder" and ins and srch :: "'q \<Rightarrow> ptr \<Rightarrow> int" and qkey
begin

lemma srch_mono: "sorted (map key xs) \<Longrightarrow> cmp_mono srch q xs"
  by (induction xs) (auto simp: cmp_mono_Cons srch_sgn, auto simp: cmp_mono_def)

lemma find_key:
  assumes "rb_rep T s t" and "sorted (map key (inorder t))"
  shows "\<exists>p. rb_Find s srch q = Some p \<and>
           (if qkey q \<in> key ` set (inorder t) then p \<in> set (inorder t) \<and> key p = qkey q else p = NULL)"
proof -
  obtain p where p: "rb_Find s srch q = Some p"
      "if p = NULL then \<forall>y \<in> set (inorder t). srch q y \<noteq> 0 else p \<in> set (inorder t) \<and> srch q p = 0"
    using rb_Find_rep [OF assms(1) srch_mono [OF assms(2)]] by blast
  then show ?thesis
    using rb_rep_nonnull [OF assms(1)] by (auto simp: srch_equal split: if_splits)
qed

lemma insert_unique:
  assumes rep: "rb_rep T s t" and sd: "sorted (map key (inorder t))" and di: "distinct (map key (inorder t))"
    and x: "x \<noteq> NULL" "fresh_node s x" and q: "qkey q = key x"
  shows "\<exists>b y s' t' p. rb_Insert T s x ins False = Some (b, y, s') \<and> rb_rep T s' t' \<and>
    sorted (map key (inorder t')) \<and> distinct (map key (inorder t')) \<and>
    set (map key (inorder t')) = insert (key x) (set (map key (inorder t))) \<and>
    (b \<longleftrightarrow> key x \<notin> key ` set (inorder t)) \<and>
    rb_Find s' srch q = Some p \<and> p \<noteq> NULL \<and> key p = key x"
proof (cases "key x \<in> key ` set (inorder t)")
  case True
  then obtain y where y: "rb_Insert T s x ins False = Some (False, y, s)"
    using insert_refused [OF rep sd] by blast
  obtain p where p: "rb_Find s srch q = Some p" "p \<in> set (inorder t)" "key p = key x"
    using find_key [OF rep sd, of q] True q by auto
  have "p \<noteq> NULL"
    using p(2) rb_rep_nonnull [OF rep] by metis
  moreover have "set (map key (inorder t)) = insert (key x) (set (map key (inorder t)))"
    using True by auto
  ultimately show ?thesis
    using rep sd di y p True by blast
next
  case False
  then obtain s' t' where s': "rb_Insert T s x ins False = Some (True, NULL, s')"
      "rb_rep T s' t'" "sorted (map key (inorder t'))"
      "inorder t' = takeWhile (\<lambda>y. key y \<le> key x) (inorder t) @ x # dropWhile (\<lambda>y. key y \<le> key x) (inorder t)"
    using insert_sorted [OF rep sd x, of False] by auto
  obtain ys zs where split: "inorder t = ys @ zs" "inorder t' = ys @ x # zs"
    using s'(4) takeWhile_dropWhile_id by metis
  have new: "distinct (map key (inorder t'))" "set (map key (inorder t')) = insert (key x) (set (map key (inorder t)))"
    using di False split by auto
  obtain p where p: "rb_Find s' srch q = Some p" "p \<in> set (inorder t')" "key p = key x"
    using find_key [OF s'(2,3), of q] q split(2) by (auto split: if_splits)
  have "p \<noteq> NULL"
    using p(2) rb_rep_nonnull [OF s'(2)] by metis
  then show ?thesis
    using s' new p False by blast
qed

end

end
