(* ===== verification/MemoryObjects.thy ===== *)
theory MemoryObjects
  imports MX_Prelude "HOL-Library.List_Lexorder"
begin

unbundle bit_operations_syntax

text \<open>
  The memory primitives of \<open>Source/MemoryObjects.cpp\<close>: \<open>MxMemSet\<close>, \<open>MxMemCopy\<close>, \<open>MxMemMove\<close> and
  \<open>MxMemCompare\<close>, with their paths over aligned machine words. Memory is a function from
  addresses to bytes; a machine word (\<open>SIZE_T\<close> of the 64-bit build) is eight bytes, least
  significant first. The buffers are taken not to wrap around the end of the address space.
\<close>

section \<open>Bytes and machine words\<close>

type_synonym mem = "nat \<Rightarrow> u8"

fun le_load :: "nat \<Rightarrow> mem \<Rightarrow> nat \<Rightarrow> 'a::len word" where
  "le_load 0 m a = 0"
| "le_load (Suc n) m a = ucast (m a) OR push_bit 8 (le_load n m (a + 1))"

abbreviation load64 :: "mem \<Rightarrow> nat \<Rightarrow> u64" where
  "load64 \<equiv> le_load 8"

definition store64 :: "mem \<Rightarrow> nat \<Rightarrow> u64 \<Rightarrow> mem" where
  "store64 m a w = (\<lambda>x. if a \<le> x \<and> x < a + 8 then ucast (drop_bit (8 * (x - a)) w) else m x)"

definition store8 :: "mem \<Rightarrow> nat \<Rightarrow> u8 \<Rightarrow> mem" where
  "store8 m a b = m(a := b)"

definition XISALIGNED :: "nat \<Rightarrow> bool" where
  "XISALIGNED a \<longleftrightarrow> a AND 7 = 0"

lemma bit_le_load:
  "bit (le_load n m a :: 'a::len word) k \<longleftrightarrow>
     k < 8 * n \<and> k < LENGTH('a) \<and> bit (m (a + k div 8)) (k mod 8)"
proof (induction n arbitrary: a k)
  case (Suc n)
  show ?case
  proof (cases "k < 8")
    case True
    then show ?thesis
      by (auto simp: bit_simps)
  next
    case False
    then have "(k - 8) div 8 = k div 8 - 1" "(k - 8) mod 8 = k mod 8" "0 < k div 8"
        "k - 8 < 8 * n \<longleftrightarrow> k < 8 * Suc n"
      by (auto simp: le_div_geq le_mod_geq)
    moreover have "\<not> bit (m a) k"
      using False by (auto dest: bit_imp_le_length)
    ultimately show ?thesis
      using False Suc.IH [of "a + 1" "k - 8"] by (auto simp: bit_simps simp del: mult_Suc_right)
  qed
qed simp

lemma le_load_byte:
  assumes "i < 8"
  shows "ucast (drop_bit (8 * i) (load64 m a)) = m (a + i)"
proof (rule bit_word_eqI)
  fix j
  assume "j < LENGTH(8)"
  then show "bit (ucast (drop_bit (8 * i) (load64 m a)) :: u8) j = bit (m (a + i)) j"
    using assms by (auto simp: bit_simps bit_le_load)
qed

lemma load64_eq_iff: "load64 m a = load64 m' b \<longleftrightarrow> (\<forall>i < 8. m (a + i) = m' (b + i))"
proof
  assume "load64 m a = load64 m' b"
  then show "\<forall>i < 8. m (a + i) = m' (b + i)"
    using le_load_byte by metis
next
  assume eq: "\<forall>i < 8. m (a + i) = m' (b + i)"
  show "load64 m a = load64 m' b"
  proof (rule bit_word_eqI)
    fix k
    assume "k < LENGTH(64)"
    then have "k div 8 < 8" by simp
    then show "bit (load64 m a) k = bit (load64 m' b) k"
      using eq by (simp add: bit_le_load)
  qed
qed

lemma store64_load64: "store64 m d (load64 m' s) = (\<lambda>x. if d \<le> x \<and> x < d + 8 then m' (s + (x - d)) else m x)"
  by (auto simp: store64_def fun_eq_iff le_load_byte)

lemma aligned_iff: "XISALIGNED a \<longleftrightarrow> 8 dvd a"
proof -
  have "a AND 7 = a mod 8"
    using take_bit_eq_mask [of 3 a] by (simp add: mask_eq_exp_minus_1 take_bit_eq_mod)
  then show ?thesis
    by (simp add: XISALIGNED_def dvd_eq_mod_eq_0)
qed

section \<open>The loops\<close>

fun set_words :: "mem \<Rightarrow> nat \<Rightarrow> u64 \<Rightarrow> nat \<Rightarrow> mem \<times> nat \<times> nat" where
  "set_words m d n cnt = (if 8 \<le> cnt then set_words (store64 m d n) (d + 8) n (cnt - 8) else (m, d, cnt))"

fun set_bytes :: "mem \<Rightarrow> nat \<Rightarrow> u8 \<Rightarrow> nat \<Rightarrow> mem" where
  "set_bytes m d v 0 = m"
| "set_bytes m d v (Suc cnt) = set_bytes (store8 m d v) (d + 1) v cnt"

definition MxMemSet :: "mem \<Rightarrow> nat \<Rightarrow> int \<Rightarrow> nat \<Rightarrow> mem" where
  "MxMemSet m lpDest nVal nCount =
     (let nVal = nVal AND 0xFF;
          (m, d, cnt) =
            (if XISALIGNED lpDest then
               let n = (of_int nVal :: u64) OR push_bit 8 (of_int nVal);
                   n = n OR push_bit 16 n;
                   n = n OR push_bit 32 n
               in set_words m lpDest n nCount
             else (m, lpDest, nCount))
      in set_bytes m d (of_int nVal) cnt)"

fun copy_words :: "mem \<Rightarrow> nat \<Rightarrow> nat \<Rightarrow> nat \<Rightarrow> mem \<times> nat \<times> nat \<times> nat" where
  "copy_words m d s cnt =
     (if 8 \<le> cnt then copy_words (store64 m d (load64 m s)) (d + 8) (s + 8) (cnt - 8) else (m, d, s, cnt))"

fun copy_bytes :: "mem \<Rightarrow> nat \<Rightarrow> nat \<Rightarrow> nat \<Rightarrow> mem" where
  "copy_bytes m d s 0 = m"
| "copy_bytes m d s (Suc cnt) = copy_bytes (store8 m d (m s)) (d + 1) (s + 1) cnt"

definition MxMemCopy :: "mem \<Rightarrow> nat \<Rightarrow> nat \<Rightarrow> nat \<Rightarrow> mem" where
  "MxMemCopy m lpDest lpSrc nCount =
     (let (m, d, s, cnt) =
        (if XISALIGNED lpSrc \<and> XISALIGNED lpDest then copy_words m lpDest lpSrc nCount
         else (m, lpDest, lpSrc, nCount))
      in copy_bytes m d s cnt)"

text \<open>The loops of \<open>MxMemMove\<close> that go down; \<open>s\<close> and \<open>d\<close> point past what is left to copy.\<close>

fun back_bytes :: "mem \<Rightarrow> nat \<Rightarrow> nat \<Rightarrow> nat \<Rightarrow> mem" where
  "back_bytes m d s 0 = m"
| "back_bytes m d s (Suc cnt) = back_bytes (store8 m (d - 1) (m (s - 1))) (d - 1) (s - 1) cnt"

fun back_align :: "mem \<Rightarrow> nat \<Rightarrow> nat \<Rightarrow> nat \<Rightarrow> mem \<times> nat \<times> nat \<times> nat" where
  "back_align m d s cnt =
     (if 0 < cnt \<and> \<not> XISALIGNED cnt
      then back_align (store8 m (d - 1) (m (s - 1))) (d - 1) (s - 1) (cnt - 1)
      else (m, d, s, cnt))"

fun back_words :: "mem \<Rightarrow> nat \<Rightarrow> nat \<Rightarrow> nat \<Rightarrow> mem" where
  "back_words m d s cnt =
     (if 0 < cnt then back_words (store64 m (d - 8) (load64 m (s - 8))) (d - 8) (s - 8) (cnt - 8) else m)"

definition MxMemMove :: "mem \<Rightarrow> nat \<Rightarrow> nat \<Rightarrow> nat \<Rightarrow> mem" where
  "MxMemMove m d s nCount =
     (if d \<le> s \<or> s + nCount \<le> d then
        let (m, d, s, cnt) =
          (if d + 8 \<le> s \<and> XISALIGNED s \<and> XISALIGNED d then copy_words m d s nCount else (m, d, s, nCount))
        in copy_bytes m d s cnt
      else if 8 \<le> nCount \<and> XISALIGNED s \<and> XISALIGNED d then
        let (m, d, s, cnt) = back_align m (d + nCount) (s + nCount) nCount
        in back_words m d s cnt
      else back_bytes m (d + nCount) (s + nCount) nCount)"

fun compare_words :: "mem \<Rightarrow> nat \<Rightarrow> nat \<Rightarrow> nat \<Rightarrow> nat \<times> nat \<times> nat" where
  "compare_words m p q cnt =
     (if 8 \<le> cnt then
        if load64 m p \<noteq> load64 m q then (p, q, cnt) else compare_words m (p + 8) (q + 8) (cnt - 8)
      else (p, q, cnt))"

fun compare_bytes :: "mem \<Rightarrow> nat \<Rightarrow> nat \<Rightarrow> nat \<Rightarrow> int" where
  "compare_bytes m p q 0 = 0"
| "compare_bytes m p q (Suc cnt) =
     (if m p \<noteq> m q then uint (m p) - uint (m q) else compare_bytes m (p + 1) (q + 1) cnt)"

definition MxMemCompare :: "mem \<Rightarrow> nat \<Rightarrow> nat \<Rightarrow> nat \<Rightarrow> int" where
  "MxMemCompare m lpSrc1 lpSrc2 nCount =
     (let (p, q, cnt) =
        (if XISALIGNED lpSrc1 \<and> XISALIGNED lpSrc2 then compare_words m lpSrc1 lpSrc2 nCount
         else (lpSrc1, lpSrc2, nCount))
      in compare_bytes m p q cnt)"

declare set_words.simps [simp del] copy_words.simps [simp del] back_align.simps [simp del]
  back_words.simps [simp del] compare_words.simps [simp del]


section \<open>What the routines do\<close>

definition fill :: "mem \<Rightarrow> nat \<Rightarrow> nat \<Rightarrow> (nat \<Rightarrow> u8) \<Rightarrow> mem" where
  "fill m d cnt f = (\<lambda>x. if d \<le> x \<and> x < d + cnt then f (x - d) else m x)"

lemma fill_0 [simp]: "fill m d 0 f = m"
  by (auto simp: fill_def fun_eq_iff)

lemma fill_fill: "fill (fill m d j f) (d + j) k g = fill m d (j + k) (\<lambda>i. if i < j then f i else g (i - j))"
  by (auto simp: fill_def fun_eq_iff)

lemma fill_cong: "(\<And>i. i < cnt \<Longrightarrow> f i = g i) \<Longrightarrow> fill m d cnt f = fill m d cnt g"
  by (auto simp: fill_def fun_eq_iff)

lemma set_bytes_fill: "set_bytes m d v cnt = fill m d cnt (\<lambda>_. v)"
proof (induction m d v cnt rule: set_bytes.induct)
  case (2 m d v cnt)
  have "fill (store8 m d v) (d + 1) cnt (\<lambda>_. v) = fill m d (Suc cnt) (\<lambda>_. v)"
    by (auto simp: fill_def store8_def fun_eq_iff)
  then show ?case
    using 2 by simp
qed simp

lemma set_words_fill:
  assumes "\<And>i. i < 8 \<Longrightarrow> ucast (drop_bit (8 * i) n) = v"
  shows "set_words m d n cnt = (fill m d (8 * (cnt div 8)) (\<lambda>_. v), d + 8 * (cnt div 8), cnt mod 8)"
  using assms
proof (induction m d n cnt rule: set_words.induct)
  case (1 m d n cnt)
  show ?case
  proof (cases "8 \<le> cnt")
    case True
    then have "cnt div 8 = Suc ((cnt - 8) div 8)" "cnt mod 8 = (cnt - 8) mod 8"
      by (simp_all add: le_div_geq le_mod_geq)
    moreover have "store64 m d n = fill m d 8 (\<lambda>_. v)"
      using 1(2) by (auto simp: store64_def fill_def fun_eq_iff)
    ultimately show ?thesis
      using 1 True by (subst set_words.simps) (simp add: fill_fill)
  qed (subst set_words.simps, simp)
qed

lemma splat_byte:
  fixes v :: u64
  defines "a \<equiv> v OR push_bit 8 v"
  defines "b \<equiv> a OR push_bit 16 a"
  assumes "take_bit 8 v = v" and "i < 8"
  shows "ucast (drop_bit (8 * i) (b OR push_bit 32 b)) = (ucast v :: u8)"
proof (rule bit_word_eqI)
  fix j
  assume j: "j < LENGTH(8)"
  have high: "\<not> bit v k" if "8 \<le> k" for k
    using that assms(3) by (metis bit_take_bit_iff not_le)
  from assms(4) consider "i = 0" | "i = 1" | "i = 2" | "i = 3" | "i = 4" | "i = 5" | "i = 6" | "i = 7"
    by linarith
  then show "bit (ucast (drop_bit (8 * i) (b OR push_bit 32 b)) :: u8) j = bit (ucast v :: u8) j"
    using j high by cases (simp_all add: a_def b_def bit_simps)
qed

lemma MxMemSet_fill: "MxMemSet m lpDest nVal nCount = fill m lpDest nCount (\<lambda>_. of_int nVal)"
proof -
  let ?v = "nVal AND 0xFF"
  have take: "?v = take_bit 8 nVal"
    by (simp add: take_bit_eq_mask mask_eq_exp_minus_1)
  have v: "of_int ?v = (of_int nVal :: u8)"
    unfolding take by (rule bit_word_eqI) (auto simp: bit_simps)
  show ?thesis
  proof (cases "XISALIGNED lpDest")
    case True
    let ?w = "of_int ?v :: u64"
    have "take_bit 8 ?w = ?w"
      unfolding take by (rule bit_word_eqI) (auto simp: bit_simps)
    moreover have "ucast ?w = (of_int nVal :: u8)"
      unfolding take by (rule bit_word_eqI) (auto simp: bit_simps)
    ultimately have "ucast (drop_bit (8 * i) (let n = ?w OR push_bit 8 ?w; n = n OR push_bit 16 n
        in n OR push_bit 32 n)) = (of_int nVal :: u8)" if "i < 8" for i
      using splat_byte [of ?w i] that by (simp add: Let_def)
    from set_words_fill [OF this]
    show ?thesis
      using True v by (simp add: MxMemSet_def Let_def set_bytes_fill fill_fill)
  qed (simp add: MxMemSet_def set_bytes_fill v)
qed

lemma copy_bytes_fill:
  "d \<le> s \<or> s + cnt \<le> d \<Longrightarrow> copy_bytes m d s cnt = fill m d cnt (\<lambda>i. m (s + i))"
proof (induction m d s cnt rule: copy_bytes.induct)
  case (2 m d s cnt)
  then have "copy_bytes (store8 m d (m s)) (d + 1) (s + 1) cnt =
      fill (store8 m d (m s)) (d + 1) cnt (\<lambda>i. store8 m d (m s) (s + 1 + i))"
    by auto
  also have "\<dots> = fill m d (Suc cnt) (\<lambda>i. m (s + i))"
    using 2(2) by (auto simp: fill_def store8_def fun_eq_iff intro!: arg_cong [of _ _ m])
  finally show ?case by simp
qed simp

lemma copy_words_fill:
  "d + 8 \<le> s \<or> s + cnt \<le> d \<or> d = s \<Longrightarrow>
     copy_words m d s cnt =
       (fill m d (8 * (cnt div 8)) (\<lambda>i. m (s + i)), d + 8 * (cnt div 8), s + 8 * (cnt div 8), cnt mod 8)"
proof (induction m d s cnt rule: copy_words.induct)
  case (1 m d s cnt)
  show ?case
  proof (cases "8 \<le> cnt")
    case True
    then have n: "cnt div 8 = Suc ((cnt - 8) div 8)" "cnt mod 8 = (cnt - 8) mod 8"
      by (simp_all add: le_div_geq le_mod_geq)
    let ?m = "fill m d 8 (\<lambda>i. m (s + i))"
    let ?k = "8 * ((cnt - 8) div 8)"
    have k: "?k \<le> cnt - 8" by simp
    have st: "store64 m d (load64 m s) = ?m"
      by (auto simp: store64_load64 fill_def)
    have "fill ?m (d + 8) ?k (\<lambda>i. ?m (s + 8 + i)) = fill m d (8 + ?k) (\<lambda>i. m (s + i))"
      unfolding fill_fill using 1(2) True k
      by (intro fill_cong) (auto simp: fill_def)
    moreover have "d + 8 + 8 \<le> s + 8 \<or> s + 8 + (cnt - 8) \<le> d + 8 \<or> d + 8 = s + 8"
      using 1(2) True by auto
    ultimately show ?thesis
      using 1(1) [OF True] True n st by (subst copy_words.simps) simp
  qed (subst copy_words.simps, simp)
qed


lemma back_bytes_fill:
  "s \<le> d \<Longrightarrow> back_bytes m (d + cnt) (s + cnt) cnt = fill m d cnt (\<lambda>i. m (s + i))"
proof (induction cnt arbitrary: m)
  case (Suc cnt)
  let ?m = "store8 m (d + cnt) (m (s + cnt))"
  have "fill ?m d cnt (\<lambda>i. ?m (s + i)) = fill m d (Suc cnt) (\<lambda>i. m (s + i))"
    using Suc.prems by (auto simp: fill_def store8_def fun_eq_iff intro!: arg_cong [of _ _ m])
  then show ?case
    using Suc by simp
qed simp

lemma back_align_fill:
  "s \<le> d \<Longrightarrow> back_align m (d + cnt) (s + cnt) cnt =
     (fill m (d + 8 * (cnt div 8)) (cnt mod 8) (\<lambda>i. m (s + 8 * (cnt div 8) + i)),
      d + 8 * (cnt div 8), s + 8 * (cnt div 8), 8 * (cnt div 8))"
proof (induction cnt arbitrary: m)
  case 0
  then show ?case by (subst back_align.simps) simp
next
  case (Suc cnt)
  show ?case
  proof (cases "XISALIGNED (Suc cnt)")
    case True
    then have "Suc cnt mod 8 = 0" "8 * (Suc cnt div 8) = Suc cnt"
      by (simp_all add: aligned_iff)
    then show ?thesis
      using True by (subst back_align.simps) simp
  next
    case False
    then have n: "Suc cnt div 8 = cnt div 8" "Suc cnt mod 8 = Suc (cnt mod 8)"
      by (simp_all add: aligned_iff dvd_eq_mod_eq_0 div_Suc mod_Suc split: if_splits)
    let ?m = "store8 m (d + cnt) (m (s + cnt))" and ?k = "8 * (cnt div 8)"
    have k: "?k + cnt mod 8 = cnt" by simp
    have "fill ?m (d + ?k) (cnt mod 8) (\<lambda>i. ?m (s + ?k + i)) =
        fill m (d + ?k) (Suc (cnt mod 8)) (\<lambda>i. m (s + ?k + i))"
    proof
      fix x
      have "x = d + cnt \<Longrightarrow> s + ?k + (x - (d + ?k)) = s + cnt"
        using k by arith
      then show "fill ?m (d + ?k) (cnt mod 8) (\<lambda>i. ?m (s + ?k + i)) x =
          fill m (d + ?k) (Suc (cnt mod 8)) (\<lambda>i. m (s + ?k + i)) x"
        using Suc.prems k unfolding fill_def store8_def by (auto simp del: mult_div_mod_eq)
    qed
    then show ?thesis
      using Suc.IH [OF Suc.prems, of ?m] False n by (subst back_align.simps) simp
  qed
qed

lemma back_words_fill:
  "s \<le> d \<Longrightarrow> back_words m (d + 8 * k) (s + 8 * k) (8 * k) = fill m d (8 * k) (\<lambda>i. m (s + i))"
proof (induction k arbitrary: m)
  case 0
  then show ?case by (subst back_words.simps) simp
next
  case (Suc k)
  let ?m = "store64 m (d + 8 * k) (load64 m (s + 8 * k))"
  have "fill ?m d (8 * k) (\<lambda>i. ?m (s + i)) = fill m d (8 * Suc k) (\<lambda>i. m (s + i))"
    using Suc.prems by (auto simp: fill_def store64_load64 fun_eq_iff intro!: arg_cong [of _ _ m])
  then show ?case
    using Suc by (subst back_words.simps) (simp add: algebra_simps)
qed

lemma MxMemCopy_fill:
  assumes "s + cnt \<le> d \<or> d + cnt \<le> s"
  shows "MxMemCopy m d s cnt = fill m d cnt (\<lambda>i. m (s + i))"
proof (cases "XISALIGNED s \<and> XISALIGNED d")
  case True
  let ?k = "8 * (cnt div 8)" and ?r = "cnt mod 8"
  let ?m = "fill m d ?k (\<lambda>i. m (s + i))"
  have k: "?k + ?r = cnt" by simp
  have "copy_words m d s cnt = (?m, d + ?k, s + ?k, ?r)"
  proof (cases "8 \<le> cnt")
    case True
    then show ?thesis using assms by (intro copy_words_fill) auto
  qed (subst copy_words.simps, simp)
  moreover have "copy_bytes ?m (d + ?k) (s + ?k) ?r = fill ?m (d + ?k) ?r (\<lambda>i. ?m (s + ?k + i))"
    using assms k by (intro copy_bytes_fill) linarith
  moreover have "\<dots> = fill m d (?k + ?r) (\<lambda>i. m (s + i))"
    unfolding fill_fill using assms k by (intro fill_cong) (auto simp: fill_def simp del: mult_div_mod_eq)
  ultimately show ?thesis
    using True k by (simp add: MxMemCopy_def)
next
  case False
  then show ?thesis
    using assms by (auto simp: MxMemCopy_def intro!: copy_bytes_fill)
qed

lemma MxMemMove_fill: "MxMemMove m d s cnt = fill m d cnt (\<lambda>i. m (s + i))"
proof (cases "d \<le> s \<or> s + cnt \<le> d")
  case up: True
  show ?thesis
  proof (cases "d + 8 \<le> s \<and> XISALIGNED s \<and> XISALIGNED d")
    case True
    let ?k = "8 * (cnt div 8)" and ?r = "cnt mod 8"
    let ?m = "fill m d ?k (\<lambda>i. m (s + i))"
    have k: "?k + ?r = cnt" by simp
    have "copy_words m d s cnt = (?m, d + ?k, s + ?k, ?r)"
      using True by (intro copy_words_fill) simp
    moreover have "copy_bytes ?m (d + ?k) (s + ?k) ?r = fill ?m (d + ?k) ?r (\<lambda>i. ?m (s + ?k + i))"
      using True by (intro copy_bytes_fill) linarith
    moreover have "\<dots> = fill m d (?k + ?r) (\<lambda>i. m (s + i))"
      unfolding fill_fill using True k by (intro fill_cong) (auto simp: fill_def simp del: mult_div_mod_eq)
    ultimately show ?thesis
      using True k up by (simp add: MxMemMove_def)
  next
    case False
    then show ?thesis
      using up by (auto simp: MxMemMove_def copy_bytes_fill)
  qed
next
  case down: False
  show ?thesis
  proof (cases "8 \<le> cnt \<and> XISALIGNED s \<and> XISALIGNED d")
    case True
    let ?k = "8 * (cnt div 8)" and ?r = "cnt mod 8"
    let ?m = "fill m (d + ?k) ?r (\<lambda>i. m (s + ?k + i))"
    have k: "?k + ?r = cnt" by simp
    have "back_words ?m (d + ?k) (s + ?k) ?k = fill ?m d ?k (\<lambda>i. ?m (s + i))"
      using down by (intro back_words_fill) simp
    moreover have "\<dots> = fill m d (?k + ?r) (\<lambda>i. m (s + i))"
      using down k unfolding fill_def fun_eq_iff
      by (auto simp del: mult_div_mod_eq intro!: arg_cong [of _ _ m])
    ultimately show ?thesis
      using True k down by (simp add: MxMemMove_def back_align_fill)
  next
    case False
    then show ?thesis
      using down by (auto simp: MxMemMove_def back_bytes_fill)
  qed
qed

section \<open>Comparison\<close>

definition bytes :: "mem \<Rightarrow> nat \<Rightarrow> nat \<Rightarrow> u8 list" where
  "bytes m p cnt = map (\<lambda>i. m (p + i)) [0..<cnt]"

lemma bytes_Suc: "bytes m p (Suc cnt) = m p # bytes m (p + 1) cnt"
  by (simp add: bytes_def upt_conv_Cons map_Suc_upt [symmetric] del: upt_Suc)

lemma compare_bytes_sign:
  "compare_bytes m p q cnt = 0 \<longleftrightarrow> bytes m p cnt = bytes m q cnt"
  "compare_bytes m p q cnt < 0 \<longleftrightarrow> bytes m p cnt < bytes m q cnt"
  by (induction m p q cnt rule: compare_bytes.induct)
    (auto simp: bytes_Suc, auto simp: bytes_def word_less_def word_uint_eq_iff)

lemma compare_words_skip:
  assumes "compare_words m p q cnt = (p', q', cnt')"
  shows "compare_bytes m p q cnt = compare_bytes m p' q' cnt'"
  using assms
proof (induction m p q cnt rule: compare_words.induct)
  case (1 m p q cnt)
  have skip: "\<forall>i < k. m (p + i) = m (q + i) \<Longrightarrow> compare_bytes m p q (k + c) = compare_bytes m (p + k) (q + k) c"
    for k c p q
  proof (induction k arbitrary: p q)
    case (Suc k)
    have "m p = m q" "\<forall>i < k. m (p + 1 + i) = m (q + 1 + i)"
      using Suc.prems [rule_format, of 0] Suc.prems [rule_format, of "Suc _"] by auto
    then show ?case
      using Suc.IH [of "p + 1" "q + 1"] by simp
  qed simp
  show ?case
  proof (cases "8 \<le> cnt \<and> load64 m p = load64 m q")
    case True
    then show ?thesis
      using 1 skip [of 8 p q "cnt - 8"] by (subst (asm) (2) compare_words.simps) (simp add: load64_eq_iff)
  next
    case False
    then show ?thesis
      using 1(2) by (subst (asm) compare_words.simps) (auto split: if_splits)
  qed
qed

lemma MxMemCompare_bytes: "MxMemCompare m p q cnt = compare_bytes m p q cnt"
  using compare_words_skip by (auto simp: MxMemCompare_def split: prod.split)

lemma MxMemCompare_sign:
  "MxMemCompare m p q cnt = 0 \<longleftrightarrow> bytes m p cnt = bytes m q cnt"
  "MxMemCompare m p q cnt < 0 \<longleftrightarrow> bytes m p cnt < bytes m q cnt"
  by (simp_all add: MxMemCompare_bytes compare_bytes_sign)

end
