(* ===== verification/RBTree_Clients.thy ===== *)
theory RBTree_Clients
  imports RBTree MemoryObjects
begin

text \<open>
  The users of \<open>CRedBlackTree\<close> in the library and their callbacks: the timer queue
  (\<open>Source/TimedEvent.cpp\<close>), the connections of the IPC layer (\<open>Include/Comm/IpcCommon.h\<close>), the
  pending lookups of the host resolver (\<open>Source/Comm/HostResolver.cpp\<close>) and the per-address
  limiter of the HTTP server (\<open>Include/Http/HttpServer.h\<close>). Each callback keeps the contract of
  the tree, so each user gets the ordered-tree lemmas. The tree node is a member of the object, so
  \<open>CONTAINING_RECORD\<close> subtracts the offset of the member.
\<close>

definition CONTAINING_RECORD :: "nat \<Rightarrow> ptr \<Rightarrow> nat" where
  "CONTAINING_RECORD off p = p - off"

section \<open>Timers by due time\<close>

text \<open>
  A timer object; its tree node lies at an offset of it in the store of the tree. A callback is a
  number, 0 for the empty one.
\<close>

record CTimer =
  nId :: u32
  dwTimeoutMs :: u32
  nDueTime :: u64
  cCallback :: nat
  lpUserData :: ptr
  nFlags :: u32
  lpNextInFreeList :: ptr

definition CTimer_InsertCompareFunc :: "nat \<Rightarrow> (nat \<Rightarrow> CTimer) \<Rightarrow> ptr \<Rightarrow> ptr \<Rightarrow> int" where
  "CTimer_InsertCompareFunc off obj lpNode1 lpNode2 =
     (let lpTimer1 = CONTAINING_RECORD off lpNode1; lpTimer2 = CONTAINING_RECORD off lpNode2 in
      if nDueTime (obj lpTimer1) < nDueTime (obj lpTimer2) then -1
      else if nDueTime (obj lpTimer1) > nDueTime (obj lpTimer2) then 1
      else 0)"

definition due_of :: "nat \<Rightarrow> (nat \<Rightarrow> CTimer) \<Rightarrow> ptr \<Rightarrow> u64" where
  "due_of off obj p = nDueTime (obj (CONTAINING_RECORD off p))"

interpretation timers: tree_order "due_of off obj" "CTimer_InsertCompareFunc off obj" for off obj
  by unfold_locales (auto simp: CTimer_InsertCompareFunc_def due_of_def Let_def)

section \<open>Connections by address\<close>

definition CConnectionBase_InsertCompareFunc :: "nat \<Rightarrow> ptr \<Rightarrow> ptr \<Rightarrow> int" where
  "CConnectionBase_InsertCompareFunc off lpNode1 lpNode2 =
     (let lpConn1 = CONTAINING_RECORD off lpNode1; lpConn2 = CONTAINING_RECORD off lpNode2 in
      if (of_nat lpConn1 :: u64) < of_nat lpConn2 then -1
      else if (of_nat lpConn1 :: u64) > of_nat lpConn2 then 1
      else 0)"

definition CConnectionBase_SearchCompareFunc :: "nat \<Rightarrow> u64 \<Rightarrow> ptr \<Rightarrow> int" where
  "CConnectionBase_SearchCompareFunc off key lpNode =
     (let lpConn = CONTAINING_RECORD off lpNode in
      if key < of_nat lpConn then -1 else if key > of_nat lpConn then 1 else 0)"

definition conn_of :: "nat \<Rightarrow> ptr \<Rightarrow> u64" where
  "conn_of off p = of_nat (CONTAINING_RECORD off p)"

interpretation connections: searchable_order "conn_of off" "CConnectionBase_InsertCompareFunc off"
    "CConnectionBase_SearchCompareFunc off" "\<lambda>key. key" for off
  by unfold_locales
    (auto simp: CConnectionBase_InsertCompareFunc_def CConnectionBase_SearchCompareFunc_def conn_of_def Let_def)

section \<open>Pending lookups by id\<close>

record CAsyncItem =
  nAsyncId :: u32

definition CAsyncItem_InsertCompareFunc :: "nat \<Rightarrow> (nat \<Rightarrow> CAsyncItem) \<Rightarrow> ptr \<Rightarrow> ptr \<Rightarrow> int" where
  "CAsyncItem_InsertCompareFunc off obj lpNode1 lpNode2 =
     (let nId1 = nAsyncId (obj (CONTAINING_RECORD off lpNode1));
          nId2 = nAsyncId (obj (CONTAINING_RECORD off lpNode2)) in
      if nId1 < nId2 then -1 else if nId1 > nId2 then 1 else 0)"

definition CAsyncItem_SearchCompareFunc :: "nat \<Rightarrow> (nat \<Rightarrow> CAsyncItem) \<Rightarrow> u32 \<Rightarrow> ptr \<Rightarrow> int" where
  "CAsyncItem_SearchCompareFunc off obj key lpNode =
     (let lpAsyncItem = CONTAINING_RECORD off lpNode in
      if key < nAsyncId (obj lpAsyncItem) then -1
      else if key > nAsyncId (obj lpAsyncItem) then 1
      else 0)"

definition async_id_of :: "nat \<Rightarrow> (nat \<Rightarrow> CAsyncItem) \<Rightarrow> ptr \<Rightarrow> u32" where
  "async_id_of off obj p = nAsyncId (obj (CONTAINING_RECORD off p))"

interpretation lookups: searchable_order "async_id_of off obj" "CAsyncItem_InsertCompareFunc off obj"
    "CAsyncItem_SearchCompareFunc off obj" "\<lambda>key. key" for off obj
  by unfold_locales
    (auto simp: CAsyncItem_InsertCompareFunc_def CAsyncItem_SearchCompareFunc_def async_id_of_def Let_def)

section \<open>Request limiters by peer address\<close>

text \<open>
  The key is the 28 bytes of the \<open>SOCKADDR_INET\<close> at offset \<open>sa\<close> of the limiter, ordered as
  \<open>MxMemCompare\<close> orders them.
\<close>

definition CRequestLimiter_InsertCompareFunc :: "nat \<Rightarrow> nat \<Rightarrow> mem \<Rightarrow> ptr \<Rightarrow> ptr \<Rightarrow> int" where
  "CRequestLimiter_InsertCompareFunc off sa m lpNode1 lpNode2 =
     (let lpLimiter1 = CONTAINING_RECORD off lpNode1; lpLimiter2 = CONTAINING_RECORD off lpNode2 in
      MxMemCompare m (lpLimiter1 + sa) (lpLimiter2 + sa) 28)"

definition CRequestLimiter_SearchCompareFunc :: "nat \<Rightarrow> nat \<Rightarrow> mem \<Rightarrow> nat \<Rightarrow> ptr \<Rightarrow> int" where
  "CRequestLimiter_SearchCompareFunc off sa m key lpNode =
     (let lpLimiter = CONTAINING_RECORD off lpNode in MxMemCompare m key (lpLimiter + sa) 28)"

definition peer_of :: "nat \<Rightarrow> nat \<Rightarrow> mem \<Rightarrow> ptr \<Rightarrow> u8 list" where
  "peer_of off sa m p = bytes m (CONTAINING_RECORD off p + sa) 28"

lemma MxMemCompare_greater: "0 < MxMemCompare m p q n \<longleftrightarrow> bytes m q n < bytes m p n"
  using MxMemCompare_sign [of m p q n] by (metis linorder_less_linear order_less_asym order_less_irrefl)

interpretation limiters: searchable_order "peer_of off sa m" "CRequestLimiter_InsertCompareFunc off sa m"
    "CRequestLimiter_SearchCompareFunc off sa m" "\<lambda>key. bytes m key 28" for off sa m
  by unfold_locales
    (auto simp: CRequestLimiter_InsertCompareFunc_def CRequestLimiter_SearchCompareFunc_def peer_of_def Let_def
      MxMemCompare_sign MxMemCompare_greater)

end
