(* ===== verification/RBTree_Props.thy ===== *)
theory RBTree_Props
  imports RBTree_Clients
begin

text \<open>
  The properties of \<open>CRedBlackTree\<close>, on its own and with the callbacks of its users, each with a
  witness on a small tree of three timers.
\<close>

section \<open>A tree of three nodes\<close>

definition sample_nodes :: "rbnode store" where
  "sample_nodes = [
     16 \<mapsto> \<lparr>rb_red = True, rb_tree = 8, rb_left = 0, rb_right = 0, rb_parent = 32\<rparr>,
     32 \<mapsto> \<lparr>rb_red = False, rb_tree = 8, rb_left = 16, rb_right = 48, rb_parent = 0\<rparr>,
     48 \<mapsto> \<lparr>rb_red = True, rb_tree = 8, rb_left = 0, rb_right = 0, rb_parent = 32\<rparr>,
     64 \<mapsto> CRedBlackTreeNode]"

definition sample_rbt :: rbt where
  "sample_rbt = \<lparr>rb_nodes = sample_nodes, rb_root = 32, rb_count = 3\<rparr>"

definition sample_tree :: tree where
  "sample_tree = Nd (Nd Lf 16 True Lf) 32 False (Nd Lf 48 True Lf)"

lemma sample_rep: "rb_rep 8 sample_rbt sample_tree"
  by (simp add: rb_rep_def zrep_def sample_rbt_def sample_nodes_def sample_tree_def rbinv_def)

lemma sample_inorder: "inorder sample_tree = [16, 32, 48]"
  by (simp add: sample_tree_def)

lemma sample_fresh: "fresh_node sample_rbt 64"
  by (simp add: fresh_node_def sample_rbt_def sample_nodes_def CRedBlackTreeNode_def)

definition sample_due :: "nat \<Rightarrow> CTimer" where
  "sample_due p = \<lparr>nId = of_nat p, dwTimeoutMs = 0, nDueTime = (if p = 64 then 32 else of_nat p), cCallback = 1,
     lpUserData = 0, nFlags = 0, lpNextInFreeList = 0\<rparr>"

lemma sample_sorted: "sorted (map (due_of 0 sample_due) (inorder sample_tree))"
  by (simp add: sample_inorder due_of_def sample_due_def CONTAINING_RECORD_def)

section \<open>Insertion\<close>

text \<open>
  A timer put into the queue with duplicates allowed always goes in: \<open>Insert\<close> with the
  callback of \<open>CTimer\<close> ends without touching a dead pointer, the result is a red-black tree, its
  order is the old one with the new node behind every timer that is due no later (so timers with
  the same due time stay in the order of their insertion) and the due times stay sorted. Memory
  outside the tree and the new node is not written.
\<close>

theorem timer_insert:
  assumes "rb_rep T s t" and "sorted (map (due_of off obj) (inorder t))"
    and "lpNewNode \<noteq> NULL" and "fresh_node s lpNewNode"
  shows "\<exists>s' t'. rb_Insert T s lpNewNode (CTimer_InsertCompareFunc off obj) True = Some (True, NULL, s') \<and>
    rb_rep T s' t' \<and>
    inorder t' = takeWhile (\<lambda>y. due_of off obj y \<le> due_of off obj lpNewNode) (inorder t) @ lpNewNode #
                 dropWhile (\<lambda>y. due_of off obj y \<le> due_of off obj lpNewNode) (inorder t) \<and>
    sorted (map (due_of off obj) (inorder t')) \<and>
    (\<forall>y. y \<notin> insert lpNewNode (set (inorder t)) \<longrightarrow> rb_nodes s' y = rb_nodes s y)"
  using timers.insert_sorted [OF assms] by blast

lemma timer_insert_witness:
  "\<exists>s' t'. rb_Insert 8 sample_rbt 64 (CTimer_InsertCompareFunc 0 sample_due) True = Some (True, NULL, s') \<and>
     rb_rep 8 s' t' \<and> inorder t' = [16, 32, 64, 48]"
  using timer_insert [OF sample_rep sample_sorted _ sample_fresh]
  by (auto simp: sample_inorder due_of_def sample_due_def CONTAINING_RECORD_def)

text \<open>
  C2. \<open>Insert\<close> with any callback that orders the new node against the tree: without duplicates a
  node that compares equal is reported and nothing changes; otherwise the node goes in before the
  nodes it compares less to and behind all others, and the result is a red-black tree.
\<close>

theorem insert_any_callback:
  assumes "rb_rep T s t" and "cmp_mono cmp x (inorder t)" and "x \<noteq> NULL" and "fresh_node s x"
  shows "if \<not> dup \<and> (\<exists>y \<in> set (inorder t). cmp x y = 0)
    then \<exists>m \<in> set (inorder t). cmp x m = 0 \<and> rb_Insert T s x cmp dup = Some (False, m, s)
    else \<exists>s' t' ys zs. rb_Insert T s x cmp dup = Some (True, NULL, s') \<and> rb_rep T s' t' \<and>
      inorder t = ys @ zs \<and> inorder t' = ys @ x # zs \<and>
      (\<forall>y \<in> set ys. 0 \<le> cmp x y) \<and> (\<forall>z \<in> set zs. cmp x z < 0)"
proof (cases "\<not> dup \<and> (\<exists>y \<in> set (inorder t). cmp x y = 0)")
  case True
  then show ?thesis
    using rb_Insert_refused [OF assms(1,2)] by simp
next
  case False
  then have "dup \<or> (\<forall>y \<in> set (inorder t). cmp x y \<noteq> 0)"
    by blast
  from rb_Insert_added [OF assms this] False show ?thesis
    by (simp only: if_False) blast
qed

lemma insert_any_callback_witness:
  "\<exists>m \<in> {16, 32, 48}. CTimer_InsertCompareFunc 0 sample_due 64 m = 0 \<and>
     rb_Insert 8 sample_rbt 64 (CTimer_InsertCompareFunc 0 sample_due) False = Some (False, m, sample_rbt)"
proof -
  have "\<exists>y \<in> set (inorder sample_tree). CTimer_InsertCompareFunc 0 sample_due 64 y = 0"
    by (simp add: sample_inorder CTimer_InsertCompareFunc_def sample_due_def CONTAINING_RECORD_def)
  then show ?thesis
    using insert_any_callback [OF sample_rep timers.ins_mono [OF sample_sorted] _ sample_fresh, of False]
    by (simp add: sample_inorder)
qed

text \<open>
  Request limiters of the HTTP server, inserted without duplicates: at most one limiter per
  peer address. Whether the address is new or already there, the tree after \<open>Insert\<close> is sorted by
  address without repetition, and \<open>Find\<close> then returns a limiter of that address.
\<close>

theorem limiter_unique:
  assumes "rb_rep T s t" and "sorted (map (peer_of off sa m) (inorder t))" and "distinct (map (peer_of off sa m) (inorder t))"
    and "x \<noteq> NULL" and "fresh_node s x"
  shows "\<exists>b y s' t' p. rb_Insert T s x (CRequestLimiter_InsertCompareFunc off sa m) False = Some (b, y, s') \<and>
    rb_rep T s' t' \<and> sorted (map (peer_of off sa m) (inorder t')) \<and> distinct (map (peer_of off sa m) (inorder t')) \<and>
    set (map (peer_of off sa m) (inorder t')) = insert (peer_of off sa m x) (set (map (peer_of off sa m) (inorder t))) \<and>
    (b \<longleftrightarrow> peer_of off sa m x \<notin> peer_of off sa m ` set (inorder t)) \<and>
    rb_Find s' (CRequestLimiter_SearchCompareFunc off sa m) (CONTAINING_RECORD off x + sa) = Some p \<and>
    p \<noteq> NULL \<and> peer_of off sa m p = peer_of off sa m x"
  using limiters.insert_unique [OF assms, of "CONTAINING_RECORD off x + sa"] by (simp add: peer_of_def)

lemma limiter_unique_witness:
  "\<exists>b y s' t' p. rb_Insert 8 (CRedBlackTree sample_nodes) 64 (CRequestLimiter_InsertCompareFunc 0 0 (\<lambda>_. 0)) False =
      Some (b, y, s') \<and> rb_rep 8 s' t' \<and> distinct (map (peer_of 0 0 (\<lambda>_. 0)) (inorder t')) \<and>
      rb_Find s' (CRequestLimiter_SearchCompareFunc 0 0 (\<lambda>_. 0)) 64 = Some p \<and> p \<noteq> NULL"
proof -
  have "fresh_node (CRedBlackTree sample_nodes) 64"
    by (simp add: fresh_node_def CRedBlackTree_def sample_nodes_def CRedBlackTreeNode_def)
  then show ?thesis
    using limiter_unique [OF rb_rep_empty, of 8 0 0 "\<lambda>_. 0" 64 sample_nodes] by (auto simp: CONTAINING_RECORD_def)
qed

section \<open>Removal\<close>

text \<open>
  C1. \<open>Remove\<close> of any node of the tree ends, whatever the colours and the place of the node: what
  stays is a red-black tree of the other nodes in their order with the counter one less, the node
  has no links left and no tree, so it may be inserted again, and memory outside the tree is not
  written.
\<close>

theorem remove_node:
  assumes "rb_rep T s t" and "lpDelNode \<in> set (inorder t)"
  shows "\<exists>s' t' m. rb_Remove s lpDelNode = Some s' \<and> rb_rep T s' t' \<and>
    inorder t' = remove1 lpDelNode (inorder t) \<and> rb_GetCount s' = rb_GetCount s - 1 \<and>
    rb_nodes s' lpDelNode = Some m \<and> node_free m \<and>
    (\<forall>y. y \<notin> set (inorder t) \<longrightarrow> rb_nodes s' y = rb_nodes s y)"
proof -
  obtain s' t' m where r: "rb_Remove s lpDelNode = Some s'" "rb_rep T s' t'"
      "inorder t' = remove1 lpDelNode (inorder t)" "rb_nodes s' lpDelNode = Some m" "node_free m"
      "\<forall>y. y \<notin> set (inorder t) \<longrightarrow> rb_nodes s' y = rb_nodes s y"
    using rb_Remove_rep [OF assms] by blast
  have "Suc (length (inorder t')) = length (inorder t)"
    using r(3) assms(2) length_pos_if_in_set [OF assms(2)] by (simp add: length_remove1)
  then have "rb_GetCount s = rb_GetCount s' + 1"
    using rb_GetCount_rep [OF assms(1)] rb_GetCount_rep [OF r(2)] by (metis add.commute of_nat_Suc)
  then show ?thesis
    using r by auto
qed

lemma remove_node_witness:
  "\<exists>s' t'. rb_Remove sample_rbt 32 = Some s' \<and> rb_rep 8 s' t' \<and> inorder t' = [16, 48] \<and> rb_GetCount s' = 2"
  using remove_node [OF sample_rep, of 32] by (auto simp: sample_inorder sample_rbt_def rb_GetCount_def)

text \<open>
  \<open>RemoveAll\<close> ends: the tree is empty, every node that was in it is free, and memory outside
  the tree is not written.
\<close>

theorem remove_all:
  assumes "rb_rep T s t"
  shows "\<exists>s'. rb_RemoveAll s = Some s' \<and> rb_rep T s' Lf \<and> rb_GetCount s' = 0 \<and> rb_GetFirst s' = Some NULL \<and>
    (\<forall>x \<in> set (inorder t). \<exists>m. rb_nodes s' x = Some m \<and> node_free m) \<and>
    (\<forall>y. y \<notin> set (inorder t) \<longrightarrow> rb_nodes s' y = rb_nodes s y)"
proof -
  obtain s' where s': "rb_RemoveAll s = Some s'" "rb_rep T s' Lf"
      "\<forall>x \<in> set (inorder t). \<exists>m. rb_nodes s' x = Some m \<and> node_free m"
      "\<forall>y. y \<notin> set (inorder t) \<longrightarrow> rb_nodes s' y = rb_nodes s y"
    using rb_RemoveAll_rep [OF assms] by blast
  then show ?thesis
    using rb_GetCount_rep [OF s'(2)] rb_GetFirst_rep [OF s'(2)] by auto
qed

lemma remove_all_witness: "\<exists>s'. rb_RemoveAll sample_rbt = Some s' \<and> rb_rep 8 s' Lf \<and> rb_GetCount s' = 0"
  using remove_all [OF sample_rep] by blast

section \<open>Searching\<close>

text \<open>
  \<open>Find\<close> over the connections of the IPC layer: for every handle value the result is the node
  of the connection at this address when the tree has it, and null otherwise.
\<close>

theorem find_connection:
  assumes "rb_rep T s t" and "sorted (map (conn_of off) (inorder t))"
  shows "\<exists>p. rb_Find s (CConnectionBase_SearchCompareFunc off) h = Some p \<and>
    (if h \<in> conn_of off ` set (inorder t) then p \<in> set (inorder t) \<and> conn_of off p = h else p = NULL)"
  by (rule connections.find_key [OF assms])

lemma find_connection_witness:
  "rb_Find sample_rbt (CConnectionBase_SearchCompareFunc 4) 44 = Some 48 \<and>
   rb_Find sample_rbt (CConnectionBase_SearchCompareFunc 4) 45 = Some NULL"
proof -
  have "sorted (map (conn_of 4) (inorder sample_tree))"
    by (simp add: sample_inorder conn_of_def CONTAINING_RECORD_def)
  then show ?thesis
    using find_connection [OF sample_rep, of 4 44] find_connection [OF sample_rep, of 4 45]
    by (auto simp: sample_inorder conn_of_def CONTAINING_RECORD_def)
qed

text \<open>
  \<open>GetHigher\<close> and \<open>GetLower\<close> are strict: they return the first node behind the key and the last
  node before it, or null, for any callback that is monotone along the tree.
\<close>

theorem higher_lower:
  assumes "rb_rep T s t" and "cmp_mono cmp key (inorder t)"
  shows "rb_GetHigher s cmp key = Some (hd_or (filter (\<lambda>y. cmp key y < 0) (inorder t)) NULL) \<and>
    rb_GetLower s cmp key = Some (last_or (filter (\<lambda>y. 0 < cmp key y) (inorder t)) NULL)"
  using rb_GetHigher_rep [OF assms] rb_GetLower_rep [OF assms] by simp

lemma higher_lower_witness:
  "rb_GetHigher sample_rbt (CConnectionBase_SearchCompareFunc 0) 32 = Some 48 \<and>
   rb_GetLower sample_rbt (CConnectionBase_SearchCompareFunc 0) 16 = Some NULL"
proof -
  have "sorted (map (conn_of 0) (inorder sample_tree))"
    by (simp add: sample_inorder conn_of_def CONTAINING_RECORD_def)
  from connections.srch_mono [OF this] show ?thesis
    using higher_lower [OF sample_rep, of "CConnectionBase_SearchCompareFunc 0"]
    by (simp add: sample_inorder CConnectionBase_SearchCompareFunc_def CONTAINING_RECORD_def)
qed

text \<open>
  \<open>GetCeiling\<close> and \<open>GetFloor\<close>: a node equal to the key when the tree has one, otherwise the
  first node behind the key (the last node before it), or null at the end of the tree. They never
  fall back to the other side, as the comments above them say.
\<close>

theorem ceiling_floor:
  assumes "rb_rep T s t" and "cmp_mono cmp key (inorder t)"
  shows "\<exists>c f. rb_GetCeiling s cmp key = Some c \<and> rb_GetFloor s cmp key = Some f \<and>
    (if \<exists>y \<in> set (inorder t). cmp key y = 0
     then c \<in> set (inorder t) \<and> cmp key c = 0 \<and> f \<in> set (inorder t) \<and> cmp key f = 0
     else c = hd_or (filter (\<lambda>y. cmp key y < 0) (inorder t)) NULL \<and>
          f = last_or (filter (\<lambda>y. 0 < cmp key y) (inorder t)) NULL)"
  using rb_GetCeiling_rep [OF assms] rb_GetFloor_rep [OF assms]
  by (cases "\<exists>y \<in> set (inorder t). cmp key y = 0") (simp_all only: if_True if_False, blast+)

lemma ceiling_floor_witness:
  "rb_GetCeiling sample_rbt (CConnectionBase_SearchCompareFunc 0) 50 = Some NULL \<and>
   rb_GetFloor sample_rbt (CConnectionBase_SearchCompareFunc 0) 50 = Some 48"
proof -
  have "sorted (map (conn_of 0) (inorder sample_tree))"
    by (simp add: sample_inorder conn_of_def CONTAINING_RECORD_def)
  from connections.srch_mono [OF this] show ?thesis
    using ceiling_floor [OF sample_rep, of "CConnectionBase_SearchCompareFunc 0" 50]
    by (simp add: sample_inorder CConnectionBase_SearchCompareFunc_def CONTAINING_RECORD_def)
qed

section \<open>Iteration\<close>

text \<open>
  \<open>Iterator\<close> visits the nodes in order and \<open>IteratorRev\<close> in reverse order, each node once, and
  both end.
\<close>

theorem iterate:
  assumes "rb_rep T s t"
  shows "do { (x, cur) \<leftarrow> rb_iter_Begin s; rb_collect (rb_iter_Next (rb_nodes s)) x cur } = Some (inorder t) \<and>
    do { (x, cur) \<leftarrow> rb_iterrev_Begin s; rb_collect (rb_iterrev_Next (rb_nodes s)) x cur } = Some (rev (inorder t))"
  using rb_GetFirst_rep [OF assms] rb_GetLast_rep [OF assms]
    rb_iter_Next_rep [OF assms, of "[]" "inorder t"] rb_iterrev_Next_rep [OF assms, of "inorder t" "[]"]
    rb_collect_forward [OF assms, of "[]" "inorder t"] rb_collect_backward [OF assms, of "inorder t" "[]"]
  by (simp add: rb_iter_Begin_def rb_iterrev_Begin_def)

lemma iterate_witness:
  "do { (x, cur) \<leftarrow> rb_iterrev_Begin sample_rbt; rb_collect (rb_iterrev_Next sample_nodes) x cur } = Some [48, 32, 16]"
  using iterate [OF sample_rep] by (simp add: sample_inorder) (simp add: sample_rbt_def)

text \<open>
  C40. A loop over \<open>Iterator\<close> may remove the nodes it is given: whatever nodes \<open>P\<close> chooses, the loop
  still visits every node of the tree once and in order, and leaves a red-black tree of the others.
\<close>

theorem iterate_and_remove:
  assumes "rb_rep T s t"
  shows "\<exists>s' t'. do { (x, cur) \<leftarrow> rb_iter_Begin s; rb_sweep P s x cur } = Some (inorder t, s') \<and>
    rb_rep T s' t' \<and> inorder t' = filter (\<lambda>x. \<not> P x) (inorder t)"
  using rb_GetFirst_rep [OF assms] rb_iter_Next_rep [OF assms, of "[]" "inorder t"]
    rb_sweep_rep [OF assms, of "[]" "inorder t" P]
  by (simp add: rb_iter_Begin_def)

lemma iterate_and_remove_witness:
  "\<exists>s' t'. do { (x, cur) \<leftarrow> rb_iter_Begin sample_rbt; rb_sweep (\<lambda>x. x \<noteq> 32) sample_rbt x cur } =
     Some ([16, 32, 48], s') \<and> rb_rep 8 s' t' \<and> inorder t' = [32]"
  using iterate_and_remove [OF sample_rep, of "\<lambda>x. x \<noteq> 32"] by (simp add: sample_inorder)

section \<open>The checker and the height\<close>

text \<open>
  No assertion of the debug checker \<open>CheckTree\<close> fails on a tree that the operations built: the
  parent links, the colours and the black counts of every path are as it demands.
\<close>

theorem check_tree_passes:
  assumes "rb_rep T s t"
  shows "CheckTree s = Some True"
  by (rule CheckTree_rep [OF assms])

lemma check_tree_passes_witness: "CheckTree sample_rbt = Some True"
  using check_tree_passes [OF sample_rep] .

lemma find_loop_path:
  assumes "zrep h0 T n s t fs"
  shows "\<exists>ns. length ns \<le> tree_height t \<and> set ns \<subseteq> set (inorder t) \<and>
    (\<forall>cmp'. (\<forall>y \<in> set ns. cmp' key y = cmp key y) \<longrightarrow>
       find_loop (rb_nodes s) cmp' key (topp t) = find_loop (rb_nodes s) cmp key (topp t))"
  using assms
proof (induction t arbitrary: fs)
  case (Nd l a c r)
  note z = Nd.prems
  let ?k = "if cmp key a < 0 then l else r"
  obtain ns where ns: "length ns \<le> tree_height ?k" "set ns \<subseteq> set (inorder ?k)"
      "\<forall>cmp'. (\<forall>y \<in> set ns. cmp' key y = cmp key y) \<longrightarrow>
         find_loop (rb_nodes s) cmp' key (topp ?k) = find_loop (rb_nodes s) cmp key (topp ?k)"
    using Nd.IH(1) [OF zrep_down(1) [OF z]] Nd.IH(2) [OF zrep_down(2) [OF z]] by (cases "cmp key a < 0") (simp_all only: if_True if_False, blast+)
  have "find_loop (rb_nodes s) cmp' key a = find_loop (rb_nodes s) cmp key a"
    if eq: "\<forall>y \<in> set (a # ns). cmp' key y = cmp key y" for cmp'
  proof -
    have "find_loop (rb_nodes s) cmp' key (topp ?k) = find_loop (rb_nodes s) cmp key (topp ?k)"
      using eq by (intro ns(3) [rule_format]) simp
    then show ?thesis
      using eq zrep_load [OF z] zrep_node(1) [OF z]
      by (subst (1 2) find_loop.simps) (cases "cmp key a < 0"; simp)
  qed
  moreover have "length (a # ns) \<le> tree_height (Nd l a c r)" "set (a # ns) \<subseteq> set (inorder (Nd l a c r))"
    using ns(1,2) by (cases "cmp key a < 0"; auto)+
  ultimately show ?case
    by (intro exI [of _ "a # ns"]) (simp only: topp.simps, blast)
qed (simp add: loops_NULL)

text \<open>
  \<open>Find\<close> is logarithmic: its result is settled by the answers of the callback on a list of
  nodes whose length is at most twice the binary logarithm of the number of nodes plus one.
\<close>

theorem find_logarithmic:
  assumes "rb_rep T s t"
  shows "\<exists>ns. 2 ^ ((length ns + 1) div 2) \<le> Suc (length (inorder t)) \<and> set ns \<subseteq> set (inorder t) \<and>
    (\<forall>cmp'. (\<forall>y \<in> set ns. cmp' key y = cmp key y) \<longrightarrow> rb_Find s cmp' key = rb_Find s cmp key)"
proof -
  obtain ns where ns: "length ns \<le> tree_height t" "set ns \<subseteq> set (inorder t)"
      "\<forall>cmp'. (\<forall>y \<in> set ns. cmp' key y = cmp key y) \<longrightarrow> rb_Find s cmp' key = rb_Find s cmp key"
    using find_loop_path [OF rb_rep_zrep [OF assms], of key cmp] rb_rep_root [OF assms]
    by (auto simp: rb_Find_def)
  have "(2::nat) ^ ((length ns + 1) div 2) \<le> 2 ^ ((tree_height t + 1) div 2)"
    using ns(1) by (intro power_increasing) (auto intro: div_le_mono)
  also have "\<dots> \<le> Suc (length (inorder t))"
    using height_bound [of t] assms by (simp add: rb_rep_def)
  finally show ?thesis
    using ns(2,3) by blast
qed

lemma find_logarithmic_witness:
  "\<exists>ns. 2 ^ ((length ns + 1) div 2) \<le> (4 :: nat) \<and>
     (\<forall>cmp'. (\<forall>y \<in> set ns. cmp' () y = 1) \<longrightarrow> rb_Find sample_rbt cmp' () = rb_Find sample_rbt (\<lambda>_ _. 1) ())"
proof -
  obtain ns where "2 ^ ((length ns + 1) div 2) \<le> Suc (length (inorder sample_tree))"
      "\<forall>cmp'. (\<forall>y \<in> set ns. cmp' () y = 1) \<longrightarrow> rb_Find sample_rbt cmp' () = rb_Find sample_rbt (\<lambda>_ _. 1) ()"
    using find_logarithmic [OF sample_rep, of "()" "\<lambda>_ _. 1"] by blast
  then show ?thesis
    unfolding sample_inorder by (intro exI [of _ ns] conjI) (simp, blast)
qed

end
