(* ===== verification/RequestLimiter.thy ===== *)
theory RequestLimiter
  imports RBTree_Clients
begin

text \<open>
  The connection limiter of \<open>CHttpServer\<close> (\<open>Source/Http/HttpServer.cpp\<close>): the limiter parts of
  \<open>OnSocketConnect\<close>, \<open>OnSocketDestroy\<close> and of the destructor, over the tree of limiters. The model
  shows a defect of the code: the constructor of a limiter does not store the peer address.
\<close>

section \<open>State\<close>

text \<open>
  \<open>rl_mem\<close> holds the \<open>SOCKADDR_INET\<close>s of limiters and requests, \<open>rl_nCount\<close> the connection
  counters of the live limiters, by the address of the limiter. \<open>off\<close> and \<open>sa\<close> are the offsets of
  \<open>cTreeNode\<close> and \<open>sAddr\<close> in a limiter, and \<open>T\<close> is the address of the tree.
\<close>

record limiter_sys =
  rl_mem :: mem
  rl_nCount :: "nat \<rightharpoonup> u32"
  rl_cTree :: rbt

datatype connect_result = C_OK | C_ACCESSDENIED | C_OUTOFMEMORY

text \<open>The constructor takes the address of the peer and leaves \<open>sAddr\<close> zeroed.\<close>

definition CRequestLimiter :: "nat \<Rightarrow> nat \<Rightarrow> limiter_sys \<Rightarrow> nat \<Rightarrow> nat \<Rightarrow> limiter_sys" where
  "CRequestLimiter off sa s a lpAddr =
     s\<lparr>rl_mem := fill (rl_mem s) (a + sa) 28 (\<lambda>_. 0),
       rl_nCount := (rl_nCount s)(a \<mapsto> 1),
       rl_cTree := (rl_cTree s)\<lparr>rb_nodes := (rb_nodes (rl_cTree s))(a + off \<mapsto> CRedBlackTreeNode)\<rparr>\<rparr>"

definition delete_limiter :: "nat \<Rightarrow> limiter_sys \<Rightarrow> nat \<Rightarrow> limiter_sys" where
  "delete_limiter off s a =
     s\<lparr>rl_nCount := (rl_nCount s)(a := None),
       rl_cTree := (rl_cTree s)\<lparr>rb_nodes := (rb_nodes (rl_cTree s))(a + off := None)\<rparr>\<rparr>"

section \<open>Connecting\<close>

definition count_in :: "limiter_sys \<Rightarrow> nat \<Rightarrow> u32 \<Rightarrow> (connect_result \<times> limiter_sys) option" where
  "count_in s lpLimiter dwMax = do {
     n \<leftarrow> load (rl_nCount s) lpLimiter;
     Some (if n + 1 > dwMax then C_ACCESSDENIED else C_OK, s\<lparr>rl_nCount := (rl_nCount s)(lpLimiter \<mapsto> n + 1)\<rparr>)
   }"

text \<open>
  The limiter part of \<open>OnSocketConnect\<close> for a peer whose address is at \<open>lpAddr\<close> and a limit other
  than the default; \<open>new\<close> is the result of \<open>new CRequestLimiter\<close>. On a refused insertion the code
  takes the limiter from \<open>lpNode\<close>, which is null there, not from \<open>lpMatchingNode\<close>.
\<close>

definition OnSocketConnect ::
    "nat \<Rightarrow> nat \<Rightarrow> ptr \<Rightarrow> limiter_sys \<Rightarrow> nat \<Rightarrow> nat option \<Rightarrow> u32 \<Rightarrow> (connect_result \<times> limiter_sys) option" where
  "OnSocketConnect off sa T s lpAddr new dwMax = do {
     lpNode \<leftarrow> rb_Find (rl_cTree s) (CRequestLimiter_SearchCompareFunc off sa (rl_mem s)) lpAddr;
     if lpNode \<noteq> NULL then count_in s (CONTAINING_RECORD off lpNode) dwMax
     else case new of
       None \<Rightarrow> Some (C_OUTOFMEMORY, s)
     | Some a \<Rightarrow> do {
         let s = CRequestLimiter off sa s a lpAddr;
         (ok, lpMatchingNode, tree) \<leftarrow>
           rb_Insert T (rl_cTree s) (a + off) (CRequestLimiter_InsertCompareFunc off sa (rl_mem s)) False;
         let s = s\<lparr>rl_cTree := tree\<rparr>;
         if \<not> ok then count_in (delete_limiter off s a) (CONTAINING_RECORD off lpNode) dwMax
         else Some (C_OK, s)
       }
   }"

section \<open>Disconnecting\<close>

text \<open>The limiter part of \<open>OnSocketDestroy\<close> for a request whose address is set.\<close>

definition OnSocketDestroy :: "nat \<Rightarrow> nat \<Rightarrow> limiter_sys \<Rightarrow> nat \<Rightarrow> limiter_sys option" where
  "OnSocketDestroy off sa s lpAddr = do {
     lpNode \<leftarrow> rb_Find (rl_cTree s) (CRequestLimiter_SearchCompareFunc off sa (rl_mem s)) lpAddr;
     if lpNode = NULL then Some s
     else do {
       let lpLimiter = CONTAINING_RECORD off lpNode;
       n \<leftarrow> load (rl_nCount s) lpLimiter;
       let s = s\<lparr>rl_nCount := (rl_nCount s)(lpLimiter \<mapsto> n - 1)\<rparr>;
       if n - 1 \<noteq> 0 then Some s
       else do {
         lpNode \<leftarrow> rb_Find (rl_cTree s) (CRequestLimiter_SearchCompareFunc off sa (rl_mem s)) lpAddr;
         if lpNode = NULL then Some s
         else do {
           let lpLimiter = CONTAINING_RECORD off lpNode;
           n \<leftarrow> load (rl_nCount s) lpLimiter;
           if n \<noteq> 0 then Some s
           else do {
             tree \<leftarrow> rb_Remove (rl_cTree s) lpNode;
             Some (delete_limiter off (s\<lparr>rl_cTree := tree\<rparr>) lpLimiter)
           }
         }
       }
     }
   }"

text \<open>The loop of the destructor of the server.\<close>

partial_function (option) remove_limiters :: "nat \<Rightarrow> limiter_sys \<Rightarrow> limiter_sys option" where
  "remove_limiters off s = do {
     lpNode \<leftarrow> rb_GetFirst (rl_cTree s);
     if lpNode = NULL then Some s
     else do {
       tree \<leftarrow> rb_Remove (rl_cTree s) lpNode;
       remove_limiters off (delete_limiter off (s\<lparr>rl_cTree := tree\<rparr>) (CONTAINING_RECORD off lpNode))
     }
   }"

section \<open>The second connection\<close>

lemma bytes_fill: "n \<le> 28 \<Longrightarrow> bytes (fill m d 28 f) d n = map f [0..<n]"
  by (simp add: bytes_def fill_def)

lemma bytes_fill_other: "d + 28 \<le> p \<or> p + n \<le> d \<Longrightarrow> bytes (fill m d 28 f) p n = bytes m p n"
  by (auto simp: bytes_def fill_def)

lemma zero_list: "map (\<lambda>_. 0) [0..<n] = replicate n 0"
  by (simp add: map_replicate_const)

text \<open>The server right after its first limited connection.\<close>

lemma connect_first:
  assumes "a \<noteq> 0"
  shows "OnSocketConnect off sa T \<lparr>rl_mem = m, rl_nCount = c, rl_cTree = CRedBlackTree h\<rparr> lpAddr (Some a) dwMax =
    Some (C_OK, \<lparr>rl_mem = fill m (a + sa) 28 (\<lambda>_. 0), rl_nCount = c(a \<mapsto> 1),
      rl_cTree = \<lparr>rb_nodes = h(a + off \<mapsto> \<lparr>rb_red = False, rb_tree = T, rb_left = NULL, rb_right = NULL, rb_parent = NULL\<rparr>),
        rb_root = a + off, rb_count = 1\<rparr>\<rparr>)"
  using assms by (simp add: OnSocketConnect_def CRequestLimiter_def CRedBlackTree_def CRedBlackTreeNode_def rb_Insert_def
      rb_Find_def find_loop.simps store_simps)


lemma bytes_zero_twice:
  "bytes (fill (fill m d 28 (\<lambda>_. 0)) e 28 (\<lambda>_. 0)) d 28 = replicate 28 0"
  unfolding zero_list [symmetric] by (auto simp: bytes_def fill_def)

lemma peer_cmp_zero:
  "CRequestLimiter_InsertCompareFunc off sa (fill (fill m (a + sa) 28 (\<lambda>_. 0)) (b + sa) 28 (\<lambda>_. 0)) (b + off) (a + off) = 0"
  by (simp add: CRequestLimiter_InsertCompareFunc_def CONTAINING_RECORD_def MxMemCompare_sign bytes_zero_twice
      bytes_fill zero_list)

text \<open>
  C12. With a limit on the connections per address the server faults at its second connection. The
  first one makes a limiter, whose address stays zero; for a second peer, at any other address,
  \<open>Find\<close> finds nothing, the new limiter is zero too so \<open>Insert\<close> refuses it, and the code then counts
  the connection in the limiter that contains the null node: the model has no result.
\<close>

theorem second_connection_faults:
  assumes "a \<noteq> 0" and "b \<noteq> 0" and "b \<noteq> a"
    and "lpAddr + 28 \<le> a + sa \<or> a + sa + 28 \<le> lpAddr" and "bytes m lpAddr 28 \<noteq> replicate 28 0"
  shows "\<exists>s. OnSocketConnect off sa T \<lparr>rl_mem = m, rl_nCount = c, rl_cTree = CRedBlackTree h\<rparr> lpAddr0 (Some a) dwMax =
      Some (C_OK, s) \<and> OnSocketConnect off sa T s lpAddr (Some b) dwMax = None"
proof -
  let ?node = "\<lparr>rb_red = False, rb_tree = T, rb_left = NULL, rb_right = NULL, rb_parent = NULL\<rparr>"
  let ?tree = "\<lparr>rb_nodes = h(a + off \<mapsto> ?node), rb_root = a + off, rb_count = 1\<rparr>"
  let ?m = "fill m (a + sa) 28 (\<lambda>_. 0)"
  let ?s = "\<lparr>rl_mem = ?m, rl_nCount = c(a \<mapsto> 1), rl_cTree = ?tree\<rparr>"
  have "bytes ?m lpAddr 28 = bytes m lpAddr 28"
    using assms(4) by (intro bytes_fill_other) auto
  then have "CRequestLimiter_SearchCompareFunc off sa ?m lpAddr (a + off) \<noteq> 0"
    using assms(5) by (simp add: CRequestLimiter_SearchCompareFunc_def CONTAINING_RECORD_def MxMemCompare_sign bytes_fill zero_list)
  then have find: "rb_Find ?tree (CRequestLimiter_SearchCompareFunc off sa ?m) lpAddr = Some NULL"
    using assms(1) by (simp add: rb_Find_def find_loop.simps store_simps)
  have "OnSocketConnect off sa T ?s lpAddr (Some b) dwMax = None"
    using assms(1-3) peer_cmp_zero [of off sa m a b]
    by (simp add: OnSocketConnect_def find CRequestLimiter_def rb_Insert_def insert_search.simps count_in_def CONTAINING_RECORD_def)
  then show ?thesis
    using connect_first [OF assms(1)] by blast
qed

lemma second_connection_faults_witness:
  "\<exists>s. OnSocketConnect 40 0 8 \<lparr>rl_mem = (\<lambda>x. if x = 3000 then 2 else 0), rl_nCount = Map.empty, rl_cTree = CRedBlackTree Map.empty\<rparr>
      2000 (Some 4096) 10 = Some (C_OK, s) \<and> OnSocketConnect 40 0 8 s 3000 (Some 8192) 10 = None"
proof -
  have "bytes (\<lambda>x. if x = 3000 then 2 else 0) 3000 28 ! 0 \<noteq> (replicate 28 0 :: u8 list) ! 0"
    by (simp add: bytes_def)
  then have "bytes (\<lambda>x. if x = 3000 then 2 else 0) 3000 28 \<noteq> replicate 28 0"
    by metis
  then show ?thesis
    using second_connection_faults [of 4096 8192 3000 0 "\<lambda>x. if x = 3000 then 2 else 0" 40 8 "Map.empty" "Map.empty" 2000 10]
    by simp
qed
end
