(* ===== verification/ArrayList.thy ===== *)
theory ArrayList
  imports MX_Prelude
begin

text \<open>
  \<open>TArrayList\<close> of \<open>Include/ArrayList.h\<close>: the growable array with its sorted insertion and binary
  search. Sizes and indices are 64-bit words, so the rounding and the multiplication of \<open>SetSize\<close>
  wrap as in the code. The allocator is a parameter that says which requests succeed; an access
  outside the block it returned is \<open>None\<close>. \<open>OnDeleteItem\<close> is virtual: each operation also returns
  the items it passed to it, in order. Byte counts of moves inside the block are counted in
  elements.
\<close>

section \<open>State\<close>

record 'a tenv =
  te_sizeof :: u64
  te_granularity :: u64
  te_zero :: 'a
  te_malloc :: "u64 \<Rightarrow> bool"

text \<open>\<open>al_items\<close> is the block \<open>lpItems\<close> points to, empty for a null pointer.\<close>

record 'a arr =
  al_items :: "'a list"
  al_count :: u64
  al_size :: u64

definition TArrayList :: "'a arr" where
  "TArrayList = \<lparr>al_items = [], al_count = 0, al_size = 0\<rparr>"

section \<open>Accesses to the block\<close>

definition item_at :: "'a list \<Rightarrow> u64 \<Rightarrow> 'a option" where
  "item_at xs i = (if unat i < length xs then Some (xs ! unat i) else None)"

definition set_item :: "'a list \<Rightarrow> u64 \<Rightarrow> 'a \<Rightarrow> 'a list option" where
  "set_item xs i x = (if unat i < length xs then Some (xs[unat i := x]) else None)"

definition items_from :: "'a list \<Rightarrow> u64 \<Rightarrow> u64 \<Rightarrow> 'a list option" where
  "items_from xs i n = (if unat i + unat n \<le> length xs then Some (take (unat n) (drop (unat i) xs)) else None)"

definition move_items :: "'a list \<Rightarrow> u64 \<Rightarrow> u64 \<Rightarrow> u64 \<Rightarrow> 'a list option" where
  "move_items xs d s n =
     (if n = 0 then Some xs
      else if unat d + unat n \<le> length xs \<and> unat s + unat n \<le> length xs
      then Some (take (unat d) xs @ take (unat n) (drop (unat s) xs) @ drop (unat d + unat n) xs)
      else None)"

definition clear_items :: "'a \<Rightarrow> 'a list \<Rightarrow> u64 \<Rightarrow> u64 \<Rightarrow> 'a list option" where
  "clear_items z xs i n =
     (if n = 0 then Some xs
      else if unat i + unat n \<le> length xs
      then Some (take (unat i) xs @ replicate (unat n) z @ drop (unat i + unat n) xs)
      else None)"

section \<open>Size and count\<close>

definition al_GetCount :: "'a arr \<Rightarrow> u64" where
  "al_GetCount s = al_count s"

definition al_GetSize :: "'a arr \<Rightarrow> u64" where
  "al_GetSize s = al_size s"

definition al_IsEmpty :: "'a arr \<Rightarrow> bool" where
  "al_IsEmpty s \<longleftrightarrow> al_count s = 0"

text \<open>
  The new block has room for as many elements as fit the bytes that were asked for, which are fewer
  than \<open>_nSize\<close> when the product wraps.
\<close>

definition al_SetSize :: "'a tenv \<Rightarrow> 'a arr \<Rightarrow> u64 \<Rightarrow> bool \<Rightarrow> (bool \<times> 'a arr \<times> 'a list) option" where
  "al_SetSize e s nSize bForceRealloc =
     (if nSize \<noteq> al_size s \<and> (nSize > al_size s \<or> bForceRealloc) then
        let g = te_granularity e;
            n = (if nSize > 0 \<and> al_size s > 0 \<and> \<not> bForceRealloc then (nSize + g - 1) div g * g else nSize);
            room = unat (n * te_sizeof e) div unat (te_sizeof e)
        in
        if nSize > 0 \<and> \<not> te_malloc e (n * te_sizeof e) then Some (False, s, [])
        else do {
          dead \<leftarrow> (if n < al_count s then items_from (al_items s) n (al_count s - n) else Some []);
          new \<leftarrow>
            (if n > 0 then do {
               old \<leftarrow> items_from (al_items s) 0 (if al_count s \<le> n then al_count s else n);
               if room < unat n then None
               else Some (old @ replicate (unat n - length old) (te_zero e))
             }
             else Some []);
          Some (True, \<lparr>al_items = new, al_count = (if al_count s > n then n else al_count s), al_size = n\<rparr>, dead)
        }
      else Some (True, s, []))"

definition al_SetCount :: "'a tenv \<Rightarrow> 'a arr \<Rightarrow> u64 \<Rightarrow> (bool \<times> 'a arr \<times> 'a list) option" where
  "al_SetCount e s n = do {
     (ok, s, dead) \<leftarrow> (if n > al_count s then al_SetSize e s n False else Some (True, s, []));
     if \<not> ok then Some (False, s, dead)
     else do {
       dead' \<leftarrow> (if n < al_count s then items_from (al_items s) n (al_count s - n) else Some []);
       Some (True, s\<lparr>al_count := n\<rparr>, dead @ dead')
     }
   }"

section \<open>Elements\<close>

definition al_SetElementAt :: "'a arr \<Rightarrow> 'a \<Rightarrow> u64 \<Rightarrow> (bool \<times> 'a arr) option" where
  "al_SetElementAt s elem nIndex =
     (if nIndex \<ge> al_count s then Some (False, s)
      else do { xs \<leftarrow> set_item (al_items s) nIndex elem; Some (True, s\<lparr>al_items := xs\<rparr>) })"

definition al_InsertElementAt :: "'a tenv \<Rightarrow> 'a arr \<Rightarrow> 'a \<Rightarrow> u64 \<Rightarrow> (bool \<times> 'a arr \<times> 'a list) option" where
  "al_InsertElementAt e s elem nIndex =
     (let nIndex = (if nIndex \<ge> al_count s then al_count s else nIndex) in do {
        (ok, s, dead) \<leftarrow> al_SetSize e s (al_count s + 1) False;
        if \<not> ok then Some (False, s, dead)
        else do {
          xs \<leftarrow> move_items (al_items s) (nIndex + 1) nIndex (al_count s - nIndex);
          xs \<leftarrow> set_item xs nIndex elem;
          Some (True, s\<lparr>al_items := xs, al_count := al_count s + 1\<rparr>, dead)
        }
      })"

definition al_AddElement :: "'a tenv \<Rightarrow> 'a arr \<Rightarrow> 'a \<Rightarrow> (bool \<times> 'a arr \<times> 'a list) option" where
  "al_AddElement e s elem = al_InsertElementAt e s elem (-1)"

definition al_GetElementAt :: "'a arr \<Rightarrow> u64 \<Rightarrow> 'a option" where
  "al_GetElementAt s nIndex = item_at (al_items s) nIndex"

definition al_GetLastElement :: "'a tenv \<Rightarrow> 'a arr \<Rightarrow> 'a option" where
  "al_GetLastElement e s = (if al_count s > 0 then al_GetElementAt s (al_count s - 1) else Some (te_zero e))"

definition al_RemoveElementAt :: "'a arr \<Rightarrow> u64 \<Rightarrow> u64 \<Rightarrow> bool \<Rightarrow> (bool \<times> 'a arr \<times> 'a list) option" where
  "al_RemoveElementAt s nIndex nItemsCount bDoFinalize =
     (if nIndex \<ge> al_count s \<or> nItemsCount = 0 \<or> nIndex + nItemsCount < nIndex then Some (False, s, [])
      else let n = (if nIndex + nItemsCount > al_count s then al_count s - nIndex else nItemsCount);
               cnt = al_count s - n in do {
        dead \<leftarrow> (if bDoFinalize then items_from (al_items s) nIndex n else Some []);
        xs \<leftarrow> move_items (al_items s) nIndex (nIndex + n) (cnt - nIndex);
        Some (True, s\<lparr>al_items := xs, al_count := cnt\<rparr>, dead)
      })"

definition al_RemoveAllElements :: "'a arr \<Rightarrow> ('a arr \<times> 'a list) option" where
  "al_RemoveAllElements s = do {
     dead \<leftarrow> items_from (al_items s) 0 (al_count s);
     Some (TArrayList, dead)
   }"

definition al_Attach :: "'a arr \<Rightarrow> 'a list \<Rightarrow> u64 \<Rightarrow> ('a arr \<times> 'a list) option" where
  "al_Attach s lpNewList nCount = do {
     (_, dead) \<leftarrow> al_RemoveAllElements s;
     let n = (if lpNewList \<noteq> [] then nCount else 0);
     Some (\<lparr>al_items = lpNewList, al_count = n, al_size = n\<rparr>, dead)
   }"

definition al_Detach :: "'a arr \<Rightarrow> 'a list \<times> 'a arr" where
  "al_Detach s = (al_items s, TArrayList)"

definition al_Transfer :: "'a arr \<Rightarrow> 'a arr \<Rightarrow> ('a arr \<times> 'a arr \<times> 'a list) option" where
  "al_Transfer s src =
     (let n = al_GetCount src; (block, src) = al_Detach src in do {
        (s, dead) \<leftarrow> al_Attach s block n;
        Some (s, src, dead)
      })"

text \<open>\<open>ReserveBlock\<close> and \<open>PopBlock\<close> return the index of the block, \<open>None\<close> in place of a null pointer.\<close>

definition al_ReserveBlock :: "'a tenv \<Rightarrow> 'a arr \<Rightarrow> u64 \<Rightarrow> u64 \<Rightarrow> (u64 option \<times> 'a arr \<times> 'a list) option" where
  "al_ReserveBlock e s nItemsCount nIndex = do {
     (ok, s, dead) \<leftarrow> al_SetSize e s (al_count s + nItemsCount) False;
     if \<not> ok then Some (None, s, dead)
     else do {
       let i = (if nIndex > al_count s then al_count s else nIndex);
       xs \<leftarrow> move_items (al_items s) (i + nItemsCount) i (al_count s - i);
       xs \<leftarrow> clear_items (te_zero e) xs i nItemsCount;
       Some (Some i, s\<lparr>al_items := xs, al_count := al_count s + nItemsCount\<rparr>, dead)
     }
   }"

definition al_PopBlock :: "'a arr \<Rightarrow> u64 \<Rightarrow> u64 option \<times> 'a arr" where
  "al_PopBlock s nItemsCount =
     (if nItemsCount > al_count s then (None, s)
      else (Some (al_count s - nItemsCount), s\<lparr>al_count := al_count s - nItemsCount\<rparr>))"

section \<open>Searching\<close>

function index_loop :: "'a list \<Rightarrow> u64 \<Rightarrow> 'a \<Rightarrow> u64 \<Rightarrow> u64 option" where
  "index_loop xs cnt elem i =
     (if i < cnt then do { x \<leftarrow> item_at xs i; if elem = x then Some i else index_loop xs cnt elem (i + 1) }
      else Some (-1))"
  by auto

termination
proof (relation "measure (\<lambda>(xs, cnt, elem, i). unat cnt - unat i)")
  fix xs :: "'a list" and cnt i :: u64 and elem x :: 'a
  assume "i < cnt"
  then have "unat (i + 1) = Suc (unat i)"
    by (rule unat_inc)
  then show "((xs, cnt, elem, i + 1), (xs, cnt, elem, i)) \<in> measure (\<lambda>(xs, cnt, elem, i). unat cnt - unat i)"
    using \<open>i < cnt\<close> by (simp add: word_less_nat_alt)
qed simp

declare index_loop.simps [simp del]

definition al_GetIndexOf :: "'a arr \<Rightarrow> 'a \<Rightarrow> u64 \<Rightarrow> u64 option" where
  "al_GetIndexOf s elem nStartIndex = index_loop (al_items s) (al_count s) elem nStartIndex"

definition al_Contains :: "'a arr \<Rightarrow> 'a \<Rightarrow> bool option" where
  "al_Contains s elem = map_option (\<lambda>i. i \<noteq> -1) (al_GetIndexOf s elem 0)"

lemma half_word: "unat (drop_bit 1 (n :: u64)) = unat n div 2"
  by (subst unat_drop_bit_eq) (simp add: drop_bit_eq_div)

lemma mid_bounds:
  assumes "(lo :: u64) < hi"
  shows "unat (lo + drop_bit 1 (hi - lo)) = unat lo + (unat hi - unat lo) div 2"
    and "lo + drop_bit 1 (hi - lo) < hi"
proof -
  have "unat (drop_bit 1 (hi - lo)) = (unat hi - unat lo) div 2"
    unfolding half_word using assms by (simp add: unat_sub_le)
  moreover have "unat lo + (unat hi - unat lo) div 2 < unat hi"
    using assms by (simp add: word_less_nat_alt)
  moreover have "unat hi < 2 ^ 64"
    using unsigned_less [of hi] by simp
  ultimately show "unat (lo + drop_bit 1 (hi - lo)) = unat lo + (unat hi - unat lo) div 2"
    by (subst unat_add_small) auto
  then show "lo + drop_bit 1 (hi - lo) < hi"
    using \<open>unat lo + (unat hi - unat lo) div 2 < unat hi\<close> by (simp add: word_less_nat_alt)
qed

function sorted_pos :: "('a \<Rightarrow> int) \<Rightarrow> 'a list \<Rightarrow> u64 \<Rightarrow> u64 \<Rightarrow> u64 option" where
  "sorted_pos cmp xs nLow nHigh =
     (if nLow < nHigh then do {
        let nMid = nLow + drop_bit 1 (nHigh - nLow);
        x \<leftarrow> item_at xs nMid;
        if cmp x > 0 then sorted_pos cmp xs (nMid + 1) nHigh else sorted_pos cmp xs nLow nMid
      }
      else Some nLow)"
  by auto

termination
proof (relation "measure (\<lambda>(cmp, xs, lo, hi). unat hi - unat lo)")
  fix cmp :: "'a \<Rightarrow> int" and xs :: "'a list" and lo hi mid :: u64
  assume "lo < hi" and mid: "mid = lo + drop_bit 1 (hi - lo)"
  note m = mid_bounds [OF \<open>lo < hi\<close>, folded mid]
  have "unat (mid + 1) = Suc (unat mid)"
    by (rule unat_inc [OF m(2)])
  then show "((cmp, xs, mid + 1, hi), (cmp, xs, lo, hi)) \<in> measure (\<lambda>(cmp, xs, lo, hi). unat hi - unat lo)"
    using m \<open>lo < hi\<close> unfolding word_less_nat_alt in_measure prod.case by linarith
  show "((cmp, xs, lo, mid), (cmp, xs, lo, hi)) \<in> measure (\<lambda>(cmp, xs, lo, hi). unat hi - unat lo)"
    using m \<open>lo < hi\<close> by (simp add: word_less_nat_alt)
qed simp

declare sorted_pos.simps [simp del]

text \<open>The result holds what \<open>SortedInsert\<close> returns, \<open>*lpbAlreadyOnList\<close>, the list and the deleted items.\<close>

definition al_SortedInsert ::
    "'a tenv \<Rightarrow> 'a arr \<Rightarrow> 'a \<Rightarrow> ('a \<Rightarrow> 'a \<Rightarrow> int) option \<Rightarrow> bool \<Rightarrow> (bool \<times> bool \<times> 'a arr \<times> 'a list) option" where
  "al_SortedInsert e s elem lpCompareFunc bDontInsertDuplicates =
     (case lpCompareFunc of
        None \<Rightarrow> Some (False, False, s, [])
      | Some cmp \<Rightarrow> do {
          nLow \<leftarrow> sorted_pos (cmp elem) (al_items s) 0 (al_count s);
          dup \<leftarrow> (if bDontInsertDuplicates \<and> nLow < al_count s
                 then map_option (\<lambda>x. cmp elem x = 0) (item_at (al_items s) nLow) else Some False);
          if dup then Some (True, True, s, [])
          else do {
            (ok, s, dead) \<leftarrow> al_InsertElementAt e s elem nLow;
            Some (ok, False, s, dead)
          }
        })"

lemma half_pred: "0 < (n :: u64) \<Longrightarrow> unat (drop_bit 1 (n - 1)) = (unat n - 1) div 2"
proof -
  assume "0 < n"
  then have "1 \<le> n"
    by (simp add: word_le_nat_alt word_less_nat_alt)
  then show ?thesis
    unfolding half_word by (simp add: unat_sub_le)
qed

function search_loop :: "('a \<Rightarrow> int) \<Rightarrow> 'a list \<Rightarrow> u64 \<Rightarrow> u64 \<Rightarrow> u64 option" where
  "search_loop cmp xs nBase n =
     (if n > 0 then do {
        let nMid = nBase + drop_bit 1 n;
        x \<leftarrow> item_at xs nMid;
        if cmp x = 0 then Some nMid
        else if cmp x > 0 then search_loop cmp xs (nMid + 1) (drop_bit 1 (n - 1))
        else search_loop cmp xs nBase (drop_bit 1 n)
      }
      else Some (-1))"
  by auto

termination
proof (relation "measure (\<lambda>(cmp, xs, base, n). unat n)")
  fix cmp :: "'a \<Rightarrow> int" and xs :: "'a list" and base n mid :: u64
  assume "0 < n"
  then show "((cmp, xs, mid + 1, drop_bit 1 (n - 1)), (cmp, xs, base, n)) \<in> measure (\<lambda>(cmp, xs, base, n). unat n)"
    using half_pred [of n] by (simp only: in_measure prod.case word_less_nat_alt unat_0)
  show "((cmp, xs, base, drop_bit 1 n), (cmp, xs, base, n)) \<in> measure (\<lambda>(cmp, xs, base, n). unat n)"
    using \<open>0 < n\<close> half_word [of n] by (simp only: in_measure prod.case word_less_nat_alt unat_0)
qed simp

declare search_loop.simps [simp del]

definition al_BinarySearch :: "'a arr \<Rightarrow> 'k \<Rightarrow> ('k \<Rightarrow> 'a \<Rightarrow> int) option \<Rightarrow> u64 option" where
  "al_BinarySearch s key lpSearchFunc =
     (case lpSearchFunc of
        None \<Rightarrow> Some (-1)
      | Some cmp \<Rightarrow> search_loop (cmp key) (al_items s) 0 (al_count s))"

text \<open>\<open>BinarySearchPtr\<close>: the item, in place of the pointer to it.\<close>

definition al_BinarySearchPtr :: "'a arr \<Rightarrow> 'k \<Rightarrow> ('k \<Rightarrow> 'a \<Rightarrow> int) option \<Rightarrow> 'a option option" where
  "al_BinarySearchPtr s key lpSearchFunc = do {
     nIndex \<leftarrow> al_BinarySearch s key lpSearchFunc;
     if nIndex \<noteq> -1 then map_option Some (al_GetElementAt s nIndex) else Some None
   }"

text \<open>
  \<open>TArrayList4Structs\<close> copies its items instead of assigning them; its operations differ from the
  ones above in the null tests of \<open>SortedInsert\<close> and \<open>BinarySearch\<close> and in \<open>PopBlock\<close>.
\<close>

definition al4s_PopBlock :: "'a arr \<Rightarrow> u64 \<Rightarrow> u64 \<times> 'a arr" where
  "al4s_PopBlock s nItemsCount =
     (let n = (if nItemsCount > al_count s then al_count s else nItemsCount) in
      (al_count s - n, s\<lparr>al_count := al_count s - n\<rparr>))"


section \<open>The sequence an array holds\<close>

definition arr_rep :: "'a arr \<Rightarrow> 'a list \<Rightarrow> bool" where
  "arr_rep s xs \<longleftrightarrow> length (al_items s) = unat (al_size s) \<and> unat (al_count s) = length xs \<and>
     length xs \<le> length (al_items s) \<and> take (length xs) (al_items s) = xs"

definition env_ok :: "'a tenv \<Rightarrow> bool" where
  "env_ok e \<longleftrightarrow> 0 < te_sizeof e \<and> 0 < te_granularity e"

text \<open>A request for \<open>n\<close> elements whose rounded size in bytes does not wrap.\<close>

definition fits :: "'a tenv \<Rightarrow> nat \<Rightarrow> bool" where
  "fits e n \<longleftrightarrow> (n + unat (te_granularity e)) * unat (te_sizeof e) < 2 ^ 64"

lemma fits_mono: "fits e n \<Longrightarrow> m \<le> n \<Longrightarrow> fits e m"
  unfolding fits_def by (meson add_le_mono1 le_less_trans mult_le_mono1)

lemma arr_rep_empty: "arr_rep TArrayList []"
  by (simp add: arr_rep_def TArrayList_def)

lemma arr_rep_split: "arr_rep s xs \<Longrightarrow> al_items s = xs @ drop (length xs) (al_items s)"
  unfolding arr_rep_def by (metis append_take_drop_id)

lemma arr_repI:
  "al_items s = xs @ zs \<Longrightarrow> unat (al_count s) = length xs \<Longrightarrow> length xs + length zs = unat (al_size s) \<Longrightarrow> arr_rep s xs"
  by (simp add: arr_rep_def)

lemma round_up:
  assumes "env_ok e" and "fits e (unat n)" and "0 < n"
  defines "g \<equiv> te_granularity e"
  shows "unat n \<le> unat ((n + g - 1) div g * g)" and "unat ((n + g - 1) div g * g) < unat n + unat g"
proof -
  let ?n = "unat n" and ?g = "unat g"
  have sz: "1 \<le> unat (te_sizeof e)" and g: "1 \<le> ?g" and n: "1 \<le> ?n"
    using assms(1,3) by (simp_all add: env_ok_def g_def word_less_nat_alt Suc_le_eq)
  have "?n + ?g \<le> (?n + ?g) * unat (te_sizeof e)"
    using sz by simp
  also have "\<dots> < 2 ^ LENGTH(64)"
    using assms(2) by (simp add: fits_def g_def)
  finally have small: "?n + ?g < 2 ^ LENGTH(64)" .
  have sum: "unat (n + g - 1) = ?n + ?g - 1"
  proof -
    have "unat (n + g) = ?n + ?g"
      by (rule unat_add_small [OF small])
    moreover have "1 \<le> n + g"
      using calculation g by (simp add: word_le_nat_alt)
    ultimately show ?thesis
      by (simp add: unat_sub_le)
  qed
  have q: "(?n + ?g - 1) div ?g * ?g \<le> ?n + ?g - 1"
    by (metis div_mult_mod_eq le_add1)
  have "unat ((n + g - 1) div g * g) = (?n + ?g - 1) div ?g * ?g"
  proof -
    have "unat ((n + g - 1) div g) = (?n + ?g - 1) div ?g"
      by (simp add: unat_div sum)
    moreover have "(?n + ?g - 1) div ?g * ?g < 2 ^ LENGTH(64)"
      using q small by linarith
    ultimately show ?thesis
      by (subst unat_mult_small) simp_all
  qed
  moreover have "?n \<le> (?n + ?g - 1) div ?g * ?g"
  proof -
    have "?n + ?g - 1 < Suc ((?n + ?g - 1) div ?g) * ?g"
      using g by (metis dividend_less_div_times less_le_trans mult_Suc zero_less_one)
    then show ?thesis
      by simp
  qed
  ultimately show "?n \<le> unat ((n + g - 1) div g * g)" "unat ((n + g - 1) div g * g) < ?n + ?g"
    using q g n by linarith+
qed

text \<open>Growing keeps the elements, or fails and keeps everything.\<close>

lemma al_SetSize_grow:
  assumes env: "env_ok e" and rep: "arr_rep s xs" and fit: "fits e (unat n)"
  shows "\<exists>ok s'. al_SetSize e s n False = Some (ok, s', []) \<and>
    (if ok then arr_rep s' xs \<and> al_count s' = al_count s \<and> unat n \<le> length (al_items s') else s' = s) \<and>
    ((\<forall>b. te_malloc e b) \<longrightarrow> ok)"
proof (cases "n > al_size s")
  case False
  then have "unat n \<le> length (al_items s)"
    using rep by (simp add: arr_rep_def word_le_nat_alt not_less)
  then show ?thesis
    using False rep by (intro exI [of _ True]) (simp add: al_SetSize_def)
next
  case True
  define g m where "g = te_granularity e" and "m = (if al_size s > 0 then (n + g - 1) div g * g else n)"
  have n0: "0 < n"
    using True by (metis not_less_zero word_less_nat_alt word_neq_0_conv unat_0)
  have m: "unat n \<le> unat m" "unat m \<le> unat n + unat g"
    using round_up [OF env fit n0] by (auto simp: m_def g_def)
  have big: "unat m * unat (te_sizeof e) < 2 ^ LENGTH(64)"
  proof -
    have "unat m * unat (te_sizeof e) \<le> (unat n + unat g) * unat (te_sizeof e)"
      using m(2) by (rule mult_le_mono1)
    also have "\<dots> < 2 ^ LENGTH(64)"
      using fit by (simp add: fits_def g_def)
    finally show ?thesis .
  qed
  then have "unat (m * te_sizeof e) div unat (te_sizeof e) = unat m"
    using env by (subst unat_mult_small) (simp_all add: env_ok_def word_less_nat_alt)
  moreover have cnt: "al_count s < m" "0 < m"
    using rep True m(1) n0 by (auto simp: arr_rep_def word_less_nat_alt)
  moreover have "al_count s \<le> m" "\<not> m < al_count s"
    using cnt(1) by simp_all
  moreover have "items_from (al_items s) 0 (al_count s) = Some xs"
    using rep by (auto simp: items_from_def arr_rep_def)
  moreover have "length xs \<le> unat m"
    using cnt rep by (simp add: arr_rep_def word_less_nat_alt)
  ultimately have "al_SetSize e s n False =
      Some (if te_malloc e (m * te_sizeof e)
        then (True, \<lparr>al_items = xs @ replicate (unat m - length xs) (te_zero e), al_count = al_count s, al_size = m\<rparr>, [])
        else (False, s, []))"
    using True n0 by (simp add: al_SetSize_def Let_def neq_iff flip: g_def m_def)
  moreover have "arr_rep \<lparr>al_items = xs @ replicate (unat m - length xs) (te_zero e), al_count = al_count s, al_size = m\<rparr> xs"
    using rep \<open>length xs \<le> unat m\<close> by (simp add: arr_rep_def)
  ultimately show ?thesis
    using m(1) \<open>length xs \<le> unat m\<close> by auto
qed


lemma al_InsertElementAt_rep:
  fixes nIndex :: u64
  assumes env: "env_ok e" and rep: "arr_rep s xs" and fit: "fits e (Suc (length xs))"
  defines "i \<equiv> min (unat nIndex) (length xs)"
  shows "\<exists>ok s'. al_InsertElementAt e s elem nIndex = Some (ok, s', []) \<and>
    (if ok then arr_rep s' (take i xs @ elem # drop i xs) else s' = s) \<and> ((\<forall>b. te_malloc e b) \<longrightarrow> ok)"
proof -
  let ?i = "if nIndex \<ge> al_count s then al_count s else nIndex"
  have cnt: "unat (al_count s) = length xs"
    using rep by (simp add: arr_rep_def)
  have i: "unat ?i = i" "i \<le> length xs"
    using cnt by (auto simp: i_def word_le_nat_alt)
  have "1 \<le> unat (te_sizeof e)" "1 \<le> unat (te_granularity e)"
    using env by (simp_all add: env_ok_def word_less_nat_alt Suc_le_eq)
  then have "Suc (length xs) + 1 \<le> (Suc (length xs) + unat (te_granularity e)) * unat (te_sizeof e)"
    by (metis add_le_mono le_refl mult_le_mono nat_mult_1_right)
  then have small: "Suc (length xs) < 2 ^ LENGTH(64)"
    using fit by (simp add: fits_def)
  have cnt1: "unat (al_count s + 1) = Suc (length xs)"
    using small cnt by (subst unat_add_small) simp_all
  obtain ok s1 where s1: "al_SetSize e s (al_count s + 1) False = Some (ok, s1, [])"
      "if ok then arr_rep s1 xs \<and> al_count s1 = al_count s \<and> Suc (length xs) \<le> length (al_items s1) else s1 = s"
      "(\<forall>b. te_malloc e b) \<longrightarrow> ok"
    using al_SetSize_grow [OF env rep, of "al_count s + 1"] fit unfolding cnt1 by blast
  show ?thesis
  proof (cases ok)
    case False
    then show ?thesis
      using s1 by (intro exI [of _ False]) (simp add: al_InsertElementAt_def Let_def)
  next
    case True
    define tail where "tail = drop (length xs) (al_items s1)"
    have items: "al_items s1 = xs @ tail" "tail \<noteq> []"
      using s1(2) True arr_rep_split [of s1 xs] by (auto simp: tail_def)
    have room: "unat (?i + 1) = Suc i" "unat (al_count s - ?i) = length xs - i"
      using i small cnt by (auto simp: unat_add_small unat_sub_le)
    have gap: "al_count s - ?i = 0 \<longleftrightarrow> i = length xs"
      using room(2) i(2) by (metis diff_is_0_eq le_antisym unat_eq_0)
    have "move_items (al_items s1) (?i + 1) ?i (al_count s - ?i) =
        Some (take i xs @ (xs @ tail) ! i # drop i xs @ tl tail)"
    proof (cases "i = length xs")
      case True
      then show ?thesis
        using gap items by (cases tail) (simp_all add: move_items_def)
    next
      case False
      then have "take (Suc i) xs = take i xs @ [xs ! i]"
        using i(2) by (simp add: take_Suc_conv_app_nth)
      moreover have "Suc i + (length xs - i) \<le> length (xs @ tail)"
        using i(2) items(2) by (cases tail) auto
      moreover have "drop (Suc i + (length xs - i)) (xs @ tail) = tl tail"
        using i(2) by (simp add: drop_Suc)
      ultimately show ?thesis
        using False gap items i room by (simp add: move_items_def nth_append)
    qed
    moreover have "set_item (take i xs @ (xs @ tail) ! i # drop i xs @ tl tail) ?i elem =
        Some (take i xs @ elem # drop i xs @ tl tail)"
      using i by (simp add: set_item_def list_update_append)
    ultimately have "al_InsertElementAt e s elem nIndex =
        Some (True, s1\<lparr>al_items := take i xs @ elem # drop i xs @ tl tail, al_count := al_count s + 1\<rparr>, [])"
      using s1 True unfolding al_InsertElementAt_def Let_def by simp
    moreover have "arr_rep (s1\<lparr>al_items := take i xs @ elem # drop i xs @ tl tail, al_count := al_count s + 1\<rparr>)
        (take i xs @ elem # drop i xs)"
    proof (rule arr_repI)
      show "unat (al_count (s1\<lparr>al_items := take i xs @ elem # drop i xs @ tl tail, al_count := al_count s + 1\<rparr>)) =
          length (take i xs @ elem # drop i xs)"
        using cnt1 i(2) by simp
      have "length (al_items s1) = unat (al_size s1)"
        using s1(2) True by (simp add: arr_rep_def)
      then show "length (take i xs @ elem # drop i xs) + length (tl tail) =
          unat (al_size (s1\<lparr>al_items := take i xs @ elem # drop i xs @ tl tail, al_count := al_count s + 1\<rparr>))"
        using items i(2) by (cases tail) simp_all
    qed simp
    ultimately show ?thesis
      by (intro exI [of _ True]) simp
  qed
qed

lemma al_RemoveElementAt_rep:
  assumes rep: "arr_rep s xs"
  shows "if unat nIndex \<ge> length xs \<or> nItemsCount = 0 \<or> nIndex + nItemsCount < nIndex
    then al_RemoveElementAt s nIndex nItemsCount fin = Some (False, s, [])
    else \<exists>s'. al_RemoveElementAt s nIndex nItemsCount fin =
        Some (True, s', if fin then take (unat nItemsCount) (drop (unat nIndex) xs) else []) \<and>
      arr_rep s' (take (unat nIndex) xs @ drop (unat nIndex + unat nItemsCount) xs) \<and> al_size s' = al_size s"
proof (cases "unat nIndex \<ge> length xs \<or> nItemsCount = 0 \<or> nIndex + nItemsCount < nIndex")
  case True
  then show ?thesis
    using rep by (auto simp: al_RemoveElementAt_def arr_rep_def word_le_nat_alt)
next
  case False
  let ?i = "unat nIndex"
  have cnt: "unat (al_count s) = length xs" and items: "al_items s = xs @ drop (length xs) (al_items s)"
    using rep arr_rep_split by (auto simp: arr_rep_def)
  have nowrap: "unat (nIndex + nItemsCount) = ?i + unat nItemsCount"
    using False by (simp add: unat_plus_simple not_less)
  let ?n = "if nIndex + nItemsCount > al_count s then al_count s - nIndex else nItemsCount"
  define k where "k = min (unat nItemsCount) (length xs - ?i)"
  have n: "unat ?n = k" "?i + k \<le> length xs" "?n \<le> al_count s" "nIndex \<le> al_count s - ?n"
    using False cnt nowrap by (auto simp: k_def word_less_nat_alt word_le_nat_alt unat_sub_le unat_sub)
  have take_k: "take k (drop ?i xs) = take (unat nItemsCount) (drop ?i xs)"
    and drop_k: "drop (?i + k) xs = drop (?i + unat nItemsCount) xs"
    by (simp_all add: k_def min_def)
  have w: "unat (al_count s - ?n) = length xs - k" "unat (al_count s - ?n - nIndex) = length xs - k - ?i"
      "unat (nIndex + ?n) = ?i + k"
  proof -
    show a: "unat (al_count s - ?n) = length xs - k"
      using n(1,3) cnt by (simp only: unat_sub_le)
    show "unat (al_count s - ?n - nIndex) = length xs - k - ?i"
      using unat_sub_le [OF n(4)] a by simp
    have "?i + k < 2 ^ LENGTH(64)"
      using n(2) cnt unsigned_less [of "al_count s"] by (metis le_less_trans)
    then show "unat (nIndex + ?n) = ?i + k"
      using n(1) by (subst unat_add_small) simp_all
  qed
  define tail where "tail = drop (length xs) (al_items s)"
  have items': "al_items s = xs @ tail"
    using items by (simp add: tail_def)
  define m where "m = length xs - k - ?i"
  have dead: "items_from (al_items s) nIndex ?n = Some (take (unat nItemsCount) (drop ?i xs))"
    using n items' take_k unfolding items_from_def by simp
  obtain ys where mv: "move_items (al_items s) nIndex (nIndex + ?n) (al_count s - ?n - nIndex) = Some ys"
      "length ys = length (al_items s)" "take (length xs - k) ys = take ?i xs @ drop (?i + k) xs"
  proof (cases "m = 0")
    case True
    then have "al_count s - ?n - nIndex = 0"
      using w(2) by (metis m_def unat_eq_0)
    moreover have "drop (?i + k) xs = []" "length xs - k = ?i"
      using True n(2) by (auto simp: m_def)
    ultimately show ?thesis
      using that [of "al_items s"] items' n(2) by (simp add: move_items_def)
  next
    case False
    let ?ys = "take ?i (xs @ tail) @ take m (drop (?i + k) (xs @ tail)) @ drop (?i + m) (xs @ tail)"
    have "move_items (al_items s) nIndex (nIndex + ?n) (al_count s - ?n - nIndex) = Some ?ys"
      using False w n(2) items' unfolding move_items_def m_def by (auto simp: unat_eq_0 [symmetric])
    moreover have "length ?ys = length (al_items s)"
      using n(2) items' by (simp add: m_def)
    moreover have "take (length xs - k) ?ys = take ?i xs @ drop (?i + k) xs"
      using n(2) by (simp add: m_def take_append)
    ultimately show ?thesis
      using that by blast
  qed
  have "al_RemoveElementAt s nIndex nItemsCount fin =
      Some (True, s\<lparr>al_items := ys, al_count := al_count s - ?n\<rparr>,
        if fin then take (unat nItemsCount) (drop ?i xs) else [])"
    using False dead mv(1) cnt unfolding al_RemoveElementAt_def Let_def
    by (auto simp: word_le_nat_alt)
  moreover have "arr_rep (s\<lparr>al_items := ys, al_count := al_count s - ?n\<rparr>) (take ?i xs @ drop (?i + unat nItemsCount) xs)"
  proof -
    have "length (take ?i xs @ drop (?i + k) xs) = length xs - k"
      using n(2) by simp
    then show ?thesis
      using rep mv(2,3) w(1) unfolding arr_rep_def drop_k [symmetric] by auto
  qed
  ultimately show ?thesis
    using False by auto
qed


lemma al_RemoveAllElements_rep:
  "arr_rep s xs \<Longrightarrow> al_RemoveAllElements s = Some (TArrayList, xs)"
  by (simp add: al_RemoveAllElements_def items_from_def arr_rep_def)

lemma al_GetElementAt_rep: "arr_rep s xs \<Longrightarrow> unat i < length xs \<Longrightarrow> al_GetElementAt s i = Some (xs ! unat i)"
  using arr_rep_split [of s xs] by (metis al_GetElementAt_def item_at_def nth_append length_append trans_less_add1)

lemma item_at_rep: "arr_rep s xs \<Longrightarrow> unat i < length xs \<Longrightarrow> item_at (al_items s) i = Some (xs ! unat i)"
  using al_GetElementAt_rep by (metis al_GetElementAt_def)

lemma al_PopBlock_rep:
  assumes "arr_rep s xs" and "unat n \<le> length xs"
  shows "\<exists>s'. al_PopBlock s n = (Some (of_nat (length xs - unat n)), s') \<and> arr_rep s' (take (length xs - unat n) xs)"
proof -
  have n: "n \<le> al_count s" "unat (al_count s - n) = length xs - unat n"
    using assms by (auto simp: arr_rep_def word_le_nat_alt unat_sub_le)
  then have "al_count s - n = of_nat (length xs - unat n)"
    by (simp flip: n(2))
  then show ?thesis
    using assms n by (auto simp: al_PopBlock_def arr_rep_def not_less take_take min_def dest: arg_cong [of _ _ "take (length xs - unat n)"])
qed

section \<open>Searching\<close>

lemma sorted_pos_rep:
  assumes rep: "arr_rep s xs" and "unat lo \<le> unat hi" and "unat hi \<le> length xs"
    and "\<And>i j. i \<le> j \<Longrightarrow> j < length xs \<Longrightarrow> cmp (xs ! i) \<le> 0 \<Longrightarrow> cmp (xs ! j) \<le> (0 :: int)"
    and "\<And>i. i < unat lo \<Longrightarrow> 0 < cmp (xs ! i)" and "\<And>i. unat hi \<le> i \<Longrightarrow> i < length xs \<Longrightarrow> cmp (xs ! i) \<le> 0"
  shows "\<exists>p. sorted_pos cmp (al_items s) lo hi = Some p \<and> unat p \<le> length xs \<and>
           (\<forall>i < unat p. 0 < cmp (xs ! i)) \<and> (\<forall>i. unat p \<le> i \<longrightarrow> i < length xs \<longrightarrow> cmp (xs ! i) \<le> 0)"
  using assms(2,3,5,6)
proof (induction "unat hi - unat lo" arbitrary: lo hi rule: less_induct)
  case less
  show ?case
  proof (cases "lo < hi")
    case False
    then have "unat lo = unat hi"
      using less.prems(1) by (simp add: word_less_nat_alt)
    then show ?thesis
      using less.prems False by (subst sorted_pos.simps) auto
  next
    case True
    define mid where "mid = lo + drop_bit 1 (hi - lo)"
    note m = mid_bounds [OF True, folded mid_def]
    have lh: "unat lo < unat hi"
      using True by (simp add: word_less_nat_alt)
    then have mid: "unat lo \<le> unat mid" "unat mid < unat hi" "unat (mid + 1) = Suc (unat mid)"
      using m unat_inc [OF m(2)] by (auto simp: word_less_nat_alt)
    then have at: "item_at (al_items s) mid = Some (xs ! unat mid)"
      using item_at_rep [OF rep] less.prems(2) by simp
    show ?thesis
    proof (cases "cmp (xs ! unat mid) > 0")
      case gt: True
      have "0 < cmp (xs ! i)" if "i < unat (mid + 1)" for i
        using assms(4) [of i "unat mid"] gt that mid less.prems(2) by force
      then have "\<exists>p. sorted_pos cmp (al_items s) (mid + 1) hi = Some p \<and> unat p \<le> length xs \<and>
           (\<forall>i < unat p. 0 < cmp (xs ! i)) \<and> (\<forall>i. unat p \<le> i \<longrightarrow> i < length xs \<longrightarrow> cmp (xs ! i) \<le> 0)"
        using less.hyps [of hi "mid + 1"] less.prems mid by simp
      then show ?thesis
        using True at gt by (subst sorted_pos.simps, unfold Let_def mid_def [symmetric]) simp
    next
      case le: False
      have "cmp (xs ! i) \<le> 0" if "unat mid \<le> i" "i < length xs" for i
        using assms(4) [of "unat mid" i] le that by force
      then have "\<exists>p. sorted_pos cmp (al_items s) lo mid = Some p \<and> unat p \<le> length xs \<and>
           (\<forall>i < unat p. 0 < cmp (xs ! i)) \<and> (\<forall>i. unat p \<le> i \<longrightarrow> i < length xs \<longrightarrow> cmp (xs ! i) \<le> 0)"
        using less.hyps [of mid lo] less.prems mid by simp
      then show ?thesis
        using True at le by (subst sorted_pos.simps, unfold Let_def mid_def [symmetric]) simp
    qed
  qed
qed

definition search_ok :: "('a \<Rightarrow> int) \<Rightarrow> 'a list \<Rightarrow> u64 \<Rightarrow> bool" where
  "search_ok cmp xs p \<longleftrightarrow>
     (if \<exists>i < length xs. cmp (xs ! i) = 0 then unat p < length xs \<and> cmp (xs ! unat p) = 0 else p = -1)"

lemma search_ok_hit: "unat p < length xs \<Longrightarrow> cmp (xs ! unat p) = 0 \<Longrightarrow> search_ok cmp xs p"
  by (auto simp: search_ok_def)

lemma search_loop_rep:
  assumes rep: "arr_rep s xs" and "unat lo + unat n \<le> length xs"
    and mono: "\<And>i j. i \<le> j \<Longrightarrow> j < length xs \<Longrightarrow> sgn (cmp (xs ! j)) \<le> sgn (cmp (xs ! i) :: int)"
    and "\<And>i. i < unat lo \<Longrightarrow> 0 < cmp (xs ! i)" and "\<And>i. unat lo + unat n \<le> i \<Longrightarrow> i < length xs \<Longrightarrow> cmp (xs ! i) < 0"
  shows "\<exists>p. search_loop cmp (al_items s) lo n = Some p \<and> search_ok cmp xs p"
  using assms(2,4,5)
proof (induction "unat n" arbitrary: lo n rule: less_induct)
  case less
  show ?case
  proof (cases "0 < n")
    case False
    then have "n = 0"
      by (simp add: word_gt_0)
    then have "cmp (xs ! i) \<noteq> 0" if "i < length xs" for i
      using less.prems(2,3) [of i] that by (cases "i < unat lo") auto
    then show ?thesis
      using \<open>n = 0\<close> by (subst search_loop.simps) (auto simp: search_ok_def)
  next
    case True
    define mid where "mid = lo + drop_bit 1 n"
    have n0: "0 < unat n"
      using True by (simp add: word_less_nat_alt)
    have "unat (al_count s) < 2 ^ LENGTH(64)"
      by (rule unsigned_less)
    then have len: "length xs < 2 ^ LENGTH(64)"
      using rep by (simp add: arr_rep_def)
    then have "unat lo + unat n div 2 < 2 ^ LENGTH(64)"
      using less.prems(1) by linarith
    then have mid: "unat mid = unat lo + unat n div 2"
      unfolding mid_def by (subst unat_add_small) (simp_all only: half_word)
    have mid_lt: "unat mid < length xs"
      using mid less.prems(1) n0 by linarith
    have at: "item_at (al_items s) mid = Some (xs ! unat mid)"
      using item_at_rep [OF rep mid_lt] .
    have "\<exists>p. search_loop cmp (al_items s) lo' n' = Some p \<and> search_ok cmp xs p"
      if step: "(lo', n') = (if cmp (xs ! unat mid) > 0 then (mid + 1, drop_bit 1 (n - 1)) else (lo, drop_bit 1 n))"
        and ne: "cmp (xs ! unat mid) \<noteq> 0" for lo' n'
    proof (cases "cmp (xs ! unat mid) > 0")
      case gt: True
      have "unat (mid + 1) = Suc (unat mid)"
        using mid_lt len by (subst unat_add_small) simp_all
      then have lo': "unat lo' = Suc (unat mid)" and n': "unat n' = (unat n - 1) div 2"
        using step gt half_pred [OF True] by simp_all
      have "0 < cmp (xs ! i)" if "i < unat lo'" for i
        using mono [of i "unat mid"] gt that mid_lt lo' by (auto simp: sgn_if split: if_splits)
      moreover have "cmp (xs ! i) < 0" if "unat lo' + unat n' \<le> i" "i < length xs" for i
        using less.prems(3) [of i] that lo' n' mid n0 by linarith
      moreover have "unat n' < unat n" "unat lo' + unat n' \<le> length xs"
        using lo' n' mid n0 less.prems(1) by linarith+
      ultimately show ?thesis
        using less.hyps [of n' lo'] by blast
    next
      case le: False
      then have lo': "lo' = lo" and n': "unat n' = unat n div 2" and neg: "cmp (xs ! unat mid) < 0"
        using step ne half_word [of n] by simp_all
      have "cmp (xs ! i) < 0" if "unat lo' + unat n' \<le> i" "i < length xs" for i
        using mono [of "unat mid" i] neg that mid lo' n' by (auto simp: sgn_if split: if_splits)
      moreover have "unat n' < unat n" "unat lo' + unat n' \<le> length xs"
        using n0 less.prems(1) unfolding lo' n' by linarith+
      ultimately show ?thesis
        using less.hyps [of n' lo'] less.prems(2) lo' by blast
    qed
    then show ?thesis
      using True at mid_lt search_ok_hit by (subst search_loop.simps, unfold Let_def mid_def [symmetric]) auto
  qed
qed

section \<open>Sorted arrays\<close>

text \<open>The users that keep an array sorted by a key, with callbacks of one order.\<close>

locale sorted_array =
  fixes key :: "'a \<Rightarrow> 'k :: linorder" and ins :: "'a \<Rightarrow> 'a \<Rightarrow> int"
    and srch :: "'q \<Rightarrow> 'a \<Rightarrow> int" and qkey :: "'q \<Rightarrow> 'k"
    and good :: "'a \<Rightarrow> bool" and goodq :: "'q \<Rightarrow> bool"
  assumes ins_less: "good x \<Longrightarrow> good y \<Longrightarrow> ins x y < 0 \<longleftrightarrow> key x < key y"
    and ins_greater: "good x \<Longrightarrow> good y \<Longrightarrow> 0 < ins x y \<longleftrightarrow> key y < key x"
    and srch_less: "goodq q \<Longrightarrow> good y \<Longrightarrow> srch q y < 0 \<longleftrightarrow> qkey q < key y"
    and srch_greater: "goodq q \<Longrightarrow> good y \<Longrightarrow> 0 < srch q y \<longleftrightarrow> key y < qkey q"
begin

lemma ins_equal: "good x \<Longrightarrow> good y \<Longrightarrow> ins x y = 0 \<longleftrightarrow> key x = key y"
  using ins_less [of x y] ins_greater [of x y] by (cases "ins x y" "0 :: int" rule: linorder_cases) auto

lemma ins_nonpos: "good x \<Longrightarrow> good y \<Longrightarrow> ins x y \<le> 0 \<longleftrightarrow> key x \<le> key y"
  using ins_greater [of x y] by (metis not_less)

lemma srch_equal: "goodq q \<Longrightarrow> good y \<Longrightarrow> srch q y = 0 \<longleftrightarrow> qkey q = key y"
  using srch_less [of q y] srch_greater [of q y] by (cases "srch q y" "0 :: int" rule: linorder_cases) auto

lemma srch_sgn:
  "goodq q \<Longrightarrow> good y \<Longrightarrow> sgn (srch q y) = (if qkey q < key y then - 1 else if key y < qkey q then 1 else 0)"
  using srch_less [of q y] srch_greater [of q y] by (auto simp: sgn_if)

lemma sorted_pos_key:
  assumes rep: "arr_rep s xs" and "sorted (map key xs)" and x: "good x" and all: "\<forall>y \<in> set xs. good y"
  shows "\<exists>p. sorted_pos (ins x) (al_items s) 0 (al_count s) = Some p \<and> unat p \<le> length xs \<and>
    take (unat p) xs = takeWhile (\<lambda>y. key y < key x) xs \<and> drop (unat p) xs = dropWhile (\<lambda>y. key y < key x) xs"
proof -
  have "ins x (xs ! j) \<le> 0" if "i \<le> j" "j < length xs" "ins x (xs ! i) \<le> 0" for i j
    using that sorted_nth_mono [OF assms(2), of i j] x all by (simp add: ins_nonpos)
  then obtain p where p: "sorted_pos (ins x) (al_items s) 0 (al_count s) = Some p" "unat p \<le> length xs"
      "\<forall>i < unat p. 0 < ins x (xs ! i)" "\<forall>i. unat p \<le> i \<longrightarrow> i < length xs \<longrightarrow> ins x (xs ! i) \<le> 0"
    using sorted_pos_rep [OF rep, of 0 "al_count s" "ins x"] rep by (auto simp: arr_rep_def)
  have "\<forall>y \<in> set (take (unat p) xs). key y < key x"
  proof
    fix y
    assume "y \<in> set (take (unat p) xs)"
    then obtain i where "i < unat p" "y = xs ! i" "i < length xs"
      using p(2) by (auto simp: in_set_conv_nth)
    then show "key y < key x"
      using p(3) x all ins_greater [of x y] nth_mem [of i xs] by auto
  qed
  moreover have "\<forall>z \<in> set (drop (unat p) xs). \<not> key z < key x"
  proof
    fix z
    assume "z \<in> set (drop (unat p) xs)"
    then obtain i where "i < length xs - unat p" "z = xs ! (unat p + i)"
      using p(2) by (auto simp: in_set_conv_nth)
    then have "ins x z \<le> 0" "z \<in> set xs"
      using p(4) by auto
    then show "\<not> key z < key x"
      using x all ins_nonpos [of x z] by auto
  qed
  ultimately show ?thesis
    using takeWhile_split [of "take (unat p) xs" "\<lambda>y. key y < key x" "drop (unat p) xs"] p(1,2) by auto
qed

lemma sorted_cut:
  assumes "sorted (map key xs)"
  shows "sorted (map key (takeWhile (\<lambda>y. key y < key x) xs @ x # dropWhile (\<lambda>y. key y < key x) xs))"
proof -
  have "\<forall>z \<in> set (dropWhile (\<lambda>y. key y < key x) xs). key x \<le> key z"
  proof (cases "dropWhile (\<lambda>y. key y < key x) xs")
    case (Cons z zs)
    have "sorted (map key (z # zs))"
      using assms Cons sorted_append map_append takeWhile_dropWhile_id by metis
    moreover have "key x \<le> key z"
      using hd_dropWhile [of "\<lambda>y. key y < key x" xs] Cons by (simp add: not_less)
    ultimately show ?thesis
      using Cons by auto
  next
    case Nil
    show ?thesis
      unfolding Nil by simp
  qed
  moreover have "\<forall>y \<in> set (takeWhile (\<lambda>y. key y < key x) xs). key y < key x"
    by (auto dest: set_takeWhileD)
  moreover have "sorted (map key (takeWhile (\<lambda>y. key y < key x) xs @ dropWhile (\<lambda>y. key y < key x) xs))"
    using assms by simp
  ultimately show ?thesis
    by (fastforce simp: sorted_append simp del: takeWhile_dropWhile_id)
qed

lemma sorted_insert:
  assumes env: "env_ok e" and rep: "arr_rep s xs" and fit: "fits e (Suc (length xs))" and sd: "sorted (map key xs)"
    and x: "good x" and all: "\<forall>y \<in> set xs. good y"
  shows "\<exists>ok dup s'. al_SortedInsert e s x (Some ins) nodup = Some (ok, dup, s', []) \<and>
    (if nodup \<and> key x \<in> key ` set xs then ok \<and> dup \<and> s' = s
     else \<not> dup \<and> (if ok then arr_rep s' (takeWhile (\<lambda>y. key y < key x) xs @ x # dropWhile (\<lambda>y. key y < key x) xs)
                     else s' = s) \<and> ((\<forall>b. te_malloc e b) \<longrightarrow> ok))"
proof -
  obtain p where p: "sorted_pos (ins x) (al_items s) 0 (al_count s) = Some p" "unat p \<le> length xs"
      "take (unat p) xs = takeWhile (\<lambda>y. key y < key x) xs" "drop (unat p) xs = dropWhile (\<lambda>y. key y < key x) xs"
    using sorted_pos_key [OF rep sd x all] by blast
  have cnt: "unat (al_count s) = length xs"
    using rep by (simp add: arr_rep_def)
  have found: "p < al_count s \<and> ins x (xs ! unat p) = 0 \<longleftrightarrow> key x \<in> key ` set xs"
  proof
    assume "p < al_count s \<and> ins x (xs ! unat p) = 0"
    then show "key x \<in> key ` set xs"
      using cnt x all by (auto simp: word_less_nat_alt ins_equal)
  next
    assume "key x \<in> key ` set xs"
    then obtain y where y: "y \<in> set xs" "key y = key x"
      by auto
    then have "y \<in> set (dropWhile (\<lambda>y. key y < key x) xs)"
      by (metis Un_iff order_less_irrefl set_append set_takeWhileD takeWhile_dropWhile_id)
    then have in_drop: "y \<in> set (drop (unat p) xs)"
      using p(4) by simp
    then have lt: "unat p < length xs"
      by (cases "unat p < length xs") auto
    have "key (xs ! unat p) \<le> key y"
      using in_drop sd p(2) lt sorted_nth_mono [OF sd, of "unat p"] by (auto simp: in_set_conv_nth)
    moreover have "\<not> key (xs ! unat p) < key x"
      using hd_dropWhile [of "\<lambda>y. key y < key x" xs] p(4) lt by (metis hd_drop_conv_nth drop_eq_Nil not_le)
    ultimately show "p < al_count s \<and> ins x (xs ! unat p) = 0"
      using y(2) lt cnt x all by (simp add: ins_equal word_less_nat_alt)
  qed
  have dup: "(if nodup \<and> p < al_count s then map_option (\<lambda>y. ins x y = 0) (item_at (al_items s) p) else Some False) =
      Some (nodup \<and> key x \<in> key ` set xs)"
    using found cnt item_at_rep [OF rep, of p] by (auto simp: word_less_nat_alt)
  obtain ok s' where ins: "al_InsertElementAt e s x p = Some (ok, s', [])"
      "if ok then arr_rep s' (take (min (unat p) (length xs)) xs @ x # drop (min (unat p) (length xs)) xs) else s' = s"
      "(\<forall>b. te_malloc e b) \<longrightarrow> ok"
    using al_InsertElementAt_rep [OF env rep fit, of x p] by blast
  have step: "al_SortedInsert e s x (Some ins) nodup =
      (if nodup \<and> key x \<in> key ` set xs then Some (True, True, s, []) else Some (ok, False, s', []))"
    unfolding al_SortedInsert_def option.case p(1) bind.bind_lunit dup using ins(1) by simp
  have "if ok then arr_rep s' (takeWhile (\<lambda>y. key y < key x) xs @ x # dropWhile (\<lambda>y. key y < key x) xs) else s' = s"
    using ins(2) unfolding min_absorb1 [OF p(2)] p(3,4) .
  note good = this
  show ?thesis
  proof (cases "nodup \<and> key x \<in> key ` set xs")
    case True
    show ?thesis
      unfolding step if_P [OF True] by blast
  next
    case False
    show ?thesis
      unfolding step if_not_P [OF False] using good ins(3) by blast
  qed
qed

lemma binary_search:
  assumes rep: "arr_rep s xs" and sd: "sorted (map key xs)" and q: "goodq q" and all: "\<forall>y \<in> set xs. good y"
  shows "\<exists>p. al_BinarySearch s q (Some srch) = Some p \<and>
    (if qkey q \<in> key ` set xs then unat p < length xs \<and> key (xs ! unat p) = qkey q else p = -1)"
proof -
  have "sgn (srch q (xs ! j)) \<le> sgn (srch q (xs ! i))" if "i \<le> j" "j < length xs" for i j
    using that sorted_nth_mono [OF sd, of i j] q all by (auto simp: srch_sgn)
  then obtain p where "search_loop (srch q) (al_items s) 0 (al_count s) = Some p" "search_ok (srch q) xs p"
    using search_loop_rep [OF rep, of 0 "al_count s" "srch q"] rep by (auto simp: arr_rep_def)
  moreover have "(\<exists>i < length xs. srch q (xs ! i) = 0) \<longleftrightarrow> (\<exists>y \<in> set xs. srch q y = 0)"
    by (metis in_set_conv_nth)
  moreover have "(\<exists>y \<in> set xs. srch q y = 0) \<longleftrightarrow> qkey q \<in> key ` set xs"
    using q all by (auto simp: srch_equal image_iff)
  ultimately show ?thesis
    using q all by (auto simp: al_BinarySearch_def search_ok_def srch_equal split: if_splits)
qed

end

text \<open>Callbacks that order all elements are a special case.\<close>

sublocale search_order \<subseteq> array: sorted_array key ins srch qkey "\<lambda>_. True" "\<lambda>_. True"
  by unfold_locales (simp_all add: ins_less ins_greater srch_less srch_greater)

end
