(* ===== verification/Strings.thy ===== *)
theory Strings
  imports MX_Prelude "HOL-Library.List_Lexorder"
begin

unbundle bit_operations_syntax

text \<open>
  The string comparisons and searches of \<open>Source/Strings/Strings.cpp\<close>, for narrow and wide strings.
  A string is the list of its characters before the terminator, so it holds no zero; a null pointer
  is \<open>None\<close>. A read past the terminator is \<open>None\<close> too. \<open>strncmp\<close>, \<open>_strnicmp\<close> and their wide
  versions are those of the C library in the C locale, where only ASCII letters have a case.
\<close>

section \<open>Characters and the C library\<close>

type_synonym 'c str = "'c list"

definition to_lower :: "'c::len word \<Rightarrow> 'c word" where
  "to_lower c = (if 65 \<le> unat c \<and> unat c \<le> 90 then of_nat (unat c + 32) else c)"

definition to_upper :: "'c::len word \<Rightarrow> 'c word" where
  "to_upper c = (if 97 \<le> unat c \<and> unat c \<le> 122 then of_nat (unat c - 32) else c)"

fun crt_ncmp :: "('c::len word \<Rightarrow> 'c word) \<Rightarrow> 'c word str \<Rightarrow> 'c word str \<Rightarrow> nat \<Rightarrow> int" where
  "crt_ncmp f xs ys 0 = 0"
| "crt_ncmp f [] [] (Suc n) = 0"
| "crt_ncmp f [] (y # ys) (Suc n) = -1"
| "crt_ncmp f (x # xs) [] (Suc n) = 1"
| "crt_ncmp f (x # xs) (y # ys) (Suc n) =
     (if f x = f y then crt_ncmp f xs ys n else if f x < f y then -1 else 1)"

definition char_at :: "'c::len word str \<Rightarrow> nat \<Rightarrow> 'c word option" where
  "char_at s i = (if i < length s then Some (s ! i) else if i = length s then Some 0 else None)"

section \<open>Comparison\<close>

definition StrLenA :: "u8 str option \<Rightarrow> u64" where
  "StrLenA szSrcA = (case szSrcA of None \<Rightarrow> 0 | Some s \<Rightarrow> of_nat (length s))"

definition StrLenW :: "u16 str option \<Rightarrow> u64" where
  "StrLenW szSrcW = (case szSrcW of None \<Rightarrow> 0 | Some s \<Rightarrow> of_nat (length s))"

definition StrNCompareA :: "u8 str option \<Rightarrow> u8 str option \<Rightarrow> u64 \<Rightarrow> bool \<Rightarrow> int" where
  "StrNCompareA szSrcA1 szSrcA2 nLen bCaseInsensitive =
     (if nLen = 0 \<or> szSrcA1 = None \<and> szSrcA2 = None then 0
      else case szSrcA1 of
        None \<Rightarrow> -1
      | Some a \<Rightarrow>
          (case szSrcA2 of
             None \<Rightarrow> 1
           | Some b \<Rightarrow> crt_ncmp (if bCaseInsensitive then to_lower else id) a b (unat nLen)))"

definition StrNCompareW :: "u16 str option \<Rightarrow> u16 str option \<Rightarrow> u64 \<Rightarrow> bool \<Rightarrow> int" where
  "StrNCompareW szSrcW1 szSrcW2 nLen bCaseInsensitive =
     (if nLen = 0 \<or> szSrcW1 = None \<and> szSrcW2 = None then 0
      else case szSrcW1 of
        None \<Rightarrow> -1
      | Some a \<Rightarrow>
          (case szSrcW2 of
             None \<Rightarrow> 1
           | Some b \<Rightarrow> crt_ncmp (if bCaseInsensitive then to_lower else id) a b (unat nLen)))"

text \<open>The smaller of two lengths, without a branch.\<close>

definition min_length :: "u64 \<Rightarrow> u64 \<Rightarrow> u64" where
  "min_length n0 n1 = n1 XOR ((n0 XOR n1) AND - (if n0 < n1 then 1 else 0))"

definition StrCompareA :: "u8 str option \<Rightarrow> u8 str option \<Rightarrow> bool \<Rightarrow> int" where
  "StrCompareA szSrcA1 szSrcA2 bCaseInsensitive =
     (let n0 = StrLenA szSrcA1; n1 = StrLenA szSrcA2; n2 = min_length n0 n1;
          res = StrNCompareA szSrcA1 szSrcA2 n2 bCaseInsensitive in
      if res = 0 then if n0 < n1 then -1 else if n0 > n1 then 1 else res else res)"

definition StrCompareW :: "u16 str option \<Rightarrow> u16 str option \<Rightarrow> bool \<Rightarrow> int" where
  "StrCompareW szSrcW1 szSrcW2 bCaseInsensitive =
     (let n0 = StrLenW szSrcW1; n1 = StrLenW szSrcW2; n2 = min_length n0 n1;
          res = StrNCompareW szSrcW1 szSrcW2 n2 bCaseInsensitive in
      if res = 0 then if n0 < n1 then -1 else if n0 > n1 then 1 else res else res)"

section \<open>Searching a character\<close>

text \<open>Positions are relative to the start of the string; the loop may step before it after the last turn.\<close>

fun chr_loop :: "'c::len word str \<Rightarrow> 'c word \<Rightarrow> bool \<Rightarrow> nat \<Rightarrow> nat \<Rightarrow> nat option option" where
  "chr_loop s ch bwd p 0 = Some None"
| "chr_loop s ch bwd p (Suc n) = do {
     c \<leftarrow> char_at s p;
     if c = 0 then Some None
     else if ch = c then Some (Some p)
     else chr_loop s ch bwd (if bwd then p - 1 else p + 1) n
   }"

definition StrNChrA :: "u8 str \<Rightarrow> u8 \<Rightarrow> u64 \<Rightarrow> bool \<Rightarrow> nat option option" where
  "StrNChrA szSrcA chA nLen bReverse =
     chr_loop szSrcA chA bReverse (if bReverse then unat nLen - 1 else 0) (unat nLen)"

definition StrChrA :: "u8 str \<Rightarrow> u8 \<Rightarrow> bool \<Rightarrow> nat option option" where
  "StrChrA szSrcA chA bReverse = StrNChrA szSrcA chA (StrLenA (Some szSrcA)) bReverse"

definition StrNChrW :: "u16 str \<Rightarrow> u16 \<Rightarrow> u64 \<Rightarrow> bool \<Rightarrow> nat option option" where
  "StrNChrW szSrcW chW nLen bReverse =
     chr_loop szSrcW chW bReverse (if bReverse then unat nLen - 1 else 0) (unat nLen)"

definition StrChrW :: "u16 str \<Rightarrow> u16 \<Rightarrow> bool \<Rightarrow> nat option option" where
  "StrChrW szSrcW chW bReverse = StrNChrW szSrcW chW (StrLenW (Some szSrcW)) bReverse"

section \<open>Searching a string\<close>

fun find_loop :: "('c::len word str \<Rightarrow> bool) \<Rightarrow> 'c word str \<Rightarrow> bool \<Rightarrow> nat \<Rightarrow> nat \<Rightarrow> nat option option" where
  "find_loop here s bwd p 0 = Some None"
| "find_loop here s bwd p (Suc n) = do {
     c \<leftarrow> char_at s p;
     if c = 0 then Some None
     else if here (drop p s) then Some (Some p)
     else find_loop here s bwd (if bwd then p - 1 else p + 1) n
   }"

definition StrNFindA :: "u8 str \<Rightarrow> u8 str \<Rightarrow> u64 \<Rightarrow> bool \<Rightarrow> bool \<Rightarrow> nat option option" where
  "StrNFindA szSrcA szToFindA nLen bReverse bCaseInsensitive =
     (let nToFindLen = StrLenA (Some szToFindA) in
      if nToFindLen = 0 \<or> nToFindLen > nLen then Some None
      else let n = nLen - (nToFindLen - 1) in
        find_loop (\<lambda>t. StrNCompareA (Some t) (Some szToFindA) nToFindLen bCaseInsensitive = 0)
          szSrcA bReverse (if bReverse then unat n - 1 else 0) (unat n))"

definition StrFindA :: "u8 str \<Rightarrow> u8 str \<Rightarrow> bool \<Rightarrow> bool \<Rightarrow> nat option option" where
  "StrFindA szSrcA szToFindA bReverse bCaseInsensitive =
     StrNFindA szSrcA szToFindA (StrLenA (Some szSrcA)) bReverse bCaseInsensitive"

definition StrNFindW :: "u16 str \<Rightarrow> u16 str \<Rightarrow> u64 \<Rightarrow> bool \<Rightarrow> bool \<Rightarrow> nat option option" where
  "StrNFindW szSrcW szToFindW nLen bReverse bCaseInsensitive =
     (let nToFindLen = StrLenW (Some szToFindW) in
      if nToFindLen = 0 \<or> nToFindLen > nLen then Some None
      else let n = nLen - (nToFindLen - 1) in
        find_loop (\<lambda>t. StrNCompareW (Some t) (Some szToFindW) nToFindLen bCaseInsensitive = 0)
          szSrcW bReverse (if bReverse then unat n - 1 else 0) (unat n))"

definition StrFindW :: "u16 str \<Rightarrow> u16 str \<Rightarrow> bool \<Rightarrow> bool \<Rightarrow> nat option option" where
  "StrFindW szSrcW szToFindW bReverse bCaseInsensitive =
     StrNFindW szSrcW szToFindW (StrLenW (Some szSrcW)) bReverse bCaseInsensitive"

section \<open>Case\<close>

definition StrNToLowerA :: "u8 str \<Rightarrow> u64 \<Rightarrow> u8 str" where
  "StrNToLowerA s nLen = map to_lower (take (unat nLen) s) @ drop (unat nLen) s"

definition StrToLowerA :: "u8 str \<Rightarrow> u8 str" where
  "StrToLowerA s = StrNToLowerA s (StrLenA (Some s))"

definition StrNToUpperA :: "u8 str \<Rightarrow> u64 \<Rightarrow> u8 str" where
  "StrNToUpperA s nLen = map to_upper (take (unat nLen) s) @ drop (unat nLen) s"

definition StrToUpperA :: "u8 str \<Rightarrow> u8 str" where
  "StrToUpperA s = StrNToUpperA s (StrLenA (Some s))"

section \<open>Comparison is the order of the folded strings\<close>

lemma min_length_min: "min_length n0 n1 = min n0 n1"
proof -
  have "n1 XOR (n0 XOR n1) = n0"
    by (simp add: xor.left_commute)
  then show ?thesis
    by (auto simp: min_length_def min_def)
qed

definition fold_case :: "bool \<Rightarrow> 'c::len word str \<Rightarrow> 'c word str" where
  "fold_case ci s = map (if ci then to_lower else id) s"

definition str_fits :: "'c str \<Rightarrow> bool" where
  "str_fits s \<longleftrightarrow> length s < 2 ^ 64"

lemma crt_ncmp_order:
  fixes f :: "'c::len word \<Rightarrow> 'c word"
  defines "res xs ys \<equiv> (let r = crt_ncmp f xs ys (min (length xs) (length ys)) in
    if r = 0 then if length xs < length ys then -1 else if length xs > length ys then 1 else r else r)"
  shows "(res xs ys < 0 \<longleftrightarrow> map f xs < map f ys) \<and> (0 < res xs ys \<longleftrightarrow> map f ys < map f xs)"
proof (induction xs arbitrary: ys)
  case Nil
  then show ?case by (cases ys) (simp_all add: res_def)
next
  case (Cons x xs)
  show ?case
  proof (cases ys)
    case Nil
    then show ?thesis by (simp add: res_def)
  next
    case ys: (Cons y zs)
    show ?thesis
    proof (cases "f x = f y")
      case True
      then have "res (x # xs) ys = res xs zs"
        by (simp add: res_def ys Let_def)
      then show ?thesis
        using Cons.IH [of zs] True ys by simp
    next
      case False
      then show ?thesis
        by (auto simp: res_def ys)
    qed
  qed
qed

lemma str_len_less:
  assumes "str_fits a" and "str_fits b"
  shows "(of_nat (length a) :: u64) < of_nat (length b) \<longleftrightarrow> length a < length b"
    and "unat (of_nat (length a) :: u64) = length a"
  using assms by (simp_all add: str_fits_def word_less_nat_alt unat_of_nat take_bit_nat_eq_self)

lemma StrCompareA_order:
  assumes "str_fits a" and "str_fits b"
  shows "StrCompareA (Some a) (Some b) ci < 0 \<longleftrightarrow> fold_case ci a < fold_case ci b"
    and "0 < StrCompareA (Some a) (Some b) ci \<longleftrightarrow> fold_case ci b < fold_case ci a"
proof -
  let ?f = "if ci then to_lower else id :: u8 \<Rightarrow> u8"
  have m: "unat (min_length (of_nat (length a)) (of_nat (length b))) = min (length a) (length b)"
    using str_len_less [OF assms] str_len_less [OF assms(2,1)]
    by (simp add: min_length_min min_def not_less [symmetric])
  have nc: "StrNCompareA (Some a) (Some b) (min_length (of_nat (length a)) (of_nat (length b))) ci =
      crt_ncmp ?f a b (min (length a) (length b))"
    using m by (auto simp: StrNCompareA_def unat_eq_0 [symmetric])
  have "StrCompareA (Some a) (Some b) ci = (let r = crt_ncmp ?f a b (min (length a) (length b)) in
      if r = 0 then if length a < length b then -1 else if length a > length b then 1 else r else r)"
    unfolding StrCompareA_def StrLenA_def option.case Let_def nc
    using str_len_less(1) [OF assms] str_len_less(1) [OF assms(2,1)] by simp
  then show "StrCompareA (Some a) (Some b) ci < 0 \<longleftrightarrow> fold_case ci a < fold_case ci b"
    and "0 < StrCompareA (Some a) (Some b) ci \<longleftrightarrow> fold_case ci b < fold_case ci a"
    using crt_ncmp_order [of ?f a b] by (simp_all add: fold_case_def)
qed


section \<open>Searching finds the first or the last match\<close>

lemma crt_ncmp_0: "crt_ncmp f xs ys n = 0 \<longleftrightarrow> map f (take n xs) = map f (take n ys)"
  by (induction f xs ys n rule: crt_ncmp.induct) auto

lemma char_at_in: "0 \<notin> set s \<Longrightarrow> i < length s \<Longrightarrow> char_at s i = Some (s ! i) \<and> s ! i \<noteq> 0"
  by (auto simp: char_at_def in_set_conv_nth)

lemma find_loop_forward:
  "0 \<notin> set s \<Longrightarrow> p + n \<le> length s \<Longrightarrow>
     find_loop here s False p n = Some (find (\<lambda>i. here (drop i s)) [p..<p + n])"
proof (induction n arbitrary: p)
  case (Suc n)
  then show ?case
    using char_at_in [of s p] Suc.IH [of "p + 1"] by (simp add: upt_conv_Cons del: upt_Suc)
qed simp

lemma find_loop_backward:
  "0 \<notin> set s \<Longrightarrow> n \<le> length s \<Longrightarrow>
     find_loop here s True (n - 1) n = Some (find (\<lambda>i. here (drop i s)) (rev [0..<n]))"
proof (induction n)
  case (Suc n)
  then show ?case
    using char_at_in [of s n] by simp
qed simp

lemma chr_loop_find: "chr_loop s ch b p n = find_loop (\<lambda>t. t \<noteq> [] \<and> hd t = ch) s b p n"
proof (induction s ch b p n rule: chr_loop.induct)
  case (2 s ch b p n)
  show ?case
  proof (cases "p < length s")
    case True
    then have "hd (drop p s) = s ! p" "drop p s \<noteq> []"
      by (simp_all add: hd_drop_conv_nth)
    then show ?thesis
      using 2 True by (auto simp: char_at_def)
  next
    case False
    then show ?thesis
      by (auto simp: char_at_def)
  qed
qed simp

lemma StrNFindA_find:
  assumes s: "str_fits s" "0 \<notin> set s" and pat: "str_fits pat" "pat \<noteq> []" and n: "unat nLen \<le> length s"
  shows "StrNFindA s pat nLen bReverse ci =
    Some (find (\<lambda>i. fold_case ci (take (length pat) (drop i s)) = fold_case ci pat)
      (if bReverse then rev [0..<Suc (unat nLen) - length pat] else [0..<Suc (unat nLen) - length pat]))"
proof -
  let ?m = "of_nat (length pat) :: u64"
  have m: "unat ?m = length pat" "?m \<noteq> 0"
    using str_len_less(2) [OF pat(1) pat(1)] pat(2) by (auto simp: unat_eq_0 [symmetric])
  have here: "StrNCompareA (Some t) (Some pat) ?m ci = 0 \<longleftrightarrow> fold_case ci (take (length pat) t) = fold_case ci pat" for t
    using m by (simp add: StrNCompareA_def crt_ncmp_0 fold_case_def)
  show ?thesis
  proof (cases "length pat \<le> unat nLen")
    case False
    then have "?m > nLen"
      using m by (simp add: word_less_nat_alt)
    then show ?thesis
      using False by (auto simp: StrNFindA_def StrLenA_def Let_def)
  next
    case True
    then have le: "\<not> ?m > nLen" "?m - 1 \<le> nLen" "unat (?m - 1) = length pat - 1"
      using m pat(2) by (auto simp: word_less_nat_alt word_le_nat_alt unat_sub_le Suc_le_eq)
    then have k: "unat (nLen - (?m - 1)) = Suc (unat nLen) - length pat"
      using True m pat(2) by (cases "length pat") (auto simp: unat_sub_le)
    have len: "Suc (unat nLen) - length pat \<le> length s"
      using n pat(2) by (cases pat) auto
    show ?thesis
      using k le(1) m find_loop_forward [OF s(2), of 0, simplified, OF len] find_loop_backward [OF s(2) len]
      by (simp add: StrNFindA_def StrLenA_def Let_def here)
  qed
qed

end
