(* ===== verification/Core_Props.thy ===== *)
theory Core_Props
  imports ArrayList Strings MemoryObjects
begin

text \<open>
  The properties of the memory primitives, of the string comparisons and searches and of the array
  list, over the lemmas of their theories.
\<close>

section \<open>Memory primitives\<close>

text \<open>C39. \<open>MxMemMove\<close> moves a block right whatever the alignment of its ends, the length and the
  overlap: afterwards the destination holds what the source held before, and no other byte has changed.\<close>

theorem mem_move:
  "MxMemMove m lpDest lpSrc nCount = (\<lambda>x. if lpDest \<le> x \<and> x < lpDest + nCount then m (lpSrc + (x - lpDest)) else m x)"
  by (simp add: MxMemMove_fill fill_def)

text \<open>\<open>MxMemSet\<close> writes the low byte of the value over the block and over nothing else, and
  \<open>MxMemCompare\<close>, which skips whole words first, has the sign of the lexicographic order of the blocks.\<close>

theorem mem_set_compare:
  "MxMemSet m lpDest nVal nCount = (\<lambda>x. if lpDest \<le> x \<and> x < lpDest + nCount then of_int nVal else m x) \<and>
   (MxMemCompare m p q n = 0 \<longleftrightarrow> bytes m p n = bytes m q n) \<and> (MxMemCompare m p q n < 0 \<longleftrightarrow> bytes m p n < bytes m q n)"
  by (simp add: MxMemSet_fill fill_def MxMemCompare_sign)

section \<open>Strings\<close>

lemma StrCompareW_order:
  assumes "str_fits a" and "str_fits b"
  shows "StrCompareW (Some a) (Some b) ci < 0 \<longleftrightarrow> fold_case ci a < fold_case ci b"
    and "0 < StrCompareW (Some a) (Some b) ci \<longleftrightarrow> fold_case ci b < fold_case ci a"
proof -
  let ?f = "if ci then to_lower else id :: u16 \<Rightarrow> u16"
  have m: "unat (min_length (of_nat (length a)) (of_nat (length b))) = min (length a) (length b)"
    using str_len_less [OF assms] str_len_less [OF assms(2,1)]
    by (simp add: min_length_min min_def not_less [symmetric])
  have nc: "StrNCompareW (Some a) (Some b) (min_length (of_nat (length a)) (of_nat (length b))) ci =
      crt_ncmp ?f a b (min (length a) (length b))"
    using m by (auto simp: StrNCompareW_def unat_eq_0 [symmetric])
  have "StrCompareW (Some a) (Some b) ci = (let r = crt_ncmp ?f a b (min (length a) (length b)) in
      if r = 0 then if length a < length b then -1 else if length a > length b then 1 else r else r)"
    unfolding StrCompareW_def StrLenW_def option.case Let_def nc
    using str_len_less(1) [OF assms] str_len_less(1) [OF assms(2,1)] by simp
  then show "StrCompareW (Some a) (Some b) ci < 0 \<longleftrightarrow> fold_case ci a < fold_case ci b"
    and "0 < StrCompareW (Some a) (Some b) ci \<longleftrightarrow> fold_case ci b < fold_case ci a"
    using crt_ncmp_order [of ?f a b] by (simp_all add: fold_case_def)
qed

text \<open>\<open>StrCompareA\<close> and \<open>StrCompareW\<close> are the dictionary order of the strings, of the folded
  strings when case is ignored: the sign of the result is that of the order, and 0 means equal.\<close>

theorem string_order:
  assumes "str_fits a" and "str_fits b" and "str_fits v" and "str_fits w"
  shows "sgn (StrCompareA (Some a) (Some b) ci) =
      (if fold_case ci a < fold_case ci b then -1 else if fold_case ci a = fold_case ci b then 0 else 1) \<and>
    sgn (StrCompareW (Some v) (Some w) ci) =
      (if fold_case ci v < fold_case ci w then -1 else if fold_case ci v = fold_case ci w then 0 else 1)"
proof -
  have sign: "sgn r = (if x < y then -1 else if x = y then 0 else 1)"
    if "r < 0 \<longleftrightarrow> x < y" "0 < r \<longleftrightarrow> y < x" for r :: int and x y :: "'b::linorder list"
    using that by (cases x y rule: linorder_cases) (auto simp: sgn_if)
  show ?thesis
    using assms by (intro conjI sign StrCompareA_order StrCompareW_order)
qed

lemma string_order_witness: "sgn (StrCompareA (Some [66, 97]) (Some [98]) True) = 1"
  using string_order [of "[66, 97]" "[98]" "[]" "[]" True] by (simp add: str_fits_def fold_case_def to_lower_def)

text \<open>\<open>StrNFindA\<close> returns the first position, or the last one when it searches backwards, at
  which the pattern matches, in no case reads past the string, and finds nothing exactly when no
  position within the length matches.\<close>

theorem string_find:
  assumes "str_fits s" and "0 \<notin> set s" and "str_fits pat" and "pat \<noteq> []" and "unat nLen \<le> length s"
  shows "StrNFindA s pat nLen bReverse ci =
    Some (find (\<lambda>i. fold_case ci (take (length pat) (drop i s)) = fold_case ci pat)
      (if bReverse then rev [0..<Suc (unat nLen) - length pat] else [0..<Suc (unat nLen) - length pat]))"
  by (rule StrNFindA_find [OF assms])

lemma string_find_witness: "StrNFindA [97, 98, 65, 66] [97, 98] 4 True True = Some (Some 2)"
  using string_find [of "[97, 98, 65, 66]" "[97, 98]" 4 True True]
  by (simp add: str_fits_def fold_case_def to_lower_def upt_rec)

section \<open>Array lists\<close>

text \<open>C38. On an array that holds a sequence, inserting puts the element at its index (at the end
  when the index is past it) or, without memory, changes nothing; removing takes out the range and
  deletes exactly its elements; an index out of range is refused.\<close>

theorem array_insert_remove:
  assumes "env_ok e" and "arr_rep s xs" and "fits e (Suc (length xs))"
  shows "(\<exists>ok s'. al_InsertElementAt e s x i = Some (ok, s', []) \<and>
      (if ok then arr_rep s' (take (min (unat i) (length xs)) xs @ x # drop (min (unat i) (length xs)) xs) else s' = s) \<and>
      ((\<forall>b. te_malloc e b) \<longrightarrow> ok)) \<and>
    (if unat i \<ge> length xs \<or> n = 0 \<or> i + n < i then al_RemoveElementAt s i n fin = Some (False, s, [])
     else \<exists>s'. al_RemoveElementAt s i n fin = Some (True, s', if fin then take (unat n) (drop (unat i) xs) else []) \<and>
       arr_rep s' (take (unat i) xs @ drop (unat i + unat n) xs))"
  using al_InsertElementAt_rep [OF assms, of x i] al_RemoveElementAt_rep [OF assms(2), of i n fin] by (auto split: if_splits)

lemma array_insert_remove_witness:
  "\<exists>s'. al_InsertElementAt \<lparr>te_sizeof = 8, te_granularity = 32, te_zero = 0 :: nat, te_malloc = (\<lambda>_. True)\<rparr> TArrayList 5 0 =
    Some (True, s', []) \<and> arr_rep s' [5]"
  using array_insert_remove [of "\<lparr>te_sizeof = 8, te_granularity = 32, te_zero = 0 :: nat, te_malloc = (\<lambda>_. True)\<rparr>"
      TArrayList "[]" 5 0 0 True]
  by (auto simp: env_ok_def fits_def arr_rep_empty)

text \<open>Growing rounds the number of elements up to the granularity without looking for a wrap: a
  request for the largest size on an array of 32-element steps that holds elements succeeds, rounds
  to no elements at all, deletes every element and leaves the array empty.\<close>

theorem array_grow_wraps:
  assumes "arr_rep s xs" and "xs \<noteq> []" and "al_size s \<noteq> -1" and "te_granularity e = 32" and "te_malloc e 0"
  shows "al_SetSize e s (-1) False = Some (True, TArrayList, xs)"
proof -
  have cnt: "unat (al_count s) = length xs" "length xs \<le> unat (al_size s)"
    using assms(1) by (auto simp: arr_rep_def)
  then have pos: "0 < al_count s" "0 < al_size s"
    using assms(2) by (auto simp: word_less_nat_alt intro: Nat.gr0I)
  have big: "al_size s < -1"
    using assms(3) by (simp add: word_order.not_eq_extremum)
  have round: "((-1 :: u64) + 32 - 1) div 32 * 32 = 0"
    by simp
  have all: "items_from (al_items s) 0 (al_count s) = Some xs"
    using assms(1) by (simp add: items_from_def arr_rep_def)
  show ?thesis
    using assms(3-5) pos big all unfolding al_SetSize_def Let_def assms(4) round
    by (simp add: TArrayList_def round)
qed

lemma array_grow_wraps_witness:
  "al_SetSize \<lparr>te_sizeof = 8, te_granularity = 32, te_zero = 0, te_malloc = (\<lambda>_. True)\<rparr>
     \<lparr>al_items = [7 :: nat], al_count = 1, al_size = 1\<rparr> (-1) False = Some (True, TArrayList, [7])"
  by (rule array_grow_wraps) (simp_all add: arr_rep_def)

end
