(* ===== verification/PropertyBag.thy ===== *)
theory PropertyBag
  imports ArrayList Strings "HOL-Library.Multiset"
begin

text \<open>
  \<open>CPropertyBag\<close> of \<open>Source/PropertyBag.cpp\<close>: named values in an array sorted by name without regard
  to case. The model holds the properties by value, and every operation also returns the properties
  whose memory it released. The abstract contract is a finite map from folded names to properties.
\<close>

section \<open>Data\<close>

datatype eType = Undefined | Null | DWord | QWord | AnsiString | WideString | Double

text \<open>The union of a \<open>PROPERTY\<close>; a double is its 64 bits.\<close>

datatype prop_u = UNone | UDWord u32 | UQWord u64 | UDouble u64 | UAnsi "u8 str" | UWide "u16 str"

record PROPERTY =
  pr_nType :: eType
  pr_szNameA :: "u8 str"
  pr_u :: prop_u

datatype hresult = S_OK | E_POINTER | E_INVALIDARG | E_OUTOFMEMORY | E_FAIL | MX_E_NotFound

type_synonym bag = "PROPERTY arr"

type_synonym bag_result = "(hresult \<times> bag \<times> PROPERTY list) option"

text \<open>The allocator of the array and the one of the properties.\<close>

record bag_env =
  be_list :: "PROPERTY tenv"
  be_malloc :: "u64 \<Rightarrow> bool"

definition sizeof_PROPERTY :: u64 where
  "sizeof_PROPERTY = 24"

section \<open>Insertion and search by name\<close>

definition InsertCompareFunc :: "PROPERTY \<Rightarrow> PROPERTY \<Rightarrow> int" where
  "InsertCompareFunc lpItem1 lpItem2 = StrCompareA (Some (pr_szNameA lpItem1)) (Some (pr_szNameA lpItem2)) True"

definition SearchCompareFunc :: "u8 str \<Rightarrow> PROPERTY \<Rightarrow> int" where
  "SearchCompareFunc lpKey lpItem = StrCompareA (Some lpKey) (Some (pr_szNameA lpItem)) True"

definition pb_Find :: "bag \<Rightarrow> u8 str \<Rightarrow> u64 option" where
  "pb_Find s szNameA = al_BinarySearch s szNameA (Some SearchCompareFunc)"

definition pb_Insert :: "bag_env \<Rightarrow> bag \<Rightarrow> PROPERTY \<Rightarrow> (bool \<times> bag \<times> PROPERTY list) option" where
  "pb_Insert e s lpNewProp = do {
     nIndex \<leftarrow> pb_Find s (pr_szNameA lpNewProp);
     if nIndex \<noteq> -1 then do {
       lpOldProp \<leftarrow> al_GetElementAt s nIndex;
       xs \<leftarrow> set_item (al_items s) nIndex lpNewProp;
       Some (True, s\<lparr>al_items := xs\<rparr>, [lpOldProp])
     }
     else do {
       (ok, _, s, freed) \<leftarrow> al_SortedInsert (be_list e) s lpNewProp (Some InsertCompareFunc) False;
       Some (ok, s, freed)
     }
   }"

section \<open>Setting\<close>

text \<open>
  The common body of the setters: the tests of the name, the allocation of \<open>nExtra\<close> bytes behind
  the name, and the insertion, whose failure releases the new property.
\<close>

definition pb_set :: "bag_env \<Rightarrow> bag \<Rightarrow> u8 str \<Rightarrow> u64 \<Rightarrow> eType \<Rightarrow> prop_u \<Rightarrow> bag_result" where
  "pb_set e s name nExtra t u =
     (if name = [] then Some (E_INVALIDARG, s, [])
      else
        let nNameLen = StrLenA (Some name) + 1 in
        if \<not> be_malloc e (sizeof_PROPERTY + nNameLen + nExtra) then Some (E_OUTOFMEMORY, s, [])
        else
          let lpNewProp = \<lparr>pr_nType = t, pr_szNameA = name, pr_u = u\<rparr> in do {
            (ok, s, freed) \<leftarrow> pb_Insert e s lpNewProp;
            if \<not> ok then Some (E_OUTOFMEMORY, s, freed @ [lpNewProp]) else Some (S_OK, s, freed)
          })"

definition SetNull :: "bag_env \<Rightarrow> bag \<Rightarrow> u8 str option \<Rightarrow> bag_result" where
  "SetNull e s szNameA =
     (case szNameA of None \<Rightarrow> Some (E_POINTER, s, []) | Some name \<Rightarrow> pb_set e s name 0 Null UNone)"

definition SetDWord :: "bag_env \<Rightarrow> bag \<Rightarrow> u8 str option \<Rightarrow> u32 \<Rightarrow> bag_result" where
  "SetDWord e s szNameA dwValue =
     (case szNameA of None \<Rightarrow> Some (E_POINTER, s, []) | Some name \<Rightarrow> pb_set e s name 0 DWord (UDWord dwValue))"

definition SetQWord :: "bag_env \<Rightarrow> bag \<Rightarrow> u8 str option \<Rightarrow> u64 \<Rightarrow> bag_result" where
  "SetQWord e s szNameA ullValue =
     (case szNameA of None \<Rightarrow> Some (E_POINTER, s, []) | Some name \<Rightarrow> pb_set e s name 0 QWord (UQWord ullValue))"

definition SetDouble :: "bag_env \<Rightarrow> bag \<Rightarrow> u8 str option \<Rightarrow> u64 \<Rightarrow> bag_result" where
  "SetDouble e s szNameA nValue =
     (case szNameA of None \<Rightarrow> Some (E_POINTER, s, []) | Some name \<Rightarrow> pb_set e s name 0 Double (UDouble nValue))"

definition SetStringA :: "bag_env \<Rightarrow> bag \<Rightarrow> u8 str option \<Rightarrow> u8 str option \<Rightarrow> bag_result" where
  "SetStringA e s szNameA szValueA =
     (case (szNameA, szValueA) of
        (Some name, Some v) \<Rightarrow> pb_set e s name (StrLenA (Some v) + 1) AnsiString (UAnsi v)
      | _ \<Rightarrow> Some (E_POINTER, s, []))"

definition SetStringW :: "bag_env \<Rightarrow> bag \<Rightarrow> u8 str option \<Rightarrow> u16 str option \<Rightarrow> bag_result" where
  "SetStringW e s szNameA szValueW =
     (case (szNameA, szValueW) of
        (Some name, Some v) \<Rightarrow> pb_set e s name ((StrLenW (Some v) + 1) * 2) WideString (UWide v)
      | _ \<Rightarrow> Some (E_POINTER, s, []))"

definition Clear :: "bag \<Rightarrow> u8 str option \<Rightarrow> bag_result" where
  "Clear s szNameA =
     (case szNameA of
        None \<Rightarrow> Some (E_POINTER, s, [])
      | Some name \<Rightarrow>
          if name = [] then Some (E_INVALIDARG, s, [])
          else do {
            nIndex \<leftarrow> pb_Find s name;
            if nIndex = -1 then Some (MX_E_NotFound, s, [])
            else do {
              (_, s, freed) \<leftarrow> al_RemoveElementAt s nIndex 1 True;
              Some (S_OK, s, freed)
            }
          })"

definition Reset :: "bag \<Rightarrow> (bag \<times> PROPERTY list) option" where
  "Reset s = al_RemoveAllElements s"

section \<open>Reading\<close>

definition GetAt :: "bag \<Rightarrow> u64 \<Rightarrow> u8 str option option" where
  "GetAt s nIndex =
     (if nIndex \<ge> al_GetCount s then Some None
      else map_option (\<lambda>p. Some (pr_szNameA p)) (al_GetElementAt s nIndex))"

definition GetType_at :: "bag \<Rightarrow> u64 \<Rightarrow> eType option" where
  "GetType_at s nIndex =
     (if nIndex \<ge> al_GetCount s then Some Undefined else map_option pr_nType (al_GetElementAt s nIndex))"

definition GetType :: "bag \<Rightarrow> u8 str option \<Rightarrow> eType option" where
  "GetType s szNameA =
     (case szNameA of
        None \<Rightarrow> Some Undefined
      | Some name \<Rightarrow>
          if name = [] then Some Undefined
          else do {
            nIndex \<leftarrow> pb_Find s name;
            if nIndex = -1 then Some Undefined else map_option pr_nType (al_GetElementAt s nIndex)
          })"

text \<open>
  The common bodies of the getters by index and by name: the type is tested and the member of the
  union read, otherwise the default stays.
\<close>

definition pb_read :: "bag \<Rightarrow> u64 \<Rightarrow> eType \<Rightarrow> (prop_u \<Rightarrow> 'v option) \<Rightarrow> 'v \<Rightarrow> (hresult \<times> 'v) option" where
  "pb_read s nIndex t member dflt = do {
     p \<leftarrow> al_GetElementAt s nIndex;
     if pr_nType p \<noteq> t then Some (E_FAIL, dflt)
     else do { v \<leftarrow> member (pr_u p); Some (S_OK, v) }
   }"

definition pb_get_at :: "bag \<Rightarrow> u64 \<Rightarrow> eType \<Rightarrow> (prop_u \<Rightarrow> 'v option) \<Rightarrow> 'v \<Rightarrow> (hresult \<times> 'v) option" where
  "pb_get_at s nIndex t member dflt =
     (if nIndex \<ge> al_GetCount s then Some (E_INVALIDARG, dflt) else pb_read s nIndex t member dflt)"

definition pb_get ::
    "bag \<Rightarrow> u8 str option \<Rightarrow> eType \<Rightarrow> (prop_u \<Rightarrow> 'v option) \<Rightarrow> 'v \<Rightarrow> (hresult \<times> 'v) option" where
  "pb_get s szNameA t member dflt =
     (case szNameA of
        None \<Rightarrow> Some (E_POINTER, dflt)
      | Some name \<Rightarrow>
          if name = [] then Some (E_INVALIDARG, dflt)
          else do {
            nIndex \<leftarrow> pb_Find s name;
            if nIndex = -1 then Some (MX_E_NotFound, dflt) else pb_read s nIndex t member dflt
          })"

fun as_dword :: "prop_u \<Rightarrow> u32 option" where
  "as_dword (UDWord v) = Some v"
| "as_dword _ = None"

fun as_qword :: "prop_u \<Rightarrow> u64 option" where
  "as_qword (UQWord v) = Some v"
| "as_qword _ = None"

fun as_double :: "prop_u \<Rightarrow> u64 option" where
  "as_double (UDouble v) = Some v"
| "as_double _ = None"

fun as_ansi :: "prop_u \<Rightarrow> u8 str option option" where
  "as_ansi (UAnsi v) = Some (Some v)"
| "as_ansi _ = None"

fun as_wide :: "prop_u \<Rightarrow> u16 str option option" where
  "as_wide (UWide v) = Some (Some v)"
| "as_wide _ = None"

definition GetDWord_at :: "bag \<Rightarrow> u64 \<Rightarrow> u32 \<Rightarrow> (hresult \<times> u32) option" where
  "GetDWord_at s nIndex dwDefValue = pb_get_at s nIndex DWord as_dword dwDefValue"

definition GetQWord_at :: "bag \<Rightarrow> u64 \<Rightarrow> u64 \<Rightarrow> (hresult \<times> u64) option" where
  "GetQWord_at s nIndex ullDefValue = pb_get_at s nIndex QWord as_qword ullDefValue"

definition GetDouble_at :: "bag \<Rightarrow> u64 \<Rightarrow> u64 \<Rightarrow> (hresult \<times> u64) option" where
  "GetDouble_at s nIndex nDefValue = pb_get_at s nIndex Double as_double nDefValue"

definition GetStringA_at :: "bag \<Rightarrow> u64 \<Rightarrow> u8 str option \<Rightarrow> (hresult \<times> u8 str option) option" where
  "GetStringA_at s nIndex szDefValueA = pb_get_at s nIndex AnsiString as_ansi szDefValueA"

definition GetStringW_at :: "bag \<Rightarrow> u64 \<Rightarrow> u16 str option \<Rightarrow> (hresult \<times> u16 str option) option" where
  "GetStringW_at s nIndex szDefValueW = pb_get_at s nIndex WideString as_wide szDefValueW"

definition GetDWord :: "bag \<Rightarrow> u8 str option \<Rightarrow> u32 \<Rightarrow> (hresult \<times> u32) option" where
  "GetDWord s szNameA dwDefValue = pb_get s szNameA DWord as_dword dwDefValue"

definition GetQWord :: "bag \<Rightarrow> u8 str option \<Rightarrow> u64 \<Rightarrow> (hresult \<times> u64) option" where
  "GetQWord s szNameA ullDefValue = pb_get s szNameA QWord as_qword ullDefValue"

definition GetDouble :: "bag \<Rightarrow> u8 str option \<Rightarrow> u64 \<Rightarrow> (hresult \<times> u64) option" where
  "GetDouble s szNameA nDefValue = pb_get s szNameA Double as_double nDefValue"

definition GetStringA :: "bag \<Rightarrow> u8 str option \<Rightarrow> u8 str option \<Rightarrow> (hresult \<times> u8 str option) option" where
  "GetStringA s szNameA szDefValueA = pb_get s szNameA AnsiString as_ansi szDefValueA"

definition GetStringW :: "bag \<Rightarrow> u8 str option \<Rightarrow> u16 str option \<Rightarrow> (hresult \<times> u16 str option) option" where
  "GetStringW s szNameA szDefValueW = pb_get s szNameA WideString as_wide szDefValueW"


section \<open>Names are ordered without regard to case\<close>

abbreviation name_key :: "PROPERTY \<Rightarrow> u8 str" where
  "name_key p \<equiv> fold_case True (pr_szNameA p)"

definition name_fits :: "PROPERTY \<Rightarrow> bool" where
  "name_fits p \<longleftrightarrow> str_fits (pr_szNameA p)"

interpretation names: sorted_array name_key InsertCompareFunc SearchCompareFunc "fold_case True" name_fits str_fits
  by unfold_locales (simp_all add: InsertCompareFunc_def SearchCompareFunc_def name_fits_def StrCompareA_order)

section \<open>The map a bag holds\<close>

text \<open>The member of the union that is live is the one the type names.\<close>

fun type_agrees :: "eType \<Rightarrow> prop_u \<Rightarrow> bool" where
  "type_agrees Null UNone = True"
| "type_agrees DWord (UDWord _) = True"
| "type_agrees QWord (UQWord _) = True"
| "type_agrees Double (UDouble _) = True"
| "type_agrees AnsiString (UAnsi _) = True"
| "type_agrees WideString (UWide _) = True"
| "type_agrees _ _ = False"

definition prop_ok :: "PROPERTY \<Rightarrow> bool" where
  "prop_ok p \<longleftrightarrow> name_fits p \<and> pr_szNameA p \<noteq> [] \<and> type_agrees (pr_nType p) (pr_u p)"

definition bag_inv :: "PROPERTY list \<Rightarrow> bool" where
  "bag_inv ps \<longleftrightarrow> sorted (map name_key ps) \<and> distinct (map name_key ps) \<and> (\<forall>p \<in> set ps. prop_ok p)"

definition bag_map :: "PROPERTY list \<Rightarrow> u8 str \<rightharpoonup> PROPERTY" where
  "bag_map ps = map_of (map (\<lambda>p. (name_key p, p)) ps)"

definition bag_rep :: "bag \<Rightarrow> PROPERTY list \<Rightarrow> bool" where
  "bag_rep s ps \<longleftrightarrow> arr_rep s ps \<and> bag_inv ps"

lemma bag_rep_empty: "bag_rep TArrayList []"
  by (simp add: bag_rep_def bag_inv_def arr_rep_empty)

lemma bag_map_Some:
  assumes "bag_inv ps"
  shows "bag_map ps k = Some p \<longleftrightarrow> p \<in> set ps \<and> name_key p = k"
proof -
  have "distinct (map fst (map (\<lambda>p. (name_key p, p)) ps))"
    using assms by (simp add: bag_inv_def comp_def)
  then show ?thesis
    unfolding bag_map_def by (subst map_of_eq_Some_iff) auto
qed

lemma bag_map_None: "bag_map ps k = None \<longleftrightarrow> k \<notin> name_key ` set ps"
  by (simp add: bag_map_def map_of_eq_None_iff image_image)

text \<open>Two bags with the same members are the same map.\<close>

lemma bag_map_eqI:
  assumes inv: "bag_inv ps" and mem: "\<And>p k. m k = Some p \<longleftrightarrow> p \<in> set ps \<and> name_key p = k"
  shows "bag_map ps = m"
proof
  fix k
  show "bag_map ps k = m k"
  proof (cases "m k")
    case None
    then show ?thesis
      using mem bag_map_Some [OF inv] by (metis option.exhaust)
  next
    case (Some p)
    then show ?thesis
      using mem bag_map_Some [OF inv] by metis
  qed
qed

lemma pb_Find_rep:
  assumes rep: "bag_rep s ps" and name: "str_fits name"
  shows "\<exists>i. pb_Find s name = Some i \<and>
    (case bag_map ps (fold_case True name) of
       None \<Rightarrow> i = -1
     | Some p \<Rightarrow> i \<noteq> -1 \<and> unat i < length ps \<and> ps ! unat i = p)"
proof -
  have ar: "arr_rep s ps" and sd: "sorted (map name_key ps)" and all: "\<forall>p \<in> set ps. name_fits p"
    using rep by (auto simp: bag_rep_def bag_inv_def prop_ok_def)
  obtain i where i: "pb_Find s name = Some i"
      "if fold_case True name \<in> name_key ` set ps then unat i < length ps \<and> name_key (ps ! unat i) = fold_case True name
       else i = -1"
    using names.binary_search [OF ar sd name all] unfolding pb_Find_def by blast
  have "i \<noteq> -1" if "unat i < length ps"
  proof -
    have "i < al_count s"
      using that ar by (simp add: arr_rep_def word_less_nat_alt)
    then show ?thesis
      by (metis word_order.extremum_strict)
  qed
  moreover have "bag_map ps (fold_case True name) = Some (ps ! unat i)"
    if "unat i < length ps" "name_key (ps ! unat i) = fold_case True name"
    using that rep by (simp add: bag_map_Some bag_rep_def)
  ultimately show ?thesis
    using i by (auto simp: bag_map_None split: if_splits option.split)
qed

section \<open>Insertion and removal on the map\<close>

lemma update_inv:
  assumes inv: "bag_inv ps" and i: "i < length ps" and new: "prop_ok p" "name_key (ps ! i) = name_key p"
  shows "bag_inv (ps[i := p])" and "bag_map (ps[i := p]) = (bag_map ps)(name_key p \<mapsto> p)"
proof -
  have keys: "map name_key (ps[i := p]) = map name_key ps"
    using i new(2) by (simp add: map_update list_update_same_conv)
  have "\<forall>q \<in> set (ps[i := p]). prop_ok q"
    using inv new(1) set_update_subset_insert [of ps i p] by (auto simp: bag_inv_def)
  then show inv': "bag_inv (ps[i := p])"
    using inv unfolding bag_inv_def keys by simp
  have idx: "j = i" if "j < length ps" "name_key (ps ! j) = name_key p" for j
    using that inv i new(2) nth_eq_iff_index_eq [of "map name_key ps" j i] by (simp add: bag_inv_def)
  show "bag_map (ps[i := p]) = (bag_map ps)(name_key p \<mapsto> p)"
  proof (rule bag_map_eqI [OF inv'])
    fix q k
    have "q \<in> set (ps[i := p]) \<longleftrightarrow> q = p \<or> q \<in> set ps \<and> name_key q \<noteq> name_key p" 
    proof
      assume "q \<in> set (ps[i := p])"
      then obtain j where "j < length ps" "q = ps[i := p] ! j"
        by (auto simp: in_set_conv_nth)
      then show "q = p \<or> q \<in> set ps \<and> name_key q \<noteq> name_key p"
        using idx [of j] by (metis length_list_update nth_list_update_eq nth_list_update_neq nth_mem)
    next
      assume "q = p \<or> q \<in> set ps \<and> name_key q \<noteq> name_key p"
      then show "q \<in> set (ps[i := p])"
      proof
        assume "q \<in> set ps \<and> name_key q \<noteq> name_key p"
        then obtain j where "j < length ps" "q = ps ! j" "j \<noteq> i"
          using new(2) by (auto simp: in_set_conv_nth)
        then show ?thesis
          by (metis length_list_update nth_list_update_neq nth_mem)
      qed (use i in \<open>simp add: set_update_memI\<close>)
    qed
    then show "((bag_map ps)(name_key p \<mapsto> p)) k = Some q \<longleftrightarrow> q \<in> set (ps[i := p]) \<and> name_key q = k"
      using bag_map_Some [OF inv, of k q] by (cases "k = name_key p") (simp, blast)+
  qed
qed

lemma arr_rep_update: "arr_rep s xs \<Longrightarrow> unat i < length xs \<Longrightarrow>
    set_item (al_items s) i x = Some ((al_items s)[unat i := x]) \<and> arr_rep (s\<lparr>al_items := (al_items s)[unat i := x]\<rparr>) (xs[unat i := x])"
  by (auto simp: arr_rep_def set_item_def take_update_swap)

lemma insert_inv:
  assumes inv: "bag_inv ps" and new: "prop_ok p" "name_key p \<notin> name_key ` set ps"
  defines "qs \<equiv> takeWhile (\<lambda>q. name_key q < name_key p) ps @ p # dropWhile (\<lambda>q. name_key q < name_key p) ps"
  shows "bag_inv qs" and "bag_map qs = (bag_map ps)(name_key p \<mapsto> p)"
proof -
  have sets: "set qs = insert p (set ps)"
    unfolding qs_def by (metis Un_insert_right list.simps(15) set_append takeWhile_dropWhile_id)
  have "mset qs = mset (p # ps)"
    unfolding qs_def by (metis mset.simps(2) mset_append takeWhile_dropWhile_id union_mset_add_mset_right)
  then have "mset (map name_key qs) = mset (name_key p # map name_key ps)"
    by simp
  then have "distinct (map name_key qs) \<longleftrightarrow> distinct (name_key p # map name_key ps)"
    by (rule mset_eq_imp_distinct_iff)
  then show inv': "bag_inv qs"
    using inv new names.sorted_cut [of ps p] sets by (auto simp: bag_inv_def qs_def)
  show "bag_map qs = (bag_map ps)(name_key p \<mapsto> p)"
    using new(2) by (intro bag_map_eqI [OF inv']) (auto simp: sets bag_map_Some [OF inv] image_iff split: if_splits)
qed

lemma pb_Insert_rep:
  assumes env: "env_ok (be_list e)" and rep: "bag_rep s ps" and fit: "fits (be_list e) (Suc (length ps))" and p: "prop_ok p"
  shows "\<exists>ok s' freed. pb_Insert e s p = Some (ok, s', freed) \<and>
    (if ok then (\<exists>qs. bag_rep s' qs \<and> bag_map qs = (bag_map ps)(name_key p \<mapsto> p)) \<and>
        freed = (case bag_map ps (name_key p) of None \<Rightarrow> [] | Some q \<Rightarrow> [q])
     else s' = s \<and> freed = []) \<and>
    ((\<forall>b. te_malloc (be_list e) b) \<longrightarrow> ok)"
proof -
  have name: "str_fits (pr_szNameA p)" "name_fits p"
    using p by (simp_all add: prop_ok_def name_fits_def)
  have ar: "arr_rep s ps" and inv: "bag_inv ps" and sd: "sorted (map name_key ps)" and all: "\<forall>q \<in> set ps. name_fits q"
    using rep by (auto simp: bag_rep_def bag_inv_def prop_ok_def)
  obtain i where i: "pb_Find s (pr_szNameA p) = Some i"
      "case bag_map ps (name_key p) of None \<Rightarrow> i = -1 | Some q \<Rightarrow> i \<noteq> -1 \<and> unat i < length ps \<and> ps ! unat i = q"
    using pb_Find_rep [OF rep name(1)] by blast
  show ?thesis
  proof (cases "bag_map ps (name_key p)")
    case (Some q)
    then have q: "i \<noteq> -1" "unat i < length ps" "ps ! unat i = q" "name_key q = name_key p"
      using i(2) bag_map_Some [OF inv, of "name_key p" q] unfolding Some by simp_all
    show ?thesis
      using update_inv [OF inv q(2) p] q arr_rep_update [OF ar q(2), of p] al_GetElementAt_rep [OF ar q(2)] Some i(1)
      by (auto simp: pb_Insert_def bag_rep_def)
  next
    case None
    obtain ok dup s' where ins: "al_SortedInsert (be_list e) s p (Some InsertCompareFunc) False = Some (ok, dup, s', [])"
        "if ok then arr_rep s' (takeWhile (\<lambda>q. name_key q < name_key p) ps @ p # dropWhile (\<lambda>q. name_key q < name_key p) ps)
         else s' = s" "(\<forall>b. te_malloc (be_list e) b) \<longrightarrow> ok"
      using names.sorted_insert [OF env ar fit sd name(2) all, of False] unfolding simp_thms if_False by blast
    have "name_key p \<notin> name_key ` set ps"
      using None by (simp add: bag_map_None)
    note new = insert_inv [OF inv p this]
    show ?thesis
      using None i ins new by (cases ok) (auto simp: pb_Insert_def bag_rep_def)
  qed
qed

lemma delete_inv:
  assumes inv: "bag_inv ps" and i: "i < length ps"
  shows "bag_inv (take i ps @ drop (Suc i) ps)"
    and "bag_map (take i ps @ drop (Suc i) ps) = (bag_map ps)(name_key (ps ! i) := None)"
proof -
  let ?qs = "take i ps @ drop (Suc i) ps"
  have ps: "ps = take i ps @ ps ! i # drop (Suc i) ps"
    using i by (rule id_take_nth_drop)
  have keys: "map name_key ps = map name_key (take i ps) @ name_key (ps ! i) # map name_key (drop (Suc i) ps)"
    by (subst ps) simp
  have inv': "bag_inv ?qs \<and> name_key (ps ! i) \<notin> name_key ` set ?qs"
    using inv in_set_takeD [of _ i ps] in_set_dropD [of _ "Suc i" ps] unfolding bag_inv_def keys
    by (auto simp: sorted_append)
  then show "bag_inv ?qs" by blast
  have "q \<in> set ps \<longleftrightarrow> q = ps ! i \<or> q \<in> set ?qs" for q
    by (subst (1) ps) auto
  moreover have "name_key q \<noteq> name_key (ps ! i)" if "q \<in> set ?qs" for q
    using inv' that by (metis imageI)
  ultimately show "bag_map ?qs = (bag_map ps)(name_key (ps ! i) := None)"
    using inv' by (intro bag_map_eqI) (auto simp: bag_map_Some [OF inv] split: if_splits)
qed

section \<open>What the operations promise\<close>

text \<open>
  A setter stores \<open>p\<close> under the folded name and releases the property it replaces; it fails only for
  an empty name or for lack of memory, and then leaves the bag as it was and releases at most the
  property it had made.
\<close>

definition set_spec :: "bag_env \<Rightarrow> bag \<Rightarrow> PROPERTY list \<Rightarrow> PROPERTY \<Rightarrow> bag_result \<Rightarrow> bool" where
  "set_spec e s ps p r \<longleftrightarrow> (\<exists>hr s' freed. r = Some (hr, s', freed) \<and>
     (if pr_szNameA p = [] then hr = E_INVALIDARG \<and> s' = s \<and> freed = []
      else if hr = S_OK then
        (\<exists>qs. bag_rep s' qs \<and> bag_map qs = (bag_map ps)(name_key p \<mapsto> p)) \<and>
        freed = (case bag_map ps (name_key p) of None \<Rightarrow> [] | Some q \<Rightarrow> [q])
      else hr = E_OUTOFMEMORY \<and> s' = s \<and> (freed = [] \<or> freed = [p])) \<and>
     ((\<forall>b. be_malloc e b) \<and> (\<forall>b. te_malloc (be_list e) b) \<and> pr_szNameA p \<noteq> [] \<longrightarrow> hr = S_OK))"

text \<open>A getter reads the member the type names, of the property the map has under the folded name.\<close>

definition get_spec ::
    "(u8 str \<rightharpoonup> PROPERTY) \<Rightarrow> u8 str option \<Rightarrow> eType \<Rightarrow> (prop_u \<Rightarrow> 'v) \<Rightarrow> 'v \<Rightarrow> hresult \<times> 'v" where
  "get_spec m szNameA t val d =
     (case szNameA of
        None \<Rightarrow> (E_POINTER, d)
      | Some name \<Rightarrow>
          if name = [] then (E_INVALIDARG, d)
          else case m (fold_case True name) of
            None \<Rightarrow> (MX_E_NotFound, d)
          | Some p \<Rightarrow> if pr_nType p = t then (S_OK, val (pr_u p)) else (E_FAIL, d))"

lemma pb_set_rep:
  assumes env: "env_ok (be_list e)" and rep: "bag_rep s ps" and fit: "fits (be_list e) (Suc (length ps))"
    and name: "str_fits name" and u: "type_agrees t u"
  shows "set_spec e s ps \<lparr>pr_nType = t, pr_szNameA = name, pr_u = u\<rparr> (pb_set e s name n t u)"
proof (cases "name = [] \<or> \<not> be_malloc e (sizeof_PROPERTY + (StrLenA (Some name) + 1) + n)")
  case True
  then show ?thesis
    by (auto simp: pb_set_def set_spec_def Let_def)
next
  case False
  let ?p = "\<lparr>pr_nType = t, pr_szNameA = name, pr_u = u\<rparr>"
  have "prop_ok ?p"
    using False name u by (simp add: prop_ok_def name_fits_def)
  then obtain ok s' freed where ins: "pb_Insert e s ?p = Some (ok, s', freed)"
      "if ok then (\<exists>qs. bag_rep s' qs \<and> bag_map qs = (bag_map ps)(name_key ?p \<mapsto> ?p)) \<and>
          freed = (case bag_map ps (name_key ?p) of None \<Rightarrow> [] | Some q \<Rightarrow> [q])
       else s' = s \<and> freed = []" "(\<forall>b. te_malloc (be_list e) b) \<longrightarrow> ok"
    using pb_Insert_rep [OF env rep fit, of ?p] by blast
  have step: "pb_set e s name n t u = (if ok then Some (S_OK, s', freed) else Some (E_OUTOFMEMORY, s', freed @ [?p]))"
    using False ins(1) by (simp add: pb_set_def Let_def)
  show ?thesis
    using False ins(2,3) by (cases ok) (simp_all add: set_spec_def step)
qed

lemma pb_get_rep:
  assumes rep: "bag_rep s ps" and name: "\<And>name. szNameA = Some name \<Longrightarrow> str_fits name"
    and val: "\<And>u. type_agrees t u \<Longrightarrow> member u = Some (val u)"
  shows "pb_get s szNameA t member d = Some (get_spec (bag_map ps) szNameA t val d)"
proof (cases "szNameA = None \<or> szNameA = Some []")
  case False
  then obtain name where n: "szNameA = Some name" "name \<noteq> []" "str_fits name"
    using name by auto
  obtain i where i: "pb_Find s name = Some i"
      "case bag_map ps (fold_case True name) of None \<Rightarrow> i = -1
       | Some p \<Rightarrow> i \<noteq> -1 \<and> unat i < length ps \<and> ps ! unat i = p"
    using pb_Find_rep [OF rep n(3)] by blast
  show ?thesis
  proof (cases "bag_map ps (fold_case True name)")
    case None
    then show ?thesis
      using i n by (simp add: pb_get_def get_spec_def)
  next
    case (Some p)
    then have p: "i \<noteq> -1" "unat i < length ps" "ps ! unat i = p"
      using i(2) by auto
    then have "type_agrees (pr_nType p) (pr_u p)"
      using rep nth_mem [OF p(2)] by (auto simp: bag_rep_def bag_inv_def prop_ok_def)
    then have "pb_read s i t member d = Some (if pr_nType p = t then (S_OK, val (pr_u p)) else (E_FAIL, d))"
      using rep p al_GetElementAt_rep [of s ps i] val by (auto simp: pb_read_def bag_rep_def)
    then show ?thesis
      using i(1) n Some p(1) by (simp add: pb_get_def get_spec_def)
  qed
qed (auto simp: pb_get_def get_spec_def)

section \<open>Properties\<close>

text \<open>A bag that holds \<open>Ab = 7\<close>, and an allocator that never fails.\<close>

definition sample_prop :: PROPERTY where
  "sample_prop = \<lparr>pr_nType = DWord, pr_szNameA = [65, 98], pr_u = UDWord 7\<rparr>"

definition sample_bag :: bag where
  "sample_bag = \<lparr>al_items = [sample_prop], al_count = 1, al_size = 1\<rparr>"

definition sample_bag_env :: bag_env where
  "sample_bag_env = \<lparr>be_list = \<lparr>te_sizeof = 8, te_granularity = 32, te_zero = sample_prop, te_malloc = (\<lambda>_. True)\<rparr>,
     be_malloc = (\<lambda>_. True)\<rparr>"

lemma sample_bag_ok:
  "bag_rep sample_bag [sample_prop]" "env_ok (be_list sample_bag_env)" "fits (be_list sample_bag_env) (Suc (length [sample_prop]))"
  "str_fits [97 :: u8, 66]"
  by (simp_all add: bag_rep_def arr_rep_def bag_inv_def prop_ok_def name_fits_def str_fits_def sample_bag_def
      sample_prop_def sample_bag_env_def env_ok_def fits_def)

lemma sample_bag_keys: "fold_case True [97 :: u8, 66] = [97, 98]" "name_key sample_prop = [97, 98]"
  by (simp_all add: fold_case_def sample_prop_def to_lower_def)

text \<open>C32. Every setter implements the update of a map: the value is stored under the name with case
  folded, the property it replaces is released once, and without memory nothing changes.\<close>

theorem bag_setters:
  assumes "env_ok (be_list e)" and "bag_rep s ps" and "fits (be_list e) (Suc (length ps))" and "str_fits name"
  shows "set_spec e s ps \<lparr>pr_nType = Null, pr_szNameA = name, pr_u = UNone\<rparr> (SetNull e s (Some name)) \<and>
    set_spec e s ps \<lparr>pr_nType = DWord, pr_szNameA = name, pr_u = UDWord dw\<rparr> (SetDWord e s (Some name) dw) \<and>
    set_spec e s ps \<lparr>pr_nType = QWord, pr_szNameA = name, pr_u = UQWord qw\<rparr> (SetQWord e s (Some name) qw) \<and>
    set_spec e s ps \<lparr>pr_nType = Double, pr_szNameA = name, pr_u = UDouble db\<rparr> (SetDouble e s (Some name) db) \<and>
    set_spec e s ps \<lparr>pr_nType = AnsiString, pr_szNameA = name, pr_u = UAnsi a\<rparr> (SetStringA e s (Some name) (Some a)) \<and>
    set_spec e s ps \<lparr>pr_nType = WideString, pr_szNameA = name, pr_u = UWide w\<rparr> (SetStringW e s (Some name) (Some w))"
  unfolding SetNull_def SetDWord_def SetQWord_def SetDouble_def SetStringA_def SetStringW_def prod.case option.case
  by (intro conjI pb_set_rep assms) simp_all

lemma bag_setters_witness:
  "set_spec sample_bag_env sample_bag [sample_prop] \<lparr>pr_nType = DWord, pr_szNameA = [97, 66], pr_u = UDWord 9\<rparr>
    (SetDWord sample_bag_env sample_bag (Some [97, 66]) 9)"
  using bag_setters [OF sample_bag_ok(2,1,3,4), of 9 0 0 "[]" "[]"] by blast

text \<open>C33. Every getter by name reads the map: a missing name, an empty one and a value of another
  type have their own error code and leave the caller's default.\<close>

theorem bag_getters:
  assumes "bag_rep s ps" and "\<And>name. szNameA = Some name \<Longrightarrow> str_fits name"
  shows "GetDWord s szNameA dw = Some (get_spec (bag_map ps) szNameA DWord (\<lambda>u. the (as_dword u)) dw) \<and>
    GetQWord s szNameA qw = Some (get_spec (bag_map ps) szNameA QWord (\<lambda>u. the (as_qword u)) qw) \<and>
    GetDouble s szNameA db = Some (get_spec (bag_map ps) szNameA Double (\<lambda>u. the (as_double u)) db) \<and>
    GetStringA s szNameA a = Some (get_spec (bag_map ps) szNameA AnsiString (\<lambda>u. the (as_ansi u)) a) \<and>
    GetStringW s szNameA w = Some (get_spec (bag_map ps) szNameA WideString (\<lambda>u. the (as_wide u)) w)"
proof -
  have live: "type_agrees DWord u \<Longrightarrow> as_dword u = Some (the (as_dword u))"
    "type_agrees QWord u \<Longrightarrow> as_qword u = Some (the (as_qword u))"
    "type_agrees Double u \<Longrightarrow> as_double u = Some (the (as_double u))"
    "type_agrees AnsiString u \<Longrightarrow> as_ansi u = Some (the (as_ansi u))"
    "type_agrees WideString u \<Longrightarrow> as_wide u = Some (the (as_wide u))" for u
    by (cases u; simp)+
  show ?thesis
    unfolding GetDWord_def GetQWord_def GetDouble_def GetStringA_def GetStringW_def
    by (intro conjI pb_get_rep [OF assms] live)
qed

lemma bag_getters_witness: "GetDWord sample_bag (Some [97, 66]) 0 = Some (S_OK, 7)"
  using bag_getters [OF sample_bag_ok(1), of "Some [97, 66]" 0 0 0 None None] sample_bag_ok(4)
  by (simp add: get_spec_def bag_map_def sample_bag_keys) (simp add: sample_prop_def)

text \<open>\<open>Clear\<close> removes exactly the property with the given name, whatever its case, and releases
  it; a bag without the name is left as it was. \<open>Reset\<close> releases every property.\<close>

theorem bag_clear:
  assumes "bag_rep s ps" and "str_fits name" and "name \<noteq> []"
  shows "(case bag_map ps (fold_case True name) of
       None \<Rightarrow> Clear s (Some name) = Some (MX_E_NotFound, s, [])
     | Some p \<Rightarrow> (\<exists>s' qs. Clear s (Some name) = Some (S_OK, s', [p]) \<and> bag_rep s' qs \<and>
         bag_map qs = (bag_map ps)(fold_case True name := None))) \<and>
    Reset s = Some (TArrayList, ps)"
proof -
  have ar: "arr_rep s ps" and inv: "bag_inv ps"
    using assms(1) by (simp_all add: bag_rep_def)
  obtain i where i: "pb_Find s name = Some i"
      "case bag_map ps (fold_case True name) of None \<Rightarrow> i = -1
       | Some p \<Rightarrow> i \<noteq> -1 \<and> unat i < length ps \<and> ps ! unat i = p"
    using pb_Find_rep [OF assms(1,2)] by blast
  have "case bag_map ps (fold_case True name) of
       None \<Rightarrow> Clear s (Some name) = Some (MX_E_NotFound, s, [])
     | Some p \<Rightarrow> (\<exists>s' qs. Clear s (Some name) = Some (S_OK, s', [p]) \<and> bag_rep s' qs \<and>
         bag_map qs = (bag_map ps)(fold_case True name := None))"
  proof (cases "bag_map ps (fold_case True name)")
    case None
    then show ?thesis
      using i assms(3) by (simp add: Clear_def)
  next
    case (Some p)
    then have p: "i \<noteq> -1" "unat i < length ps" "ps ! unat i = p" "name_key p = fold_case True name"
      using i(2) bag_map_Some [OF inv, of "fold_case True name" p] unfolding Some by simp_all
    have "\<not> (unat i \<ge> length ps \<or> (1 :: u64) = 0 \<or> i + 1 < i)"
      using p(2) unat_inc [of i "al_count s"] ar by (auto simp: arr_rep_def word_less_nat_alt)
    then obtain s' where s': "al_RemoveElementAt s i 1 True = Some (True, s', take 1 (drop (unat i) ps))"
        "arr_rep s' (take (unat i) ps @ drop (Suc (unat i)) ps)"
      using al_RemoveElementAt_rep [OF ar, of i 1 True] by auto
    have "take 1 (drop (unat i) ps) = [p]"
      using p(2,3) by (simp add: take_Suc hd_drop_conv_nth)
    then show ?thesis
      using Some s' i(1) p delete_inv [OF inv p(2)] assms(3) by (auto simp: Clear_def bag_rep_def)
  qed
  then show ?thesis
    by (simp add: Reset_def al_RemoveAllElements_rep [OF ar])
qed

lemma bag_clear_witness: "\<exists>s'. Clear sample_bag (Some [97, 66]) = Some (S_OK, s', [sample_prop])"
  using bag_clear [OF sample_bag_ok(1,4)] by (auto simp: bag_map_def sample_bag_keys)

text \<open>What a setter stored is read back under the same name in any case, and reading any other
  name gives what it gave before.\<close>

theorem bag_round_trip:
  assumes "env_ok (be_list e)" and "bag_rep s ps" and "fits (be_list e) (Suc (length ps))"
    and "str_fits n" and "str_fits m" and "m \<noteq> []"
    and "SetStringA e s (Some n) (Some v) = Some (S_OK, s', freed)"
  shows "if fold_case True m = fold_case True n
    then GetStringA s' (Some m) d = Some (S_OK, Some v) \<and> GetDWord s' (Some m) dw = Some (E_FAIL, dw) \<and>
      GetType s' (Some m) = Some AnsiString
    else GetStringA s' (Some m) d = GetStringA s (Some m) d \<and> GetDWord s' (Some m) dw = GetDWord s (Some m) dw"
proof -
  let ?p = "\<lparr>pr_nType = AnsiString, pr_szNameA = n, pr_u = UAnsi v\<rparr>"
  have "set_spec e s ps ?p (SetStringA e s (Some n) (Some v))"
    unfolding SetStringA_def prod.case option.case by (intro pb_set_rep assms) simp
  then obtain qs where qs: "bag_rep s' qs" "bag_map qs = (bag_map ps)(name_key ?p \<mapsto> ?p)"
    using assms(7) by (auto simp: set_spec_def split: if_splits)
  have ansi: "type_agrees AnsiString u \<Longrightarrow> as_ansi u = Some (the (as_ansi u))" for u by (cases u) auto
  have dword: "type_agrees DWord u \<Longrightarrow> as_dword u = Some (the (as_dword u))" for u by (cases u) auto
  obtain i where i: "pb_Find s' m = Some i"
      "case bag_map qs (fold_case True m) of None \<Rightarrow> i = -1 | Some p \<Rightarrow> i \<noteq> -1 \<and> unat i < length qs \<and> qs ! unat i = p"
    using pb_Find_rep [OF qs(1) assms(5)] by blast
  have "GetType s' (Some m) = Some AnsiString" if "fold_case True m = fold_case True n"
    using i that assms(6) al_GetElementAt_rep [of s' qs i] qs by (auto simp: GetType_def bag_rep_def)
  then show ?thesis
    using pb_get_rep [OF qs(1) _ ansi, where szNameA = "Some m" and d = d]
      pb_get_rep [OF qs(1) _ dword, where szNameA = "Some m" and d = dw]
      pb_get_rep [OF assms(2) _ ansi, where szNameA = "Some m" and d = d]
      pb_get_rep [OF assms(2) _ dword, where szNameA = "Some m" and d = dw]
      assms(5,6) by (auto simp: GetStringA_def GetDWord_def get_spec_def qs(2))
qed

lemma bag_round_trip_witness:
  "\<exists>s'. SetStringA sample_bag_env sample_bag (Some [97, 66]) (Some [1]) = Some (S_OK, s', [sample_prop]) \<and>
    GetStringA s' (Some [65, 66]) None = Some (S_OK, Some [1])"
proof -
  let ?p = "\<lparr>pr_nType = AnsiString, pr_szNameA = [97, 66], pr_u = UAnsi [1]\<rparr>"
  have "set_spec sample_bag_env sample_bag [sample_prop] ?p (SetStringA sample_bag_env sample_bag (Some [97, 66]) (Some [1]))"
    unfolding SetStringA_def prod.case option.case by (rule pb_set_rep [OF sample_bag_ok(2,1,3,4)]) simp
  moreover have "bag_map [sample_prop] (name_key ?p) = Some sample_prop"
    by (simp add: bag_map_def sample_bag_keys)
  ultimately obtain s' where "SetStringA sample_bag_env sample_bag (Some [97, 66]) (Some [1]) = Some (S_OK, s', [sample_prop])"
    by (auto simp: set_spec_def sample_bag_env_def)
  then show ?thesis
    using bag_round_trip [OF sample_bag_ok(2,1,3,4), of "[65, 66]" "[1]" s' "[sample_prop]" None 0]
    by (simp add: fold_case_def to_lower_def str_fits_def)
qed
end
