(* ===== verification/Adler32.thy ===== *)
theory Adler32
  imports MX_Prelude
begin

unbundle bit_operations_syntax

text \<open>
  The Adler-32 checksum of zlib (\<open>Source/ZipLib/Source/adler32.c\<close>), as the Windows build compiles it:
  \<open>uLong\<close> has 32 bits and \<open>NO_DIVIDE\<close> is off. A buffer is the list of the bytes from the pointer on; a
  read past its end is \<open>None\<close>. The reference is the pair of sums modulo 65521.
\<close>

section \<open>The code\<close>

abbreviation BASE :: u32 where
  "BASE \<equiv> 65521"

abbreviation NMAX :: nat where
  "NMAX \<equiv> 5552"

definition DO1 :: "u8 list \<Rightarrow> nat \<Rightarrow> u32 \<times> u32 \<Rightarrow> (u32 \<times> u32) option" where
  "DO1 buf i = (\<lambda>(adler, sum2).
     if i < length buf then let adler = adler + ucast (buf ! i) in Some (adler, sum2 + adler) else None)"

fun DOn :: "u8 list \<Rightarrow> nat list \<Rightarrow> u32 \<times> u32 \<Rightarrow> (u32 \<times> u32) option" where
  "DOn buf [] p = Some p"
| "DOn buf (i # is) p = do { p \<leftarrow> DO1 buf i p; DOn buf is p }"

definition DO16 :: "u8 list \<Rightarrow> u32 \<times> u32 \<Rightarrow> (u32 \<times> u32) option" where
  "DO16 buf p = DOn buf [0, 1, 2, 3, 4, 5, 6, 7, 8, 9, 10, 11, 12, 13, 14, 15] p"

text \<open>The loop of single bytes, and the loop of unrolled groups of 16 with its number of turns.\<close>

fun byte_loop :: "nat \<Rightarrow> u8 list \<Rightarrow> u32 \<times> u32 \<Rightarrow> (u8 list \<times> u32 \<times> u32) option" where
  "byte_loop 0 buf p = Some (buf, p)"
| "byte_loop (Suc len) buf p = do { p \<leftarrow> DO1 buf 0 p; byte_loop len (tl buf) p }"

fun group_loop :: "nat \<Rightarrow> u8 list \<Rightarrow> u32 \<times> u32 \<Rightarrow> (u8 list \<times> u32 \<times> u32) option" where
  "group_loop 0 buf p = Some (buf, p)"
| "group_loop (Suc n) buf p = do { p \<leftarrow> DO16 buf p; group_loop n (drop 16 buf) p }"

definition MOD2 :: "u32 \<times> u32 \<Rightarrow> u32 \<times> u32" where
  "MOD2 = (\<lambda>(adler, sum2). (adler mod BASE, sum2 mod BASE))"

function nmax_loop :: "nat \<Rightarrow> u8 list \<Rightarrow> u32 \<times> u32 \<Rightarrow> (nat \<times> u8 list \<times> u32 \<times> u32) option" where
  "nmax_loop len buf p =
     (if len < NMAX then Some (len, buf, p)
      else do {
        (buf, p) \<leftarrow> group_loop (NMAX div 16) buf p;
        nmax_loop (len - NMAX) buf (MOD2 p)
      })"
  by auto
termination
  by (relation "measure (\<lambda>(len, buf, p). len)") auto

declare nmax_loop.simps [simp del]

definition adler_value :: "u32 \<times> u32 \<Rightarrow> u32" where
  "adler_value = (\<lambda>(adler, sum2). adler OR push_bit 16 sum2)"

definition chop :: "u32 \<Rightarrow> u32" where
  "chop a = (if a \<ge> BASE then a - BASE else a)"

definition adler32_z :: "u32 \<Rightarrow> u8 list option \<Rightarrow> nat \<Rightarrow> u32 option" where
  "adler32_z adler buf len =
     (let sum2 = drop_bit 16 adler AND 0xffff; adler = adler AND 0xffff in
      if len = 1 then do {
        xs \<leftarrow> buf;
        b \<leftarrow> (if xs = [] then None else Some (hd xs));
        let adler = chop (adler + ucast b);
        Some (adler_value (adler, chop (sum2 + adler)))
      }
      else
        (case buf of
           None \<Rightarrow> Some 1
         | Some xs \<Rightarrow>
             if len < 16 then do {
               (_, adler, sum2) \<leftarrow> byte_loop len xs (adler, sum2);
               Some (adler_value (chop adler, sum2 mod BASE))
             }
             else do {
               (len, xs, p) \<leftarrow> nmax_loop len xs (adler, sum2);
               p \<leftarrow>
                 (if len \<noteq> 0 then do {
                    (xs, p) \<leftarrow> group_loop (len div 16) xs p;
                    (_, p) \<leftarrow> byte_loop (len mod 16) xs p;
                    Some (MOD2 p)
                  }
                  else Some p);
               Some (adler_value p)
             }))"

text \<open>\<open>len2\<close> is the length of the second block as a signed 64-bit number.\<close>

definition adler32_combine :: "u32 \<Rightarrow> u32 \<Rightarrow> u64 \<Rightarrow> u32" where
  "adler32_combine adler1 adler2 len2 =
     (if sint len2 < 0 then 0xffffffff
      else
        let rem = (ucast (len2 mod 65521) :: u32);
            sum1 = adler1 AND 0xffff;
            sum2 = (rem * sum1) mod BASE;
            sum1 = sum1 + ((adler2 AND 0xffff) + BASE - 1);
            sum2 = sum2 + ((drop_bit 16 adler1 AND 0xffff) + (drop_bit 16 adler2 AND 0xffff) + BASE - rem);
            sum1 = chop (chop sum1);
            sum2 = (if sum2 \<ge> push_bit 1 BASE then sum2 - push_bit 1 BASE else sum2);
            sum2 = chop sum2
        in adler_value (sum1, sum2))"

section \<open>The reference\<close>

text \<open>The two sums without reduction, and the checksum they stand for.\<close>

fun sums :: "nat \<times> nat \<Rightarrow> u8 list \<Rightarrow> nat \<times> nat" where
  "sums p [] = p"
| "sums (a, s) (b # bs) = sums (a + unat b, s + (a + unat b)) bs"

definition pair_mod :: "nat \<times> nat \<Rightarrow> nat \<times> nat" where
  "pair_mod = (\<lambda>(a, s). (a mod 65521, s mod 65521))"

definition checksum :: "nat \<times> nat \<Rightarrow> nat" where
  "checksum = (\<lambda>(a, s). a mod 65521 + 65536 * (s mod 65521))"

definition reduced :: "nat \<times> nat \<Rightarrow> bool" where
  "reduced = (\<lambda>(a, s). a < 65521 \<and> s < 65521)"

definition unats :: "u32 \<times> u32 \<Rightarrow> nat \<times> nat" where
  "unats = (\<lambda>(a, s). (unat a, unat s))"

lemma sums_append: "sums p (xs @ ys) = sums (sums p xs) ys"
  by (induction p xs rule: sums.induct) auto

lemma sums_offset: "sums (a, s) bs = (fst (sums (0, 0) bs) + a, snd (sums (0, 0) bs) + s + length bs * a)"
proof (induction bs arbitrary: a s)
  case (Cons b bs)
  have "sums (a, s) (b # bs) = sums (a + unat b, s + (a + unat b)) bs"
    by simp
  also have "\<dots> = (fst (sums (0, 0) bs) + (a + unat b), snd (sums (0, 0) bs) + (s + (a + unat b)) + length bs * (a + unat b))"
    by (rule Cons.IH)
  also have "sums (0, 0) (b # bs) = (fst (sums (0, 0) bs) + unat b, snd (sums (0, 0) bs) + unat b + length bs * unat b)"
    using Cons.IH [of "unat b" "unat b"] by simp
  ultimately show ?case
    by (simp add: algebra_simps)
qed simp

lemma sums_mod: "pair_mod (sums (pair_mod p) bs) = pair_mod (sums p bs)"
proof (cases p)
  case (Pair a s)
  have "(snd (sums (0, 0) bs) + s mod 65521 + length bs * (a mod 65521)) mod 65521 =
      (snd (sums (0, 0) bs) + s + length bs * a) mod 65521"
    by (intro mod_add_cong mod_mult_cong refl) simp_all
  then show ?thesis
    unfolding Pair pair_mod_def prod.case sums_offset [of "a mod 65521"] sums_offset [of a]
    by (simp add: mod_add_right_eq)
qed

lemma byte_le: "unat (b :: u8) \<le> 255"
proof -
  have "unat b < 2 ^ LENGTH(8)"
    by (rule unsigned_less)
  then show ?thesis
    by simp
qed

lemma unat_byte: "unat (ucast (b :: u8) :: u32) = unat b"
  using byte_le [of b] by (simp add: unsigned_ucast_eq take_bit_nat_eq_self)

text \<open>The bound that \<open>NMAX\<close> is chosen for: no sum over \<open>NMAX\<close> bytes leaves 32 bits.\<close>

lemma sums_bound:
  "fst (sums (a, s) bs) \<le> a + 255 * length bs \<and> 2 * snd (sums (a, s) bs) \<le> 2 * s + 2 * length bs * a + 255 * length bs * (length bs + 1)"
proof (induction bs arbitrary: a s)
  case (Cons b bs)
  note b = byte_le [of b]
  have "fst (sums (a + unat b, s + (a + unat b)) bs) \<le> a + unat b + 255 * length bs"
      "2 * snd (sums (a + unat b, s + (a + unat b)) bs) \<le>
        2 * (s + (a + unat b)) + 2 * length bs * (a + unat b) + 255 * length bs * (length bs + 1)"
    using Cons.IH by blast+
  moreover have "2 * (s + (a + unat b)) + 2 * length bs * (a + unat b) + 255 * length bs * (length bs + 1) \<le>
      2 * (s + (a + 255)) + 2 * length bs * (a + 255) + 255 * length bs * (length bs + 1)"
    using b by (intro add_mono mult_le_mono le_refl) simp_all
  moreover have "2 * (s + (a + 255)) + 2 * length bs * (a + 255) + 255 * length bs * (length bs + 1) =
      2 * s + 2 * length (b # bs) * a + 255 * length (b # bs) * (length (b # bs) + 1)"
    by (simp add: algebra_simps)
  ultimately show ?case
    using b unfolding sums.simps by simp
qed simp

lemma sums_fit:
  assumes "reduced (a, s)" and "length bs \<le> NMAX"
  shows "fst (sums (a, s) bs) < 2 ^ 32" "snd (sums (a, s) bs) < 2 ^ 32"
proof -
  have "length bs * a \<le> NMAX * 65520" "length bs * (length bs + 1) \<le> NMAX * (NMAX + 1)"
    using assms by (intro mult_le_mono; simp add: reduced_def)+
  then show "fst (sums (a, s) bs) < 2 ^ 32" "snd (sums (a, s) bs) < 2 ^ 32"
    using sums_bound [of a s bs] assms by (auto simp: reduced_def)
qed


section \<open>The loops compute the sums\<close>

lemma sums_mono: "fst p \<le> fst (sums p bs) \<and> snd p \<le> snd (sums p bs)"
  by (induction p bs rule: sums.induct) auto

lemma byte_loop_sums:
  assumes "n \<le> length xs" and "fst (sums (unats p) (take n xs)) < 2 ^ 32" and "snd (sums (unats p) (take n xs)) < 2 ^ 32"
  shows "\<exists>q. byte_loop n xs p = Some (drop n xs, q) \<and> unats q = sums (unats p) (take n xs)"
  using assms
proof (induction n arbitrary: xs p)
  case (Suc n)
  obtain x ys where xs: "xs = x # ys"
    using Suc.prems(1) by (cases xs) auto
  obtain a s where p: "p = (a, s)" by (cases p)
  let ?q = "(a + ucast x, s + (a + ucast x))"
  have mono: "fst (unat a + unat x, unat s + (unat a + unat x)) \<le> fst (sums (unats p) (take (Suc n) xs))"
      "snd (unat a + unat x, unat s + (unat a + unat x)) \<le> snd (sums (unats p) (take (Suc n) xs))"
    using sums_mono [of "(unat a + unat x, unat s + (unat a + unat x))" "take n ys"] by (simp_all add: xs p unats_def)
  note ux = unat_byte [of x]
  have "unat (a + ucast x) = unat a + unat x"
    using mono(1) Suc.prems(2) by (subst unat_add_small) (simp_all add: ux)
  moreover from this have "unat (s + (a + ucast x)) = unat s + (unat a + unat x)"
    using mono(2) Suc.prems(3) by (subst unat_add_small) simp_all
  ultimately have q: "unats ?q = (unat a + unat x, unat s + (unat a + unat x))"
    by (simp add: unats_def)
  have "\<exists>r. byte_loop n ys ?q = Some (drop n ys, r) \<and> unats r = sums (unats ?q) (take n ys)"
    using Suc.prems by (intro Suc.IH) (simp_all add: q, simp_all add: xs p unats_def)
  then show ?case
    unfolding q by (simp add: xs p DO1_def unats_def Let_def)
qed simp

lemma byte_loop_append:
  "byte_loop (m + n) xs p = do { (xs, p) \<leftarrow> byte_loop m xs p; byte_loop n xs p }"
  by (induction m arbitrary: xs p) (auto intro: bind_option_cong split: prod.split)

lemma byte_loop_rest: "byte_loop m xs p = Some (ys, q) \<Longrightarrow> ys = drop m xs"
  by (induction m arbitrary: xs p) (auto split: bind_splits simp: drop_Suc)

lemma DOn_byte_loop: "DOn xs [i..<i + n] p = map_option snd (byte_loop n (drop i xs) p)"
proof (induction n arbitrary: i p)
  case (Suc n)
  have "DO1 xs i p = DO1 (drop i xs) 0 p"
    by (cases p) (auto simp: DO1_def)
  moreover have "tl (drop i xs) = drop (Suc i) xs"
    by (simp add: tl_drop drop_Suc)
  ultimately show ?case
    using Suc.IH [of "Suc i"] by (simp add: upt_conv_Cons del: upt_Suc) (cases "DO1 (drop i xs) 0 p"; simp)
qed simp

lemma DO16_byte_loop: "DO16 xs p = map_option snd (byte_loop 16 xs p)"
proof -
  have "[0, 1, 2, 3, 4, 5, 6, 7, 8, 9, 10, 11, 12, 13, 14, 15] = [0..<0 + 16]"
    by (simp add: upt_rec)
  then show ?thesis
    unfolding DO16_def using DOn_byte_loop [of xs 0 16 p] by simp
qed

lemma group_loop_byte_loop: "group_loop n xs p = byte_loop (16 * n) xs p"
proof (induction n arbitrary: xs p)
  case (Suc n)
  have "byte_loop (16 * Suc n) xs p = do { (ys, p) \<leftarrow> byte_loop 16 xs p; byte_loop (16 * n) ys p }"
    using byte_loop_append [of 16 "16 * n"] by simp
  also have "\<dots> = do { p \<leftarrow> map_option snd (byte_loop 16 xs p); byte_loop (16 * n) (drop 16 xs) p }"
    using byte_loop_rest [of 16 xs p] by (cases "byte_loop 16 xs p") auto
  also have "byte_loop (16 * n) = group_loop n"
    by (intro ext) (rule Suc.IH [symmetric])
  finally show ?case
    by (simp add: DO16_byte_loop)
qed simp


text \<open>Splitting a checksum into its sums and putting it together again.\<close>

definition adler_parts :: "u32 \<Rightarrow> nat \<times> nat" where
  "adler_parts w = (unat w mod 65536, unat w div 65536)"

lemma parts_words:
  "unat (w AND 0xffff :: u32) = unat w mod 65536" "unat (drop_bit 16 w AND 0xffff :: u32) = unat w div 65536"
proof -
  have m: "(0xffff :: u32) = mask 16"
    by (simp add: mask_eq_exp_minus_1)
  show "unat (w AND 0xffff) = unat w mod 65536"
    unfolding m take_bit_eq_mask [symmetric] by (simp add: take_bit_eq_mod unat_mod)
  have "unat w < 2 ^ LENGTH(32)"
    by (rule unsigned_less)
  then have "unat w div 65536 < 65536"
    by (simp add: div_less_iff_less_mult)
  then show "unat (drop_bit 16 w AND 0xffff) = unat w div 65536"
    unfolding m take_bit_eq_mask [symmetric]
    by (simp add: take_bit_eq_mod drop_bit_eq_div unat_mod unat_div)
qed

lemma adler_value_unat:
  assumes "unat a < 65536" and "unat s < 65536"
  shows "unat (adler_value (a, s)) = unat a + 65536 * unat s"
proof -
  have sh: "unat (push_bit 16 s) = 65536 * unat s"
    using assms(2) by (simp add: push_bit_eq_mult unat_mult_small)
  have "\<not> bit a n \<or> \<not> bit (push_bit 16 s) n" for n
  proof (cases "n < 16")
    case False
    have "take_bit 16 (unat a) = unat a"
      using assms(1) by (simp add: take_bit_nat_eq_self)
    then have "\<not> bit (unat a) n"
      using False by (metis bit_take_bit_iff)
    then have "\<not> bit a n"
      using bit_imp_le_length [of a n] by (auto simp: bit_unsigned_iff)
    then show ?thesis ..
  qed (simp add: bit_push_bit_iff)
  then have "a OR push_bit 16 s = a + push_bit 16 s"
    by (intro disjunctive_add [symmetric]) blast
  then show ?thesis
    using assms sh by (simp add: adler_value_def unat_add_small)
qed

section \<open>The routine computes the checksum\<close>

lemma MOD2_unats: "unats (MOD2 p) = pair_mod (unats p)" and MOD2_reduced: "reduced (unats (MOD2 p))"
  by (cases p; simp add: unats_def MOD2_def pair_mod_def reduced_def unat_mod)+

lemma reduced_id: "reduced p \<Longrightarrow> pair_mod p = p"
  by (cases p) (simp add: reduced_def pair_mod_def)

lemma byte_loop_reduced:
  assumes "reduced (unats p)" and "n \<le> NMAX" and "n \<le> length xs"
  shows "\<exists>q. byte_loop n xs p = Some (drop n xs, q) \<and> unats q = sums (unats p) (take n xs)"
proof -
  obtain a s where p: "unats p = (a, s)" by fastforce
  have len: "length (take n xs) \<le> NMAX"
    using assms(2) by simp
  show ?thesis
    using byte_loop_sums [OF assms(3), of p] sums_fit [OF _ len, of a s] assms(1) unfolding p by blast
qed

lemma nmax_loop_sums:
  assumes "len \<le> length xs" and "reduced (unats p)"
  shows "\<exists>q. nmax_loop len xs p = Some (len mod NMAX, drop (len - len mod NMAX) xs, q) \<and>
    unats q = pair_mod (sums (unats p) (take (len - len mod NMAX) xs))"
  using assms
proof (induction len xs p rule: nmax_loop.induct)
  case (1 len xs p)
  show ?case
  proof (cases "len < NMAX")
    case True
    then show ?thesis
      using 1(3) by (subst nmax_loop.simps) (simp add: reduced_id)
  next
    case False
    have "16 * (NMAX div 16) = NMAX" by simp
    then obtain q where q: "group_loop (NMAX div 16) xs p = Some (drop NMAX xs, q)"
        "unats q = sums (unats p) (take NMAX xs)"
      using byte_loop_reduced [OF 1(3), of NMAX xs] False 1(2) unfolding group_loop_byte_loop by force
    have md: "len mod NMAX = (len - NMAX) mod NMAX"
      using False by (simp add: le_mod_geq)
    have "\<exists>r. nmax_loop (len - NMAX) (drop NMAX xs) (MOD2 q) = Some ((len - NMAX) mod NMAX,
          drop (len - NMAX - (len - NMAX) mod NMAX) (drop NMAX xs), r) \<and>
        unats r = pair_mod (sums (unats (MOD2 q)) (take (len - NMAX - (len - NMAX) mod NMAX) (drop NMAX xs)))"
      using 1(1) [OF False q(1) refl] 1(2) MOD2_reduced by simp
    then obtain r where r: "nmax_loop (len - NMAX) (drop NMAX xs) (MOD2 q) = Some (len mod NMAX,
          drop (len - NMAX - len mod NMAX) (drop NMAX xs), r)"
        "unats r = pair_mod (sums (unats (MOD2 q)) (take (len - NMAX - len mod NMAX) (drop NMAX xs)))"
      unfolding md by blast
    have "len mod NMAX \<le> len - NMAX"
      unfolding md by (rule mod_less_eq_dividend)
    then have k: "len - len mod NMAX = NMAX + (len - NMAX - len mod NMAX)"
      using False by simp
    have "unats r = pair_mod (sums (unats p) (take (len - len mod NMAX) xs))"
      unfolding k take_add sums_append r(2) MOD2_unats sums_mod q(2) ..
    moreover have "drop (len - len mod NMAX) xs = drop (len - NMAX - len mod NMAX) (drop NMAX xs)"
      unfolding k by (simp add: add.commute)
    ultimately show ?thesis
      using r(1) q(1) False by (subst nmax_loop.simps) simp
  qed
qed

lemma chop_mod: "unat a < 2 * 65521 \<Longrightarrow> unat (chop a) = unat a mod 65521"
  by (auto simp: chop_def word_le_nat_alt unat_sub_le le_mod_geq not_le)

lemma adler_value_mod:
  "unat a = x mod 65521 \<Longrightarrow> unat s = y mod 65521 \<Longrightarrow> unat (adler_value (a, s)) = checksum (x, y)"
  by (subst adler_value_unat) (simp_all add: checksum_def less_trans [OF mod_less_divisor])

lemma checksum_mod: "checksum (pair_mod p) = checksum p"
  by (cases p) (simp add: checksum_def pair_mod_def)

lemma adler32_z_one:
  assumes "reduced (adler_parts adler)"
  shows "\<exists>w. adler32_z adler (Some (b # bs)) 1 = Some w \<and> unat w = checksum (sums (adler_parts adler) [b])"
proof -
  let ?a = "adler AND 0xffff" and ?s = "drop_bit 16 adler AND 0xffff"
  have parts: "unat ?a = fst (adler_parts adler)" "unat ?s = snd (adler_parts adler)"
    unfolding parts_words(2) unfolding parts_words(1) adler_parts_def by simp_all
  then have small: "unat ?a < 65521" "unat ?s < 65521"
    using assms by (auto simp: reduced_def)
  have a: "unat (?a + ucast b) = unat ?a + unat b"
    using small byte_le [of b] by (subst unat_add_small) (simp_all add: unat_byte)
  then have a1: "unat (chop (?a + ucast b)) = (unat ?a + unat b) mod 65521"
    using small byte_le [of b] by (subst chop_mod) simp_all
  then have lt: "unat (chop (?a + ucast b)) < 65521"
    by (simp only: mod_less_divisor)
  then have s: "unat (?s + chop (?a + ucast b)) = unat ?s + unat (chop (?a + ucast b))"
    using small by (subst unat_add_small) simp_all
  then have "unat (chop (?s + chop (?a + ucast b))) = (unat ?s + (unat ?a + unat b)) mod 65521"
    using small lt a1 by (subst chop_mod) (simp_all add: mod_add_right_eq)
  then have "unat (adler_value (chop (?a + ucast b), chop (?s + chop (?a + ucast b)))) =
      checksum (unat ?a + unat b, unat ?s + (unat ?a + unat b))"
    using a1 by (intro adler_value_mod)
  then show ?thesis
    using parts by (cases "adler_parts adler") (simp add: adler32_z_def Let_def)
qed

lemma adler32_z_rep:
  assumes "reduced (adler_parts adler)" and "len \<le> length xs"
  shows "\<exists>w. adler32_z adler (Some xs) len = Some w \<and> unat w = checksum (sums (adler_parts adler) (take len xs))"
proof -
  let ?p = "(adler AND 0xffff, drop_bit 16 adler AND 0xffff)"
  have p: "unats ?p = adler_parts adler" and red: "reduced (unats ?p)"
    using assms(1) unfolding unats_def prod.case parts_words(2) unfolding parts_words(1) adler_parts_def by simp_all
  consider (one) "len = 1" | (short) "len < 16" "len \<noteq> 1" | (long) "16 \<le> len"
    by linarith
  then show ?thesis
  proof cases
    case one
    then obtain b bs where "xs = b # bs"
      using assms(2) by (cases xs) auto
    then show ?thesis
      using adler32_z_one [OF assms(1)] one by simp
  next
    case short
    obtain a s where q: "byte_loop len xs ?p = Some (drop len xs, a, s)"
        "(unat a, unat s) = sums (adler_parts adler) (take len xs)"
      using byte_loop_reduced [OF red, of len xs] short(1) assms(2) p by (auto simp: unats_def)
    have "unat a \<le> fst (adler_parts adler) + 255 * len"
      using sums_bound [of "fst (adler_parts adler)" "snd (adler_parts adler)" "take len xs"] assms(2)
      by (simp flip: q(2))
    then have "unat a < 2 * 65521"
      using short(1) assms(1) by (cases "adler_parts adler") (simp add: reduced_def)
    then have "unat (adler_value (chop a, s mod BASE)) = checksum (unat a, unat s)"
      by (intro adler_value_mod chop_mod) (simp_all add: unat_mod)
    then show ?thesis
      using short q by (simp add: adler32_z_def Let_def)
  next
    case long
    obtain q where q: "nmax_loop len xs ?p = Some (len mod NMAX, drop (len - len mod NMAX) xs, q)"
        "unats q = pair_mod (sums (adler_parts adler) (take (len - len mod NMAX) xs))"
      using nmax_loop_sums [OF assms(2) red] p by auto
    let ?r = "len mod NMAX" and ?ys = "drop (len - len mod NMAX) xs"
    have r: "?r < NMAX" "?r \<le> length ?ys" "16 * (?r div 16) + ?r mod 16 = ?r"
      using assms(2) by simp_all
    have redq: "reduced (unats q)"
      unfolding q(2) by (simp add: reduced_def pair_mod_def split: prod.split)
    obtain t where t: "byte_loop ?r ?ys q = Some (drop ?r ?ys, t)" "unats t = sums (unats q) (take ?r ?ys)"
      using byte_loop_reduced [OF redq, of ?r ?ys] r(1,2) by auto
    have "byte_loop ?r ?ys q = do { (ys, q) \<leftarrow> group_loop (?r div 16) ?ys q; byte_loop (?r mod 16) ys q }"
      unfolding group_loop_byte_loop byte_loop_append [symmetric] r(3) ..
    then have loops: "do { (ys, q) \<leftarrow> group_loop (?r div 16) ?ys q; byte_loop (?r mod 16) ys q } = Some (drop ?r ?ys, t)"
      using t(1) by simp
    have whole: "take len xs = take (len - ?r) xs @ take ?r ?ys"
      by (simp flip: take_add)
    have fin: "pair_mod (unats t) = pair_mod (sums (adler_parts adler) (take len xs))"
      unfolding t(2) q(2) sums_mod whole sums_append ..
    have step: "adler32_z adler (Some xs) len =
        do { p \<leftarrow> (if ?r \<noteq> 0 then do {
               (ys, p) \<leftarrow> group_loop (?r div 16) ?ys q;
               (_, p) \<leftarrow> byte_loop (?r mod 16) ys p;
               Some (MOD2 p)
             } else Some q); Some (adler_value p) }"
      using long q(1) by (simp add: adler32_z_def Let_def)
    have value_of: "unat (adler_value u) = checksum (sums (adler_parts adler) (take len xs))"
      if "unats u = pair_mod (sums (adler_parts adler) (take len xs))" for u
      using that adler_value_mod [of "fst u" _ "snd u"]
      by (cases u; cases "sums (adler_parts adler) (take len xs)") (simp add: unats_def pair_mod_def)
    show ?thesis
    proof (cases "?r = 0")
      case True
      then show ?thesis
        unfolding step using q(2) by (simp add: value_of)
    next
      case False
      have "do { (ys, p) \<leftarrow> group_loop (?r div 16) ?ys q; (_, p) \<leftarrow> byte_loop (?r mod 16) ys p; Some (MOD2 p) } = Some (MOD2 t)"
        using loops by (cases "group_loop (?r div 16) ?ys q") auto
      then show ?thesis
        unfolding step using False fin by (simp add: value_of MOD2_unats)
    qed
  qed
qed

section \<open>Combining the checksums of two blocks\<close>

lemma chop_twice: "unat a < 3 * 65521 \<Longrightarrow> unat (chop (chop a)) = unat a mod 65521"
proof (cases "unat a < 65521")
  case False
  assume "unat a < 3 * 65521"
  then have "unat (a - BASE) < 2 * 65521" "unat (a - BASE) = unat a - 65521"
    using False by (simp_all add: unat_sub_le word_le_nat_alt)
  then show ?thesis
    using False by (simp add: chop_def [of a] word_le_nat_alt chop_mod le_mod_geq)
qed (simp add: chop_def word_le_nat_alt)

lemma chop_four:
  "unat a < 4 * 65521 \<Longrightarrow> unat (chop (if a \<ge> push_bit 1 BASE then a - push_bit 1 BASE else a)) = unat a mod 65521"
proof (cases "unat a < 2 * 65521")
  case False
  assume "unat a < 4 * 65521"
  then have "unat (a - 131042) < 2 * 65521" "unat (a - 131042) = unat a - 131042"
    using False by (simp_all add: unat_sub_le word_le_nat_alt)
  moreover have "unat a mod 65521 = (unat a - 131042) mod 65521"
    using False by (simp add: le_mod_geq)
  ultimately show ?thesis
    using False by (simp add: word_le_nat_alt chop_mod)
qed (simp add: word_le_nat_alt chop_mod)

lemma combine_words:
  fixes x1 y1 x2 y2 r :: u32
  assumes "unat x1 < 65521" "unat y1 < 65521" "unat x2 < 65521" "unat y2 < 65521" "unat r < 65521"
  shows "unat (chop (chop (x1 + (x2 + BASE - 1)))) = (unat x1 + unat x2 + 65520) mod 65521"
    and "unat (chop (if r * x1 mod BASE + (y1 + y2 + BASE - r) \<ge> push_bit 1 BASE
               then r * x1 mod BASE + (y1 + y2 + BASE - r) - push_bit 1 BASE else r * x1 mod BASE + (y1 + y2 + BASE - r))) =
      (unat r * unat x1 mod 65521 + (unat y1 + unat y2 + 65521 - unat r)) mod 65521"
proof -
  have "x2 + BASE - 1 = x2 + 65520"
    by simp
  moreover have "unat (x2 + 65520) = unat x2 + 65520"
    using assms by (subst unat_add_small) simp_all
  ultimately have "unat (x2 + BASE - 1) = unat x2 + 65520"
    by (simp only:)
  then have s1: "unat (x1 + (x2 + BASE - 1)) = unat x1 + unat x2 + 65520"
    using assms by (subst unat_add_small) simp_all
  then show "unat (chop (chop (x1 + (x2 + BASE - 1)))) = (unat x1 + unat x2 + 65520) mod 65521"
    using assms by (subst chop_twice) simp_all
  have "unat r * unat x1 \<le> 65520 * 65520"
    using assms by (intro mult_le_mono) simp_all
  then have m: "unat (r * x1 mod BASE) = unat r * unat x1 mod 65521"
    by (simp add: unat_mod unat_mult_small)
  have "unat (y1 + y2) = unat y1 + unat y2"
    using assms by (subst unat_add_small) simp_all
  then have "unat (y1 + y2 + BASE) = unat y1 + unat y2 + 65521"
    using assms by (subst unat_add_small) simp_all
  then have t: "unat (y1 + y2 + BASE - r) = unat y1 + unat y2 + 65521 - unat r"
    using assms by (subst unat_sub_le) (simp_all add: word_le_nat_alt)
  have "unat (r * x1 mod BASE) < 65521"
    unfolding m by simp
  then have sum: "unat (r * x1 mod BASE + (y1 + y2 + BASE - r)) = unat r * unat x1 mod 65521 + (unat y1 + unat y2 + 65521 - unat r)"
    using assms m t by (subst unat_add_small) simp_all
  then have "unat (r * x1 mod BASE + (y1 + y2 + BASE - r)) < 4 * 65521"
    using assms \<open>unat (r * x1 mod BASE) < 65521\<close> m by simp
  from chop_four [OF this] show "unat (chop (if r * x1 mod BASE + (y1 + y2 + BASE - r) \<ge> push_bit 1 BASE
               then r * x1 mod BASE + (y1 + y2 + BASE - r) - push_bit 1 BASE else r * x1 mod BASE + (y1 + y2 + BASE - r))) =
      (unat r * unat x1 mod 65521 + (unat y1 + unat y2 + 65521 - unat r)) mod 65521"
    unfolding sum .
qed

lemma sums_one: "sums (1, 0) bs = (fst (sums (0, 0) bs) + 1, snd (sums (0, 0) bs) + length bs)"
  using sums_offset [of 1 0 bs] by simp

lemma combine_sums:
  fixes a1 s1 a2 s2 A S n :: nat
  assumes "a1 < 65521" and "s1 < 65521" and "a2 = (A + 1) mod 65521" and "s2 = (S + n) mod 65521"
  shows "(a1 + a2 + 65520) mod 65521 = (A + a1) mod 65521"
    and "(n mod 65521 * a1 mod 65521 + (s1 + s2 + 65521 - n mod 65521)) mod 65521 = (S + s1 + n * a1) mod 65521"
proof -
  have "(a1 + a2 + 65520) mod 65521 = (a1 + (A + 1) + 65520) mod 65521"
    unfolding assms(3) by (intro mod_add_cong refl) simp_all
  also have "\<dots> = (A + a1 + 65521) mod 65521"
    by (simp add: algebra_simps)
  finally show "(a1 + a2 + 65520) mod 65521 = (A + a1) mod 65521"
    by simp
  let ?r = "n mod 65521"
  have "int (s1 + s2 + 65521 - ?r) mod 65521 = int (S + s1) mod 65521"
  proof -
    have "?r \<le> s1 + s2 + 65521"
      by (simp add: less_imp_le trans_le_add2)
    then have "int (s1 + s2 + 65521 - ?r) = int s1 + int s2 + 65521 - int n mod 65521"
      by (simp add: of_nat_diff zmod_int)
    also have "int s2 = (int S + int n) mod 65521"
      unfolding assms(4) by (simp add: zmod_int)
    finally have diff: "int (s1 + s2 + 65521 - ?r) = int s1 + (int S + int n) mod 65521 + 65521 - int n mod 65521" .
    have "(int s1 + (int S + int n) mod 65521 + 65521 - int n mod 65521) mod 65521 =
        (int s1 + (int S + int n) + 0 - int n) mod 65521"
      by (intro mod_diff_cong mod_add_cong refl) simp_all
    then show ?thesis
      unfolding diff by (simp add: add.commute)
  qed
  then have "int ((s1 + s2 + 65521 - ?r) mod 65521) = int ((S + s1) mod 65521)"
    unfolding zmod_int of_nat_numeral .
  then have "(s1 + s2 + 65521 - ?r) mod 65521 = (S + s1) mod 65521"
    by (simp only: of_nat_eq_iff)
  then have "(?r * a1 mod 65521 + (s1 + s2 + 65521 - ?r)) mod 65521 = (n * a1 + (S + s1)) mod 65521"
    by (intro mod_add_cong) (simp_all add: mod_mult_left_eq)
  then show "(?r * a1 mod 65521 + (s1 + s2 + 65521 - ?r)) mod 65521 = (S + s1 + n * a1) mod 65521"
    by (simp add: add.commute)
qed

lemma adler32_combine_rep:
  assumes red1: "reduced (adler_parts w1)" and w2: "adler_parts w2 = pair_mod (sums (1, 0) ys)"
    and len2: "unat len2 = length ys" "length ys < 2 ^ 63"
  shows "unat (adler32_combine w1 w2 len2) = checksum (sums (adler_parts w1) ys)"
proof -
  obtain a1 s1 where p1: "adler_parts w1 = (a1, s1)" by fastforce
  obtain a2 s2 where p2: "adler_parts w2 = (a2, s2)" by fastforce
  obtain A S where AS: "sums (0, 0) ys = (A, S)" by fastforce
  have lt: "a1 < 65521" "s1 < 65521"
    using red1 by (simp_all add: p1 reduced_def)
  have eq2: "a2 = (A + 1) mod 65521" "s2 = (S + length ys) mod 65521"
    using w2 unfolding p2 sums_one AS pair_mod_def by simp_all
  then have lt2: "a2 < 65521" "s2 < 65521"
    by simp_all
  have fields: "unat (w1 AND 0xffff) = a1" "unat (drop_bit 16 w1 AND 0xffff) = s1"
      "unat (w2 AND 0xffff) = a2" "unat (drop_bit 16 w2 AND 0xffff) = s2"
    using p1 p2 unfolding parts_words(2) unfolding parts_words(1) adler_parts_def by simp_all
  let ?rem = "ucast (len2 mod 65521) :: u32"
  have rem: "unat ?rem = length ys mod 65521"
  proof -
    have "unat (len2 mod 65521) = length ys mod 65521"
      by (simp add: unat_mod len2)
    then show ?thesis
      by (simp add: unsigned_ucast_eq take_bit_nat_eq_self less_trans [OF mod_less_divisor])
  qed
  have "uint len2 = int (length ys)"
    using len2(1) by (metis uint_nat)
  then have "sint len2 = int (length ys)"
    using len2(2) by (simp add: sint_uint signed_take_bit_int_eq_self)
  then have pos: "\<not> sint len2 < 0"
    by simp
  have "unat (adler32_combine w1 w2 len2) = checksum (a1 + a2 + 65520, length ys mod 65521 * a1 mod 65521 + (s1 + s2 + 65521 - length ys mod 65521))"
    unfolding adler32_combine_def if_not_P [OF pos] Let_def
    using combine_words [of "w1 AND 0xffff" "drop_bit 16 w1 AND 0xffff" "w2 AND 0xffff" "drop_bit 16 w2 AND 0xffff" ?rem]
    unfolding fields rem using lt lt2 by (intro adler_value_mod) (simp_all only: mod_less_divisor)
  then show ?thesis
    using combine_sums [OF lt eq2] by (simp add: p1 sums_offset [of a1 s1] AS checksum_def)
qed


section \<open>Properties\<close>

text \<open>C37. \<open>adler32_z\<close>, with its three paths, its unrolled groups of 16 bytes and one reduction for
  5552 bytes, computes from any valid checksum the two sums modulo 65521 of the definition; no sum
  in 32 bits wraps and nothing past the buffer is read.\<close>

theorem adler32_reference:
  assumes "reduced (adler_parts adler)" and "len \<le> length buf"
  shows "\<exists>w. adler32_z adler (Some buf) len = Some w \<and> unat w = checksum (sums (adler_parts adler) (take len buf))"
  by (rule adler32_z_rep [OF assms])

lemma adler32_reference_witness: "adler32_z 1 (Some [97, 98, 99]) 3 = Some 0x024d0127"
proof -
  have "reduced (adler_parts 1)" by (simp add: reduced_def adler_parts_def)
  then obtain w where "adler32_z 1 (Some [97, 98, 99]) 3 = Some w" "unat w = unat (0x024d0127 :: u32)"
    using adler32_reference [of 1 3 "[97, 98, 99]"] by (auto simp: adler_parts_def checksum_def)
  then show ?thesis by (simp only: word_unat_eq_iff [symmetric])
qed

text \<open>\<open>adler32_combine\<close>: from the checksum of a first block, the checksum of a second one started
  afresh, and the length of the second, it computes the checksum of both, as \<open>adler32_z\<close> does when it
  runs over the second block from the first checksum.\<close>

theorem adler32_combine_blocks:
  assumes "reduced (adler_parts w1)" and "adler32_z 1 (Some ys) (length ys) = Some w2"
    and "unat len2 = length ys" and "length ys < 2 ^ 63"
  shows "adler32_z w1 (Some ys) (length ys) = Some (adler32_combine w1 w2 len2)"
proof -
  have one: "reduced (adler_parts 1)" "adler_parts 1 = (1, 0)"
    by (simp_all add: reduced_def adler_parts_def)
  have "unat w2 = checksum (sums (1, 0) ys)"
    using adler32_z_rep [OF one(1), of "length ys" ys] assms(2) by (simp add: one(2))
  then have "adler_parts w2 = pair_mod (sums (1, 0) ys)"
    by (cases "sums (1, 0) ys") (simp add: adler_parts_def pair_mod_def checksum_def less_trans [OF mod_less_divisor])
  then have "unat (adler32_combine w1 w2 len2) = checksum (sums (adler_parts w1) ys)"
    by (rule adler32_combine_rep [OF assms(1) _ assms(3,4)])
  moreover obtain w where "adler32_z w1 (Some ys) (length ys) = Some w" "unat w = checksum (sums (adler_parts w1) ys)"
    using adler32_z_rep [OF assms(1), of "length ys" ys] by auto
  ultimately show ?thesis
    by (metis word_unat_eq_iff)
qed

lemma unat_numeral_2: "unat (2 :: u64) = 2"
  by simp

lemma two_less_pow63: "(2 :: nat) < 2 ^ 63"
  by simp

lemma adler32_combine_blocks_witness:
  "\<exists>w2. adler32_z 1 (Some [98, 99]) 2 = Some w2 \<and> adler32_z 0x620062 (Some [98, 99]) 2 = Some (adler32_combine 0x620062 w2 2)"
proof -
  have red: "reduced (adler_parts 1)" "reduced (adler_parts 0x620062)"
    by (simp_all add: reduced_def adler_parts_def)
  obtain w2 where w2: "adler32_z 1 (Some [98, 99]) 2 = Some w2"
    using adler32_z_rep [OF red(1), of 2 "[98, 99]"] by auto
  have "length [98 :: u8, 99] = 2" by simp
  then show ?thesis
    using adler32_combine_blocks [OF red(2), of "[98, 99]" w2 2] w2 by (metis unat_numeral_2 two_less_pow63)
qed
end
