(* ===== verification/Crc32.thy ===== *)
theory Crc32
  imports Crc32_Tables
begin

unbundle bit_operations_syntax

text \<open>
  The CRC-32 of zlib (\<open>Source/ZipLib/Source/crc32.c\<close>) with the tables of \<open>crc32.h\<close>, as the Windows
  build compiles it: words of \<open>W = 4\<close> bytes in \<open>N = 5\<close> braids. The reference is the shift register
  that the comment above \<open>make_crc_table\<close> describes: one bit of the message at a time. A buffer is the
  list of bytes from the pointer on, with the address of the pointer; a read past its end is
  \<open>None\<close>. The byte order of the machine, which the code tests when it runs, is a parameter.
\<close>

section \<open>The code\<close>

abbreviation POLY :: u32 where
  "POLY \<equiv> 0xedb88320"

definition byte_swap :: "u32 \<Rightarrow> u32" where
  "byte_swap word =
     drop_bit 24 (word AND 0xff000000) OR drop_bit 8 (word AND 0xff0000) OR
     push_bit 8 (word AND 0xff00) OR push_bit 24 (word AND 0xff)"

text \<open>The loop of \<open>multmodp\<close>, by the position of the single bit of \<open>m\<close>; it ends with the last bit of \<open>a\<close>.\<close>

fun multmodp_loop :: "nat \<Rightarrow> u32 \<Rightarrow> u32 \<Rightarrow> u32 \<Rightarrow> u32 option" where
  "multmodp_loop i a b p =
     (let m = push_bit i 1;
          p' = (if a AND m \<noteq> 0 then p XOR b else p) in
      if a AND m \<noteq> 0 \<and> a AND (m - 1) = 0 then Some p'
      else
        (case i of
           0 \<Rightarrow> None
         | Suc j \<Rightarrow> multmodp_loop j a (if b AND 1 \<noteq> 0 then drop_bit 1 b XOR POLY else drop_bit 1 b) p'))"

declare multmodp_loop.simps [simp del]

definition multmodp :: "u32 \<Rightarrow> u32 \<Rightarrow> u32 option" where
  "multmodp a b = multmodp_loop 31 a b 0"

function x2nmodp_loop :: "nat \<Rightarrow> nat \<Rightarrow> u32 \<Rightarrow> u32 option" where
  "x2nmodp_loop n k p =
     (if n = 0 then Some p
      else do {
        p \<leftarrow> (if n mod 2 = 1 then multmodp (x2n_table ! (k mod 32)) p else Some p);
        x2nmodp_loop (n div 2) (Suc k) p
      })"
  by auto
termination
  by (relation "measure (\<lambda>(n, k, p). n)") auto

declare x2nmodp_loop.simps [simp del]

definition x2nmodp :: "nat \<Rightarrow> nat \<Rightarrow> u32 option" where
  "x2nmodp n k = x2nmodp_loop n k 0x80000000"

definition crc_step :: "u32 \<Rightarrow> u8 \<Rightarrow> u32" where
  "crc_step crc b = drop_bit 8 crc XOR crc_table ! unat ((crc XOR ucast b) AND 0xff)"

fun crc_bytes :: "nat \<Rightarrow> u8 list \<Rightarrow> u32 \<Rightarrow> (u8 list \<times> u32) option" where
  "crc_bytes 0 buf crc = Some (buf, crc)"
| "crc_bytes (Suc len) [] crc = None"
| "crc_bytes (Suc len) (b # buf) crc = crc_bytes len buf (crc_step crc b)"

fun crc_groups :: "nat \<Rightarrow> u8 list \<Rightarrow> u32 \<Rightarrow> (u8 list \<times> u32) option" where
  "crc_groups 0 buf crc = Some (buf, crc)"
| "crc_groups (Suc n) buf crc = do { (buf, crc) \<leftarrow> crc_bytes 8 buf crc; crc_groups n buf crc }"

text \<open>The bytes before the first word boundary.\<close>

fun crc_align :: "nat \<Rightarrow> nat \<Rightarrow> u8 list \<Rightarrow> u32 \<Rightarrow> (nat \<times> u8 list \<times> u32) option" where
  "crc_align 0 addr buf crc = Some (0, buf, crc)"
| "crc_align (Suc len) addr buf crc =
     (if addr AND 3 \<noteq> 0 then
        (case buf of [] \<Rightarrow> None | b # buf \<Rightarrow> crc_align len (Suc addr) buf (crc_step crc b))
      else Some (Suc len, buf, crc))"

definition word_at :: "bool \<Rightarrow> u8 list \<Rightarrow> nat \<Rightarrow> u32 option" where
  "word_at little buf i =
     (case take 4 (drop (4 * i) buf) of
        [a, b, c, d] \<Rightarrow>
          (let w = ucast a XOR push_bit 8 (ucast b) XOR push_bit 16 (ucast c) XOR push_bit 24 (ucast d) in
           Some (if little then w else byte_swap w))
      | _ \<Rightarrow> None)"

definition crc_word_step :: "u32 \<Rightarrow> u32" where
  "crc_word_step data = drop_bit 8 data XOR crc_table ! unat (data AND 0xff)"

definition crc_word :: "u32 \<Rightarrow> u32" where
  "crc_word data = (crc_word_step ^^ 4) data"

definition crc_word_big_step :: "u32 \<Rightarrow> u32" where
  "crc_word_big_step data = push_bit 8 data XOR crc_big_table ! unat (drop_bit 24 data AND 0xff)"

definition crc_word_big :: "u32 \<Rightarrow> u32" where
  "crc_word_big data = (crc_word_big_step ^^ 4) data"

definition braid_word :: "u32 list list \<Rightarrow> u32 \<Rightarrow> u32" where
  "braid_word tabs word =
     foldl (\<lambda>crc k. crc XOR tabs ! k ! unat (drop_bit (8 * k) word AND 0xff)) (tabs ! 0 ! unat (word AND 0xff)) [1, 2, 3]"

type_synonym braids = "u32 \<times> u32 \<times> u32 \<times> u32 \<times> u32"

definition load_words :: "bool \<Rightarrow> u8 list \<Rightarrow> braids \<Rightarrow> braids option" where
  "load_words little buf = (\<lambda>(crc0, crc1, crc2, crc3, crc4). do {
     w0 \<leftarrow> word_at little buf 0;
     w1 \<leftarrow> word_at little buf 1;
     w2 \<leftarrow> word_at little buf 2;
     w3 \<leftarrow> word_at little buf 3;
     w4 \<leftarrow> word_at little buf 4;
     Some (crc0 XOR w0, crc1 XOR w1, crc2 XOR w2, crc3 XOR w3, crc4 XOR w4)
   })"

fun braid_loop :: "bool \<Rightarrow> nat \<Rightarrow> u8 list \<Rightarrow> braids \<Rightarrow> (u8 list \<times> braids) option" where
  "braid_loop little 0 buf cs = Some (buf, cs)"
| "braid_loop little (Suc blks) buf cs = do {
     (word0, word1, word2, word3, word4) \<leftarrow> load_words little buf cs;
     let tabs = (if little then crc_braid_table else crc_braid_big_table);
     braid_loop little blks (drop 20 buf)
       (braid_word tabs word0, braid_word tabs word1, braid_word tabs word2, braid_word tabs word3, braid_word tabs word4)
   }"

definition last_block :: "bool \<Rightarrow> u8 list \<Rightarrow> braids \<Rightarrow> (u8 list \<times> u32) option" where
  "last_block little buf cs = do {
     (w0, w1, w2, w3, w4) \<leftarrow> load_words little buf cs;
     let cw = (if little then crc_word else crc_word_big);
     let comb = cw (w4 XOR cw (w3 XOR cw (w2 XOR cw (w1 XOR cw w0))));
     Some (drop 20 buf, if little then comb else byte_swap comb)
   }"

definition crc_braided :: "bool \<Rightarrow> nat \<Rightarrow> u8 list \<Rightarrow> nat \<Rightarrow> u32 \<Rightarrow> (nat \<times> u8 list \<times> u32) option" where
  "crc_braided little addr buf len crc = do {
     (len, buf, crc) \<leftarrow> crc_align len addr buf crc;
     let blks = len div 20;
     if blks = 0 then None
     else do {
       (buf, cs) \<leftarrow> braid_loop little (blks - 1) buf (if little then crc else byte_swap crc, 0, 0, 0, 0);
       (buf, crc) \<leftarrow> last_block little buf cs;
       Some (len - blks * 20, buf, crc)
     }
   }"

definition crc32_z :: "bool \<Rightarrow> u32 \<Rightarrow> (nat \<times> u8 list) option \<Rightarrow> nat \<Rightarrow> u32 option" where
  "crc32_z little crc buf len =
     (case buf of
        None \<Rightarrow> Some 0
      | Some (addr, buf) \<Rightarrow>
          let crc = NOT crc in do {
            (len, buf, crc) \<leftarrow> (if len \<ge> 23 then crc_braided little addr buf len crc else Some (len, buf, crc));
            (buf, crc) \<leftarrow> crc_groups (len div 8) buf crc;
            (_, crc) \<leftarrow> crc_bytes (len mod 8) buf crc;
            Some (crc XOR 0xffffffff)
          })"

text \<open>The combination; the lengths are not negative.\<close>

definition crc32_combine64 :: "u32 \<Rightarrow> u32 \<Rightarrow> nat \<Rightarrow> u32 option" where
  "crc32_combine64 crc1 crc2 len2 = do {
     x \<leftarrow> x2nmodp len2 3;
     p \<leftarrow> multmodp x crc1;
     Some (p XOR crc2)
   }"

definition crc32_combine_gen64 :: "nat \<Rightarrow> u32 option" where
  "crc32_combine_gen64 len2 = x2nmodp len2 3"

definition crc32_combine_op :: "u32 \<Rightarrow> u32 \<Rightarrow> u32 \<Rightarrow> u32 option" where
  "crc32_combine_op crc1 crc2 op = map_option (\<lambda>p. p XOR crc2) (multmodp op crc1)"

section \<open>The generator of the tables\<close>

definition gen_crc_entry :: "u32 \<Rightarrow> u32" where
  "gen_crc_entry i = ((\<lambda>p. if p AND 1 \<noteq> 0 then drop_bit 1 p XOR POLY else drop_bit 1 p) ^^ 8) i"

fun gen_x2n :: "nat \<Rightarrow> u32 option" where
  "gen_x2n 0 = Some 0x40000000"
| "gen_x2n (Suc n) = do { p \<leftarrow> gen_x2n n; multmodp p p }"

text \<open>Entry \<open>i\<close> of row \<open>k\<close> of \<open>ltl\<close> for \<open>n\<close> braids of words of \<open>w\<close> bytes.\<close>

definition braid :: "nat \<Rightarrow> nat \<Rightarrow> nat \<Rightarrow> u32 \<Rightarrow> u32 option" where
  "braid n w k i = do {
     p \<leftarrow> x2nmodp (8 * (n * w + 3 - k)) 0;
     if i = 0 then Some 0 else multmodp (push_bit 24 i) p
   }"

section \<open>The shift register\<close>

definition shiftc :: "u32 \<Rightarrow> u32" where
  "shiftc p = (if p AND 1 \<noteq> 0 then drop_bit 1 p XOR POLY else drop_bit 1 p)"

definition shifts :: "nat \<Rightarrow> u32 \<Rightarrow> u32" where
  "shifts n = shiftc ^^ n"

lemma shifts_simps: "shifts 0 c = c" "shifts (Suc n) c = shifts n (shiftc c)"
  by (simp_all add: shifts_def funpow_swap1)

lemma shifts_add: "shifts (m + n) c = shifts m (shifts n c)"
  by (simp add: shifts_def funpow_add)

lemma odd_and: "(p :: u32) AND 1 \<noteq> 0 \<longleftrightarrow> bit p 0"
  by (simp add: and_one_eq odd_iff_mod_2_eq_one bit_0)

lemma shiftc_xor: "shiftc (a XOR b) = shiftc a XOR shiftc b"
proof -
  have "drop_bit 1 (a XOR b) = drop_bit 1 a XOR drop_bit 1 b"
    by (rule drop_bit_xor)
  then show ?thesis
    unfolding shiftc_def odd_and by (auto simp: bit_xor_iff xor.assoc xor.left_commute xor.commute)
qed

lemma shifts_xor: "shifts n (a XOR b) = shifts n a XOR shifts n b"
  by (induction n arbitrary: a b) (simp_all add: shifts_simps shiftc_xor)

lemma shifts_zero [simp]: "shifts n 0 = 0"
  by (induction n) (simp_all add: shifts_simps shiftc_def)

text \<open>Bits that are shifted out as zeros cost nothing.\<close>

lemma shifts_push: "(\<And>i. i < n \<Longrightarrow> \<not> bit c i) \<Longrightarrow> shifts n c = drop_bit n c"
proof (induction n arbitrary: c)
  case (Suc n)
  have "shiftc c = drop_bit 1 c"
    using Suc.prems [of 0] unfolding shiftc_def odd_and by simp
  moreover have "\<not> bit (drop_bit 1 c) i" if "i < n" for i
    using Suc.prems [of "Suc i"] that by (simp add: bit_drop_bit_eq)
  ultimately show ?case
    using Suc.IH [of "drop_bit 1 c"] by (simp add: shifts_simps drop_bit_drop_bit)
qed (simp add: shifts_simps)



lemma shifts_numeral: "shifts (numeral k) c = shifts (pred_numeral k) (shiftc c)"
  by (simp add: numeral_eq_Suc shifts_simps)

section \<open>The tables hold the remainders\<close>

text \<open>A table that is linear in its index is built by doubling from its entries for the single bits.\<close>

definition doubled :: "u32 list \<Rightarrow> u32 list" where
  "doubled ts = foldl (\<lambda>acc t. acc @ map (\<lambda>x. x XOR t) acc) [0] ts"

lemma of_nat_add_pow: "i < 2 ^ n \<Longrightarrow> n < 32 \<Longrightarrow> (of_nat (i + 2 ^ n) :: u32) = of_nat i XOR 2 ^ n"
proof -
  assume i: "i < 2 ^ n" "n < 32"
  have "\<not> bit (of_nat i :: u32) k \<or> \<not> bit (2 ^ n :: u32) k" for k
  proof (cases "k = n")
    case True
    have "take_bit n i = i"
      using i(1) by (simp add: take_bit_nat_eq_self)
    then have "take_bit n (of_nat i :: u32) = of_nat i"
      by (metis take_bit_of_nat)
    then show ?thesis
      using True by (metis bit_take_bit_iff less_irrefl)
  qed (simp add: bit_exp_iff)
  then have "(of_nat i :: u32) AND 2 ^ n = 0"
    by (intro bit_word_eqI) (simp add: bit_and_iff)
  then have "(of_nat i :: u32) + 2 ^ n = of_nat i XOR 2 ^ n"
    by (rule disjunctive_add_eq_xor)
  then show ?thesis by simp
qed

lemma doubled_linear:
  assumes "f 0 = (0 :: u32)" and "\<And>a b :: u32. f (a XOR b) = f a XOR f b"
  shows "n \<le> 32 \<Longrightarrow> doubled (map (\<lambda>j. f (2 ^ j)) [0..<n]) = map (\<lambda>i. f (of_nat i)) [0..<2 ^ n]"
proof (induction n)
  case (Suc n)
  have split: "[0..<2 ^ Suc n] = [0..<2 ^ n] @ map (\<lambda>i. i + 2 ^ n) [0..<2 ^ n]"
    using upt_add_eq_append [of 0 "2 ^ n" "2 ^ n"] by (simp add: map_add_upt mult_2)
  have "map (\<lambda>i. f (of_nat (i + 2 ^ n))) [0..<2 ^ n] = map (\<lambda>i. f (of_nat i) XOR f (2 ^ n)) [0..<2 ^ n]"
  proof (intro map_cong refl)
    fix i :: nat
    assume "i \<in> set [0..<2 ^ n]"
    then have "(of_nat (i + 2 ^ n) :: u32) = of_nat i XOR 2 ^ n"
      using Suc.prems by (intro of_nat_add_pow) simp_all
    then show "f (of_nat (i + 2 ^ n)) = f (of_nat i) XOR f (2 ^ n)"
      by (simp only: assms(2))
  qed
  then show ?case
    using Suc by (simp add: doubled_def split comp_def del: power_Suc)
qed (simp add: doubled_def assms(1))

lemma linear_table:
  fixes f :: "u32 \<Rightarrow> u32"
  assumes "tab = doubled (map f [1, 2, 4, 8, 16, 32, 64, 128])" and "f 0 = 0" and "\<And>a b. f (a XOR b) = f a XOR f b"
  shows "tab = map (\<lambda>i. f (of_nat i)) [0..<256]"
proof -
  have "map f [1, 2, 4, 8, 16, 32, 64, 128] = map (\<lambda>j. f (2 ^ j)) [0..<8]"
    by (simp add: upt_rec)
  then show ?thesis
    using doubled_linear [of f 8, OF assms(2,3)] assms(1) by simp
qed

lemma byte_masks:
  "(0xff000000 :: u32) = push_bit 24 (mask 8)" "(0xff0000 :: u32) = push_bit 16 (mask 8)"
  "(0xff00 :: u32) = push_bit 8 (mask 8)" "(0xff :: u32) = mask 8"
  by (simp_all add: mask_eq_exp_minus_1)

lemma bit_byte_swap:
  "bit (byte_swap w) n \<longleftrightarrow>
     (if n < 8 then bit w (n + 24) else if n < 16 then bit w (n + 8) else if n < 24 then bit w (n - 8)
      else n < 32 \<and> bit w (n - 24))"
  unfolding byte_swap_def byte_masks by (auto simp: bit_simps add.commute dest: bit_imp_le_length)

lemma byte_swap_xor: "byte_swap (a XOR b) = byte_swap a XOR byte_swap b"
  by (rule bit_word_eqI) (simp add: bit_byte_swap bit_xor_iff)

lemma byte_swap_0 [simp]: "byte_swap 0 = 0"
  by (simp add: byte_swap_def)

lemma byte_swap_twice: "byte_swap (byte_swap w) = w"
  by (rule bit_word_eqI) (auto simp: bit_byte_swap)

text \<open>The entries for the single bits, run through the register.\<close>

lemma basis_8: "map (shifts 8) [1, 2, 4, 8, 16, 32, 64, 128] =
    [0x77073096, 0xee0e612c, 0x076dc419, 0x0edb8832, 0x1db71064, 0x3b6e20c8, 0x76dc4190, 0xedb88320]"
  by (simp add: shifts_numeral shifts_simps shiftc_def)

lemma basis_160: "map (shifts 160) [1, 2, 4, 8, 16, 32, 64, 128] =
    [0x65673b46, 0xcace768c, 0x4eedeb59, 0x9ddbd6b2, 0xe0c6ab25, 0x1afc500b, 0x35f8a016, 0x6bf1402c]"
  by (simp add: shifts_numeral shifts_simps shiftc_def)

lemma basis_152: "map (shifts 152) [1, 2, 4, 8, 16, 32, 64, 128] =
    [0xd7e28058, 0x74b406f1, 0xe9680de2, 0x09a11d85, 0x13423b0a, 0x26847614, 0x4d08ec28, 0x9a11d850]"
  by (simp add: shifts_numeral shifts_simps shiftc_def)

lemma basis_144: "map (shifts 144) [1, 2, 4, 8, 16, 32, 64, 128] =
    [0xef52b6e1, 0x05d46b83, 0x0ba8d706, 0x1751ae0c, 0x2ea35c18, 0x5d46b830, 0xba8d7060, 0xae6be681]"
  by (simp add: shifts_numeral shifts_simps shiftc_def)

lemma basis_136: "map (shifts 136) [1, 2, 4, 8, 16, 32, 64, 128] =
    [0x87a6cb43, 0xd43c90c7, 0x730827cf, 0xe6104f9e, 0x1751997d, 0x2ea332fa, 0x5d4665f4, 0xba8ccbe8]"
  by (simp add: shifts_numeral shifts_simps shiftc_def)

text \<open>Every entry of the tables of \<open>crc32.h\<close>.\<close>

lemma crc_table_entries: "crc_table = map (\<lambda>i. shifts 8 (of_nat i)) [0..<256]"
proof (rule linear_table)
  show "crc_table = doubled (map (shifts 8) [1, 2, 4, 8, 16, 32, 64, 128])"
    unfolding basis_8 by (simp add: doubled_def crc_table_def)
qed (simp_all add: shifts_xor)

lemma crc_braid_table_0_entries: "crc_braid_table_0 = map (\<lambda>i. shifts 160 (of_nat i)) [0..<256]"
proof (rule linear_table)
  show "crc_braid_table_0 = doubled (map (shifts 160) [1, 2, 4, 8, 16, 32, 64, 128])"
    unfolding basis_160 by (simp add: doubled_def crc_braid_table_0_def)
qed (simp_all add: shifts_xor)

lemma crc_braid_table_1_entries: "crc_braid_table_1 = map (\<lambda>i. shifts 152 (of_nat i)) [0..<256]"
proof (rule linear_table)
  show "crc_braid_table_1 = doubled (map (shifts 152) [1, 2, 4, 8, 16, 32, 64, 128])"
    unfolding basis_152 by (simp add: doubled_def crc_braid_table_1_def)
qed (simp_all add: shifts_xor)

lemma crc_braid_table_2_entries: "crc_braid_table_2 = map (\<lambda>i. shifts 144 (of_nat i)) [0..<256]"
proof (rule linear_table)
  show "crc_braid_table_2 = doubled (map (shifts 144) [1, 2, 4, 8, 16, 32, 64, 128])"
    unfolding basis_144 by (simp add: doubled_def crc_braid_table_2_def)
qed (simp_all add: shifts_xor)

lemma crc_braid_table_3_entries: "crc_braid_table_3 = map (\<lambda>i. shifts 136 (of_nat i)) [0..<256]"
proof (rule linear_table)
  show "crc_braid_table_3 = doubled (map (shifts 136) [1, 2, 4, 8, 16, 32, 64, 128])"
    unfolding basis_136 by (simp add: doubled_def crc_braid_table_3_def)
qed (simp_all add: shifts_xor)

lemma crc_big_table_entries: "crc_big_table = map (\<lambda>i. byte_swap (shifts 8 (of_nat i))) [0..<256]"
proof (rule linear_table)
  have "map (\<lambda>w. byte_swap (shifts 8 w)) [1, 2, 4, 8, 16, 32, 64, 128] = map byte_swap (map (shifts 8) [1, 2, 4, 8, 16, 32, 64, 128])"
    by (simp only: map_map comp_def)
  then show "crc_big_table = doubled (map (\<lambda>w. byte_swap (shifts 8 w)) [1, 2, 4, 8, 16, 32, 64, 128])"
    unfolding basis_8 by (simp add: doubled_def byte_swap_def crc_big_table_def)
qed (simp_all add: shifts_xor byte_swap_xor)

lemma crc_braid_big_table_0_entries: "crc_braid_big_table_0 = map (\<lambda>i. byte_swap (shifts 136 (of_nat i))) [0..<256]"
proof (rule linear_table)
  have "map (\<lambda>w. byte_swap (shifts 136 w)) [1, 2, 4, 8, 16, 32, 64, 128] = map byte_swap (map (shifts 136) [1, 2, 4, 8, 16, 32, 64, 128])"
    by (simp only: map_map comp_def)
  then show "crc_braid_big_table_0 = doubled (map (\<lambda>w. byte_swap (shifts 136 w)) [1, 2, 4, 8, 16, 32, 64, 128])"
    unfolding basis_136 by (simp add: doubled_def byte_swap_def crc_braid_big_table_0_def)
qed (simp_all add: shifts_xor byte_swap_xor)

lemma crc_braid_big_table_1_entries: "crc_braid_big_table_1 = map (\<lambda>i. byte_swap (shifts 144 (of_nat i))) [0..<256]"
proof (rule linear_table)
  have "map (\<lambda>w. byte_swap (shifts 144 w)) [1, 2, 4, 8, 16, 32, 64, 128] = map byte_swap (map (shifts 144) [1, 2, 4, 8, 16, 32, 64, 128])"
    by (simp only: map_map comp_def)
  then show "crc_braid_big_table_1 = doubled (map (\<lambda>w. byte_swap (shifts 144 w)) [1, 2, 4, 8, 16, 32, 64, 128])"
    unfolding basis_144 by (simp add: doubled_def byte_swap_def crc_braid_big_table_1_def)
qed (simp_all add: shifts_xor byte_swap_xor)

lemma crc_braid_big_table_2_entries: "crc_braid_big_table_2 = map (\<lambda>i. byte_swap (shifts 152 (of_nat i))) [0..<256]"
proof (rule linear_table)
  have "map (\<lambda>w. byte_swap (shifts 152 w)) [1, 2, 4, 8, 16, 32, 64, 128] = map byte_swap (map (shifts 152) [1, 2, 4, 8, 16, 32, 64, 128])"
    by (simp only: map_map comp_def)
  then show "crc_braid_big_table_2 = doubled (map (\<lambda>w. byte_swap (shifts 152 w)) [1, 2, 4, 8, 16, 32, 64, 128])"
    unfolding basis_152 by (simp add: doubled_def byte_swap_def crc_braid_big_table_2_def)
qed (simp_all add: shifts_xor byte_swap_xor)

lemma crc_braid_big_table_3_entries: "crc_braid_big_table_3 = map (\<lambda>i. byte_swap (shifts 160 (of_nat i))) [0..<256]"
proof (rule linear_table)
  have "map (\<lambda>w. byte_swap (shifts 160 w)) [1, 2, 4, 8, 16, 32, 64, 128] = map byte_swap (map (shifts 160) [1, 2, 4, 8, 16, 32, 64, 128])"
    by (simp only: map_map comp_def)
  then show "crc_braid_big_table_3 = doubled (map (\<lambda>w. byte_swap (shifts 160 w)) [1, 2, 4, 8, 16, 32, 64, 128])"
    unfolding basis_160 by (simp add: doubled_def byte_swap_def crc_braid_big_table_3_def)
qed (simp_all add: shifts_xor byte_swap_xor)

end
