(* ===== verification/Crc32_Props.thy ===== *)
theory Crc32_Props
  imports Crc32
begin

unbundle bit_operations_syntax

text \<open>
  The CRC-32 routines compute the shift register: byte by byte with \<open>crc_table\<close>, word by word, and in
  five braids, on machines of either byte order; and the combination of two checksums is the
  multiplication by a power of \<open>x\<close>.
\<close>

section \<open>Bytes and words\<close>

lemma byte_unat: "unat (c AND 0xff :: u32) < 256"
proof -
  have "unat (c AND mask 8) < 2 ^ 8"
    by (simp only: take_bit_eq_mask [symmetric] unsigned_take_bit_eq take_bit_nat_less_exp)
  then show ?thesis
    unfolding byte_masks(4) by simp
qed

lemma entry_nth:
  assumes "tab = map (\<lambda>i. f (of_nat i)) [0..<256]"
  shows "tab ! unat (c AND 0xff :: u32) = f (c AND 0xff)"
proof -
  have "(of_nat (unat w) :: u32) = w" for w
    by simp
  then show ?thesis
    using byte_unat [of c] unfolding assms by (simp only: nth_map length_upt nth_upt diff_zero add_0)
qed

lemma low_byte_split: "c = push_bit 8 (drop_bit 8 c) XOR (c AND 0xff :: u32)"
  unfolding byte_masks(4) by (rule bit_word_eqI) (auto simp: bit_simps)

lemma shifts_push_bit: "k \<le> n \<Longrightarrow> shifts n (push_bit k c) = shifts (n - k) (drop_bit k (push_bit k c))"
proof -
  assume "k \<le> n"
  then have "shifts n (push_bit k c) = shifts (n - k) (shifts k (push_bit k c))"
    using shifts_add [of "n - k" k] by simp
  also have "shifts k (push_bit k c) = drop_bit k (push_bit k c)"
    by (rule shifts_push) (simp add: bit_push_bit_iff)
  finally show ?thesis .
qed

lemma shifts_8: "shifts 8 c = drop_bit 8 c XOR shifts 8 (c AND 0xff)"
proof -
  have "shifts 8 c = shifts 8 (push_bit 8 (drop_bit 8 c)) XOR shifts 8 (c AND 0xff)"
    by (subst low_byte_split) (rule shifts_xor)
  also have "shifts 8 (push_bit 8 (drop_bit 8 c)) = drop_bit 8 (push_bit 8 (drop_bit 8 c))"
    using shifts_push_bit [of 8 8] by (simp add: shifts_simps)
  also have "\<dots> = drop_bit 8 c"
    by (rule bit_word_eqI) (auto simp: bit_simps dest: bit_imp_le_length)
  finally show ?thesis .
qed

lemma crc_word_step_shifts: "crc_word_step c = shifts 8 c"
  unfolding crc_word_step_def entry_nth [OF crc_table_entries] shifts_8 [of c] ..

lemma drop_8_byte: "drop_bit 8 (ucast (b :: u8) :: u32) = 0"
  by (rule bit_word_eqI) (auto simp: bit_simps dest: bit_imp_le_length)

lemma crc_step_shifts: "crc_step c b = shifts 8 (c XOR ucast b)"
proof -
  have "drop_bit 8 (c XOR ucast b) = drop_bit 8 c"
    by (simp only: drop_bit_xor drop_8_byte xor.right_neutral)
  then show ?thesis
    unfolding crc_step_def entry_nth [OF crc_table_entries] shifts_8 [of "c XOR ucast b"] by (simp only:)
qed

lemma funpow_4: "(f ^^ 4) x = f (f (f (f x)))"
  by (simp add: numeral_eq_Suc)

lemma shifts_4: "shifts 8 (shifts 8 (shifts 8 (shifts 8 c))) = shifts 32 c"
  using shifts_add [of 8 24 c] shifts_add [of 8 16 c] shifts_add [of 8 8 c] by simp

lemma crc_word_shifts: "crc_word c = shifts 32 c"
  unfolding crc_word_def funpow_4 crc_word_step_shifts shifts_4 ..


text \<open>The same for the bytes in the other order.\<close>

lemma byte_swap_low: "byte_swap c AND 0xff = drop_bit 24 c AND 0xff"
  unfolding byte_masks(4) by (rule bit_word_eqI) (auto simp: bit_byte_swap bit_simps add.commute)

lemma byte_swap_drop: "byte_swap (drop_bit 8 (byte_swap c)) = push_bit 8 c"
  by (rule bit_word_eqI) (auto simp: bit_byte_swap bit_simps)

lemma crc_word_big_step_shifts: "crc_word_big_step c = byte_swap (shifts 8 (byte_swap c))"
  unfolding crc_word_big_step_def entry_nth [OF crc_big_table_entries] shifts_8 [of "byte_swap c"] byte_swap_xor
    byte_swap_drop byte_swap_low ..

lemma crc_word_big_shifts: "crc_word_big c = byte_swap (shifts 32 (byte_swap c))"
  unfolding crc_word_big_def funpow_4 crc_word_big_step_shifts byte_swap_twice shifts_4 ..

definition byte_of :: "nat \<Rightarrow> u32 \<Rightarrow> u32" where
  "byte_of k w = drop_bit (8 * k) w AND 0xff"

lemma bytes_of: "w = byte_of 0 w XOR push_bit 8 (byte_of 1 w) XOR push_bit 16 (byte_of 2 w) XOR push_bit 24 (byte_of 3 w)"
  unfolding byte_of_def byte_masks(4) by (rule bit_word_eqI) (auto simp: bit_simps dest: bit_imp_le_length)

lemma shifts_byte:
  assumes "k < 4" and "8 * k \<le> n"
  shows "shifts n (push_bit (8 * k) (byte_of i w)) = shifts (n - 8 * k) (byte_of i w)"
proof -
  have "drop_bit (8 * k) (push_bit (8 * k) (byte_of i w)) = byte_of i w"
    using assms(1) unfolding byte_of_def byte_masks(4) by (intro bit_word_eqI) (auto simp: bit_simps)
  then show ?thesis
    using shifts_push_bit [OF assms(2)] by simp
qed

lemma shifts_bytes:
  assumes "24 \<le> n"
  shows "shifts n w = shifts n (byte_of 0 w) XOR shifts (n - 8) (byte_of 1 w) XOR shifts (n - 16) (byte_of 2 w) XOR
    shifts (n - 24) (byte_of 3 w)"
proof -
  have "shifts n w = shifts n (byte_of 0 w) XOR shifts n (push_bit 8 (byte_of 1 w)) XOR shifts n (push_bit 16 (byte_of 2 w)) XOR
      shifts n (push_bit 24 (byte_of 3 w))"
    by (subst bytes_of) (simp only: shifts_xor)
  then show ?thesis
    using assms shifts_byte [of 1 n 1 w] shifts_byte [of 2 n 2 w] shifts_byte [of 3 n 3 w] by simp
qed

lemma braid_word_bytes: "braid_word [t0, t1, t2, t3] w =
    t0 ! unat (byte_of 0 w) XOR t1 ! unat (byte_of 1 w) XOR t2 ! unat (byte_of 2 w) XOR t3 ! unat (byte_of 3 w)"
  by (simp add: braid_word_def byte_of_def numeral_eq_Suc xor.assoc)

lemma entry_byte: "tab = map (\<lambda>i. f (of_nat i)) [0..<256] \<Longrightarrow> tab ! unat (byte_of k w) = f (byte_of k w)"
  unfolding byte_of_def by (rule entry_nth)

lemma braid_word_shifts: "braid_word crc_braid_table w = shifts 160 w"
  unfolding crc_braid_table_def braid_word_bytes entry_byte [OF crc_braid_table_0_entries]
    entry_byte [OF crc_braid_table_1_entries] entry_byte [OF crc_braid_table_2_entries]
    entry_byte [OF crc_braid_table_3_entries]
  using shifts_bytes [of 160 w] by simp

lemma byte_of_swap:
  "byte_of 0 (byte_swap w) = byte_of 3 w" "byte_of 1 (byte_swap w) = byte_of 2 w"
  "byte_of 2 (byte_swap w) = byte_of 1 w" "byte_of 3 (byte_swap w) = byte_of 0 w"
  unfolding byte_of_def byte_masks(4) by (rule bit_word_eqI, auto simp: bit_byte_swap bit_simps add.commute)+

lemma braid_word_big_shifts: "braid_word crc_braid_big_table w = byte_swap (shifts 160 (byte_swap w))"
  unfolding crc_braid_big_table_def braid_word_bytes entry_byte [OF crc_braid_big_table_0_entries]
    entry_byte [OF crc_braid_big_table_1_entries] entry_byte [OF crc_braid_big_table_2_entries]
    entry_byte [OF crc_braid_big_table_3_entries]
  using shifts_bytes [of 160 "byte_swap w"] by (simp add: byte_of_swap byte_swap_xor xor.assoc xor.left_commute xor.commute del: One_nat_def)

section \<open>The register over a message\<close>

definition crc_ref :: "u32 \<Rightarrow> u8 list \<Rightarrow> u32" where
  "crc_ref c bs = foldl (\<lambda>c b. shifts 8 (c XOR ucast b)) c bs"

lemma crc_ref_simps: "crc_ref c [] = c" "crc_ref c (b # bs) = crc_ref (shifts 8 (c XOR ucast b)) bs"
  by (simp_all add: crc_ref_def)

lemma crc_ref_append: "crc_ref c (bs @ cs) = crc_ref (crc_ref c bs) cs"
  by (simp add: crc_ref_def)

lemma crc_ref_xor: "crc_ref (a XOR b) bs = shifts (8 * length bs) a XOR crc_ref b bs"
proof (induction bs arbitrary: a b)
  case (Cons x bs)
  have "crc_ref (a XOR b) (x # bs) = crc_ref (shifts 8 a XOR shifts 8 (b XOR ucast x)) bs"
    by (simp only: crc_ref_simps xor.assoc shifts_xor)
  also have "\<dots> = shifts (8 * length bs) (shifts 8 a) XOR crc_ref b (x # bs)"
    by (simp only: Cons.IH crc_ref_simps)
  finally show ?case
    using shifts_add [of "8 * length bs" 8 a] by (simp add: add.commute)
qed (simp add: crc_ref_simps shifts_simps)

lemma crc_ref_init: "crc_ref a bs = shifts (8 * length bs) a XOR crc_ref 0 bs"
  using crc_ref_xor [of a 0 bs] by simp

lemma crc_bytes_ref:
  "crc_bytes n buf c = (if n \<le> length buf then Some (drop n buf, crc_ref c (take n buf)) else None)"
  by (induction n buf c rule: crc_bytes.induct) (simp_all add: crc_ref_simps crc_step_shifts)

lemma crc_groups_ref: "8 * n \<le> length buf \<Longrightarrow> crc_groups n buf c = Some (drop (8 * n) buf, crc_ref c (take (8 * n) buf))"
proof (induction n arbitrary: buf c)
  case (Suc n)
  have "take (8 * Suc n) buf = take 8 buf @ take (8 * n) (drop 8 buf)"
    using take_add [of 8 "8 * n" buf] by simp
  then show ?case
    using Suc by (simp add: crc_bytes_ref crc_ref_append add.commute)
qed (simp add: crc_ref_simps)

lemma shifts_ubyte: "k < 4 \<Longrightarrow> 8 * k \<le> n \<Longrightarrow> shifts n (push_bit (8 * k) (ucast (b :: u8))) = shifts (n - 8 * k) (ucast b)"
proof -
  assume k: "k < 4" "8 * k \<le> n"
  have "byte_of 0 (ucast b) = ucast b"
    unfolding byte_of_def byte_masks(4) by (rule bit_word_eqI) (auto simp: bit_simps dest: bit_imp_le_length)
  then show ?thesis
    using shifts_byte [OF k, of 0 "ucast b"] by simp
qed

lemma word_ref:
  "crc_ref c [x, y, z, u] =
     shifts 32 (c XOR (ucast x XOR push_bit 8 (ucast y) XOR push_bit 16 (ucast z) XOR push_bit 24 (ucast u)))"
proof -
  have "crc_ref c [x, y, z, u] =
      shifts 8 (shifts 8 (shifts 8 (shifts 8 c))) XOR shifts 8 (shifts 8 (shifts 8 (shifts 8 (ucast x)))) XOR
      shifts 8 (shifts 8 (shifts 8 (ucast y))) XOR shifts 8 (shifts 8 (ucast z)) XOR shifts 8 (ucast u)"
    by (simp only: crc_ref_simps shifts_xor xor.assoc)
  also have "\<dots> = shifts 32 c XOR shifts 32 (ucast x) XOR shifts 24 (ucast y) XOR shifts 16 (ucast z) XOR shifts 8 (ucast u)"
    unfolding shifts_4 using shifts_add [of 8 16 "ucast y"] shifts_add [of 8 8 "ucast y"] shifts_add [of 8 8 "ucast z"] by simp
  finally show ?thesis
    using shifts_ubyte [of 1 32 y] shifts_ubyte [of 2 32 z] shifts_ubyte [of 3 32 u]
    by (simp add: shifts_xor)
qed

section \<open>The braids\<close>

text \<open>What the register will hold at the end of \<open>bs\<close> when the five words are still to be added to its first words.\<close>

definition pending :: "braids \<Rightarrow> u8 list \<Rightarrow> u32" where
  "pending cs bs =
     (case cs of (c0, c1, c2, c3, c4) \<Rightarrow>
        let n = 8 * length bs in
        crc_ref 0 bs XOR shifts n c0 XOR shifts (n - 32) c1 XOR shifts (n - 64) c2 XOR shifts (n - 96) c3 XOR shifts (n - 128) c4)"

lemma pending_init: "pending (c, 0, 0, 0, 0) bs = crc_ref c bs"
  by (simp add: pending_def crc_ref_init [of c] xor.commute)

lemma four_bytes: "4 \<le> length bs \<Longrightarrow> \<exists>x y z u. take 4 bs = [x, y, z, u]"
  by (auto simp: numeral_eq_Suc Suc_le_length_iff)

definition le_word :: "u8 list \<Rightarrow> nat \<Rightarrow> u32" where
  "le_word buf i =
     (case take 4 (drop (4 * i) buf) of
        [x, y, z, u] \<Rightarrow> ucast x XOR push_bit 8 (ucast y) XOR push_bit 16 (ucast z) XOR push_bit 24 (ucast u)
      | _ \<Rightarrow> 0)"

lemma word_at_ref:
  assumes "4 * i + 4 \<le> length buf"
  shows "word_at True buf i = Some (le_word buf i)" and "word_at False buf i = Some (byte_swap (le_word buf i))"
    and "crc_ref c (take 4 (drop (4 * i) buf)) = shifts 32 (c XOR le_word buf i)"
proof -
  have "4 \<le> length (drop (4 * i) buf)"
    using assms by simp
  then obtain x y z u where "take 4 (drop (4 * i) buf) = [x, y, z, u]"
    using four_bytes by blast
  then show "word_at True buf i = Some (le_word buf i)" and "word_at False buf i = Some (byte_swap (le_word buf i))"
    and "crc_ref c (take 4 (drop (4 * i) buf)) = shifts 32 (c XOR le_word buf i)"
    by (simp_all add: word_at_def le_word_def word_ref)
qed

lemma take_20: "20 \<le> length buf \<Longrightarrow> take 20 buf = take 4 (drop (4 * 0) buf) @ take 4 (drop (4 * 1) buf) @
    take 4 (drop (4 * 2) buf) @ take 4 (drop (4 * 3) buf) @ take 4 (drop (4 * 4) buf)"
  using take_add [of 4 16 buf] take_add [of 4 12 "drop 4 buf"] take_add [of 4 8 "drop 8 buf"] take_add [of 4 4 "drop 12 buf"]
  by simp

abbreviation xor5 :: "braids \<Rightarrow> braids \<Rightarrow> braids" where
  "xor5 \<equiv> \<lambda>(a0, a1, a2, a3, a4) (b0, b1, b2, b3, b4). (a0 XOR b0, a1 XOR b1, a2 XOR b2, a3 XOR b3, a4 XOR b4)"

abbreviation map5 :: "(u32 \<Rightarrow> u32) \<Rightarrow> braids \<Rightarrow> braids" where
  "map5 f \<equiv> \<lambda>(a0, a1, a2, a3, a4). (f a0, f a1, f a2, f a3, f a4)"

abbreviation fold5 :: "braids \<Rightarrow> u32" where
  "fold5 \<equiv> \<lambda>(w0, w1, w2, w3, w4). shifts 160 w0 XOR shifts 128 w1 XOR shifts 96 w2 XOR shifts 64 w3 XOR shifts 32 w4"

abbreviation le_words :: "u8 list \<Rightarrow> braids" where
  "le_words buf \<equiv> (le_word buf 0, le_word buf 1, le_word buf 2, le_word buf 3, le_word buf 4)"

lemma load_words_ref:
  assumes "20 \<le> length buf"
  shows "load_words True buf cs = Some (xor5 cs (le_words buf))"
    and "load_words False buf cs = Some (xor5 cs (map5 byte_swap (le_words buf)))"
  using assms by (simp_all add: load_words_def word_at_ref split: prod.splits)

lemma block_ref:
  assumes "20 \<le> length buf"
  shows "crc_ref 0 (take 20 buf) = fold5 (le_words buf)"
proof -
  have "crc_ref 0 (take 20 buf) =
      shifts 32 (shifts 32 (shifts 32 (shifts 32 (shifts 32 (0 XOR le_word buf 0) XOR le_word buf 1) XOR le_word buf 2)
        XOR le_word buf 3) XOR le_word buf 4)"
    unfolding take_20 [OF assms] crc_ref_append using assms by (simp only: word_at_ref(3))
  also have "\<dots> = fold5 (le_words buf)"
    by (simp add: shifts_xor shifts_add [symmetric] xor.assoc)
  finally show ?thesis .
qed


lemma pending_split:
  assumes "20 \<le> length buf"
  shows "pending cs buf =
    crc_ref 0 (drop 20 buf) XOR shifts (8 * (length buf - 20)) (fold5 (xor5 cs (le_words buf)))"
proof -
  obtain c0 c1 c2 c3 c4 where cs: "cs = (c0, c1, c2, c3, c4)"
    by (cases cs)
  let ?m = "8 * (length buf - 20)"
  have "crc_ref 0 (take 20 buf @ drop 20 buf) = shifts ?m (fold5 (le_words buf)) XOR crc_ref 0 (drop 20 buf)"
    unfolding crc_ref_append block_ref [OF assms] by (subst crc_ref_init) (simp only: length_drop)
  moreover have "8 * length buf = ?m + 160" "8 * length buf - 32 = ?m + 128" "8 * length buf - 64 = ?m + 96"
    "8 * length buf - 96 = ?m + 64" "8 * length buf - 128 = ?m + 32"
    using assms by simp_all
  ultimately show ?thesis
    unfolding cs pending_def Let_def prod.case
    by (simp only: shifts_add shifts_xor append_take_drop_id)
      (simp only: xor.assoc xor.left_commute xor.commute)
qed

lemma pending_step:
  assumes "16 \<le> length buf"
  shows "pending (map5 (shifts 160) v) buf = crc_ref 0 buf XOR shifts (8 * length buf) (fold5 v)"
proof -
  obtain v0 v1 v2 v3 v4 where v: "v = (v0, v1, v2, v3, v4)"
    by (cases v)
  let ?m = "8 * length buf"
  have "shifts (?m - 32) (shifts 160 v1) = shifts ?m (shifts 128 v1)"
    "shifts (?m - 64) (shifts 160 v2) = shifts ?m (shifts 96 v2)"
    "shifts (?m - 96) (shifts 160 v3) = shifts ?m (shifts 64 v3)"
    "shifts (?m - 128) (shifts 160 v4) = shifts ?m (shifts 32 v4)"
    using assms by (simp_all add: shifts_add [symmetric] add.commute)
  then show ?thesis
    unfolding v pending_def Let_def prod.case by (simp only: shifts_xor xor.assoc)
qed

lemma braid_loop_Suc: "20 \<le> length buf \<Longrightarrow>
    braid_loop True (Suc n) buf cs = braid_loop True n (drop 20 buf) (map5 (shifts 160) (xor5 cs (le_words buf)))"
  by (simp add: load_words_ref braid_word_shifts split: prod.splits)

lemma braid_loop_ref:
  "20 * Suc n \<le> length buf \<Longrightarrow>
   \<exists>cs'. braid_loop True n buf cs = Some (drop (20 * n) buf, cs') \<and>
     pending cs' (take 20 (drop (20 * n) buf)) = pending cs (take (20 * Suc n) buf)"
proof (induction n arbitrary: buf cs)
  case (Suc n)
  let ?cs = "map5 (shifts 160) (xor5 cs (le_words buf))"
  let ?rest = "take (20 * Suc n) (drop 20 buf)"
  let ?all = "take (20 * Suc (Suc n)) buf"
  have lens: "length ?all = 20 * Suc (Suc n)" "length ?rest = 20 * Suc n" "drop 20 ?all = ?rest"
    using Suc.prems by (simp_all add: drop_take)
  have "le_words ?all = le_words buf"
    by (simp add: le_word_def drop_take)
  then have "pending cs ?all = crc_ref 0 ?rest XOR shifts (8 * length ?rest) (fold5 (xor5 cs (le_words buf)))"
    using pending_split [of ?all cs] unfolding lens by simp
  also have "\<dots> = pending ?cs ?rest"
    by (rule pending_step [symmetric]) (simp only: lens, simp)
  finally have "pending cs ?all = pending ?cs ?rest" .
  moreover have prem: "20 * Suc n \<le> length (drop 20 buf)"
    using Suc.prems by simp
  moreover obtain cs' where "braid_loop True n (drop 20 buf) ?cs = Some (drop (20 * n) (drop 20 buf), cs')"
    "pending cs' (take 20 (drop (20 * n) (drop 20 buf))) = pending ?cs ?rest"
    using Suc.IH [OF prem, of ?cs] by blast
  moreover have "drop (20 * n) (drop 20 buf) = drop (20 * Suc n) buf" "20 \<le> length buf"
    using Suc.prems by (simp_all add: add.commute)
  ultimately show ?case
    using braid_loop_Suc [of buf n cs] by (intro exI [of _ cs'] conjI) (simp_all only:)
qed (auto simp: min_def)

lemma last_block_ref:
  assumes "20 \<le> length buf"
  shows "last_block True buf cs = Some (drop 20 buf, pending cs (take 20 buf))"
proof -
  have "le_words (take 20 buf) = le_words buf"
    by (simp add: le_word_def drop_take)
  then have "pending cs (take 20 buf) = fold5 (xor5 cs (le_words buf))"
    using assms pending_split [of "take 20 buf" cs] by (simp add: crc_ref_simps shifts_simps)
  then show ?thesis
    using assms
    by (simp add: last_block_def load_words_ref crc_word_shifts shifts_xor shifts_add [symmetric] xor.assoc
        xor.left_commute xor.commute split: prod.splits)
qed

lemma braid_loop_swap:
  "20 * n \<le> length buf \<Longrightarrow>
   braid_loop False n buf (map5 byte_swap cs) = map_option (apsnd (map5 byte_swap)) (braid_loop True n buf cs)"
proof (induction n arbitrary: buf cs)
  case (Suc n)
  then show ?case
    by (cases cs) (simp add: load_words_ref byte_swap_xor [symmetric] braid_word_big_shifts braid_word_shifts byte_swap_twice
        Suc.IH [of "drop 20 buf", symmetric])
qed simp

lemma last_block_swap: "20 \<le> length buf \<Longrightarrow> last_block False buf (map5 byte_swap cs) = last_block True buf cs"
  by (cases cs) (simp add: last_block_def load_words_ref byte_swap_xor [symmetric] crc_word_big_shifts crc_word_shifts byte_swap_twice)


section \<open>The whole routine\<close>

definition to_boundary :: "nat \<Rightarrow> nat" where
  "to_boundary addr = (4 - addr mod 4) mod 4"

lemma to_boundary: "to_boundary addr \<le> 3" "addr mod 4 = 0 \<Longrightarrow> to_boundary addr = 0"
  "addr mod 4 \<noteq> 0 \<Longrightarrow> to_boundary addr = Suc (to_boundary (Suc addr))"
proof -
  show "to_boundary addr \<le> 3" and "addr mod 4 = 0 \<Longrightarrow> to_boundary addr = 0"
    by (simp_all add: to_boundary_def)
  assume "addr mod 4 \<noteq> 0"
  moreover have "Suc addr mod 4 = (if addr mod 4 = 3 then 0 else Suc (addr mod 4))"
    by (simp add: mod_Suc)
  moreover have "addr mod 4 < 4"
    by simp
  ultimately consider "addr mod 4 = 1" "Suc addr mod 4 = 2" | "addr mod 4 = 2" "Suc addr mod 4 = 3" | "addr mod 4 = 3" "Suc addr mod 4 = 0"
    by (cases "addr mod 4 = 3") (auto, linarith)
  then show "to_boundary addr = Suc (to_boundary (Suc addr))"
    by cases (simp_all add: to_boundary_def)
qed

lemma and_3: "(a :: nat) AND 3 = a mod 4"
  using take_bit_eq_mask [of 2 a] by (simp add: take_bit_eq_mod mask_eq_exp_minus_1)

lemma crc_align_min:
  "len \<le> length buf \<Longrightarrow> crc_align len addr buf c =
     (let k = min len (to_boundary addr) in Some (len - k, drop k buf, crc_ref c (take k buf)))"
proof (induction len arbitrary: addr buf c)
  case (Suc len)
  obtain b bs where buf: "buf = b # bs"
    using Suc.prems by (cases buf) auto
  show ?case
  proof (cases "addr mod 4 = 0")
    case False
    then show ?thesis
      using Suc.IH [of bs "Suc addr" "crc_step c b"] Suc.prems
      by (simp add: buf and_3 to_boundary(3) crc_ref_simps crc_step_shifts Let_def)
  qed (simp add: and_3 to_boundary(2) crc_ref_simps)
qed (simp add: crc_ref_simps)

lemma crc_align_ref:
  assumes "len \<le> length buf"
  shows "\<exists>k \<le> 3. k \<le> len \<and> crc_align len addr buf c = Some (len - k, drop k buf, crc_ref c (take k buf))"
  using crc_align_min [OF assms, of addr c] to_boundary(1) [of addr]
  by (intro exI [of _ "min len (to_boundary addr)"]) (simp add: Let_def)

lemma crc_braided_eval:
  assumes "crc_align len addr buf c = Some (l, b, c')" and "l div 20 \<noteq> 0"
    and "braid_loop little (l div 20 - 1) b (if little then c' else byte_swap c', 0, 0, 0, 0) = Some (b', cs)"
    and "last_block little b' cs = Some (b'', c'')"
  shows "crc_braided little addr buf len c = Some (l - l div 20 * 20, b'', c'')"
  using assms by (simp add: crc_braided_def Let_def)

lemma crc_braided_ref:
  assumes "len \<le> length buf" and "23 \<le> len"
  shows "\<exists>k \<le> len. crc_braided True addr buf len c = Some (len - k, drop k buf, crc_ref c (take k buf))"
proof -
  obtain k where k: "k \<le> 3" "k \<le> len" "crc_align len addr buf c = Some (len - k, drop k buf, crc_ref c (take k buf))"
    using crc_align_ref [OF assms(1)] by blast
  let ?n = "(len - k) div 20"
  have n: "20 * ?n \<le> len - k" "?n \<noteq> 0"
    using k(1) assms(2) by (simp_all add: div_eq_0_iff)
  have Suc: "Suc (?n - 1) = ?n"
    using n(2) by simp
  have len: "20 * Suc (?n - 1) \<le> length (drop k buf)"
    using n(1) assms(1) unfolding Suc by simp
  obtain cs where "braid_loop True (?n - 1) (drop k buf) (crc_ref c (take k buf), 0, 0, 0, 0) =
        Some (drop (20 * (?n - 1)) (drop k buf), cs)"
      "pending cs (take 20 (drop (20 * (?n - 1)) (drop k buf))) = crc_ref (crc_ref c (take k buf)) (take (20 * ?n) (drop k buf))"
    using braid_loop_ref [OF len, of "(crc_ref c (take k buf), 0, 0, 0, 0)"] unfolding pending_init Suc by blast
  moreover have "20 \<le> length (drop (20 * (?n - 1)) (drop k buf))"
    using len by simp
  ultimately have "crc_braided True addr buf len c =
      Some (len - k - ?n * 20, drop 20 (drop (20 * (?n - 1)) (drop k buf)),
        crc_ref (crc_ref c (take k buf)) (take (20 * ?n) (drop k buf)))"
    using crc_braided_eval [OF k(3) n(2), of True] last_block_ref [of "drop (20 * (?n - 1)) (drop k buf)" cs] by (simp only: if_True)
  also have "drop 20 (drop (20 * (?n - 1)) (drop k buf)) = drop (k + 20 * ?n) buf"
    using Suc by (metis drop_drop mult_Suc_right add.commute)
  also have "crc_ref (crc_ref c (take k buf)) (take (20 * ?n) (drop k buf)) = crc_ref c (take (k + 20 * ?n) buf)"
    by (simp only: take_add crc_ref_append)
  finally have "crc_braided True addr buf len c =
      Some (len - (k + 20 * ?n), drop (k + 20 * ?n) buf, crc_ref c (take (k + 20 * ?n) buf))"
    by (simp only: diff_diff_left mult.commute)
  then show ?thesis
    using n k by (intro exI [of _ "k + 20 * ?n"]) auto
qed

lemma crc_braided_swap:
  assumes "len \<le> length buf"
  shows "crc_braided False addr buf len c = crc_braided True addr buf len c"
proof -
  obtain k where k: "k \<le> len" "crc_align len addr buf c = Some (len - k, drop k buf, crc_ref c (take k buf))"
    using crc_align_ref [OF assms] by blast
  let ?n = "(len - k) div 20" and ?buf = "drop k buf" and ?c = "crc_ref c (take k buf)"
  show ?thesis
  proof (cases "?n = 0")
    case False
    have len: "20 * Suc (?n - 1) \<le> length ?buf"
      using False assms times_div_less_eq_dividend [of 20 "len - k"] by (cases ?n) simp_all
    then have "braid_loop False (?n - 1) ?buf (byte_swap ?c, 0, 0, 0, 0) =
        map_option (apsnd (map5 byte_swap)) (braid_loop True (?n - 1) ?buf (?c, 0, 0, 0, 0))"
      using braid_loop_swap [of "?n - 1" ?buf "(?c, 0, 0, 0, 0)"] by simp
    moreover obtain cs where "braid_loop True (?n - 1) ?buf (?c, 0, 0, 0, 0) = Some (drop (20 * (?n - 1)) ?buf, cs)"
      using braid_loop_ref [OF len] by blast
    moreover have "20 \<le> length (drop (20 * (?n - 1)) ?buf)"
      using len by simp
    moreover obtain b c' where "last_block True (drop (20 * (?n - 1)) ?buf) cs = Some (b, c')"
      using calculation(3) last_block_ref by blast
    ultimately show ?thesis
      using crc_braided_eval [OF k(2) False, of True] crc_braided_eval [OF k(2) False, of False] last_block_swap by simp
  qed (simp add: crc_braided_def k)
qed

section \<open>The register loses nothing\<close>

lemma bit_shiftc_step:
  "bit (if bit p 0 then drop_bit 1 p XOR q else drop_bit 1 (p :: u32)) i \<longleftrightarrow> bit p (Suc i) \<noteq> (bit p 0 \<and> bit q i)"
  by (auto simp: bit_xor_iff bit_drop_bit_eq)

lemma bit_shiftc: "bit (shiftc p) i \<longleftrightarrow> bit p (Suc i) \<noteq> (bit p 0 \<and> bit POLY i)"
  unfolding shiftc_def odd_and by (rule bit_shiftc_step)

lemma shiftc_eq_0:
  assumes "shiftc p = 0"
  shows "p = 0"
proof -
  have bits: "bit p (Suc i) \<longleftrightarrow> bit p 0 \<and> bit POLY i" for i
  proof -
    have "\<not> bit (shiftc p) i"
      by (simp add: assms)
    then show ?thesis
      unfolding bit_shiftc by blast
  qed
  have "\<not> bit p (Suc 31)" and "bit POLY 31"
    by (auto dest: bit_imp_le_length)
  then have "\<not> bit p 0"
    using bits [of 31] by blast
  then have "\<not> bit p i" for i
    using bits by (cases i) (simp_all only: simp_thms not_False_eq_True)
  then show ?thesis
    by (intro bit_word_eqI) simp
qed

lemma shifts_eq_0: "shifts n p = 0 \<longleftrightarrow> p = 0"
proof (induction n arbitrary: p)
  case (Suc n)
  have "shiftc p = 0 \<longleftrightarrow> p = 0"
    using shiftc_eq_0 [of p] shifts_zero [of 1] by (auto simp: shifts_def)
  then show ?case
    by (simp add: shifts_simps(2) Suc)
qed (simp add: shifts_simps)

section \<open>Multiplication\<close>

fun pmul :: "nat \<Rightarrow> u32 \<Rightarrow> u32 \<Rightarrow> u32" where
  "pmul 0 a b = (if bit a 0 then b else 0)"
| "pmul (Suc i) a b = (if bit a (Suc i) then b else 0) XOR pmul i a (shiftc b)"

lemma pmul_hom:
  assumes "\<And>a b. f (a XOR b) = f a XOR f b" and "f 0 = 0" and "\<And>b. f (shiftc b) = shiftc (f b)"
  shows "f (pmul i a b) = pmul i a (f b)"
  by (induction i arbitrary: b) (simp_all add: assms)

lemma pmul_xor: "pmul i a (b XOR c) = pmul i a b XOR pmul i a c"
  by (induction i arbitrary: b c) (simp_all add: shiftc_xor xor.assoc xor.left_commute xor.commute)

lemma pmul_shiftc: "pmul i a (shiftc b) = shiftc (pmul i a b)"
  by (rule pmul_hom [symmetric]) (simp_all add: shiftc_xor, simp add: shiftc_def)

lemma pmul_0: "pmul i a 0 = 0"
  by (induction i) (simp_all, simp add: shiftc_def)

lemma pmul_one: "i < 32 \<Longrightarrow> pmul i a (2 ^ i) = take_bit (Suc i) a"
proof (induction i)
  case (Suc i)
  have "shiftc (2 ^ Suc i) = 2 ^ i"
    unfolding shiftc_def odd_and
    by (simp add: bit_exp_iff del: power_Suc) (rule bit_word_eqI, use Suc.prems in \<open>auto simp: bit_simps\<close>)
  then show ?case
    using Suc by (auto simp: bit_simps less_Suc_eq simp del: power_Suc intro!: bit_word_eqI)
qed (auto intro!: bit_word_eqI simp: bit_simps bit_0)

lemma pmul_unit: "pmul 31 a 0x80000000 = a"
  using pmul_one [of 31 a] by (simp add: take_bit_word_eq_self)

lemma pmul_commute: "pmul 31 a b = pmul 31 b a"
proof -
  have "pmul 31 a (pmul 31 b 0x80000000) = pmul 31 b (pmul 31 a 0x80000000)"
    by (rule pmul_hom) (simp_all add: pmul_xor pmul_0 pmul_shiftc)
  then show ?thesis
    by (simp only: pmul_unit)
qed

lemma shifts_shiftc: "shifts n (shiftc b) = shiftc (shifts n b)"
  by (induction n arbitrary: b) (simp_all add: shifts_simps)

text \<open>Multiplication by a power of \<open>x\<close> is shifting.\<close>

lemma pmul_power: "pmul 31 (shifts n 0x80000000) b = shifts n b"
proof -
  have "pmul 31 b (shifts n 0x80000000) = shifts n (pmul 31 b 0x80000000)"
    by (rule pmul_hom [symmetric]) (simp_all add: shifts_xor shifts_shiftc)
  then show ?thesis
    by (simp only: pmul_unit pmul_commute [of _ b])
qed

definition xpow :: "nat \<Rightarrow> u32" where
  "xpow n = shifts n 0x80000000"

lemma pmul_xpow: "pmul 31 (xpow n) b = shifts n b"
  unfolding xpow_def by (rule pmul_power)

lemma xpow_nonzero: "xpow n \<noteq> 0"
  by (simp add: xpow_def shifts_eq_0)

lemma and_bit: "(a :: u32) AND push_bit i 1 \<noteq> 0 \<longleftrightarrow> bit a i"
  by (simp add: bit_iff_and_push_bit_not_eq_0)

lemma and_below: "i < 32 \<Longrightarrow> (a :: u32) AND (push_bit i 1 - 1) = take_bit i a"
  by (simp add: take_bit_eq_mask mask_eq_exp_minus_1)

lemma take_bit_0_iff: "take_bit i (a :: u32) = 0 \<longleftrightarrow> (\<forall>j < i. \<not> bit a j)"
proof
  assume eq: "take_bit i a = 0"
  have "bit a j \<longleftrightarrow> bit (take_bit i a) j" if "j < i" for j
    using that by (simp add: bit_take_bit_iff)
  then show "\<forall>j < i. \<not> bit a j"
    by (simp add: eq)
qed (auto simp: bit_eq_iff bit_take_bit_iff)

lemma pmul_no_bits: "\<forall>j \<le> i. \<not> bit a j \<Longrightarrow> pmul i a b = 0"
  by (induction i arbitrary: b) (simp_all add: le_Suc_eq)

lemma multmodp_loop_pmul:
  "i < 32 \<Longrightarrow> \<exists>j \<le> i. bit a j \<Longrightarrow> multmodp_loop i a b p = Some (p XOR pmul i a b)"
proof (induction i arbitrary: b p)
  case 0
  then show ?case
    by (subst multmodp_loop.simps) (simp only: Let_def and_bit and_below take_bit_0_iff, simp)
next
  case (Suc i)
  show ?case
  proof (cases "\<exists>j \<le> i. bit a j")
    case False
    then have "bit a (Suc i)" "\<forall>j < Suc i. \<not> bit a j" "pmul i a (shiftc b) = 0"
      using Suc.prems by (auto simp: le_Suc_eq less_Suc_eq_le intro: pmul_no_bits)
    then show ?thesis
      using Suc.prems by (subst multmodp_loop.simps) (simp only: Let_def and_bit and_below take_bit_0_iff, simp)
  next
    case True
    then have "\<not> (\<forall>j < Suc i. \<not> bit a j)"
      by (auto simp: less_Suc_eq_le)
    then show ?thesis
      using Suc.prems Suc.IH [OF _ True]
      by (subst multmodp_loop.simps) (simp only: Let_def and_bit and_below take_bit_0_iff flip: shiftc_def, simp add: xor.assoc)
  qed
qed

lemma multmodp_pmul: "a \<noteq> 0 \<Longrightarrow> multmodp a b = Some (pmul 31 a b)"
  unfolding multmodp_def
  using multmodp_loop_pmul [of 31 a b 0] bit_imp_le_length [of a] by (fastforce simp: bit_eq_iff)

lemma multmodp_xpow: "multmodp (xpow n) b = Some (shifts n b)"
  by (simp add: multmodp_pmul xpow_nonzero pmul_xpow)


section \<open>The powers of \<open>x\<close>\<close>

definition psquare :: "u32 \<Rightarrow> u32" where
  "psquare p = pmul 31 p p"

lemma pmul_numeral: "pmul (numeral k) a b = (if bit a (numeral k) then b else 0) XOR pmul (pred_numeral k) a (shiftc b)"
  by (simp add: numeral_eq_Suc)

lemma psquare_xpow: "psquare (xpow n) = xpow (2 * n)"
  unfolding psquare_def pmul_xpow by (simp add: xpow_def shifts_add [symmetric] mult_2)

lemma x2n_squares: "map psquare x2n_table = tl x2n_table @ [hd x2n_table]"
  unfolding x2n_table_def by (simp add: psquare_def pmul_numeral shiftc_def)

lemma x2n_length: "length x2n_table = 32"
  by (simp add: x2n_table_def)

lemma x2n_entries: "k < 32 \<Longrightarrow> x2n_table ! k = xpow (2 ^ k)"
proof (induction k)
  case 0
  show ?case
    by (simp add: x2n_table_def xpow_def shifts_simps shiftc_def)
next
  case (Suc k)
  have "x2n_table ! Suc k = (tl x2n_table @ [hd x2n_table]) ! k"
    using Suc.prems by (simp add: nth_append nth_tl x2n_length)
  also have "\<dots> = psquare (x2n_table ! k)"
    using Suc.prems by (simp add: x2n_squares [symmetric] x2n_length)
  finally show ?case
    using Suc by (simp add: psquare_xpow mult.commute)
qed

lemma xpow_period: "shifts (2 ^ 32) b = shifts 1 b"
proof -
  have "(tl x2n_table @ [hd x2n_table]) ! 31 = psquare (x2n_table ! 31)"
    by (simp add: x2n_squares [symmetric] x2n_length)
  then have "x2n_table ! 0 = psquare (x2n_table ! 31)"
    by (simp add: nth_append x2n_length hd_conv_nth x2n_table_def)
  then have "xpow 1 = xpow (2 ^ 32)"
    by (simp add: x2n_entries psquare_xpow)
  then show ?thesis
    by (metis pmul_xpow)
qed

lemma xpow_mod: "shifts (2 ^ (k mod 32)) b = shifts (2 ^ k) b"
proof -
  have period: "shifts (2 ^ 32 * m) b = shifts m b" for m b
  proof (induction m arbitrary: b)
    case (Suc m)
    have "shifts (2 ^ 32 * Suc m) b = shifts (2 ^ 32) (shifts (2 ^ 32 * m) b)"
      by (simp only: shifts_add [symmetric] mult_Suc_right)
    also have "\<dots> = shifts (Suc m) b"
      unfolding xpow_period Suc by (simp only: shifts_add [symmetric] plus_1_eq_Suc)
    finally show ?case .
  qed (simp add: shifts_simps)
  have "shifts (2 ^ (r + 32 * q)) b = shifts (2 ^ r) b" for q r
  proof (induction q)
    case (Suc q)
    have "(2 :: nat) ^ (r + 32 * Suc q) = 2 ^ 32 * 2 ^ (r + 32 * q)"
      by (simp add: power_add)
    then show ?case
      using period Suc by (simp only:)
  qed simp
  from this [of "k mod 32" "k div 32"] show ?thesis
    by simp
qed

lemma x2nmodp_loop_ref: "x2nmodp_loop n k p = Some (shifts (n * 2 ^ k) p)"
proof (induction n arbitrary: k p rule: less_induct)
  case (less n)
  show ?case
  proof (cases "n = 0")
    case False
    have IH: "x2nmodp_loop (n div 2) (Suc k) q = Some (shifts (n div 2 * 2 ^ Suc k) q)" for q
      using less False by simp
    have n: "n * 2 ^ k = (if n mod 2 = 1 then 2 ^ k else 0) + n div 2 * 2 ^ Suc k"
    proof -
      have "(2 * (n div 2) + n mod 2) * 2 ^ k = n mod 2 * 2 ^ k + n div 2 * 2 ^ Suc k"
        unfolding distrib_right by (simp only: power_Suc mult.assoc mult.commute mult.left_commute add.commute)
      then have "n * 2 ^ k = n mod 2 * 2 ^ k + n div 2 * 2 ^ Suc k"
        by (simp only: mult_div_mod_eq)
      then show ?thesis
        by (cases "n mod 2 = 1") simp_all
    qed
    show ?thesis
      using False
      by (subst x2nmodp_loop.simps) (simp add: IH x2n_entries multmodp_xpow xpow_mod shifts_add [symmetric] n add.commute)
  qed (simp add: x2nmodp_loop.simps shifts_simps)
qed

lemma x2nmodp_ref: "x2nmodp n k = Some (xpow (n * 2 ^ k))"
  by (simp add: x2nmodp_def x2nmodp_loop_ref xpow_def)

lemma xor_ones: "(w :: u32) XOR 0xffffffff = NOT w"
proof -
  have ones: "(0xffffffff :: u32) = - 1"
    by simp
  show ?thesis
    unfolding ones by (rule bit_word_eqI) (auto simp: bit_simps)
qed

lemma crc32_z_ref:
  assumes "len \<le> length buf"
  shows "crc32_z little c (Some (addr, buf)) len = Some (NOT (crc_ref (NOT c) (take len buf)))"
proof -
  obtain k where k: "k \<le> len" and head: "(if len \<ge> 23 then crc_braided little addr buf len (NOT c) else Some (len, buf, NOT c)) =
      Some (len - k, drop k buf, crc_ref (NOT c) (take k buf))"
  proof (cases "23 \<le> len")
    case True
    have "crc_braided little addr buf len (NOT c) = crc_braided True addr buf len (NOT c)"
      using crc_braided_swap [OF assms] by (cases little) simp_all
    then show thesis
      using that crc_braided_ref [OF assms True] True by (metis (full_types))
  next
    case False
    then show thesis
      using that [of 0] by (simp add: crc_ref_simps)
  qed
  let ?m = "len - k" and ?buf = "drop k buf"
  have m: "8 * (?m div 8) \<le> length ?buf" "?m mod 8 \<le> length (drop (8 * (?m div 8)) ?buf)"
    using assms by (simp_all add: div_mult_mod_eq minus_mod_eq_mult_div [symmetric])
  have "take len buf = take k buf @ take (8 * (?m div 8)) ?buf @ take (?m mod 8) (drop (8 * (?m div 8)) ?buf)"
    using take_add [of k ?m buf] take_add [of "8 * (?m div 8)" "?m mod 8" ?buf] k by simp
  then show ?thesis
    unfolding crc32_z_def option.case prod.case Let_def head
    using m by (simp add: crc_groups_ref crc_bytes_ref crc_ref_append xor_ones)
qed

section \<open>Properties\<close>

definition crc32_reference :: "u32 \<Rightarrow> u8 list \<Rightarrow> u32" where
  "crc32_reference c bs = NOT (foldl (\<lambda>r b. (shiftc ^^ 8) (r XOR ucast b)) (NOT c) bs)"

lemma crc32_reference_ref: "crc32_reference c bs = NOT (crc_ref (NOT c) bs)"
  unfolding crc32_reference_def crc_ref_def shifts_def ..

text \<open>
  C34. \<open>crc32_z\<close> is the bit-by-bit CRC-32 of the first \<open>len\<close> bytes, whatever the byte order of the
  machine and the alignment of the buffer: the byte loop, the unrolled groups, and the five braids over
  the tables of \<open>crc32.h\<close> with their head, last block and tail compute the same register. No read is
  outside of the buffer.
\<close>

theorem crc32_braided_reference:
  assumes "len \<le> length buf"
  shows "crc32_z little c (Some (addr, buf)) len = Some (crc32_reference c (take len buf))"
  unfolding crc32_reference_ref by (rule crc32_z_ref [OF assms])

lemma crc32_braided_reference_witness:
  "crc32_z False 0 (Some (5, replicate 66 7)) 65 = Some (crc32_reference 0 (replicate 65 7))"
  using crc32_braided_reference [of 65 "replicate 66 7" False 0 5] by simp

lemma crc_ref_combine: "NOT (crc_ref (NOT c) (as @ bs)) = shifts (8 * length bs) (NOT (crc_ref (NOT c) as)) XOR NOT (crc_ref (NOT 0) bs)"
proof -
  let ?r = "crc_ref (NOT c) as" and ?n = "8 * length bs"
  have not: "NOT w = w XOR NOT 0" for w :: u32
    by (rule bit_word_eqI) (auto simp: bit_simps)
  have "NOT (crc_ref ?r bs) = shifts ?n ?r XOR crc_ref 0 bs XOR NOT 0"
    by (subst crc_ref_init) (simp only: not [of "_ XOR _"] xor.assoc)
  moreover have "NOT (crc_ref (NOT 0) bs) = shifts ?n (NOT 0) XOR crc_ref 0 bs XOR NOT 0"
    by (subst crc_ref_init) (simp only: not [of "_ XOR _"] xor.assoc)
  moreover have "shifts ?n (NOT ?r) = shifts ?n ?r XOR shifts ?n (NOT 0)"
    by (subst not) (rule shifts_xor)
  ultimately show ?thesis
    by (simp only: crc_ref_append xor.assoc) (simp only: xor.left_commute [of "shifts ?n (NOT 0)"] xor_self_eq xor.right_neutral
        xor.assoc [symmetric] xor.left_neutral)
qed

text \<open>
  C35. \<open>crc32_combine\<close> of the CRCs of two blocks, and the length of the second, is the CRC of their
  concatenation; and \<open>crc32_combine_op\<close> with the operator of \<open>crc32_combine_gen\<close> is the same. The loops
  of \<open>multmodp\<close> and \<open>x2nmodp\<close> end, for every length.
\<close>

theorem crc32_combine_blocks:
  "crc32_combine64 (crc32_reference c as) (crc32_reference 0 bs) (length bs) = Some (crc32_reference c (as @ bs)) \<and>
   Option.bind (crc32_combine_gen64 (length bs)) (crc32_combine_op (crc32_reference c as) (crc32_reference 0 bs)) =
     Some (crc32_reference c (as @ bs))"
  unfolding crc32_combine64_def crc32_combine_gen64_def crc32_combine_op_def x2nmodp_ref crc32_reference_ref crc_ref_combine
  by (simp add: multmodp_xpow mult.commute)

lemma gen_crc_entry_shifts: "gen_crc_entry i = shifts 8 i"
proof -
  have "(\<lambda>p. if p AND 1 \<noteq> 0 then drop_bit 1 p XOR POLY else drop_bit 1 p) = shiftc"
    unfolding shiftc_def ..
  then show ?thesis
    unfolding gen_crc_entry_def shifts_def by (simp only:)
qed

lemma crc_table_gen: "i < 256 \<Longrightarrow> crc_table ! i = gen_crc_entry (of_nat i) \<and> crc_big_table ! i = byte_swap (gen_crc_entry (of_nat i))"
  unfolding crc_table_entries crc_big_table_entries gen_crc_entry_shifts by (simp only: nth_map_upt simp_thms diff_zero add_0)

lemma gen_x2n_entries: "n < 32 \<Longrightarrow> gen_x2n n = Some (x2n_table ! n)"
proof (induction n)
  case (Suc n)
  have "shifts (2 ^ n) (xpow (2 ^ n)) = xpow (2 ^ Suc n)"
    by (simp add: xpow_def shifts_add [symmetric] mult_2)
  then show ?case
    using Suc by (simp add: x2n_entries multmodp_xpow del: power_Suc)
qed (simp add: x2n_table_def)

lemma braid_shifts:
  assumes "k < 4" and "i < 256"
  shows "braid 5 4 k (of_nat i) = Some (shifts (160 - 8 * k) (of_nat i))"
proof -
  define b :: u8 where "b = of_nat i"
  have i: "(of_nat i :: u32) = ucast b"
    using assms(2) by (simp add: b_def unat_of_nat ucast_eq unsigned_of_nat take_bit_nat_eq_self)
  have top: "shifts n (push_bit 24 (ucast b)) = shifts (n - 24) (ucast b)" if "24 \<le> n" for n
    using shifts_ubyte [of 3 n b] that by simp
  have "push_bit 24 (ucast b :: u32) \<noteq> 0" if "(ucast b :: u32) \<noteq> 0"
    using top [of 24] that by (metis diff_self_eq_0 order_refl shifts_eq_0)
  then have "multmodp (push_bit 24 (ucast b)) (xpow n) = Some (shifts n (push_bit 24 (ucast b)))"
    if "(ucast b :: u32) \<noteq> 0" for n
    unfolding pmul_xpow [symmetric] pmul_commute [of "xpow n"] using that by (intro multmodp_pmul) blast
  moreover have "shifts (8 * (5 * 4 + 3 - k)) (push_bit 24 (ucast b)) = shifts (160 - 8 * k) (ucast b)"
    using assms(1) top [of "8 * (5 * 4 + 3 - k)"] by (simp add: diff_mult_distrib2)
  ultimately have "(if (ucast b :: u32) = 0 then Some 0 else multmodp (push_bit 24 (ucast b)) (xpow (8 * (5 * 4 + 3 - k)))) =
      Some (shifts (160 - 8 * k) (ucast b))"
    by (metis shifts_zero)
  then show ?thesis
    unfolding i braid_def x2nmodp_ref by (simp only: bind.simps power_0 mult_1_right)
qed

lemma braid_entries:
  assumes "k < 4" and "i < 256"
  shows "crc_braid_table ! k ! i = shifts (160 - 8 * k) (of_nat i)"
    and "crc_braid_big_table ! (3 - k) ! i = byte_swap (shifts (160 - 8 * k) (of_nat i))"
proof -
  consider "k = 0" | "k = 1" | "k = 2" | "k = 3"
    using assms(1) by linarith
  note cases = this
  show "crc_braid_table ! k ! i = shifts (160 - 8 * k) (of_nat i)"
    using cases assms(2) by cases (simp_all add: crc_braid_table_def crc_braid_table_0_entries crc_braid_table_1_entries
        crc_braid_table_2_entries crc_braid_table_3_entries)
  show "crc_braid_big_table ! (3 - k) ! i = byte_swap (shifts (160 - 8 * k) (of_nat i))"
    using cases assms(2) by cases (simp_all add: crc_braid_big_table_def crc_braid_big_table_0_entries
        crc_braid_big_table_1_entries crc_braid_big_table_2_entries crc_braid_big_table_3_entries)
qed

text \<open>
  The tables of \<open>crc32.h\<close> are the ones that the generator in \<open>crc32.c\<close> writes: \<open>crc_table\<close> holds the
  remainders of the bytes, \<open>x2n_table\<close> the powers of \<open>x\<close> by repeated squaring, and the braid tables are
  those of five braids of four-byte words, in both byte orders.
\<close>

theorem tables_generated:
  "(\<forall>i < 256. crc_table ! i = gen_crc_entry (of_nat i) \<and> crc_big_table ! i = byte_swap (gen_crc_entry (of_nat i))) \<and>
   (\<forall>n < 32. gen_x2n n = Some (x2n_table ! n)) \<and>
   (\<forall>k < 4. \<forall>i < 256. braid 5 4 k (of_nat i) = Some (crc_braid_table ! k ! i) \<and>
      crc_braid_big_table ! (3 - k) ! i = byte_swap (crc_braid_table ! k ! i))"
  by (auto simp only: crc_table_gen gen_x2n_entries braid_shifts braid_entries)
lemma tables_generated_witness:
  "crc_table ! 255 = gen_crc_entry 255 \<and> gen_x2n 31 = Some (x2n_table ! 31) \<and> braid 5 4 3 7 = Some (crc_braid_table ! 3 ! 7)"
proof -
  note t = tables_generated
  have "crc_table ! 255 = gen_crc_entry (of_nat 255)"
    using conjunct1 [OF t, rule_format, of 255] by (simp only: less_numeral_extra rel_simps semiring_norm simp_thms)
  moreover have "gen_x2n 31 = Some (x2n_table ! 31)"
    by (rule conjunct1 [OF conjunct2 [OF t], rule_format]) simp
  moreover have "braid 5 4 3 (of_nat 7) = Some (crc_braid_table ! 3 ! 7)"
    by (rule conjunct1 [OF conjunct2 [OF conjunct2 [OF t], rule_format]]) simp_all
  ultimately show ?thesis
    by (simp only: of_nat_numeral simp_thms)
qed

end
