(* ===== verification/Locks.thy ===== *)
theory Locks
  imports MX_Prelude
begin

unbundle bit_operations_syntax

text \<open>
  The locks of \<open>Source/WaitableObjects.cpp\<close> that the library builds itself from interlocked
  operations on one 32-bit word: the fast lock, its variant with one lock for each bit, the slim
  reader/writer lock (the path that does not use the lock of the system) and the rundown protection.
  Every interlocked operation is one step of one thread, so all interleavings of the retry loops are
  there. What a thread remembers between two of them is its program counter, with the value that it
  read last. A failed attempt of a spinning loop leaves the thread where it was; the pauses between
  attempts (\<open>YieldProcessor\<close>, \<open>SwitchToThread\<close>) change nothing.
\<close>

section \<open>Interlocked operations\<close>

text \<open>The old value and the new contents of the word.\<close>

definition InterlockedCompareExchange :: "u32 \<Rightarrow> u32 \<Rightarrow> u32 \<Rightarrow> u32 \<times> u32" where
  "InterlockedCompareExchange v exch comparand = (v, if v = comparand then exch else v)"

definition InterlockedOr :: "u32 \<Rightarrow> u32 \<Rightarrow> u32 \<times> u32" where
  "InterlockedOr v bits = (v, v OR bits)"

definition InterlockedAnd :: "u32 \<Rightarrow> u32 \<Rightarrow> u32 \<times> u32" where
  "InterlockedAnd v bits = (v, v AND bits)"

section \<open>The fast lock\<close>

datatype flpc = Outside | Spinning | Inside

definition FastLock_TryEnter :: "u32 \<Rightarrow> u32 \<Rightarrow> bool \<times> u32" where
  "FastLock_TryEnter lock nTid = (let (old, new) = InterlockedCompareExchange lock nTid 0 in (old = 0, new))"

text \<open>One turn of the loop of \<open>FastLock_Enter\<close>.\<close>

definition FastLock_Enter :: "u32 \<Rightarrow> u32 \<Rightarrow> flpc \<times> u32" where
  "FastLock_Enter lock nTid =
     (let (old, new) = InterlockedCompareExchange lock nTid 0 in (if old = 0 then Inside else Spinning, new))"

definition FastLock_Exit :: "u32 \<Rightarrow> u32" where
  "FastLock_Exit lock = 0"

definition FastLock_IsActive :: "u32 \<Rightarrow> u32" where
  "FastLock_IsActive lock = lock"

record flsys =
  fl_word :: u32
  fl_pc :: "nat \<Rightarrow> flpc"

definition fl_init :: flsys where
  "fl_init = \<lparr>fl_word = 0, fl_pc = (\<lambda>_. Outside)\<rparr>"

inductive fl_step :: "(nat \<Rightarrow> u32) \<Rightarrow> flsys \<Rightarrow> flsys \<Rightarrow> bool" for tid where
  call_enter: "fl_pc s i = Outside \<Longrightarrow> fl_step tid s (s\<lparr>fl_pc := (fl_pc s)(i := Spinning)\<rparr>)"
| turn: "fl_pc s i = Spinning \<Longrightarrow> FastLock_Enter (fl_word s) (tid i) = (pc, w) \<Longrightarrow>
     fl_step tid s (s\<lparr>fl_word := w, fl_pc := (fl_pc s)(i := pc)\<rparr>)"
| try_enter: "fl_pc s i = Outside \<Longrightarrow> FastLock_TryEnter (fl_word s) (tid i) = (ok, w) \<Longrightarrow>
     fl_step tid s (s\<lparr>fl_word := w, fl_pc := (fl_pc s)(i := if ok then Inside else Outside)\<rparr>)"
| exit: "fl_pc s i = Inside \<Longrightarrow>
     fl_step tid s (s\<lparr>fl_word := FastLock_Exit (fl_word s), fl_pc := (fl_pc s)(i := Outside)\<rparr>)"

inductive fl_reach :: "(nat \<Rightarrow> u32) \<Rightarrow> flsys \<Rightarrow> bool" for tid where
  start: "fl_reach tid fl_init"
| step: "fl_reach tid s \<Longrightarrow> fl_step tid s t \<Longrightarrow> fl_reach tid t"

section \<open>One lock for each bit\<close>

definition FastLock_Bitmask_TryEnter :: "u32 \<Rightarrow> nat \<Rightarrow> bool \<times> u32" where
  "FastLock_Bitmask_TryEnter lock nBitIndex =
     (let nMask = push_bit nBitIndex 1; (old, new) = InterlockedOr lock nMask in (old AND nMask = 0, new))"

definition FastLock_Bitmask_Exit :: "u32 \<Rightarrow> nat \<Rightarrow> u32" where
  "FastLock_Bitmask_Exit lock nBitIndex =
     (let nMask = push_bit nBitIndex 1 in snd (InterlockedAnd lock (NOT nMask)))"

definition FastLock_Bitmask_IsActive :: "u32 \<Rightarrow> nat \<Rightarrow> bool" where
  "FastLock_Bitmask_IsActive lock nBitIndex = (lock AND push_bit nBitIndex 1 \<noteq> 0)"

text \<open>The threads inside each lock. An attempt that fails, of either entry, leaves the thread outside.\<close>

record bmsys =
  bm_word :: u32
  bm_inside :: "nat \<Rightarrow> nat set"

definition bm_init :: bmsys where
  "bm_init = \<lparr>bm_word = 0, bm_inside = (\<lambda>_. {})\<rparr>"

inductive bm_step :: "bmsys \<Rightarrow> bmsys \<Rightarrow> bool" where
  enter: "b < 32 \<Longrightarrow> FastLock_Bitmask_TryEnter (bm_word s) b = (ok, w) \<Longrightarrow>
     bm_step s (s\<lparr>bm_word := w, bm_inside := (bm_inside s)(b := if ok then insert i (bm_inside s b) else bm_inside s b)\<rparr>)"
| exit: "b < 32 \<Longrightarrow> i \<in> bm_inside s b \<Longrightarrow>
     bm_step s (s\<lparr>bm_word := FastLock_Bitmask_Exit (bm_word s) b, bm_inside := (bm_inside s)(b := bm_inside s b - {i})\<rparr>)"

inductive bm_reach :: "bmsys \<Rightarrow> bool" where
  start: "bm_reach bm_init"
| step: "bm_reach s \<Longrightarrow> bm_step s t \<Longrightarrow> bm_reach t"

section \<open>The reader/writer lock\<close>

text \<open>The bit of a writer, and the bits that count the readers.\<close>

definition WRITER :: u32 where
  "WRITER = 0x80000000"

definition READERS :: u32 where
  "READERS = 0x7FFFFFFF"

text \<open>A thread inside a retry loop holds the value that its next exchange expects.\<close>

datatype rwpc =
    Idle
  | TryingShared u32
  | Shared
  | ReleasingShared u32
  | TryingExclusive u32
  | WaitingForReaders
  | Exclusive

definition SlimRWL_TryAcquireShared :: "u32 \<Rightarrow> u32 \<Rightarrow> rwpc \<times> u32" where
  "SlimRWL_TryAcquireShared v initVal =
     (if initVal AND WRITER \<noteq> 0 then (Idle, v)
      else
        let (newVal, v) = InterlockedCompareExchange v (initVal + 1) initVal in
        (if newVal \<noteq> initVal then TryingShared newVal else Shared, v))"

definition SlimRWL_ReleaseShared :: "u32 \<Rightarrow> u32 \<Rightarrow> rwpc \<times> u32" where
  "SlimRWL_ReleaseShared v initVal =
     (let newVal = (initVal AND WRITER) OR ((initVal AND READERS) - 1);
          (newVal, v) = InterlockedCompareExchange v newVal initVal in
      (if newVal \<noteq> initVal then ReleasingShared newVal else Idle, v))"

definition SlimRWL_TryAcquireExclusive :: "u32 \<Rightarrow> u32 \<Rightarrow> rwpc \<times> u32" where
  "SlimRWL_TryAcquireExclusive v initVal =
     (if initVal AND WRITER \<noteq> 0 then (Idle, v)
      else
        let (newVal, v) = InterlockedCompareExchange v (initVal OR WRITER) initVal in
        (if newVal \<noteq> initVal then TryingExclusive newVal else WaitingForReaders, v))"

definition SlimRWL_wait_readers :: "u32 \<Rightarrow> rwpc" where
  "SlimRWL_wait_readers v = (if v AND READERS \<noteq> 0 then WaitingForReaders else Exclusive)"

definition SlimRWL_ReleaseExclusive :: "u32 \<Rightarrow> u32" where
  "SlimRWL_ReleaseExclusive v = 0"

text \<open>
  The step of a thread in the middle of an operation. \<open>SlimRWL_AcquireShared\<close> and
  \<open>SlimRWL_AcquireExclusive\<close> call the functions above until they succeed, so a thread that is sent
  back may start again. \<open>UpgradeToExclusive\<close> and \<open>DowngradeToShared\<close> are a release and an acquisition.
\<close>

fun rw_next :: "u32 \<Rightarrow> rwpc \<Rightarrow> (rwpc \<times> u32) option" where
  "rw_next v (TryingShared initVal) = Some (SlimRWL_TryAcquireShared v initVal)"
| "rw_next v (ReleasingShared initVal) = Some (SlimRWL_ReleaseShared v initVal)"
| "rw_next v (TryingExclusive initVal) = Some (SlimRWL_TryAcquireExclusive v initVal)"
| "rw_next v WaitingForReaders = Some (SlimRWL_wait_readers v, v)"
| "rw_next v _ = None"

record rwsys =
  rw_word :: u32
  rw_pc :: "nat \<Rightarrow> rwpc"

definition rw_init :: rwsys where
  "rw_init = \<lparr>rw_word = 0, rw_pc = (\<lambda>_. Idle)\<rparr>"

inductive rw_step :: "nat \<Rightarrow> rwsys \<Rightarrow> rwsys \<Rightarrow> bool" for N where
  call_shared: "i < N \<Longrightarrow> rw_pc s i = Idle \<Longrightarrow>
     rw_step N s (s\<lparr>rw_pc := (rw_pc s)(i := TryingShared (rw_word s))\<rparr>)"
| call_exclusive: "i < N \<Longrightarrow> rw_pc s i = Idle \<Longrightarrow>
     rw_step N s (s\<lparr>rw_pc := (rw_pc s)(i := TryingExclusive (rw_word s))\<rparr>)"
| call_release_shared: "i < N \<Longrightarrow> rw_pc s i = Shared \<Longrightarrow>
     rw_step N s (s\<lparr>rw_pc := (rw_pc s)(i := ReleasingShared (rw_word s))\<rparr>)"
| release_exclusive: "i < N \<Longrightarrow> rw_pc s i = Exclusive \<Longrightarrow>
     rw_step N s (s\<lparr>rw_word := SlimRWL_ReleaseExclusive (rw_word s), rw_pc := (rw_pc s)(i := Idle)\<rparr>)"
| go_on: "i < N \<Longrightarrow> rw_next (rw_word s) (rw_pc s i) = Some (pc, w) \<Longrightarrow>
     rw_step N s (s\<lparr>rw_word := w, rw_pc := (rw_pc s)(i := pc)\<rparr>)"

inductive rw_reach :: "nat \<Rightarrow> rwsys \<Rightarrow> bool" for N where
  start: "rw_reach N rw_init"
| step: "rw_reach N s \<Longrightarrow> rw_step N s t \<Longrightarrow> rw_reach N t"

section \<open>The rundown protection\<close>

datatype rdpc =
    Free
  | Acquiring u32
  | Protected
  | Releasing u32
  | WaitingForRelease
  | RunDown

definition RundownProt_Acquire :: "u32 \<Rightarrow> u32 \<Rightarrow> rdpc \<times> u32" where
  "RundownProt_Acquire v initVal =
     (if initVal AND WRITER \<noteq> 0 then (Free, v)
      else
        let (newVal, v) = InterlockedCompareExchange v (initVal + 1) initVal in
        (if newVal \<noteq> initVal then Acquiring newVal else Protected, v))"

definition RundownProt_Release :: "u32 \<Rightarrow> u32 \<Rightarrow> rdpc \<times> u32" where
  "RundownProt_Release v initVal =
     (let newVal = (initVal AND WRITER) OR ((initVal AND READERS) - 1);
          (newVal, v) = InterlockedCompareExchange v newVal initVal in
      (if newVal \<noteq> initVal then Releasing newVal else Free, v))"

definition RundownProt_close :: "u32 \<Rightarrow> u32" where
  "RundownProt_close v = snd (InterlockedOr v WRITER)"

definition RundownProt_wait :: "u32 \<Rightarrow> rdpc" where
  "RundownProt_wait v = (if v \<noteq> WRITER then WaitingForRelease else RunDown)"

fun rd_next :: "u32 \<Rightarrow> rdpc \<Rightarrow> (rdpc \<times> u32) option" where
  "rd_next v (Acquiring initVal) = Some (RundownProt_Acquire v initVal)"
| "rd_next v (Releasing initVal) = Some (RundownProt_Release v initVal)"
| "rd_next v WaitingForRelease = Some (RundownProt_wait v, v)"
| "rd_next v _ = None"

record rdsys =
  rd_word :: u32
  rd_pc :: "nat \<Rightarrow> rdpc"

definition rd_init :: rdsys where
  "rd_init = \<lparr>rd_word = 0, rd_pc = (\<lambda>_. Free)\<rparr>"

inductive rd_step :: "nat \<Rightarrow> rdsys \<Rightarrow> rdsys \<Rightarrow> bool" for N where
  call_acquire: "i < N \<Longrightarrow> rd_pc s i = Free \<Longrightarrow>
     rd_step N s (s\<lparr>rd_pc := (rd_pc s)(i := Acquiring (rd_word s))\<rparr>)"
| call_release: "i < N \<Longrightarrow> rd_pc s i = Protected \<Longrightarrow>
     rd_step N s (s\<lparr>rd_pc := (rd_pc s)(i := Releasing (rd_word s))\<rparr>)"
| call_wait: "i < N \<Longrightarrow> rd_pc s i = Free \<Longrightarrow>
     rd_step N s (s\<lparr>rd_word := RundownProt_close (rd_word s), rd_pc := (rd_pc s)(i := WaitingForRelease)\<rparr>)"
| go_on: "i < N \<Longrightarrow> rd_next (rd_word s) (rd_pc s i) = Some (pc, w) \<Longrightarrow>
     rd_step N s (s\<lparr>rd_word := w, rd_pc := (rd_pc s)(i := pc)\<rparr>)"

inductive rd_reach :: "nat \<Rightarrow> rdsys \<Rightarrow> bool" for N where
  start: "rd_reach N rd_init"
| step: "rd_reach N s \<Longrightarrow> rd_step N s t \<Longrightarrow> rd_reach N t"

end
