(* ===== verification/Locks_Props.thy ===== *)
theory Locks_Props
  imports Locks
begin

unbundle bit_operations_syntax

text \<open>
  The locks keep their promises under every interleaving of their interlocked operations: mutual
  exclusion of the fast lock and of the bit locks, exclusion of readers and writers with no reader
  that gets past a waiting writer, and no access behind a finished rundown.
\<close>

section \<open>The word of a counting lock\<close>

text \<open>The top bit closes the lock, the other bits count the threads that are inside.\<close>

definition gate_word :: "bool \<Rightarrow> nat \<Rightarrow> u32" where
  "gate_word closed n = (if closed then WRITER else 0) OR of_nat n"

lemma bit_WRITER: "bit WRITER i \<longleftrightarrow> i = 31"
proof -
  have "WRITER = push_bit 31 1"
    by (simp add: WRITER_def)
  then show ?thesis
    unfolding \<open>WRITER = push_bit 31 1\<close> by (auto simp: bit_push_bit_iff bit_1_iff simp del: push_bit_of_1)
qed

lemma bit_READERS: "bit READERS i \<longleftrightarrow> i < 31"
proof -
  have "READERS = mask 31"
    by (simp add: mask_eq_exp_minus_1 READERS_def)
  then show ?thesis
    unfolding \<open>READERS = mask 31\<close> by (auto simp: bit_mask_iff)
qed

lemma and_WRITER: "v AND WRITER = (if bit v 31 then WRITER else 0)"
  by (rule bit_word_eqI) (auto simp: bit_and_iff bit_WRITER)

lemma of_nat_bits: "n < 2 ^ 31 \<Longrightarrow> bit (of_nat n :: u32) i \<Longrightarrow> i < 31"
proof -
  assume "n < 2 ^ 31" and i: "bit (of_nat n :: u32) i"
  then have "take_bit 31 (of_nat n :: u32) = of_nat n"
    by (simp add: take_bit_of_nat take_bit_nat_eq_self)
  then show ?thesis
    using i by (metis bit_take_bit_iff)
qed

lemma bit_gate: "n < 2 ^ 31 \<Longrightarrow> bit (gate_word c n) i \<longleftrightarrow> (if i = 31 then c else bit (of_nat n :: u32) i)"
  using of_nat_bits [of n 31] unfolding gate_word_def by (auto simp: bit_or_iff bit_WRITER)

lemma gate_closed: "n < 2 ^ 31 \<Longrightarrow> gate_word c n AND WRITER \<noteq> 0 \<longleftrightarrow> c"
  using bit_WRITER [of 31] by (auto simp: and_WRITER bit_gate)

lemma gate_count: "n < 2 ^ 31 \<Longrightarrow> gate_word c n AND READERS = of_nat n"
  using of_nat_bits [of n] by (intro bit_word_eqI) (auto simp: bit_and_iff bit_READERS bit_gate)

lemma gate_close: "gate_word c n OR WRITER = gate_word True n"
  by (rule bit_word_eqI) (auto simp: gate_word_def bit_or_iff)

lemma gate_enter: "gate_word False n + 1 = gate_word False (Suc n)"
  by (simp add: gate_word_def add.commute)

lemma gate_leave: "Suc n < 2 ^ 31 \<Longrightarrow>
    (gate_word c (Suc n) AND WRITER) OR ((gate_word c (Suc n) AND READERS) - 1) = gate_word c n"
  unfolding and_WRITER by (simp only: gate_count bit_gate if_True) (simp add: gate_word_def)

lemma of_nat_0: "n < 2 ^ 31 \<Longrightarrow> (of_nat n :: u32) = 0 \<longleftrightarrow> n = 0"
  by (auto simp: word_of_nat_eq_0_iff dest!: dvd_imp_le)

lemma WRITER_and_READERS: "WRITER AND READERS = 0"
  by (simp add: WRITER_def READERS_def)

lemma gate_open: "gate_word False 0 = 0"
  by (simp add: gate_word_def)

lemma gate_only_closed: "n < 2 ^ 31 \<Longrightarrow> gate_word c n = WRITER \<longleftrightarrow> c \<and> n = 0"
  using gate_count [of n c] of_nat_0 [of n] bit_gate [of n c 31] bit_WRITER [of 31]
  by (auto simp: WRITER_and_READERS) (auto simp: gate_word_def)

section \<open>Counting threads\<close>

definition count_pc :: "('p \<Rightarrow> bool) \<Rightarrow> (nat \<Rightarrow> 'p) \<Rightarrow> nat" where
  "count_pc P f = card {i. P (f i)}"

lemma count_upd:
  assumes "finite {i. P (f i)}"
  shows "count_pc P (f(i := x)) = (count_pc P f - (if P (f i) then 1 else 0)) + (if P x then 1 else 0)"
proof -
  let ?A = "{j. P (f j)}"
  have "{j. P ((f(i := x)) j)} = (if P x then insert i (?A - {i}) else ?A - {i})"
    by auto
  moreover have "card (?A - {i}) = card ?A - (if P (f i) then 1 else 0)"
    using assms by (simp add: card_Diff_singleton_if)
  ultimately show ?thesis
    using assms card_gt_0_iff [of ?A] by (auto simp: count_pc_def card_insert_if)
qed

lemma count_pos: "finite {i. P (f i)} \<Longrightarrow> P (f i) \<Longrightarrow> 0 < count_pc P f"
  by (auto simp: count_pc_def card_gt_0_iff)

lemma count_none: "finite {i. P (f i)} \<Longrightarrow> count_pc P f = 0 \<longleftrightarrow> (\<forall>i. \<not> P (f i))"
  by (auto simp: count_pc_def)

lemma count_bound:
  assumes "\<forall>i \<ge> N. \<not> P (f i)"
  shows "finite {i. P (f i)}" and "count_pc P f \<le> N" and "i < N \<Longrightarrow> \<not> P (f i) \<Longrightarrow> count_pc P f < N"
proof -
  have sub: "{i. P (f i)} \<subseteq> {..<N}"
    using assms by (auto simp: not_less [symmetric])
  then show "finite {i. P (f i)}"
    by (rule finite_subset) simp
  show "count_pc P f \<le> N"
    using card_mono [OF _ sub] by (simp add: count_pc_def)
  assume "i < N" "\<not> P (f i)"
  then have "{i. P (f i)} \<subset> {..<N}"
    using sub by auto
  then show "count_pc P f < N"
    using psubset_card_mono [of "{..<N}"] by (simp add: count_pc_def)
qed


section \<open>The fast lock\<close>

lemmas fl_defs = FastLock_Enter_def FastLock_TryEnter_def FastLock_Exit_def InterlockedCompareExchange_def

definition fl_inv :: "(nat \<Rightarrow> u32) \<Rightarrow> flsys \<Rightarrow> bool" where
  "fl_inv tid s \<longleftrightarrow>
     (if fl_word s = 0 then \<forall>i. fl_pc s i \<noteq> Inside else \<exists>i. fl_word s = tid i \<and> (\<forall>j. fl_pc s j = Inside \<longleftrightarrow> j = i))"

lemma fl_step_inv: "fl_step tid s t \<Longrightarrow> \<forall>i. tid i \<noteq> 0 \<Longrightarrow> fl_inv tid s \<Longrightarrow> fl_inv tid t"
  by (induction rule: fl_step.induct) (auto simp: fl_inv_def fl_defs Let_def split: if_splits, (metis flpc.distinct)+)

lemma fl_reach_inv: "fl_reach tid s \<Longrightarrow> \<forall>i. tid i \<noteq> 0 \<Longrightarrow> fl_inv tid s"
proof (induction rule: fl_reach.induct)
  case start
  show ?case
    by (simp add: fl_inv_def fl_init_def)
qed (rule fl_step_inv)

section \<open>The bit locks\<close>

definition bm_inv :: "bmsys \<Rightarrow> bool" where
  "bm_inv s \<longleftrightarrow> (\<forall>b < 32. if bit (bm_word s) b then \<exists>i. bm_inside s b = {i} else bm_inside s b = {})"

lemma and_one_bit: "(w :: u32) AND push_bit b 1 \<noteq> 0 \<longleftrightarrow> bit w b"
  by (simp add: bit_iff_and_push_bit_not_eq_0)

lemma bm_step_inv: "bm_step s t \<Longrightarrow> bm_inv s \<Longrightarrow> bm_inv t"
proof (induction rule: bm_step.induct)
  case (enter b s ok w i)
  then have "ok \<longleftrightarrow> \<not> bit (bm_word s) b" "\<forall>c < 32. bit w c \<longleftrightarrow> bit (bm_word s) c \<or> c = b"
    using and_one_bit [of "bm_word s" b]
    by (auto simp: FastLock_Bitmask_TryEnter_def InterlockedOr_def Let_def bit_simps simp del: push_bit_of_1)
  then show ?case
    using enter by (auto simp: bm_inv_def)
next
  case (exit b i s)
  then have "\<forall>c < 32. bit (FastLock_Bitmask_Exit (bm_word s) b) c \<longleftrightarrow> bit (bm_word s) c \<and> c \<noteq> b"
    by (auto simp: FastLock_Bitmask_Exit_def InterlockedAnd_def Let_def bit_simps simp del: push_bit_of_1)
  then show ?case
    using exit by (auto simp: bm_inv_def split: if_splits)
qed

lemma bm_reach_inv: "bm_reach s \<Longrightarrow> bm_inv s"
proof (induction rule: bm_reach.induct)
  case start
  show ?case
    by (simp add: bm_inv_def bm_init_def)
qed (rule bm_step_inv)

section \<open>The reader/writer lock\<close>

fun reading :: "rwpc \<Rightarrow> bool" where
  "reading Shared = True"
| "reading (ReleasingShared v) = True"
| "reading _ = False"

fun writing :: "rwpc \<Rightarrow> bool" where
  "writing WaitingForReaders = True"
| "writing Exclusive = True"
| "writing _ = False"

definition readers :: "rwsys \<Rightarrow> nat" where
  "readers s = count_pc reading (rw_pc s)"

definition writers :: "rwsys \<Rightarrow> nat" where
  "writers s = count_pc writing (rw_pc s)"

definition rw_inv :: "nat \<Rightarrow> rwsys \<Rightarrow> bool" where
  "rw_inv N s \<longleftrightarrow> (\<forall>i \<ge> N. rw_pc s i = Idle) \<and> rw_word s = gate_word (writers s \<noteq> 0) (readers s) \<and> writers s \<le> 1 \<and>
     (\<forall>i. rw_pc s i = Exclusive \<longrightarrow> readers s = 0)"

lemmas rw_defs = SlimRWL_TryAcquireShared_def SlimRWL_ReleaseShared_def SlimRWL_TryAcquireExclusive_def
  SlimRWL_wait_readers_def SlimRWL_ReleaseExclusive_def InterlockedCompareExchange_def

lemma rw_counts:
  assumes "rw_inv N s"
  shows "finite {j. reading (rw_pc s j)}" "finite {j. writing (rw_pc s j)}" "readers s \<le> N"
    "i < N \<Longrightarrow> \<not> reading (rw_pc s i) \<Longrightarrow> readers s < N"
    "reading (rw_pc s i) \<Longrightarrow> 0 < readers s" "writing (rw_pc s i) \<Longrightarrow> writers s = 1"
proof -
  have idle: "\<forall>i \<ge> N. \<not> reading (rw_pc s i)" "\<forall>i \<ge> N. \<not> writing (rw_pc s i)"
    using assms by (auto simp: rw_inv_def)
  note fin = count_bound(1) [where P = reading, OF idle(1)] count_bound(1) [where P = writing, OF idle(2)]
  then show "finite {j. reading (rw_pc s j)}" "finite {j. writing (rw_pc s j)}"
    by blast+
  show "readers s \<le> N" "i < N \<Longrightarrow> \<not> reading (rw_pc s i) \<Longrightarrow> readers s < N"
    using count_bound(2,3) [where P = reading, OF idle(1)] by (auto simp: readers_def)
  show "reading (rw_pc s i) \<Longrightarrow> 0 < readers s" "writing (rw_pc s i) \<Longrightarrow> writers s = 1"
    using count_pos [where P = reading, OF fin(1), of i] count_pos [where P = writing, OF fin(2), of i] assms
    by (auto simp: readers_def writers_def rw_inv_def)
qed

text \<open>One thread moves: what has to be seen of the new word and the new counts.\<close>

lemma rw_inv_move:
  assumes inv: "rw_inv N s" and "i < N"
    and "R = readers s - (if reading (rw_pc s i) then 1 else 0) + (if reading pc then 1 else 0)"
    and "W = writers s - (if writing (rw_pc s i) then 1 else 0) + (if writing pc then 1 else 0)"
    and "w = gate_word (W \<noteq> 0) R" and "W \<le> 1" and "pc = Exclusive \<Longrightarrow> R = 0"
    and "reading pc \<Longrightarrow> \<not> reading (rw_pc s i) \<Longrightarrow> writers s = 0"
  shows "rw_inv N (s\<lparr>rw_word := w, rw_pc := (rw_pc s)(i := pc)\<rparr>)"
proof -
  let ?t = "s\<lparr>rw_word := w, rw_pc := (rw_pc s)(i := pc)\<rparr>"
  note c = rw_counts [OF inv]
  have R: "readers ?t = R" and W: "writers ?t = W"
    using assms(3,4) count_upd [where P = reading, OF c(1), of i pc] count_upd [where P = writing, OF c(2), of i pc] by (simp_all add: readers_def writers_def)
  have "R = 0" if "j \<noteq> i" "rw_pc s j = Exclusive" for j
  proof -
    have "readers s = 0" "writers s \<noteq> 0"
      using that inv c(6) [of j] by (auto simp: rw_inv_def)
    then show ?thesis
      using assms(3,8) c(5) [of i] by (auto split: if_splits)
  qed
  then show ?thesis
    using assms R W by (auto simp: rw_inv_def)
qed

lemma rw_word_bits:
  assumes "rw_inv N s" and "N < 2 ^ 31"
  shows "rw_word s AND WRITER \<noteq> 0 \<longleftrightarrow> writers s \<noteq> 0" and "rw_word s AND READERS \<noteq> 0 \<longleftrightarrow> readers s \<noteq> 0"
  using assms rw_counts(3) [OF assms(1)] gate_closed [of "readers s"] gate_count [of "readers s"] of_nat_0 [of "readers s"]
  by (auto simp: rw_inv_def)

lemma rw_next_inv:
  assumes inv: "rw_inv N s" and "N < 2 ^ 31" and "i < N" and "rw_next (rw_word s) (rw_pc s i) = Some (pc, w)"
  shows "rw_inv N (s\<lparr>rw_word := w, rw_pc := (rw_pc s)(i := pc)\<rparr>)"
proof -
  note c = rw_counts [OF inv] and bits = rw_word_bits [OF assms(1,2)]
  have word: "rw_word s = gate_word (writers s \<noteq> 0) (readers s)" and le: "writers s \<le> 1"
    using inv by (simp_all add: rw_inv_def)
  show ?thesis
  proof (cases "rw_pc s i")
    case (TryingShared v)
    show ?thesis
    proof (rule rw_inv_move [OF inv assms(3) refl refl])
      show "w = gate_word (writers s - (if writing (rw_pc s i) then 1 else 0) + (if writing pc then 1 else 0) \<noteq> 0)
          (readers s - (if reading (rw_pc s i) then 1 else 0) + (if reading pc then 1 else 0))"
        using assms(4) TryingShared bits word gate_enter [of "readers s"]
        by (auto simp: rw_defs Let_def split: if_splits)
    qed (use assms(4) TryingShared bits le in \<open>auto simp: rw_defs Let_def split: if_splits\<close>)
  next
    case (ReleasingShared v)
    have suc: "Suc (readers s - 1) = readers s" "readers s < 2 ^ 31"
      using c(3) c(5) [of i] assms(2) ReleasingShared by auto
    then have leave: "(rw_word s AND WRITER) OR ((rw_word s AND READERS) - 1) = gate_word (writers s \<noteq> 0) (readers s - 1)"
      using gate_leave [of "readers s - 1"] word by simp
    show ?thesis
    proof (rule rw_inv_move [OF inv assms(3) refl refl])
      show "w = gate_word (writers s - (if writing (rw_pc s i) then 1 else 0) + (if writing pc then 1 else 0) \<noteq> 0)
          (readers s - (if reading (rw_pc s i) then 1 else 0) + (if reading pc then 1 else 0))"
        using assms(4) ReleasingShared word leave suc by (auto simp: rw_defs Let_def split: if_splits)
    qed (use assms(4) ReleasingShared le in \<open>auto simp: rw_defs Let_def split: if_splits\<close>)
  next
    case (TryingExclusive v)
    show ?thesis
    proof (rule rw_inv_move [OF inv assms(3) refl refl])
      show "w = gate_word (writers s - (if writing (rw_pc s i) then 1 else 0) + (if writing pc then 1 else 0) \<noteq> 0)
          (readers s - (if reading (rw_pc s i) then 1 else 0) + (if reading pc then 1 else 0))"
        using assms(4) TryingExclusive bits word gate_close [of False "readers s"]
        by (auto simp: rw_defs Let_def split: if_splits)
    qed (use assms(4) TryingExclusive bits le in \<open>auto simp: rw_defs Let_def split: if_splits\<close>)
  next
    case WaitingForReaders
    show ?thesis
    proof (rule rw_inv_move [OF inv assms(3) refl refl])
      show "w = gate_word (writers s - (if writing (rw_pc s i) then 1 else 0) + (if writing pc then 1 else 0) \<noteq> 0)
          (readers s - (if reading (rw_pc s i) then 1 else 0) + (if reading pc then 1 else 0))"
        using assms(4) WaitingForReaders bits word c(6) [of i] by (auto simp: rw_defs Let_def split: if_splits)
    qed (use assms(4) WaitingForReaders bits le c(6) [of i] in \<open>auto simp: rw_defs Let_def split: if_splits\<close>)
  qed (use assms(4) in simp_all)
qed

lemma rw_inv_call:
  assumes inv: "rw_inv N s" and "i < N" and "reading pc = reading (rw_pc s i)" and "writing pc = writing (rw_pc s i)" and "pc \<noteq> Exclusive"
  shows "rw_inv N (s\<lparr>rw_pc := (rw_pc s)(i := pc)\<rparr>)"
proof -
  have "rw_inv N (s\<lparr>rw_word := rw_word s, rw_pc := (rw_pc s)(i := pc)\<rparr>)"
    using assms rw_counts(5,6) [OF inv, of i] by (intro rw_inv_move [OF inv assms(2) refl refl]) (auto simp: rw_inv_def)
  then show ?thesis
    by simp
qed

lemma rw_step_inv:
  assumes "N < 2 ^ 31"
  shows "rw_step N s t \<Longrightarrow> rw_inv N s \<Longrightarrow> rw_inv N t"
proof (induction rule: rw_step.induct)
  case (call_shared i s)
  then show ?case
    by (intro rw_inv_call) simp_all
next
  case (call_exclusive i s)
  then show ?case
    by (intro rw_inv_call) simp_all
next
  case (call_release_shared i s)
  then show ?case
    by (intro rw_inv_call) simp_all
next
  case (release_exclusive i s)
  then have "readers s = 0" "writers s = 1"
    using rw_counts(6) [OF release_exclusive(3), of i] by (auto simp: rw_inv_def)
  then show ?case
    using release_exclusive
    by (intro rw_inv_move [OF _ _ refl refl]) (simp_all add: SlimRWL_ReleaseExclusive_def gate_open)
next
  case (go_on i s pc w)
  then show ?case
    by (intro rw_next_inv [OF _ assms])
qed

lemma rw_reach_inv: "rw_reach N s \<Longrightarrow> N < 2 ^ 31 \<Longrightarrow> rw_inv N s"
proof (induction rule: rw_reach.induct)
  case start
  show ?case
    by (simp add: rw_inv_def rw_init_def readers_def writers_def count_pc_def gate_open)
qed (rule rw_step_inv)


text \<open>While a writer waits no reader gets in.\<close>

lemma rw_wait_step:
  assumes N: "N < 2 ^ 31"
  shows "rw_step N s t \<Longrightarrow> rw_inv N s \<Longrightarrow> rw_pc s i = WaitingForReaders \<Longrightarrow>
    readers t \<le> readers s \<and> (rw_pc t i = WaitingForReaders \<or> rw_pc t i = Exclusive \<and> readers s = 0)"
proof (induction rule: rw_step.induct)
  case (go_on j s pc w)
  note fin = rw_counts(1) [OF go_on(3)] and bits = rw_word_bits [OF go_on(3) N] and one = rw_counts(6) [OF go_on(3), of i]
  have "readers (s\<lparr>rw_word := w, rw_pc := (rw_pc s)(j := pc)\<rparr>) =
      readers s - (if reading (rw_pc s j) then 1 else 0) + (if reading pc then 1 else 0)"
    using count_upd [where P = reading, OF fin, of j pc] by (simp add: readers_def)
  moreover have "reading pc \<Longrightarrow> reading (rw_pc s j)"
    using go_on bits one by (cases "rw_pc s j") (auto simp: rw_defs Let_def split: if_splits)
  moreover have "j = i \<Longrightarrow> pc = WaitingForReaders \<or> pc = Exclusive \<and> readers s = 0"
    using go_on bits by (auto simp: rw_defs split: if_splits)
  moreover have "reading (rw_pc s j) \<Longrightarrow> 0 < readers s"
    using rw_counts(5) [OF go_on(3)] .
  ultimately show ?case
    using go_on(4) by auto
next
  case (call_shared j s)
  then show ?case
    using count_upd [where P = reading, OF rw_counts(1) [OF call_shared(3)], of j "TryingShared (rw_word s)"]
    by (auto simp: readers_def)
next
  case (call_exclusive j s)
  then show ?case
    using count_upd [where P = reading, OF rw_counts(1) [OF call_exclusive(3)], of j "TryingExclusive (rw_word s)"]
    by (auto simp: readers_def)
next
  case (call_release_shared j s)
  then show ?case
    using count_upd [where P = reading, OF rw_counts(1) [OF call_release_shared(3)], of j "ReleasingShared (rw_word s)"]
      rw_counts(5) [OF call_release_shared(3), of j]
    by (auto simp: readers_def)
next
  case (release_exclusive j s)
  then show ?case
    using count_upd [where P = reading, OF rw_counts(1) [OF release_exclusive(3)], of j Idle]
    by (auto simp: readers_def)
qed

text \<open>A reader can leave, and the writer then gets in.\<close>

lemma rw_go_on: "i < N \<Longrightarrow> rw_next (rw_word s) (rw_pc s i) = Some (pc, w) \<Longrightarrow>
    (rw_step N)\<^sup>*\<^sup>* s (s\<lparr>rw_word := w, rw_pc := (rw_pc s)(i := pc)\<rparr>)"
  by (rule r_into_rtranclp) (rule rw_step.go_on)

lemma rw_releasing_leaves:
  assumes "j < N" and "rw_pc s j = ReleasingShared (rw_word s)"
  shows "\<exists>w. (rw_step N)\<^sup>*\<^sup>* s (s\<lparr>rw_word := w, rw_pc := (rw_pc s)(j := Idle)\<rparr>)"
  using rw_go_on [of j N s] assms by (auto simp: rw_defs Let_def)

lemma rw_reader_leaves:
  assumes "j < N" and "reading (rw_pc s j)"
  shows "\<exists>w. (rw_step N)\<^sup>*\<^sup>* s (s\<lparr>rw_word := w, rw_pc := (rw_pc s)(j := Idle)\<rparr>)"
proof -
  let ?s = "s\<lparr>rw_word := rw_word s, rw_pc := (rw_pc s)(j := ReleasingShared (rw_word s))\<rparr>"
  have last: "\<exists>w. (rw_step N)\<^sup>*\<^sup>* ?s (s\<lparr>rw_word := w, rw_pc := (rw_pc s)(j := Idle)\<rparr>)"
    using rw_releasing_leaves [of j N ?s] assms(1) by simp
  show ?thesis
  proof (cases "rw_pc s j")
    case Shared
    then have "rw_step N s ?s"
      using rw_step.call_release_shared [OF assms(1), of s] by simp
    then show ?thesis
      using last by (meson converse_rtranclp_into_rtranclp)
  next
    case (ReleasingShared v)
    show ?thesis
    proof (cases "v = rw_word s")
      case True
      then show ?thesis
        using rw_releasing_leaves assms(1) ReleasingShared by simp
    next
      case False
      then have "rw_next (rw_word s) (rw_pc s j) = Some (ReleasingShared (rw_word s), rw_word s)"
        using ReleasingShared by (auto simp: rw_defs Let_def)
      then have "(rw_step N)\<^sup>*\<^sup>* s ?s"
        by (rule rw_go_on [OF assms(1)])
      then show ?thesis
        using last by (meson rtranclp_trans)
    qed
  qed (use assms(2) in simp_all)
qed

lemma rw_steps_inv: "(rw_step N)\<^sup>*\<^sup>* s t \<Longrightarrow> N < 2 ^ 31 \<Longrightarrow> rw_inv N s \<Longrightarrow> rw_inv N t"
  by (induction rule: rtranclp_induct) (auto intro: rw_step_inv)

lemma rw_writer_enters:
  "rw_inv N s \<Longrightarrow> N < 2 ^ 31 \<Longrightarrow> rw_pc s i = WaitingForReaders \<Longrightarrow> i < N \<Longrightarrow>
   \<exists>t. (rw_step N)\<^sup>*\<^sup>* s t \<and> rw_pc t i = Exclusive"
proof (induction "readers s" arbitrary: s)
  case 0
  then have "rw_next (rw_word s) (rw_pc s i) = Some (Exclusive, rw_word s)"
    using rw_word_bits(2) [OF 0(2,3)] by (simp add: rw_defs)
  then show ?case
    using rw_go_on [OF 0(5)] by fastforce
next
  case (Suc n)
  then obtain j where j: "reading (rw_pc s j)"
    using count_none [where P = reading, OF rw_counts(1) [OF Suc(3)]] by (auto simp: readers_def)
  have "j < N" "i \<noteq> j"
    using j Suc.prems by (auto simp: rw_inv_def not_less [symmetric])
  then obtain w where run: "(rw_step N)\<^sup>*\<^sup>* s (s\<lparr>rw_word := w, rw_pc := (rw_pc s)(j := Idle)\<rparr>)"
    using rw_reader_leaves j by blast
  let ?t = "s\<lparr>rw_word := w, rw_pc := (rw_pc s)(j := Idle)\<rparr>"
  have "readers ?t = n"
    using count_upd [where P = reading, OF rw_counts(1) [OF Suc(3)], of j Idle] j Suc(2) by (simp add: readers_def)
  moreover have "rw_inv N ?t"
    using rw_steps_inv [OF run] Suc.prems by blast
  moreover have "rw_pc ?t i = WaitingForReaders"
    using Suc.prems \<open>i \<noteq> j\<close> by simp
  ultimately obtain t where "(rw_step N)\<^sup>*\<^sup>* ?t t" "rw_pc t i = Exclusive"
    using Suc(1) [of ?t] Suc.prems by blast
  then show ?case
    using run by (meson rtranclp_trans)
qed


section \<open>The rundown protection\<close>

fun holding :: "rdpc \<Rightarrow> bool" where
  "holding Protected = True"
| "holding (Releasing v) = True"
| "holding _ = False"

fun closing :: "rdpc \<Rightarrow> bool" where
  "closing WaitingForRelease = True"
| "closing RunDown = True"
| "closing _ = False"

definition holders :: "rdsys \<Rightarrow> nat" where
  "holders s = count_pc holding (rd_pc s)"

definition rd_inv :: "nat \<Rightarrow> rdsys \<Rightarrow> bool" where
  "rd_inv N s \<longleftrightarrow> (\<forall>i \<ge> N. rd_pc s i = Free) \<and> rd_word s = gate_word (\<exists>i. closing (rd_pc s i)) (holders s) \<and>
     (\<forall>i. rd_pc s i = RunDown \<longrightarrow> holders s = 0)"

lemmas rd_defs = RundownProt_Acquire_def RundownProt_Release_def RundownProt_close_def RundownProt_wait_def
  InterlockedCompareExchange_def InterlockedOr_def

lemma rd_counts:
  assumes "rd_inv N s"
  shows "finite {j. holding (rd_pc s j)}" "holders s \<le> N" "holding (rd_pc s i) \<Longrightarrow> 0 < holders s"
proof -
  have free: "\<forall>i \<ge> N. \<not> holding (rd_pc s i)"
    using assms by (auto simp: rd_inv_def)
  then show "finite {j. holding (rd_pc s j)}" "holders s \<le> N" "holding (rd_pc s i) \<Longrightarrow> 0 < holders s"
    using count_bound [where P = holding, OF free] count_pos [of holding "rd_pc s"] by (auto simp: holders_def)
qed

text \<open>A thread that does not close the protection by its move.\<close>

lemma rd_inv_move:
  assumes inv: "rd_inv N s" and "i < N" and "closing pc = closing (rd_pc s i)"
    and "H = holders s - (if holding (rd_pc s i) then 1 else 0) + (if holding pc then 1 else 0)"
    and "w = gate_word (\<exists>i. closing (rd_pc s i)) H" and "pc = RunDown \<Longrightarrow> H = 0"
    and "holding pc \<Longrightarrow> \<not> holding (rd_pc s i) \<Longrightarrow> \<forall>i. \<not> closing (rd_pc s i)"
  shows "rd_inv N (s\<lparr>rd_word := w, rd_pc := (rd_pc s)(i := pc)\<rparr>)"
proof -
  let ?t = "s\<lparr>rd_word := w, rd_pc := (rd_pc s)(i := pc)\<rparr>"
  have H: "holders ?t = H"
    using assms(4) count_upd [where P = holding, OF rd_counts(1) [OF inv], of i pc] by (simp add: holders_def)
  have closed: "(\<exists>j. closing (rd_pc ?t j)) \<longleftrightarrow> (\<exists>j. closing (rd_pc s j))"
    using assms(3) by auto
  have "H = 0" if "j \<noteq> i" "rd_pc s j = RunDown" for j
  proof -
    have "holders s = 0" "closing (rd_pc s j)"
      using that inv by (auto simp: rd_inv_def)
    then show ?thesis
      using assms(4,7) rd_counts(3) [OF inv, of i] by (auto split: if_splits)
  qed
  then show ?thesis
    using assms H closed by (auto simp: rd_inv_def)
qed

lemma rd_word_bits:
  assumes "rd_inv N s" and "N < 2 ^ 31"
  shows "rd_word s AND WRITER \<noteq> 0 \<longleftrightarrow> (\<exists>i. closing (rd_pc s i))"
    and "rd_word s = WRITER \<longleftrightarrow> (\<exists>i. closing (rd_pc s i)) \<and> holders s = 0"
  using assms rd_counts(2) [OF assms(1)] gate_closed [of "holders s"] gate_only_closed [of "holders s"]
  by (auto simp: rd_inv_def)

lemma rd_next_inv:
  assumes inv: "rd_inv N s" and "N < 2 ^ 31" and "i < N" and "rd_next (rd_word s) (rd_pc s i) = Some (pc, w)"
  shows "rd_inv N (s\<lparr>rd_word := w, rd_pc := (rd_pc s)(i := pc)\<rparr>)"
proof -
  note c = rd_counts [OF inv] and bits = rd_word_bits [OF assms(1,2)]
  have word: "rd_word s = gate_word (\<exists>i. closing (rd_pc s i)) (holders s)"
    using inv by (simp add: rd_inv_def)
  show ?thesis
  proof (cases "rd_pc s i")
    case (Acquiring v)
    show ?thesis
    proof (rule rd_inv_move [OF inv assms(3) _ refl])
      show "w = gate_word (\<exists>i. closing (rd_pc s i)) (holders s - (if holding (rd_pc s i) then 1 else 0) + (if holding pc then 1 else 0))"
        using assms(4) Acquiring bits word gate_enter [of "holders s"] by (auto simp: rd_defs Let_def split: if_splits)
    qed (use assms(4) Acquiring bits in \<open>auto simp: rd_defs Let_def split: if_splits\<close>)
  next
    case (Releasing v)
    have suc: "Suc (holders s - 1) = holders s" "holders s < 2 ^ 31"
      using c(2) c(3) [of i] assms(2) Releasing by auto
    then have leave: "(rd_word s AND WRITER) OR ((rd_word s AND READERS) - 1) = gate_word (\<exists>i. closing (rd_pc s i)) (holders s - 1)"
      using gate_leave [of "holders s - 1"] word by simp
    show ?thesis
    proof (rule rd_inv_move [OF inv assms(3) _ refl])
      show "w = gate_word (\<exists>i. closing (rd_pc s i)) (holders s - (if holding (rd_pc s i) then 1 else 0) + (if holding pc then 1 else 0))"
        using assms(4) Releasing word leave suc by (auto simp: rd_defs Let_def split: if_splits)
    qed (use assms(4) Releasing in \<open>auto simp: rd_defs Let_def split: if_splits\<close>)
  next
    case WaitingForRelease
    show ?thesis
    proof (rule rd_inv_move [OF inv assms(3) _ refl])
      show "w = gate_word (\<exists>i. closing (rd_pc s i)) (holders s - (if holding (rd_pc s i) then 1 else 0) + (if holding pc then 1 else 0))"
        using assms(4) WaitingForRelease word by (auto simp: rd_defs split: if_splits)
    qed (use assms(4) WaitingForRelease bits in \<open>auto simp: rd_defs split: if_splits\<close>)
  qed (use assms(4) in simp_all)
qed

lemma rd_inv_call:
  assumes inv: "rd_inv N s" and "i < N" and "holding pc = holding (rd_pc s i)" and "closing pc = closing (rd_pc s i)" and "pc \<noteq> RunDown"
  shows "rd_inv N (s\<lparr>rd_pc := (rd_pc s)(i := pc)\<rparr>)"
proof -
  have "rd_inv N (s\<lparr>rd_word := rd_word s, rd_pc := (rd_pc s)(i := pc)\<rparr>)"
    using assms rd_counts(3) [OF inv, of i] by (intro rd_inv_move [OF inv assms(2,4) refl]) (auto simp: rd_inv_def)
  then show ?thesis
    by simp
qed

lemma rd_step_inv:
  assumes "N < 2 ^ 31"
  shows "rd_step N s t \<Longrightarrow> rd_inv N s \<Longrightarrow> rd_inv N t"
proof (induction rule: rd_step.induct)
  case (call_acquire i s)
  then show ?case
    by (intro rd_inv_call) simp_all
next
  case (call_release i s)
  then show ?case
    by (intro rd_inv_call) simp_all
next
  case (call_wait i s)
  let ?t = "s\<lparr>rd_word := RundownProt_close (rd_word s), rd_pc := (rd_pc s)(i := WaitingForRelease)\<rparr>"
  have "holders ?t = holders s"
    using call_wait(2) count_upd [where P = holding, OF rd_counts(1) [OF call_wait(3)], of i WaitingForRelease] by (simp add: holders_def)
  moreover have "closing (rd_pc ?t i)"
    by simp
  then have "(\<exists>j. closing (rd_pc ?t j)) = True"
    by blast
  ultimately show ?case
    using call_wait gate_close by (auto simp: rd_inv_def rd_defs)
next
  case (go_on i s pc w)
  then show ?case
    by (intro rd_next_inv [OF _ assms])
qed

lemma rd_reach_inv: "rd_reach N s \<Longrightarrow> N < 2 ^ 31 \<Longrightarrow> rd_inv N s"
proof (induction rule: rd_reach.induct)
  case start
  show ?case
    by (simp add: rd_inv_def rd_init_def holders_def count_pc_def gate_open)
qed (rule rd_step_inv)

lemma rd_rundown_stays: "(rd_step N)\<^sup>*\<^sup>* s t \<Longrightarrow> rd_pc s i = RunDown \<Longrightarrow> rd_pc t i = RunDown"
proof (induction rule: rtranclp_induct)
  case (step t u)
  from step.hyps(2) step.IH [OF step.prems] show ?case
    by (induction rule: rd_step.induct) (auto split: if_splits)
qed

section \<open>Properties\<close>

text \<open>
  C10. The fast lock excludes: with thread ids that are not 0, at most one thread is between
  \<open>FastLock_Enter\<close> (or a successful \<open>FastLock_TryEnter\<close>) and \<open>FastLock_Exit\<close>, and \<open>FastLock_IsActive\<close> is
  the id of this thread, or 0 when there is none. The 32 bit locks of one word exclude independently
  of each other.
\<close>

theorem fast_locks_exclude:
  assumes "fl_reach tid s" and "\<forall>i. tid i \<noteq> 0" and "bm_reach u" and "b < 32"
  shows "(fl_pc s i = Inside \<longrightarrow> fl_pc s j = Inside \<longrightarrow> i = j) \<and>
    (fl_pc s i = Inside \<longrightarrow> FastLock_IsActive (fl_word s) = tid i) \<and>
    (FastLock_IsActive (fl_word s) = 0 \<longleftrightarrow> (\<forall>i. fl_pc s i \<noteq> Inside)) \<and>
    (i \<in> bm_inside u b \<longrightarrow> j \<in> bm_inside u b \<longrightarrow> i = j) \<and>
    (FastLock_Bitmask_IsActive (bm_word u) b \<longleftrightarrow> bm_inside u b \<noteq> {})"
  using fl_reach_inv [OF assms(1,2)] bm_reach_inv [OF assms(3)] assms(4)
  by (auto simp: fl_inv_def bm_inv_def FastLock_IsActive_def FastLock_Bitmask_IsActive_def and_one_bit
      simp del: push_bit_of_1 split: if_splits)

definition fl_sample :: flsys where
  "fl_sample = \<lparr>fl_word = 5, fl_pc = (\<lambda>_. Outside)(4 := Inside)\<rparr>"

lemma fl_sample_reach: "fl_reach (\<lambda>i. of_nat (i mod 8) + 1) fl_sample"
proof -
  have "fl_step (\<lambda>i. of_nat (i mod 8) + 1) fl_init fl_sample"
    using fl_step.try_enter [of fl_init 4 "\<lambda>i. of_nat (i mod 8) + 1" True 5]
    by (simp add: fl_defs fl_init_def fl_sample_def)
  then show ?thesis
    by (rule fl_reach.step [OF fl_reach.start])
qed

definition bm_sample :: bmsys where
  "bm_sample = \<lparr>bm_word = 8, bm_inside = (\<lambda>_. {})(3 := {1})\<rparr>"

lemma bm_sample_reach: "bm_reach bm_sample"
proof -
  have "bm_step bm_init bm_sample"
    using bm_step.enter [of 3 bm_init True 8 1]
    by (simp add: FastLock_Bitmask_TryEnter_def InterlockedOr_def bm_init_def bm_sample_def)
  then show ?thesis
    by (rule bm_reach.step [OF bm_reach.start])
qed

lemma small_tid: "(of_nat (i mod 8) :: u32) + 1 \<noteq> 0"
proof -
  have "i mod 8 < 8"
    by simp
  then have "i mod 8 \<in> {0, 1, 2, 3, 4, 5, 6, 7}"
    by auto
  then show ?thesis
    by auto
qed

lemma fast_locks_exclude_witness:
  "fl_pc fl_sample 4 = Inside \<and> FastLock_IsActive (fl_word fl_sample) = 5 \<and> FastLock_Bitmask_IsActive (bm_word bm_sample) 3"
  using fast_locks_exclude [OF fl_sample_reach _ bm_sample_reach, of 3 4] small_tid
  by (simp add: fl_sample_def bm_sample_def)

text \<open>
  C7. While a thread holds the reader/writer lock exclusively no other thread reads, releases a read,
  waits to write or writes, whatever the threads' reads of the word and their exchanges did before;
  the word then is the writer's bit alone, so the assertion of \<open>SlimRWL_ReleaseExclusive\<close> holds. A thread
  that releases a read finds a reader counted in the value that its exchange succeeds on.
\<close>

theorem reader_writer_exclusion:
  assumes "rw_reach N s" and "N < 2 ^ 31" and "rw_pc s i = Exclusive"
  shows "rw_word s = WRITER \<and> (\<forall>j. j \<noteq> i \<longrightarrow> rw_pc s j \<noteq> Shared \<and> rw_pc s j \<noteq> WaitingForReaders \<and>
      rw_pc s j \<noteq> Exclusive \<and> (\<forall>v. rw_pc s j \<noteq> ReleasingShared v))"
proof -
  note inv = rw_reach_inv [OF assms(1,2)]
  note c = rw_counts [OF inv]
  have none: "readers s = 0" and one: "writers s = 1"
    using inv assms(3) c(6) [of i] by (auto simp: rw_inv_def)
  then have word: "rw_word s = WRITER"
    using inv by (simp add: rw_inv_def gate_word_def)
  have "\<not> reading (rw_pc s j)" for j
    using c(5) [of j] none by auto
  moreover have "j = i" if "writing (rw_pc s j)" for j
  proof -
    have "{i, j} \<subseteq> {k. writing (rw_pc s k)}"
      using that assms(3) by simp
    then have "card {i, j} \<le> 1"
      using card_mono [OF c(2)] one by (metis count_pc_def writers_def)
    then show ?thesis
      by (cases "i = j") simp_all
  qed
  ultimately show ?thesis
    using word by (metis reading.simps(1,2) writing.simps(1,2))
qed

definition rw_sample :: "rwpc \<Rightarrow> u32 \<Rightarrow> rwsys" where
  "rw_sample pc w = \<lparr>rw_word = w, rw_pc = (\<lambda>_. Idle)(1 := pc)\<rparr>"

lemma rw_sample_waits: "rw_reach 2 (rw_sample WaitingForReaders WRITER)"
proof -
  have "rw_step 2 rw_init (rw_sample (TryingExclusive 0) 0)"
    using rw_step.call_exclusive [of 1 2 rw_init] by (simp add: rw_init_def rw_sample_def)
  moreover have "rw_step 2 (rw_sample (TryingExclusive 0) 0) (rw_sample WaitingForReaders WRITER)"
    using rw_step.go_on [of 1 2 "rw_sample (TryingExclusive 0) 0" WaitingForReaders WRITER]
    by (simp add: rw_sample_def rw_defs)
  ultimately show ?thesis
    by (meson rw_reach.intros)
qed

lemma rw_sample_writes: "rw_reach 2 (rw_sample Exclusive WRITER)"
proof -
  have "rw_step 2 (rw_sample WaitingForReaders WRITER) (rw_sample Exclusive WRITER)"
    using rw_step.go_on [of 1 2 "rw_sample WaitingForReaders WRITER" Exclusive WRITER]
    by (simp add: rw_sample_def rw_defs WRITER_and_READERS)
  then show ?thesis
    by (rule rw_reach.step [OF rw_sample_waits])
qed

lemma reader_writer_exclusion_witness: "rw_reach 2 (rw_sample Exclusive WRITER) \<and> rw_pc (rw_sample Exclusive WRITER) 0 \<noteq> Shared"
  using reader_writer_exclusion [OF rw_sample_writes, of 1] rw_sample_writes by (simp add: rw_sample_def)

text \<open>
  C8. Readers do not starve a writer: once a writer has announced itself and waits, no step of any
  thread adds a reader, the writer stays announced until it is the moment when the last reader has
  left, and from every such state the steps of the readers that are inside and then of the writer
  let the writer in.
\<close>

theorem waiting_writer_gets_in:
  assumes "rw_reach N s" and "N < 2 ^ 31" and "i < N" and "rw_pc s i = WaitingForReaders"
  shows "(\<forall>t. rw_step N s t \<longrightarrow> readers t \<le> readers s \<and>
      (rw_pc t i = WaitingForReaders \<or> rw_pc t i = Exclusive \<and> readers s = 0)) \<and>
    (\<exists>t. (rw_step N)\<^sup>*\<^sup>* s t \<and> rw_pc t i = Exclusive)"
proof -
  note inv = rw_reach_inv [OF assms(1,2)]
  show ?thesis
    using rw_wait_step [OF assms(2) _ inv assms(4)] rw_writer_enters [OF inv assms(2,4,3)] by blast
qed

lemma waiting_writer_gets_in_witness:
  "\<exists>t. (rw_step 2)\<^sup>*\<^sup>* (rw_sample WaitingForReaders WRITER) t \<and> rw_pc t 1 = Exclusive"
  using waiting_writer_gets_in [OF rw_sample_waits, of 1] by (simp add: rw_sample_def)

text \<open>
  C9. When \<open>RundownProt_WaitForRelease\<close> has returned in one thread, no thread is inside the protected
  region, in this state and in every later one, so the object may be destroyed.
\<close>

theorem rundown_is_final:
  assumes "rd_reach N s" and "N < 2 ^ 31" and "rd_pc s i = RunDown" and "(rd_step N)\<^sup>*\<^sup>* s t"
  shows "rd_word t = WRITER \<and> rd_pc t j \<noteq> Protected \<and> (\<forall>v. rd_pc t j \<noteq> Releasing v)"
proof -
  have "rd_reach N t"
    using assms(4,1) by (induction rule: rtranclp_induct) (auto intro: rd_reach.step)
  then have inv: "rd_inv N t"
    by (rule rd_reach_inv [OF _ assms(2)])
  have down: "rd_pc t i = RunDown"
    by (rule rd_rundown_stays [OF assms(4,3)])
  then have none: "holders t = 0" and "\<exists>k. closing (rd_pc t k)"
    using inv by (auto simp: rd_inv_def intro: exI [of _ i])
  then have "rd_word t = WRITER"
    using rd_word_bits(2) [OF inv assms(2)] by blast
  moreover have "\<not> holding (rd_pc t j)"
    using rd_counts(3) [OF inv, of j] none by auto
  ultimately show ?thesis
    by (metis holding.simps(1,2))
qed

definition rd_sample :: "rdpc \<Rightarrow> u32 \<Rightarrow> rdsys" where
  "rd_sample pc w = \<lparr>rd_word = w, rd_pc = (\<lambda>_. Free)(1 := pc)\<rparr>"

lemma rd_sample_reach: "rd_reach 2 (rd_sample RunDown WRITER)"
proof -
  have "rd_step 2 rd_init (rd_sample WaitingForRelease WRITER)"
    using rd_step.call_wait [of 1 2 rd_init] by (simp add: rd_init_def rd_sample_def rd_defs)
  moreover have "rd_step 2 (rd_sample WaitingForRelease WRITER) (rd_sample RunDown WRITER)"
    using rd_step.go_on [of 1 2 "rd_sample WaitingForRelease WRITER" RunDown WRITER] by (simp add: rd_sample_def rd_defs)
  ultimately show ?thesis
    by (meson rd_reach.intros)
qed

lemma rundown_is_final_witness: "rd_reach 2 (rd_sample RunDown WRITER) \<and> rd_pc (rd_sample RunDown WRITER) 0 \<noteq> Protected"
  using rundown_is_final [OF rd_sample_reach, of 1] rd_sample_reach by (simp add: rd_sample_def)
end
