(* ===== verification/TimedEvent_Model.thy ===== *)
theory TimedEvent_Model
  imports RBTree_Clients ArrayList
begin

unbundle bit_operations_syntax

text \<open>
  The timer queue of \<open>Source/TimedEvent.cpp\<close>. The queued timers are in a red-black tree by due time and
  in an array sorted by id; freed timer objects are kept in a list for reuse. The caller threads add
  and remove timers while one worker thread fires the expired ones. Every section under a lock, and
  every interlocked operation, is one function on the state; a function that would touch an object
  that does not exist (any more) is \<open>None\<close>. The tree and the array are the models of
  \<open>CRedBlackTree\<close> and \<open>TArrayList\<close>. A function that compares timers in the array is \<open>None\<close> as soon as
  one of the pointers in the array is dead, whether or not the search comes to it; in the tree a node lives
  in its timer, so the comparison with a dead timer is the access to a dead node.
\<close>

section \<open>State\<close>

text \<open>The address of the tree in the handler and the offset of \<open>cTreeNode\<close> in a timer.\<close>

record layout =
  lay_tree :: ptr
  lay_node :: nat

record tq =
  tq_timers :: "CTimer store"
  tq_cTree :: rbt
  tq_cSortedByIdList :: "ptr arr"
  tq_nNextTimerId :: u32
  tq_lpFirst :: ptr
  tq_nListCount :: int

definition tq_init :: tq where
  "tq_init = \<lparr>tq_timers = Map.empty, tq_cTree = CRedBlackTree Map.empty, tq_cSortedByIdList = TArrayList,
     tq_nNextTimerId = 0, tq_lpFirst = NULL, tq_nListCount = 0\<rparr>"

abbreviation FLAG_Running :: u32 where
  "FLAG_Running \<equiv> 1"

abbreviation FLAG_Canceled :: u32 where
  "FLAG_Canceled \<equiv> 2"

abbreviation FLAG_OneShot :: u32 where
  "FLAG_OneShot \<equiv> 4"

abbreviation FLAG_CanceledInCallback :: u32 where
  "FLAG_CanceledInCallback \<equiv> 8"

definition list_env :: "(u64 \<Rightarrow> bool) \<Rightarrow> ptr tenv" where
  "list_env malloc = \<lparr>te_sizeof = 8, te_granularity = 32, te_zero = NULL, te_malloc = malloc\<rparr>"

section \<open>A timer\<close>

text \<open>The two ways to the same object: new storage, and storage that is used again.\<close>

definition Setup :: "u32 \<Rightarrow> nat \<Rightarrow> ptr \<Rightarrow> bool \<Rightarrow> CTimer" where
  "Setup timeoutMs callback userData bOneShot =
     \<lparr>nId = 0, dwTimeoutMs = timeoutMs, nDueTime = 0, cCallback = callback, lpUserData = userData,
      nFlags = (if bOneShot then FLAG_OneShot else 0), lpNextInFreeList = NULL\<rparr>"

text \<open>The time is a count of 100 ns.\<close>

definition MX_100NS_TO_MILLISECONDS :: "u64 \<Rightarrow> u64" where
  "MX_100NS_TO_MILLISECONDS n = n div 10000"

definition CalculateDueTime :: "u64 \<Rightarrow> CTimer \<Rightarrow> CTimer" where
  "CalculateDueTime currTime t = t\<lparr>nDueTime := MX_100NS_TO_MILLISECONDS currTime + ucast (dwTimeoutMs t)\<rparr>"

definition SetAsRunningIfNotCanceled :: "CTimer \<Rightarrow> bool \<times> CTimer" where
  "SetAsRunningIfNotCanceled t =
     (if nFlags t AND FLAG_Canceled \<noteq> 0 then (False, t) else (True, t\<lparr>nFlags := nFlags t OR FLAG_Running\<rparr>))"

definition SetAsCanceled :: "bool \<Rightarrow> CTimer \<Rightarrow> bool \<times> CTimer" where
  "SetAsCanceled bInsideCallback t =
     (nFlags t AND FLAG_Running \<noteq> 0,
      t\<lparr>nFlags := nFlags t OR (if \<not> bInsideCallback then FLAG_Canceled else FLAG_Canceled OR FLAG_CanceledInCallback)\<rparr>)"

text \<open>What \<open>InvokeCallback\<close> returns when the callback asks to cancel, or does not.\<close>

definition InvokeCallback :: "CTimer \<Rightarrow> bool \<Rightarrow> bool" where
  "InvokeCallback t wantsCancel = (if nFlags t AND FLAG_OneShot \<noteq> 0 then False else wantsCancel)"

section \<open>The callbacks of the containers\<close>

text \<open>
  The objects as the comparisons see them. The value for a dead pointer is never used: every caller tests
  the pointers that are compared, with \<open>live_ids\<close> for the array and by the access to the node, which
  lives in the timer, for the tree.
\<close>

definition timers_of :: "CTimer store \<Rightarrow> ptr \<Rightarrow> CTimer" where
  "timers_of h p = (case h p of Some t \<Rightarrow> t | None \<Rightarrow> Setup 0 0 NULL False)"

definition live_ids :: "CTimer store \<Rightarrow> ptr arr \<Rightarrow> unit option" where
  "live_ids h A = (if list_all (\<lambda>p. h p \<noteq> None) (take (unat (al_count A)) (al_items A)) then Some () else None)"

definition InsertByIdCompareFunc :: "(ptr \<Rightarrow> CTimer) \<Rightarrow> ptr \<Rightarrow> ptr \<Rightarrow> int" where
  "InsertByIdCompareFunc obj lpElem1 lpElem2 =
     (if nId (obj lpElem1) <s nId (obj lpElem2) then -1
      else if nId (obj lpElem2) <s nId (obj lpElem1) then 1 else 0)"

definition SearchByIdCompareFunc :: "(ptr \<Rightarrow> CTimer) \<Rightarrow> u32 \<Rightarrow> ptr \<Rightarrow> int" where
  "SearchByIdCompareFunc obj key lpElem =
     (if key <s nId (obj lpElem) then -1 else if nId (obj lpElem) <s key then 1 else 0)"

text \<open>\<open>CRedBlackTreeNode::Remove\<close>: nothing for a node that is in no tree.\<close>

definition rb_node_Remove :: "rbt \<Rightarrow> ptr \<Rightarrow> rbt option" where
  "rb_node_Remove s d = do {
     m \<leftarrow> load (rb_nodes s) d;
     if rb_tree m \<noteq> NULL then rb_Remove s d else Some s
   }"

section \<open>Storage\<close>

abbreviation MAX_TIMERS_IN_FREE_LIST :: int where
  "MAX_TIMERS_IN_FREE_LIST \<equiv> 128"

text \<open>\<open>new\<close> is the block that the heap hands out, or null.\<close>

definition new_timer :: "layout \<Rightarrow> tq \<Rightarrow> ptr \<Rightarrow> CTimer \<Rightarrow> tq" where
  "new_timer L q new t =
     q\<lparr>tq_timers := (tq_timers q)(new \<mapsto> t),
       tq_cTree := tq_cTree q\<lparr>rb_nodes := (rb_nodes (tq_cTree q))(new + lay_node L \<mapsto> CRedBlackTreeNode)\<rparr>\<rparr>"

definition delete_timer :: "layout \<Rightarrow> tq \<Rightarrow> ptr \<Rightarrow> tq option" where
  "delete_timer L q p = do {
     _ \<leftarrow> load (tq_timers q) p;
     Some (q\<lparr>tq_timers := (tq_timers q)(p := None),
       tq_cTree := tq_cTree q\<lparr>rb_nodes := (rb_nodes (tq_cTree q))(p + lay_node L := None)\<rparr>\<rparr>)
   }"

definition AllocTimer :: "layout \<Rightarrow> tq \<Rightarrow> ptr \<Rightarrow> nat \<Rightarrow> u32 \<Rightarrow> ptr \<Rightarrow> bool \<Rightarrow> (ptr \<times> tq) option" where
  "AllocTimer L q new callback timeoutMs userData bOneShot =
     (if tq_lpFirst q \<noteq> NULL then do {
        t \<leftarrow> load (tq_timers q) (tq_lpFirst q);
        Some (tq_lpFirst q,
          q\<lparr>tq_nListCount := tq_nListCount q - 1, tq_lpFirst := lpNextInFreeList t,
            tq_timers := (tq_timers q)(tq_lpFirst q \<mapsto> Setup timeoutMs callback userData bOneShot)\<rparr>)
      }
      else if new = NULL then Some (NULL, q)
      else Some (new, new_timer L q new (Setup timeoutMs callback userData bOneShot)))"

definition FreeTimer :: "layout \<Rightarrow> tq \<Rightarrow> ptr \<Rightarrow> tq option" where
  "FreeTimer L q p =
     (if tq_nListCount q < MAX_TIMERS_IN_FREE_LIST then do {
        timers \<leftarrow> store (tq_timers q) p (\<lambda>t. t\<lparr>lpNextInFreeList := tq_lpFirst q\<rparr>);
        Some (q\<lparr>tq_timers := timers, tq_lpFirst := p, tq_nListCount := tq_nListCount q + 1\<rparr>)
      }
      else delete_timer L q p)"

section \<open>Adding a timer\<close>

datatype HRESULT = S_OK | E_POINTER | E_OUTOFMEMORY | MX_E_NotReady

text \<open>The tests at the beginning of \<open>AddTimer\<close>; the protection is acquired or the handler shuts down.\<close>

definition AddTimer_check :: "ptr \<Rightarrow> bool \<Rightarrow> nat \<Rightarrow> HRESULT" where
  "AddTimer_check lpnTimerId acquired callback =
     (if lpnTimerId = NULL then E_POINTER
      else if \<not> acquired then MX_E_NotReady
      else if callback = 0 then E_POINTER
      else S_OK)"

text \<open>One turn of the loop that takes an id; whether the loop goes on.\<close>

definition AddTimer_id :: "tq \<Rightarrow> ptr \<Rightarrow> (bool \<times> tq) option" where
  "AddTimer_id q p = do {
     let id = tq_nNextTimerId q + 1;
     timers \<leftarrow> store (tq_timers q) p (\<lambda>t. t\<lparr>nId := id\<rparr>);
     Some (id = 0, q\<lparr>tq_timers := timers, tq_nNextTimerId := id\<rparr>)
   }"

text \<open>The due time and the section under the lock; the result, and what is stored in \<open>*lpnTimerId\<close>.\<close>

definition AddTimer_insert :: "layout \<Rightarrow> (u64 \<Rightarrow> bool) \<Rightarrow> tq \<Rightarrow> ptr \<Rightarrow> u64 \<Rightarrow> (HRESULT \<times> u32 \<times> tq) option" where
  "AddTimer_insert L malloc q p currTime = do {
     timers \<leftarrow> store (tq_timers q) p (CalculateDueTime currTime);
     let q = q\<lparr>tq_timers := timers\<rparr>;
     _ \<leftarrow> live_ids timers (tq_cSortedByIdList q);
     (ok, _, list, _) \<leftarrow> al_SortedInsert (list_env malloc) (tq_cSortedByIdList q) p
       (Some (InsertByIdCompareFunc (timers_of timers))) True;
     if \<not> ok then Some (E_OUTOFMEMORY, 0, q\<lparr>tq_cSortedByIdList := list\<rparr>)
     else do {
       t \<leftarrow> load timers p;
       (_, _, tree) \<leftarrow> rb_Insert (lay_tree L) (tq_cTree q) (p + lay_node L)
         (CTimer_InsertCompareFunc (lay_node L) (timers_of timers)) True;
       Some (S_OK, nId t, q\<lparr>tq_cSortedByIdList := list, tq_cTree := tree\<rparr>)
     }
   }"

section \<open>Removing a timer\<close>

text \<open>The section under the lock: the timer that was found, or null, and whether its callback runs.\<close>

definition RemoveTimer_cancel :: "layout \<Rightarrow> tq \<Rightarrow> bool \<Rightarrow> u32 \<Rightarrow> (ptr \<times> bool \<times> tq) option" where
  "RemoveTimer_cancel L q bInsideCallback nTimerId = do {
     _ \<leftarrow> live_ids (tq_timers q) (tq_cSortedByIdList q);
     nIndex \<leftarrow> al_BinarySearch (tq_cSortedByIdList q) nTimerId (Some (SearchByIdCompareFunc (timers_of (tq_timers q))));
     if nIndex \<noteq> -1 then do {
       lpTimer \<leftarrow> al_GetElementAt (tq_cSortedByIdList q) nIndex;
       t \<leftarrow> load (tq_timers q) lpTimer;
       let (bIsRunning, t) = SetAsCanceled bInsideCallback t;
       (_, list, _) \<leftarrow> al_RemoveElementAt (tq_cSortedByIdList q) nIndex 1 True;
       tree \<leftarrow> rb_node_Remove (tq_cTree q) (lpTimer + lay_node L);
       Some (lpTimer, bIsRunning,
         q\<lparr>tq_timers := (tq_timers q)(lpTimer \<mapsto> t), tq_cSortedByIdList := list, tq_cTree := tree\<rparr>)
     }
     else Some (NULL, False, q)
   }"

text \<open>One look of \<open>WaitWhileRunning\<close>: whether the callback still runs.\<close>

definition WaitWhileRunning :: "tq \<Rightarrow> ptr \<Rightarrow> bool option" where
  "WaitWhileRunning q p = map_option (\<lambda>t. nFlags t AND FLAG_Running \<noteq> 0) (load (tq_timers q) p)"

section \<open>The worker\<close>

abbreviation INFINITE :: u32 where
  "INFINITE \<equiv> 0xFFFFFFFF"

definition timeout_until :: "u64 \<Rightarrow> u64 \<Rightarrow> u32" where
  "timeout_until due now =
     (let nDiff = due - now in if nDiff > 0xFFFFFFFF then 0xFFFFFFFE else ucast nDiff)"

text \<open>From \<open>check_timer\<close> on: the timer to fire, or null, and the time to wait when there is none.\<close>

partial_function (option) check_timer :: "layout \<Rightarrow> tq \<Rightarrow> u64 \<Rightarrow> ptr \<Rightarrow> (ptr \<times> u32 \<times> tq) option" where
  "check_timer L q now lpNode =
     (if lpNode = NULL then Some (NULL, INFINITE, q)
      else do {
        t \<leftarrow> load (tq_timers q) (CONTAINING_RECORD (lay_node L) lpNode);
        if nDueTime t \<le> now then
          (if fst (SetAsRunningIfNotCanceled t) then
             Some (CONTAINING_RECORD (lay_node L) lpNode, INFINITE,
               q\<lparr>tq_timers := (tq_timers q)(CONTAINING_RECORD (lay_node L) lpNode \<mapsto> snd (SetAsRunningIfNotCanceled t))\<rparr>)
           else do {
             lpNode \<leftarrow> rb_GetNext (rb_nodes (tq_cTree q)) lpNode;
             check_timer L q now lpNode
           })
        else Some (NULL, timeout_until (nDueTime t) now, q)
      })"

declare check_timer.simps [code]

definition ProcessQueue_pick :: "layout \<Rightarrow> tq \<Rightarrow> u64 \<Rightarrow> (ptr \<times> u32 \<times> tq) option" where
  "ProcessQueue_pick L q currTime = do {
     lpNode \<leftarrow> rb_GetFirst (tq_cTree q);
     check_timer L q (MX_100NS_TO_MILLISECONDS currTime) lpNode
   }"

definition ProcessQueue_done :: "layout \<Rightarrow> tq \<Rightarrow> ptr \<Rightarrow> bool \<Rightarrow> u64 \<Rightarrow> tq option" where
  "ProcessQueue_done L q p wantsCancel currTime = do {
     t \<leftarrow> load (tq_timers q) p;
     let bCancel = InvokeCallback t wantsCancel;
     if nFlags t AND FLAG_Canceled \<noteq> 0 then do {
       let q = q\<lparr>tq_timers := (tq_timers q)(p \<mapsto> t\<lparr>nFlags := nFlags t AND NOT FLAG_Running\<rparr>)\<rparr>;
       if nFlags t AND FLAG_CanceledInCallback \<noteq> 0 then FreeTimer L q p else Some q
     }
     else do {
       tree \<leftarrow> rb_node_Remove (tq_cTree q) (p + lay_node L);
       let q = q\<lparr>tq_cTree := tree\<rparr>;
       if bCancel \<or> nFlags t AND FLAG_OneShot \<noteq> 0 then do {
         _ \<leftarrow> live_ids (tq_timers q) (tq_cSortedByIdList q);
         nIndex \<leftarrow> al_BinarySearch (tq_cSortedByIdList q) (nId t) (Some (SearchByIdCompareFunc (timers_of (tq_timers q))));
         list \<leftarrow> (if nIndex \<noteq> -1
                  then map_option (\<lambda>(_, list, _). list) (al_RemoveElementAt (tq_cSortedByIdList q) nIndex 1 True)
                  else Some (tq_cSortedByIdList q));
         FreeTimer L (q\<lparr>tq_cSortedByIdList := list\<rparr>) p
       }
       else do {
         let timers = (tq_timers q)(p \<mapsto> CalculateDueTime currTime t);
         (_, _, tree) \<leftarrow> rb_Insert (lay_tree L) (tq_cTree q) (p + lay_node L)
           (CTimer_InsertCompareFunc (lay_node L) (timers_of timers)) True;
         let timers = timers(p \<mapsto> (CalculateDueTime currTime t)\<lparr>nFlags := nFlags t AND NOT FLAG_Running\<rparr>);
         Some (q\<lparr>tq_timers := timers, tq_cTree := tree\<rparr>)
       }
     }
   }"

section \<open>The destructor\<close>

partial_function (option) destroy_queued :: "layout \<Rightarrow> tq \<Rightarrow> tq option" where
  "destroy_queued L q = do {
     lpNode \<leftarrow> rb_GetFirst (tq_cTree q);
     if lpNode \<noteq> NULL then do {
       tree \<leftarrow> rb_node_Remove (tq_cTree q) lpNode;
       q \<leftarrow> delete_timer L (q\<lparr>tq_cTree := tree\<rparr>) (CONTAINING_RECORD (lay_node L) lpNode);
       destroy_queued L q
     }
     else Some q
   }"

partial_function (option) destroy_free :: "layout \<Rightarrow> tq \<Rightarrow> tq option" where
  "destroy_free L q =
     (if tq_lpFirst q \<noteq> NULL then do {
        t \<leftarrow> load (tq_timers q) (tq_lpFirst q);
        q \<leftarrow> delete_timer L (q\<lparr>tq_lpFirst := lpNextInFreeList t\<rparr>) (tq_lpFirst q);
        destroy_free L q
      }
      else Some q)"

text \<open>What the destructor does after \<open>RundownProt_WaitForRelease\<close> and \<open>Stop\<close>.\<close>

definition CTimerHandler_destroy :: "layout \<Rightarrow> tq \<Rightarrow> tq option" where
  "CTimerHandler_destroy L q = do {
     (list, _) \<leftarrow> al_RemoveAllElements (tq_cSortedByIdList q);
     q \<leftarrow> destroy_queued L (q\<lparr>tq_cSortedByIdList := list\<rparr>);
     destroy_free L q
   }"

end
