(* ===== verification/TimedEvent_Rep.thy ===== *)
theory TimedEvent_Rep
  imports TimedEvent_Model
begin

unbundle bit_operations_syntax

text \<open>
  What a state of the timer queue represents: the tree of the queued timers sorted by due time, the
  sequence of the timers that can be found by id, and the list of the free objects. Each operation is
  described by its effect on the three and on the timer objects.
\<close>

section \<open>The contracts of the containers\<close>

definition id_of :: "CTimer store \<Rightarrow> ptr \<Rightarrow> int" where
  "id_of h p = sint (nId (timers_of h p))"

interpretation ids: search_order "id_of h" "InsertByIdCompareFunc (timers_of h)" "SearchByIdCompareFunc (timers_of h)" sint
  for h :: "CTimer store"
  by unfold_locales (auto simp: InsertByIdCompareFunc_def SearchByIdCompareFunc_def id_of_def word_sless_alt)

lemma timers_of_Some [simp]: "h p = Some t \<Longrightarrow> timers_of h p = t"
  by (simp add: timers_of_def)

lemma sint_eq_iff: "sint (a :: u32) = sint b \<longleftrightarrow> a = b"
  by (auto intro: signed_word_eqI)

abbreviation due :: "layout \<Rightarrow> CTimer store \<Rightarrow> ptr \<Rightarrow> u64" where
  "due L h \<equiv> due_of (lay_node L) (timers_of h)"

lemma due_node [simp]: "due L h (p + lay_node L) = nDueTime (timers_of h p)"
  by (simp add: due_of_def CONTAINING_RECORD_def)

section \<open>The representation\<close>

definition queued :: "layout \<Rightarrow> tree \<Rightarrow> ptr set" where
  "queued L t = {p. p + lay_node L \<in> set (inorder t)}"

fun free_list :: "CTimer store \<Rightarrow> ptr \<Rightarrow> ptr list \<Rightarrow> bool" where
  "free_list h p [] \<longleftrightarrow> p = NULL"
| "free_list h p (x # xs) \<longleftrightarrow> p = x \<and> x \<noteq> NULL \<and> (\<exists>t. h x = Some t \<and> free_list h (lpNextInFreeList t) xs)"

definition heap_ok :: "layout \<Rightarrow> CTimer store \<Rightarrow> rbnode store \<Rightarrow> bool" where
  "heap_ok L h nodes \<longleftrightarrow> NULL \<notin> dom h \<and> lay_tree L \<noteq> NULL \<and> dom nodes = (\<lambda>p. p + lay_node L) ` dom h \<and>
     (\<forall>p \<in> dom h. p < 2 ^ 64 \<and> 16 dvd p)"

definition tree_ok :: "layout \<Rightarrow> CTimer store \<Rightarrow> rbt \<Rightarrow> tree \<Rightarrow> bool" where
  "tree_ok L h T t \<longleftrightarrow> rb_rep (lay_tree L) T t \<and> sorted (map (due L h) (inorder t)) \<and>
     (\<forall>p \<in> dom h. p \<notin> queued L t \<longrightarrow> fresh_node T (p + lay_node L))"

definition list_ok :: "CTimer store \<Rightarrow> ptr arr \<Rightarrow> ptr list \<Rightarrow> bool" where
  "list_ok h A xs \<longleftrightarrow> arr_rep A xs \<and> sorted (map (id_of h) xs) \<and> distinct (map (id_of h) xs)"

definition free_ok :: "CTimer store \<Rightarrow> ptr \<Rightarrow> int \<Rightarrow> ptr list \<Rightarrow> bool" where
  "free_ok h p n fs \<longleftrightarrow> free_list h p fs \<and> distinct fs \<and> n = int (length fs) \<and> length fs \<le> 128"

definition tq_rep :: "layout \<Rightarrow> tq \<Rightarrow> tree \<Rightarrow> ptr list \<Rightarrow> ptr list \<Rightarrow> bool" where
  "tq_rep L q t xs fs \<longleftrightarrow> heap_ok L (tq_timers q) (rb_nodes (tq_cTree q)) \<and> tree_ok L (tq_timers q) (tq_cTree q) t \<and>
     list_ok (tq_timers q) (tq_cSortedByIdList q) xs \<and> free_ok (tq_timers q) (tq_lpFirst q) (tq_nListCount q) fs \<and>
     set xs \<subseteq> queued L t \<and> set fs \<inter> queued L t = {}"

lemma tq_rep_init: "lay_tree L \<noteq> NULL \<Longrightarrow> tq_rep L tq_init Lf [] []"
  by (simp add: tq_rep_def heap_ok_def tree_ok_def list_ok_def free_ok_def tq_init_def queued_def rb_rep_empty arr_rep_empty)
    (simp add: CRedBlackTree_def)

lemma free_list_dom: "free_list h p fs \<Longrightarrow> set fs \<subseteq> dom h"
  by (induction fs arbitrary: p) auto

lemma free_list_upd: "x \<notin> set fs \<Longrightarrow> free_list (h(x := v)) p fs = free_list h p fs"
  by (induction fs arbitrary: p) auto

lemma free_list_head: "free_list h p fs \<Longrightarrow> p = NULL \<longleftrightarrow> fs = []"
  by (cases fs) auto

lemma tree_node_dom:
  assumes rep: "tq_rep L q t xs fs" and x: "x \<in> set (inorder t)"
  shows "x \<in> (\<lambda>p. p + lay_node L) ` dom (tq_timers q)"
proof -
  have "rb_rep (lay_tree L) (tq_cTree q) t"
    using rep by (simp add: tq_rep_def tree_ok_def)
  then obtain m where "rb_nodes (tq_cTree q) x = Some m"
    using rb_rep_owner x by blast
  then have "x \<in> dom (rb_nodes (tq_cTree q))"
    by blast
  then show ?thesis
    using rep by (simp add: tq_rep_def heap_ok_def)
qed

lemma queued_dom: "tq_rep L q t xs fs \<Longrightarrow> queued L t \<subseteq> dom (tq_timers q)"
  using tree_node_dom by (fastforce simp: queued_def)

lemma queued_image: "tq_rep L q t xs fs \<Longrightarrow> set (inorder t) = (\<lambda>p. p + lay_node L) ` queued L t"
  using tree_node_dom by (fastforce simp: queued_def)

text \<open>The pointers in the array are alive, because its timers are queued.\<close>

lemma live_ids_ok: "list_ok h A xs \<Longrightarrow> set xs \<subseteq> dom h \<Longrightarrow> live_ids h A = Some ()"
  by (auto simp: live_ids_def list_ok_def arr_rep_def list_all_iff)

lemma live_ids_rep:
  assumes "tq_rep L q t xs fs"
  shows "live_ids (tq_timers q) (tq_cSortedByIdList q) = Some ()"
proof (rule live_ids_ok)
  show "set xs \<subseteq> dom (tq_timers q)"
    using queued_dom [OF assms] assms unfolding tq_rep_def by blast
qed (use assms in \<open>simp add: tq_rep_def\<close>)

text \<open>Writing an object that keeps its keys while it is queued.\<close>

lemma due_write:
  assumes rep: "tq_rep L q t xs fs" and "p \<in> queued L t \<Longrightarrow> nDueTime v = nDueTime (timers_of (tq_timers q) p)"
    and x: "x \<in> set (inorder t)"
  shows "due L ((tq_timers q)(p \<mapsto> v)) x = due L (tq_timers q) x"
proof -
  obtain r where "x = r + lay_node L" "r \<in> queued L t"
    using x unfolding queued_image [OF rep] by blast
  then show ?thesis
    using assms(2) by (cases "r = p") (simp_all add: timers_of_def)
qed

lemma tree_ok_write:
  assumes "tq_rep L q t xs fs" and "p \<in> queued L t \<Longrightarrow> nDueTime v = nDueTime (timers_of (tq_timers q) p)"
    and "p \<in> dom (tq_timers q)"
  shows "tree_ok L ((tq_timers q)(p \<mapsto> v)) (tq_cTree q) t"
proof -
  have "map (due L ((tq_timers q)(p \<mapsto> v))) (inorder t) = map (due L (tq_timers q)) (inorder t)"
    using due_write [OF assms(1,2)] by simp
  then show ?thesis
    using assms(1,3) unfolding tq_rep_def tree_ok_def by (metis domI domIff fun_upd_other)
qed

lemma list_ok_write:
  assumes "list_ok h A xs" and "p \<in> set xs \<Longrightarrow> nId v = nId (timers_of h p)"
  shows "list_ok (h(p \<mapsto> v)) A xs"
proof -
  have "map (id_of (h(p \<mapsto> v))) xs = map (id_of h) xs"
    using assms(2) by (auto simp: id_of_def timers_of_def)
  then show ?thesis
    using assms(1) unfolding list_ok_def by (simp only:)
qed

lemma heap_ok_write: "heap_ok L h nodes \<Longrightarrow> p \<in> dom h \<Longrightarrow> heap_ok L (h(p \<mapsto> v)) nodes"
  by (simp add: heap_ok_def insert_absorb)

lemma free_ok_write: "p \<notin> set fs \<Longrightarrow> free_ok (h(p := v)) f n fs = free_ok h f n fs"
  by (simp add: free_ok_def free_list_upd)

lemma tq_rep_write:
  assumes rep: "tq_rep L q t xs fs" and "p \<in> dom (tq_timers q)" "p \<notin> set fs"
    and "p \<in> queued L t \<Longrightarrow> nId v = nId (timers_of (tq_timers q) p) \<and> nDueTime v = nDueTime (timers_of (tq_timers q) p)"
  shows "tq_rep L (q\<lparr>tq_timers := (tq_timers q)(p \<mapsto> v)\<rparr>) t xs fs"
  using assms tree_ok_write [OF rep, of p v] list_ok_write [of "tq_timers q" _ xs p v]
  by (auto simp: tq_rep_def heap_ok_write free_ok_write)

section \<open>Storage\<close>

lemma rb_rep_nodes: "rb_rep T s t \<Longrightarrow> (\<And>x. x \<in> set (inorder t) \<Longrightarrow> h x = rb_nodes s x) \<Longrightarrow> rb_rep T (s\<lparr>rb_nodes := h\<rparr>) t"
  using tree_at_cong [of t h "rb_nodes s"] by (auto simp: rb_rep_def zrep_def)

lemma node_not_in_tree: "p \<notin> queued L t \<Longrightarrow> p + lay_node L \<notin> set (inorder t)"
  by (simp add: queued_def)

text \<open>Storage of timers that are not queued comes and goes.\<close>

lemma tree_ok_storage:
  assumes tree: "tree_ok L h T t" and p: "p \<notin> queued L t"
    and due: "map (due L h') (inorder t) = map (due L h) (inorder t)" and dom: "\<And>r. r \<noteq> p \<Longrightarrow> h' r = h r"
    and new: "p \<in> dom h' \<Longrightarrow> fresh_node (T\<lparr>rb_nodes := nodes\<rparr>) (p + lay_node L)"
    and all: "\<And>x. x \<noteq> p + lay_node L \<Longrightarrow> nodes x = rb_nodes T x"
  shows "tree_ok L h' (T\<lparr>rb_nodes := nodes\<rparr>) t"
proof -
  have "nodes x = rb_nodes T x" if "x \<in> set (inorder t)" for x
    using that node_not_in_tree [OF p] by (intro all) metis
  then have "rb_rep (lay_tree L) (T\<lparr>rb_nodes := nodes\<rparr>) t"
    using tree unfolding tree_ok_def by (intro rb_rep_nodes) auto
  moreover have "fresh_node (T\<lparr>rb_nodes := nodes\<rparr>) (r + lay_node L)" if "r \<in> dom h'" "r \<notin> queued L t" for r
    using that new tree all dom by (cases "r = p") (auto simp: tree_ok_def fresh_node_def)
  ultimately show ?thesis
    using tree due unfolding tree_ok_def by (simp only:) blast
qed

lemma due_unqueued: "p \<notin> queued L t \<Longrightarrow> tq_rep L q t xs fs \<Longrightarrow>
    map (due L ((tq_timers q)(p := v))) (inorder t) = map (due L (tq_timers q)) (inorder t)"
proof -
  assume p: "p \<notin> queued L t" and rep: "tq_rep L q t xs fs"
  have "due L ((tq_timers q)(p := v)) x = due L (tq_timers q) x" if x: "x \<in> set (inorder t)" for x
  proof -
    obtain r where "x = r + lay_node L" "r \<in> queued L t"
      using x unfolding queued_image [OF rep] by blast
    then show ?thesis
      using p by (cases "r = p") (simp_all add: timers_of_def)
  qed
  then show ?thesis
    by simp
qed

lemma list_ok_unqueued: "p \<notin> set xs \<Longrightarrow> list_ok h A xs \<Longrightarrow> list_ok (h(p := v)) A xs"
proof -
  assume p: "p \<notin> set xs" and ok: "list_ok h A xs"
  have "map (id_of (h(p := v))) xs = map (id_of h) xs"
    using p by (auto simp: id_of_def timers_of_def)
  then show ?thesis
    using ok unfolding list_ok_def by (simp only:)
qed

lemma delete_timer_rep:
  assumes rep: "tq_rep L q t xs fs" and p: "p \<in> dom (tq_timers q)" "p \<notin> queued L t" "p \<notin> set fs"
  shows "\<exists>q'. delete_timer L q p = Some q' \<and> tq_rep L q' t xs fs \<and> tq_nNextTimerId q' = tq_nNextTimerId q \<and>
    tq_timers q' = (tq_timers q)(p := None)"
proof -
  let ?h = "(tq_timers q)(p := None)" and ?nodes = "(rb_nodes (tq_cTree q))(p + lay_node L := None)"
  have null: "p \<noteq> NULL"
    using rep p(1) by (auto simp: tq_rep_def heap_ok_def)
  have "tree_ok L ?h (tq_cTree q\<lparr>rb_nodes := ?nodes\<rparr>) t"
    using rep due_unqueued [OF p(2) rep]
    by (intro tree_ok_storage [OF _ p(2), where h = "tq_timers q"]) (auto simp: tq_rep_def)
  moreover have "heap_ok L ?h ?nodes"
    using rep p(1) by (auto simp: tq_rep_def heap_ok_def)
  moreover have "list_ok ?h (tq_cSortedByIdList q) xs"
    using rep p(2) by (intro list_ok_unqueued) (auto simp: tq_rep_def)
  ultimately show ?thesis
    using rep p null by (auto simp: tq_rep_def delete_timer_def load_nonnull free_ok_write)
qed

lemma FreeTimer_rep:
  assumes rep: "tq_rep L q t xs fs" and p: "tq_timers q p = Some u" "p \<notin> queued L t" "p \<notin> set fs"
  shows "\<exists>q' fs'. FreeTimer L q p = Some q' \<and> tq_rep L q' t xs fs' \<and> tq_nNextTimerId q' = tq_nNextTimerId q \<and>
    (fs' = p # fs \<and> tq_timers q' = (tq_timers q)(p \<mapsto> u\<lparr>lpNextInFreeList := tq_lpFirst q\<rparr>) \<or>
     fs' = fs \<and> tq_timers q' = (tq_timers q)(p := None))"
proof (cases "tq_nListCount q < 128")
  case False
  obtain q' where "delete_timer L q p = Some q'" "tq_rep L q' t xs fs" "tq_nNextTimerId q' = tq_nNextTimerId q"
      "tq_timers q' = (tq_timers q)(p := None)"
    using delete_timer_rep [OF rep _ p(2,3)] p(1) by blast
  with False show ?thesis
    by (auto simp: FreeTimer_def)
next
  case True
  let ?v = "u\<lparr>lpNextInFreeList := tq_lpFirst q\<rparr>"
  have null: "p \<noteq> NULL"
    using rep p(1) by (auto simp: tq_rep_def heap_ok_def)
  have "tq_rep L (q\<lparr>tq_timers := (tq_timers q)(p \<mapsto> ?v)\<rparr>) t xs fs"
    using p by (intro tq_rep_write [OF rep]) auto
  moreover have "FreeTimer L q p =
      Some (q\<lparr>tq_timers := (tq_timers q)(p \<mapsto> ?v), tq_lpFirst := p, tq_nListCount := tq_nListCount q + 1\<rparr>)"
    using True p(1) null by (simp add: FreeTimer_def store_Some)
  ultimately show ?thesis
    using True p null by (intro exI [of _ "p # fs"] exI) (auto simp: tq_rep_def free_ok_def free_list_upd)
qed

text \<open>A free object is used again, or the heap gives a new one, or there is none.\<close>

lemma AllocTimer_rep:
  assumes rep: "tq_rep L q t xs fs" and new: "new = NULL \<or> new \<notin> dom (tq_timers q) \<and> new < 2 ^ 64 \<and> 16 dvd new"
  shows "\<exists>p q' fs'. AllocTimer L q new cb ms ud once = Some (p, q') \<and> tq_nNextTimerId q' = tq_nNextTimerId q \<and>
    (if p = NULL then q' = q \<and> fs = [] \<and> new = NULL
     else tq_rep L q' t xs fs' \<and> p \<notin> queued L t \<and> p \<notin> set fs' \<and> tq_timers q' = (tq_timers q)(p \<mapsto> Setup ms cb ud once) \<and>
       (fs = p # fs' \<or> fs = [] \<and> fs' = [] \<and> p \<notin> dom (tq_timers q)))"
proof (cases fs)
  case (Cons p fs')
  obtain u where p: "tq_lpFirst q = p" "p \<noteq> NULL" "tq_timers q p = Some u" "free_list (tq_timers q) (lpNextInFreeList u) fs'"
    and d: "distinct fs" "p \<notin> queued L t" "p \<notin> set fs'"
    using rep Cons by (auto simp: tq_rep_def free_ok_def)
  let ?q = "q\<lparr>tq_nListCount := tq_nListCount q - 1, tq_lpFirst := lpNextInFreeList u\<rparr>"
  have "tq_rep L ?q t xs fs'"
    using rep Cons p d by (auto simp: tq_rep_def free_ok_def)
  then have "tq_rep L (?q\<lparr>tq_timers := (tq_timers ?q)(p \<mapsto> Setup ms cb ud once)\<rparr>) t xs fs'"
    using p d by (intro tq_rep_write) auto
  then show ?thesis
    using p d Cons by (intro exI [of _ p]) (simp add: AllocTimer_def load_nonnull)
next
  case Nil
  have first: "tq_lpFirst q = NULL"
    using rep Nil by (simp add: tq_rep_def free_ok_def)
  show ?thesis
  proof (cases "new = NULL")
    case True
    then show ?thesis
      using first Nil by (simp add: AllocTimer_def)
  next
    case False
    then have n: "new \<notin> dom (tq_timers q)" "new < 2 ^ 64" "16 dvd new"
      using new by auto
    have unq: "new \<notin> queued L t"
      using queued_dom [OF rep] n(1) by blast
    let ?u = "Setup ms cb ud once"
    let ?h = "(tq_timers q)(new \<mapsto> ?u)" and ?nodes = "(rb_nodes (tq_cTree q))(new + lay_node L \<mapsto> CRedBlackTreeNode)"
    have "tree_ok L ?h (tq_cTree q\<lparr>rb_nodes := ?nodes\<rparr>) t"
      using rep due_unqueued [OF unq rep]
      by (intro tree_ok_storage [OF _ unq, where h = "tq_timers q"]) (auto simp: tq_rep_def fresh_node_def CRedBlackTreeNode_def)
    moreover have "heap_ok L ?h ?nodes"
      using rep False n by (auto simp: tq_rep_def heap_ok_def)
    moreover have "list_ok ?h (tq_cSortedByIdList q) xs"
      using rep unq by (intro list_ok_unqueued) (auto simp: tq_rep_def)
    ultimately have "tq_rep L (new_timer L q new ?u) t xs fs"
      using rep Nil by (simp add: tq_rep_def new_timer_def free_ok_def)
    then show ?thesis
      using first Nil False unq n by (intro exI [of _ new]) (simp add: AllocTimer_def new_timer_def)
  qed
qed


section \<open>The array by id\<close>

lemma list_length:
  assumes rep: "tq_rep L q t xs fs"
  shows "length xs \<le> 2 ^ 60" and "p \<in> dom (tq_timers q) \<Longrightarrow> p \<notin> set xs \<Longrightarrow> length xs < 2 ^ 60"
proof -
  let ?D = "{p :: nat. p < 2 ^ 64 \<and> 16 dvd p}"
  have "(\<lambda>p. p div 16) ` ?D \<subseteq> {..<2 ^ 60}"
    by auto
  moreover have inj: "inj_on (\<lambda>p. p div 16) ?D"
    by (rule inj_onI) (metis (mono_tags) dvd_mult_div_cancel mem_Collect_eq)
  ultimately have card: "finite ?D" "card ?D \<le> 2 ^ 60"
    using card_inj_on_le [OF inj, of "{..<2 ^ 60}"] by simp_all
  have d: "distinct xs"
    using rep by (auto simp: tq_rep_def list_ok_def distinct_map)
  have sub: "set xs \<subseteq> dom (tq_timers q)"
    using rep queued_dom [OF rep] by (auto simp: tq_rep_def)
  have dom: "dom (tq_timers q) \<subseteq> ?D"
    using rep by (auto simp: tq_rep_def heap_ok_def)
  show "length xs \<le> 2 ^ 60"
    using card_mono [OF card(1), of "set xs"] sub dom card(2) distinct_card [OF d] by force
  assume "p \<in> dom (tq_timers q)" "p \<notin> set xs"
  then have "card (insert p (set xs)) \<le> card ?D"
    using sub dom card(1) by (intro card_mono) auto
  then show "length xs < 2 ^ 60"
    using card(2) distinct_card [OF d] \<open>p \<notin> set xs\<close> by simp
qed

lemma find_by_id:
  assumes "list_ok h A xs"
  shows "\<exists>i. al_BinarySearch A n (Some (SearchByIdCompareFunc (timers_of h))) = Some i \<and>
    (if sint n \<in> id_of h ` set xs then unat i < length xs \<and> id_of h (xs ! unat i) = sint n \<and> i \<noteq> -1 else i = -1)"
proof -
  have rep: "arr_rep A xs" and sorted: "sorted (map (id_of h) xs)"
    using assms by (simp_all add: list_ok_def)
  obtain i where i: "al_BinarySearch A n (Some (SearchByIdCompareFunc (timers_of h))) = Some i"
    "if sint n \<in> id_of h ` set xs then unat i < length xs \<and> id_of h (xs ! unat i) = sint n else i = -1"
    using ids.array.binary_search [OF rep sorted, of n] by auto
  have "unat (al_count A) = length xs"
    using rep by (simp add: arr_rep_def)
  moreover have "unat (al_count A) < 2 ^ LENGTH(64)"
    by (rule unsigned_less)
  ultimately have "i \<noteq> -1" if "unat i < length xs"
    using that by (auto simp: unsigned_minus_1_eq_mask mask_eq_exp_minus_1)
  then show ?thesis
    using i by (intro exI [of _ i]) (simp split: if_splits)
qed

lemma remove_by_index:
  assumes "list_ok h A xs" and i: "unat i < length xs"
  shows "\<exists>A' dead. al_RemoveElementAt A i 1 True = Some (True, A', dead) \<and> list_ok h A' (remove1 (xs ! unat i) xs)"
proof -
  have rep: "arr_rep A xs" and ord: "sorted (map (id_of h) xs)" "distinct (map (id_of h) xs)"
    using assms by (simp_all add: list_ok_def)
  have "unat (al_count A) = length xs"
    using rep by (simp add: arr_rep_def)
  then have "i < al_count A"
    using i by (simp add: word_less_nat_alt)
  then have "unat (i + 1) = Suc (unat i)"
    by (rule unat_inc)
  then have step: "\<not> i + 1 < i"
    by (simp add: word_less_nat_alt)
  have split: "xs = take (unat i) xs @ (xs ! unat i) # drop (Suc (unat i)) xs"
    using i by (rule id_take_nth_drop)
  have "xs ! unat i \<notin> set (take (unat i) xs)"
    using ord(2) split by (metis distinct_append distinct_map disjoint_insert(1) list.set(2))
  then have gone: "remove1 (xs ! unat i) xs = take (unat i) xs @ drop (Suc (unat i)) xs"
    by (subst split) (simp add: remove1_append)
  obtain A' where "al_RemoveElementAt A i 1 True = Some (True, A', take (unat 1) (drop (unat i) xs))"
      "arr_rep A' (take (unat i) xs @ drop (unat i + unat 1) xs)"
    using al_RemoveElementAt_rep [OF rep, of i 1 True] i step by auto
  moreover have "distinct (map (id_of h) (remove1 (xs ! unat i) xs))"
    using ord(2) unfolding gone by (subst (asm) split) (simp del: append_take_drop_id)
  moreover have "sorted (map (id_of h) (remove1 (xs ! unat i) xs))"
    by (rule sorted_map_remove1 [OF ord(1)])
  ultimately show ?thesis
    using gone by (auto simp: list_ok_def)
qed

lemma insert_by_id:
  assumes "list_ok h A xs" and "length xs < 2 ^ 60"
  shows "\<exists>ok dup A'. al_SortedInsert (list_env malloc) A p (Some (InsertByIdCompareFunc (timers_of h))) True = Some (ok, dup, A', []) \<and>
    (if id_of h p \<in> id_of h ` set xs then ok \<and> A' = A
     else if ok then \<exists>xs'. list_ok h A' xs' \<and> set xs' = insert p (set xs) else A' = A) \<and> ((\<forall>b. malloc b) \<longrightarrow> ok)"
proof -
  have rep: "arr_rep A xs" and ord: "sorted (map (id_of h) xs)" "distinct (map (id_of h) xs)"
    using assms by (simp_all add: list_ok_def)
  let ?xs = "takeWhile (\<lambda>y. id_of h y < id_of h p) xs @ p # dropWhile (\<lambda>y. id_of h y < id_of h p) xs"
  have env: "env_ok (list_env malloc)" and fit: "fits (list_env malloc) (Suc (length xs))"
    using assms(2) by (simp_all add: env_ok_def list_env_def fits_def)
  obtain ok dup A' where ins: "al_SortedInsert (list_env malloc) A p (Some (InsertByIdCompareFunc (timers_of h))) True = Some (ok, dup, A', [])"
    "if True \<and> id_of h p \<in> id_of h ` set xs then ok \<and> dup \<and> A' = A
     else \<not> dup \<and> (if ok then arr_rep A' ?xs else A' = A) \<and> ((\<forall>b. te_malloc (list_env malloc) b) \<longrightarrow> ok)"
    using ids.array.sorted_insert [OF env rep fit ord(1), of p True] by auto
  have set: "set ?xs = insert p (set xs)"
    by (metis Un_insert_right list.set(2) set_append takeWhile_dropWhile_id)
  have "list_ok h A' ?xs" if "id_of h p \<notin> id_of h ` set xs" "arr_rep A' ?xs"
  proof -
    have "distinct (map (id_of h) (takeWhile (\<lambda>y. id_of h y < id_of h p) xs @ dropWhile (\<lambda>y. id_of h y < id_of h p) xs))"
      using ord(2) by simp
    moreover have "id_of h p \<notin> id_of h ` (set (takeWhile (\<lambda>y. id_of h y < id_of h p) xs) \<union> set (dropWhile (\<lambda>y. id_of h y < id_of h p) xs))"
      using that(1) by (auto dest: set_takeWhileD set_dropWhileD)
    ultimately have "distinct (map (id_of h) ?xs)"
      by (auto simp del: takeWhile_dropWhile_id)
    then show ?thesis
      using that(2) ids.array.sorted_cut [OF ord(1), of p] by (simp only: list_ok_def simp_thms)
  qed
  then show ?thesis
    using ins set by (intro exI [of _ ok] exI [of _ dup] exI [of _ A']) (auto simp: list_env_def split: if_splits)
qed

section \<open>The tree by due time\<close>

lemma queued_cong: "set (inorder t') = set (inorder t) \<Longrightarrow> queued L t' = queued L t"
  by (simp add: queued_def)

text \<open>The nodes of the tree exist, and the others are as before.\<close>

lemma same_nodes:
  assumes "rb_rep R T t" and "rb_rep R T' t'" and "set (inorder t') \<union> X = set (inorder t) \<union> X" and "X \<subseteq> dom (rb_nodes T) \<inter> dom (rb_nodes T')"
    and "\<And>y. y \<notin> set (inorder t) \<union> X \<Longrightarrow> rb_nodes T' y = rb_nodes T y"
  shows "dom (rb_nodes T') = dom (rb_nodes T)"
proof -
  have "y \<in> dom (rb_nodes T') \<longleftrightarrow> y \<in> dom (rb_nodes T)" for y
  proof (cases "y \<in> set (inorder t) \<union> X")
    case True
    then have "y \<in> set (inorder t') \<union> X"
      using assms(3) by blast
    then show ?thesis
      using True assms(4) rb_rep_owner [OF assms(1), of y] rb_rep_owner [OF assms(2), of y] by blast
  next
    case False
    then show ?thesis
      using assms(5) [of y] by (simp add: domIff)
  qed
  then show ?thesis
    by blast
qed

lemma tree_insert:
  assumes heap: "heap_ok L h (rb_nodes T)" and tree: "tree_ok L h T t" and p: "p \<in> dom h" "p \<notin> queued L t"
  shows "\<exists>T' t'. rb_Insert (lay_tree L) T (p + lay_node L) (CTimer_InsertCompareFunc (lay_node L) (timers_of h)) True =
      Some (True, NULL, T') \<and> tree_ok L h T' t' \<and> queued L t' = insert p (queued L t) \<and> heap_ok L h (rb_nodes T') \<and>
    inorder t' = takeWhile (\<lambda>y. due L h y \<le> nDueTime (timers_of h p)) (inorder t) @ (p + lay_node L) #
      dropWhile (\<lambda>y. due L h y \<le> nDueTime (timers_of h p)) (inorder t)"
proof -
  let ?x = "p + lay_node L" and ?due = "due L h"
  have rep: "rb_rep (lay_tree L) T t" and ord: "sorted (map ?due (inorder t))" and fresh: "fresh_node T ?x"
    using tree p by (auto simp: tree_ok_def)
  have "?x \<noteq> NULL"
    using heap p(1) by (auto simp: heap_ok_def)
  then obtain T' t' where r: "rb_Insert (lay_tree L) T ?x (CTimer_InsertCompareFunc (lay_node L) (timers_of h)) True = Some (True, NULL, T')"
      "rb_rep (lay_tree L) T' t'"
      "inorder t' = takeWhile (\<lambda>y. ?due y \<le> ?due ?x) (inorder t) @ ?x # dropWhile (\<lambda>y. ?due y \<le> ?due ?x) (inorder t)"
      "sorted (map ?due (inorder t'))" "\<forall>y. y \<notin> insert ?x (set (inorder t)) \<longrightarrow> rb_nodes T' y = rb_nodes T y"
    using timers.insert_sorted [OF rep ord _ fresh, of True] by auto
  have set: "set (inorder t') = insert ?x (set (inorder t))"
    unfolding r(3) by (metis Un_insert_right list.set(2) set_append takeWhile_dropWhile_id)
  then have queued: "queued L t' = insert p (queued L t)"
    by (auto simp: queued_def)
  have "dom (rb_nodes T') = dom (rb_nodes T)"
  proof (rule same_nodes [OF rep r(2), of "{?x}"])
    show "{?x} \<subseteq> dom (rb_nodes T) \<inter> dom (rb_nodes T')"
      using rb_rep_owner [OF r(2), of ?x] set fresh by (auto simp: fresh_node_def)
  qed (use set r(5) in auto)
  then have "heap_ok L h (rb_nodes T')"
    using heap by (simp add: heap_ok_def)
  moreover have "fresh_node T' (k + lay_node L)" if "k \<in> dom h" "k \<notin> queued L t'" for k
  proof -
    have "fresh_node T (k + lay_node L)"
      using that tree queued by (auto simp: tree_ok_def)
    moreover have "k + lay_node L \<notin> insert ?x (set (inorder t))"
      using that(2) set by (simp add: queued_def)
    ultimately show ?thesis
      using r(5) by (simp add: fresh_node_def)
  qed
  ultimately have "heap_ok L h (rb_nodes T')" "tree_ok L h T' t'"
    using r(2,4) unfolding tree_ok_def by blast+
  then show ?thesis
    using r(1,3) queued by (intro exI [of _ T'] exI [of _ t']) simp
qed

lemma tree_remove:
  assumes heap: "heap_ok L h (rb_nodes T)" and tree: "tree_ok L h T t" and p: "p \<in> queued L t"
  shows "\<exists>T' t'. rb_node_Remove T (p + lay_node L) = Some T' \<and> tree_ok L h T' t' \<and> queued L t' = queued L t - {p} \<and>
    heap_ok L h (rb_nodes T') \<and> inorder t' = remove1 (p + lay_node L) (inorder t)"
proof -
  let ?x = "p + lay_node L"
  have rep: "rb_rep (lay_tree L) T t" and ord: "sorted (map (due L h) (inorder t))" and x: "?x \<in> set (inorder t)"
    using tree p by (auto simp: tree_ok_def queued_def)
  obtain m where "rb_nodes T ?x = Some m" "rb_tree m = lay_tree L"
    using rb_rep_owner [OF rep x] by blast
  moreover have "?x \<noteq> NULL" "lay_tree L \<noteq> NULL"
    using rb_rep_nonnull [OF rep] x heap by (metis, simp add: heap_ok_def)
  ultimately have call: "rb_node_Remove T ?x = rb_Remove T ?x"
    by (simp add: rb_node_Remove_def load_nonnull)
  obtain T' t' m' where r: "rb_Remove T ?x = Some T'" "rb_rep (lay_tree L) T' t'" "inorder t' = remove1 ?x (inorder t)"
      "rb_nodes T' ?x = Some m'" "node_free m'" "\<forall>y. y \<notin> set (inorder t) \<longrightarrow> rb_nodes T' y = rb_nodes T y"
    using rb_Remove_rep [OF rep x] by blast
  have "distinct (inorder t)"
    using rep by (auto simp: rb_rep_def zrep_def)
  then have set: "set (inorder t') = set (inorder t) - {?x}"
    unfolding r(3) by simp
  then have queued: "queued L t' = queued L t - {p}"
    by (auto simp: queued_def)
  have "dom (rb_nodes T') = dom (rb_nodes T)"
    by (rule same_nodes [OF rep r(2), of "{?x}"]) (use set x r(4,6) rb_rep_owner [OF rep x] in auto)
  then have "heap_ok L h (rb_nodes T')"
    using heap by (simp add: heap_ok_def)
  moreover have "fresh_node T' (k + lay_node L)" if "k \<in> dom h" "k \<notin> queued L t'" for k
  proof (cases "k = p")
    case True
    then show ?thesis
      using r(4,5) by (simp add: fresh_node_def node_free_def)
  next
    case False
    then have "k \<notin> queued L t"
      using that(2) queued by blast
    then have "fresh_node T (k + lay_node L)" "k + lay_node L \<notin> set (inorder t)"
      using that(1) tree by (auto simp: tree_ok_def queued_def)
    then show ?thesis
      using r(6) by (simp add: fresh_node_def)
  qed
  moreover have "sorted (map (due L h) (inorder t'))"
    unfolding r(3) by (rule sorted_map_remove1 [OF ord])
  ultimately have "heap_ok L h (rb_nodes T')" "tree_ok L h T' t'"
    using r(2) unfolding tree_ok_def by blast+
  then show ?thesis
    using call r(1,3) queued by (intro exI [of _ T'] exI [of _ t']) simp
qed

section \<open>The operations\<close>

lemma AddTimer_id_rep:
  assumes rep: "tq_rep L q t xs fs" and p: "tq_timers q p = Some u" "p \<notin> queued L t" "p \<notin> set fs"
  shows "\<exists>q'. AddTimer_id q p = Some (tq_nNextTimerId q + 1 = 0, q') \<and> tq_rep L q' t xs fs \<and>
    tq_nNextTimerId q' = tq_nNextTimerId q + 1 \<and> tq_timers q' = (tq_timers q)(p \<mapsto> u\<lparr>nId := tq_nNextTimerId q + 1\<rparr>)"
proof -
  let ?v = "u\<lparr>nId := tq_nNextTimerId q + 1\<rparr>"
  have "p \<noteq> NULL"
    using rep p(1) by (auto simp: tq_rep_def heap_ok_def)
  moreover have "tq_rep L (q\<lparr>tq_timers := (tq_timers q)(p \<mapsto> ?v)\<rparr>) t xs fs"
    using p by (intro tq_rep_write [OF rep]) auto
  ultimately show ?thesis
    using p(1) by (simp add: AddTimer_id_def store_Some Let_def tq_rep_def)
qed

lemma AddTimer_insert_rep:
  assumes rep: "tq_rep L q t xs fs" and p: "tq_timers q p = Some u" "p \<notin> queued L t" "p \<notin> set fs"
    and h: "h = (tq_timers q)(p \<mapsto> CalculateDueTime now u)"
  shows "\<exists>r id q' t' xs'. AddTimer_insert L malloc q p now = Some (r, id, q') \<and> tq_rep L q' t' xs' fs \<and>
    tq_nNextTimerId q' = tq_nNextTimerId q \<and> tq_timers q' = h \<and> ((\<forall>b. malloc b) \<longrightarrow> r = S_OK) \<and>
    (if r = S_OK then id = nId u \<and> queued L t' = insert p (queued L t) \<and>
         (if id_of h p \<in> id_of h ` set xs then xs' = xs else set xs' = insert p (set xs)) \<and>
         inorder t' = takeWhile (\<lambda>y. due L h y \<le> nDueTime (timers_of h p)) (inorder t) @ (p + lay_node L) #
           dropWhile (\<lambda>y. due L h y \<le> nDueTime (timers_of h p)) (inorder t)
     else r = E_OUTOFMEMORY \<and> id = 0 \<and> t' = t \<and> xs' = xs \<and> id_of h p \<notin> id_of h ` set xs)"
proof -
  let ?q = "q\<lparr>tq_timers := h\<rparr>"
  have null: "p \<noteq> NULL"
    using rep p(1) by (auto simp: tq_rep_def heap_ok_def)
  have rep': "tq_rep L ?q t xs fs"
    unfolding h using p by (intro tq_rep_write [OF rep]) auto
  have pxs: "p \<notin> set xs" and dom: "p \<in> dom h"
    using rep p(2) h by (auto simp: tq_rep_def)
  have heap: "heap_ok L h (rb_nodes (tq_cTree q))" and tree: "tree_ok L h (tq_cTree q) t" and list: "list_ok h (tq_cSortedByIdList q) xs"
    using rep' by (simp_all add: tq_rep_def)
  have len: "length xs < 2 ^ 60"
    using list_length(2) [OF rep', of p] dom pxs by simp
  obtain ok dup A' where ins: "al_SortedInsert (list_env malloc) (tq_cSortedByIdList q) p (Some (InsertByIdCompareFunc (timers_of h))) True =
        Some (ok, dup, A', [])"
      "if id_of h p \<in> id_of h ` set xs then ok \<and> A' = tq_cSortedByIdList q
       else if ok then \<exists>xs'. list_ok h A' xs' \<and> set xs' = insert p (set xs) else A' = tq_cSortedByIdList q" "(\<forall>b. malloc b) \<longrightarrow> ok"
    using insert_by_id [OF list len, of malloc p] by blast
  obtain T' t' where tr: "rb_Insert (lay_tree L) (tq_cTree q) (p + lay_node L) (CTimer_InsertCompareFunc (lay_node L) (timers_of h)) True =
        Some (True, NULL, T')" "tree_ok L h T' t'" "queued L t' = insert p (queued L t)" "heap_ok L h (rb_nodes T')"
      "inorder t' = takeWhile (\<lambda>y. due L h y \<le> nDueTime (timers_of h p)) (inorder t) @ (p + lay_node L) #
        dropWhile (\<lambda>y. due L h y \<le> nDueTime (timers_of h p)) (inorder t)"
    using tree_insert [OF heap tree dom p(2)] by blast
  have run: "AddTimer_insert L malloc q p now =
      (if ok then Some (S_OK, nId u, ?q\<lparr>tq_cSortedByIdList := A', tq_cTree := T'\<rparr>)
       else Some (E_OUTOFMEMORY, 0, ?q\<lparr>tq_cSortedByIdList := A'\<rparr>))"
    using null p(1) ins(1) tr(1) live_ids_rep [OF rep'] unfolding AddTimer_insert_def
    by (simp add: store_Some h [symmetric]) (simp add: h load_nonnull CalculateDueTime_def)
  show ?thesis
  proof (cases ok)
    case False
    then have A: "A' = tq_cSortedByIdList q" and new: "id_of h p \<notin> id_of h ` set xs"
      using ins(2) by (auto split: if_splits)
    then show ?thesis
      using run False rep' ins(3)
      by (intro exI [of _ E_OUTOFMEMORY] exI [of _ 0] exI [of _ ?q] exI [of _ t] exI [of _ xs]) auto
  next
    case True
    obtain xs' where xs': "list_ok h A' xs'" "set xs' \<subseteq> insert p (set xs)"
        "if id_of h p \<in> id_of h ` set xs then xs' = xs else set xs' = insert p (set xs)"
    proof (cases "id_of h p \<in> id_of h ` set xs")
      case False
      then show thesis
        using that ins(2) True by auto
    qed (use that [of xs] ins(2) list in auto)
    let ?q' = "?q\<lparr>tq_cSortedByIdList := A', tq_cTree := T'\<rparr>"
    have "tq_rep L ?q' t' xs' fs"
      using rep' tr(2,3,4) xs'(1,2) p(3) by (auto simp: tq_rep_def)
    then show ?thesis
      using run True tr(3,5) xs'(3)
      by (intro exI [of _ S_OK] exI [of _ "nId u"] exI [of _ ?q'] exI [of _ t'] exI [of _ xs']) simp
  qed
qed


lemma RemoveTimer_cancel_none:
  assumes rep: "tq_rep L q t xs fs" and "sint n \<notin> id_of (tq_timers q) ` set xs"
  shows "RemoveTimer_cancel L q inside n = Some (NULL, False, q)"
proof -
  have "list_ok (tq_timers q) (tq_cSortedByIdList q) xs"
    using rep by (simp add: tq_rep_def)
  then have "al_BinarySearch (tq_cSortedByIdList q) n (Some (SearchByIdCompareFunc (timers_of (tq_timers q)))) = Some (-1)"
    using find_by_id [of "tq_timers q" "tq_cSortedByIdList q" xs n] assms(2) by auto
  then show ?thesis
    using live_ids_rep [OF rep] by (simp add: RemoveTimer_cancel_def)
qed

lemma RemoveTimer_cancel_rep:
  assumes rep: "tq_rep L q t xs fs" and "sint n \<in> id_of (tq_timers q) ` set xs"
  shows "\<exists>p u q' t'. p \<in> set xs \<and> tq_timers q p = Some u \<and> nId u = n \<and>
    RemoveTimer_cancel L q inside n = Some (p, nFlags u AND FLAG_Running \<noteq> 0, q') \<and> tq_rep L q' t' (remove1 p xs) fs \<and>
    tq_nNextTimerId q' = tq_nNextTimerId q \<and> tq_timers q' = (tq_timers q)(p \<mapsto> snd (SetAsCanceled inside u)) \<and>
    queued L t' = queued L t - {p} \<and> inorder t' = remove1 (p + lay_node L) (inorder t)"
proof -
  let ?h = "tq_timers q" and ?A = "tq_cSortedByIdList q"
  have heap: "heap_ok L ?h (rb_nodes (tq_cTree q))" and tree: "tree_ok L ?h (tq_cTree q) t" and list: "list_ok ?h ?A xs"
    using rep by (simp_all add: tq_rep_def)
  obtain i where i: "al_BinarySearch ?A n (Some (SearchByIdCompareFunc (timers_of ?h))) = Some i"
      "unat i < length xs" "id_of ?h (xs ! unat i) = sint n" "i \<noteq> -1"
    using find_by_id [OF list, of n] assms(2) by auto
  define p where "p = xs ! unat i"
  have p: "p \<in> set xs" "p \<in> queued L t"
    using i(2) rep by (auto simp: p_def tq_rep_def)
  then obtain u where u: "?h p = Some u"
    using queued_dom [OF rep] by blast
  have id: "nId u = n"
    using i(3) u by (intro signed_word_eqI) (simp add: id_of_def p_def [symmetric])
  have free: "p \<notin> set fs" "p \<noteq> NULL"
    using p(2) rep u by (auto simp: tq_rep_def heap_ok_def)
  obtain A' dead where A': "al_RemoveElementAt ?A i 1 True = Some (True, A', dead)" "list_ok ?h A' (remove1 p xs)"
    using remove_by_index [OF list i(2)] p_def by blast
  obtain T' t' where T': "rb_node_Remove (tq_cTree q) (p + lay_node L) = Some T'" "tree_ok L ?h T' t'" "queued L t' = queued L t - {p}"
      "heap_ok L ?h (rb_nodes T')" "inorder t' = remove1 (p + lay_node L) (inorder t)"
    using tree_remove [OF heap tree p(2)] by blast
  have get: "al_GetElementAt ?A i = Some p"
    using al_GetElementAt_rep [of ?A xs i] list i(2) by (simp add: list_ok_def p_def)
  let ?q = "q\<lparr>tq_cSortedByIdList := A', tq_cTree := T'\<rparr>" and ?v = "snd (SetAsCanceled inside u)"
  have "distinct xs"
    using list by (auto simp: list_ok_def distinct_map)
  then have "tq_rep L ?q t' (remove1 p xs) fs"
    using rep A'(2) T'(2-4) by (auto simp: tq_rep_def)
  then have "tq_rep L (?q\<lparr>tq_timers := (tq_timers ?q)(p \<mapsto> ?v)\<rparr>) t' (remove1 p xs) fs"
    using u free T'(3) by (intro tq_rep_write) auto
  moreover have "RemoveTimer_cancel L q inside n =
      Some (p, nFlags u AND FLAG_Running \<noteq> 0, ?q\<lparr>tq_timers := (tq_timers q)(p \<mapsto> ?v)\<rparr>)"
    unfolding RemoveTimer_cancel_def i(1) live_ids_rep [OF rep] using i(4) get u free(2) A'(1) T'(1)
    by (simp add: load_nonnull SetAsCanceled_def Let_def)
  ultimately show ?thesis
    using p(1) u id T'(3,5)
    by (intro exI [of _ p] exI [of _ u] exI [of _ "?q\<lparr>tq_timers := (tq_timers q)(p \<mapsto> ?v)\<rparr>"] exI [of _ t']) simp
qed

text \<open>The timer that is due first fires when it is expired; no queued timer is cancelled.\<close>

lemma ProcessQueue_pick_rep:
  assumes rep: "tq_rep L q t xs fs" and live: "\<And>p. p \<in> queued L t \<Longrightarrow> nFlags (timers_of (tq_timers q) p) AND FLAG_Canceled = 0"
    and now: "now = MX_100NS_TO_MILLISECONDS currTime"
  shows "case inorder t of
      [] \<Rightarrow> ProcessQueue_pick L q currTime = Some (NULL, INFINITE, q)
    | x # ys \<Rightarrow> (\<exists>p u. x = p + lay_node L \<and> p \<in> queued L t \<and> p \<noteq> NULL \<and> tq_timers q p = Some u \<and>
        (if nDueTime u \<le> now then \<exists>q'. ProcessQueue_pick L q currTime = Some (p, INFINITE, q') \<and> tq_rep L q' t xs fs \<and>
           q' = q\<lparr>tq_timers := (tq_timers q)(p \<mapsto> u\<lparr>nFlags := nFlags u OR FLAG_Running\<rparr>)\<rparr>
         else ProcessQueue_pick L q currTime = Some (NULL, timeout_until (nDueTime u) now, q)))"
proof -
  have tree: "rb_rep (lay_tree L) (tq_cTree q) t"
    using rep by (simp add: tq_rep_def tree_ok_def)
  show ?thesis
  proof (cases "inorder t")
    case Nil
    then show ?thesis
      using rb_GetFirst_rep [OF tree] by (simp add: ProcessQueue_pick_def check_timer.simps)
  next
    case (Cons x ys)
    then obtain p where p: "x = p + lay_node L" "p \<in> queued L t"
      using queued_image [OF rep] by auto
    then obtain u where u: "tq_timers q p = Some u"
      using queued_dom [OF rep] by blast
    have null: "p \<noteq> NULL" "p \<notin> set fs"
      using p(2) u rep by (auto simp: tq_rep_def heap_ok_def)
    have pick: "ProcessQueue_pick L q currTime = check_timer L q now x"
      using rb_GetFirst_rep [OF tree] Cons now by (simp add: ProcessQueue_pick_def)
    have "CONTAINING_RECORD (lay_node L) x = p" and "nFlags u AND FLAG_Canceled = 0"
      using p u live [of p] by (simp_all add: CONTAINING_RECORD_def)
    then have "check_timer L q now x = (if nDueTime u \<le> now
        then Some (p, INFINITE, q\<lparr>tq_timers := (tq_timers q)(p \<mapsto> u\<lparr>nFlags := nFlags u OR FLAG_Running\<rparr>)\<rparr>)
        else Some (NULL, timeout_until (nDueTime u) now, q))"
      using null(1) p(1) u by (subst check_timer.simps) (simp add: load_nonnull SetAsRunningIfNotCanceled_def)
    moreover have "tq_rep L (q\<lparr>tq_timers := (tq_timers q)(p \<mapsto> u\<lparr>nFlags := nFlags u OR FLAG_Running\<rparr>)\<rparr>) t xs fs"
      using u null by (intro tq_rep_write [OF rep]) auto
    ultimately show ?thesis
      using Cons p u null pick by auto
  qed
qed

text \<open>Tree and heap alone, while the array still has the timer.\<close>

lemma tree_ok_upd:
  assumes "heap_ok L h (rb_nodes T)" and "tree_ok L h T t" and "p \<in> dom h"
    and "p \<in> queued L t \<Longrightarrow> nDueTime v = nDueTime (timers_of h p)"
  shows "tree_ok L (h(p \<mapsto> v)) T t"
proof -
  let ?q = "\<lparr>tq_timers = h, tq_cTree = T, tq_cSortedByIdList = TArrayList, tq_nNextTimerId = 0, tq_lpFirst = NULL, tq_nListCount = 0\<rparr>"
  have "tq_rep L ?q t [] []"
    using assms(1,2) by (simp add: tq_rep_def list_ok_def free_ok_def arr_rep_empty)
  then show ?thesis
    using tree_ok_write [of L ?q t "[]" "[]" p v] assms(3,4) by simp
qed

lemma timers_of_upd: "timers_of (h(p \<mapsto> v)) p = v"
  by simp

lemma ProcessQueue_done_cancelled:
  assumes rep: "tq_rep L q t xs fs" and p: "tq_timers q p = Some u" "p \<notin> queued L t" "p \<notin> set fs"
    and c: "nFlags u AND FLAG_Canceled \<noteq> 0" and v: "v = u\<lparr>nFlags := nFlags u AND NOT FLAG_Running\<rparr>"
  shows "\<exists>q' fs'. ProcessQueue_done L q p wants now = Some q' \<and> tq_rep L q' t xs fs' \<and> tq_nNextTimerId q' = tq_nNextTimerId q \<and>
    (if nFlags u AND FLAG_CanceledInCallback = 0 then fs' = fs \<and> tq_timers q' = (tq_timers q)(p \<mapsto> v)
     else fs' = p # fs \<and> tq_timers q' = (tq_timers q)(p \<mapsto> v\<lparr>lpNextInFreeList := tq_lpFirst q\<rparr>) \<or>
       fs' = fs \<and> tq_timers q' = (tq_timers q)(p := None))"
proof -
  let ?q = "q\<lparr>tq_timers := (tq_timers q)(p \<mapsto> v)\<rparr>"
  have null: "p \<noteq> NULL"
    using rep p(1) by (auto simp: tq_rep_def heap_ok_def)
  have rep': "tq_rep L ?q t xs fs"
    using p by (intro tq_rep_write [OF rep]) auto
  have run: "ProcessQueue_done L q p wants now = (if nFlags u AND FLAG_CanceledInCallback \<noteq> 0 then FreeTimer L ?q p else Some ?q)"
    using null p(1) c by (simp add: ProcessQueue_done_def load_nonnull v)
  show ?thesis
  proof (cases "nFlags u AND FLAG_CanceledInCallback = 0")
    case True
    then show ?thesis
      using run rep' by auto
  next
    case False
    have "tq_timers ?q p = Some v"
      by simp
    then obtain q' fs' where "FreeTimer L ?q p = Some q'" "tq_rep L q' t xs fs'" "tq_nNextTimerId q' = tq_nNextTimerId q"
        "fs' = p # fs \<and> tq_timers q' = (tq_timers q)(p \<mapsto> v\<lparr>lpNextInFreeList := tq_lpFirst q\<rparr>) \<or>
         fs' = fs \<and> tq_timers q' = (tq_timers q)(p := None)"
      using FreeTimer_rep [OF rep' _ p(2,3)] by auto
    then show ?thesis
      using run False by (intro exI [of _ q'] exI [of _ fs']) simp
  qed
qed

text \<open>The array when a timer that leaves it looks itself up.\<close>

lemma forget_id:
  assumes "list_ok h A xs" and "h p = Some u"
  shows "\<exists>i A' xs'. al_BinarySearch A (nId u) (Some (SearchByIdCompareFunc (timers_of h))) = Some i \<and>
    (if i \<noteq> -1 then map_option (\<lambda>(_, list, _). list) (al_RemoveElementAt A i 1 True) else Some A) = Some A' \<and>
    list_ok h A' xs' \<and> set xs' \<subseteq> set xs - {p} \<and> (p \<in> set xs \<longrightarrow> xs' = remove1 p xs)"
proof -
  obtain i where i: "al_BinarySearch A (nId u) (Some (SearchByIdCompareFunc (timers_of h))) = Some i"
      "if sint (nId u) \<in> id_of h ` set xs then unat i < length xs \<and> id_of h (xs ! unat i) = sint (nId u) \<and> i \<noteq> -1 else i = -1"
    using find_by_id [OF assms(1)] by blast
  have d: "distinct (map (id_of h) xs)"
    using assms(1) by (simp add: list_ok_def)
  have own: "id_of h p = sint (nId u)"
    using assms(2) by (simp add: id_of_def)
  show ?thesis
  proof (cases "sint (nId u) \<in> id_of h ` set xs")
    case False
    then have "p \<notin> set xs"
      using own by (metis imageI)
    then show ?thesis
      using i False assms(1) by (intro exI [of _ i] exI [of _ A] exI [of _ xs]) auto
  next
    case True
    then have r: "unat i < length xs" "id_of h (xs ! unat i) = id_of h p" "i \<noteq> -1"
      using i(2) own by auto
    obtain A' dead where A': "al_RemoveElementAt A i 1 True = Some (True, A', dead)" "list_ok h A' (remove1 (xs ! unat i) xs)"
      using remove_by_index [OF assms(1) r(1)] by blast
    have "p = xs ! unat i" if "p \<in> set xs"
      using that r(1,2) d by (auto simp: distinct_map inj_on_def)
    moreover have "set (remove1 (xs ! unat i) xs) = set xs - {xs ! unat i}"
      using d by (auto simp: distinct_map)
    ultimately show ?thesis
      using i(1) r(3) A' by (intro exI [of _ i] exI [of _ A'] exI [of _ "remove1 (xs ! unat i) xs"]) auto
  qed
qed

lemma ProcessQueue_done_stop:
  assumes rep: "tq_rep L q t xs fs" and p: "tq_timers q p = Some u" "p \<in> queued L t" and c: "nFlags u AND FLAG_Canceled = 0"
    and stop: "InvokeCallback u wants \<or> nFlags u AND FLAG_OneShot \<noteq> 0"
  shows "\<exists>q' t' xs' fs'. ProcessQueue_done L q p wants now = Some q' \<and> tq_rep L q' t' xs' fs' \<and> tq_nNextTimerId q' = tq_nNextTimerId q \<and>
    queued L t' = queued L t - {p} \<and> inorder t' = remove1 (p + lay_node L) (inorder t) \<and>
    set xs' \<subseteq> set xs - {p} \<and> (p \<in> set xs \<longrightarrow> xs' = remove1 p xs) \<and>
    (fs' = p # fs \<and> tq_timers q' = (tq_timers q)(p \<mapsto> u\<lparr>lpNextInFreeList := tq_lpFirst q\<rparr>) \<or>
     fs' = fs \<and> tq_timers q' = (tq_timers q)(p := None))"
proof -
  let ?h = "tq_timers q"
  have heap: "heap_ok L ?h (rb_nodes (tq_cTree q))" and tree: "tree_ok L ?h (tq_cTree q) t" and list: "list_ok ?h (tq_cSortedByIdList q) xs"
    using rep by (simp_all add: tq_rep_def)
  have null: "p \<noteq> NULL" and free: "p \<notin> set fs"
    using rep p by (auto simp: tq_rep_def heap_ok_def)
  obtain T' t' where T': "rb_node_Remove (tq_cTree q) (p + lay_node L) = Some T'" "tree_ok L ?h T' t'" "queued L t' = queued L t - {p}"
      "heap_ok L ?h (rb_nodes T')" "inorder t' = remove1 (p + lay_node L) (inorder t)"
    using tree_remove [OF heap tree p(2)] by blast
  obtain i A' xs' where A': "al_BinarySearch (tq_cSortedByIdList q) (nId u) (Some (SearchByIdCompareFunc (timers_of ?h))) = Some i"
      "(if i \<noteq> -1 then map_option (\<lambda>(_, list, _). list) (al_RemoveElementAt (tq_cSortedByIdList q) i 1 True)
        else Some (tq_cSortedByIdList q)) = Some A'"
      "list_ok ?h A' xs'" "set xs' \<subseteq> set xs - {p}" "p \<in> set xs \<longrightarrow> xs' = remove1 p xs"
    using forget_id [OF list p(1)] by blast
  let ?q = "q\<lparr>tq_cTree := T', tq_cSortedByIdList := A'\<rparr>"
  have rep': "tq_rep L ?q t' xs' fs"
    using rep T'(2-4) A'(3,4) by (auto simp: tq_rep_def)
  have "ProcessQueue_done L q p wants now = FreeTimer L ?q p"
    using null p(1) c stop T'(1) A'(1,2) live_ids_rep [OF rep] by (cases "i = -1") (auto simp: ProcessQueue_done_def load_nonnull Let_def)
  moreover obtain q' fs' where "FreeTimer L ?q p = Some q'" "tq_rep L q' t' xs' fs'" "tq_nNextTimerId q' = tq_nNextTimerId q"
      "fs' = p # fs \<and> tq_timers q' = ?h(p \<mapsto> u\<lparr>lpNextInFreeList := tq_lpFirst q\<rparr>) \<or> fs' = fs \<and> tq_timers q' = ?h(p := None)"
    using FreeTimer_rep [OF rep', of p u] p(1) T'(3) free by auto
  ultimately show ?thesis
    using T'(3,5) A'(4,5) by (intro exI [of _ q'] exI [of _ t'] exI [of _ xs'] exI [of _ fs']) simp
qed

lemma ProcessQueue_done_again:
  assumes rep: "tq_rep L q t xs fs" and p: "tq_timers q p = Some u" "p \<in> queued L t" and c: "nFlags u AND FLAG_Canceled = 0"
    and go: "\<not> InvokeCallback u wants" "nFlags u AND FLAG_OneShot = 0"
    and v: "v = (CalculateDueTime now u)\<lparr>nFlags := nFlags u AND NOT FLAG_Running\<rparr>"
  shows "\<exists>q' t'. ProcessQueue_done L q p wants now = Some q' \<and> tq_rep L q' t' xs fs \<and> tq_nNextTimerId q' = tq_nNextTimerId q \<and>
    queued L t' = queued L t \<and> tq_timers q' = (tq_timers q)(p \<mapsto> v)"
proof -
  let ?h = "tq_timers q" and ?w = "CalculateDueTime now u"
  let ?h2 = "?h(p \<mapsto> ?w)" and ?h3 = "?h(p \<mapsto> v)"
  have heap: "heap_ok L ?h (rb_nodes (tq_cTree q))" and tree: "tree_ok L ?h (tq_cTree q) t" and list: "list_ok ?h (tq_cSortedByIdList q) xs"
    using rep by (simp_all add: tq_rep_def)
  have null: "p \<noteq> NULL" and free: "p \<notin> set fs"
    using rep p by (auto simp: tq_rep_def heap_ok_def)
  obtain T' t' where T': "rb_node_Remove (tq_cTree q) (p + lay_node L) = Some T'" "tree_ok L ?h T' t'" "queued L t' = queued L t - {p}"
      "heap_ok L ?h (rb_nodes T')"
    using tree_remove [OF heap tree p(2)] by blast
  have heap2: "heap_ok L ?h2 (rb_nodes T')" and tree2: "tree_ok L ?h2 T' t'"
    using T'(2-4) p(1) by (auto intro!: heap_ok_write tree_ok_upd)
  obtain T2 t2 where T2: "rb_Insert (lay_tree L) T' (p + lay_node L) (CTimer_InsertCompareFunc (lay_node L) (timers_of ?h2)) True = Some (True, NULL, T2)"
      "tree_ok L ?h2 T2 t2" "queued L t2 = insert p (queued L t')" "heap_ok L ?h2 (rb_nodes T2)"
    using tree_insert [OF heap2 tree2, of p] T'(3) by auto
  have queued: "queued L t2 = queued L t"
    using T2(3) T'(3) p(2) by auto
  have h3: "?h2(p \<mapsto> v) = ?h3"
    by simp
  have "tree_ok L ?h3 T2 t2" "heap_ok L ?h3 (rb_nodes T2)"
    using tree_ok_upd [OF T2(4,2), of p v] heap_ok_write [OF T2(4), of p v] unfolding h3 by (simp_all add: v)
  moreover have "list_ok ?h3 (tq_cSortedByIdList q) xs"
    using list p(1) by (intro list_ok_write) (simp_all add: v CalculateDueTime_def)
  moreover have "ProcessQueue_done L q p wants now = Some (q\<lparr>tq_timers := ?h3, tq_cTree := T2\<rparr>)"
    using null p(1) c go T'(1) T2(1) by (simp add: ProcessQueue_done_def load_nonnull v)
  ultimately show ?thesis
    using rep queued free by (auto simp: tq_rep_def free_ok_write)
qed
end
