(* ===== verification/TimedEvent.thy ===== *)
theory TimedEvent
  imports TimedEvent_Rep
begin

unbundle bit_operations_syntax

text \<open>
  The timer queue with its threads (\<open>Source/TimedEvent.cpp\<close>). A thread is somewhere in
  \<open>AddTimer\<close> or \<open>RemoveTimer\<close> or in neither; thread 0 is the worker of the handler, which
  runs \<open>ProcessQueue\<close> and which may call \<open>AddTimer\<close> and \<open>RemoveTimer\<close> only from the callback that
  it has fired. The threads interleave between the sections under a lock in every order.
\<close>

section \<open>Threads\<close>

text \<open>
  Inside \<open>AddTimer\<close>: before an id is taken, and with one; a timer that could not be inserted is
  deleted. Inside \<open>RemoveTimer\<close>: waiting for the end of the callback, and about to free.
\<close>

datatype caller = Idle | NeedId ptr | HasId ptr | Dropping ptr | WaitRun ptr | FreeNow ptr

datatype worker = Scanning | Firing ptr u64

record sys =
  sys_q :: tq
  sys_calls :: "nat \<Rightarrow> caller"
  sys_worker :: worker

definition sys_init :: sys where
  "sys_init = \<lparr>sys_q = tq_init, sys_calls = (\<lambda>_. Idle), sys_worker = Scanning\<rparr>"

text \<open>
  What a thread does next. \<open>Alloc\<close> carries the block that the heap would hand out and the arguments
  of \<open>AddTimer\<close>, \<open>Insert\<close> the answers of the allocator and the time, \<open>Remove\<close> the id, \<open>Pick\<close> the time,
  \<open>Fired\<close> what the callback asked for.
\<close>

datatype event = Alloc nat ptr nat u32 ptr bool | TakeId nat | Insert nat "u64 \<Rightarrow> bool" u64 | Drop nat
  | Remove nat u32 | Poll nat | Free nat | Pick u64 | Fired bool

fun may_call :: "sys \<Rightarrow> nat \<Rightarrow> bool" where
  "may_call s i \<longleftrightarrow> (i = 0 \<longrightarrow> sys_worker s \<noteq> Scanning)"

text \<open>The block is new, aligned and in the address space, or null.\<close>

definition new_block :: "tq \<Rightarrow> ptr \<Rightarrow> bool" where
  "new_block q new \<longleftrightarrow> new = NULL \<or> tq_timers q new = None \<and> new < 2 ^ 64 \<and> 16 dvd new"

fun enabled :: "sys \<Rightarrow> event \<Rightarrow> bool" where
  "enabled s (Alloc i new cb ms ud once) \<longleftrightarrow> sys_calls s i = Idle \<and> may_call s i \<and> new_block (sys_q s) new \<and>
     AddTimer_check 1 True cb = S_OK"
| "enabled s (TakeId i) \<longleftrightarrow> (case sys_calls s i of NeedId _ \<Rightarrow> True | _ \<Rightarrow> False)"
| "enabled s (Insert i malloc now) \<longleftrightarrow> (case sys_calls s i of HasId _ \<Rightarrow> True | _ \<Rightarrow> False)"
| "enabled s (Drop i) \<longleftrightarrow> (case sys_calls s i of Dropping _ \<Rightarrow> True | _ \<Rightarrow> False)"
| "enabled s (Remove i n) \<longleftrightarrow> sys_calls s i = Idle \<and> may_call s i \<and> n \<noteq> 0"
| "enabled s (Poll i) \<longleftrightarrow> (case sys_calls s i of WaitRun _ \<Rightarrow> True | _ \<Rightarrow> False)"
| "enabled s (Free i) \<longleftrightarrow> (case sys_calls s i of FreeNow _ \<Rightarrow> True | _ \<Rightarrow> False)"
| "enabled s (Pick now) \<longleftrightarrow> sys_worker s = Scanning"
| "enabled s (Fired wants) \<longleftrightarrow> sys_worker s \<noteq> Scanning \<and> sys_calls s 0 = Idle"

text \<open>Where \<open>RemoveTimer\<close> goes on after its section under the lock.\<close>

definition RemoveTimer_next :: "bool \<Rightarrow> ptr \<Rightarrow> bool \<Rightarrow> caller" where
  "RemoveTimer_next bInsideCallback lpTimer bIsRunning =
     (if lpTimer \<noteq> NULL then
        (if \<not> bIsRunning then FreeNow lpTimer
         else if \<not> bInsideCallback then WaitRun lpTimer
         else Idle)
      else Idle)"

definition go :: "nat \<Rightarrow> caller \<Rightarrow> tq \<Rightarrow> sys \<Rightarrow> sys" where
  "go i c q s = s\<lparr>sys_q := q, sys_calls := (sys_calls s)(i := c)\<rparr>"

fun held :: "caller \<Rightarrow> ptr" where
  "held Idle = NULL"
| "held (NeedId p) = p"
| "held (HasId p) = p"
| "held (Dropping p) = p"
| "held (WaitRun p) = p"
| "held (FreeNow p) = p"

text \<open>One step; \<open>None\<close> when the code touches an object that does not exist.\<close>

fun run :: "layout \<Rightarrow> sys \<Rightarrow> event \<Rightarrow> sys option" where
  "run L s (Alloc i new cb ms ud once) = do {
     (p, q) \<leftarrow> AllocTimer L (sys_q s) new cb ms ud once;
     Some (go i (if p = NULL then Idle else NeedId p) q s)
   }"
| "run L s (TakeId i) = do {
     (again, q) \<leftarrow> AddTimer_id (sys_q s) (held (sys_calls s i));
     Some (go i (if again then NeedId (held (sys_calls s i)) else HasId (held (sys_calls s i))) q s)
   }"
| "run L s (Insert i malloc now) = do {
     (r, _, q) \<leftarrow> AddTimer_insert L malloc (sys_q s) (held (sys_calls s i)) now;
     Some (go i (if r = S_OK then Idle else Dropping (held (sys_calls s i))) q s)
   }"
| "run L s (Drop i) = map_option (\<lambda>q. go i Idle q s) (delete_timer L (sys_q s) (held (sys_calls s i)))"
| "run L s (Remove i n) = do {
     (lpTimer, bIsRunning, q) \<leftarrow> RemoveTimer_cancel L (sys_q s) (i = 0) n;
     Some (go i (RemoveTimer_next (i = 0) lpTimer bIsRunning) q s)
   }"
| "run L s (Poll i) = do {
     busy \<leftarrow> WaitWhileRunning (sys_q s) (held (sys_calls s i));
     Some (if busy then s else go i (FreeNow (held (sys_calls s i))) (sys_q s) s)
   }"
| "run L s (Free i) = map_option (\<lambda>q. go i Idle q s) (FreeTimer L (sys_q s) (held (sys_calls s i)))"
| "run L s (Pick now) = do {
     (lpTimer, _, q) \<leftarrow> ProcessQueue_pick L (sys_q s) now;
     Some (s\<lparr>sys_q := q, sys_worker := (if lpTimer = NULL then Scanning else Firing lpTimer now)\<rparr>)
   }"
| "run L s (Fired wants) = (case sys_worker s of
     Scanning \<Rightarrow> Some s
   | Firing p now \<Rightarrow> map_option (\<lambda>q. s\<lparr>sys_q := q, sys_worker := Scanning\<rparr>) (ProcessQueue_done L (sys_q s) p wants now))"

inductive tq_step :: "layout \<Rightarrow> sys \<Rightarrow> sys \<Rightarrow> bool" for L where
  step: "enabled s e \<Longrightarrow> run L s e = Some s' \<Longrightarrow> tq_step L s s'"

inductive tq_reach :: "layout \<Rightarrow> sys \<Rightarrow> bool" for L where
  init: "tq_reach L sys_init"
| step: "tq_reach L s \<Longrightarrow> tq_step L s s' \<Longrightarrow> tq_reach L s'"

section \<open>Who owns a timer\<close>

datatype role = Queued | InFree | Held nat | Orphan

definition firing :: "worker \<Rightarrow> ptr \<Rightarrow> bool" where
  "firing w p \<longleftrightarrow> (case w of Scanning \<Rightarrow> False | Firing r _ \<Rightarrow> r = p)"

text \<open>
  What the flags of a timer say, by its owner. An orphan was cancelled by its own callback, so only
  the worker still has it.
\<close>

definition flag :: "u32 \<Rightarrow> CTimer \<Rightarrow> bool" where
  "flag f u \<longleftrightarrow> nFlags u AND f \<noteq> 0"

definition obj_ok :: "(nat \<Rightarrow> caller) \<Rightarrow> bool \<Rightarrow> CTimer \<Rightarrow> role \<Rightarrow> bool" where
  "obj_ok calls fires u r \<longleftrightarrow> (case r of
     Queued \<Rightarrow> \<not> flag FLAG_Canceled u \<and> \<not> flag FLAG_CanceledInCallback u \<and> flag FLAG_Running u = fires
   | InFree \<Rightarrow> \<not> fires
   | Held i \<Rightarrow> (case calls i of
        WaitRun _ \<Rightarrow> i \<noteq> 0 \<and> flag FLAG_Canceled u \<and> \<not> flag FLAG_CanceledInCallback u \<and> flag FLAG_Running u = fires
      | NeedId _ \<Rightarrow> \<not> fires \<and> \<not> flag FLAG_Canceled u \<and> \<not> flag FLAG_CanceledInCallback u \<and> \<not> flag FLAG_Running u
      | HasId _ \<Rightarrow> \<not> fires \<and> \<not> flag FLAG_Canceled u \<and> \<not> flag FLAG_CanceledInCallback u \<and> \<not> flag FLAG_Running u
      | _ \<Rightarrow> \<not> fires)
   | Orphan \<Rightarrow> fires \<and> flag FLAG_Canceled u \<and> flag FLAG_CanceledInCallback u)"

definition owned :: "CTimer store \<Rightarrow> (nat \<Rightarrow> caller) \<Rightarrow> worker \<Rightarrow> (ptr \<Rightarrow> role option) \<Rightarrow> bool" where
  "owned h calls w role \<longleftrightarrow> dom role = dom h \<and> NULL \<notin> dom h \<and>
     (\<forall>i p. role p = Some (Held i) \<longleftrightarrow> held (calls i) = p \<and> p \<noteq> NULL) \<and> (\<forall>i. calls i \<noteq> Idle \<longrightarrow> held (calls i) \<noteq> NULL) \<and>
     (\<forall>p. firing w p \<longrightarrow> p \<in> dom h) \<and> (\<forall>p r. role p = Some r \<longrightarrow> obj_ok calls (firing w p) (timers_of h p) r)"

definition tq_view :: "layout \<Rightarrow> sys \<Rightarrow> tree \<Rightarrow> ptr list \<Rightarrow> ptr list \<Rightarrow> (ptr \<Rightarrow> role option) \<Rightarrow> bool" where
  "tq_view L s t xs fs role \<longleftrightarrow> tq_rep L (sys_q s) t xs fs \<and> owned (tq_timers (sys_q s)) (sys_calls s) (sys_worker s) role \<and>
     queued L t = {p. role p = Some Queued} \<and> set fs = {p. role p = Some InFree} \<and>
     (sys_worker s = Scanning \<longrightarrow> sys_calls s 0 = Idle)"

definition tq_inv :: "layout \<Rightarrow> sys \<Rightarrow> bool" where
  "tq_inv L s \<longleftrightarrow> (\<exists>t xs fs role. tq_view L s t xs fs role)"

section \<open>The invariant\<close>

lemma owned_update:
  assumes own: "owned h calls w role" and p: "p \<noteq> NULL"
    and h': "\<And>r. r \<noteq> p \<Longrightarrow> h' r = h r" and w': "\<And>r. r \<noteq> p \<Longrightarrow> firing w' r = firing w r"
    and i: "calls i = Idle \<or> held (calls i) = p" "c = Idle \<or> held c = p"
    and x: "\<And>j. j \<noteq> i \<Longrightarrow> role p \<noteq> Some (Held j)" "\<And>j. j \<noteq> i \<Longrightarrow> x \<noteq> Some (Held j)" "x = Some (Held i) \<longleftrightarrow> held c = p"
    and dom: "x = None \<longleftrightarrow> h' p = None" "firing w' p \<Longrightarrow> h' p \<noteq> None"
    and ok: "\<And>r. x = Some r \<Longrightarrow> obj_ok (calls(i := c)) (firing w' p) (timers_of h' p) r"
  shows "owned h' (calls(i := c)) w' (role(p := x))"
proof -
  have doms: "dom role = dom h" "NULL \<notin> dom h" and holds: "\<And>j r. role r = Some (Held j) \<longleftrightarrow> held (calls j) = r \<and> r \<noteq> NULL"
    and busy: "\<And>j. calls j \<noteq> Idle \<Longrightarrow> held (calls j) \<noteq> NULL"
    and fires: "\<And>r. firing w r \<Longrightarrow> r \<in> dom h" and oks: "\<And>r y. role r = Some y \<Longrightarrow> obj_ok calls (firing w r) (timers_of h r) y"
    using own by (auto simp: owned_def)
  have "(r \<in> dom (role(p := x))) = (r \<in> dom h')" for r
    using doms(1) dom(1) h' [of r] by (cases "r = p") auto
  moreover have "NULL \<notin> dom h'"
    using doms(2) h' [of NULL] p by auto
  moreover have "(role(p := x)) r = Some (Held j) \<longleftrightarrow> held ((calls(i := c)) j) = r \<and> r \<noteq> NULL" for j r
    using holds [of r j] holds [of p j] holds [of r i] x i p by (cases "r = p"; cases "j = i") auto
  moreover have "held ((calls(i := c)) j) \<noteq> NULL" if "(calls(i := c)) j \<noteq> Idle" for j
    using that busy [of j] i(2) p by (cases "j = i") auto
  moreover have "r \<in> dom h'" if "firing w' r" for r
    using that dom(2) fires [of r] h' [of r] w' [of r] by (cases "r = p") auto
  moreover have "obj_ok (calls(i := c)) (firing w' r) (timers_of h' r) y" if "(role(p := x)) r = Some y" for r y
  proof (cases "r = p")
    case True
    then show ?thesis
      using that ok by simp
  next
    case False
    then have "role r = Some y"
      using that by simp
    moreover have "y \<noteq> Held i"
      using calculation holds [of r i] i(1) False by auto
    ultimately show ?thesis
      using oks [of r y] h' [OF False] w' [OF False] by (auto simp: obj_ok_def timers_of_def split: role.splits)
  qed
  ultimately show ?thesis
    unfolding owned_def by blast
qed

lemma role_sets:
  "x = Some y \<Longrightarrow> {r. (role(p := x)) r = Some y} = insert p {r. role r = Some y}"
  "x \<noteq> Some y \<Longrightarrow> {r. (role(p := x)) r = Some y} = {r. role r = Some y} - {p}"
  by auto

text \<open>One timer and at most one thread change.\<close>

lemma tq_inv_change:
  assumes view: "tq_view L s t xs fs role" and rep: "tq_rep L q' t' xs' fs'" and idle: "w' = Scanning \<Longrightarrow> ((sys_calls s)(i := c)) 0 = Idle"
    and q: "queued L t' = (if x = Some Queued then insert p (queued L t) else queued L t - {p})"
    and f: "set fs' = (if x = Some InFree then insert p (set fs) else set fs - {p})"
    and p: "p \<noteq> NULL" and h': "\<And>r. r \<noteq> p \<Longrightarrow> tq_timers q' r = tq_timers (sys_q s) r"
    and w': "\<And>r. r \<noteq> p \<Longrightarrow> firing w' r = firing (sys_worker s) r"
    and i: "sys_calls s i = Idle \<or> held (sys_calls s i) = p" "c = Idle \<or> held c = p"
    and x: "\<And>j. j \<noteq> i \<Longrightarrow> role p \<noteq> Some (Held j)" "\<And>j. j \<noteq> i \<Longrightarrow> x \<noteq> Some (Held j)" "x = Some (Held i) \<longleftrightarrow> held c = p"
    and dom: "x = None \<longleftrightarrow> tq_timers q' p = None" "firing w' p \<Longrightarrow> tq_timers q' p \<noteq> None"
    and ok: "\<And>r. x = Some r \<Longrightarrow> obj_ok ((sys_calls s)(i := c)) (firing w' p) (timers_of (tq_timers q') p) r"
  shows "tq_inv L \<lparr>sys_q = q', sys_calls = (sys_calls s)(i := c), sys_worker = w'\<rparr>"
proof -
  have own: "owned (tq_timers (sys_q s)) (sys_calls s) (sys_worker s) role"
    and sets: "queued L t = {r. role r = Some Queued}" "set fs = {r. role r = Some InFree}"
    using view by (simp_all add: tq_view_def)
  have "owned (tq_timers q') ((sys_calls s)(i := c)) w' (role(p := x))"
    using own p h' w' i x dom ok by (rule owned_update)
  moreover have "queued L t' = {r. (role(p := x)) r = Some Queued}" "set fs' = {r. (role(p := x)) r = Some InFree}"
    unfolding q f sets by (auto simp: role_sets)
  ultimately show ?thesis
    unfolding tq_inv_def tq_view_def using rep idle by (intro exI [of _ t'] exI [of _ xs'] exI [of _ fs'] exI [of _ "role(p := x)"]) simp
qed

lemma go_eq: "go i c q s = \<lparr>sys_q = q, sys_calls = (sys_calls s)(i := c), sys_worker = sys_worker s\<rparr>"
  by (simp add: go_def)

lemma tq_inv_init: "lay_tree L \<noteq> NULL \<Longrightarrow> tq_inv L sys_init"
proof -
  assume "lay_tree L \<noteq> NULL"
  then have "tq_rep L (sys_q sys_init) Lf [] []"
    by (simp add: sys_init_def tq_rep_init)
  moreover have "owned (tq_timers (sys_q sys_init)) (sys_calls sys_init) (sys_worker sys_init) Map.empty"
    by (auto simp: sys_init_def owned_def firing_def tq_init_def)
  ultimately show ?thesis
    unfolding tq_inv_def tq_view_def by (intro exI [of _ Lf] exI [of _ "[]"] exI [of _ Map.empty]) (simp add: queued_def sys_init_def)
qed

text \<open>What the invariant says of the timer that a thread has in its hands.\<close>

lemma owned_held:
  assumes "owned h calls w role" and "held (calls i) = p" and "p \<noteq> NULL"
  shows "\<exists>u. h p = Some u \<and> role p = Some (Held i) \<and> obj_ok calls (firing w p) u (Held i)"
proof -
  have r: "role p = Some (Held i)" and d: "dom role = dom h"
    using assms by (auto simp: owned_def)
  then obtain u where "h p = Some u"
    by (metis domD domI)
  then show ?thesis
    using assms(1) r unfolding owned_def by (metis timers_of_Some)
qed

lemma owned_by:
  assumes "owned h calls w role" and "role p = Some r"
  shows "\<exists>u. h p = Some u \<and> p \<noteq> NULL \<and> obj_ok calls (firing w p) u r"
proof -
  have d: "dom role = dom h" "NULL \<notin> dom h"
    using assms(1) by (auto simp: owned_def)
  then obtain u where "h p = Some u"
    using assms(2) by (metis domD domI)
  then show ?thesis
    using assms d unfolding owned_def by (metis domI timers_of_Some)
qed

lemma held_busy: "(case c of NeedId _ \<Rightarrow> True | _ \<Rightarrow> False) \<longleftrightarrow> (\<exists>p. c = NeedId p)"
  "(case c of HasId _ \<Rightarrow> True | _ \<Rightarrow> False) \<longleftrightarrow> (\<exists>p. c = HasId p)"
  "(case c of Dropping _ \<Rightarrow> True | _ \<Rightarrow> False) \<longleftrightarrow> (\<exists>p. c = Dropping p)"
  "(case c of WaitRun _ \<Rightarrow> True | _ \<Rightarrow> False) \<longleftrightarrow> (\<exists>p. c = WaitRun p)"
  "(case c of FreeNow _ \<Rightarrow> True | _ \<Rightarrow> False) \<longleftrightarrow> (\<exists>p. c = FreeNow p)"
  by (cases c; simp)+

section \<open>Flags\<close>

lemma flag_bit: "flag FLAG_Running u \<longleftrightarrow> bit (nFlags u) 0" "flag FLAG_Canceled u \<longleftrightarrow> bit (nFlags u) 1"
  "flag FLAG_OneShot u \<longleftrightarrow> bit (nFlags u) 2" "flag FLAG_CanceledInCallback u \<longleftrightarrow> bit (nFlags u) 3"
  using and_exp_eq_0_iff_not_bit [of "nFlags u" 0] and_exp_eq_0_iff_not_bit [of "nFlags u" 1]
    and_exp_eq_0_iff_not_bit [of "nFlags u" 2] and_exp_eq_0_iff_not_bit [of "nFlags u" 3]
  by (simp_all add: flag_def)

lemma flag_setup [simp]:
  "\<not> flag FLAG_Running (Setup ms cb ud once)" "\<not> flag FLAG_Canceled (Setup ms cb ud once)"
  "\<not> flag FLAG_CanceledInCallback (Setup ms cb ud once)" "flag FLAG_OneShot (Setup ms cb ud once) = once"
  by (simp_all add: flag_def Setup_def)

lemma flag_keys [simp]: "flag f (u\<lparr>nId := n\<rparr>) = flag f u" "flag f (CalculateDueTime now u) = flag f u"
  "flag f (u\<lparr>lpNextInFreeList := x\<rparr>) = flag f u"
  by (simp_all add: flag_def CalculateDueTime_def)

lemma flag_run [simp]:
  "flag FLAG_Running (u\<lparr>nFlags := nFlags u OR FLAG_Running\<rparr>)"
  "flag FLAG_Canceled (u\<lparr>nFlags := nFlags u OR FLAG_Running\<rparr>) = flag FLAG_Canceled u"
  "flag FLAG_CanceledInCallback (u\<lparr>nFlags := nFlags u OR FLAG_Running\<rparr>) = flag FLAG_CanceledInCallback u"
  unfolding flag_bit by (simp_all add: bit_simps)

lemma flag_stop [simp]:
  "\<not> flag FLAG_Running (u\<lparr>nFlags := nFlags u AND NOT FLAG_Running\<rparr>)"
  "flag FLAG_Canceled (u\<lparr>nFlags := nFlags u AND NOT FLAG_Running\<rparr>) = flag FLAG_Canceled u"
  "flag FLAG_CanceledInCallback (u\<lparr>nFlags := nFlags u AND NOT FLAG_Running\<rparr>) = flag FLAG_CanceledInCallback u"
  unfolding flag_bit by (simp_all add: bit_simps)

lemma flag_cancel [simp]:
  "flag FLAG_Canceled (snd (SetAsCanceled inside u))"
  "flag FLAG_Running (snd (SetAsCanceled inside u)) = flag FLAG_Running u"
  "flag FLAG_CanceledInCallback (snd (SetAsCanceled inside u)) \<longleftrightarrow> inside \<or> flag FLAG_CanceledInCallback u"
  unfolding flag_bit by (auto simp: SetAsCanceled_def bit_simps)

lemma flag_stop_num [simp]:
  "\<not> flag FLAG_Running (u\<lparr>nFlags := nFlags u AND - 2\<rparr>)"
  "flag FLAG_Canceled (u\<lparr>nFlags := nFlags u AND - 2\<rparr>) = flag FLAG_Canceled u"
  "flag FLAG_CanceledInCallback (u\<lparr>nFlags := nFlags u AND - 2\<rparr>) = flag FLAG_CanceledInCallback u"
proof -
  have "- 2 = NOT (1 :: u32)"
    by simp
  then show "\<not> flag FLAG_Running (u\<lparr>nFlags := nFlags u AND - 2\<rparr>)"
    "flag FLAG_Canceled (u\<lparr>nFlags := nFlags u AND - 2\<rparr>) = flag FLAG_Canceled u"
    "flag FLAG_CanceledInCallback (u\<lparr>nFlags := nFlags u AND - 2\<rparr>) = flag FLAG_CanceledInCallback u"
    by (simp_all only: flag_stop not_False_eq_True)
qed

section \<open>Every step\<close>

definition safe :: "layout \<Rightarrow> sys \<Rightarrow> event \<Rightarrow> bool" where
  "safe L s e \<longleftrightarrow> (\<exists>s'. run L s e = Some s' \<and> tq_inv L s')"

lemma safe_Alloc:
  assumes inv: "tq_inv L s" and e: "enabled s (Alloc i new cb ms ud once)"
  shows "safe L s (Alloc i new cb ms ud once)"
proof -
  obtain t xs fs role where view: "tq_view L s t xs fs role"
    using inv by (auto simp: tq_inv_def)
  then have rep: "tq_rep L (sys_q s) t xs fs" and own: "owned (tq_timers (sys_q s)) (sys_calls s) (sys_worker s) role"
    and sets: "queued L t = {p. role p = Some Queued}" "set fs = {p. role p = Some InFree}"
    and scan: "sys_worker s = Scanning \<longrightarrow> sys_calls s 0 = Idle"
    by (auto simp: tq_view_def)
  have call: "sys_calls s i = Idle" "i = 0 \<longrightarrow> sys_worker s \<noteq> Scanning" and new: "new_block (sys_q s) new"
    using e by auto
  obtain p q' fs' where a: "AllocTimer L (sys_q s) new cb ms ud once = Some (p, q')"
      "if p = NULL then q' = sys_q s \<and> fs = [] \<and> new = NULL
       else tq_rep L q' t xs fs' \<and> p \<notin> queued L t \<and> p \<notin> set fs' \<and> tq_timers q' = (tq_timers (sys_q s))(p \<mapsto> Setup ms cb ud once) \<and>
         (fs = p # fs' \<or> fs = [] \<and> fs' = [] \<and> p \<notin> dom (tq_timers (sys_q s)))"
    using AllocTimer_rep [OF rep, of new cb ms ud once] new by (auto simp: new_block_def)
  show ?thesis
  proof (cases "p = NULL")
    case True
    then have "run L s (Alloc i new cb ms ud once) = Some s"
      using a call(1) by (simp add: go_def fun_upd_idem)
    then show ?thesis
      using inv by (simp add: safe_def)
  next
    case False
    then have r: "tq_rep L q' t xs fs'" "p \<notin> queued L t" "p \<notin> set fs'" "tq_timers q' = (tq_timers (sys_q s))(p \<mapsto> Setup ms cb ud once)"
        "fs = p # fs' \<or> fs = [] \<and> fs' = [] \<and> p \<notin> dom (tq_timers (sys_q s))"
      using a(2) by auto
    have dom: "dom role = dom (tq_timers (sys_q s))"
      using own by (simp add: owned_def)
    have old: "role p = Some InFree \<or> role p = None"
      using r(5) sets(2) dom by force
    have still: "\<not> firing (sys_worker s) p"
      using old
    proof
      assume "role p = Some InFree"
      then show ?thesis
        using owned_by [OF own, of p InFree] by (auto simp: obj_ok_def)
    next
      assume "role p = None"
      then show ?thesis
        using own unfolding owned_def by (metis domIff)
    qed
    have "tq_inv L \<lparr>sys_q = q', sys_calls = (sys_calls s)(i := NeedId p), sys_worker = sys_worker s\<rparr>"
    proof (rule tq_inv_change [OF view r(1), where p = p and x = "Some (Held i)"])
      show "((sys_calls s)(i := NeedId p)) 0 = Idle" if "sys_worker s = Scanning"
        using that scan call(2) by auto
      show "set fs' = (if Some (Held i) = Some InFree then insert p (set fs) else set fs - {p})"
        using r(3,5) by auto
      show "role p \<noteq> Some (Held j)" for j
        using old by auto
    qed (use still False call(1) r(2,4) in \<open>simp_all add: obj_ok_def\<close>)
    then show ?thesis
      using a(1) False by (simp add: safe_def go_eq)
  qed
qed

lemma tq_view_held:
  assumes view: "tq_view L s t xs fs role" and busy: "sys_calls s i \<noteq> Idle"
  obtains p u where "held (sys_calls s i) = p" "p \<noteq> NULL" "tq_timers (sys_q s) p = Some u" "role p = Some (Held i)"
    "obj_ok (sys_calls s) (firing (sys_worker s) p) u (Held i)" "p \<notin> queued L t" "p \<notin> set fs"
    "i = 0 \<longrightarrow> sys_worker s \<noteq> Scanning" "\<And>j. j \<noteq> i \<Longrightarrow> role p \<noteq> Some (Held j)"
proof -
  let ?p = "held (sys_calls s i)"
  have own: "owned (tq_timers (sys_q s)) (sys_calls s) (sys_worker s) role"
    using view by (simp add: tq_view_def)
  have null: "?p \<noteq> NULL"
    using own busy by (simp add: owned_def)
  obtain u where "tq_timers (sys_q s) ?p = Some u" and r: "role ?p = Some (Held i)"
    and "obj_ok (sys_calls s) (firing (sys_worker s) ?p) u (Held i)"
    using owned_held [OF own refl null] by blast
  moreover have "?p \<notin> queued L t" "?p \<notin> set fs" "i = 0 \<longrightarrow> sys_worker s \<noteq> Scanning"
    using view r busy by (auto simp: tq_view_def)
  ultimately show thesis
    using that [of ?p u] null by simp
qed

text \<open>The thread goes on with its timer, and only the timer has changed.\<close>

lemma tq_inv_hold:
  assumes view: "tq_view L s t xs fs role" and busy: "sys_calls s i \<noteq> Idle" and p: "held (sys_calls s i) = p" "held c = p"
    and rep: "tq_rep L q' t xs fs" and h': "tq_timers q' = (tq_timers (sys_q s))(p \<mapsto> v)"
    and ok: "obj_ok ((sys_calls s)(i := c)) (firing (sys_worker s) p) v (Held i)"
  shows "tq_inv L (go i c q' s)"
proof -
  obtain u where u: "p \<noteq> NULL" "tq_timers (sys_q s) p = Some u" "role p = Some (Held i)" "p \<notin> queued L t" "p \<notin> set fs"
      "i = 0 \<longrightarrow> sys_worker s \<noteq> Scanning" "\<And>j. j \<noteq> i \<Longrightarrow> role p \<noteq> Some (Held j)"
    using tq_view_held [OF view busy] p(1) by metis
  have scan: "sys_worker s = Scanning \<longrightarrow> sys_calls s 0 = Idle"
    using view by (simp add: tq_view_def)
  show ?thesis
    unfolding go_eq
  proof (rule tq_inv_change [OF view rep, where p = p and x = "Some (Held i)"])
    show "((sys_calls s)(i := c)) 0 = Idle" if "sys_worker s = Scanning"
      using that scan u(6) by auto
  qed (use u p ok h' in simp_all)
qed

text \<open>The thread lets its timer go: to the free list, or the object is deleted.\<close>

lemma tq_inv_release:
  assumes view: "tq_view L s t xs fs role" and busy: "sys_calls s i \<noteq> Idle" and p: "held (sys_calls s i) = p"
    and rep: "tq_rep L q' t xs fs'" and still: "\<not> firing (sys_worker s) p"
    and h': "fs' = p # fs \<and> tq_timers q' = (tq_timers (sys_q s))(p \<mapsto> v) \<or>
      fs' = fs \<and> tq_timers q' = (tq_timers (sys_q s))(p := None)"
  shows "tq_inv L (go i Idle q' s)"
proof -
  obtain u where u: "p \<noteq> NULL" "tq_timers (sys_q s) p = Some u" "role p = Some (Held i)" "p \<notin> queued L t" "p \<notin> set fs"
      "i = 0 \<longrightarrow> sys_worker s \<noteq> Scanning" "\<And>j. j \<noteq> i \<Longrightarrow> role p \<noteq> Some (Held j)"
    using tq_view_held [OF view busy] p(1) by metis
  have scan: "sys_worker s = Scanning \<longrightarrow> sys_calls s 0 = Idle"
    using view by (simp add: tq_view_def)
  from h' show ?thesis
  proof
    assume "fs' = p # fs \<and> tq_timers q' = (tq_timers (sys_q s))(p \<mapsto> v)"
    then show ?thesis
      unfolding go_eq using u p still scan
      by (intro tq_inv_change [OF view rep, where p = p and x = "Some InFree"]) (simp_all add: obj_ok_def)
  next
    assume "fs' = fs \<and> tq_timers q' = (tq_timers (sys_q s))(p := None)"
    then show ?thesis
      unfolding go_eq using u p still scan
      by (intro tq_inv_change [OF view rep, where p = p and x = None]) (simp_all add: obj_ok_def)
  qed
qed

lemma safe_TakeId:
  assumes inv: "tq_inv L s" and e: "enabled s (TakeId i)"
  shows "safe L s (TakeId i)"
proof -
  obtain p where call: "sys_calls s i = NeedId p"
    using e by (auto simp: held_busy)
  obtain t xs fs role where view: "tq_view L s t xs fs role"
    using inv by (auto simp: tq_inv_def)
  have busy: "sys_calls s i \<noteq> Idle"
    using call by simp
  obtain u where u: "tq_timers (sys_q s) p = Some u" "p \<notin> queued L t" "p \<notin> set fs"
      "obj_ok (sys_calls s) (firing (sys_worker s) p) u (Held i)"
    using tq_view_held [OF view busy] call by (metis held.simps(2))
  have rep: "tq_rep L (sys_q s) t xs fs"
    using view by (simp add: tq_view_def)
  let ?again = "tq_nNextTimerId (sys_q s) + 1 = 0"
  obtain q' where q': "AddTimer_id (sys_q s) p = Some (?again, q')" "tq_rep L q' t xs fs"
      "tq_timers q' = (tq_timers (sys_q s))(p \<mapsto> u\<lparr>nId := tq_nNextTimerId (sys_q s) + 1\<rparr>)"
    using AddTimer_id_rep [OF rep u(1-3)] by blast
  have "tq_inv L (go i (if ?again then NeedId p else HasId p) q' s)"
    by (rule tq_inv_hold [OF view busy _ _ q'(2,3)]) (use call u(4) in \<open>auto simp: obj_ok_def\<close>)
  then show ?thesis
    using call q'(1) by (simp add: safe_def split: if_splits)
qed

lemma safe_Insert:
  assumes inv: "tq_inv L s" and e: "enabled s (Insert i malloc now)"
  shows "safe L s (Insert i malloc now)"
proof -
  obtain p where call: "sys_calls s i = HasId p"
    using e by (auto simp: held_busy)
  obtain t xs fs role where view: "tq_view L s t xs fs role"
    using inv by (auto simp: tq_inv_def)
  have busy: "sys_calls s i \<noteq> Idle"
    using call by simp
  obtain u where u: "p \<noteq> NULL" "tq_timers (sys_q s) p = Some u" "p \<notin> queued L t" "p \<notin> set fs"
      "obj_ok (sys_calls s) (firing (sys_worker s) p) u (Held i)" "i = 0 \<longrightarrow> sys_worker s \<noteq> Scanning"
      "\<And>j. j \<noteq> i \<Longrightarrow> role p \<noteq> Some (Held j)"
    using tq_view_held [OF view busy] call by (metis held.simps(3))
  have rep: "tq_rep L (sys_q s) t xs fs" and scan: "sys_worker s = Scanning \<longrightarrow> sys_calls s 0 = Idle"
    using view by (simp_all add: tq_view_def)
  let ?v = "CalculateDueTime now u"
  obtain r id q' t' xs' where ins: "AddTimer_insert L malloc (sys_q s) p now = Some (r, id, q')" "tq_rep L q' t' xs' fs"
      "tq_timers q' = (tq_timers (sys_q s))(p \<mapsto> ?v)"
      "if r = S_OK then queued L t' = insert p (queued L t) else t' = t \<and> xs' = xs"
    using AddTimer_insert_rep [OF rep u(2-4) refl, of malloc now] by (metis (no_types, lifting))
  have "tq_inv L (go i (if r = S_OK then Idle else Dropping p) q' s)"
  proof (cases "r = S_OK")
    case True
    then show ?thesis
      unfolding go_eq using u call ins scan
      by (intro tq_inv_change [OF view ins(2), where p = p and x = "Some Queued"]) (simp_all add: obj_ok_def)
  next
    case False
    then have "tq_rep L q' t xs fs"
      using ins(2,4) by simp
    then show ?thesis
      using False call u(5) by (intro tq_inv_hold [OF view busy _ _ _ ins(3)]) (simp_all add: obj_ok_def)
  qed
  then show ?thesis
    using call ins(1) by (simp add: safe_def split: if_splits)
qed

lemma safe_Drop:
  assumes inv: "tq_inv L s" and e: "enabled s (Drop i)"
  shows "safe L s (Drop i)"
proof -
  obtain p where call: "sys_calls s i = Dropping p"
    using e by (auto simp: held_busy)
  obtain t xs fs role where view: "tq_view L s t xs fs role"
    using inv by (auto simp: tq_inv_def)
  have busy: "sys_calls s i \<noteq> Idle"
    using call by simp
  obtain u where u: "tq_timers (sys_q s) p = Some u" "p \<notin> queued L t" "p \<notin> set fs"
      "obj_ok (sys_calls s) (firing (sys_worker s) p) u (Held i)"
    using tq_view_held [OF view busy] call by (metis held.simps(4))
  have rep: "tq_rep L (sys_q s) t xs fs"
    using view by (simp add: tq_view_def)
  obtain q' where q': "delete_timer L (sys_q s) p = Some q'" "tq_rep L q' t xs fs"
      "tq_timers q' = (tq_timers (sys_q s))(p := None)"
    using delete_timer_rep [OF rep _ u(2,3)] u(1) by blast
  have "tq_inv L (go i Idle q' s)"
    by (rule tq_inv_release [OF view busy _ q'(2)]) (use call u(4) q'(3) in \<open>simp_all add: obj_ok_def\<close>)
  then show ?thesis
    using call q'(1) by (simp add: safe_def)
qed

lemma safe_Free:
  assumes inv: "tq_inv L s" and e: "enabled s (Free i)"
  shows "safe L s (Free i)"
proof -
  obtain p where call: "sys_calls s i = FreeNow p"
    using e by (auto simp: held_busy)
  obtain t xs fs role where view: "tq_view L s t xs fs role"
    using inv by (auto simp: tq_inv_def)
  have busy: "sys_calls s i \<noteq> Idle"
    using call by simp
  obtain u where u: "tq_timers (sys_q s) p = Some u" "p \<notin> queued L t" "p \<notin> set fs"
      "obj_ok (sys_calls s) (firing (sys_worker s) p) u (Held i)"
    using tq_view_held [OF view busy] call by (metis held.simps(6))
  have rep: "tq_rep L (sys_q s) t xs fs"
    using view by (simp add: tq_view_def)
  obtain q' fs' where q': "FreeTimer L (sys_q s) p = Some q'" "tq_rep L q' t xs fs'"
      "fs' = p # fs \<and> tq_timers q' = (tq_timers (sys_q s))(p \<mapsto> u\<lparr>lpNextInFreeList := tq_lpFirst (sys_q s)\<rparr>) \<or>
       fs' = fs \<and> tq_timers q' = (tq_timers (sys_q s))(p := None)"
    using FreeTimer_rep [OF rep u(1-3)] by blast
  have "tq_inv L (go i Idle q' s)"
    by (rule tq_inv_release [OF view busy _ q'(2) _ q'(3)]) (use call u(4) in \<open>simp_all add: obj_ok_def\<close>)
  then show ?thesis
    using call q'(1) by (simp add: safe_def)
qed

lemma safe_Poll:
  assumes inv: "tq_inv L s" and e: "enabled s (Poll i)"
  shows "safe L s (Poll i)"
proof -
  obtain p where call: "sys_calls s i = WaitRun p"
    using e by (auto simp: held_busy)
  obtain t xs fs role where view: "tq_view L s t xs fs role"
    using inv by (auto simp: tq_inv_def)
  have busy: "sys_calls s i \<noteq> Idle"
    using call by simp
  obtain u where u: "tq_timers (sys_q s) p = Some u" "p \<noteq> NULL"
      "obj_ok (sys_calls s) (firing (sys_worker s) p) u (Held i)"
    using tq_view_held [OF view busy] call by (metis held.simps(5))
  have rep: "tq_rep L (sys_q s) t xs fs"
    using view by (simp add: tq_view_def)
  have look: "WaitWhileRunning (sys_q s) p = Some (firing (sys_worker s) p)"
    using u call by (simp add: WaitWhileRunning_def load_nonnull obj_ok_def flag_def)
  have "tq_inv L (go i (FreeNow p) (sys_q s) s)" if "\<not> firing (sys_worker s) p"
    by (rule tq_inv_hold [OF view busy _ _ rep, of p _ u]) (use call u that in \<open>simp_all add: obj_ok_def fun_upd_idem\<close>)
  then show ?thesis
    using call look inv by (simp add: safe_def)
qed

lemma safe_Remove:
  assumes inv: "tq_inv L s" and e: "enabled s (Remove i n)"
  shows "safe L s (Remove i n)"
proof -
  obtain t xs fs role where view: "tq_view L s t xs fs role"
    using inv by (auto simp: tq_inv_def)
  then have rep: "tq_rep L (sys_q s) t xs fs" and own: "owned (tq_timers (sys_q s)) (sys_calls s) (sys_worker s) role"
    and sets: "queued L t = {p. role p = Some Queued}" "set fs = {p. role p = Some InFree}"
    and scan: "sys_worker s = Scanning \<longrightarrow> sys_calls s 0 = Idle"
    by (auto simp: tq_view_def)
  have call: "sys_calls s i = Idle" "i = 0 \<longrightarrow> sys_worker s \<noteq> Scanning"
    using e by auto
  show ?thesis
  proof (cases "sint n \<in> id_of (tq_timers (sys_q s)) ` set xs")
    case False
    then have "RemoveTimer_cancel L (sys_q s) (i = 0) n = Some (NULL, False, sys_q s)"
      by (rule RemoveTimer_cancel_none [OF rep])
    then show ?thesis
      using inv call(1) by (simp add: safe_def RemoveTimer_next_def go_def fun_upd_idem)
  next
    case True
    obtain p u q' t' where r: "p \<in> set xs" "tq_timers (sys_q s) p = Some u"
        "RemoveTimer_cancel L (sys_q s) (i = 0) n = Some (p, nFlags u AND FLAG_Running \<noteq> 0, q')" "tq_rep L q' t' (remove1 p xs) fs"
        "tq_timers q' = (tq_timers (sys_q s))(p \<mapsto> snd (SetAsCanceled (i = 0) u))" "queued L t' = queued L t - {p}"
      using RemoveTimer_cancel_rep [OF rep True, of "i = 0"] by blast
    have "p \<in> queued L t"
      using rep r(1) by (auto simp: tq_rep_def)
    then have role: "role p = Some Queued"
      using sets(1) by simp
    then have ok: "obj_ok (sys_calls s) (firing (sys_worker s) p) u Queued" and null: "p \<noteq> NULL"
      using owned_by [OF own role] r(2) by auto
    have free: "p \<notin> set fs"
      using role sets(2) by simp
    have run: "(nFlags u AND FLAG_Running \<noteq> 0) = firing (sys_worker s) p"
      using ok by (simp add: obj_ok_def flag_def)
    let ?c = "RemoveTimer_next (i = 0) p (firing (sys_worker s) p)"
    have "tq_inv L (go i ?c q' s)"
    proof (cases "i = 0 \<and> firing (sys_worker s) p")
      case True
      then show ?thesis
        unfolding go_eq using role ok null free r call scan
        by (intro tq_inv_change [OF view r(4), where p = p and x = "Some Orphan"]) (simp_all add: obj_ok_def RemoveTimer_next_def)
    next
      case False
      have c: "?c = (if firing (sys_worker s) p then WaitRun p else FreeNow p)"
        using False null by (auto simp: RemoveTimer_next_def)
      have idle: "((sys_calls s)(i := ?c)) 0 = Idle" if "sys_worker s = Scanning"
        using that scan call(2) by auto
      have ok': "obj_ok ((sys_calls s)(i := ?c)) (firing (sys_worker s) p) (snd (SetAsCanceled (i = 0) u)) (Held i)"
        using False ok unfolding c by (auto simp: obj_ok_def)
      have held: "held ?c = p"
        unfolding c by simp
      show ?thesis
        unfolding go_eq
        by (rule tq_inv_change [OF view r(4), where p = p and x = "Some (Held i)"])
          (use idle ok' held role null free r(2,5,6) call(1) in \<open>simp_all\<close>)
    qed
    then show ?thesis
      using r(3) unfolding run by (simp add: safe_def)
  qed
qed

text \<open>No queued timer is cancelled, so the worker takes the first one when it is due.\<close>

lemma tq_view_queued:
  assumes view: "tq_view L s t xs fs role" and p: "p \<in> queued L t"
  obtains u where "tq_timers (sys_q s) p = Some u" "p \<noteq> NULL" "role p = Some Queued"
    "obj_ok (sys_calls s) (firing (sys_worker s) p) u Queued"
proof -
  have own: "owned (tq_timers (sys_q s)) (sys_calls s) (sys_worker s) role" and r: "role p = Some Queued"
    using view p by (auto simp: tq_view_def)
  then show thesis
    using owned_by [OF own r] that by blast
qed

lemma tq_view_pick:
  assumes view: "tq_view L s t xs fs role" and now: "now = MX_100NS_TO_MILLISECONDS currTime"
  shows "case inorder t of
      [] \<Rightarrow> ProcessQueue_pick L (sys_q s) currTime = Some (NULL, INFINITE, sys_q s)
    | x # ys \<Rightarrow> (\<exists>p u. x = p + lay_node L \<and> p \<in> queued L t \<and> p \<noteq> NULL \<and> tq_timers (sys_q s) p = Some u \<and>
        (if nDueTime u \<le> now then \<exists>q'. ProcessQueue_pick L (sys_q s) currTime = Some (p, INFINITE, q') \<and> tq_rep L q' t xs fs \<and>
           q' = sys_q s\<lparr>tq_timers := (tq_timers (sys_q s))(p \<mapsto> u\<lparr>nFlags := nFlags u OR FLAG_Running\<rparr>)\<rparr>
         else ProcessQueue_pick L (sys_q s) currTime = Some (NULL, timeout_until (nDueTime u) now, sys_q s)))"
proof (rule ProcessQueue_pick_rep [OF _ _ now])
  show "tq_rep L (sys_q s) t xs fs"
    using view by (simp add: tq_view_def)
  fix p
  assume "p \<in> queued L t"
  then obtain u where "tq_timers (sys_q s) p = Some u" "obj_ok (sys_calls s) (firing (sys_worker s) p) u Queued"
    using tq_view_queued [OF view] by metis
  then show "nFlags (timers_of (tq_timers (sys_q s)) p) AND FLAG_Canceled = 0"
    by (simp add: obj_ok_def flag_def)
qed

text \<open>The worker changes one timer and leaves it with the thread that has it, if there is one.\<close>

lemma tq_inv_work:
  assumes view: "tq_view L s t xs fs role" and rep: "tq_rep L q' t' xs' fs'" and idle: "sys_calls s 0 = Idle"
    and q: "queued L t' = (if x = Some Queued then insert p (queued L t) else queued L t - {p})"
    and f: "set fs' = (if x = Some InFree then insert p (set fs) else set fs - {p})"
    and p: "p \<noteq> NULL" and h': "\<And>r. r \<noteq> p \<Longrightarrow> tq_timers q' r = tq_timers (sys_q s) r"
    and w': "\<And>r. r \<noteq> p \<Longrightarrow> firing w' r = firing (sys_worker s) r"
    and x: "\<And>j. role p = Some (Held j) \<longleftrightarrow> x = Some (Held j)"
    and dom: "x = None \<longleftrightarrow> tq_timers q' p = None" "firing w' p \<Longrightarrow> tq_timers q' p \<noteq> None"
    and ok: "\<And>r. x = Some r \<Longrightarrow> obj_ok (sys_calls s) (firing w' p) (timers_of (tq_timers q') p) r"
  shows "tq_inv L (s\<lparr>sys_q := q', sys_worker := w'\<rparr>)"
proof -
  obtain i where i: "sys_calls s i = Idle \<or> held (sys_calls s i) = p" "\<And>j. j \<noteq> i \<Longrightarrow> x \<noteq> Some (Held j)"
      "x = Some (Held i) \<longleftrightarrow> held (sys_calls s i) = p"
  proof (cases "\<exists>j. x = Some (Held j)")
    case True
    then obtain j where "x = Some (Held j)" "held (sys_calls s j) = p"
      using x view by (auto simp: tq_view_def owned_def)
    then show thesis
      using that [of j] by simp
  next
    case False
    then show thesis
      using that [of 0] idle p by simp
  qed
  have s': "s\<lparr>sys_q := q', sys_worker := w'\<rparr> = \<lparr>sys_q = q', sys_calls = (sys_calls s)(i := sys_calls s i), sys_worker = w'\<rparr>"
    by simp
  show ?thesis
    unfolding s'
    by (rule tq_inv_change [OF view rep _ q f p h' w' i(1,1) _ i(2,3) dom]) (use idle i(2) x ok in simp_all)
qed

lemma safe_pick_due:
  assumes view: "tq_view L s t xs fs role" and scan: "sys_worker s = Scanning" and p: "p \<in> queued L t"
    and u: "tq_timers (sys_q s) p = Some u"
    and q': "q' = sys_q s\<lparr>tq_timers := (tq_timers (sys_q s))(p \<mapsto> u\<lparr>nFlags := nFlags u OR FLAG_Running\<rparr>)\<rparr>" "tq_rep L q' t xs fs"
  shows "tq_inv L (s\<lparr>sys_q := q', sys_worker := Firing p now\<rparr>)"
proof -
  have null: "p \<noteq> NULL" and role: "role p = Some Queued" and ok: "obj_ok (sys_calls s) (firing (sys_worker s) p) u Queued"
    using tq_view_queued [OF view p] u by (metis option.inject)+
  have "sys_calls s 0 = Idle" "p \<notin> set fs"
    using view scan role by (simp_all add: tq_view_def)
  then show ?thesis
    by (intro tq_inv_work [OF view q'(2), where p = p and x = "Some Queued"])
      (use null role ok p scan q'(1) in \<open>auto simp: obj_ok_def firing_def\<close>)
qed

lemma safe_Pick:
  assumes inv: "tq_inv L s" and e: "enabled s (Pick now)"
  shows "safe L s (Pick now)"
proof -
  obtain t xs fs role where view: "tq_view L s t xs fs role"
    using inv by (auto simp: tq_inv_def)
  have scan: "sys_worker s = Scanning"
    using e by simp
  have same: "s\<lparr>sys_q := sys_q s, sys_worker := Scanning\<rparr> = s"
    using scan by simp
  show ?thesis
  proof (cases "inorder t")
    case Nil
    then show ?thesis
      using tq_view_pick [OF view refl, of now] inv same by (simp add: safe_def)
  next
    case (Cons x ys)
    then obtain p u where p: "p \<in> queued L t" "p \<noteq> NULL" "tq_timers (sys_q s) p = Some u"
        "if nDueTime u \<le> MX_100NS_TO_MILLISECONDS now
         then \<exists>q'. ProcessQueue_pick L (sys_q s) now = Some (p, INFINITE, q') \<and> tq_rep L q' t xs fs \<and>
           q' = sys_q s\<lparr>tq_timers := (tq_timers (sys_q s))(p \<mapsto> u\<lparr>nFlags := nFlags u OR FLAG_Running\<rparr>)\<rparr>
         else ProcessQueue_pick L (sys_q s) now = Some (NULL, timeout_until (nDueTime u) (MX_100NS_TO_MILLISECONDS now), sys_q s)"
      using tq_view_pick [OF view refl, of now] by auto
    show ?thesis
    proof (cases "nDueTime u \<le> MX_100NS_TO_MILLISECONDS now")
      case True
      then obtain q' where q': "ProcessQueue_pick L (sys_q s) now = Some (p, INFINITE, q')" "tq_rep L q' t xs fs"
          "q' = sys_q s\<lparr>tq_timers := (tq_timers (sys_q s))(p \<mapsto> u\<lparr>nFlags := nFlags u OR FLAG_Running\<rparr>)\<rparr>"
        using p(4) by auto
      show ?thesis
        using safe_pick_due [OF view scan p(1,3) q'(3,2), of now] q'(1) p(2) by (simp add: safe_def)
    next
      case False
      then show ?thesis
        using p(4) inv same by (simp add: safe_def)
    qed
  qed
qed

text \<open>The owner of the timer that fires.\<close>

lemma tq_view_firing:
  assumes view: "tq_view L s t xs fs role" and w: "sys_worker s = Firing p now"
  obtains u r where "tq_timers (sys_q s) p = Some u" "p \<noteq> NULL" "role p = Some r" "obj_ok (sys_calls s) True u r"
    "r = Queued \<or> r = Orphan \<or> (\<exists>i. r = Held i \<and> sys_calls s i = WaitRun p)"
proof -
  have own: "owned (tq_timers (sys_q s)) (sys_calls s) (sys_worker s) role"
    using view by (simp add: tq_view_def)
  have fires: "firing (sys_worker s) p"
    using w by (simp add: firing_def)
  then have "p \<in> dom role"
    using own by (metis owned_def)
  then obtain r where r: "role p = Some r"
    by blast
  then obtain u where u: "tq_timers (sys_q s) p = Some u" "p \<noteq> NULL" "obj_ok (sys_calls s) True u r"
    using owned_by [OF own r] fires by auto
  have "r = Queued \<or> r = Orphan \<or> (\<exists>i. r = Held i \<and> sys_calls s i = WaitRun p)"
  proof (cases r)
    case (Held i)
    then have "held (sys_calls s i) = p"
      using own r by (auto simp: owned_def)
    then show ?thesis
      using Held u(3,2) by (auto simp: obj_ok_def split: caller.splits)
  qed (use u(3) in \<open>simp_all add: obj_ok_def\<close>)
  then show thesis
    using that u r by blast
qed

lemma safe_Fired:
  assumes inv: "tq_inv L s" and e: "enabled s (Fired wants)"
  shows "safe L s (Fired wants)"
proof -
  obtain p now where w: "sys_worker s = Firing p now" and idle: "sys_calls s 0 = Idle"
    using e by (cases "sys_worker s") auto
  obtain t xs fs role where view: "tq_view L s t xs fs role"
    using inv by (auto simp: tq_inv_def)
  then have rep: "tq_rep L (sys_q s) t xs fs" and sets: "queued L t = {p. role p = Some Queued}" "set fs = {p. role p = Some InFree}"
    by (simp_all add: tq_view_def)
  let ?h = "tq_timers (sys_q s)"
  obtain u r where u: "?h p = Some u" "p \<noteq> NULL" "role p = Some r" "obj_ok (sys_calls s) True u r"
      "r = Queued \<or> r = Orphan \<or> (\<exists>i. r = Held i \<and> sys_calls s i = WaitRun p)"
    using tq_view_firing [OF view w] by blast
  have off: "firing Scanning y = firing (sys_worker s) y" if "y \<noteq> p" for y
    using that w by (simp add: firing_def)
  have on: "\<not> firing Scanning p"
    by (simp add: firing_def)
  have "\<exists>q'. ProcessQueue_done L (sys_q s) p wants now = Some q' \<and> tq_inv L (s\<lparr>sys_q := q', sys_worker := Scanning\<rparr>)"
    using u(5)
  proof (elim disjE exE conjE)
    assume r: "r = Queued"
    then have p: "p \<in> queued L t" and c: "nFlags u AND FLAG_Canceled = 0" and free: "p \<notin> set fs"
      using u(3,4) sets by (simp_all add: obj_ok_def flag_def)
    have clear: "\<not> flag FLAG_Canceled u" "\<not> flag FLAG_CanceledInCallback u"
      using u(4) r by (simp_all add: obj_ok_def)
    show ?thesis
    proof (cases "InvokeCallback u wants \<or> nFlags u AND FLAG_OneShot \<noteq> 0")
      case True
      obtain q' t' xs' fs' where q': "ProcessQueue_done L (sys_q s) p wants now = Some q'" "tq_rep L q' t' xs' fs'"
          "queued L t' = queued L t - {p}" "fs' = p # fs \<and> tq_timers q' = ?h(p \<mapsto> u\<lparr>lpNextInFreeList := tq_lpFirst (sys_q s)\<rparr>) \<or>
           fs' = fs \<and> tq_timers q' = ?h(p := None)"
        using ProcessQueue_done_stop [OF rep u(1) p c True, of now] by blast
      have "tq_inv L (s\<lparr>sys_q := q', sys_worker := Scanning\<rparr>)"
        using q'(4)
      proof
        assume "fs' = p # fs \<and> tq_timers q' = ?h(p \<mapsto> u\<lparr>lpNextInFreeList := tq_lpFirst (sys_q s)\<rparr>)"
        then show ?thesis
          by (intro tq_inv_work [OF view q'(2) idle, where p = p and x = "Some InFree"])
            (use u(2,3) r q'(3) off on in \<open>simp_all add: obj_ok_def\<close>)
      next
        assume "fs' = fs \<and> tq_timers q' = ?h(p := None)"
        then show ?thesis
          by (intro tq_inv_work [OF view q'(2) idle, where p = p and x = None])
            (use u(2,3) r q'(3) off on free in \<open>simp_all add: obj_ok_def\<close>)
      qed
      then show ?thesis
        using q'(1) by blast
    next
      case False
      then have go: "\<not> InvokeCallback u wants" "nFlags u AND FLAG_OneShot = 0"
        by simp_all
      let ?v = "(CalculateDueTime now u)\<lparr>nFlags := nFlags u AND NOT FLAG_Running\<rparr>"
      obtain q' t' where q': "ProcessQueue_done L (sys_q s) p wants now = Some q'" "tq_rep L q' t' xs fs"
          "queued L t' = queued L t" "tq_timers q' = ?h(p \<mapsto> ?v)"
        using ProcessQueue_done_again [OF rep u(1) p c go refl, of now] by blast
      have "flag f ?v = flag f (u\<lparr>nFlags := nFlags u AND NOT FLAG_Running\<rparr>)" for f
        by (simp add: flag_def)
      then have "obj_ok (sys_calls s) False ?v Queued"
        using clear by (simp add: obj_ok_def)
      then have "tq_inv L (s\<lparr>sys_q := q', sys_worker := Scanning\<rparr>)"
        by (intro tq_inv_work [OF view q'(2) idle, where p = p and x = "Some Queued"])
          (use u(2,3) r q'(3,4) off on free p in \<open>simp_all add: insert_absorb\<close>)
      then show ?thesis
        using q'(1) by blast
    qed
  next
    assume r: "r = Orphan"
    then have p: "p \<notin> queued L t" "p \<notin> set fs" and c: "nFlags u AND FLAG_Canceled \<noteq> 0" "nFlags u AND FLAG_CanceledInCallback \<noteq> 0"
      using u(3,4) sets by (simp_all add: obj_ok_def flag_def)
    let ?v = "u\<lparr>nFlags := nFlags u AND NOT FLAG_Running\<rparr>"
    obtain q' fs' where q': "ProcessQueue_done L (sys_q s) p wants now = Some q'" "tq_rep L q' t xs fs'"
        "fs' = p # fs \<and> tq_timers q' = ?h(p \<mapsto> ?v\<lparr>lpNextInFreeList := tq_lpFirst (sys_q s)\<rparr>) \<or> fs' = fs \<and> tq_timers q' = ?h(p := None)"
      using ProcessQueue_done_cancelled [OF rep u(1) p c(1) refl, of wants now] c(2) by auto
    have "tq_inv L (s\<lparr>sys_q := q', sys_worker := Scanning\<rparr>)"
      using q'(3)
    proof
      assume "fs' = p # fs \<and> tq_timers q' = ?h(p \<mapsto> ?v\<lparr>lpNextInFreeList := tq_lpFirst (sys_q s)\<rparr>)"
      then show ?thesis
        by (intro tq_inv_work [OF view q'(2) idle, where p = p and x = "Some InFree"])
          (use u(2,3) r p off on in \<open>simp_all add: obj_ok_def\<close>)
    next
      assume "fs' = fs \<and> tq_timers q' = ?h(p := None)"
      then show ?thesis
        by (intro tq_inv_work [OF view q'(2) idle, where p = p and x = None])
          (use u(2,3) r p off on in \<open>simp_all add: obj_ok_def\<close>)
    qed
    then show ?thesis
      using q'(1) by blast
  next
    fix i
    assume r: "r = Held i" and wait: "sys_calls s i = WaitRun p"
    then have p: "p \<notin> queued L t" "p \<notin> set fs" and c: "nFlags u AND FLAG_Canceled \<noteq> 0" "nFlags u AND FLAG_CanceledInCallback = 0"
      and ok: "i \<noteq> 0" "flag FLAG_Canceled u" "\<not> flag FLAG_CanceledInCallback u"
      using u(3,4) sets by (simp_all add: obj_ok_def flag_def)
    let ?v = "u\<lparr>nFlags := nFlags u AND NOT FLAG_Running\<rparr>"
    obtain q' where q': "ProcessQueue_done L (sys_q s) p wants now = Some q'" "tq_rep L q' t xs fs" "tq_timers q' = ?h(p \<mapsto> ?v)"
      using ProcessQueue_done_cancelled [OF rep u(1) p c(1) refl, of wants now] c(2) by auto
    have "obj_ok (sys_calls s) False ?v (Held i)"
      using ok wait by (simp add: obj_ok_def)
    then have "tq_inv L (s\<lparr>sys_q := q', sys_worker := Scanning\<rparr>)"
      by (intro tq_inv_work [OF view q'(2) idle, where p = p and x = "Some (Held i)"])
        (use u(2,3) r p q'(3) off on in simp_all)
    then show ?thesis
      using q'(1) by blast
  qed
  then show ?thesis
    using w by (auto simp: safe_def)
qed

lemma tq_inv_safe: "tq_inv L s \<Longrightarrow> enabled s e \<Longrightarrow> safe L s e"
  by (cases e)
    (use safe_Alloc safe_TakeId safe_Insert safe_Drop safe_Remove safe_Poll safe_Free safe_Pick safe_Fired in \<open>simp_all only: \<close>)

lemma tq_reach_inv: "tq_reach L s \<Longrightarrow> lay_tree L \<noteq> NULL \<Longrightarrow> tq_inv L s"
proof (induction rule: tq_reach.induct)
  case (step s s')
  from step.hyps(2) obtain e where e: "enabled s e" "run L s e = Some s'"
    by (cases rule: tq_step.cases) blast
  have "safe L s e"
    by (rule tq_inv_safe [OF step.IH [OF step.prems] e(1)])
  then show ?case
    using e(2) by (simp add: safe_def)
qed (simp add: tq_inv_init)
end
