(* ===== verification/TimedEvent_Places.thy ===== *)
theory TimedEvent_Places
  imports TimedEvent
begin

unbundle bit_operations_syntax

text \<open>
  Where a timer is: in the tree, in the free list, with a thread, or with the worker alone. The first part
  shows that every timer is in one place and the containers are intact; the second follows a timer
  from its removal until it is free.
\<close>

section \<open>What is queued\<close>

text \<open>A timer is in the tree when its node has an owner.\<close>

definition in_tree :: "layout \<Rightarrow> tq \<Rightarrow> ptr \<Rightarrow> bool" where
  "in_tree L q p = (case rb_nodes (tq_cTree q) (p + lay_node L) of None \<Rightarrow> False | Some m \<Rightarrow> rb_tree m \<noteq> NULL)"

lemma in_tree_iff:
  assumes "tq_rep L q t xs fs"
  shows "in_tree L q p \<longleftrightarrow> p \<in> queued L t"
proof
  have tree: "rb_rep (lay_tree L) (tq_cTree q) t" and heap: "heap_ok L (tq_timers q) (rb_nodes (tq_cTree q))"
    and fresh: "\<And>p. p \<in> dom (tq_timers q) \<Longrightarrow> p \<notin> queued L t \<Longrightarrow> fresh_node (tq_cTree q) (p + lay_node L)"
    using assms by (auto simp: tq_rep_def tree_ok_def)
  {
    assume "p \<in> queued L t"
    then obtain m where "rb_nodes (tq_cTree q) (p + lay_node L) = Some m" "rb_tree m = lay_tree L"
      using rb_rep_owner [OF tree] by (auto simp: queued_def)
    then show "in_tree L q p"
      using heap by (simp add: in_tree_def heap_ok_def)
  next
    assume t: "in_tree L q p"
    then have "p + lay_node L \<in> dom (rb_nodes (tq_cTree q))"
      by (auto simp: in_tree_def split: option.splits)
    then have "p \<in> dom (tq_timers q)"
      using heap by (auto simp: heap_ok_def)
    then show "p \<in> queued L t"
      using fresh t by (force simp: in_tree_def fresh_node_def)
  }
qed

lemma reach_view:
  assumes "tq_reach L s" and "lay_tree L \<noteq> NULL"
  obtains t xs fs role where "tq_view L s t xs fs role"
  using tq_reach_inv [OF assms] by (auto simp: tq_inv_def)

text \<open>A timer is in the free list when the chain from \<open>lpFirst\<close> comes to it and ends.\<close>

definition in_pool :: "tq \<Rightarrow> ptr \<Rightarrow> bool" where
  "in_pool q p \<longleftrightarrow> (\<exists>fs. free_list (tq_timers q) (tq_lpFirst q) fs \<and> p \<in> set fs)"

lemma free_list_unique: "free_list h p fs \<Longrightarrow> free_list h p gs \<Longrightarrow> fs = gs"
proof (induction fs arbitrary: p gs)
  case Nil
  then show ?case
    by (cases gs) auto
next
  case (Cons x fs)
  then show ?case
    by (cases gs) auto
qed

lemma in_pool_iff:
  assumes "tq_rep L q t xs fs"
  shows "in_pool q p \<longleftrightarrow> p \<in> set fs"
  using assms free_list_unique unfolding in_pool_def tq_rep_def free_ok_def by blast

text \<open>
  The places where a timer can be: the tree, the free list, the hands of a thread, or those of the worker
  alone when its own callback has cancelled it.
\<close>

definition places :: "layout \<Rightarrow> sys \<Rightarrow> ptr \<Rightarrow> role set" where
  "places L s p = {r. case r of
     Queued \<Rightarrow> in_tree L (sys_q s) p
   | InFree \<Rightarrow> in_pool (sys_q s) p
   | Held i \<Rightarrow> held (sys_calls s i) = p \<and> p \<noteq> NULL
   | Orphan \<Rightarrow> firing (sys_worker s) p \<and> (\<exists>u. tq_timers (sys_q s) p = Some u \<and> flag FLAG_CanceledInCallback u)}"

lemma orphan_iff:
  assumes view: "tq_view L s t xs fs role"
  shows "role p = Some Orphan \<longleftrightarrow> firing (sys_worker s) p \<and> (\<exists>u. tq_timers (sys_q s) p = Some u \<and> flag FLAG_CanceledInCallback u)"
proof
  have own: "owned (tq_timers (sys_q s)) (sys_calls s) (sys_worker s) role"
    using view by (simp add: tq_view_def)
  show "firing (sys_worker s) p \<and> (\<exists>u. tq_timers (sys_q s) p = Some u \<and> flag FLAG_CanceledInCallback u)" if "role p = Some Orphan"
    using owned_by [OF own that] by (auto simp: obj_ok_def)
  assume fires: "firing (sys_worker s) p \<and> (\<exists>u. tq_timers (sys_q s) p = Some u \<and> flag FLAG_CanceledInCallback u)"
  then obtain now u where "sys_worker s = Firing p now" and u: "tq_timers (sys_q s) p = Some u" "flag FLAG_CanceledInCallback u"
    by (auto simp: firing_def split: worker.splits)
  then obtain r where "role p = Some r" "obj_ok (sys_calls s) True u r" "r = Queued \<or> r = Orphan \<or> (\<exists>i. r = Held i \<and> sys_calls s i = WaitRun p)"
    using tq_view_firing [OF view] by (metis option.inject)
  then show "role p = Some Orphan"
    using u(2) by (auto simp: obj_ok_def)
qed

lemma places_role:
  assumes view: "tq_view L s t xs fs role"
  shows "places L s p = set_option (role p)"
proof -
  have rep: "tq_rep L (sys_q s) t xs fs" and own: "owned (tq_timers (sys_q s)) (sys_calls s) (sys_worker s) role"
    and sets: "queued L t = {p. role p = Some Queued}" "set fs = {p. role p = Some InFree}"
    using view by (simp_all add: tq_view_def)
  have "r \<in> places L s p \<longleftrightarrow> role p = Some r" for r
  proof (cases r)
    case Queued
    then show ?thesis
      using in_tree_iff [OF rep] sets(1) by (simp add: places_def)
  next
    case InFree
    then show ?thesis
      using in_pool_iff [OF rep] sets(2) by (simp add: places_def)
  next
    case (Held i)
    then show ?thesis
      using own by (simp add: places_def owned_def)
  next
    case Orphan
    then show ?thesis
      using orphan_iff [OF view] by (simp add: places_def)
  qed
  then show ?thesis
    by auto
qed

text \<open>The containers are what they should be.\<close>

definition queue_intact :: "layout \<Rightarrow> tq \<Rightarrow> bool" where
  "queue_intact L q \<longleftrightarrow> (\<exists>t xs fs.
     rb_rep (lay_tree L) (tq_cTree q) t \<and> sorted (map (due L (tq_timers q)) (inorder t)) \<and>
     arr_rep (tq_cSortedByIdList q) xs \<and> sorted (map (id_of (tq_timers q)) xs) \<and> distinct (map (id_of (tq_timers q)) xs) \<and>
     (\<forall>p \<in> set xs. in_tree L q p) \<and>
     free_list (tq_timers q) (tq_lpFirst q) fs \<and> distinct fs \<and> tq_nListCount q = int (length fs) \<and> length fs \<le> 128)"

text \<open>Every object that exists is in one place, no other address is in any.\<close>

definition one_place :: "layout \<Rightarrow> sys \<Rightarrow> bool" where
  "one_place L s \<longleftrightarrow> (\<forall>p. if tq_timers (sys_q s) p = None then places L s p = {} \<and> \<not> firing (sys_worker s) p
     else \<exists>r. places L s p = {r})"

definition tq_intact :: "layout \<Rightarrow> sys \<Rightarrow> bool" where
  "tq_intact L s \<longleftrightarrow> queue_intact L (sys_q s) \<and> one_place L s"

lemma inv_intact:
  assumes "tq_inv L s"
  shows "tq_intact L s"
proof -
  obtain t xs fs role where view: "tq_view L s t xs fs role"
    using assms by (auto simp: tq_inv_def)
  then have rep: "tq_rep L (sys_q s) t xs fs" and own: "owned (tq_timers (sys_q s)) (sys_calls s) (sys_worker s) role"
    by (simp_all add: tq_view_def)
  have "queue_intact L (sys_q s)"
    using rep in_tree_iff [OF rep] unfolding queue_intact_def tq_rep_def tree_ok_def list_ok_def free_ok_def by blast
  moreover have "one_place L s"
    unfolding one_place_def places_role [OF view]
  proof
    fix p
    have "role p = None \<longleftrightarrow> tq_timers (sys_q s) p = None"
      using own by (metis domIff owned_def)
    moreover have "p \<in> dom (tq_timers (sys_q s))" if "firing (sys_worker s) p"
      using own that by (simp add: owned_def)
    ultimately show "if tq_timers (sys_q s) p = None then set_option (role p) = {} \<and> \<not> firing (sys_worker s) p
        else \<exists>r. set_option (role p) = {r}"
      by (cases "role p") auto
  qed
  ultimately show ?thesis
    by (simp add: tq_intact_def)
qed

section \<open>The life of a removed timer\<close>

lemma pick_queued:
  assumes view: "tq_view L s t xs fs role" and pick: "ProcessQueue_pick L (sys_q s) now = Some (p, w, q')" and "p \<noteq> NULL"
  shows "p \<in> queued L t"
proof (cases "inorder t")
  case Nil
  then show ?thesis
    using tq_view_pick [OF view refl, of now] assms(2,3) by simp
next
  case (Cons x ys)
  then obtain r u where r: "r \<in> queued L t" "if nDueTime u \<le> MX_100NS_TO_MILLISECONDS now
      then \<exists>q'. ProcessQueue_pick L (sys_q s) now = Some (r, INFINITE, q') \<and> tq_rep L q' t xs fs \<and>
        q' = sys_q s\<lparr>tq_timers := (tq_timers (sys_q s))(r \<mapsto> u\<lparr>nFlags := nFlags u OR FLAG_Running\<rparr>)\<rparr>
      else ProcessQueue_pick L (sys_q s) now = Some (NULL, timeout_until (nDueTime u) (MX_100NS_TO_MILLISECONDS now), sys_q s)"
    using tq_view_pick [OF view refl, of now] by (simp only: list.case) blast
  then show ?thesis
    using pick assms(3) by (cases "nDueTime u \<le> MX_100NS_TO_MILLISECONDS now") auto
qed

text \<open>
  A timer that \<open>RemoveTimer\<close> has taken: its thread waits for the callback or is about to free it, or the
  callback that runs has cancelled its own timer and the worker will free it. Later it is free: in the free
  list, or deleted.
\<close>

definition removed :: "sys \<Rightarrow> ptr \<Rightarrow> bool" where
  "removed s p \<longleftrightarrow> (\<exists>i. sys_calls s i \<in> {WaitRun p, FreeNow p}) \<or>
     firing (sys_worker s) p \<and> (\<exists>u. tq_timers (sys_q s) p = Some u \<and> flag FLAG_CanceledInCallback u)"

definition freed :: "layout \<Rightarrow> sys \<Rightarrow> ptr \<Rightarrow> bool" where
  "freed L s p \<longleftrightarrow> \<not> firing (sys_worker s) p \<and> \<not> in_tree L (sys_q s) p \<and> (tq_timers (sys_q s) p = None \<or> in_pool (sys_q s) p)"

text \<open>The timers that can be found by id.\<close>

definition listed :: "tq \<Rightarrow> ptr \<Rightarrow> bool" where
  "listed q p \<longleftrightarrow> p \<in> set (take (unat (al_count (tq_cSortedByIdList q))) (al_items (tq_cSortedByIdList q)))"

lemma listed_iff: "tq_rep L q t xs fs \<Longrightarrow> listed q p \<longleftrightarrow> p \<in> set xs"
  by (auto simp: listed_def tq_rep_def list_ok_def arr_rep_def)

lemma removed_role:
  assumes view: "tq_view L s t xs fs role"
  shows "removed s p \<longleftrightarrow> (\<exists>i. role p = Some (Held i) \<and> sys_calls s i \<in> {WaitRun p, FreeNow p}) \<or> role p = Some Orphan"
proof -
  have "role p = Some (Held i)" if "sys_calls s i \<in> {WaitRun p, FreeNow p}" for i
    using that tq_view_held [OF view, of i] by (metis caller.distinct(7,9) held.simps(5,6) insertE singletonD)
  then show ?thesis
    unfolding removed_def orphan_iff [OF view] by blast
qed

text \<open>Only \<open>AddTimer\<close> puts a timer into the tree, and only the one that its thread has.\<close>

lemma Fired_in_tree:
  assumes view: "tq_view L s t xs fs role" and w: "sys_worker s = Firing p now"
    and fin: "ProcessQueue_done L (sys_q s) p wants now = Some q'" and tree: "in_tree L q' r"
  shows "in_tree L (sys_q s) r"
proof -
  have rep: "tq_rep L (sys_q s) t xs fs" and sets: "queued L t = {p. role p = Some Queued}" "set fs = {p. role p = Some InFree}"
    using view by (simp_all add: tq_view_def)
  obtain u y where u: "tq_timers (sys_q s) p = Some u" "role p = Some y" "obj_ok (sys_calls s) True u y"
      "y = Queued \<or> y = Orphan \<or> (\<exists>i. y = Held i \<and> sys_calls s i = WaitRun p)"
    using tq_view_firing [OF view w] by blast
  have "\<exists>t' xs' fs'. tq_rep L q' t' xs' fs' \<and> queued L t' \<subseteq> queued L t"
  proof (cases "p \<in> queued L t")
    case True
    then have c: "nFlags u AND FLAG_Canceled = 0"
      using u(2,3) sets(1) by (simp add: obj_ok_def flag_def)
    show ?thesis
    proof (cases "InvokeCallback u wants \<or> nFlags u AND FLAG_OneShot \<noteq> 0")
      case stop: True
      show ?thesis
        using ProcessQueue_done_stop [OF rep u(1) True c stop, of now] fin by auto
    next
      case False
      then show ?thesis
        using ProcessQueue_done_again [OF rep u(1) True c _ _ refl, of wants now] fin by auto
    qed
  next
    case False
    then have "p \<notin> set fs" "nFlags u AND FLAG_Canceled \<noteq> 0"
      using u(2-4) sets by (auto simp: obj_ok_def flag_def)
    then show ?thesis
      using ProcessQueue_done_cancelled [OF rep u(1) False _ _ refl, of wants now] fin by auto
  qed
  then show ?thesis
    using tree in_tree_iff [OF rep] in_tree_iff by blast
qed

lemma AllocTimer_in_tree: "AllocTimer L q new cb ms ud once = Some (p, q') \<Longrightarrow> in_tree L q' r \<Longrightarrow> in_tree L q r"
  by (auto simp: AllocTimer_def new_timer_def in_tree_def CRedBlackTreeNode_def bind_eq_Some_conv split: if_splits)

lemma delete_in_tree: "delete_timer L q p = Some q' \<Longrightarrow> in_tree L q' r \<Longrightarrow> in_tree L q r"
  by (auto simp: delete_timer_def in_tree_def bind_eq_Some_conv split: if_splits)

lemma FreeTimer_in_tree: "FreeTimer L q p = Some q' \<Longrightarrow> in_tree L q' r \<Longrightarrow> in_tree L q r"
  by (auto simp: FreeTimer_def in_tree_def bind_eq_Some_conv split: if_splits dest: delete_in_tree [unfolded in_tree_def])

lemma RemoveTimer_in_tree:
  assumes rep: "tq_rep L q t xs fs" and run: "RemoveTimer_cancel L q inside n = Some (p, b, q')" and tree: "in_tree L q' r"
  shows "in_tree L q r"
proof (cases "sint n \<in> id_of (tq_timers q) ` set xs")
  case True
  then obtain t' xs' where "tq_rep L q' t' xs' fs" "queued L t' \<subseteq> queued L t"
    using RemoveTimer_cancel_rep [OF rep True, of inside] run by auto
  then show ?thesis
    using tree in_tree_iff [OF rep] in_tree_iff by blast
next
  case False
  then show ?thesis
    using RemoveTimer_cancel_none [OF rep False] run tree by simp
qed

lemma Insert_in_tree:
  assumes view: "tq_view L s t xs fs role" and call: "sys_calls s i = HasId p"
    and run: "AddTimer_insert L malloc (sys_q s) p now = Some (r, n, q')" and tree: "in_tree L q' y"
  shows "in_tree L (sys_q s) y \<or> y = p"
proof -
  have rep: "tq_rep L (sys_q s) t xs fs"
    using view by (simp add: tq_view_def)
  obtain u where u: "tq_timers (sys_q s) p = Some u" "p \<notin> queued L t" "p \<notin> set fs"
    using tq_view_held [OF view, of i] call by (metis caller.distinct(3) held.simps(3))
  obtain t' xs' where "tq_rep L q' t' xs' fs" "queued L t' \<subseteq> insert p (queued L t)"
    using AddTimer_insert_rep [OF rep u refl, of malloc now] run by (auto split: if_splits)
  then show ?thesis
    using tree in_tree_iff [OF rep] in_tree_iff by blast
qed

lemma Pick_in_tree:
  assumes view: "tq_view L s t xs fs role" and run: "ProcessQueue_pick L (sys_q s) now = Some (p, w, q')"
  shows "in_tree L q' r = in_tree L (sys_q s) r"
proof (cases "inorder t")
  case Nil
  then show ?thesis
    using tq_view_pick [OF view refl, of now] run by simp
next
  case (Cons x ys)
  then show ?thesis
    using tq_view_pick [OF view refl, of now] run by (auto simp: in_tree_def split: if_splits)
qed

lemma run_in_tree:
  assumes view: "tq_view L s t xs fs role" and e: "enabled s e" "run L s e = Some s'" and tree: "in_tree L (sys_q s') p"
  shows "in_tree L (sys_q s) p \<or> (\<exists>i. sys_calls s i = HasId p)"
proof (cases e)
  case (Insert i malloc now)
  then obtain x r n q' where "sys_calls s i = HasId x" "AddTimer_insert L malloc (sys_q s) x now = Some (r, n, q')" "sys_q s' = q'"
    using e by (auto simp: go_def held_busy bind_eq_Some_conv)
  then show ?thesis
    using tree Insert_in_tree [OF view, of i x malloc now r n q' p] by auto
next
  case (Fired wants)
  then show ?thesis
    using e tree Fired_in_tree [OF view] by (auto split: worker.splits)
next
  case (Pick now)
  then show ?thesis
    using e tree Pick_in_tree [OF view] by (auto simp: bind_eq_Some_conv)
next
  case (Remove i n)
  then show ?thesis
    using e tree RemoveTimer_in_tree view by (auto simp: tq_view_def go_def bind_eq_Some_conv)
next
  case (TakeId i)
  then show ?thesis
    using e tree by (auto simp: go_def AddTimer_id_def in_tree_def Let_def bind_eq_Some_conv)
qed (use e tree in \<open>auto simp: go_def bind_eq_Some_conv split: if_splits dest: AllocTimer_in_tree delete_in_tree FreeTimer_in_tree\<close>)

text \<open>A timer gets into \<open>AddTimer\<close> only from the free list or as a new object.\<close>

lemma AllocTimer_role:
  assumes view: "tq_view L s t xs fs role" and new: "new_block (sys_q s) new"
    and run: "AllocTimer L (sys_q s) new cb ms ud once = Some (r, q')" and null: "r \<noteq> NULL"
  shows "role r = None \<or> role r = Some InFree"
proof -
  have rep: "tq_rep L (sys_q s) t xs fs" and own: "dom role = dom (tq_timers (sys_q s))" and free: "set fs = {p. role p = Some InFree}"
    using view by (simp_all add: tq_view_def owned_def)
  have "new = NULL \<or> new \<notin> dom (tq_timers (sys_q s)) \<and> new < 2 ^ 64 \<and> 16 dvd new"
    using new by (auto simp: new_block_def)
  then obtain fs' where "fs = r # fs' \<or> r \<notin> dom (tq_timers (sys_q s))"
    using AllocTimer_rep [OF rep, of new cb ms ud once] run null by (auto split: if_splits)
  then have "r \<in> set fs \<or> r \<notin> dom role"
    unfolding own by auto
  then show ?thesis
    unfolding free by auto
qed

lemma run_adding:
  assumes view: "tq_view L s t xs fs role" and e: "enabled s e" "run L s e = Some s'"
    and adds: "sys_calls s' i \<in> {NeedId p, HasId p, Dropping p}"
  shows "sys_calls s i \<in> {NeedId p, HasId p, Dropping p} \<or> role p = None \<or> role p = Some InFree"
proof (cases e)
  case (Alloc j new cb ms ud once)
  obtain r q' where r: "AllocTimer L (sys_q s) new cb ms ud once = Some (r, q')" "s' = go j (if r = NULL then Idle else NeedId r) q' s"
    using e(2) Alloc by (auto simp: bind_eq_Some_conv)
  have "role r = None \<or> role r = Some InFree" if "r \<noteq> NULL"
    using AllocTimer_role [OF view _ r(1) that] e(1) Alloc by simp
  then show ?thesis
    using adds r(2) by (cases "r = NULL"; cases "i = j") (simp_all add: go_def)
next
  case (TakeId j)
  then obtain x c q' where "sys_calls s j = NeedId x" "s' = go j c q' s" "held c = x"
    using e by (auto simp: held_busy bind_eq_Some_conv)
  then show ?thesis
    using adds by (cases "i = j") (auto simp: go_def)
next
  case (Insert j malloc now)
  then obtain x c q' where "sys_calls s j = HasId x" "s' = go j c q' s" "c = Idle \<or> c = Dropping x"
    using e by (auto simp: held_busy bind_eq_Some_conv)
  then show ?thesis
    using adds by (cases "i = j") (auto simp: go_def)
next
  case (Drop j)
  then obtain q' where "s' = go j Idle q' s"
    using e by auto
  then show ?thesis
    using adds by (cases "i = j") (simp_all add: go_def)
next
  case (Free j)
  then obtain q' where "s' = go j Idle q' s"
    using e by auto
  then show ?thesis
    using adds by (cases "i = j") (simp_all add: go_def)
next
  case (Remove j n)
  then obtain q' r b where "s' = go j (RemoveTimer_next (j = 0) r b) q' s"
    using e by (auto simp: bind_eq_Some_conv)
  then show ?thesis
    using adds by (cases "i = j") (simp_all add: go_def RemoveTimer_next_def split: if_splits)
next
  case (Poll j)
  then have "s' = s \<or> s' = go j (FreeNow (held (sys_calls s j))) (sys_q s) s"
    using e by (auto simp: bind_eq_Some_conv split: if_splits)
  then show ?thesis
    using adds by (cases "i = j") (auto simp: go_def)
next
  case (Pick now)
  then have "sys_calls s' = sys_calls s"
    using e by (auto simp: bind_eq_Some_conv)
  then show ?thesis
    using adds by simp
next
  case (Fired wants)
  then have "sys_calls s' = sys_calls s"
    using e by (auto split: worker.splits)
  then show ?thesis
    using adds by simp
qed

lemma removed_step:
  assumes view: "tq_view L s t xs fs role" and p: "removed s p" and e: "enabled s e" "run L s e = Some s'"
  shows "removed s' p \<or> freed L s' p"
proof -
  have "tq_inv L s"
    using view by (auto simp: tq_inv_def)
  then have "tq_inv L s'"
    using tq_inv_safe [of L s e] e by (simp add: safe_def)
  then obtain t' xs' fs' role' where view': "tq_view L s' t' xs' fs' role'"
    by (auto simp: tq_inv_def)
  have own': "owned (tq_timers (sys_q s')) (sys_calls s') (sys_worker s') role'" and rep': "tq_rep L (sys_q s') t' xs' fs'"
    and sets': "queued L t' = {p. role' p = Some Queued}" "set fs' = {p. role' p = Some InFree}"
    and own: "\<And>i p. role p = Some (Held i) \<longleftrightarrow> held (sys_calls s i) = p \<and> p \<noteq> NULL"
    and tree: "in_tree L (sys_q s) p \<longleftrightarrow> role p = Some Queued"
    using view view' in_tree_iff [of L "sys_q s" t xs fs p] by (simp_all add: tq_view_def owned_def)
  have old: "(\<exists>i. role p = Some (Held i) \<and> sys_calls s i \<in> {WaitRun p, FreeNow p}) \<or> role p = Some Orphan"
    using p removed_role [OF view] by blast
  have calls: "sys_calls s j \<notin> {NeedId p, HasId p, Dropping p}" for j
  proof
    assume j: "sys_calls s j \<in> {NeedId p, HasId p, Dropping p}"
    moreover have "p \<noteq> NULL"
      using tq_view_held [OF view, of j] j by (metis caller.distinct(1,3,5) emptyE held.simps(2-4) insertE)
    ultimately have "role p = Some (Held j)"
      unfolding own by auto
    then show False
      using old j by auto
  qed
  show ?thesis
  proof (cases "role' p")
    case None
    then have "tq_timers (sys_q s') p = None" "\<not> firing (sys_worker s') p"
      using own' by (metis domIff owned_def)+
    then show ?thesis
      using None in_tree_iff [OF rep'] sets'(1) by (simp add: freed_def)
  next
    case (Some r)
    then obtain u where "obj_ok (sys_calls s') (firing (sys_worker s') p) u r" and null: "p \<noteq> NULL"
      using owned_by [OF own'] by blast
    show ?thesis
    proof (cases r)
      case Queued
      then have "in_tree L (sys_q s') p"
        using Some in_tree_iff [OF rep'] sets'(1) by simp
      then show ?thesis
        using run_in_tree [OF view e] tree old calls by auto
    next
      case InFree
      then show ?thesis
        using Some \<open>obj_ok _ _ u r\<close> in_tree_iff [OF rep'] in_pool_iff [OF rep'] sets' by (simp add: freed_def obj_ok_def)
    next
      case (Held i)
      then have "held (sys_calls s' i) = p"
        using own' Some by (simp add: owned_def)
      moreover have "sys_calls s' i \<notin> {NeedId p, HasId p, Dropping p}"
        using run_adding [OF view e] calls old by (metis option.distinct(1) option.inject role.distinct(7,9))
      ultimately have "sys_calls s' i \<in> {WaitRun p, FreeNow p}"
        using null by (cases "sys_calls s' i") auto
      then show ?thesis
        unfolding removed_def by blast
    next
      case Orphan
      then show ?thesis
        using Some removed_role [OF view'] by simp
    qed
  qed
qed

text \<open>What \<open>RemoveTimer\<close> does to the timer that it finds.\<close>

lemma Remove_removes:
  assumes view: "tq_view L s t xs fs role" and e: "enabled s (Remove i n)"
  shows "\<exists>r b q'. RemoveTimer_cancel L (sys_q s) (i = 0) n = Some (r, b, q') \<and>
    (if r = NULL then q' = sys_q s \<and> (\<forall>p u. listed (sys_q s) p \<longrightarrow> tq_timers (sys_q s) p = Some u \<longrightarrow> nId u \<noteq> n)
     else listed (sys_q s) r \<and> (\<exists>u. tq_timers (sys_q s) r = Some u \<and> nId u = n) \<and>
       (\<exists>s1. run L s (Remove i n) = Some s1 \<and> removed s1 r))"
proof -
  have rep: "tq_rep L (sys_q s) t xs fs"
    using view by (simp add: tq_view_def)
  note listed = listed_iff [OF rep]
  show ?thesis
  proof (cases "sint n \<in> id_of (tq_timers (sys_q s)) ` set xs")
    case False
    then have "nId u \<noteq> n" if "p \<in> set xs" "tq_timers (sys_q s) p = Some u" for p u
      using that by (force simp: id_of_def)
    then show ?thesis
      using RemoveTimer_cancel_none [OF rep False, of "i = 0"] listed by (intro exI [of _ NULL] exI [of _ False]) simp
  next
    case True
    obtain p u q' t' where r: "p \<in> set xs" "tq_timers (sys_q s) p = Some u" "nId u = n"
        "RemoveTimer_cancel L (sys_q s) (i = 0) n = Some (p, nFlags u AND FLAG_Running \<noteq> 0, q')"
        "tq_timers q' = (tq_timers (sys_q s))(p \<mapsto> snd (SetAsCanceled (i = 0) u))"
      using RemoveTimer_cancel_rep [OF rep True, of "i = 0"] by blast
    have "p \<in> queued L t"
      using rep r(1) by (auto simp: tq_rep_def)
    then have null: "p \<noteq> NULL" and ok: "obj_ok (sys_calls s) (firing (sys_worker s) p) u Queued"
      using tq_view_queued [OF view] r(2) by (metis option.inject)+
    have run: "(nFlags u AND FLAG_Running \<noteq> 0) = firing (sys_worker s) p"
      using ok by (simp add: obj_ok_def flag_def)
    let ?s1 = "go i (RemoveTimer_next (i = 0) p (firing (sys_worker s) p)) q' s"
    have "removed ?s1 p"
    proof (cases "i = 0 \<and> firing (sys_worker s) p")
      case True
      then show ?thesis
        using r(5) by (simp add: removed_def go_def)
    next
      case False
      then have "sys_calls ?s1 i \<in> {WaitRun p, FreeNow p}"
        using null by (auto simp: go_def RemoveTimer_next_def)
      then show ?thesis
        unfolding removed_def by blast
    qed
    then show ?thesis
      using r null listed unfolding run by simp
  qed
qed

text \<open>Only the worker starts a callback, and only of a timer of the tree.\<close>

lemma starts_queued:
  assumes view: "tq_view L s t xs fs role" and step: "tq_step L s s'" and fires: "firing (sys_worker s') p" "\<not> firing (sys_worker s) p"
  shows "p \<in> queued L t"
proof -
  obtain e where e: "enabled s e" "run L s e = Some s'"
    using step by (cases rule: tq_step.cases) blast
  show ?thesis
  proof (cases e)
    case (Pick now)
    then obtain r w q' where pick: "ProcessQueue_pick L (sys_q s) now = Some (r, w, q')" "r \<noteq> NULL \<longrightarrow> r = p" "r \<noteq> NULL"
      using e fires by (auto simp: firing_def bind_eq_Some_conv split: if_splits)
    then show ?thesis
      using pick_queued [OF view pick(1,3)] by simp
  qed (use e fires in \<open>auto simp: go_def firing_def bind_eq_Some_conv split: if_splits worker.splits\<close>)
qed

end
