(* ===== verification/TimedEvent_Props.thy ===== *)
theory TimedEvent_Props
  imports TimedEvent_Places
begin

unbundle bit_operations_syntax

text \<open>
  The properties of the timer queue: no step of any interleaving touches an object that does not
  exist, a timer that was removed does not fire, the worker fires the timer that is due first, and the
  destructor frees every object.
\<close>

definition sample_layout :: layout where
  "sample_layout = \<lparr>lay_tree = 8, lay_node = 4\<rparr>"

text \<open>A state with one timer in the queue.\<close>

lemma reach_run: "tq_reach L s \<Longrightarrow> enabled s e \<Longrightarrow> run L s e = Some s' \<Longrightarrow> tq_reach L s'"
  by (blast intro: tq_reach.step tq_step.step)

lemma sample_queued:
  "\<exists>s p t u xs fs. tq_reach sample_layout s \<and> sys_worker s = Scanning \<and> (\<forall>i. sys_calls s i = Idle) \<and>
    tq_rep sample_layout (sys_q s) t xs fs \<and> p \<in> queued sample_layout t \<and> set xs = {p} \<and>
    tq_timers (sys_q s) p = Some u \<and> nId u = 1 \<and> nDueTime u = 12 \<and> queued sample_layout t = {p}"
proof -
  let ?L = sample_layout and ?u = "Setup 10 7 0 True"
  have L: "lay_tree ?L \<noteq> NULL"
    by (simp add: sample_layout_def)
  obtain q1 fs where q1: "AllocTimer ?L tq_init 16 7 10 0 True = Some (16, q1)" "tq_nNextTimerId q1 = 0" "tq_rep ?L q1 Lf [] fs"
      "16 \<notin> queued ?L Lf" "16 \<notin> set fs" "tq_timers q1 = [16 \<mapsto> ?u]"
    using AllocTimer_rep [OF tq_rep_init [OF L], of 16 7 10 0 True] by (auto simp: AllocTimer_def tq_init_def)
  define s1 where "s1 = go 1 (NeedId 16) q1 sys_init"
  have s1: "tq_reach ?L s1"
    by (rule reach_run [OF tq_reach.init, where e = "Alloc 1 16 7 10 0 True"])
      (use q1(1) in \<open>simp_all add: s1_def sys_init_def new_block_def AddTimer_check_def tq_init_def\<close>)
  obtain q2 where q2: "AddTimer_id q1 16 = Some (False, q2)" "tq_rep ?L q2 Lf [] fs" "tq_nNextTimerId q2 = 1"
      "tq_timers q2 = [16 \<mapsto> ?u\<lparr>nId := 1\<rparr>]"
    using AddTimer_id_rep [OF q1(3), of 16 ?u] q1(2,4-6) by auto
  define s2 where "s2 = go 1 (HasId 16) q2 sys_init"
  have s2: "tq_reach ?L s2"
    by (rule reach_run [OF s1, where e = "TakeId 1"]) (use q2(1) in \<open>simp_all add: s1_def s2_def go_def\<close>)
  obtain q3 t xs where q3: "AddTimer_insert ?L (\<lambda>_. True) q2 16 20000 = Some (S_OK, 1, q3)" "tq_rep ?L q3 t xs fs"
      "tq_timers q3 = [16 \<mapsto> CalculateDueTime 20000 (?u\<lparr>nId := 1\<rparr>)]" "queued ?L t = {16}" "set xs = {16}"
    using AddTimer_insert_rep [OF q2(2), of 16 "?u\<lparr>nId := 1\<rparr>" _ 20000 "\<lambda>_. True"] q1(4,5) q2(4) by (auto simp: queued_def)
  define s3 where "s3 = go 1 Idle q3 sys_init"
  have s3: "tq_reach ?L s3"
    by (rule reach_run [OF s2, where e = "Insert 1 (\<lambda>_. True) 20000"]) (use q3(1) in \<open>simp_all add: s2_def s3_def go_def\<close>)
  show ?thesis
    using s3 q3
    by (intro exI [of _ s3] exI [of _ 16] exI [of _ t] exI [of _ "CalculateDueTime 20000 (?u\<lparr>nId := 1\<rparr>)"] exI [of _ xs] exI [of _ fs])
      (simp add: s3_def go_def sys_init_def CalculateDueTime_def MX_100NS_TO_MILLISECONDS_def Setup_def)
qed

section \<open>Safety\<close>

text \<open>
  C3. Whatever the threads did before, in whatever order, the next step of any of them finds every
  object that it touches, and every section under a lock ends. Before and after the step the containers
  are intact: the tree is a red-black tree sorted by due time, the array is sorted by id without duplicates
  and lists only timers of the tree, the free list ends, has no object twice, and \<open>nListCount\<close> is its
  length, at most 128. Every object that exists is in exactly one place: the tree, the free list, the hands of
  one thread, or those of the worker when its own callback has cancelled it; so none is lost and none
  is freed twice. In particular an object that a thread is about to free or to delete is in no container, no
  other thread has it, and its callback does not run.
\<close>

theorem timers_never_fault:
  assumes "tq_reach L s" and "lay_tree L \<noteq> NULL" and "enabled s e"
  shows "\<exists>s'. run L s e = Some s' \<and> tq_reach L s' \<and> tq_intact L s \<and> tq_intact L s' \<and>
    (\<forall>i p. sys_calls s i \<in> {FreeNow p, Dropping p} \<longrightarrow>
      tq_timers (sys_q s) p \<noteq> None \<and> places L s p = {Held i} \<and> \<not> firing (sys_worker s) p)"
proof -
  have inv: "tq_inv L s"
    using tq_reach_inv [OF assms(1,2)] .
  then obtain s' where s': "run L s e = Some s'" "tq_inv L s'"
    using tq_inv_safe [OF _ assms(3)] by (auto simp: safe_def)
  obtain t xs fs role where view: "tq_view L s t xs fs role"
    using inv by (auto simp: tq_inv_def)
  have "tq_timers (sys_q s) p \<noteq> None \<and> places L s p = {Held i} \<and> \<not> firing (sys_worker s) p"
    if call: "sys_calls s i \<in> {FreeNow p, Dropping p}" for i p
  proof -
    have busy: "sys_calls s i \<noteq> Idle" and held: "held (sys_calls s i) = p"
      using call by auto
    then obtain u where "tq_timers (sys_q s) p = Some u" "role p = Some (Held i)"
        "obj_ok (sys_calls s) (firing (sys_worker s) p) u (Held i)"
      using tq_view_held [OF view busy] by metis
    then show ?thesis
      using call by (auto simp: places_role [OF view] obj_ok_def)
  qed
  moreover have "tq_reach L s'"
    using assms(1,3) s'(1) by (blast intro: tq_reach.step tq_step.step)
  ultimately show ?thesis
    using s' inv_intact [OF inv] inv_intact [OF s'(2)] by blast
qed

lemma timers_never_fault_witness:
  "\<exists>s'. run sample_layout sys_init (Alloc 1 16 7 10 0 True) = Some s' \<and> tq_reach sample_layout s' \<and> tq_intact sample_layout s'"
  using timers_never_fault [OF tq_reach.init, of sample_layout "Alloc 1 16 7 10 0 True"]
  by (simp add: sample_layout_def sys_init_def new_block_def tq_init_def AddTimer_check_def) blast

text \<open>The wait as a number of ms.\<close>

lemma unat_timeout_until:
  assumes "now \<le> next_due"
  shows "unat (timeout_until next_due now) = (if unat next_due - unat now \<le> 0xFFFFFFFF then unat next_due - unat now else 0xFFFFFFFE)"
proof -
  have diff: "unat (next_due - now) = unat next_due - unat now"
    using assms by (rule unat_sub)
  have "unat (ucast (next_due - now) :: u32) = unat next_due - unat now" if "unat next_due - unat now \<le> 0xFFFFFFFF"
    using that by (simp add: unsigned_ucast_eq take_bit_eq_mod diff)
  then show ?thesis
    by (simp add: timeout_until_def Let_def word_less_nat_alt diff)
qed

lemma timeout_is_infinite:
  assumes "now \<le> next_due"
  shows "timeout_until next_due now = INFINITE \<longleftrightarrow> unat next_due - unat now = 0xFFFFFFFF"
  unfolding word_unat_eq_iff unat_timeout_until [OF assms] by simp

text \<open>
  C5. The worker fires in the order of the due times. A look at the queue fires a timer only when it
  is queued, was not cancelled and is due, and none that is queued is due before it; the timer is
  marked as running. When no queued timer is due the state does not change, and the time to wait is the
  number of ms to the first due time, cut to \<open>0xFFFFFFFE\<close> when it does not fit in 32 bits, or \<open>INFINITE\<close>
  when nothing is queued. One distance is wrong: a timer that is due in exactly \<open>0xFFFFFFFF\<close> ms gives
  \<open>INFINITE\<close> too, and the worker sleeps until the queue changes.
\<close>

theorem worker_fires_first_due:
  assumes "tq_reach L s" and "lay_tree L \<noteq> NULL" and "sys_worker s = Scanning"
    and "q = sys_q s" and "now = MX_100NS_TO_MILLISECONDS currTime"
  shows "(\<exists>p u q'. ProcessQueue_pick L q currTime = Some (p, INFINITE, q') \<and> p \<noteq> NULL \<and> in_tree L q p \<and>
        tq_timers q p = Some u \<and> \<not> flag FLAG_Canceled u \<and> nDueTime u \<le> now \<and>
        (\<forall>r v. in_tree L q r \<longrightarrow> tq_timers q r = Some v \<longrightarrow> nDueTime u \<le> nDueTime v) \<and>
        q' = q\<lparr>tq_timers := (tq_timers q)(p \<mapsto> u\<lparr>nFlags := nFlags u OR FLAG_Running\<rparr>)\<rparr>) \<or>
     (\<exists>p u w. ProcessQueue_pick L q currTime = Some (NULL, w, q) \<and> in_tree L q p \<and>
        tq_timers q p = Some u \<and> now < nDueTime u \<and>
        (\<forall>r v. in_tree L q r \<longrightarrow> tq_timers q r = Some v \<longrightarrow> nDueTime u \<le> nDueTime v) \<and>
        unat w = (if unat (nDueTime u) - unat now \<le> 0xFFFFFFFF then unat (nDueTime u) - unat now else 0xFFFFFFFE) \<and>
        (w = INFINITE \<longleftrightarrow> unat (nDueTime u) - unat now = 0xFFFFFFFF)) \<or>
     ProcessQueue_pick L q currTime = Some (NULL, INFINITE, q) \<and> (\<forall>p. \<not> in_tree L q p)"
proof -
  obtain t xs fs role where view: "tq_view L s t xs fs role"
    using reach_view [OF assms(1,2)] .
  have rep: "tq_rep L q t xs fs"
    using view assms(4) by (simp add: tq_view_def)
  then have sorted: "sorted (map (due L (tq_timers q)) (inorder t))"
    by (simp add: tq_rep_def tree_ok_def)
  have tree: "in_tree L q r \<longleftrightarrow> r \<in> queued L t" for r
    by (rule in_tree_iff [OF rep])
  note pick = tq_view_pick [OF view assms(5), folded assms(4)]
  show ?thesis
  proof (cases "inorder t")
    case Nil
    then show ?thesis
      using pick tree by (simp add: queued_def)
  next
    case (Cons x ys)
    then obtain p u where p: "x = p + lay_node L" "p \<in> queued L t" "p \<noteq> NULL" "tq_timers q p = Some u"
        "if nDueTime u \<le> now then \<exists>q'. ProcessQueue_pick L q currTime = Some (p, INFINITE, q') \<and> tq_rep L q' t xs fs \<and>
           q' = q\<lparr>tq_timers := (tq_timers q)(p \<mapsto> u\<lparr>nFlags := nFlags u OR FLAG_Running\<rparr>)\<rparr>
         else ProcessQueue_pick L q currTime = Some (NULL, timeout_until (nDueTime u) now, q)"
      using pick by auto
    have first: "nDueTime u \<le> nDueTime v" if "r \<in> queued L t" "tq_timers q r = Some v" for r v
    proof -
      have "r + lay_node L \<in> set (x # ys)"
        using that(1) Cons by (simp add: queued_def)
      then have "due L (tq_timers q) x \<le> due L (tq_timers q) (r + lay_node L)"
        using sorted Cons by auto
      then show ?thesis
        using p(1,4) that(2) by simp
    qed
    have "obj_ok (sys_calls s) (firing (sys_worker s) p) u Queued"
      using tq_view_queued [OF view p(2)] p(4) assms(4) by (metis option.inject)
    then have live: "\<not> flag FLAG_Canceled u"
      by (simp add: obj_ok_def)
    show ?thesis
    proof (cases "nDueTime u \<le> now")
      case True
      then obtain q' where "ProcessQueue_pick L q currTime = Some (p, INFINITE, q')"
          "q' = q\<lparr>tq_timers := (tq_timers q)(p \<mapsto> u\<lparr>nFlags := nFlags u OR FLAG_Running\<rparr>)\<rparr>"
        using p(5) by auto
      then show ?thesis
        using True p(2-4) first tree live by (intro disjI1 exI [of _ p] exI [of _ u] exI [of _ q']) simp
    next
      case False
      then have late: "now \<le> nDueTime u"
        by simp
      show ?thesis
        using False p(2-5) first tree unat_timeout_until [OF late] timeout_is_infinite [OF late]
        by (intro disjI2 disjI1 exI [of _ p] exI [of _ u] exI [of _ "timeout_until (nDueTime u) now"]) simp
    qed
  qed
qed


lemma worker_fires_first_due_witness:
  "\<exists>s p q'. tq_reach sample_layout s \<and> p \<noteq> NULL \<and> ProcessQueue_pick sample_layout (sys_q s) 120000 = Some (p, INFINITE, q')"
proof -
  obtain s p t u xs fs where s: "tq_reach sample_layout s" "sys_worker s = Scanning" "tq_rep sample_layout (sys_q s) t xs fs"
      "tq_timers (sys_q s) p = Some u" "nDueTime u = 12" "queued sample_layout t = {p}"
    using sample_queued by blast
  have tree: "in_tree sample_layout (sys_q s) r \<longleftrightarrow> r = p" for r
    using in_tree_iff [OF s(3)] s(6) by simp
  then show ?thesis
    using worker_fires_first_due [OF s(1) _ s(2) refl refl, of 120000] s(1,4,5)
    by (auto simp: sample_layout_def MX_100NS_TO_MILLISECONDS_def)
qed

text \<open>
  C4. A timer that \<open>RemoveTimer\<close> has cancelled stays quiet. \<open>RemoveTimer\<close> takes the timer that has the
  id, if one is listed; from then on, until the timer is free, whichever way it was cancelled, from outside or by
  its own callback: no step of any thread starts its callback, it is neither in the tree nor in the array
  nor in the free list, and at most one thread has it, or the worker alone when the callback has cancelled its own
  timer. Every step leaves it so or frees it, and a free timer is not in the tree: a timer that cancels
  itself is not queued again. A caller that waits leaves the loop exactly when the worker is not inside
  the callback, and when the caller is about to free the object and return, the callback is not running.
  Only the callback's own thread does not wait for it.
\<close>

theorem removed_timer_is_quiet:
  assumes "tq_reach L s" and "lay_tree L \<noteq> NULL"
  shows "(enabled s (Remove k n) \<longrightarrow> (\<exists>r b q'. RemoveTimer_cancel L (sys_q s) (k = 0) n = Some (r, b, q') \<and>
      (if r = NULL then q' = sys_q s \<and> (\<forall>p u. listed (sys_q s) p \<longrightarrow> tq_timers (sys_q s) p = Some u \<longrightarrow> nId u \<noteq> n)
       else listed (sys_q s) r \<and> (\<exists>u. tq_timers (sys_q s) r = Some u \<and> nId u = n) \<and>
         (\<exists>s1. run L s (Remove k n) = Some s1 \<and> removed s1 r)))) \<and>
    (removed s p \<longrightarrow> \<not> in_tree L (sys_q s) p \<and> \<not> listed (sys_q s) p \<and> \<not> in_pool (sys_q s) p \<and>
      ((\<exists>i. places L s p = {Held i} \<and> sys_calls s i \<in> {WaitRun p, FreeNow p}) \<or>
       places L s p = {Orphan} \<and> firing (sys_worker s) p \<and> (\<forall>i. held (sys_calls s i) \<noteq> p)) \<and>
      (\<forall>i j. sys_calls s i \<in> {WaitRun p, FreeNow p} \<longrightarrow> j \<noteq> i \<longrightarrow> held (sys_calls s j) \<noteq> p) \<and>
      (\<forall>i. sys_calls s i = FreeNow p \<longrightarrow> \<not> firing (sys_worker s) p) \<and>
      (\<forall>i. sys_calls s i = WaitRun p \<longrightarrow> i \<noteq> 0 \<and> WaitWhileRunning (sys_q s) p = Some (firing (sys_worker s) p)) \<and>
      (\<forall>s'. tq_step L s s' \<longrightarrow> (firing (sys_worker s') p \<longrightarrow> firing (sys_worker s) p) \<and> (removed s' p \<or> freed L s' p)))"
proof (intro conjI impI)
  obtain t xs fs role where view: "tq_view L s t xs fs role"
    using reach_view [OF assms] .
  then have rep: "tq_rep L (sys_q s) t xs fs" and own: "\<And>i p. role p = Some (Held i) \<longleftrightarrow> held (sys_calls s i) = p \<and> p \<noteq> NULL"
    and sets: "queued L t = {p. role p = Some Queued}" "set fs = {p. role p = Some InFree}"
    by (simp_all add: tq_view_def owned_def)
  show "\<exists>r b q'. RemoveTimer_cancel L (sys_q s) (k = 0) n = Some (r, b, q') \<and>
      (if r = NULL then q' = sys_q s \<and> (\<forall>p u. listed (sys_q s) p \<longrightarrow> tq_timers (sys_q s) p = Some u \<longrightarrow> nId u \<noteq> n)
       else listed (sys_q s) r \<and> (\<exists>u. tq_timers (sys_q s) r = Some u \<and> nId u = n) \<and>
         (\<exists>s1. run L s (Remove k n) = Some s1 \<and> removed s1 r))" if "enabled s (Remove k n)"
    by (rule Remove_removes [OF view that])
  assume "removed s p"
  then have old: "(\<exists>i. role p = Some (Held i) \<and> sys_calls s i \<in> {WaitRun p, FreeNow p}) \<or> role p = Some Orphan"
    using removed_role [OF view] by blast
  then have out: "p \<notin> queued L t" "p \<notin> set fs"
    using sets by auto
  then show "\<not> in_tree L (sys_q s) p" "\<not> in_pool (sys_q s) p" "\<not> listed (sys_q s) p"
    using in_tree_iff [OF rep] in_pool_iff [OF rep] listed_iff [OF rep] rep by (auto simp: tq_rep_def)
  show "(\<exists>i. places L s p = {Held i} \<and> sys_calls s i \<in> {WaitRun p, FreeNow p}) \<or>
      places L s p = {Orphan} \<and> firing (sys_worker s) p \<and> (\<forall>i. held (sys_calls s i) \<noteq> p)"
    using old
  proof
    assume orphan: "role p = Some Orphan"
    then have "p \<noteq> NULL"
      using view owned_by unfolding tq_view_def by blast
    then have "held (sys_calls s i) \<noteq> p" for i
      using own [of p i] orphan by auto
    then show ?thesis
      using orphan orphan_iff [OF view, of p] by (intro disjI2) (simp add: places_role [OF view])
  qed (auto simp: places_role [OF view])
  have busy: "obj_ok (sys_calls s) (firing (sys_worker s) p) u (Held i)" "p \<noteq> NULL" "role p = Some (Held i)"
    if "sys_calls s i \<in> {WaitRun p, FreeNow p}" "tq_timers (sys_q s) p = Some u" for i u
    using that tq_view_held [OF view, of i]
    by (metis caller.distinct(7,9) held.simps(5,6) insertE option.inject singletonD)+
  obtain u where u: "tq_timers (sys_q s) p = Some u"
    using old view owned_by by (metis tq_view_def)
  show "\<forall>i j. sys_calls s i \<in> {WaitRun p, FreeNow p} \<longrightarrow> j \<noteq> i \<longrightarrow> held (sys_calls s j) \<noteq> p"
    using busy(2,3) [OF _ u] own by (metis option.inject role.inject)
  show "\<forall>i. sys_calls s i = FreeNow p \<longrightarrow> \<not> firing (sys_worker s) p"
  proof (intro allI impI)
    fix i
    assume "sys_calls s i = FreeNow p"
    then show "\<not> firing (sys_worker s) p"
      using busy(1) [OF _ u, of i] by (simp add: obj_ok_def)
  qed
  show "\<forall>i. sys_calls s i = WaitRun p \<longrightarrow> i \<noteq> 0 \<and> WaitWhileRunning (sys_q s) p = Some (firing (sys_worker s) p)"
  proof (intro allI impI)
    fix i
    assume "sys_calls s i = WaitRun p"
    then show "i \<noteq> 0 \<and> WaitWhileRunning (sys_q s) p = Some (firing (sys_worker s) p)"
      using busy(1,2) [OF _ u, of i] u by (simp add: WaitWhileRunning_def load_nonnull obj_ok_def flag_def)
  qed
  show "\<forall>s'. tq_step L s s' \<longrightarrow> (firing (sys_worker s') p \<longrightarrow> firing (sys_worker s) p) \<and> (removed s' p \<or> freed L s' p)"
    using starts_queued [OF view] out(1) removed_step [OF view \<open>removed s p\<close>] by (blast elim: tq_step.cases)
qed

lemma sample_firing:
  "\<exists>s p u. tq_reach sample_layout s \<and> sys_worker s = Firing p 120000 \<and> (\<forall>i. sys_calls s i = Idle) \<and>
    listed (sys_q s) = (\<lambda>r. r = p) \<and> tq_timers (sys_q s) p = Some u \<and> nId u = 1"
proof -
  let ?L = sample_layout
  obtain s p t u xs fs where s: "tq_reach ?L s" "sys_worker s = Scanning" "\<forall>i. sys_calls s i = Idle" "tq_rep ?L (sys_q s) t xs fs"
      "set xs = {p}" "tq_timers (sys_q s) p = Some u" "nId u = 1" "nDueTime u = 12" "queued ?L t = {p}"
    using sample_queued by blast
  have L: "lay_tree ?L \<noteq> NULL"
    by (simp add: sample_layout_def)
  obtain t2 xs2 fs2 role where view: "tq_view ?L s t2 xs2 fs2 role"
    using reach_view [OF s(1) L] .
  then have q: "queued ?L t2 = {p}"
    using in_tree_iff [OF s(4)] in_tree_iff [of ?L "sys_q s" t2 xs2 fs2] s(9) by (auto simp: tq_view_def)
  obtain x ys where x: "inorder t2 = x # ys" "x = r + lay_node ?L \<Longrightarrow> r = p" for r
  proof (cases "inorder t2")
    case (Cons x ys)
    then have "r = p" if "x = r + lay_node ?L" for r
      using q that by (auto simp: queued_def)
    then show thesis
      using Cons that by blast
  qed (use q in \<open>simp add: queued_def\<close>)
  have "MX_100NS_TO_MILLISECONDS 120000 = 12"
    by (simp add: MX_100NS_TO_MILLISECONDS_def)
  then obtain q' where q': "p \<noteq> NULL" "ProcessQueue_pick ?L (sys_q s) 120000 = Some (p, INFINITE, q')"
      "q' = sys_q s\<lparr>tq_timers := (tq_timers (sys_q s))(p \<mapsto> u\<lparr>nFlags := nFlags u OR FLAG_Running\<rparr>)\<rparr>"
    using tq_view_pick [OF view refl, of 120000] x s(6,8) by auto
  let ?s = "s\<lparr>sys_q := q', sys_worker := Firing p 120000\<rparr>"
  have "tq_reach ?L ?s"
    by (rule reach_run [OF s(1), where e = "Pick 120000"]) (use s(2) q'(1,2) in simp_all)
  moreover have "listed q' = (\<lambda>r. r = p)"
    using listed_iff [OF s(4)] s(5) unfolding q'(3) by (auto simp: listed_def fun_eq_iff)
  ultimately show ?thesis
    using s(3,7) q'(3) by (intro exI [of _ ?s] exI [of _ p]) simp
qed

text \<open>A callback that cancels its own timer.\<close>

lemma removed_timer_is_quiet_witness:
  "\<exists>s p. tq_reach sample_layout s \<and> firing (sys_worker s) p \<and> removed s p \<and> places sample_layout s p = {Orphan} \<and>
    (\<forall>s'. tq_step sample_layout s s' \<longrightarrow> removed s' p \<or> freed sample_layout s' p)"
proof -
  let ?L = sample_layout
  obtain s p u where s: "tq_reach ?L s" "sys_worker s = Firing p 120000" "\<forall>i. sys_calls s i = Idle" "listed (sys_q s) = (\<lambda>r. r = p)"
      "tq_timers (sys_q s) p = Some u" "nId u = 1"
    using sample_firing by blast
  have L: "lay_tree ?L \<noteq> NULL"
    by (simp add: sample_layout_def)
  have e: "enabled s (Remove 0 1)"
    using s(2,3) by simp
  obtain r where "if r = NULL then \<forall>p u. listed (sys_q s) p \<longrightarrow> tq_timers (sys_q s) p = Some u \<longrightarrow> nId u \<noteq> 1
       else listed (sys_q s) r \<and> (\<exists>s1. run ?L s (Remove 0 1) = Some s1 \<and> removed s1 r)"
    using removed_timer_is_quiet [OF s(1) L, of 0 1 p, THEN conjunct1, THEN mp, OF e] by meson
  then obtain s1 where s1: "run ?L s (Remove 0 1) = Some s1" "removed s1 p"
    using s(4-6) by (auto split: if_splits)
  have reach: "tq_reach ?L s1"
    by (rule reach_run [OF s(1) e s1(1)])
  have "sys_worker s1 = sys_worker s"
    using s1(1) by (auto simp: go_def bind_eq_Some_conv)
  then have fires: "firing (sys_worker s1) p"
    using s(2) by (simp add: firing_def)
  have others: "sys_calls s1 i = Idle" if "i \<noteq> 0" for i
    using s1(1) s(3) that by (auto simp: go_def bind_eq_Some_conv)
  have quiet: "(\<exists>i. places ?L s1 p = {Held i} \<and> sys_calls s1 i \<in> {WaitRun p, FreeNow p}) \<or> places ?L s1 p = {Orphan}"
      "\<And>i. sys_calls s1 i = FreeNow p \<Longrightarrow> \<not> firing (sys_worker s1) p" "\<And>i. sys_calls s1 i = WaitRun p \<Longrightarrow> i \<noteq> 0"
      "\<And>s'. tq_step ?L s1 s' \<Longrightarrow> removed s' p \<or> freed ?L s' p"
    using removed_timer_is_quiet [OF reach L, of 0 1 p, THEN conjunct2, THEN mp, OF s1(2)] by blast+
  have "sys_calls s1 i \<notin> {WaitRun p, FreeNow p}" for i
    using quiet(2,3) [of i] fires others [of i] by auto
  then have "places ?L s1 p = {Orphan}"
    using quiet(1) by blast
  then show ?thesis
    using reach fires s1(2) quiet(4) by blast
qed

section \<open>The destructor\<close>

lemma destroy_queued_rep:
  assumes "tq_rep L q t [] fs"
  shows "\<exists>q'. destroy_queued L q = Some q' \<and> tq_rep L q' Lf [] fs \<and>
    tq_timers q' = (\<lambda>p. if p \<in> queued L t then None else tq_timers q p)"
  using assms
proof (induction "length (inorder t)" arbitrary: q t rule: less_induct)
  case less
  have tree: "rb_rep (lay_tree L) (tq_cTree q) t" and heap: "heap_ok L (tq_timers q) (rb_nodes (tq_cTree q))"
    and ok: "tree_ok L (tq_timers q) (tq_cTree q) t"
    using less.prems by (simp_all add: tq_rep_def tree_ok_def)
  show ?case
  proof (cases "inorder t")
    case Nil
    then have "t = Lf"
      by (cases t) auto
    then show ?thesis
      using rb_GetFirst_rep [OF tree] less.prems by (subst destroy_queued.simps) (simp add: queued_def)
  next
    case (Cons x ys)
    then obtain p where p: "x = p + lay_node L" "p \<in> queued L t"
      using queued_image [OF less.prems] by auto
    have null: "x \<noteq> NULL"
      using rb_rep_nonnull [OF tree] Cons by auto
    obtain T' t' where T': "rb_node_Remove (tq_cTree q) x = Some T'" "tree_ok L (tq_timers q) T' t'" "queued L t' = queued L t - {p}"
        "heap_ok L (tq_timers q) (rb_nodes T')" "inorder t' = ys"
      using tree_remove [OF heap ok p(2)] Cons p(1) by auto
    let ?q = "q\<lparr>tq_cTree := T'\<rparr>"
    have rep': "tq_rep L ?q t' [] fs"
      using less.prems T'(2-4) by (auto simp: tq_rep_def)
    have "p \<in> dom (tq_timers ?q)" "p \<notin> queued L t'" "p \<notin> set fs"
      using queued_dom [OF less.prems] p(2) T'(3) less.prems by (auto simp: tq_rep_def)
    then obtain q1 where q1: "delete_timer L ?q p = Some q1" "tq_rep L q1 t' [] fs" "tq_timers q1 = (tq_timers q)(p := None)"
      using delete_timer_rep [OF rep'] by auto
    obtain q' where q': "destroy_queued L q1 = Some q'" "tq_rep L q' Lf [] fs"
        "tq_timers q' = (\<lambda>p. if p \<in> queued L t' then None else tq_timers q1 p)"
      using less.hyps [OF _ q1(2)] T'(5) Cons by auto
    have "destroy_queued L q = Some q'"
      using rb_GetFirst_rep [OF tree] Cons null p(1) T'(1) q1(1) q'(1)
      by (subst destroy_queued.simps) (simp add: CONTAINING_RECORD_def)
    moreover have "tq_timers q' = (\<lambda>r. if r \<in> queued L t then None else tq_timers q r)"
      unfolding q'(3) q1(3) T'(3) using p(2) by auto
    ultimately show ?thesis
      using q'(2) by blast
  qed
qed

lemma destroy_free_rep:
  assumes "free_list (tq_timers q) (tq_lpFirst q) fs" and "distinct fs"
  shows "\<exists>q'. destroy_free L q = Some q' \<and> tq_timers q' = (\<lambda>p. if p \<in> set fs then None else tq_timers q p) \<and>
    rb_nodes (tq_cTree q') = (\<lambda>x. if x \<in> (\<lambda>p. p + lay_node L) ` set fs then None else rb_nodes (tq_cTree q) x)"
  using assms
proof (induction fs arbitrary: q)
  case Nil
  then show ?case
    by (subst destroy_free.simps) simp
next
  case (Cons p fs)
  then obtain u where u: "tq_lpFirst q = p" "p \<noteq> NULL" "tq_timers q p = Some u" "free_list (tq_timers q) (lpNextInFreeList u) fs"
      "p \<notin> set fs"
    by auto
  let ?q = "q\<lparr>tq_lpFirst := lpNextInFreeList u, tq_timers := (tq_timers q)(p := None),
    tq_cTree := tq_cTree q\<lparr>rb_nodes := (rb_nodes (tq_cTree q))(p + lay_node L := None)\<rparr>\<rparr>"
  have "free_list (tq_timers ?q) (tq_lpFirst ?q) fs"
    using u(4,5) by (simp add: free_list_upd)
  from Cons.IH [OF this] Cons.prems(2) obtain q' where "destroy_free L ?q = Some q'"
      "tq_timers q' = (\<lambda>p. if p \<in> set fs then None else tq_timers ?q p)"
      "rb_nodes (tq_cTree q') = (\<lambda>x. if x \<in> (\<lambda>p. p + lay_node L) ` set fs then None else rb_nodes (tq_cTree ?q) x)"
    by auto
  moreover have "destroy_free L q = destroy_free L ?q"
    using u(1-3) by (subst destroy_free.simps) (simp add: load_nonnull delete_timer_def)
  ultimately show ?case
    by (intro exI [of _ q']) auto
qed

text \<open>
  C6. The destructor, when no thread is inside the handler and the worker has stopped, ends and
  frees every timer: the queued ones and the ones in the free list, each once; no storage is left.
\<close>

theorem destructor_frees_all:
  assumes "tq_reach L s" and "lay_tree L \<noteq> NULL" and "\<forall>i. sys_calls s i = Idle" and "sys_worker s = Scanning"
  shows "\<exists>q'. CTimerHandler_destroy L (sys_q s) = Some q' \<and> tq_timers q' = Map.empty \<and> rb_nodes (tq_cTree q') = Map.empty"
proof -
  obtain t xs fs role where view: "tq_view L s t xs fs role"
    using reach_view [OF assms(1,2)] .
  let ?q = "sys_q s"
  have rep: "tq_rep L ?q t xs fs" and own: "owned (tq_timers ?q) (sys_calls s) (sys_worker s) role"
    and sets: "queued L t = {p. role p = Some Queued}" "set fs = {p. role p = Some InFree}"
    using view by (simp_all add: tq_view_def)
  have all: "tq_timers ?q p = None" if "p \<notin> queued L t" "p \<notin> set fs" for p
  proof -
    have "role p = None"
    proof (cases "role p")
      case (Some r)
      then obtain u where "obj_ok (sys_calls s) (firing (sys_worker s) p) u r" "p \<noteq> NULL"
        using owned_by [OF own] by blast
      moreover have "r \<noteq> Held i" for i
        using Some own assms(3) calculation(2) by (auto simp: owned_def)
      ultimately show ?thesis
        using that Some sets assms(4) by (cases r) (auto simp: obj_ok_def firing_def)
    qed
    then show ?thesis
      using own by (metis domIff owned_def)
  qed
  let ?r = "?q\<lparr>tq_cSortedByIdList := TArrayList\<rparr>"
  have "arr_rep (tq_cSortedByIdList ?q) xs"
    using rep by (simp add: tq_rep_def list_ok_def)
  then have "al_RemoveAllElements (tq_cSortedByIdList ?q) = Some (TArrayList, xs)"
    by (rule al_RemoveAllElements_rep)
  moreover have same: "tq_timers ?r = tq_timers ?q" and "tq_rep L ?r t [] fs"
    using rep by (simp_all add: tq_rep_def list_ok_def arr_rep_empty)
  then obtain q1 where q1: "destroy_queued L ?r = Some q1" "tq_rep L q1 Lf [] fs"
      "tq_timers q1 = (\<lambda>p. if p \<in> queued L t then None else tq_timers ?q p)"
    using destroy_queued_rep [of L ?r t fs] unfolding same by blast
  moreover obtain q' where q': "destroy_free L q1 = Some q'" "tq_timers q' = (\<lambda>p. if p \<in> set fs then None else tq_timers q1 p)"
      "rb_nodes (tq_cTree q') = (\<lambda>x. if x \<in> (\<lambda>p. p + lay_node L) ` set fs then None else rb_nodes (tq_cTree q1) x)"
    using destroy_free_rep [of q1 fs L] q1(2) by (auto simp: tq_rep_def free_ok_def)
  moreover have "tq_timers q1 p = None" if "p \<notin> set fs" for p
    using all [OF _ that] by (simp add: q1(3))
  then have "dom (tq_timers q1) \<subseteq> set fs"
    by (metis domIff subsetI)
  then have "dom (rb_nodes (tq_cTree q1)) \<subseteq> (\<lambda>p. p + lay_node L) ` set fs"
    using q1(2) by (auto simp: tq_rep_def heap_ok_def)
  then have "rb_nodes (tq_cTree q') = Map.empty"
    unfolding q'(3) by (intro ext) auto
  moreover have "tq_timers q' = Map.empty"
    unfolding q'(2) using \<open>dom (tq_timers q1) \<subseteq> set fs\<close> by (intro ext) auto
  ultimately show ?thesis
    by (simp add: CTimerHandler_destroy_def)
qed
lemma destructor_frees_all_witness:
  "\<exists>s p q'. tq_reach sample_layout s \<and> in_tree sample_layout (sys_q s) p \<and>
     CTimerHandler_destroy sample_layout (sys_q s) = Some q' \<and> tq_timers q' = Map.empty"
proof -
  obtain s p t xs fs where s: "tq_reach sample_layout s" "sys_worker s = Scanning" "\<forall>i. sys_calls s i = Idle"
      "tq_rep sample_layout (sys_q s) t xs fs" "p \<in> queued sample_layout t"
    using sample_queued by blast
  moreover have "lay_tree sample_layout \<noteq> NULL"
    by (simp add: sample_layout_def)
  ultimately show ?thesis
    using destructor_frees_all [of sample_layout s] in_tree_iff [OF s(4)] by blast
qed


section \<open>A rare case\<close>

text \<open>
  After a wrap of the ids: an id that is still in use is given to a second timer. \<open>AddTimer\<close> reports
  success and queues the timer, but the array keeps only the first one, so \<open>RemoveTimer\<close> never finds it.
\<close>

lemma duplicate_id_not_listed:
  assumes rep: "tq_rep L q t xs fs" and p: "tq_timers q p = Some u" "p \<notin> queued L t" "p \<notin> set fs"
    and id: "r \<in> set xs" "tq_timers q r = Some v" "nId v = nId u"
  shows "\<exists>q' t'. AddTimer_insert L (\<lambda>_. True) q p now = Some (S_OK, nId u, q') \<and> tq_rep L q' t' xs fs \<and> p \<in> queued L t' \<and> p \<notin> set xs"
proof -
  let ?h = "(tq_timers q)(p \<mapsto> CalculateDueTime now u)"
  have "r \<noteq> p" "p \<notin> set xs"
    using id(1) p(2) rep by (auto simp: tq_rep_def)
  moreover have "id_of ?h p \<in> id_of ?h ` set xs"
    using id calculation by (auto simp: id_of_def CalculateDueTime_def intro!: image_eqI [where x = r])
  ultimately obtain q' t' where "AddTimer_insert L (\<lambda>_. True) q p now = Some (S_OK, nId u, q')" "tq_rep L q' t' xs fs"
      "queued L t' = insert p (queued L t)"
    using AddTimer_insert_rep [OF rep p refl, of "\<lambda>_. True" now] by auto
  then show ?thesis
    using \<open>p \<notin> set xs\<close> by (intro exI [of _ q'] exI [of _ t']) simp
qed
end
