(* ===== verification/Blocks.thy ===== *)
theory Blocks
  imports MX_Prelude
begin

text \<open>
  The results of the operations (\<open>HRESULT\<close>), and blocks of the heap as lists, for the components that copy parts of their buffers with
  \<open>MxMemCopy\<close> and \<open>MxMemMove\<close> (modelled and proved in \<open>MemoryObjects\<close>): a part of a block is read or
  replaced, and a part that does not lie inside the block is a fault, \<open>None\<close>. An allocator is a
  function from the size to the block with its arbitrary contents, or to none.
\<close>

section \<open>Results\<close>

datatype HRESULT = S_OK | E_FAIL | E_INVALIDARG | E_POINTER | E_OUTOFMEMORY | MX_E_BufferOverflow | MX_E_InvalidData
  | MX_E_Unsupported | MX_E_NotReady | MX_E_WriteFault | MX_E_BadLength | MX_E_EndOfFileReached | MX_E_ArithmeticOverflow
  | ERROR_DATA_NOT_ACCEPTED | WSAECONNRESET

section \<open>Parts of a block\<close>

definition block_read :: "'a list \<Rightarrow> nat \<Rightarrow> nat \<Rightarrow> 'a list option" where
  "block_read b off n = (if n = 0 then Some [] else if off + n \<le> length b then Some (take n (drop off b)) else None)"

definition block_write :: "'a list \<Rightarrow> nat \<Rightarrow> 'a list \<Rightarrow> 'a list option" where
  "block_write b off xs =
     (if xs = [] then Some b
      else if off + length xs \<le> length b then Some (take off b @ xs @ drop (off + length xs) b) else None)"

lemma block_read_ok: "off + n \<le> length b \<Longrightarrow> block_read b off n = Some (take n (drop off b))"
  by (simp add: block_read_def)

lemma block_write_ok: "off + length xs \<le> length b \<Longrightarrow> block_write b off xs = Some (take off b @ xs @ drop (off + length xs) b)"
  by (simp add: block_write_def)

lemma block_write_length: "block_write b off xs = Some b' \<Longrightarrow> length b' = length b"
  by (auto simp: block_write_def split: if_splits)

lemma block_write_prefix: "off + length xs \<le> length b \<Longrightarrow>
    \<exists>b'. block_write b off xs = Some b' \<and> length b' = length b \<and> take (off + length xs) b' = take off b @ xs"
  by (simp add: block_write_ok)

text \<open>Both by position.\<close>

lemma block_read_nth: "off + n \<le> length b \<Longrightarrow>
    \<exists>xs. block_read b off n = Some xs \<and> length xs = n \<and> (\<forall>i < n. xs ! i = b ! (off + i))"
  by (simp add: block_read_ok)

lemma block_write_nth: "off + length xs \<le> length b \<Longrightarrow>
    \<exists>b'. block_write b off xs = Some b' \<and> length b' = length b \<and>
      (\<forall>j < length b. b' ! j = (if off \<le> j \<and> j < off + length xs then xs ! (j - off) else b ! j))"
  by (auto simp: block_write_ok nth_append min_def)

section \<open>Allocators\<close>

type_synonym 'a allocator = "u64 \<Rightarrow> 'a list option"

text \<open>
  A block has the size that was asked for, and no block is as large as the address space of a
  process (2 to the 47th bytes).
\<close>

definition fair :: "'a allocator \<Rightarrow> bool" where
  "fair malloc \<longleftrightarrow> (\<forall>n b. malloc n = Some b \<longrightarrow> length b = unat n \<and> unat n \<le> 2 ^ 47)"

lemma fairD: "fair malloc \<Longrightarrow> malloc n = Some b \<Longrightarrow> length b = unat n" "fair malloc \<Longrightarrow> malloc n = Some b \<Longrightarrow> unat n \<le> 2 ^ 47"
  by (auto simp: fair_def)

text \<open>The allocator grants every block up to a size.\<close>

definition roomy :: "'a allocator \<Rightarrow> nat \<Rightarrow> bool" where
  "roomy malloc b \<longleftrightarrow> (\<forall>n. unat n \<le> b \<longrightarrow> malloc n \<noteq> None)"

lemma roomy_mono: "roomy malloc b \<Longrightarrow> a \<le> b \<Longrightarrow> roomy malloc a"
  by (auto simp: roomy_def)

lemma not_roomyI: "malloc n = None \<Longrightarrow> unat n \<le> b \<Longrightarrow> \<not> roomy malloc b"
  by (auto simp: roomy_def)

text \<open>The sample allocator of the examples: zeros, up to 64 KB.\<close>

definition zeros :: "u8 allocator" where
  "zeros n = (if n \<le> 0x10000 then Some (replicate (unat n) 0) else None)"

lemma fair_zeros: "fair zeros"
proof -
  have "unat n \<le> 2 ^ 47" if "n \<le> 0x10000" for n :: u64
  proof -
    have "unat n \<le> 65536"
      using that by (simp add: word_le_nat_alt)
    then show ?thesis
      by simp
  qed
  then show ?thesis
    by (auto simp: fair_def zeros_def split: if_splits)
qed

end
