(* ===== verification/CircularBuffer.thy ===== *)
theory CircularBuffer
  imports Blocks
begin

unbundle bit_operations_syntax

text \<open>
  The circular byte buffer of \<open>Source/CircularBuffer.cpp\<close>: a block with the position and the number
  of the bytes that are stored, which may go around its end. Sizes are machine words. The functions
  that hand out pointers return offsets into the block; the buffers of the caller are lists.
\<close>

section \<open>State\<close>

record cbuf =
  cb_lpData :: "u8 list option"
  cb_nSize :: u64
  cb_nStart :: u64
  cb_nLen :: u64

definition CCircularBuffer :: cbuf where
  "CCircularBuffer = \<lparr>cb_lpData = None, cb_nSize = 0, cb_nStart = 0, cb_nLen = 0\<rparr>"

section \<open>The parts to read and to write\<close>

text \<open>Two pointers, each null or an offset, with the sizes of the parts.\<close>

type_synonym parts = "u64 option \<times> u64 \<times> u64 option \<times> u64"

definition GetReadPtr :: "cbuf \<Rightarrow> parts" where
  "GetReadPtr s =
     (if cb_lpData s = None then (None, 0, None, 0)
      else if cb_nStart s \<le> cb_nSize s - cb_nLen s then (Some (cb_nStart s), cb_nLen s, None, 0)
      else (Some (cb_nStart s), cb_nSize s - cb_nStart s, Some 0, cb_nLen s - (cb_nSize s - cb_nStart s)))"

definition AdvanceReadPtr :: "cbuf \<Rightarrow> u64 \<Rightarrow> HRESULT \<times> cbuf" where
  "AdvanceReadPtr s nCount =
     (if cb_lpData s = None then (E_FAIL, s)
      else if nCount > cb_nLen s then (E_INVALIDARG, s)
      else (S_OK, s\<lparr>cb_nStart := (if cb_nStart s < cb_nSize s - nCount then cb_nStart s + nCount
                                   else cb_nStart s - (cb_nSize s - nCount)),
                    cb_nLen := cb_nLen s - nCount\<rparr>))"

definition GetWritePtr :: "cbuf \<Rightarrow> parts" where
  "GetWritePtr s =
     (if cb_lpData s = None \<or> cb_nSize s = cb_nLen s then (None, 0, None, 0)
      else if cb_nStart s < cb_nSize s - cb_nLen s then
        (let nEnd = cb_nStart s + cb_nLen s in
         if cb_nStart s > 0 then (Some nEnd, cb_nSize s - nEnd, Some 0, cb_nStart s)
         else (Some nEnd, cb_nSize s - nEnd, None, 0))
      else (Some (cb_nStart s - (cb_nSize s - cb_nLen s)), cb_nSize s - cb_nLen s, None, 0))"

definition AdvanceWritePtr :: "cbuf \<Rightarrow> u64 \<Rightarrow> HRESULT \<times> cbuf" where
  "AdvanceWritePtr s nCount =
     (if cb_lpData s = None then (E_FAIL, s)
      else if nCount > cb_nSize s - cb_nLen s then (E_INVALIDARG, s)
      else (S_OK, s\<lparr>cb_nLen := cb_nLen s + nCount\<rparr>))"

definition GetAvailableForRead :: "cbuf \<Rightarrow> u64" where
  "GetAvailableForRead s = (case GetReadPtr s of (_, nSize1, _, nSize2) \<Rightarrow> nSize1 + nSize2)"

text \<open>Reading and writing through such a pointer; a null pointer may be used for no bytes only.\<close>

definition part_read :: "u8 list option \<Rightarrow> u64 option \<Rightarrow> u64 \<Rightarrow> u8 list option" where
  "part_read d p n =
     (if n = 0 then Some [] else do { d \<leftarrow> d; p \<leftarrow> p; block_read d (unat p) (unat n) })"

definition part_write :: "u8 list option \<Rightarrow> u64 option \<Rightarrow> u8 list \<Rightarrow> u8 list option option" where
  "part_write d p xs =
     (if xs = [] then Some d else do { b \<leftarrow> d; p \<leftarrow> p; b \<leftarrow> block_write b (unat p) xs; Some (Some b) })"

section \<open>Search\<close>

text \<open>One loop over a part: the index of the byte, or the end of the part.\<close>

function find_byte :: "u8 list option \<Rightarrow> u64 option \<Rightarrow> u8 \<Rightarrow> u64 \<Rightarrow> u64 \<Rightarrow> (bool \<times> u64) option" where
  "find_byte d p nToScan i n =
     (if i < n then do {
        xs \<leftarrow> do { d \<leftarrow> d; p \<leftarrow> p; block_read d (unat p + unat i) 1 };
        if hd xs = nToScan then Some (True, i) else find_byte d p nToScan (i + 1) n
      }
      else Some (False, i))"
  by pat_completeness auto
termination
  by (relation "measure (\<lambda>(d, p, b, i, n). unat n - unat i)") (auto simp: unat_inc word_less_nat_alt)

declare find_byte.simps [simp del]

definition Find :: "cbuf \<Rightarrow> u8 \<Rightarrow> u64 \<Rightarrow> u64 option" where
  "Find s nToScan nStartPos = (case GetReadPtr s of (lpPtr1, nSize1, lpPtr2, nSize2) \<Rightarrow>
     if nStartPos \<ge> nSize1 + nSize2 then Some (-1)
     else do {
       (found, i) \<leftarrow> (if nStartPos < nSize1 then do {
            (found, i) \<leftarrow> find_byte (cb_lpData s) lpPtr1 nToScan nStartPos nSize1;
            Some (found, if found then i else 0)
          }
          else Some (False, nStartPos - nSize1));
       if found then Some i
       else do {
         (found, i) \<leftarrow> find_byte (cb_lpData s) lpPtr2 nToScan i nSize2;
         Some (if found then i + nSize1 else -1)
       }
     })"

section \<open>Reading and writing\<close>

text \<open>The bytes that are written to the destination; their number is the result.\<close>

definition Peek :: "cbuf \<Rightarrow> bool \<Rightarrow> u64 \<Rightarrow> u8 list option" where
  "Peek s lpDestIsNull nToRead =
     (if lpDestIsNull \<or> nToRead = 0 then Some []
      else case GetReadPtr s of (lpPtr1, nSize1, lpPtr2, nSize2) \<Rightarrow> do {
        let nReaded = (if nToRead < nSize1 then nToRead else nSize1);
        xs \<leftarrow> part_read (cb_lpData s) lpPtr1 nReaded;
        if nToRead > nSize1 then do {
          let nToRead = nToRead - nSize1;
          let nToRead = (if nToRead > nSize2 then nSize2 else nToRead);
          ys \<leftarrow> part_read (cb_lpData s) lpPtr2 nToRead;
          Some (xs @ ys)
        }
        else Some xs
      })"

definition Read :: "cbuf \<Rightarrow> bool \<Rightarrow> u64 \<Rightarrow> (u8 list \<times> cbuf) option" where
  "Read s lpDestIsNull nToRead = do {
     xs \<leftarrow> Peek s lpDestIsNull nToRead;
     let nReaded = of_nat (length xs);
     Some (xs, if nReaded > 0 then snd (AdvanceReadPtr s nReaded) else s)
   }"

text \<open>Rounding up to whole pages.\<close>

definition page_up :: "u64 \<Rightarrow> u64" where
  "page_up n = (n + 4095) AND NOT 0xFFF"

definition SetBufferSize :: "u8 allocator \<Rightarrow> cbuf \<Rightarrow> u64 \<Rightarrow> (HRESULT \<times> cbuf) option" where
  "SetBufferSize malloc s n =
     (if n = 0 then Some (S_OK, \<lparr>cb_lpData = None, cb_nSize = 0, cb_nStart = 0, cb_nLen = 0\<rparr>)
      else case cb_lpData s of
        None \<Rightarrow> (case malloc (page_up n) of
            None \<Rightarrow> Some (E_OUTOFMEMORY, s)
          | Some b \<Rightarrow> Some (S_OK, s\<lparr>cb_lpData := Some b, cb_nSize := page_up n\<rparr>))
      | Some d \<Rightarrow>
          (if cb_nLen s > n then Some (E_OUTOFMEMORY, s)
           else case malloc (page_up n) of
              None \<Rightarrow> Some (E_OUTOFMEMORY, s)
            | Some b \<Rightarrow> do {
                b \<leftarrow> (if cb_nStart s + cb_nLen s \<le> cb_nSize s then do {
                       xs \<leftarrow> block_read d (unat (cb_nStart s)) (unat (cb_nLen s));
                       block_write b 0 xs
                     }
                     else do {
                       let nTemp = cb_nSize s - cb_nStart s;
                       xs \<leftarrow> block_read d (unat (cb_nStart s)) (unat nTemp);
                       b \<leftarrow> block_write b 0 xs;
                       ys \<leftarrow> block_read d 0 (unat (cb_nLen s - nTemp));
                       block_write b (unat nTemp) ys
                     });
                Some (S_OK, s\<lparr>cb_lpData := Some b, cb_nSize := page_up n, cb_nStart := 0\<rparr>)
              }))"

definition Write :: "u8 allocator \<Rightarrow> cbuf \<Rightarrow> u8 list option \<Rightarrow> u64 \<Rightarrow> bool \<Rightarrow> (HRESULT \<times> cbuf) option" where
  "Write malloc s lpSrc nSrcLength bExpandIfNeeded = (case lpSrc of
     None \<Rightarrow> Some (E_POINTER, s)
   | Some src \<Rightarrow>
       if nSrcLength = 0 then Some (E_INVALIDARG, s)
       else if cb_nLen s + nSrcLength < cb_nLen s then Some (E_OUTOFMEMORY, s)
       else do {
         (hRes, s) \<leftarrow> (if cb_nLen s + nSrcLength > cb_nSize s then
             (if \<not> bExpandIfNeeded then Some (MX_E_BufferOverflow, s)
              else
                let nCap = push_bit 1 (cb_nSize s);
                    nCap = (if nCap < cb_nSize s \<or> nCap < cb_nLen s + nSrcLength then cb_nLen s + nSrcLength else nCap) in
                SetBufferSize malloc s nCap)
           else Some (S_OK, s));
         if hRes \<noteq> S_OK then Some (hRes, s)
         else case GetWritePtr s of (lpPtr1, nSize1, lpPtr2, nSize2) \<Rightarrow> do {
           d \<leftarrow> (if nSrcLength \<le> nSize1 then do {
                  xs \<leftarrow> block_read src 0 (unat nSrcLength);
                  part_write (cb_lpData s) lpPtr1 xs
                }
                else do {
                  xs \<leftarrow> block_read src 0 (unat nSize1);
                  d \<leftarrow> part_write (cb_lpData s) lpPtr1 xs;
                  ys \<leftarrow> block_read src (unat nSize1) (unat (nSrcLength - nSize1));
                  part_write d lpPtr2 ys
                });
           Some (AdvanceWritePtr (s\<lparr>cb_lpData := d\<rparr>) nSrcLength)
         }
       })"

definition EnsureWritableSize :: "u8 allocator \<Rightarrow> cbuf \<Rightarrow> u64 \<Rightarrow> (HRESULT \<times> cbuf) option" where
  "EnsureWritableSize malloc s n = (case GetWritePtr s of (_, nWritable0, _, nWritable1) \<Rightarrow>
     if n \<le> nWritable0 + nWritable1 then Some (S_OK, s)
     else let nRemaining = n - (nWritable0 + nWritable1) in SetBufferSize malloc s (cb_nSize s + nRemaining))"

section \<open>Rearranging\<close>

text \<open>
  A turn of the loop of \<open>ReArrangeBuffer\<close> moves the last bytes of the block, at most 4096, to its
  beginning. The loop works on the block and moves the start ahead.
\<close>

definition rearrange_count :: "u64 \<Rightarrow> u64 \<Rightarrow> u64" where
  "rearrange_count nSize nStart = (let nEndAreaLen = nSize - nStart in if nEndAreaLen > 4096 then 4096 else nEndAreaLen)"

definition rearrange_turn :: "u8 list \<Rightarrow> u64 \<Rightarrow> u64 \<Rightarrow> u64 \<Rightarrow> u8 list option" where
  "rearrange_turn d nSize nStart nLen = do {
     let nEndAreaLen = nSize - nStart;
     let nStartAreaLen = nLen - nEndAreaLen;
     let nToMove = rearrange_count nSize nStart;
     aTempBuffer \<leftarrow> block_read d (unat (nSize - nToMove)) (unat nToMove);
     d \<leftarrow> (if nToMove < nEndAreaLen then do {
            xs \<leftarrow> block_read d (unat nStart) (unat (nEndAreaLen - nToMove));
            block_write d (unat (nStart + nToMove)) xs
          }
          else Some d);
     xs \<leftarrow> block_read d 0 (unat nStartAreaLen);
     d \<leftarrow> block_write d (unat (nStart + nToMove)) xs;
     block_write d 0 aTempBuffer
   }"

partial_function (option) rearrange :: "u8 list \<Rightarrow> u64 \<Rightarrow> u64 \<Rightarrow> u64 \<Rightarrow> u8 list option" where
  "rearrange d nSize nStart nLen =
     (if nStart \<noteq> nSize then do {
        d \<leftarrow> rearrange_turn d nSize nStart nLen;
        rearrange d nSize (nStart + rearrange_count nSize nStart) nLen
      }
      else Some d)"

declare rearrange.simps [code]

definition ReArrangeBuffer :: "cbuf \<Rightarrow> cbuf option" where
  "ReArrangeBuffer s = (case cb_lpData s of
     None \<Rightarrow> Some s
   | Some d \<Rightarrow>
       if cb_nLen s > 0 \<and> cb_nStart s > 0 then do {
         d \<leftarrow> rearrange d (cb_nSize s) (cb_nStart s) (cb_nLen s);
         Some (s\<lparr>cb_lpData := Some d, cb_nStart := 0\<rparr>)
       }
       else Some s)"

end
