(* ===== verification/CircularBuffer_Props.thy ===== *)
theory CircularBuffer_Props
  imports CircularBuffer
begin

unbundle bit_operations_syntax

text \<open>
  The circular buffer is a queue of bytes: what is written is read in the same order, whatever the
  position in the block and however often it goes around, and enlarging the block keeps the bytes.
\<close>

section \<open>The bytes that are stored\<close>

definition ring :: "'a list \<Rightarrow> nat \<Rightarrow> nat \<Rightarrow> 'a list" where
  "ring d a n = map (\<lambda>i. d ! ((a + i) mod length d)) [0..<n]"

definition cb_rep :: "cbuf \<Rightarrow> u8 list \<Rightarrow> bool" where
  "cb_rep s xs \<longleftrightarrow> (case cb_lpData s of
     None \<Rightarrow> cb_nSize s = 0 \<and> cb_nStart s = 0 \<and> cb_nLen s = 0 \<and> xs = []
   | Some d \<Rightarrow> length d = unat (cb_nSize s) \<and> unat (cb_nSize s) \<le> 2 ^ 47 \<and> unat (cb_nStart s) < unat (cb_nSize s) \<and>
       unat (cb_nLen s) \<le> unat (cb_nSize s) \<and> xs = ring d (unat (cb_nStart s)) (unat (cb_nLen s)))"

lemma cb_rep_init: "cb_rep CCircularBuffer []"
  by (simp add: cb_rep_def CCircularBuffer_def)

lemma length_ring [simp]: "length (ring d a n) = n"
  by (simp add: ring_def)

lemma nth_ring [simp]: "i < n \<Longrightarrow> ring d a n ! i = d ! ((a + i) mod length d)"
  by (simp add: ring_def)

lemma cb_rep_length: "cb_rep s xs \<Longrightarrow> length xs = unat (cb_nLen s)"
  by (auto simp: cb_rep_def split: option.splits)

lemma around: "a < S \<Longrightarrow> i \<le> S \<Longrightarrow> (a + i) mod S = (if a + i < S then a + i else a + i - S)" for a :: nat
  by (auto simp: mod_if)

text \<open>A part of the block that holds given bytes.\<close>

definition part_is :: "u8 list option \<Rightarrow> u64 option \<Rightarrow> u64 \<Rightarrow> u8 list \<Rightarrow> bool" where
  "part_is d p n ys \<longleftrightarrow> unat n = length ys \<and>
     (ys = [] \<or> (\<exists>b q. d = Some b \<and> p = Some q \<and> unat q + length ys \<le> length b \<and> (\<forall>i < length ys. b ! (unat q + i) = ys ! i)))"

lemma part_is_read:
  assumes "part_is d p n ys" and "m \<le> n"
  shows "part_read d p m = Some (take (unat m) ys)"
proof (cases "m = 0")
  case True
  then show ?thesis
    by (simp add: part_read_def)
next
  case False
  have m: "unat m \<le> length ys" "ys \<noteq> []"
    using assms False by (auto simp: part_is_def word_le_nat_alt unat_eq_zero)
  then obtain b q where b: "d = Some b" "p = Some q" "unat q + length ys \<le> length b" "\<forall>i < length ys. b ! (unat q + i) = ys ! i"
    using assms(1) by (auto simp: part_is_def)
  obtain xs where "block_read b (unat q) (unat m) = Some xs" "length xs = unat m" "\<forall>i < unat m. xs ! i = b ! (unat q + i)"
    using block_read_nth [of "unat q" "unat m" b] b(3) m(1) by auto
  moreover have "xs = take (unat m) ys"
    using calculation b(4) m(1) by (intro nth_equalityI) auto
  ultimately show ?thesis
    using b False by (simp add: part_read_def)
qed

lemma part_is_byte:
  assumes "part_is d p n ys" and "i < n"
  shows "do { d \<leftarrow> d; p \<leftarrow> p; block_read d (unat p + unat i) 1 } = Some [ys ! unat i]"
proof -
  have i: "unat i < length ys"
    using assms by (simp add: part_is_def word_less_nat_alt)
  then obtain b q where b: "d = Some b" "p = Some q" "unat q + length ys \<le> length b" "\<forall>i < length ys. b ! (unat q + i) = ys ! i"
    using assms(1) by (auto simp: part_is_def)
  obtain xs where "block_read b (unat q + unat i) 1 = Some xs" "length xs = 1" "xs ! 0 = b ! (unat q + unat i)"
    using block_read_nth [of "unat q + unat i" 1 b] b(3) i by auto
  moreover have "xs = [ys ! unat i]"
    using calculation b(4) i by (cases xs) auto
  ultimately show ?thesis
    using b by simp
qed

section \<open>The parts\<close>

lemma GetReadPtr_rep:
  assumes "cb_rep s xs"
  shows "\<exists>p1 n1 p2 n2 ys zs. GetReadPtr s = (p1, n1, p2, n2) \<and> xs = ys @ zs \<and>
    part_is (cb_lpData s) p1 n1 ys \<and> part_is (cb_lpData s) p2 n2 zs \<and> unat n1 + unat n2 < 2 ^ 64"
proof (cases "cb_lpData s")
  case None
  then show ?thesis
    using assms by (auto simp: cb_rep_def GetReadPtr_def part_is_def)
next
  case (Some d)
  let ?S = "unat (cb_nSize s)" and ?A = "unat (cb_nStart s)" and ?N = "unat (cb_nLen s)"
  have r: "length d = ?S" "?S \<le> 2 ^ 47" "?A < ?S" "?N \<le> ?S" "xs = ring d ?A ?N"
    using assms Some by (simp_all add: cb_rep_def)
  have sub: "unat (cb_nSize s - cb_nLen s) = ?S - ?N" "unat (cb_nSize s - cb_nStart s) = ?S - ?A"
    using r by (auto simp: unat_sub_le word_le_nat_alt)
  show ?thesis
  proof (cases "cb_nStart s \<le> cb_nSize s - cb_nLen s")
    case True
    then have le: "?A + ?N \<le> ?S"
      using sub r by (simp add: word_le_nat_alt)
    have "part_is (cb_lpData s) (Some (cb_nStart s)) (cb_nLen s) xs"
      using r le Some by (auto simp: part_is_def around)
    moreover have "part_is (cb_lpData s) None 0 []"
      by (simp add: part_is_def)
    moreover have "?N < 2 ^ 64"
      using r by simp
    ultimately show ?thesis
      using True Some
      by (intro exI [of _ "Some (cb_nStart s)"] exI [of _ "cb_nLen s"] exI [of _ None] exI [of _ 0] exI [of _ xs] exI [of _ "[]"])
        (simp add: GetReadPtr_def)
  next
    case False
    then have gt: "?S < ?A + ?N"
      using sub r by (simp add: word_le_nat_alt)
    let ?n2 = "cb_nLen s - (cb_nSize s - cb_nStart s)"
    have n2: "unat ?n2 = ?N - (?S - ?A)"
      using sub gt r by (simp add: unat_sub_le word_le_nat_alt)
    have "xs = take (?S - ?A) xs @ drop (?S - ?A) xs"
      by simp
    moreover have "part_is (cb_lpData s) (Some (cb_nStart s)) (cb_nSize s - cb_nStart s) (take (?S - ?A) xs)"
      using r gt Some sub(2) by (auto simp: part_is_def around)
    moreover have "part_is (cb_lpData s) (Some 0) ?n2 (drop (?S - ?A) xs)"
      using r gt Some n2 by (auto simp: part_is_def around)
    moreover have "?S - ?A + (?N - (?S - ?A)) < 2 ^ 64"
      using r by simp
    ultimately show ?thesis
      using False Some sub(2) n2
      by (intro exI [of _ "Some (cb_nStart s)"] exI [of _ "cb_nSize s - cb_nStart s"] exI [of _ "Some 0"] exI [of _ ?n2]
            exI [of _ "take (?S - ?A) xs"] exI [of _ "drop (?S - ?A) xs"]) (simp add: GetReadPtr_def)
  qed
qed


section \<open>Reading\<close>

lemma AdvanceReadPtr_rep:
  assumes rep: "cb_rep s xs" and n: "n \<le> cb_nLen s" and data: "cb_lpData s \<noteq> None"
  shows "\<exists>s'. AdvanceReadPtr s n = (S_OK, s') \<and> cb_rep s' (drop (unat n) xs) \<and> cb_nSize s' = cb_nSize s"
proof -
  obtain d where d: "cb_lpData s = Some d"
    using data by auto
  let ?S = "unat (cb_nSize s)" and ?A = "unat (cb_nStart s)" and ?N = "unat (cb_nLen s)" and ?n = "unat n"
  have r: "length d = ?S" "?S \<le> 2 ^ 47" "?A < ?S" "?N \<le> ?S" "xs = ring d ?A ?N" "?n \<le> ?N"
    using assms d by (simp_all add: cb_rep_def word_le_nat_alt)
  let ?a = "if cb_nStart s < cb_nSize s - n then cb_nStart s + n else cb_nStart s - (cb_nSize s - n)"
  have sub: "unat (cb_nSize s - n) = ?S - ?n" "unat (cb_nLen s - n) = ?N - ?n"
    using r by (simp_all add: unat_sub_le word_le_nat_alt)
  have a: "unat ?a = (?A + ?n) mod ?S"
  proof (cases "cb_nStart s < cb_nSize s - n")
    case True
    then have "?A + ?n < ?S"
      using sub(1) by (simp add: word_less_nat_alt)
    then show ?thesis
      using True r(2) by (simp add: unat_add_small)
  next
    case False
    then have "?S \<le> ?A + ?n" "cb_nSize s - n \<le> cb_nStart s"
      using sub(1) by (simp_all add: word_less_nat_alt word_le_nat_alt)
    then show ?thesis
      using False r sub(1) by (simp add: unat_sub_le around)
  qed
  have "ring d (unat ?a) (?N - ?n) = drop ?n xs"
    unfolding a r(5) by (rule nth_equalityI) (use r in \<open>auto simp: mod_add_right_eq mod_add_left_eq ac_simps\<close>)
  then show ?thesis
    using r n d a sub by (auto simp: AdvanceReadPtr_def cb_rep_def linorder_not_less)
qed

lemma Peek_rep:
  assumes "cb_rep s xs"
  shows "Peek s False n = Some (take (unat n) xs)"
proof (cases "n = 0")
  case True
  then show ?thesis
    by (simp add: Peek_def)
next
  case False
  obtain p1 n1 p2 n2 ys zs where g: "GetReadPtr s = (p1, n1, p2, n2)" "xs = ys @ zs"
      "part_is (cb_lpData s) p1 n1 ys" "part_is (cb_lpData s) p2 n2 zs"
    using GetReadPtr_rep [OF assms] by blast
  have l: "unat n1 = length ys" "unat n2 = length zs"
    using g by (simp_all add: part_is_def)
  show ?thesis
  proof (cases "n1 < n")
    case False
    then have "unat n \<le> length ys"
      using l by (simp add: word_less_nat_alt)
    then show ?thesis
      using False \<open>n \<noteq> 0\<close> g(1,2) part_is_read [OF g(3), of n] part_is_read [OF g(3), of n1] l
      by (cases "n = n1") (auto simp: Peek_def Let_def)
  next
    case True
    then have m: "unat (n - n1) = unat n - length ys" "length ys < unat n" "\<not> n < n1"
      using l by (simp_all add: unat_sub_le word_less_nat_alt order_less_imp_le)
    have "part_read (cb_lpData s) p1 n1 = Some ys"
      using part_is_read [OF g(3), of n1] l by simp
    moreover have "part_read (cb_lpData s) p2 (if n - n1 > n2 then n2 else n - n1) = Some (take (unat n - length ys) zs)"
      using part_is_read [OF g(4), of n2] part_is_read [OF g(4), of "n - n1"] m l by (auto simp: word_less_nat_alt word_le_nat_alt)
    ultimately show ?thesis
      using True \<open>n \<noteq> 0\<close> g(1,2) m(2,3) by (simp add: Peek_def Let_def)
  qed
qed

lemma Read_rep:
  assumes rep: "cb_rep s xs"
  shows "\<exists>s'. Read s False n = Some (take (unat n) xs, s') \<and> cb_rep s' (drop (unat n) xs)"
proof (cases "n = 0 \<or> xs = []")
  case True
  then show ?thesis
    using Peek_rep [OF rep, of n] rep by (auto simp: Read_def)
next
  case False
  let ?m = "of_nat (length (take (unat n) xs)) :: u64"
  have len: "length xs = unat (cb_nLen s)"
    by (rule cb_rep_length [OF rep])
  have "length xs < 2 ^ LENGTH(64)"
    unfolding len by (rule unsigned_less)
  then have "length (take (unat n) xs) < 2 ^ LENGTH(64)"
    by (metis le_less_trans length_take min.cobounded1)
  then have m: "unat ?m = min (length xs) (unat n)"
    by (simp only: unat_of_nat length_take mod_less)
  have "0 < unat n"
    using False by (metis gr_zeroI unat_eq_zero)
  then have pos: "?m > 0"
    using m False by (simp add: word_less_nat_alt)
  have data: "cb_lpData s \<noteq> None"
    using rep False by (cases "cb_lpData s") (simp_all add: cb_rep_def)
  have le: "?m \<le> cb_nLen s"
    using m len by (simp add: word_le_nat_alt)
  obtain s' where s': "AdvanceReadPtr s ?m = (S_OK, s')" "cb_rep s' (drop (unat ?m) xs)"
    using AdvanceReadPtr_rep [OF rep le data] by blast
  have "drop (unat ?m) xs = drop (unat n) xs"
    unfolding m by (simp add: min_def)
  then show ?thesis
    using s' pos Peek_rep [OF rep, of n] by (simp add: Read_def Let_def)
qed

section \<open>Searching\<close>

lemma find_append: "find P (xs @ ys) = (case find P xs of None \<Rightarrow> find P ys | Some x \<Rightarrow> Some x)"
  by (induction xs) auto

lemma find_map: "find P (map f xs) = map_option f (find (\<lambda>x. P (f x)) xs)"
  by (induction xs) auto

lemma find_in_part:
  "find (\<lambda>k. (ys @ zs) ! k = b) [length ys + i..<length ys + n] = map_option ((+) (length ys)) (find (\<lambda>k. zs ! k = b) [i..<n])"
proof -
  have "[length ys + i..<length ys + n] = map ((+) (length ys)) [i..<n]"
    by (rule nth_equalityI) auto
  then show ?thesis
    by (simp add: find_map)
qed

text \<open>The first position from \<open>i\<close> on that holds the byte.\<close>

definition first_at :: "u8 list \<Rightarrow> u8 \<Rightarrow> nat \<Rightarrow> nat option" where
  "first_at xs b i = find (\<lambda>k. xs ! k = b) [i..<length xs]"

lemma first_at_Cons: "i < length xs \<Longrightarrow> first_at xs b i = (if xs ! i = b then Some i else first_at xs b (Suc i))"
  by (simp add: first_at_def upt_conv_Cons)

lemma first_at_end: "length xs \<le> i \<Longrightarrow> first_at xs b i = None"
  by (simp add: first_at_def)

lemma first_at_Some: "first_at xs b i = Some k \<longleftrightarrow> i \<le> k \<and> k < length xs \<and> xs ! k = b \<and> (\<forall>j. i \<le> j \<and> j < k \<longrightarrow> xs ! j \<noteq> b)"
proof (induction "length xs - i" arbitrary: i)
  case 0
  then show ?case
    by (auto simp: first_at_end)
next
  case (Suc n)
  then have i: "i < length xs" and IH: "first_at xs b (Suc i) = Some k \<longleftrightarrow>
      Suc i \<le> k \<and> k < length xs \<and> xs ! k = b \<and> (\<forall>j. Suc i \<le> j \<and> j < k \<longrightarrow> xs ! j \<noteq> b)"
    by auto
  show ?case
  proof (cases "xs ! i = b")
    case True
    then have "k = i" if "i \<le> k" "\<forall>j. i \<le> j \<and> j < k \<longrightarrow> xs ! j \<noteq> b"
      using that by (metis le_neq_implies_less order_refl)
    then show ?thesis
      using i True by (auto simp: first_at_Cons)
  next
    case False
    have "(\<forall>j. i \<le> j \<and> j < k \<longrightarrow> xs ! j \<noteq> b) \<longleftrightarrow> (\<forall>j. Suc i \<le> j \<and> j < k \<longrightarrow> xs ! j \<noteq> b)"
      using False by (metis Suc_leI Suc_leD le_neq_implies_less)
    moreover have "Suc i \<le> k" if "i \<le> k" "xs ! k = b"
      using that False by (metis Suc_leI le_neq_implies_less)
    ultimately show ?thesis
      using i False IH by (auto simp: first_at_Cons)
  qed
qed

lemma first_at_append:
  "first_at (ys @ zs) b i = (if i < length ys
     then (case first_at ys b i of None \<Rightarrow> map_option ((+) (length ys)) (first_at zs b 0) | Some k \<Rightarrow> Some k)
     else map_option ((+) (length ys)) (first_at zs b (i - length ys)))"
proof (cases "i < length ys")
  case True
  then have "[i..<length (ys @ zs)] = [i..<length ys] @ [length ys + 0..<length ys + length zs]"
    using upt_add_eq_append [of i "length ys" "length zs"] by simp
  moreover have "find (\<lambda>k. (ys @ zs) ! k = b) [i..<length ys] = find (\<lambda>k. ys ! k = b) [i..<length ys]"
    by (rule find_cong) (auto simp: nth_append)
  ultimately show ?thesis
    using True find_in_part [of ys zs b 0 "length zs"] by (simp only: first_at_def find_append if_True)
next
  case False
  then have "[i..<length (ys @ zs)] = [length ys + (i - length ys)..<length ys + length zs]"
    by simp
  then show ?thesis
    using False find_in_part [of ys zs b "i - length ys" "length zs"] by (simp only: first_at_def if_False)
qed

lemma find_byte_rep:
  assumes "part_is d p n ys" and "i \<le> n"
  shows "find_byte d p b i n = Some (case first_at ys b (unat i) of Some k \<Rightarrow> (True, of_nat k) | None \<Rightarrow> (False, n))"
  using assms(2)
proof (induction "unat n - unat i" arbitrary: i rule: less_induct)
  case less
  have len: "unat n = length ys"
    using assms(1) by (simp add: part_is_def)
  show ?case
  proof (cases "i < n")
    case False
    then have "i = n"
      using less.prems by simp
    then show ?thesis
      using len by (subst find_byte.simps) (simp add: first_at_end)
  next
    case True
    have i: "unat i < length ys"
      using True len by (simp add: word_less_nat_alt)
    have inc: "unat (i + 1) = Suc (unat i)"
      by (rule unat_inc [OF True])
    have "unat n - unat (i + 1) < unat n - unat i" "i + 1 \<le> n"
      using True inc by (simp_all add: word_less_nat_alt word_le_nat_alt)
    note IH = less.hyps [OF this]
    show ?thesis
      using part_is_byte [OF assms(1) True] True IH i inc
      by (subst find_byte.simps) (simp add: first_at_Cons)
  qed
qed

text \<open>The first position from the start on that holds the byte, or none.\<close>

lemma Find_rep:
  assumes rep: "cb_rep s xs"
  shows "Find s b i = Some (case first_at xs b (unat i) of Some k \<Rightarrow> of_nat k | None \<Rightarrow> -1)"
proof -
  obtain p1 n1 p2 n2 ys zs where g: "GetReadPtr s = (p1, n1, p2, n2)" "xs = ys @ zs"
      "part_is (cb_lpData s) p1 n1 ys" "part_is (cb_lpData s) p2 n2 zs" "unat n1 + unat n2 < 2 ^ 64"
    using GetReadPtr_rep [OF rep] by blast
  have l: "unat n1 = length ys" "unat n2 = length zs"
    using g by (auto simp: part_is_def)
  have n1: "n1 = of_nat (length ys)"
    unfolding l(1) [symmetric] by simp
  have sum: "unat (n1 + n2) = length xs"
    using g(2,5) l by (simp add: unat_add_small)
  show ?thesis
  proof (cases "i \<ge> n1 + n2")
    case True
    then show ?thesis
      using sum g(1) by (simp add: Find_def word_le_nat_alt first_at_end)
  next
    case False
    show ?thesis
    proof (cases "i < n1")
      case False
      then have "i - n1 \<le> n2" "unat (i - n1) = unat i - length ys" "\<not> unat i < length ys"
        using \<open>\<not> i \<ge> n1 + n2\<close> l sum g(2) by (simp_all add: unat_sub_le word_le_nat_alt word_less_nat_alt)
      then show ?thesis
        using find_byte_rep [OF g(4), of "i - n1" b] False \<open>\<not> i \<ge> n1 + n2\<close> g(1,2) n1
        by (simp add: Find_def first_at_append split: option.split)
    next
      case True
      then have "i \<le> n1" "unat i < length ys"
        using l by (simp_all add: word_less_nat_alt order_less_imp_le)
      then show ?thesis
        using find_byte_rep [OF g(3), of i b] find_byte_rep [OF g(4), of 0 b] True \<open>\<not> i \<ge> n1 + n2\<close> g(1,2) n1
        by (simp add: Find_def first_at_append split: option.split)
    qed
  qed
qed

section \<open>Writing\<close>

lemma ring_extend:
  assumes "length d2 = length d" and "\<And>i. i < N \<Longrightarrow> d2 ! ((A + i) mod length d) = d ! ((A + i) mod length d)"
    and "\<And>i. i < length src \<Longrightarrow> d2 ! ((A + N + i) mod length d) = src ! i"
  shows "ring d2 A (N + length src) = ring d A N @ src"
proof (rule nth_equalityI)
  fix i
  assume "i < length (ring d2 A (N + length src))"
  then show "ring d2 A (N + length src) ! i = (ring d A N @ src) ! i"
    using assms(1,2) assms(3) [of "i - N"] by (cases "i < N") (auto simp: nth_append)
qed simp

lemma part_write_at:
  assumes "xs \<noteq> [] \<Longrightarrow> p = Some q" and "unat q = Q" and "Q + length xs \<le> length d"
  shows "\<exists>d'. part_write (Some d) p xs = Some (Some d') \<and> length d' = length d \<and>
    (\<forall>j < length d. d' ! j = (if Q \<le> j \<and> j < Q + length xs then xs ! (j - Q) else d ! j))"
proof (cases "xs = []")
  case True
  then show ?thesis
    by (auto simp: part_write_def)
next
  case False
  then show ?thesis
    using block_write_nth [OF assms(3)] assms(1,2) by (auto simp: part_write_def)
qed

text \<open>The free part goes around the end of the block, or does not.\<close>

lemma ring_write_two:
  assumes "length d = S" "length d1 = S" "length d2 = S" and lt: "A + N < S" and k: "k = S - (A + N)" and src: "length src \<le> S - N"
    and d1: "\<forall>j < S. d1 ! j = (if A + N \<le> j \<and> j < A + N + length (take k src) then take k src ! (j - (A + N)) else d ! j)"
    and d2: "\<forall>j < S. d2 ! j = (if 0 \<le> j \<and> j < 0 + length (drop k src) then drop k src ! (j - 0) else d1 ! j)"
  shows "ring d2 A (N + length src) = ring d A N @ src"
proof (rule ring_extend)
  show "length d2 = length d"
    using assms(1,3) by simp
  show "d2 ! ((A + i) mod length d) = d ! ((A + i) mod length d)" if "i < N" for i
  proof -
    have "(A + i) mod S = A + i" "A + i < S" "\<not> A + i < length src - k"
      using that lt k src by (auto simp: around)
    then show ?thesis
      using that d1 d2 assms(1) by simp
  qed
  show "d2 ! ((A + N + i) mod length d) = src ! i" if "i < length src" for i
  proof (cases "A + N + i < S")
    case True
    then have "\<not> A + N + i < length src - k" "i < k"
      using k src lt by auto
    then show ?thesis
      using True that d1 d2 assms(1) by simp
  next
    case False
    then have "(A + N + i) mod S = i - k" "k \<le> i" "i - k < S" "i - k < length src - k"
      using that src k lt by (auto simp: around)
    then show ?thesis
      using that d2 assms(1) by simp
  qed
qed

lemma ring_write_one:
  assumes "length d = S" "length d1 = S" "A < S" and ge: "S \<le> A + N" and src: "length src \<le> S - N"
    and d1: "\<forall>j < S. d1 ! j = (if A + N - S \<le> j \<and> j < A + N - S + length src then src ! (j - (A + N - S)) else d ! j)"
  shows "ring d1 A (N + length src) = ring d A N @ src"
proof (rule ring_extend)
  show "length d1 = length d"
    using assms(1,2) by simp
  show "d1 ! ((A + i) mod length d) = d ! ((A + i) mod length d)" if "i < N" for i
  proof (cases "A + i < S")
    case True
    then show ?thesis
      using src assms(1,3) d1 ge by auto
  next
    case False
    moreover have "N \<le> S \<or> src = []"
      using src by (cases "N \<le> S") auto
    ultimately have "(A + i) mod S < S" "\<not> (A + N - S \<le> (A + i) mod S \<and> (A + i) mod S < A + N - S + length src)"
      using that src assms(3) by (auto simp: around)
    then show ?thesis
      using d1 assms(1) by auto
  qed
  show "d1 ! ((A + N + i) mod length d) = src ! i" if "i < length src" for i
  proof -
    have "A + N - S + i < S" "N + i < S"
      using that src ge assms(3) by auto
    moreover have "(A + N + i) mod S = A + N - S + i"
      using that src ge assms(3) around [of A S "N + i"] by (auto simp: add.assoc)
    ultimately show ?thesis
      using that d1 assms(1) by auto
  qed
qed
lemma write_parts:
  assumes rep: "cb_rep s xs" and d: "cb_lpData s = Some d" and g: "GetWritePtr s = (p1, n1, p2, n2)"
    and src: "length src \<le> unat (cb_nSize s) - unat (cb_nLen s)"
  shows "\<exists>d1 d2. part_write (Some d) p1 (take (unat n1) src) = Some (Some d1) \<and>
    part_write (Some d1) p2 (drop (unat n1) src) = Some (Some d2) \<and> length d2 = length d \<and>
    ring d2 (unat (cb_nStart s)) (unat (cb_nLen s) + length src) = xs @ src"
proof -
  let ?S = "unat (cb_nSize s)" and ?A = "unat (cb_nStart s)" and ?N = "unat (cb_nLen s)"
  have r: "length d = ?S" "?S \<le> 2 ^ 47" "?A < ?S" "?N \<le> ?S" "xs = ring d ?A ?N"
    using rep d by (simp_all add: cb_rep_def)
  have sub: "unat (cb_nSize s - cb_nLen s) = ?S - ?N"
    using r by (simp add: unat_sub_le word_le_nat_alt)
  consider "cb_nSize s = cb_nLen s" | "cb_nSize s \<noteq> cb_nLen s" "cb_nStart s < cb_nSize s - cb_nLen s"
    | "cb_nSize s \<noteq> cb_nLen s" "\<not> cb_nStart s < cb_nSize s - cb_nLen s"
    by blast
  then show ?thesis
  proof cases
    case 1
    then have "src = []"
      using src by simp
    then show ?thesis
      using r by (simp add: part_write_def)
  next
    case 2
    then have lt: "?A + ?N < ?S"
      using sub by (simp add: word_less_nat_alt)
    have e: "unat (cb_nStart s + cb_nLen s) = ?A + ?N"
      using lt r(2) by (simp add: unat_add_small)
    then have n1: "unat (cb_nSize s - (cb_nStart s + cb_nLen s)) = ?S - (?A + ?N)"
      using lt by (simp add: unat_sub_le word_le_nat_alt)
    have p: "p1 = Some (cb_nStart s + cb_nLen s)" "unat n1 = ?S - (?A + ?N)" "?A > 0 \<Longrightarrow> p2 = Some 0"
      using g 2 d n1 by (auto simp: GetWritePtr_def Let_def word_less_nat_alt split: if_splits)
    have fit: "?A + ?N + length (take (unat n1) src) \<le> length d"
      using p(2) r(1) lt by simp
    obtain d1 where d1: "part_write (Some d) p1 (take (unat n1) src) = Some (Some d1)" "length d1 = length d"
        "\<forall>j < length d. d1 ! j = (if ?A + ?N \<le> j \<and> j < ?A + ?N + length (take (unat n1) src)
          then take (unat n1) src ! (j - (?A + ?N)) else d ! j)"
      using part_write_at [OF _ e fit, of p1] p(1) by blast
    have fit2: "0 + length (drop (unat n1) src) \<le> length d1" "drop (unat n1) src \<noteq> [] \<Longrightarrow> p2 = Some 0"
      using p(2,3) d1(2) r(1) src lt by auto
    obtain d2 where d2: "part_write (Some d1) p2 (drop (unat n1) src) = Some (Some d2)" "length d2 = length d1"
        "\<forall>j < length d1. d2 ! j = (if 0 \<le> j \<and> j < 0 + length (drop (unat n1) src) then drop (unat n1) src ! (j - 0) else d1 ! j)"
      using part_write_at [OF fit2(2) _ fit2(1)] by fastforce
    have "ring d2 ?A (?N + length src) = ring d ?A ?N @ src"
      by (rule ring_write_two [OF r(1) _ _ lt p(2) src]) (use d1(2,3) d2(2,3) r(1) in \<open>simp_all only:\<close>)
    then show ?thesis
      using d1(1,2) d2(1,2) r(5) by auto
  next
    case 3
    then have ge: "?S \<le> ?A + ?N"
      using sub r by (simp add: word_less_nat_alt)
    have N: "?N < ?S"
      using 3(1) r(4) by (metis le_neq_implies_less word_unat_eq_iff)
    have e: "unat (cb_nStart s - (cb_nSize s - cb_nLen s)) = ?A + ?N - ?S"
      using 3(2) sub N ge by (simp add: unat_sub_le linorder_not_less)
    have p: "p1 = Some (cb_nStart s - (cb_nSize s - cb_nLen s))" "unat n1 = ?S - ?N"
      using g 3 d sub by (auto simp: GetWritePtr_def)
    have src2: "take (unat n1) src = src" "drop (unat n1) src = []"
      using src p(2) by simp_all
    have fit: "?A + ?N - ?S + length src \<le> length d"
      using src r ge by simp
    obtain d1 where d1: "part_write (Some d) p1 src = Some (Some d1)" "length d1 = length d"
        "\<forall>j < length d. d1 ! j = (if ?A + ?N - ?S \<le> j \<and> j < ?A + ?N - ?S + length src then src ! (j - (?A + ?N - ?S)) else d ! j)"
      using part_write_at [OF _ e fit, of p1] p(1) by blast
    have "ring d1 ?A (?N + length src) = ring d ?A ?N @ src"
      by (rule ring_write_one [OF r(1) _ r(3) ge src]) (use d1(2,3) r(1) in \<open>simp_all only:\<close>)
    then show ?thesis
      using d1(1,2) src2 r(5) by (auto simp: part_write_def)
  qed
qed


lemma page_up_unat:
  assumes "unat n + 4095 < 2 ^ 64"
  shows "unat (page_up n) = 4096 * ((unat n + 4095) div 4096)"
proof -
  let ?w = "n + 4095"
  define k :: nat where "k = 12"
  have "?w AND NOT (mask k) = push_bit k (drop_bit k ?w)"
    by (rule bit_word_eqI) (auto simp: bit_simps)
  then have e: "page_up n = 4096 * (?w div 4096)"
    by (simp add: page_up_def k_def mask_eq_exp_minus_1 push_bit_eq_mult drop_bit_eq_div mult.commute)
  have "unat ?w = unat n + 4095"
    using assms by (simp add: unat_add_small)
  then have d: "unat (?w div 4096) = (unat n + 4095) div 4096"
    by (simp add: unat_div_distrib)
  have "4096 * ((unat n + 4095) div 4096) < 2 ^ 64"
    using assms by (metis le_less_trans times_div_less_eq_dividend)
  then have "unat (4096 :: u64) * unat (?w div 4096) < 2 ^ LENGTH(64)"
    unfolding d by simp
  then show ?thesis
    unfolding e by (simp only: unat_mult_small d) simp
qed

lemma page_up_le:
  assumes "unat n \<le> 2 ^ 60" and "n \<noteq> 0"
  shows "unat n \<le> unat (page_up n)" "0 < unat (page_up n)" "unat (page_up n) \<le> unat n + 4095"
proof -
  have "unat n + 4095 < 2 ^ 64"
    using assms(1) by simp
  then have e: "unat (page_up n) = 4096 * ((unat n + 4095) div 4096)"
    by (rule page_up_unat)
  show le: "unat n \<le> unat (page_up n)"
    unfolding e by simp
  show "0 < unat (page_up n)"
    using le assms(2) by (metis gr_zeroI le_zero_eq unat_eq_zero)
  show "unat (page_up n) \<le> unat n + 4095"
    unfolding e by simp
qed

lemma ring_straight:
  assumes "length b = S" and "N \<le> S" and "\<And>i. i < N \<Longrightarrow> b ! i = xs ! i" and "length xs = N"
  shows "ring b 0 N = xs"
  by (rule nth_equalityI) (use assms in auto)

text \<open>The copy into the new block.\<close>

lemma SetBufferSize_copy:
  assumes rep: "cb_rep s xs" and d: "cb_lpData s = Some d" and b: "unat (cb_nLen s) \<le> length b"
  shows "\<exists>b'. (if cb_nStart s + cb_nLen s \<le> cb_nSize s then do {
        xs \<leftarrow> block_read d (unat (cb_nStart s)) (unat (cb_nLen s));
        block_write b 0 xs
      }
      else do {
        let nTemp = cb_nSize s - cb_nStart s;
        xs \<leftarrow> block_read d (unat (cb_nStart s)) (unat nTemp);
        b \<leftarrow> block_write b 0 xs;
        ys \<leftarrow> block_read d 0 (unat (cb_nLen s - nTemp));
        block_write b (unat nTemp) ys
      }) = Some b' \<and> length b' = length b \<and> (\<forall>i < length xs. b' ! i = xs ! i)"
proof -
  let ?S = "unat (cb_nSize s)" and ?A = "unat (cb_nStart s)" and ?N = "unat (cb_nLen s)"
  have r: "length d = ?S" "?S \<le> 2 ^ 47" "?A < ?S" "?N \<le> ?S" "xs = ring d ?A ?N"
    using rep d by (simp_all add: cb_rep_def)
  have sum: "unat (cb_nStart s + cb_nLen s) = ?A + ?N"
    using r by (simp add: unat_add_small)
  show ?thesis
  proof (cases "cb_nStart s + cb_nLen s \<le> cb_nSize s")
    case True
    then have le: "?A + ?N \<le> ?S"
      using sum by (simp add: word_le_nat_alt)
    obtain ys where ys: "block_read d ?A ?N = Some ys" "length ys = ?N" "\<forall>i < ?N. ys ! i = d ! (?A + i)"
      using block_read_nth [of ?A ?N d] le r(1) by auto
    obtain b' where "block_write b 0 ys = Some b'" "length b' = length b"
        "\<forall>j < length b. b' ! j = (if 0 \<le> j \<and> j < 0 + length ys then ys ! (j - 0) else b ! j)"
      using block_write_nth [of 0 ys b] b ys(2) by fastforce
    then show ?thesis
      using True ys b r le by (intro exI [of _ b']) (auto simp: around)
  next
    case False
    then have gt: "?S < ?A + ?N"
      using sum by (simp add: word_le_nat_alt)
    let ?k = "?S - ?A"
    have k: "unat (cb_nSize s - cb_nStart s) = ?k"
      using r by (simp add: unat_sub_le word_le_nat_alt)
    then have l: "unat (cb_nLen s - (cb_nSize s - cb_nStart s)) = ?N - ?k"
      using gt by (simp add: unat_sub_le word_le_nat_alt)
    obtain ys where ys: "block_read d ?A ?k = Some ys" "length ys = ?k" "\<forall>i < ?k. ys ! i = d ! (?A + i)"
      using block_read_nth [of ?A ?k d] r by auto
    have fit: "0 + length ys \<le> length b"
      using b ys(2) gt by simp
    obtain b1 where b1: "block_write b 0 ys = Some b1" "length b1 = length b"
        "\<forall>j < length b. b1 ! j = (if 0 \<le> j \<and> j < 0 + length ys then ys ! (j - 0) else b ! j)"
      using block_write_nth [OF fit] by blast
    have fit1: "0 + (?N - ?k) \<le> length d"
      using r by simp
    obtain zs where zs: "block_read d 0 (?N - ?k) = Some zs" "length zs = ?N - ?k" "\<forall>i < ?N - ?k. zs ! i = d ! (0 + i)"
      using block_read_nth [OF fit1] by blast
    have fit2: "?k + length zs \<le> length b1"
      using b b1(2) zs(2) gt by simp
    obtain b' where b': "block_write b1 ?k zs = Some b'" "length b' = length b1"
        "\<forall>j < length b1. b' ! j = (if ?k \<le> j \<and> j < ?k + length zs then zs ! (j - ?k) else b1 ! j)"
      using block_write_nth [OF fit2] by blast
    have "b' ! i = xs ! i" if "i < length xs" for i
    proof (cases "i < ?k")
      case True
      then have "(?A + i) mod ?S = ?A + i" "i < length b"
        using that r b gt by (auto simp: around)
      then show ?thesis
        using that True r b'(2,3) b1 ys by simp
    next
      case False
      then have "(?A + i) mod ?S = i - ?k" "i < length b"
        using that r b gt by (auto simp: around)
      then show ?thesis
        using that False r b'(3) b1(2) zs by simp
    qed
    then show ?thesis
      using False ys(1) b1(1,2) zs(1) b'(1,2) k l by (intro exI [of _ b']) (simp add: Let_def)
  qed
qed

lemma SetBufferSize_rep:
  assumes rep: "cb_rep s xs" and fair: "fair malloc" and n: "n \<noteq> 0" "unat n \<le> 2 ^ 60"
  shows "\<exists>r s'. SetBufferSize malloc s n = Some (r, s') \<and>
    (if r = S_OK then cb_rep s' xs \<and> cb_nLen s' = cb_nLen s \<and> unat n \<le> unat (cb_nSize s') \<and> cb_lpData s' \<noteq> None
     else r = E_OUTOFMEMORY \<and> s' = s) \<and>
    (r = S_OK \<longleftrightarrow> malloc (page_up n) \<noteq> None \<and> length xs \<le> unat n)"
proof -
  have len: "length xs = unat (cb_nLen s)"
    by (rule cb_rep_length [OF rep])
  note up = page_up_le [OF n(2,1)]
  show ?thesis
  proof (cases "malloc (page_up n)")
    case None
    then show ?thesis
      using n(1) by (cases "cb_lpData s") (auto simp: SetBufferSize_def)
  next
    case (Some b)
    have b: "length b = unat (page_up n)" "unat (page_up n) \<le> 2 ^ 47"
      using fairD [OF fair Some] by simp_all
    show ?thesis
    proof (cases "cb_lpData s")
      case None
      then have "cb_nStart s = 0" "cb_nLen s = 0" "xs = []"
        using rep by (simp_all add: cb_rep_def)
      then show ?thesis
        using None Some n(1) b up by (auto simp: SetBufferSize_def cb_rep_def ring_def)
    next
      case d: (Some d)
      show ?thesis
      proof (cases "cb_nLen s > n")
        case True
        then show ?thesis
          using d Some n(1) len by (simp add: SetBufferSize_def word_less_nat_alt)
      next
        case False
        then have fit: "unat (cb_nLen s) \<le> unat n" "unat (cb_nLen s) \<le> length b"
          using up b(1) by (simp_all add: word_less_nat_alt)
        obtain b' where b': "(if cb_nStart s + cb_nLen s \<le> cb_nSize s then do {
              xs \<leftarrow> block_read d (unat (cb_nStart s)) (unat (cb_nLen s));
              block_write b 0 xs
            }
            else do {
              let nTemp = cb_nSize s - cb_nStart s;
              xs \<leftarrow> block_read d (unat (cb_nStart s)) (unat nTemp);
              b \<leftarrow> block_write b 0 xs;
              ys \<leftarrow> block_read d 0 (unat (cb_nLen s - nTemp));
              block_write b (unat nTemp) ys
            }) = Some b'" "length b' = length b" "\<forall>i < length xs. b' ! i = xs ! i"
          using SetBufferSize_copy [OF rep d fit(2)] by blast
        have "ring b' 0 (unat (cb_nLen s)) = xs"
          using ring_straight [of b' "length b" "unat (cb_nLen s)" xs] b'(2,3) fit(2) len by simp
        moreover have "SetBufferSize malloc s n =
            Some (S_OK, s\<lparr>cb_lpData := Some b', cb_nSize := page_up n, cb_nStart := 0\<rparr>)"
          using d Some n(1) False b'(1) by (simp add: SetBufferSize_def)
        ultimately show ?thesis
          using b'(2) b up fit len Some by (simp add: cb_rep_def)
      qed
    qed
  qed
qed

lemma GetWritePtr_null: "cb_lpData s = None \<Longrightarrow> GetWritePtr s = (None, 0, None, 0)"
  by (simp add: GetWritePtr_def)

text \<open>The part of \<open>Write\<close> behind the enlargement, when there is room.\<close>

lemma write_room:
  assumes rep: "cb_rep s xs" and d: "cb_lpData s = Some d" and n: "unat n \<le> length src" "unat (cb_nLen s) + unat n \<le> unat (cb_nSize s)"
  shows "\<exists>s'. (case GetWritePtr s of (lpPtr1, nSize1, lpPtr2, nSize2) \<Rightarrow> do {
       d \<leftarrow> (if n \<le> nSize1 then do {
              xs \<leftarrow> block_read src 0 (unat n);
              part_write (cb_lpData s) lpPtr1 xs
            }
            else do {
              xs \<leftarrow> block_read src 0 (unat nSize1);
              d \<leftarrow> part_write (cb_lpData s) lpPtr1 xs;
              ys \<leftarrow> block_read src (unat nSize1) (unat (n - nSize1));
              part_write d lpPtr2 ys
            });
       Some (AdvanceWritePtr (s\<lparr>cb_lpData := d\<rparr>) n)
     }) = Some (S_OK, s') \<and> cb_rep s' (xs @ take (unat n) src)"
proof -
  let ?src = "take (unat n) src"
  obtain p1 n1 p2 n2 where g: "GetWritePtr s = (p1, n1, p2, n2)"
    by (metis prod_cases4)
  have r: "length d = unat (cb_nSize s)" "unat (cb_nSize s) \<le> 2 ^ 47" "unat (cb_nStart s) < unat (cb_nSize s)"
    using rep d by (simp_all add: cb_rep_def)
  have len: "length ?src = unat n" and le: "unat n \<le> unat (cb_nSize s) - unat (cb_nLen s)"
    using n by simp_all
  obtain d1 d2 where w: "part_write (Some d) p1 (take (unat n1) ?src) = Some (Some d1)"
      "part_write (Some d1) p2 (drop (unat n1) ?src) = Some (Some d2)" "length d2 = length d"
      "ring d2 (unat (cb_nStart s)) (unat (cb_nLen s) + unat n) = xs @ ?src"
    using write_parts [OF rep d g, of ?src, unfolded len] le by blast
  have copy: "(if n \<le> n1 then do {
          xs \<leftarrow> block_read src 0 (unat n);
          part_write (cb_lpData s) p1 xs
        }
        else do {
          xs \<leftarrow> block_read src 0 (unat n1);
          d \<leftarrow> part_write (cb_lpData s) p1 xs;
          ys \<leftarrow> block_read src (unat n1) (unat (n - n1));
          part_write d p2 ys
        }) = Some (Some d2)"
  proof (cases "n \<le> n1")
    case True
    then have "take (unat n1) ?src = ?src" "drop (unat n1) ?src = []"
      by (simp_all add: word_le_nat_alt)
    then show ?thesis
      using True w(1,2) d block_read_ok [of 0 "unat n" src] n(1) by (simp add: part_write_def)
  next
    case False
    then have "unat (n - n1) = unat n - unat n1" "unat n1 < unat n"
      by (simp_all add: unat_sub_le word_le_nat_alt)
    moreover have "take (unat n1) ?src = take (unat n1) src" "drop (unat n1) ?src = take (unat n - unat n1) (drop (unat n1) src)"
      using calculation(2) by (simp_all add: drop_take min_def)
    ultimately show ?thesis
      using False w(1,2) d block_read_ok [of 0 "unat n1" src] block_read_ok [of "unat n1" "unat n - unat n1" src] n(1) by simp
  qed
  have room: "\<not> n > cb_nSize s - cb_nLen s"
    using n(2) by (simp add: word_less_nat_alt unat_sub_le word_le_nat_alt)
  have sum: "unat (cb_nLen s + n) = unat (cb_nLen s) + unat n"
    using n(2) r(2) by (simp add: unat_add_small)
  show ?thesis
    using copy room w(3,4) r sum n(2) unfolding g by (simp add: AdvanceWritePtr_def cb_rep_def)
qed

lemma Write_grow:
  assumes "cb_nLen s + n > cb_nSize s" "\<not> cb_nLen s + n < cb_nLen s" "n \<noteq> 0"
    and "cap = (if push_bit 1 (cb_nSize s) < cb_nSize s \<or> push_bit 1 (cb_nSize s) < cb_nLen s + n then cb_nLen s + n
        else push_bit 1 (cb_nSize s))"
  shows "Write malloc s (Some src) n True = do {
     (hRes, s) \<leftarrow> SetBufferSize malloc s cap;
     if hRes \<noteq> S_OK then Some (hRes, s)
     else case GetWritePtr s of (lpPtr1, nSize1, lpPtr2, nSize2) \<Rightarrow> do {
       d \<leftarrow> (if n \<le> nSize1 then do {
              xs \<leftarrow> block_read src 0 (unat n);
              part_write (cb_lpData s) lpPtr1 xs
            }
            else do {
              xs \<leftarrow> block_read src 0 (unat nSize1);
              d \<leftarrow> part_write (cb_lpData s) lpPtr1 xs;
              ys \<leftarrow> block_read src (unat nSize1) (unat (n - nSize1));
              part_write d lpPtr2 ys
            });
       Some (AdvanceWritePtr (s\<lparr>cb_lpData := d\<rparr>) n)
     }
   }"
  using assms(1-3) unfolding Write_def Let_def assms(4) by simp

lemma Write_rep:
  assumes rep: "cb_rep s xs" and fair: "fair malloc" and n: "unat n \<le> length src" "unat n \<le> 2 ^ 47" "n \<noteq> 0"
  shows "\<exists>r s'. Write malloc s (Some src) n expand = Some (r, s') \<and>
    (if r = S_OK then cb_rep s' (xs @ take (unat n) src) else cb_rep s' xs \<and> s' = s) \<and>
    (r = MX_E_BufferOverflow \<longleftrightarrow> \<not> expand \<and> unat (cb_nSize s) < length xs + unat n) \<and>
    (r \<in> {S_OK, MX_E_BufferOverflow} \<or> r = E_OUTOFMEMORY \<and> unat (cb_nSize s) < length xs + unat n \<and> (\<exists>m. malloc m = None \<and> length xs + unat n \<le> unat m \<and>
      unat m \<le> max (2 * unat (cb_nSize s)) (length xs + unat n) + 4095))"
proof -
  have len: "length xs = unat (cb_nLen s)" and size: "unat (cb_nLen s) \<le> unat (cb_nSize s)" "unat (cb_nSize s) \<le> 2 ^ 47"
    using cb_rep_length [OF rep] rep by (auto simp: cb_rep_def split: option.splits)
  have sum: "unat (cb_nLen s + n) = unat (cb_nLen s) + unat n"
    using n(2) size by (simp add: unat_add_small)
  have wrap: "\<not> cb_nLen s + n < cb_nLen s"
    using sum by (simp add: word_less_nat_alt)
  show ?thesis
  proof (cases "cb_nLen s + n > cb_nSize s")
    case False
    then have fit: "unat (cb_nLen s) + unat n \<le> unat (cb_nSize s)"
      using sum by (simp add: word_less_nat_alt)
    moreover have "0 < unat n"
      using n(3) by (metis gr_zeroI unat_eq_zero)
    ultimately obtain d where d: "cb_lpData s = Some d"
      using rep by (cases "cb_lpData s") (auto simp: cb_rep_def)
    show ?thesis
      using write_room [OF rep d n(1) fit] False wrap n(3) fit len by (auto simp: Write_def)
  next
    case True
    then have big: "unat (cb_nSize s) < length xs + unat n"
      using sum len by (simp add: word_less_nat_alt)
    show ?thesis
    proof (cases expand)
      case False
      then show ?thesis
        using True wrap n(3) big rep by (simp add: Write_def)
    next
      case expand: True
      define cap where "cap = (if push_bit 1 (cb_nSize s) < cb_nSize s \<or> push_bit 1 (cb_nSize s) < cb_nLen s + n then cb_nLen s + n
        else push_bit 1 (cb_nSize s))"
      have two: "unat (cb_nSize s * 2) = 2 * unat (cb_nSize s)"
        using size(2) by (simp add: unat_mult_small)
      have "unat cap = max (2 * unat (cb_nSize s)) (unat (cb_nLen s) + unat n)"
        by (simp add: cap_def word_less_nat_alt two sum max_def)
      then have cap: "length xs + unat n \<le> unat cap" "unat cap \<le> 2 ^ 60"
          "unat cap = max (2 * unat (cb_nSize s)) (length xs + unat n)"
        using len n(2) size by simp_all
      then have nz: "cap \<noteq> 0"
        using big by (metis add_is_0 le_zero_eq not_less_zero unat_0)
      obtain r s1 where s1: "SetBufferSize malloc s cap = Some (r, s1)"
          "if r = S_OK then cb_rep s1 xs \<and> cb_nLen s1 = cb_nLen s \<and> unat cap \<le> unat (cb_nSize s1) \<and> cb_lpData s1 \<noteq> None
           else r = E_OUTOFMEMORY \<and> s1 = s"
          "r = S_OK \<longleftrightarrow> malloc (page_up cap) \<noteq> None \<and> length xs \<le> unat cap"
        using SetBufferSize_rep [OF rep fair nz cap(2)] by blast
      show ?thesis
      proof (cases "r = S_OK")
        case False
        then have r: "r = E_OUTOFMEMORY" "s1 = s" "malloc (page_up cap) = None"
          using s1 cap(1) by auto
        moreover have "Write malloc s (Some src) n expand = Some (r, s1)"
          using expand Write_grow [OF True wrap n(3) cap_def, of malloc src] s1(1) False by simp
        moreover have "length xs + unat n \<le> unat (page_up cap)"
            "unat (page_up cap) \<le> max (2 * unat (cb_nSize s)) (length xs + unat n) + 4095"
          using cap page_up_le [OF cap(2) nz] by simp_all
        ultimately show ?thesis
          using rep expand big by (intro exI [of _ r] exI [of _ s1]) auto
      next
        case ok: True
        then have g: "cb_rep s1 xs" "cb_nLen s1 = cb_nLen s" "unat cap \<le> unat (cb_nSize s1)"
          using s1(2) by auto
        obtain d where d: "cb_lpData s1 = Some d"
          using s1(2) ok by auto
        have fit: "unat (cb_nLen s1) + unat n \<le> unat (cb_nSize s1)"
          using g(2,3) cap(1) len by simp
        obtain s' where "Write malloc s (Some src) n expand = Some (S_OK, s')" "cb_rep s' (xs @ take (unat n) src)"
          using write_room [OF g(1) d n(1) fit] expand Write_grow [OF True wrap n(3) cap_def, of malloc src] s1(1) ok by auto
        then show ?thesis
          using expand by auto
      qed
    qed
  qed
qed

section \<open>Reserving room\<close>

lemma write_sizes:
  assumes rep: "cb_rep s xs" and g: "GetWritePtr s = (p1, n1, p2, n2)"
  shows "unat (n1 + n2) = unat (cb_nSize s) - unat (cb_nLen s)"
proof (cases "cb_lpData s")
  case None
  then show ?thesis
    using rep g by (auto simp: GetWritePtr_def cb_rep_def)
next
  case (Some d)
  then have "n1 + n2 = cb_nSize s - cb_nLen s"
    using g by (auto simp: GetWritePtr_def Let_def word_gt_0 split: if_splits)
  moreover have "cb_nLen s \<le> cb_nSize s"
    using rep Some by (simp add: cb_rep_def word_le_nat_alt)
  ultimately show ?thesis
    by (simp add: unat_sub_le)
qed

lemma EnsureWritableSize_rep:
  assumes rep: "cb_rep s xs" and fair: "fair malloc" and n: "unat n \<le> 2 ^ 47"
  shows "\<exists>r s'. EnsureWritableSize malloc s n = Some (r, s') \<and>
    (if r = S_OK then cb_rep s' xs \<and> length xs + unat n \<le> unat (cb_nSize s')
     else r = E_OUTOFMEMORY \<and> s' = s \<and> \<not> roomy malloc (length xs + unat n + 4095))"
proof -
  obtain p1 n1 p2 n2 where g: "GetWritePtr s = (p1, n1, p2, n2)"
    by (metis prod_cases4)
  have len: "length xs = unat (cb_nLen s)" and size: "unat (cb_nLen s) \<le> unat (cb_nSize s)" "unat (cb_nSize s) \<le> 2 ^ 47"
    using cb_rep_length [OF rep] rep by (auto simp: cb_rep_def split: option.splits)
  note w = write_sizes [OF rep g]
  show ?thesis
  proof (cases "n \<le> n1 + n2")
    case True
    then have "length xs + unat n \<le> unat (cb_nSize s)"
      using w len size by (simp add: word_le_nat_alt)
    then show ?thesis
      using True g rep by (simp add: EnsureWritableSize_def)
  next
    case False
    then have "unat (n - (n1 + n2)) = unat n - (unat (cb_nSize s) - unat (cb_nLen s))" "unat (cb_nSize s) - unat (cb_nLen s) < unat n"
      using w by (simp_all add: unat_sub_le word_le_nat_alt)
    then have m: "unat (cb_nSize s + (n - (n1 + n2))) = length xs + unat n"
      using size len n by (simp add: unat_add_small)
    then have nz: "cb_nSize s + (n - (n1 + n2)) \<noteq> 0" "unat (cb_nSize s + (n - (n1 + n2))) \<le> 2 ^ 60"
      using False w size len n by (auto simp: word_le_nat_alt)
    from SetBufferSize_rep [OF rep fair this] obtain r s' where
      "SetBufferSize malloc s (cb_nSize s + (n - (n1 + n2))) = Some (r, s')"
      "if r = S_OK then cb_rep s' xs \<and> unat (cb_nSize s + (n - (n1 + n2))) \<le> unat (cb_nSize s')
       else r = E_OUTOFMEMORY \<and> s' = s"
      "r = S_OK \<longleftrightarrow> malloc (page_up (cb_nSize s + (n - (n1 + n2)))) \<noteq> None \<and> length xs \<le> unat (cb_nSize s + (n - (n1 + n2)))"
      by (metis (full_types))
    moreover have "unat (page_up (cb_nSize s + (n - (n1 + n2)))) \<le> length xs + unat n + 4095"
      using page_up_le(3) [OF nz(2,1)] m by simp
    ultimately show ?thesis
      using False g m not_roomyI [of malloc "page_up (cb_nSize s + (n - (n1 + n2)))"]
      by (intro exI [of _ r] exI [of _ s']) (auto simp: EnsureWritableSize_def)
  qed
qed

section \<open>Rearranging\<close>

lemma bind_None: "(\<And>x. m = Some x \<Longrightarrow> f x = None) \<Longrightarrow> m \<bind> f = None"
  by (cases m) auto

lemma block_read_None: "length b < off + n \<Longrightarrow> n \<noteq> 0 \<Longrightarrow> block_read b off n = None"
  by (simp add: block_read_def)

lemma block_write_None: "length b < off + length xs \<Longrightarrow> xs \<noteq> [] \<Longrightarrow> block_write b off xs = None"
  by (simp add: block_write_def)

lemma rearrange_turn_length: "rearrange_turn d S A N = Some d' \<Longrightarrow> length d' = length d"
  by (auto simp: rearrange_turn_def Let_def bind_eq_Some_conv block_write_length split: if_splits)

text \<open>Stored bytes that do not reach the end of the block.\<close>

lemma rearrange_apart:
  assumes d: "length d = unat S" "unat S \<le> 2 ^ 47" and a: "unat A + unat N < unat S"
  shows "rearrange d S A N = None"
proof -
  have ne: "A \<noteq> S"
    using a by auto
  have e: "unat (S - A) = unat S - unat A"
    using a by (simp add: unat_sub_le word_le_nat_alt)
  have less: "N < S - A"
    using a e by (simp add: word_less_nat_alt)
  have "unat (N - (S - A)) = unat N + 2 ^ 64 - unat (S - A)"
    using less by (simp add: unat_sub_if_size word_size word_less_nat_alt)
  then have big: "unat S < unat (N - (S - A))"
    using e d(2) by simp
  have none: "block_read d' 0 (unat (N - (S - A))) = None" if "length d' = length d" for d'
    using that big d(1) by (intro block_read_None) auto
  have "rearrange_turn d S A N = None"
  proof (rule ccontr)
    assume "rearrange_turn d S A N \<noteq> None"
    then show False
      by (auto simp: rearrange_turn_def Let_def bind_eq_Some_conv dest!: block_write_length split: if_splits)
        (simp_all add: none)
  qed
  then show ?thesis
    using ne by (subst rearrange.simps) simp
qed

text \<open>Stored bytes that reach the end, and go around it or are too many for one turn.\<close>

lemma rearrange_around:
  assumes "length d = unat S" and "unat S \<le> 2 ^ 47" and "0 < unat A" and "unat A < unat S" and "unat N \<le> unat S"
    and "unat S \<le> unat A + unat N" and "unat S < unat A + unat N \<or> 4096 < unat S - unat A"
  shows "rearrange d S A N = None"
  using assms
proof (induction "unat S - unat A" arbitrary: A d rule: less_induct)
  case less
  note a = less.prems
  have ne: "A \<noteq> S"
    using a(4) by auto
  have e: "unat (S - A) = unat S - unat A"
    using a by (simp add: unat_sub_le word_le_nat_alt)
  then have st: "unat (N - (S - A)) = unat N - (unat S - unat A)"
    using a(6) by (simp add: unat_sub_le word_le_nat_alt)
  show ?case
  proof (cases "4096 < S - A")
    case False
    then have c: "rearrange_count S A = S - A" and around: "unat S < unat A + unat N"
      using a(7) e by (auto simp: rearrange_count_def Let_def word_less_nat_alt)
    have "rearrange_turn d S A N = None"
    proof (rule ccontr)
      assume "rearrange_turn d S A N \<noteq> None"
      then obtain xs where xs: "block_read d 0 (unat (N - (S - A))) = Some xs" "block_write d (unat S) xs \<noteq> None"
        by (auto simp: rearrange_turn_def Let_def c bind_eq_Some_conv)
      then have "xs \<noteq> []"
        using st around a(4) by (auto simp: block_read_def split: if_splits)
      then show False
        using xs(2) a(1) by (simp add: block_write_None)
    qed
    then show ?thesis
      using ne by (subst rearrange.simps) simp
  next
    case True
    then have c: "rearrange_count S A = 4096" and far: "unat A + 4096 < unat S"
      using e a(4) by (auto simp: rearrange_count_def Let_def word_less_nat_alt)
    have next_a: "unat (A + 4096) = unat A + 4096"
      using far a(2) by (simp add: unat_add_small)
    have "rearrange d' S (A + 4096) N = None" if "rearrange_turn d S A N = Some d'" for d'
      using that far next_a a rearrange_turn_length by (intro less.hyps) auto
    then show ?thesis
      using ne c by (subst rearrange.simps) (auto intro: bind_None)
  qed
qed

text \<open>The case that works: the stored bytes end at the end of the block and fit into one turn.\<close>

lemma rearrange_flush:
  assumes d: "length d = unat S" "unat S \<le> 2 ^ 47" and a: "0 < unat A" "unat A < unat S" "unat A + unat N = unat S" "unat N \<le> 4096"
  shows "\<exists>d'. rearrange d S A N = Some d' \<and> length d' = length d \<and> ring d' 0 (unat N) = ring d (unat A) (unat N)"
proof -
  have e: "unat (S - A) = unat N"
    using a by (simp add: unat_sub_le word_le_nat_alt)
  then have SA: "S - A = N"
    by (simp add: word_unat_eq_iff)
  have c: "rearrange_count S A = N"
    using a(4) e by (auto simp: rearrange_count_def Let_def SA word_less_nat_alt)
  have SN: "S - N = A" "A + N = S" "A \<noteq> S"
    using SA a(2) by auto
  have fit: "unat A + unat N \<le> length d"
    using d(1) a(3) by simp
  obtain xs where xs: "block_read d (unat A) (unat N) = Some xs" "length xs = unat N" "\<forall>i < unat N. xs ! i = d ! (unat A + i)"
    using block_read_nth [OF fit] by blast
  have fit0: "0 + length xs \<le> length d"
    using xs(2) d(1) a by simp
  obtain d' where d': "block_write d 0 xs = Some d'" "length d' = length d"
      "\<forall>j < length d. d' ! j = (if 0 \<le> j \<and> j < 0 + length xs then xs ! (j - 0) else d ! j)"
    using block_write_nth [OF fit0] by blast
  have "rearrange_turn d S A N = Some d'"
    using xs(1) d'(1) by (simp add: rearrange_turn_def Let_def c SA SN block_read_def [of d 0 0] block_write_def [of d _ "[]"])
  then have "rearrange d S A N = Some d'"
    using SN by (subst rearrange.simps) (simp add: c rearrange.simps)
  moreover have "ring d' 0 (unat N) = ring d (unat A) (unat N)"
    using xs d'(2,3) fit0 a d(1) by (intro nth_equalityI) (auto simp: around)
  ultimately show ?thesis
    using d'(2) by blast
qed


section \<open>Properties\<close>

lemma GetAvailableForRead_rep:
  assumes "cb_rep s xs"
  shows "unat (GetAvailableForRead s) = length xs"
proof -
  obtain p1 n1 p2 n2 ys zs where "GetReadPtr s = (p1, n1, p2, n2)" "xs = ys @ zs" "unat n1 = length ys" "unat n2 = length zs"
      "unat n1 + unat n2 < 2 ^ 64"
    using GetReadPtr_rep [OF assms] by (auto simp: part_is_def)
  then show ?thesis
    by (simp add: GetAvailableForRead_def unat_add_small)
qed

text \<open>A session of writes and reads: the bytes that were accepted, and the bytes that were read.\<close>

datatype buf_op = OpWrite "u8 list" bool | OpRead u64

fun session :: "u8 allocator \<Rightarrow> cbuf \<Rightarrow> buf_op list \<Rightarrow> (u8 list \<times> u8 list \<times> cbuf) option" where
  "session malloc s [] = Some ([], [], s)"
| "session malloc s (OpWrite src expand # ops) = do {
     (r, s) \<leftarrow> Write malloc s (Some src) (of_nat (length src)) expand;
     (ins, outs, s) \<leftarrow> session malloc s ops;
     Some ((if r = S_OK then src else []) @ ins, outs, s)
   }"
| "session malloc s (OpRead n # ops) = do {
     (ys, s) \<leftarrow> Read s False n;
     (ins, outs, s) \<leftarrow> session malloc s ops;
     Some (ins, ys @ outs, s)
   }"

lemma session_rep:
  assumes "cb_rep s xs" and "fair malloc" and "\<forall>src expand. OpWrite src expand \<in> set ops \<longrightarrow> length src \<le> 2 ^ 47"
  shows "\<exists>ins outs s' xs'. session malloc s ops = Some (ins, outs, s') \<and> cb_rep s' xs' \<and> xs @ ins = outs @ xs'"
  using assms(1,3)
proof (induction ops arbitrary: s xs)
  case Nil
  then show ?case
    by auto
next
  case (Cons op ops)
  show ?case
  proof (cases op)
    case (OpWrite src expand)
    let ?n = "of_nat (length src) :: u64"
    have len: "length src \<le> 2 ^ 47"
      using Cons.prems(2) OpWrite by auto
    then have "length src < 2 ^ LENGTH(64)"
      by simp
    then have n: "unat ?n = length src"
      by (simp only: unat_of_nat mod_less)
    have "\<exists>r s1. Write malloc s (Some src) ?n expand = Some (r, s1) \<and> cb_rep s1 (xs @ (if r = S_OK then src else []))"
    proof (cases "src = []")
      case True
      then show ?thesis
        using Cons.prems(1) by (simp add: Write_def)
    next
      case False
      then have "?n \<noteq> 0"
        using n by (metis length_0_conv unat_0)
      then show ?thesis
        using Write_rep [OF Cons.prems(1) assms(2), of ?n src expand] n len by (auto split: if_splits)
    qed
    then obtain r s1 where w: "Write malloc s (Some src) ?n expand = Some (r, s1)"
        "cb_rep s1 (xs @ (if r = S_OK then src else []))"
      by blast
    obtain ins outs s' xs' where "session malloc s1 ops = Some (ins, outs, s')" "cb_rep s' xs'"
        "(xs @ (if r = S_OK then src else [])) @ ins = outs @ xs'"
      using Cons.IH [OF w(2)] Cons.prems(2) by (metis list.set_intros(2))
    then show ?thesis
      using OpWrite w(1)
      by (intro exI [of _ "(if r = S_OK then src else []) @ ins"] exI [of _ outs] exI [of _ s'] exI [of _ xs']) simp
  next
    case (OpRead n)
    obtain s1 where r: "Read s False n = Some (take (unat n) xs, s1)" "cb_rep s1 (drop (unat n) xs)"
      using Read_rep [OF Cons.prems(1)] by blast
    obtain ins outs s' xs' where i: "session malloc s1 ops = Some (ins, outs, s')" "cb_rep s' xs'"
        "drop (unat n) xs @ ins = outs @ xs'"
      using Cons.IH [OF r(2)] Cons.prems(2) by (metis list.set_intros(2))
    have "xs @ ins = (take (unat n) xs @ outs) @ xs'"
      using i(3) by (metis append_assoc append_take_drop_id)
    then show ?thesis
      using OpRead r(1) i(1,2) by (intro exI [of _ ins] exI [of _ "take (unat n) xs @ outs"] exI [of _ s'] exI [of _ xs']) simp
  qed
qed

text \<open>
  C19. The circular buffer is a first-in first-out queue. In any session of writes, which may enlarge
  the buffer or may not, and reads of any sizes, the bytes that are read are the bytes that were
  accepted, in order, none lost and none twice; the rest is stored, and \<open>GetAvailableForRead\<close> is its
  length. No access is outside of the block.
\<close>

theorem circular_fifo:
  assumes "fair malloc" and "\<forall>src expand. OpWrite src expand \<in> set ops \<longrightarrow> length src \<le> 2 ^ 47"
  shows "\<exists>ins outs s xs. session malloc CCircularBuffer ops = Some (ins, outs, s) \<and> ins = outs @ xs \<and>
    cb_rep s xs \<and> unat (GetAvailableForRead s) = length xs \<and> Peek s False (GetAvailableForRead s) = Some xs"
proof -
  obtain ins outs s xs where s: "session malloc CCircularBuffer ops = Some (ins, outs, s)" "cb_rep s xs" "ins = outs @ xs"
    using session_rep [OF cb_rep_init assms] by auto
  then show ?thesis
    using GetAvailableForRead_rep [OF s(2)] Peek_rep [OF s(2), of "GetAvailableForRead s"] by simp
qed

lemma circular_fifo_witness:
  "\<exists>outs s xs ins. session zeros CCircularBuffer [OpWrite [1, 2, 3] True, OpRead 2, OpWrite [4] False] = Some (ins, outs, s) \<and> ins = outs @ xs"
  using circular_fifo [OF fair_zeros, of "[OpWrite [1, 2, 3] True, OpRead 2, OpWrite [4] False]"] by force

text \<open>
  C20. \<open>Write\<close> on every path: it appends exactly the bytes it was given, or it fails and leaves the
  buffer as it was. It fails with \<open>MX_E_BufferOverflow\<close> exactly when the bytes do not fit and it may
  not enlarge the buffer, and with \<open>E_OUTOFMEMORY\<close> only when they do not fit and the allocator has refused a
  block that would hold them; a null source and no bytes are refused first.
\<close>

theorem circular_write:
  assumes "cb_rep s xs" and "fair malloc" and "unat n \<le> length src" and "unat n \<le> 2 ^ 47"
  shows "Write malloc s None n expand = Some (E_POINTER, s) \<and> Write malloc s (Some src) 0 expand = Some (E_INVALIDARG, s) \<and>
    (n \<noteq> 0 \<longrightarrow> (\<exists>r s'. Write malloc s (Some src) n expand = Some (r, s') \<and>
      (if r = S_OK then cb_rep s' (xs @ take (unat n) src) else cb_rep s' xs \<and> s' = s) \<and>
      (r = MX_E_BufferOverflow \<longleftrightarrow> \<not> expand \<and> unat (cb_nSize s) < length xs + unat n) \<and>
      (r \<in> {S_OK, MX_E_BufferOverflow} \<or> r = E_OUTOFMEMORY \<and> unat (cb_nSize s) < length xs + unat n \<and> (\<exists>m. malloc m = None \<and> length xs + unat n \<le> unat m \<and>
      unat m \<le> max (2 * unat (cb_nSize s)) (length xs + unat n) + 4095))))"
  using Write_rep [OF assms] by (simp add: Write_def)

lemma circular_write_witness:
  "\<exists>r s'. Write zeros CCircularBuffer (Some [7, 8]) 2 False = Some (r, s') \<and> r = MX_E_BufferOverflow"
  using circular_write [OF cb_rep_init fair_zeros, of 2 "[7, 8]" False] by (auto simp: CCircularBuffer_def)

text \<open>
  C22. \<open>Find\<close> returns the first position from the given one on that holds the byte, across the end of
  the block, or -1 exactly when there is none; \<open>Read\<close> and \<open>Peek\<close> return as many bytes as there are.
  \<open>SetBufferSize\<close> and \<open>EnsureWritableSize\<close> keep the stored bytes, success means that there is room, and
  failure that the allocator refused a block (or that the new size is too small). The sizes are at most \<open>2 ^ 47\<close>,
  and that of \<open>SetBufferSize\<close> is not 0.
\<close>

theorem circular_find_room:
  assumes "cb_rep s xs" and "fair malloc" and "unat n \<le> 2 ^ 47"
  shows "(case Find s b i of None \<Rightarrow> False
      | Some j \<Rightarrow> if b \<in> set (drop (unat i) xs)
          then unat i \<le> unat j \<and> unat j < length xs \<and> xs ! unat j = b \<and> b \<notin> set (take (unat j - unat i) (drop (unat i) xs))
          else j = -1) \<and>
    (\<exists>s'. Read s False n = Some (take (unat n) xs, s') \<and> cb_rep s' (drop (unat n) xs)) \<and>
    (\<exists>r s'. EnsureWritableSize malloc s n = Some (r, s') \<and>
      (if r = S_OK then cb_rep s' xs \<and> length xs + unat n \<le> unat (cb_nSize s')
       else r = E_OUTOFMEMORY \<and> s' = s \<and> \<not> roomy malloc (length xs + unat n + 4095))) \<and>
    (n \<noteq> 0 \<longrightarrow> (\<exists>r s'. SetBufferSize malloc s n = Some (r, s') \<and>
      (if r = S_OK then cb_rep s' xs \<and> unat n \<le> unat (cb_nSize s') else r = E_OUTOFMEMORY \<and> s' = s) \<and>
      (r = S_OK \<longleftrightarrow> malloc (page_up n) \<noteq> None \<and> length xs \<le> unat n)))"
proof -
  have len: "length xs < 2 ^ LENGTH(64)"
    unfolding cb_rep_length [OF assms(1)] by (rule unsigned_less)
  have find: "case Find s b i of None \<Rightarrow> False
      | Some j \<Rightarrow> if b \<in> set (drop (unat i) xs)
          then unat i \<le> unat j \<and> unat j < length xs \<and> xs ! unat j = b \<and> b \<notin> set (take (unat j - unat i) (drop (unat i) xs))
          else j = -1"
  proof (cases "first_at xs b (unat i)")
    case None
    then have "b \<notin> set (drop (unat i) xs)"
      by (auto simp: first_at_def find_None_iff in_set_conv_nth)
    then show ?thesis
      using None Find_rep [OF assms(1)] by simp
  next
    case (Some k)
    then have k: "unat i \<le> k" "k < length xs" "xs ! k = b" "\<forall>j. unat i \<le> j \<and> j < k \<longrightarrow> xs ! j \<noteq> b"
      by (simp_all add: first_at_Some)
    have "k < 2 ^ LENGTH(64)"
      using k(2) len by simp
    then have u: "unat (of_nat k :: u64) = k"
      by (simp only: unat_of_nat mod_less)
    have "b \<in> set (drop (unat i) xs)"
      using k by (auto simp: in_set_conv_nth intro!: exI [of _ "k - unat i"])
    moreover have "b \<notin> set (take (k - unat i) (drop (unat i) xs))"
      using k(1,2,4) by (auto simp: in_set_conv_nth)
    ultimately show ?thesis
      using Some k u Find_rep [OF assms(1), of b i] by simp
  qed
  have le: "unat n \<le> 2 ^ 60"
    using assms(3) by simp
  have "\<exists>r s'. SetBufferSize malloc s n = Some (r, s') \<and>
      (if r = S_OK then cb_rep s' xs \<and> unat n \<le> unat (cb_nSize s') else r = E_OUTOFMEMORY \<and> s' = s) \<and>
      (r = S_OK \<longleftrightarrow> malloc (page_up n) \<noteq> None \<and> length xs \<le> unat n)" if nz: "n \<noteq> 0"
  proof -
    obtain r s' where "SetBufferSize malloc s n = Some (r, s')" "if r = S_OK then cb_rep s' xs \<and> cb_nLen s' = cb_nLen s \<and>
        unat n \<le> unat (cb_nSize s') \<and> cb_lpData s' \<noteq> None else r = E_OUTOFMEMORY \<and> s' = s"
        "r = S_OK \<longleftrightarrow> malloc (page_up n) \<noteq> None \<and> length xs \<le> unat n"
      using SetBufferSize_rep [OF assms(1,2) nz le] by blast
    then show ?thesis
      by (intro exI [of _ r] exI [of _ s']) (auto split: if_splits)
  qed
  then show ?thesis
    using find Read_rep [OF assms(1), of n] EnsureWritableSize_rep [OF assms] by blast
qed

lemma circular_find_room_witness:
  "\<exists>r s'. EnsureWritableSize zeros CCircularBuffer 10 = Some (r, s') \<and> (r = S_OK \<longrightarrow> 10 \<le> unat (cb_nSize s'))"
  using circular_find_room [OF cb_rep_init fair_zeros, of 10 0 0] by force

text \<open>
  C21. \<open>ReArrangeBuffer\<close> works only when the stored bytes end exactly at the end of the block and are
  at most 4096 (or when there is nothing to move). In every other state it accesses memory outside of the
  block: the bytes at the beginning are moved behind the end instead of behind the bytes that go
  before them, and when the bytes do not reach the end their number is computed below zero.
\<close>

theorem rearrange_overruns:
  assumes "cb_rep s xs" and "0 < cb_nLen s" and "0 < cb_nStart s"
  shows "if unat (cb_nStart s) + unat (cb_nLen s) = unat (cb_nSize s) \<and> length xs \<le> 4096
    then \<exists>s'. ReArrangeBuffer s = Some s' \<and> cb_rep s' xs \<and> cb_nStart s' = 0
    else ReArrangeBuffer s = None"
proof -
  let ?S = "unat (cb_nSize s)" and ?A = "unat (cb_nStart s)" and ?N = "unat (cb_nLen s)"
  obtain d where d: "cb_lpData s = Some d"
    using assms by (cases "cb_lpData s") (auto simp: cb_rep_def)
  then have r: "length d = ?S" "?S \<le> 2 ^ 47" "?A < ?S" "?N \<le> ?S" "xs = ring d ?A ?N"
    using assms(1) by (simp_all add: cb_rep_def)
  have pos: "0 < ?A"
    using assms(3) by (simp add: word_less_nat_alt)
  have run: "ReArrangeBuffer s = map_option (\<lambda>d. s\<lparr>cb_lpData := Some d, cb_nStart := 0\<rparr>) (rearrange d (cb_nSize s) (cb_nStart s) (cb_nLen s))"
    using d assms(2,3) by (simp add: ReArrangeBuffer_def map_conv_bind_option comp_def)
  consider "?A + ?N < ?S" | "?A + ?N = ?S" "?N \<le> 4096" | "?S \<le> ?A + ?N" "?S < ?A + ?N \<or> 4096 < ?S - ?A"
    by linarith
  then show ?thesis
  proof cases
    case 1
    then show ?thesis
      using run rearrange_apart [OF r(1,2)] by simp
  next
    case 2
    obtain d' where "rearrange d (cb_nSize s) (cb_nStart s) (cb_nLen s) = Some d'" "length d' = length d"
        "ring d' 0 ?N = ring d ?A ?N"
      using rearrange_flush [OF r(1,2) pos r(3) 2] by blast
    then show ?thesis
      using run 2 r by (simp add: cb_rep_def)
  next
    case 3
    then have "rearrange d (cb_nSize s) (cb_nStart s) (cb_nLen s) = None"
      using rearrange_around [OF r(1,2) pos r(3,4)] by blast
    moreover have "\<not> (?A + ?N = ?S \<and> length xs \<le> 4096)"
      using 3 r(5) by auto
    ultimately show ?thesis
      using run by simp
  qed
qed
definition sample_ring :: cbuf where
  "sample_ring = \<lparr>cb_lpData = Some (replicate 4096 0), cb_nSize = 4096, cb_nStart = 4000, cb_nLen = 200\<rparr>"

lemma rearrange_overruns_witness: "ReArrangeBuffer sample_ring = None"
proof -
  have "cb_rep sample_ring (ring (replicate 4096 0) 4000 200)"
    by (simp add: cb_rep_def sample_ring_def)
  then show ?thesis
    using rearrange_overruns [of sample_ring] by (simp add: sample_ring_def)
qed

text \<open>
  A size that is rounded up beyond the largest word becomes 0: with an allocator that gives an empty
  block for it, \<open>EnsureWritableSize\<close> reports room for every byte of the address space, and there is none.
\<close>

lemma ensure_wraps:
  assumes "malloc 0 = Some []"
  shows "\<exists>s. EnsureWritableSize malloc CCircularBuffer (- 1) = Some (S_OK, s) \<and> cb_nSize s = 0"
  using assms by (simp add: EnsureWritableSize_def GetWritePtr_def CCircularBuffer_def SetBufferSize_def page_up_def)

end
