(* ===== verification/Base64.thy ===== *)
theory Base64
  imports Blocks
begin

unbundle bit_operations_syntax

text \<open>
  The streaming Base64 encoder and decoder of \<open>Source/Crypto/Base64.cpp\<close>: each keeps the units of a
  group that is not complete in \<open>aInput\<close> and appends the translation of a complete group to a block
  that grows by 1024 bytes. A read or a write outside of a block, of \<open>aInput\<close> or of the tables is
  \<open>None\<close>.
\<close>

section \<open>Tables\<close>

definition szBase64CharsA :: "u8 list" where
  "szBase64CharsA = map of_char ''ABCDEFGHIJKLMNOPQRSTUVWXYZabcdefghijklmnopqrstuvwxyz0123456789+/''"

definition aDecodeTable :: "u8 list" where
  "aDecodeTable = map of_char
     (''|$$$}rstuvwxyz{$$$=$$$>?@ABCDEFGHIJKLMNOPQRSTUVW$$$$$$XYZ['' @ [CHR 0x5C] @ '']^_`abcdefghijklmnopq'')"

definition SIZE_T_MAX :: u64 where
  "SIZE_T_MAX = -1"

text \<open>A read of a table or of \<open>aInput\<close>, and a write of \<open>aInput\<close>.\<close>

definition item :: "u8 list \<Rightarrow> nat \<Rightarrow> u8 option" where
  "item xs i = (if i < length xs then Some (xs ! i) else None)"

definition put_item :: "u8 list \<Rightarrow> nat \<Rightarrow> u8 \<Rightarrow> u8 list option" where
  "put_item xs i x = (if i < length xs then Some (xs[i := x]) else None)"

text \<open>The size of the first block and of the next one.\<close>

definition first_size :: "u64 \<Rightarrow> u64" where
  "first_size n =
     (if n = 0 then 1024
      else if n < SIZE_T_MAX - 1024 then (n + 1023) AND NOT 1023
      else SIZE_T_MAX)"

definition next_size :: "u64 \<Rightarrow> u64" where
  "next_size nSize = (if nSize > SIZE_T_MAX - 1024 then SIZE_T_MAX else nSize + 1024)"

section \<open>Encoder\<close>

record enc =
  en_szBufferA :: "u8 list option"
  en_nSize :: u64
  en_nLength :: u64
  en_aInput :: "u8 list"
  en_nInputLength :: nat

definition CBase64Encoder :: enc where
  "CBase64Encoder = \<lparr>en_szBufferA = None, en_nSize = 0, en_nLength = 0, en_aInput = [0, 0, 0], en_nInputLength = 0\<rparr>"

definition enc_Begin :: "u8 allocator \<Rightarrow> enc \<Rightarrow> u64 \<Rightarrow> (HRESULT \<times> enc) option" where
  "enc_Begin malloc s nPreallocateOutputLen = do {
     let s = s\<lparr>en_aInput := [0, 0, 0], en_nLength := 0, en_nInputLength := 0, en_szBufferA := None\<rparr>;
     let n = first_size nPreallocateOutputLen;
     case malloc n of
       None \<Rightarrow> Some (E_OUTOFMEMORY, s\<lparr>en_nSize := 0\<rparr>)
     | Some b \<Rightarrow> do {
         b \<leftarrow> block_write b 0 [0];
         Some (S_OK, s\<lparr>en_szBufferA := Some b, en_nSize := n\<rparr>)
       }
   }"

definition enc_AddToBuffer :: "u8 allocator \<Rightarrow> enc \<Rightarrow> u8 list \<Rightarrow> (bool \<times> enc) option" where
  "enc_AddToBuffer malloc s szDataA = do {
     (ok, s) \<leftarrow> (if en_nLength s > en_nSize s - 5 then
         (if en_nSize s = SIZE_T_MAX then Some (False, s)
          else case malloc (next_size (en_nSize s)) of
              None \<Rightarrow> Some (False, s)
            | Some b \<Rightarrow> do {
                xs \<leftarrow> (if en_nLength s = 0 then Some []
                      else do { d \<leftarrow> en_szBufferA s; block_read d 0 (unat (en_nLength s)) });
                b \<leftarrow> block_write b 0 xs;
                Some (True, s\<lparr>en_szBufferA := Some b, en_nSize := next_size (en_nSize s)\<rparr>)
              })
       else Some (True, s));
     if \<not> ok then Some (False, s)
     else do {
       b \<leftarrow> en_szBufferA s;
       b \<leftarrow> block_write b (unat (en_nLength s)) (szDataA @ [0]);
       Some (True, s\<lparr>en_szBufferA := Some b, en_nLength := en_nLength s + 4\<rparr>)
     }
   }"

text \<open>
  The four characters of a group. The code computes the indices as \<open>int\<close>; they are below 64, so
  that eight bits are enough.
\<close>

definition enc_group :: "u8 list \<Rightarrow> u8 list option" where
  "enc_group aInput = do {
     i0 \<leftarrow> item aInput 0;
     i1 \<leftarrow> item aInput 1;
     i2 \<leftarrow> item aInput 2;
     c0 \<leftarrow> item szBase64CharsA (unat (drop_bit 2 (i0 AND 0xFC)));
     c1 \<leftarrow> item szBase64CharsA (unat (push_bit 4 (i0 AND 0x03) + drop_bit 4 (i1 AND 0xF0)));
     c2 \<leftarrow> item szBase64CharsA (unat (push_bit 2 (i1 AND 0x0F) + drop_bit 6 (i2 AND 0xC0)));
     c3 \<leftarrow> item szBase64CharsA (unat (i2 AND 0x3F));
     Some [c0, c1, c2, c3]
   }"

text \<open>One turn of the loop of \<open>Process\<close>.\<close>

definition enc_step :: "u8 allocator \<Rightarrow> enc \<Rightarrow> u8 \<Rightarrow> (HRESULT \<times> enc) option" where
  "enc_step malloc s c = do {
     a \<leftarrow> put_item (en_aInput s) (en_nInputLength s) c;
     let s = s\<lparr>en_aInput := a, en_nInputLength := en_nInputLength s + 1\<rparr>;
     if en_nInputLength s = 3 then do {
       szDestA \<leftarrow> enc_group (en_aInput s);
       (ok, s) \<leftarrow> enc_AddToBuffer malloc s szDestA;
       if \<not> ok then Some (E_OUTOFMEMORY, s) else Some (S_OK, s\<lparr>en_nInputLength := 0\<rparr>)
     }
     else Some (S_OK, s)
   }"

fun enc_loop :: "u8 allocator \<Rightarrow> enc \<Rightarrow> u8 list \<Rightarrow> nat \<Rightarrow> (HRESULT \<times> enc) option" where
  "enc_loop malloc s data 0 = Some (S_OK, s)"
| "enc_loop malloc s [] (Suc n) = None"
| "enc_loop malloc s (c # data) (Suc n) = do {
     (hRes, s) \<leftarrow> enc_step malloc s c;
     if hRes \<noteq> S_OK then Some (hRes, s) else enc_loop malloc s data n
   }"

definition enc_Process :: "u8 allocator \<Rightarrow> enc \<Rightarrow> u8 list option \<Rightarrow> u64 \<Rightarrow> (HRESULT \<times> enc) option" where
  "enc_Process malloc s lpData nDataLen =
     (if lpData = None \<and> nDataLen > 0 then Some (E_POINTER, s)
      else enc_loop malloc s (case lpData of None \<Rightarrow> [] | Some xs \<Rightarrow> xs) (unat nDataLen))"

text \<open>The two loops of \<open>End\<close>: zeros behind the input, equal signs behind the characters.\<close>

fun put_from :: "u8 list \<Rightarrow> nat \<Rightarrow> nat \<Rightarrow> u8 \<Rightarrow> u8 list option" where
  "put_from xs i 0 x = Some xs"
| "put_from xs i (Suc n) x = do { xs \<leftarrow> put_item xs i x; put_from xs (i + 1) n x }"

definition enc_End :: "u8 allocator \<Rightarrow> enc \<Rightarrow> (HRESULT \<times> enc) option" where
  "enc_End malloc s =
     (if en_nInputLength s > 0 then do {
        a \<leftarrow> put_from (en_aInput s) (en_nInputLength s) (3 - en_nInputLength s) 0;
        szDestA \<leftarrow> enc_group a;
        szDestA \<leftarrow> put_from szDestA (en_nInputLength s + 1) (3 - en_nInputLength s) (of_char CHR ''='');
        (ok, s) \<leftarrow> enc_AddToBuffer malloc
            (s\<lparr>en_aInput := a, en_nInputLength := max 3 (en_nInputLength s)\<rparr>) szDestA;
        if \<not> ok then Some (E_OUTOFMEMORY, s) else Some (S_OK, s)
      }
      else Some (S_OK, s))"

definition enc_GetOutputLength :: "enc \<Rightarrow> u64" where
  "enc_GetOutputLength s = en_nLength s"

text \<open>The buffer as the caller may read it, with the terminator.\<close>

definition enc_GetBuffer :: "enc \<Rightarrow> u8 list" where
  "enc_GetBuffer s = (case en_szBufferA s of Some b \<Rightarrow> b | None \<Rightarrow> [0])"

definition enc_ConsumeOutput :: "enc \<Rightarrow> u64 \<Rightarrow> enc option" where
  "enc_ConsumeOutput s nChars = (case en_szBufferA s of
     None \<Rightarrow> Some s
   | Some b \<Rightarrow> do {
       let nChars = (if nChars > en_nLength s then en_nLength s else nChars);
       let nLength = en_nLength s - nChars;
       xs \<leftarrow> block_read b (unat nChars) (unat nLength);
       b \<leftarrow> block_write b 0 xs;
       b \<leftarrow> block_write b (unat nLength) [0];
       Some (s\<lparr>en_szBufferA := Some b, en_nLength := nLength\<rparr>)
     })"

definition enc_GetRequiredSpace :: "u64 \<Rightarrow> u64" where
  "enc_GetRequiredSpace nDataLen = push_bit 2 ((nDataLen + 2) div 3)"

section \<open>Decoder\<close>

record dec =
  de_lpBuffer :: "u8 list option"
  de_nSize :: u64
  de_nLength :: u64
  de_aInput :: "u8 list"
  de_nInputLength :: nat
  de_nEqualCounter :: u64

definition CBase64Decoder :: dec where
  "CBase64Decoder = \<lparr>de_lpBuffer = None, de_nSize = 0, de_nLength = 0, de_aInput = [0, 0, 0, 0],
     de_nInputLength = 0, de_nEqualCounter = 0\<rparr>"

definition dec_Begin :: "u8 allocator \<Rightarrow> dec \<Rightarrow> u64 \<Rightarrow> HRESULT \<times> dec" where
  "dec_Begin malloc s nPreallocateOutputLen =
     (let s = s\<lparr>de_aInput := [0, 0, 0, 0], de_nLength := 0, de_nInputLength := 0, de_nEqualCounter := 0,
            de_lpBuffer := None\<rparr>;
          n = first_size nPreallocateOutputLen in
      case malloc n of
        None \<Rightarrow> (E_OUTOFMEMORY, s\<lparr>de_nSize := 0\<rparr>)
      | Some b \<Rightarrow> (S_OK, s\<lparr>de_lpBuffer := Some b, de_nSize := n\<rparr>))"

definition dec_AddToBuffer :: "u8 allocator \<Rightarrow> dec \<Rightarrow> u8 list \<Rightarrow> u64 \<Rightarrow> (bool \<times> dec) option" where
  "dec_AddToBuffer malloc s aData nLen =
     (if de_nLength s + nLen < de_nLength s then Some (False, s)
      else do {
        (ok, s) \<leftarrow> (if de_nLength s > de_nSize s - nLen then
            (if de_nSize s = SIZE_T_MAX then Some (False, s)
             else case malloc (next_size (de_nSize s)) of
                 None \<Rightarrow> Some (False, s)
               | Some b \<Rightarrow> do {
                   xs \<leftarrow> (if de_nLength s = 0 then Some []
                         else do { d \<leftarrow> de_lpBuffer s; block_read d 0 (unat (de_nLength s)) });
                   b \<leftarrow> block_write b 0 xs;
                   Some (True, s\<lparr>de_lpBuffer := Some b, de_nSize := next_size (de_nSize s)\<rparr>)
                 })
          else Some (True, s));
        if \<not> ok then Some (False, s)
        else do {
          xs \<leftarrow> block_read aData 0 (unat nLen);
          b \<leftarrow> de_lpBuffer s;
          b \<leftarrow> block_write b (unat (de_nLength s)) xs;
          Some (True, s\<lparr>de_lpBuffer := Some b, de_nLength := de_nLength s + nLen\<rparr>)
        }
      })"

definition dec_group :: "u8 list \<Rightarrow> u8 list option" where
  "dec_group aInput = do {
     i0 \<leftarrow> item aInput 0;
     i1 \<leftarrow> item aInput 1;
     i2 \<leftarrow> item aInput 2;
     i3 \<leftarrow> item aInput 3;
     Some [push_bit 2 i0 OR drop_bit 4 i1, push_bit 4 i1 OR drop_bit 2 i2, (push_bit 6 i2 AND 0xC0) OR i3]
   }"

definition dec_value :: "u8 \<Rightarrow> u8 option" where
  "dec_value c = (if c < 43 \<or> c > 122 then Some (of_char CHR ''$'') else item aDecodeTable (unat (c - 43)))"

text \<open>One turn of the loop of \<open>Process\<close>.\<close>

definition dec_step :: "u8 allocator \<Rightarrow> dec \<Rightarrow> u8 \<Rightarrow> (HRESULT \<times> dec) option" where
  "dec_step malloc s c = do {
     val \<leftarrow> dec_value c;
     if val = of_char CHR ''='' then
       (let s = s\<lparr>de_nEqualCounter := de_nEqualCounter s + 1\<rparr> in
        if de_nEqualCounter s > 2 then Some (MX_E_InvalidData, s) else Some (S_OK, s))
     else if val \<noteq> of_char CHR ''$'' then do {
       a \<leftarrow> put_item (de_aInput s) (de_nInputLength s) (val - 62);
       let s = s\<lparr>de_nEqualCounter := 0, de_aInput := a, de_nInputLength := de_nInputLength s + 1\<rparr>;
       if de_nInputLength s \<ge> 4 then do {
         aDest \<leftarrow> dec_group (de_aInput s);
         (ok, s) \<leftarrow> dec_AddToBuffer malloc s aDest 3;
         if \<not> ok then Some (E_OUTOFMEMORY, s) else Some (S_OK, s\<lparr>de_nInputLength := 0\<rparr>)
       }
       else Some (S_OK, s)
     }
     else Some (S_OK, s)
   }"

fun dec_loop :: "u8 allocator \<Rightarrow> dec \<Rightarrow> u8 list \<Rightarrow> nat \<Rightarrow> (HRESULT \<times> dec) option" where
  "dec_loop malloc s data 0 = Some (S_OK, s)"
| "dec_loop malloc s [] (Suc n) = None"
| "dec_loop malloc s (c # data) (Suc n) = do {
     (hRes, s) \<leftarrow> dec_step malloc s c;
     if hRes \<noteq> S_OK then Some (hRes, s) else dec_loop malloc s data n
   }"

text \<open>
  The length -1 stands for the length of a string that ends with a zero byte; \<open>StrLenA\<close> reads until
  that byte.
\<close>

definition terminated_length :: "u8 list \<Rightarrow> u64 option" where
  "terminated_length xs = (if 0 \<in> set xs then Some (of_nat (length (takeWhile (\<lambda>c. c \<noteq> 0) xs))) else None)"

definition dec_Process :: "u8 allocator \<Rightarrow> dec \<Rightarrow> u8 list option \<Rightarrow> u64 \<Rightarrow> (HRESULT \<times> dec) option" where
  "dec_Process malloc s szDataA nDataLen = do {
     nDataLen \<leftarrow> (if nDataLen = -1 then (case szDataA of None \<Rightarrow> Some 0 | Some xs \<Rightarrow> terminated_length xs)
                 else Some nDataLen);
     if szDataA = None \<and> nDataLen > 0 then Some (E_POINTER, s)
     else dec_loop malloc s (case szDataA of None \<Rightarrow> [] | Some xs \<Rightarrow> xs) (unat nDataLen)
   }"

definition dec_End :: "u8 allocator \<Rightarrow> dec \<Rightarrow> (HRESULT \<times> dec) option" where
  "dec_End malloc s =
     (if de_nInputLength s > 1 then do {
        a \<leftarrow> put_from (de_aInput s) (de_nInputLength s) (4 - de_nInputLength s) 0;
        aDest \<leftarrow> dec_group a;
        (ok, s) \<leftarrow> dec_AddToBuffer malloc (s\<lparr>de_aInput := a\<rparr>) aDest (of_nat (de_nInputLength s - 1));
        if \<not> ok then Some (E_OUTOFMEMORY, s) else Some (S_OK, s)
      }
      else Some (S_OK, s))"

definition dec_GetBuffer :: "dec \<Rightarrow> u8 list option" where
  "dec_GetBuffer s = de_lpBuffer s"

definition dec_GetOutputLength :: "dec \<Rightarrow> u64" where
  "dec_GetOutputLength s = de_nLength s"

definition dec_ConsumeOutput :: "dec \<Rightarrow> u64 \<Rightarrow> dec option" where
  "dec_ConsumeOutput s nBytes = (case de_lpBuffer s of
     None \<Rightarrow> Some s
   | Some b \<Rightarrow> do {
       let nBytes = (if nBytes > de_nLength s then de_nLength s else nBytes);
       let nLength = de_nLength s - nBytes;
       xs \<leftarrow> block_read b (unat nBytes) (unat nLength);
       b \<leftarrow> block_write b 0 xs;
       Some (s\<lparr>de_lpBuffer := Some b, de_nLength := nLength\<rparr>)
     })"

definition dec_GetRequiredSpace :: "u64 \<Rightarrow> u64" where
  "dec_GetRequiredSpace nDataLen = drop_bit 2 (nDataLen + 3) * 3"

end
