(* ===== verification/Base64_Ref.thy ===== *)
theory Base64_Ref
  imports Base64
begin

unbundle bit_operations_syntax

text \<open>
  A reference definition of Base64 over the numbers that the groups spell, its round trip, and the
  equality of the tables and of the group computations of the code with it.
\<close>

section \<open>Reference definitions\<close>

text \<open>
  A group of three bytes is a number below 2 to the 24th, written with four digits in base 64. The
  alphabet is given by its ranges, as in RFC 4648, and not by the tables of the code.
\<close>

definition b64_digit :: "nat \<Rightarrow> u8" where
  "b64_digit v = of_nat
     (if v < 26 then v + 65 else if v < 52 then (v - 26) + 97 else if v < 62 then (v - 52) + 48
      else if v = 62 then 43 else 47)"

definition b64_pad :: u8 where
  "b64_pad = 61"

definition b64_number :: "u8 \<Rightarrow> u8 \<Rightarrow> u8 \<Rightarrow> nat" where
  "b64_number a b c = unat a * 65536 + unat b * 256 + unat c"

fun b64_encode :: "u8 list \<Rightarrow> u8 list" where
  "b64_encode [] = []"
| "b64_encode [a] = (let n = b64_number a 0 0 in
     [b64_digit (n div 262144), b64_digit (n div 4096 mod 64), b64_pad, b64_pad])"
| "b64_encode [a, b] = (let n = b64_number a b 0 in
     [b64_digit (n div 262144), b64_digit (n div 4096 mod 64), b64_digit (n div 64 mod 64), b64_pad])"
| "b64_encode (a # b # c # xs) = (let n = b64_number a b c in
     [b64_digit (n div 262144), b64_digit (n div 4096 mod 64), b64_digit (n div 64 mod 64), b64_digit (n mod 64)] @
     b64_encode xs)"

text \<open>The digits of a text: characters outside of the alphabet are left out.\<close>

definition b64_value :: "u8 \<Rightarrow> nat option" where
  "b64_value c =
     (let n = unat c in
      if 65 \<le> n \<and> n \<le> 90 then Some (n - 65) else if 97 \<le> n \<and> n \<le> 122 then Some (n - 97 + 26)
      else if 48 \<le> n \<and> n \<le> 57 then Some (n - 48 + 52) else if n = 43 then Some 62 else if n = 47 then Some 63
      else None)"

definition b64_values :: "u8 list \<Rightarrow> nat list" where
  "b64_values cs = List.map_filter b64_value cs"

definition b64_bytes :: "nat \<Rightarrow> u8 list" where
  "b64_bytes n = [of_nat (n div 65536), of_nat (n div 256 mod 256), of_nat (n mod 256)]"

fun b64_decode :: "nat list \<Rightarrow> u8 list" where
  "b64_decode [] = []"
| "b64_decode [v] = []"
| "b64_decode [v, w] = take 1 (b64_bytes (v * 262144 + w * 4096))"
| "b64_decode [v, w, x] = take 2 (b64_bytes (v * 262144 + w * 4096 + x * 64))"
| "b64_decode (v # w # x # y # vs) = b64_bytes (v * 262144 + w * 4096 + x * 64 + y) @ b64_decode vs"

text \<open>
  The padding that a decoder accepts: never three equal signs with no digit between them. The
  number counts the equal signs since the last digit.
\<close>

fun b64_padding :: "nat \<Rightarrow> u8 list \<Rightarrow> nat option" where
  "b64_padding e [] = Some e"
| "b64_padding e (c # cs) =
     (if c = b64_pad then (if e < 2 then b64_padding (e + 1) cs else None)
      else if b64_value c \<noteq> None then b64_padding 0 cs
      else b64_padding e cs)"

section \<open>The tables\<close>

lemma chars_digits: "szBase64CharsA = map b64_digit [0..<64]"
  by code_simp

lemma item_chars: "v < 64 \<Longrightarrow> item szBase64CharsA v = Some (b64_digit v)"
  by (simp add: item_def chars_digits)

lemma table_values: "aDecodeTable = map (\<lambda>i. if i = 18 then of_char CHR ''='' else
    case b64_value (of_nat (i + 43)) of None \<Rightarrow> of_char CHR ''$'' | Some v \<Rightarrow> of_nat v + 62) [0..<80]"
  by code_simp

lemma dec_value_table: "dec_value c =
    Some (if c = b64_pad then of_char CHR ''='' else case b64_value c of None \<Rightarrow> of_char CHR ''$'' | Some v \<Rightarrow> of_nat v + 62)"
proof (cases "c < 43 \<or> c > 122")
  case True
  then have "unat c < 43 \<or> unat c > 122"
    by (simp add: word_less_nat_alt)
  then have "b64_value c = None" "c \<noteq> b64_pad"
    by (auto simp: b64_value_def b64_pad_def)
  then show ?thesis
    using True by (simp add: dec_value_def)
next
  case False
  then have c: "43 \<le> unat c" "unat c \<le> 122"
    by (simp_all add: word_less_nat_alt)
  then have "unat (c - 43) = unat c - 43"
    by (simp add: unat_sub_le word_le_nat_alt)
  then have "dec_value c = Some (aDecodeTable ! (unat c - 43))"
    using False c by (simp add: dec_value_def item_def table_values)
  moreover have "(unat c - 43 = 18) = (c = b64_pad)"
    using c by (auto simp: b64_pad_def word_unat_eq_iff)
  ultimately show ?thesis
    using c by (simp add: table_values del: of_nat_add)
qed

lemma b64_value_less: "b64_value c = Some v \<Longrightarrow> v < 64"
  by (auto simp: b64_value_def Let_def split: if_splits)

lemma b64_value_digit: "v < 64 \<Longrightarrow> b64_value (b64_digit v) = Some v"
proof -
  have "list_all (\<lambda>v. b64_value (b64_digit v) = Some v) [0..<64]"
    by code_simp
  then show "v < 64 \<Longrightarrow> b64_value (b64_digit v) = Some v"
    by (simp add: list_all_iff)
qed

lemma b64_value_pad: "b64_value b64_pad = None"
  by code_simp

lemma b64_digit_pad: "v < 64 \<Longrightarrow> b64_digit v \<noteq> b64_pad"
  using b64_value_digit [of v] b64_value_pad by auto

section \<open>Groups\<close>

lemma u8_nat: "unat (x :: u8) < 256"
  using unsigned_less [of x] by simp

lemma drop_bit_high: "drop_bit n (x AND NOT (mask n)) = drop_bit n (x :: 'a::len word)"
  by (rule bit_word_eqI) (auto simp: bit_simps dest: bit_imp_le_length)

lemma enc_index:
  fixes a b :: u8
  shows "unat (drop_bit 2 (a AND 0xFC)) = unat a div 4"
    and "unat (push_bit 4 (a AND 0x03) + drop_bit 4 (b AND 0xF0)) = unat a mod 4 * 16 + unat b div 16"
    and "unat (push_bit 2 (a AND 0x0F) + drop_bit 6 (b AND 0xC0)) = unat a mod 16 * 4 + unat b div 64"
    and "unat (a AND 0x3F) = unat a mod 64"
proof -
  have m: "0xFC = NOT (mask 2 :: u8)" "0xF0 = NOT (mask 4 :: u8)" "0xC0 = NOT (mask 6 :: u8)"
      "0x03 = (mask 2 :: u8)" "0x0F = (mask 4 :: u8)" "0x3F = (mask 6 :: u8)"
    by (simp_all add: mask_eq_exp_minus_1)
  note low = and_mask_nat [of _ 2, simplified, unfolded m(4) [symmetric]]
  show "unat (drop_bit 2 (a AND 0xFC)) = unat a div 4"
    unfolding m drop_bit_high by (simp add: drop_bit_nat)
  have d: "unat (drop_bit 4 (b AND 0xF0)) = unat b div 16" "unat (drop_bit 6 (b AND 0xC0)) = unat b div 64"
    unfolding m drop_bit_high by (simp_all add: drop_bit_nat)
  have p: "unat (push_bit 4 (a AND 0x03)) = unat a mod 4 * 16" "unat (push_bit 2 (a AND 0x0F)) = unat a mod 16 * 4"
    unfolding m by (subst push_bit_nat; simp add: and_mask_nat)+
  show "unat (push_bit 4 (a AND 0x03) + drop_bit 4 (b AND 0xF0)) = unat a mod 4 * 16 + unat b div 16"
    by (subst unat_add_small) (use u8_nat [of b] in \<open>simp_all only: p d, simp_all\<close>)
  show "unat (push_bit 2 (a AND 0x0F) + drop_bit 6 (b AND 0xC0)) = unat a mod 16 * 4 + unat b div 64"
    by (subst unat_add_small) (use u8_nat [of b] in \<open>simp_all only: p d, simp_all\<close>)
  show "unat (a AND 0x3F) = unat a mod 64"
    unfolding m and_mask_nat by simp
qed

lemma div_mod_split: "n div m = p * k + q \<Longrightarrow> q < k \<Longrightarrow> n div m mod k = (q :: nat)"
  by simp

lemma number_digits:
  "b64_number a b c div 262144 = unat a div 4"
  "b64_number a b c div 4096 mod 64 = unat a mod 4 * 16 + unat b div 16"
  "b64_number a b c div 64 mod 64 = unat b mod 16 * 4 + unat c div 64"
  "b64_number a b c mod 64 = unat c mod 64"
proof -
  define p q r s t u where pq: "p = unat a div 4" "q = unat a mod 4" "r = unat b div 16" "s = unat b mod 16"
    "t = unat c div 64" "u = unat c mod 64"
  have e: "unat a = p * 4 + q" "unat b = r * 16 + s" "unat c = t * 64 + u"
    by (simp_all add: pq)
  have l: "q < 4" "s < 16" "u < 64" "r < 16" "t < 4"
    using u8_nat [of b] u8_nat [of c] by (auto simp: pq)
  have n: "b64_number a b c = p * 262144 + q * 65536 + r * 4096 + s * 256 + t * 64 + u"
    by (simp add: b64_number_def e)
  show "b64_number a b c div 262144 = unat a div 4"
    unfolding pq(1) [symmetric] n by (rule div_nat_eqI) (use l in auto)
  show "b64_number a b c div 4096 mod 64 = unat a mod 4 * 16 + unat b div 16"
    unfolding pq(2,3) [symmetric] n
    by (rule div_mod_split [of _ _ p], rule div_nat_eqI) (use l in auto)
  show "b64_number a b c div 64 mod 64 = unat b mod 16 * 4 + unat c div 64"
    unfolding pq(4,5) [symmetric] n
    by (rule div_mod_split [of _ _ "p * 64 + q * 16 + r"], rule div_nat_eqI) (use l in auto)
  show "b64_number a b c mod 64 = unat c mod 64"
    unfolding pq(6) [symmetric] n
    by (rule div_mod_split [of _ 1 "p * 4096 + q * 1024 + r * 64 + s * 4 + t", simplified]) (use l in auto)
qed

lemma digit_bounds:
  "b64_number a b c div 262144 < 64"
  using u8_nat [of a] by (simp add: number_digits)

text \<open>The code of a group is the reference.\<close>

lemma enc_group_digits: "enc_group [a, b, c] = (let n = b64_number a b c in
    Some [b64_digit (n div 262144), b64_digit (n div 4096 mod 64), b64_digit (n div 64 mod 64), b64_digit (n mod 64)])"
proof -
  have i: "item [a, b, c] 0 = Some a" "item [a, b, c] 1 = Some b" "item [a, b, c] 2 = Some c"
    by (simp_all add: item_def)
  have b: "unat a div 4 < 64" "unat a mod 4 * 16 + unat b div 16 < 64" "unat b mod 16 * 4 + unat c div 64 < 64" "unat c mod 64 < 64"
    using digit_bounds [of a b c] by (simp_all add: number_digits [of a b c, symmetric])
  show ?thesis
    unfolding enc_group_def i Option.bind.bind_lunit enc_index item_chars [OF b(1)] item_chars [OF b(2)] item_chars [OF b(3)]
      item_chars [OF b(4)] Let_def number_digits by simp
qed

lemma or_disjoint:
  fixes a b :: u8
  assumes "take_bit 6 b = b"
  shows "push_bit 2 a OR drop_bit 4 b = push_bit 2 a + drop_bit 4 b"
    and "push_bit 4 a OR drop_bit 2 b = push_bit 4 a + drop_bit 2 b"
    and "(push_bit 6 a AND 0xC0) OR b = push_bit 6 a + b"
proof -
  have b: "bit b n \<Longrightarrow> n < 6" for n
    using assms by (metis bit_take_bit_iff)
  have m: "0xC0 = NOT (mask 6 :: u8)"
    by (simp add: mask_eq_exp_minus_1)
  have p: "push_bit 6 a AND 0xC0 = push_bit 6 a"
    unfolding m by (rule bit_word_eqI) (auto simp: bit_simps)
  show "push_bit 2 a OR drop_bit 4 b = push_bit 2 a + drop_bit 4 b"
    by (rule disjunctive_add_eq_or [symmetric], rule bit_word_eqI) (auto simp: bit_simps dest!: b)
  show "push_bit 4 a OR drop_bit 2 b = push_bit 4 a + drop_bit 2 b"
    by (rule disjunctive_add_eq_or [symmetric], rule bit_word_eqI) (auto simp: bit_simps dest!: b)
  show "(push_bit 6 a AND 0xC0) OR b = push_bit 6 a + b"
    unfolding p by (rule disjunctive_add_eq_or [symmetric], rule bit_word_eqI) (auto simp: bit_simps dest!: b)
qed

lemma take_bit_small: "v < 64 \<Longrightarrow> take_bit 6 (of_nat v :: u8) = of_nat v"
  by (simp add: word_unat_eq_iff unsigned_take_bit_eq unat_of_nat take_bit_nat_eq_self)

lemma drop_bit_of_nat_small: "v < 256 \<Longrightarrow> drop_bit n (of_nat v :: u8) = of_nat (v div 2 ^ n)"
proof -
  assume v: "v < 256"
  then have "v div 2 ^ n < 256"
    by (meson div_le_dividend le_less_trans)
  with v show ?thesis
    by (simp add: word_unat_eq_iff drop_bit_nat unat_of_nat)
qed

lemma of_nat_mod_256: "of_nat (k mod 256) = (of_nat k :: u8)"
  by (simp add: word_unat_eq_iff unat_of_nat)

lemma dec_group_bytes:
  assumes "v < 64" "w < 64" "x < 64" "y < 64"
  shows "dec_group [of_nat v, of_nat w, of_nat x, of_nat y] = Some (b64_bytes (v * 262144 + w * 4096 + x * 64 + y))"
proof -
  have n: "(v * 262144 + w * 4096 + x * 64 + y) div 65536 = v * 4 + w div 16"
    "(v * 262144 + w * 4096 + x * 64 + y) div 256 = v * 1024 + w * 16 + x div 4"
    using assms by linarith+
  have b0: "push_bit 2 (of_nat v :: u8) OR drop_bit 4 (of_nat w) = of_nat (v * 4 + w div 16)"
    unfolding or_disjoint(1) [OF take_bit_small [OF assms(2)]]
    using assms by (simp add: drop_bit_of_nat_small push_bit_eq_mult)
  have z: "(1024 :: u8) = 0" "(4096 :: u8) = 0" "(262144 :: u8) = 0"
    by simp_all
  have b1: "push_bit 4 (of_nat w :: u8) OR drop_bit 2 (of_nat x) = of_nat ((v * 1024 + w * 16 + x div 4) mod 256)"
    unfolding of_nat_mod_256 or_disjoint(2) [OF take_bit_small [OF assms(3)]]
    using assms by (simp add: drop_bit_of_nat_small push_bit_eq_mult z)
  have b2: "(push_bit 6 (of_nat x :: u8) AND 0xC0) OR of_nat y = of_nat ((v * 262144 + w * 4096 + x * 64 + y) mod 256)"
    unfolding of_nat_mod_256 or_disjoint(3) [OF take_bit_small [OF assms(4)]] by (simp add: push_bit_eq_mult z)
  show ?thesis
    using b0 b1 b2 by (simp add: dec_group_def item_def b64_bytes_def n)
qed

section \<open>The reference round trip\<close>

lemma encode_append: "3 dvd length ys \<Longrightarrow> b64_encode (ys @ zs) = b64_encode ys @ b64_encode zs"
proof (induction ys rule: b64_encode.induct)
  case (4 a b c xs)
  have "length (a # b # c # xs) = 3 + length xs"
    by simp
  then have "3 dvd length xs"
    using 4(2) by (metis dvd_add_triv_left_iff)
  then show ?case
    using 4(1) by (simp add: Let_def)
qed (auto dest!: dvd_imp_le)

lemma decode_append: "4 dvd length us \<Longrightarrow> b64_decode (us @ ws) = b64_decode us @ b64_decode ws"
proof (induction us rule: b64_decode.induct)
  case (5 v w x y vs)
  have "length (v # w # x # y # vs) = 4 + length vs"
    by simp
  then have "4 dvd length vs"
    using 5(2) by (metis dvd_add_triv_left_iff)
  then show ?case
    using 5(1) by simp
qed (auto dest!: dvd_imp_le)

lemma length_encode: "length (b64_encode xs) = 4 * ((length xs + 2) div 3)"
proof (induction xs rule: b64_encode.induct)
  case (4 a b c xs)
  have "(length (a # b # c # xs) + 2) div 3 = (length xs + 2 + 3) div 3"
    by simp
  also have "\<dots> = (length xs + 2) div 3 + 1"
    by (simp only: div_add_self2)
  finally show ?case
    using 4 by (simp only: b64_encode.simps Let_def length_append) simp
qed (simp_all add: Let_def)

lemma length_bytes [simp]: "length (b64_bytes n) = 3"
  by (simp add: b64_bytes_def)

lemma values_simps [simp]:
  "b64_values [] = []"
  "b64_values (c # cs) = (case b64_value c of None \<Rightarrow> b64_values cs | Some v \<Rightarrow> v # b64_values cs)"
  "b64_values (cs @ ds) = b64_values cs @ b64_values ds"
  by (simp_all add: b64_values_def List.map_filter_def split: option.split)

lemma values_less: "v \<in> set (b64_values cs) \<Longrightarrow> v < 64"
  by (induction cs) (auto split: option.splits dest: b64_value_less)

lemma number_digits_sum: "b64_number a b c div 262144 * 262144 + b64_number a b c div 4096 mod 64 * 4096 +
    b64_number a b c div 64 mod 64 * 64 + b64_number a b c mod 64 = b64_number a b c"
proof -
  have "b64_number a b c div 4096 = b64_number a b c div 262144 * 64 + b64_number a b c div 4096 mod 64"
    using div_mult2_eq [of "b64_number a b c" 4096 64] div_mult_mod_eq [of "b64_number a b c div 4096" 64] by simp
  moreover have "b64_number a b c div 64 = b64_number a b c div 4096 * 64 + b64_number a b c div 64 mod 64"
    using div_mult2_eq [of "b64_number a b c" 64 64] div_mult_mod_eq [of "b64_number a b c div 64" 64] by simp
  moreover have "b64_number a b c = b64_number a b c div 64 * 64 + b64_number a b c mod 64"
    by simp
  ultimately show ?thesis
    by linarith
qed

lemma bytes_number: "b64_bytes (b64_number a b c) = [a, b, c]"
proof -
  have "b64_number a b c div 65536 = unat a"
    unfolding b64_number_def by (rule div_nat_eqI) (use u8_nat [of b] u8_nat [of c] in auto)
  moreover have "b64_number a b c div 256 = unat a * 256 + unat b"
    unfolding b64_number_def by (rule div_nat_eqI) (use u8_nat [of c] in auto)
  moreover have "of_nat (b64_number a b c mod 256) = c"
  proof -
    have z: "(65536 :: u8) = 0" "(256 :: u8) = 0"
      by simp_all
    show ?thesis
      unfolding of_nat_mod_256 by (simp add: b64_number_def z)
  qed
  ultimately show ?thesis
    using u8_nat [of b] by (simp add: b64_bytes_def)
qed

lemma digit_values: "b64_value (b64_digit (b64_number a b c div 262144)) = Some (b64_number a b c div 262144)"
  "b64_value (b64_digit (n mod 64)) = Some (n mod 64)"
  using digit_bounds by (simp_all add: b64_value_digit)

lemma low_digits: "b64_number a 0 0 div 64 mod 64 = 0" "b64_number a b 0 mod 64 = 0"
  by (simp_all add: number_digits)

lemma decode_encode: "b64_decode (b64_values (b64_encode xs)) = xs"
proof (induction xs rule: b64_encode.induct)
  case (2 a)
  have "b64_number a 0 0 div 262144 * 262144 + b64_number a 0 0 div 4096 mod 64 * 4096 = b64_number a 0 0"
    using number_digits_sum [of a 0 0] by (simp add: low_digits)
  then show ?case
    by (simp add: Let_def digit_values b64_value_pad bytes_number)
next
  case (3 a b)
  have "b64_number a b 0 div 262144 * 262144 + b64_number a b 0 div 4096 mod 64 * 4096 +
      b64_number a b 0 div 64 mod 64 * 64 = b64_number a b 0"
    using number_digits_sum [of a b 0] by (simp add: low_digits)
  then show ?case
    by (simp add: Let_def digit_values b64_value_pad bytes_number)
next
  case (4 a b c xs)
  then show ?case
    by (simp add: Let_def digit_values number_digits_sum bytes_number)
qed simp

lemma padding_append: "b64_padding e (cs @ ds) = Option.bind (b64_padding e cs) (\<lambda>e. b64_padding e ds)"
  by (induction cs arbitrary: e) simp_all

lemma padding_skip: "b64_padding e (filter (\<lambda>c. b64_value c \<noteq> None \<or> c = b64_pad) cs) = b64_padding e cs"
  by (induction cs arbitrary: e) auto

lemma values_skip: "b64_values (filter (\<lambda>c. b64_value c \<noteq> None \<or> c = b64_pad) cs) = b64_values cs"
  by (induction cs) (auto simp: b64_value_pad split: option.split)

lemma digit_padding: "b64_padding e (b64_digit (b64_number a b c div 262144) # cs) = b64_padding 0 cs"
  "b64_padding e (b64_digit (n mod 64) # cs) = b64_padding 0 cs"
  using digit_bounds [of a b c] by (simp_all add: b64_digit_pad digit_values)

lemma padding_encode: "b64_padding e (b64_encode xs) \<noteq> None"
proof (induction xs arbitrary: e rule: b64_encode.induct)
  case (4 a b c xs)
  then show ?case
    by (simp add: Let_def digit_padding del: b64_padding.simps(2))
next
  case (2 a)
  have "b64_padding 0 [b64_pad, b64_pad] \<noteq> None"
    by simp
  then show ?case
    by (simp add: Let_def digit_padding del: b64_padding.simps(2))
next
  case (3 a b)
  have "b64_padding 0 [b64_pad] \<noteq> None"
    by simp
  then show ?case
    by (simp add: Let_def digit_padding del: b64_padding.simps(2))
qed simp

end
