(* ===== verification/Streams.thy ===== *)
theory Streams
  imports Blocks
begin

text \<open>
  Streaming translators: an object that takes its input in chunks, has an output buffer from which the
  caller may remove a part at any time, and is told when the input has ended. A session is any such
  sequence of calls; the caller stops at the first error.
\<close>

section \<open>Sessions\<close>

datatype io = Feed "u8 list" | Take u64

fun fed_of :: "io list \<Rightarrow> u8 list" where
  "fed_of [] = []"
| "fed_of (Feed xs # ops) = xs @ fed_of ops"
| "fed_of (Take n # ops) = fed_of ops"

text \<open>A chunk is passed with its length, a machine word; the largest stands for no length.\<close>

definition chunks_fit :: "io list \<Rightarrow> bool" where
  "chunks_fit ops \<longleftrightarrow> list_all (\<lambda>c. case c of Feed xs \<Rightarrow> length xs < 2 ^ 64 - 1 | Take n \<Rightarrow> True) ops"

lemma chunks_fit_simps [simp]:
  "chunks_fit []"
  "chunks_fit (Feed xs # ops) \<longleftrightarrow> length xs < 2 ^ 64 - 1 \<and> chunks_fit ops"
  "chunks_fit (Take n # ops) \<longleftrightarrow> chunks_fit ops"
  by (simp_all add: chunks_fit_def)

fun stream_run :: "('s \<Rightarrow> u8 list \<Rightarrow> (HRESULT \<times> 's) option) \<Rightarrow> ('s \<Rightarrow> (HRESULT \<times> 's) option) \<Rightarrow> ('s \<Rightarrow> u8 list option) \<Rightarrow>
    ('s \<Rightarrow> u64 \<Rightarrow> 's option) \<Rightarrow> 's \<Rightarrow> u8 list \<Rightarrow> io list \<Rightarrow> (HRESULT \<times> u8 list) option" where
  "stream_run process finish outp consume s taken [] = do {
     (hRes, s) \<leftarrow> finish s;
     out \<leftarrow> outp s;
     Some (hRes, taken @ out)
   }"
| "stream_run process finish outp consume s taken (Feed xs # ops) = do {
     (hRes, s) \<leftarrow> process s xs;
     if hRes \<noteq> S_OK then Some (hRes, taken)
     else stream_run process finish outp consume s taken ops
   }"
| "stream_run process finish outp consume s taken (Take n # ops) = do {
     out \<leftarrow> outp s;
     s \<leftarrow> consume s n;
     stream_run process finish outp consume s (taken @ take (unat n) out) ops
   }"

section \<open>What a translator owes its caller\<close>

text \<open>
  \<open>rep\<close> relates a state to the input so far and to the output that has been removed; \<open>good\<close> and \<open>fails\<close>
  say what the whole input may give.
\<close>

locale translator =
  fixes process :: "'s \<Rightarrow> u8 list \<Rightarrow> (HRESULT \<times> 's) option"
    and finish :: "'s \<Rightarrow> (HRESULT \<times> 's) option"
    and outp :: "'s \<Rightarrow> u8 list option"
    and consume :: "'s \<Rightarrow> u64 \<Rightarrow> 's option"
    and rep :: "'s \<Rightarrow> u8 list \<Rightarrow> u8 list \<Rightarrow> bool"
    and good :: "u8 list \<Rightarrow> u8 list \<Rightarrow> bool"
    and fails :: "HRESULT \<Rightarrow> u8 list \<Rightarrow> bool"
  assumes process_rep: "rep s fed taken \<Longrightarrow> length xs < 2 ^ 64 - 1 \<Longrightarrow> \<exists>h s'. process s xs = Some (h, s') \<and>
      (if h = S_OK then rep s' (fed @ xs) taken else fails h (fed @ xs))"
    and finish_rep: "rep s fed taken \<Longrightarrow> \<exists>h s' out. finish s = Some (h, s') \<and> outp s' = Some out \<and>
      (if h = S_OK then good fed (taken @ out) else fails h fed)"
    and consume_rep: "rep s fed taken \<Longrightarrow> \<exists>s' out. outp s = Some out \<and> consume s n = Some s' \<and>
      rep s' fed (taken @ take (unat n) out)"
    and fails_later: "fails h fed \<Longrightarrow> fails h (fed @ xs)"
begin

lemma run_rep: "rep s fed taken \<Longrightarrow> chunks_fit ops \<Longrightarrow>
    \<exists>h out. stream_run process finish outp consume s taken ops = Some (h, out) \<and>
      (if h = S_OK then good (fed @ fed_of ops) out else fails h (fed @ fed_of ops))"
proof (induction ops arbitrary: s fed taken)
  case Nil
  then show ?case
    using finish_rep [OF Nil(1)] by fastforce
next
  case (Cons c ops)
  show ?case
  proof (cases c)
    case (Feed xs)
    obtain h s' where p: "process s xs = Some (h, s')"
      and r: "if h = S_OK then rep s' (fed @ xs) taken else fails h (fed @ xs)"
      using process_rep [OF Cons(2), of xs] Cons(3) Feed by auto
    show ?thesis
    proof (cases "h = S_OK")
      case True
      then obtain h2 out where "stream_run process finish outp consume s' taken ops = Some (h2, out)"
        "if h2 = S_OK then good (fed @ xs @ fed_of ops) out else fails h2 (fed @ xs @ fed_of ops)"
        using Cons.IH [of s' "fed @ xs" taken, unfolded append_assoc] Cons(3) r Feed True by auto
      then show ?thesis
        using True by (simp add: Feed p)
    next
      case False
      then have "fails h (fed @ xs @ fed_of ops)"
        using fails_later [of h "fed @ xs" "fed_of ops"] r by simp
      then show ?thesis
        using False by (simp add: Feed p)
    qed
  next
    case (Take n)
    obtain s' out where t: "outp s = Some out" "consume s n = Some s'" "rep s' fed (taken @ take (unat n) out)"
      using consume_rep [OF Cons(2)] by blast
    then obtain h2 out2 where "stream_run process finish outp consume s' (taken @ take (unat n) out) ops = Some (h2, out2)"
      "if h2 = S_OK then good (fed @ fed_of ops) out2 else fails h2 (fed @ fed_of ops)"
      using Cons.IH [of s' fed "taken @ take (unat n) out"] Cons(3) Take by auto
    then show ?thesis
      using t by (simp add: Take)
  qed
qed

end

end
