(* ===== verification/Base64_Rep.thy ===== *)
theory Base64_Rep
  imports Base64_Ref Streams
begin

unbundle bit_operations_syntax

text \<open>
  The buffers of the Base64 encoder and decoder, which grow as the output does, and the encoder as a
  translator: its invariant over the input so far and the output that the caller has taken.
\<close>

section \<open>Blocks that grow\<close>

lemma next_size_unat: "unat n \<le> 2 ^ 47 \<Longrightarrow> unat (next_size n) = unat n + 1024 \<and> n \<noteq> SIZE_T_MAX"
proof -
  assume n: "unat n \<le> 2 ^ 47"
  have m: "unat (SIZE_T_MAX - 1024) = 2 ^ 64 - 1025" "unat SIZE_T_MAX = 2 ^ 64 - 1"
    by (simp_all add: SIZE_T_MAX_def unsigned_minus_1_eq_mask mask_eq_exp_minus_1)
  have "\<not> n > SIZE_T_MAX - 1024" "n \<noteq> SIZE_T_MAX"
    using n m by (auto simp: word_less_nat_alt)
  then show ?thesis
    using n by (simp add: next_size_def unat_add_small)
qed

lemma first_size_cases: "first_size n = SIZE_T_MAX \<or> 1024 \<le> unat (first_size n)"
proof (cases "n = 0 \<or> \<not> n < SIZE_T_MAX - 1024")
  case True
  then show ?thesis
    by (auto simp: first_size_def)
next
  case False
  have "unat (SIZE_T_MAX - 1024) = 2 ^ 64 - 1025"
    by (simp add: SIZE_T_MAX_def)
  then have n: "unat n < 2 ^ 64 - 1025" "0 < unat n"
    using False by (auto simp: word_less_nat_alt unat_gt_0)
  let ?w = "n + 1023"
  have m: "1023 = (mask 10 :: u64)"
    by (simp add: mask_eq_exp_minus_1)
  have "?w AND NOT (mask 10) = push_bit 10 (drop_bit 10 ?w)"
    by (rule bit_word_eqI) (auto simp: bit_simps)
  moreover have "unat ?w = unat n + 1023"
    using n by (simp add: unat_add_small)
  moreover have "unat (drop_bit 10 ?w) = unat ?w div 1024"
    by (simp add: drop_bit_nat)
  moreover have "unat (push_bit 10 (drop_bit 10 ?w)) = unat (drop_bit 10 ?w) * 2 ^ 10"
    by (rule push_bit_nat) (use n in \<open>simp add: drop_bit_nat unat_add_small\<close>)
  ultimately have "unat (first_size n) = (unat n + 1023) div 1024 * 1024"
    using False by (simp add: first_size_def m [symmetric])
  moreover have "1 \<le> (unat n + 1023) div 1024"
    using n(2) by simp
  ultimately show ?thesis
    by simp
qed

lemma first_size_fair: "fair malloc \<Longrightarrow> malloc (first_size n) = Some b \<Longrightarrow>
    length b = unat (first_size n) \<and> 1024 \<le> length b \<and> length b \<le> 2 ^ 47"
  using first_size_cases [of n] fairD [of malloc "first_size n" b]
  by (auto simp: SIZE_T_MAX_def unsigned_minus_1_eq_mask mask_eq_exp_minus_1)

section \<open>The output of the encoder\<close>

text \<open>The buffer holds the output and a zero.\<close>

definition enc_buf :: "enc \<Rightarrow> u8 list \<Rightarrow> bool" where
  "enc_buf s out \<longleftrightarrow> (\<exists>b. en_szBufferA s = Some b \<and> length b = unat (en_nSize s) \<and> 1024 \<le> length b \<and> length b \<le> 2 ^ 47 \<and>
     unat (en_nLength s) = length out \<and> length out < length b \<and> take (length out + 1) b = out @ [0])"

definition enc_output :: "enc \<Rightarrow> u8 list option" where
  "enc_output s = block_read (enc_GetBuffer s) 0 (unat (enc_GetOutputLength s))"

lemma take_Suc_snocD: "take (Suc (length xs)) b = xs @ [x] \<Longrightarrow> take (length xs) b = xs"
  by (drule arg_cong [where f = "take (length xs)"]) simp

lemma enc_output_buf: "enc_buf s out \<Longrightarrow> enc_output s = Some out"
  by (auto simp: enc_buf_def enc_output_def enc_GetBuffer_def enc_GetOutputLength_def block_read_ok take_Suc_snocD)

lemma enc_AddToBuffer_buf:
  assumes buf: "enc_buf s out" and fair: "fair malloc" and ds: "length ds = 4"
  shows "(\<exists>s'. enc_AddToBuffer malloc s ds = Some (True, s') \<and> en_aInput s' = en_aInput s \<and>
      en_nInputLength s' = en_nInputLength s \<and> enc_buf s' (out @ ds)) \<or>
    enc_AddToBuffer malloc s ds = Some (False, s) \<and> \<not> roomy malloc (length out + 1028)"
proof -
  obtain b where b: "en_szBufferA s = Some b" "length b = unat (en_nSize s)" "1024 \<le> length b" "length b \<le> 2 ^ 47"
    "unat (en_nLength s) = length out" "length out < length b" "take (length out + 1) b = out @ [0]"
    using buf by (auto simp: enc_buf_def)
  have out: "take (length out) b = out"
    using b(7) by (simp add: take_Suc_snocD)
  have nl: "en_nLength s = 0 \<longleftrightarrow> out = []"
    using b(5) by (metis length_0_conv unat_eq_zero)
  have five: "unat (en_nSize s - 5) = unat (en_nSize s) - 5"
    using b(2,3) by (simp add: unat_sub_le word_le_nat_alt)
  have full: "en_nLength s > en_nSize s - 5 \<longleftrightarrow> length b < length out + 5"
    using five b(2,3,5) by (auto simp: word_less_nat_alt)
  have add: "\<exists>c'. block_write c (length out) (ds @ [0]) = Some c' \<and>
      enc_buf (s\<lparr>en_nSize := n, en_szBufferA := Some c', en_nLength := en_nLength s + 4\<rparr>) (out @ ds)"
    if c: "length c = unat n" "1024 \<le> length c" "length c \<le> 2 ^ 47" "take (length out) c = out" "length out + 5 \<le> length c"
    for c and n :: u64
  proof -
    obtain c' where c': "block_write c (length out) (ds @ [0]) = Some c'" "length c' = length c"
      "take (length out + 5) c' = out @ ds @ [0]"
      using block_write_prefix [of "length out" "ds @ [0]" c] c(4,5) ds by auto
    moreover have "unat (en_nLength s + 4) = length out + 4"
      using b(5,6) b(4) by (simp add: unat_add_small)
    ultimately show ?thesis
      using c ds by (auto simp: enc_buf_def add.commute)
  qed
  show ?thesis
  proof (cases "length b < length out + 5")
    case False
    obtain c' where "block_write b (length out) (ds @ [0]) = Some c'"
      "enc_buf (s\<lparr>en_nSize := en_nSize s, en_szBufferA := Some c', en_nLength := en_nLength s + 4\<rparr>) (out @ ds)"
      using add [OF b(2,3,4) out] False by auto
    then show ?thesis
      using False b(1,5) full by (simp add: enc_AddToBuffer_def)
  next
    case True
    have ns: "unat (next_size (en_nSize s)) = length b + 1024" "en_nSize s \<noteq> SIZE_T_MAX"
      using next_size_unat [of "en_nSize s"] b(2,4) by simp_all
    show ?thesis
    proof (cases "malloc (next_size (en_nSize s))")
      case None
      then have "\<not> roomy malloc (length out + 1028)"
        using ns True by (auto simp: roomy_def intro!: exI [of _ "next_size (en_nSize s)"])
      then show ?thesis
        using True full ns None by (simp add: enc_AddToBuffer_def)
    next
      case (Some c)
      have c: "length c = unat (next_size (en_nSize s))" "length c \<le> 2 ^ 47"
        using fairD [OF fair Some] by auto
      have src: "(if en_nLength s = 0 then Some [] else do { d \<leftarrow> en_szBufferA s; block_read d 0 (unat (en_nLength s)) }) = Some out"
        using b(1,5,6) out nl by (simp add: block_read_ok)
      obtain c1 where c1: "block_write c 0 out = Some c1" "length c1 = length c" "take (length out) c1 = out"
        using block_write_prefix [of 0 out c] c(1) ns(1) b(6) by auto
      obtain c' where "block_write c1 (length out) (ds @ [0]) = Some c'"
        "enc_buf (s\<lparr>en_nSize := next_size (en_nSize s), en_szBufferA := Some c', en_nLength := en_nLength s + 4\<rparr>) (out @ ds)"
        using add [of c1 "next_size (en_nSize s)"] c c1 ns(1) b(6) by auto
      then show ?thesis
        using True full ns Some src c1 b(5) by (simp add: enc_AddToBuffer_def)
    qed
  qed
qed

lemma enc_ConsumeOutput_buf:
  assumes buf: "enc_buf s out"
  shows "\<exists>s'. enc_ConsumeOutput s n = Some s' \<and> en_aInput s' = en_aInput s \<and> en_nInputLength s' = en_nInputLength s \<and>
      enc_buf s' (drop (unat n) out)"
proof -
  obtain b where b: "en_szBufferA s = Some b" "length b = unat (en_nSize s)" "1024 \<le> length b" "length b \<le> 2 ^ 47"
    "unat (en_nLength s) = length out" "length out < length b" "take (Suc (length out)) b = out @ [0]"
    using buf by (auto simp: enc_buf_def)
  define m where "m = (if n > en_nLength s then en_nLength s else n)"
  have m: "unat m = min (unat n) (length out)"
    using b(5) by (auto simp: m_def word_less_nat_alt min_def)
  have l: "unat (en_nLength s - m) = length out - unat m"
    using m b(5) by (simp add: unat_sub_le word_le_nat_alt)
  have "take (length out - unat m) (drop (unat m) b) = drop (unat m) (take (length out) b)"
    by (simp add: drop_take)
  also have "\<dots> = drop (unat n) out"
    using b(7) by (simp add: take_Suc_snocD m min_def)
  finally have x: "block_read b (unat m) (unat (en_nLength s - m)) = Some (drop (unat n) out)"
    using b(6) m l by (simp add: block_read_ok)
  have dl: "length (drop (unat n) out) = length out - unat m"
    by (simp add: m min_def)
  obtain b1 where b1: "block_write b 0 (drop (unat n) out) = Some b1" "length b1 = length b"
    "take (length out - unat m) b1 = drop (unat n) out"
    using block_write_prefix [of 0 "drop (unat n) out" b, unfolded dl] b(6) by (auto simp: le_diff_conv trans_le_add1)
  obtain b2 where b2: "block_write b1 (length out - unat m) [0] = Some b2" "length b2 = length b"
    "take (Suc (length out - unat m)) b2 = drop (unat n) out @ [0]"
    using block_write_prefix [of "length out - unat m" "[0]" b1] b(6) b1 by (auto simp: Suc_le_eq less_imp_diff_less)
  have "enc_ConsumeOutput s n = Some (s\<lparr>en_szBufferA := Some b2, en_nLength := en_nLength s - m\<rparr>)"
    using b(1) x b1(1) b2(1) l by (simp add: enc_ConsumeOutput_def m_def [symmetric] Let_def)
  moreover have "enc_buf (s\<lparr>en_szBufferA := Some b2, en_nLength := en_nLength s - m\<rparr>) (drop (unat n) out)"
    using b b2 l dl by (auto simp: enc_buf_def)
  ultimately show ?thesis
    by auto
qed

section \<open>The encoder as a translator\<close>

definition enc_room :: "u8 list \<Rightarrow> nat" where
  "enc_room fed = 4 * ((length fed + 2) div 3) + 1028"

definition enc_rep :: "u8 allocator \<Rightarrow> enc \<Rightarrow> u8 list \<Rightarrow> u8 list \<Rightarrow> bool" where
  "enc_rep malloc s fed taken \<longleftrightarrow> fair malloc \<and> (\<exists>out ys zs. enc_buf s out \<and> fed = ys @ zs \<and> 3 dvd length ys \<and>
     taken @ out = b64_encode ys \<and> length zs < 3 \<and> en_nInputLength s = length zs \<and> length (en_aInput s) = 3 \<and>
     take (length zs) (en_aInput s) = zs)"

lemma enc_repI: "fair malloc \<Longrightarrow> enc_buf s out \<Longrightarrow> fed = ys @ zs \<Longrightarrow> 3 dvd length ys \<Longrightarrow> taken @ out = b64_encode ys \<Longrightarrow>
    length zs < 3 \<Longrightarrow> en_nInputLength s = length zs \<Longrightarrow> length (en_aInput s) = 3 \<Longrightarrow> take (length zs) (en_aInput s) = zs \<Longrightarrow>
    enc_rep malloc s fed taken"
  unfolding enc_rep_def by blast

definition enc_good :: "u8 list \<Rightarrow> u8 list \<Rightarrow> bool" where
  "enc_good fed out \<longleftrightarrow> out = b64_encode fed"

definition enc_fails :: "u8 allocator \<Rightarrow> HRESULT \<Rightarrow> u8 list \<Rightarrow> bool" where
  "enc_fails malloc h fed \<longleftrightarrow> h = E_OUTOFMEMORY \<and> \<not> roomy malloc (enc_room fed)"

lemma enc_fails_later: "enc_fails malloc h fed \<Longrightarrow> enc_fails malloc h (fed @ xs)"
proof -
  have "enc_room fed \<le> enc_room (fed @ xs)"
    by (simp add: enc_room_def div_le_mono)
  then show "enc_fails malloc h fed \<Longrightarrow> enc_fails malloc h (fed @ xs)"
    by (auto simp: enc_fails_def dest: roomy_mono)
qed

lemma enc_step_rep:
  assumes rep: "enc_rep malloc s fed taken"
  shows "\<exists>h s'. enc_step malloc s c = Some (h, s') \<and>
      (if h = S_OK then enc_rep malloc s' (fed @ [c]) taken else enc_fails malloc h (fed @ [c]))"
proof -
  obtain out ys zs where r: "fair malloc" "enc_buf s out" "fed = ys @ zs" "3 dvd length ys" "taken @ out = b64_encode ys"
    "length zs < 3" "en_nInputLength s = length zs" "length (en_aInput s) = 3" "take (length zs) (en_aInput s) = zs"
    using rep by (auto simp: enc_rep_def)
  let ?a = "(en_aInput s)[length zs := c]"
  let ?s = "s\<lparr>en_aInput := ?a, en_nInputLength := length zs + 1\<rparr>"
  have put: "put_item (en_aInput s) (en_nInputLength s) c = Some ?a"
    using r by (simp add: put_item_def)
  have a: "take (Suc (length zs)) ?a = zs @ [c]"
    using r by (simp add: take_Suc_conv_app_nth)
  have buf: "enc_buf ?s out"
    using r(2) by (simp add: enc_buf_def)
  show ?thesis
  proof (cases "length zs = 2")
    case False
    then have "enc_rep malloc ?s (fed @ [c]) taken"
      using r a by (intro enc_repI [OF r(1) buf _ r(4), of _ "zs @ [c]"]) auto
    then show ?thesis
      using False put r(7) by (simp add: enc_step_def Let_def)
  next
    case True
    obtain p q where pq: "zs = [p, q]"
      using True by (metis (no_types, opaque_lifting) One_nat_def Suc_1 length_0_conv length_Suc_conv)
    have a3: "?a = [p, q, c]"
      using a r(8) True pq by simp
    define ds where "ds = b64_encode [p, q, c]"
    have g: "enc_group [p, q, c] = Some ds"
      by (simp add: ds_def enc_group_digits Let_def)
    have ds: "length ds = 4"
      by (simp add: ds_def length_encode del: b64_encode.simps)
    have e: "b64_encode (ys @ [p, q, c]) = b64_encode ys @ ds"
      using r(4) by (simp only: encode_append ds_def)
    have d3: "3 dvd length (ys @ [p, q, c])"
      using r(4) by (simp, presburger)
    from enc_AddToBuffer_buf [OF buf r(1) ds] consider
        (ok) s' where "enc_AddToBuffer malloc ?s ds = Some (True, s')" "en_aInput s' = ?a"
          "en_nInputLength s' = length zs + 1" "enc_buf s' (out @ ds)"
      | (no) "enc_AddToBuffer malloc ?s ds = Some (False, ?s)" "\<not> roomy malloc (length out + 1028)"
      by auto
    then show ?thesis
    proof cases
      case ok
      have "enc_buf (s'\<lparr>en_nInputLength := 0\<rparr>) (out @ ds)"
        using ok(4) by (simp add: enc_buf_def)
      then have "enc_rep malloc (s'\<lparr>en_nInputLength := 0\<rparr>) (fed @ [c]) taken"
        using r e ok(2) pq a3 d3 by (intro enc_repI [OF r(1), of _ "out @ ds" _ "ys @ [p, q, c]" "[]"]) auto
      then show ?thesis
        using put r(7) True a3 g ok by (simp add: enc_step_def Let_def)
    next
      case no
      have "length out + 1028 \<le> enc_room (fed @ [c])"
        using arg_cong [OF r(5), of length] r(3) pq
        by (simp add: length_encode enc_room_def)
      then have "enc_fails malloc E_OUTOFMEMORY (fed @ [c])"
        using no(2) by (auto simp: enc_fails_def dest: roomy_mono)
      then show ?thesis
        using put r(7) True a3 g no(1) by (simp add: enc_step_def Let_def)
    qed
  qed
qed

lemma enc_loop_rep: "enc_rep malloc s fed taken \<Longrightarrow> \<exists>h s'. enc_loop malloc s xs (length xs) = Some (h, s') \<and>
      (if h = S_OK then enc_rep malloc s' (fed @ xs) taken else enc_fails malloc h (fed @ xs))"
proof (induction xs arbitrary: s fed)
  case (Cons c xs)
  obtain h s' where e: "enc_step malloc s c = Some (h, s')"
    and r: "if h = S_OK then enc_rep malloc s' (fed @ [c]) taken else enc_fails malloc h (fed @ [c])"
    using enc_step_rep [OF Cons(2)] by blast
  show ?case
  proof (cases "h = S_OK")
    case True
    then obtain h2 s2 where "enc_loop malloc s' xs (length xs) = Some (h2, s2)"
      "if h2 = S_OK then enc_rep malloc s2 (fed @ c # xs) taken else enc_fails malloc h2 (fed @ c # xs)"
      using Cons.IH [of s' "fed @ [c]", unfolded append_assoc append_Cons append_Nil] r by auto
    then show ?thesis
      using True by (simp add: e)
  next
    case False
    then have "enc_fails malloc h (fed @ c # xs)"
      using enc_fails_later [of malloc h "fed @ [c]" xs] r by simp
    then show ?thesis
      using False by (simp add: e)
  qed
qed simp

lemma enc_Process_rep: "enc_rep malloc s fed taken \<Longrightarrow> length xs < 2 ^ 64 - 1 \<Longrightarrow>
    \<exists>h s'. enc_Process malloc s (Some xs) (of_nat (length xs)) = Some (h, s') \<and>
      (if h = S_OK then enc_rep malloc s' (fed @ xs) taken else enc_fails malloc h (fed @ xs))"
proof -
  assume rep: "enc_rep malloc s fed taken" and "length xs < 2 ^ 64 - 1"
  then have "unat (of_nat (length xs) :: u64) = length xs"
    by (simp add: unat_of_nat)
  then show ?thesis
    using enc_loop_rep [OF rep, of xs] by (simp add: enc_Process_def)
qed

lemma put_from_tail:
  "put_from [a, b, c] 1 2 x = Some [a, x, x]" "put_from [a, b, c] 2 1 x = Some [a, b, x]"
  "put_from [a, b, c, d] 2 2 x = Some [a, b, x, x]" "put_from [a, b, c, d] 3 1 x = Some [a, b, c, x]"
  by (simp_all add: put_item_def numeral_2_eq_2 numeral_3_eq_3)

lemma enc_tail:
  assumes "length a = 3" and "0 < n" "n < 3"
  shows "\<exists>a' ds. put_from a n (3 - n) 0 = Some a' \<and> enc_group a' = Some ds \<and>
    put_from ds (n + 1) (3 - n) (of_char CHR ''='') = Some (b64_encode (take n a))"
proof -
  obtain a0 a1 a2 where a: "a = [a0, a1, a2]"
    using assms(1) by (auto simp: numeral_3_eq_3 length_Suc_conv)
  have pad: "of_char CHR ''='' = b64_pad"
    by (simp add: b64_pad_def)
  consider "n = 1" | "n = 2"
    using assms(2,3) by linarith
  then show ?thesis
  proof cases
    case 1
    have "put_from [w, x, y, z] (1 + 1) 2 v = Some [w, x, v, v]" for v w x y z :: u8
      by (simp add: put_item_def numeral_2_eq_2)
    then show ?thesis
      unfolding pad a 1 using put_from_tail(1) [of a0 a1 a2 0]
      by (simp add: enc_group_digits Let_def)
  next
    case 2
    have "put_from [w, x, y, z] (2 + 1) 1 v = Some [w, x, y, v]" for v w x y z :: u8
      using put_from_tail(4) by simp
    then show ?thesis
      unfolding pad a 2 using put_from_tail(2) [of a0 a1 a2 0]
      by (simp add: enc_group_digits Let_def)
  qed
qed

lemma enc_End_rep:
  assumes rep: "enc_rep malloc s fed taken"
  shows "\<exists>h s' out. enc_End malloc s = Some (h, s') \<and> enc_output s' = Some out \<and>
      (if h = S_OK then enc_good fed (taken @ out) else enc_fails malloc h fed)"
proof -
  obtain out ys zs where r: "fair malloc" "enc_buf s out" "fed = ys @ zs" "3 dvd length ys" "taken @ out = b64_encode ys"
    "length zs < 3" "en_nInputLength s = length zs" "length (en_aInput s) = 3" "take (length zs) (en_aInput s) = zs"
    using rep by (auto simp: enc_rep_def)
  have e: "b64_encode (ys @ zs) = b64_encode ys @ b64_encode zs"
    using r(4) by (rule encode_append)
  show ?thesis
  proof (cases "zs = []")
    case True
    then show ?thesis
      using r by (auto simp: enc_End_def enc_good_def enc_output_buf)
  next
    case False
    define n where "n = length zs"
    have n: "0 < n" "n < 3"
      using False r(6) by (simp_all add: n_def)
    obtain a' ds where a': "put_from (en_aInput s) n (3 - n) 0 = Some a'"
      and ds: "enc_group a' = Some ds" "put_from ds (n + 1) (3 - n) (of_char CHR ''='') = Some (b64_encode zs)"
      using enc_tail [OF r(8) n] r(9) unfolding n_def by auto
    let ?s = "s\<lparr>en_aInput := a', en_nInputLength := max 3 n\<rparr>"
    have buf: "enc_buf ?s out"
      using r(2) by (simp add: enc_buf_def)
    have l4: "length (b64_encode zs) = 4"
      using n unfolding length_encode n_def by presburger
    have z: "en_nInputLength s = n" "0 < n"
      using r(7) n by (simp_all add: n_def)
    from enc_AddToBuffer_buf [OF buf r(1) l4] show ?thesis
    proof
      assume "\<exists>s'. enc_AddToBuffer malloc ?s (b64_encode zs) = Some (True, s') \<and> en_aInput s' = en_aInput ?s \<and>
        en_nInputLength s' = en_nInputLength ?s \<and> enc_buf s' (out @ b64_encode zs)"
      then obtain s' where s': "enc_AddToBuffer malloc ?s (b64_encode zs) = Some (True, s')" "enc_buf s' (out @ b64_encode zs)"
        by blast
      then have "enc_good fed (taken @ out @ b64_encode zs)"
        using r e by (simp add: enc_good_def)
      then show ?thesis
        using s' z a' ds by (simp add: enc_End_def enc_output_buf)
    next
      assume f: "enc_AddToBuffer malloc ?s (b64_encode zs) = Some (False, ?s) \<and> \<not> roomy malloc (length out + 1028)"
      have "length (b64_encode ys) \<le> length (b64_encode fed)"
        using e r(3) by simp
      then have "length out + 1028 \<le> enc_room fed"
        using arg_cong [OF r(5), of length] by (simp add: length_encode enc_room_def)
      then have "enc_fails malloc E_OUTOFMEMORY fed"
        using f by (auto simp: enc_fails_def dest: roomy_mono)
      then show ?thesis
        using f z a' ds buf by (simp add: enc_End_def enc_output_buf)
    qed
  qed
qed

lemma enc_ConsumeOutput_rep:
  assumes rep: "enc_rep malloc s fed taken"
  shows "\<exists>s' out. enc_output s = Some out \<and> enc_ConsumeOutput s n = Some s' \<and> enc_rep malloc s' fed (taken @ take (unat n) out)"
proof -
  obtain out ys zs where r: "fair malloc" "enc_buf s out" "fed = ys @ zs" "3 dvd length ys" "taken @ out = b64_encode ys"
    "length zs < 3" "en_nInputLength s = length zs" "length (en_aInput s) = 3" "take (length zs) (en_aInput s) = zs"
    using rep by (auto simp: enc_rep_def)
  obtain s' where s': "enc_ConsumeOutput s n = Some s'" "en_aInput s' = en_aInput s" "en_nInputLength s' = en_nInputLength s"
    "enc_buf s' (drop (unat n) out)"
    using enc_ConsumeOutput_buf [OF r(2)] by blast
  have "enc_rep malloc s' fed (taken @ take (unat n) out)"
    using r s' by (intro enc_repI [OF r(1) s'(4) r(3,4)]) auto
  then show ?thesis
    using s'(1) enc_output_buf [OF r(2)] by blast
qed

interpretation encoder: translator "\<lambda>s xs. enc_Process malloc s (Some xs) (of_nat (length xs))" "enc_End malloc" enc_output
  enc_ConsumeOutput "enc_rep malloc" enc_good "enc_fails malloc" for malloc
  by unfold_locales (fact enc_Process_rep enc_End_rep enc_ConsumeOutput_rep enc_fails_later)+

text \<open>A session of an encoder in any state, with \<open>Begin\<close> first and \<open>End\<close> at the end.\<close>

definition enc_session :: "u8 allocator \<Rightarrow> enc \<Rightarrow> u64 \<Rightarrow> io list \<Rightarrow> (HRESULT \<times> u8 list) option" where
  "enc_session malloc s nPreallocateOutputLen ops = do {
     (hRes, s) \<leftarrow> enc_Begin malloc s nPreallocateOutputLen;
     if hRes \<noteq> S_OK then Some (hRes, [])
     else stream_run (\<lambda>s xs. enc_Process malloc s (Some xs) (of_nat (length xs))) (enc_End malloc) enc_output
            enc_ConsumeOutput s [] ops
   }"

lemma enc_Begin_rep:
  assumes fair: "fair malloc"
  shows "\<exists>h s'. enc_Begin malloc s n = Some (h, s') \<and>
      (if h = S_OK then enc_rep malloc s' [] [] else h = E_OUTOFMEMORY \<and> malloc (first_size n) = None)"
proof (cases "malloc (first_size n)")
  case None
  then show ?thesis
    by (simp add: enc_Begin_def Let_def)
next
  case (Some b)
  note b = first_size_fair [OF fair Some]
  obtain b' where b': "block_write b 0 [0] = Some b'" "length b' = length b" "take 1 b' = [0]"
    using block_write_prefix [of 0 "[0]" b] b by auto
  show ?thesis
    using Some b b' fair
    by (simp add: enc_Begin_def Let_def) (rule enc_repI [of _ _ "[]" _ "[]" "[]"], auto simp: enc_buf_def)
qed

lemma enc_session_result:
  assumes "fair malloc" and "chunks_fit ops"
  shows "\<exists>h out. enc_session malloc s n ops = Some (h, out) \<and>
      (if h = S_OK then out = b64_encode (fed_of ops)
       else h = E_OUTOFMEMORY \<and> (malloc (first_size n) = None \<or> \<not> roomy malloc (enc_room (fed_of ops))))"
proof -
  obtain h s' where b: "enc_Begin malloc s n = Some (h, s')"
    "if h = S_OK then enc_rep malloc s' [] [] else h = E_OUTOFMEMORY \<and> malloc (first_size n) = None"
    using enc_Begin_rep [OF assms(1)] by blast
  show ?thesis
  proof (cases "h = S_OK")
    case True
    then show ?thesis
      using encoder.run_rep [of malloc s' "[]" "[]" ops] b assms(2)
      by (auto simp: enc_session_def enc_good_def enc_fails_def split: if_splits)
  next
    case False
    then show ?thesis
      using b by (simp add: enc_session_def)
  qed
qed

section \<open>The output of the decoder\<close>

definition dec_buf :: "dec \<Rightarrow> u8 list \<Rightarrow> bool" where
  "dec_buf s out \<longleftrightarrow> (\<exists>b. de_lpBuffer s = Some b \<and> length b = unat (de_nSize s) \<and> 1024 \<le> length b \<and> length b \<le> 2 ^ 47 \<and>
     unat (de_nLength s) = length out \<and> length out \<le> length b \<and> take (length out) b = out)"

definition dec_output :: "dec \<Rightarrow> u8 list option" where
  "dec_output s = do { b \<leftarrow> dec_GetBuffer s; block_read b 0 (unat (dec_GetOutputLength s)) }"

lemma dec_output_buf: "dec_buf s out \<Longrightarrow> dec_output s = Some out"
  by (auto simp: dec_buf_def dec_output_def dec_GetBuffer_def dec_GetOutputLength_def block_read_ok)

lemma dec_AddToBuffer_buf:
  assumes buf: "dec_buf s out" and fair: "fair malloc" and ds: "unat n \<le> length ds" "unat n \<le> 3"
  shows "(\<exists>s'. dec_AddToBuffer malloc s ds n = Some (True, s') \<and> de_aInput s' = de_aInput s \<and>
      de_nInputLength s' = de_nInputLength s \<and> de_nEqualCounter s' = de_nEqualCounter s \<and>
      dec_buf s' (out @ take (unat n) ds)) \<or>
    dec_AddToBuffer malloc s ds n = Some (False, s) \<and> \<not> roomy malloc (length out + 1028)"
proof -
  obtain b where b: "de_lpBuffer s = Some b" "length b = unat (de_nSize s)" "1024 \<le> length b" "length b \<le> 2 ^ 47"
    "unat (de_nLength s) = length out" "length out \<le> length b" "take (length out) b = out"
    using buf by (auto simp: dec_buf_def)
  let ?ds = "take (unat n) ds"
  have len: "length ?ds = unat n"
    using ds by simp
  have nl: "de_nLength s = 0 \<longleftrightarrow> out = []"
    using b(5) by (metis length_0_conv unat_eq_zero)
  have rd: "block_read ds 0 (unat n) = Some ?ds"
    using ds by (simp add: block_read_ok)
  have sum: "unat (de_nLength s + n) = length out + unat n"
    using b(4,5,6) ds(2) by (simp add: unat_add_small)
  have wrap: "\<not> de_nLength s + n < de_nLength s"
    using sum b(5) by (simp add: word_less_nat_alt)
  have "unat (de_nSize s - n) = unat (de_nSize s) - unat n"
    using b(2,3) ds(2) by (simp add: unat_sub_le word_le_nat_alt)
  then have full: "de_nLength s > de_nSize s - n \<longleftrightarrow> length b < length out + unat n"
    using b(2,3,5) ds(2) by (auto simp: word_less_nat_alt)
  have add: "\<exists>c'. block_write c (length out) ?ds = Some c' \<and>
      dec_buf (s\<lparr>de_nSize := m, de_lpBuffer := Some c', de_nLength := de_nLength s + n\<rparr>) (out @ ?ds)"
    if c: "length c = unat m" "1024 \<le> length c" "length c \<le> 2 ^ 47" "take (length out) c = out"
      "length out + unat n \<le> length c" for c and m :: u64
  proof -
    obtain c' where c': "block_write c (length out) ?ds = Some c'" "length c' = length c"
      "take (length out + unat n) c' = out @ ?ds"
      using block_write_prefix [of "length out" ?ds c] c(4,5) len by auto
    then show ?thesis
      using c len sum ds by (auto simp: dec_buf_def)
  qed
  show ?thesis
  proof (cases "length b < length out + unat n")
    case False
    obtain c' where "block_write b (length out) ?ds = Some c'"
      "dec_buf (s\<lparr>de_nSize := de_nSize s, de_lpBuffer := Some c', de_nLength := de_nLength s + n\<rparr>) (out @ ?ds)"
      using add [OF b(2,3,4,7)] False by auto
    then show ?thesis
      using False b(1,5) full rd wrap by (simp add: dec_AddToBuffer_def)
  next
    case True
    have ns: "unat (next_size (de_nSize s)) = length b + 1024" "de_nSize s \<noteq> SIZE_T_MAX"
      using next_size_unat [of "de_nSize s"] b(2,4) by simp_all
    show ?thesis
    proof (cases "malloc (next_size (de_nSize s))")
      case None
      then have "\<not> roomy malloc (length out + 1028)"
        using ns True ds(2) by (auto simp: roomy_def intro!: exI [of _ "next_size (de_nSize s)"])
      then show ?thesis
        using True full ns None wrap by (simp add: dec_AddToBuffer_def)
    next
      case (Some c)
      have c: "length c = unat (next_size (de_nSize s))" "length c \<le> 2 ^ 47"
        using fairD [OF fair Some] by auto
      have src: "(if de_nLength s = 0 then Some [] else do { d \<leftarrow> de_lpBuffer s; block_read d 0 (unat (de_nLength s)) }) = Some out"
        using b(1,5,6,7) nl by (simp add: block_read_ok)
      obtain c1 where c1: "block_write c 0 out = Some c1" "length c1 = length c" "take (length out) c1 = out"
        using block_write_prefix [of 0 out c] c(1) ns(1) b(6) by auto
      obtain c' where "block_write c1 (length out) ?ds = Some c'"
        "dec_buf (s\<lparr>de_nSize := next_size (de_nSize s), de_lpBuffer := Some c', de_nLength := de_nLength s + n\<rparr>) (out @ ?ds)"
        using add [of c1 "next_size (de_nSize s)"] c c1 ns(1) b(6) ds(2) by auto
      then show ?thesis
        using True full ns Some src c1 b(5) rd wrap by (simp add: dec_AddToBuffer_def)
    qed
  qed
qed

lemma dec_ConsumeOutput_buf:
  assumes buf: "dec_buf s out"
  shows "\<exists>s'. dec_ConsumeOutput s n = Some s' \<and> de_aInput s' = de_aInput s \<and> de_nInputLength s' = de_nInputLength s \<and>
      de_nEqualCounter s' = de_nEqualCounter s \<and> dec_buf s' (drop (unat n) out)"
proof -
  obtain b where b: "de_lpBuffer s = Some b" "length b = unat (de_nSize s)" "1024 \<le> length b" "length b \<le> 2 ^ 47"
    "unat (de_nLength s) = length out" "length out \<le> length b" "take (length out) b = out"
    using buf by (auto simp: dec_buf_def)
  define m where "m = (if n > de_nLength s then de_nLength s else n)"
  have m: "unat m = min (unat n) (length out)"
    using b(5) by (auto simp: m_def word_less_nat_alt min_def)
  have l: "unat (de_nLength s - m) = length out - unat m"
    using m b(5) by (simp add: unat_sub_le word_le_nat_alt)
  have "take (length out - unat m) (drop (unat m) b) = drop (unat m) (take (length out) b)"
    by (simp add: drop_take)
  also have "\<dots> = drop (unat n) out"
    using b(7) by (simp add: m min_def)
  finally have x: "block_read b (unat m) (unat (de_nLength s - m)) = Some (drop (unat n) out)"
    using b(6) m l by (simp add: block_read_ok)
  have dl: "length (drop (unat n) out) = length out - unat m"
    by (simp add: m min_def)
  obtain b1 where b1: "block_write b 0 (drop (unat n) out) = Some b1" "length b1 = length b"
    "take (length out - unat m) b1 = drop (unat n) out"
    using block_write_prefix [of 0 "drop (unat n) out" b, unfolded dl] b(6) by (auto simp: le_diff_conv trans_le_add1)
  have "dec_ConsumeOutput s n = Some (s\<lparr>de_lpBuffer := Some b1, de_nLength := de_nLength s - m\<rparr>)"
    using b(1) x b1(1) l by (simp add: dec_ConsumeOutput_def m_def [symmetric] Let_def)
  moreover have "dec_buf (s\<lparr>de_lpBuffer := Some b1, de_nLength := de_nLength s - m\<rparr>) (drop (unat n) out)"
    using b b1 l dl by (auto simp: dec_buf_def)
  ultimately show ?thesis
    by auto
qed
end
