(* ===== verification/Base64_Props.thy ===== *)
theory Base64_Props
  imports Base64_Rep
begin

text \<open>
  The decoder as a translator, and the properties of the Base64 encoder and decoder in sessions with
  any chunks, in which the caller takes parts of the output as he likes.
\<close>

section \<open>The decoder as a translator\<close>

definition dec_room :: "u8 list \<Rightarrow> nat" where
  "dec_room inp = length inp + 1028"

definition dec_rep :: "u8 allocator \<Rightarrow> dec \<Rightarrow> u8 list \<Rightarrow> u8 list \<Rightarrow> bool" where
  "dec_rep malloc s inp taken \<longleftrightarrow> fair malloc \<and> (\<exists>out us ws. dec_buf s out \<and> b64_values inp = us @ ws \<and> 4 dvd length us \<and>
     taken @ out = b64_decode us \<and> length ws < 4 \<and> de_nInputLength s = length ws \<and> length (de_aInput s) = 4 \<and>
     take (length ws) (de_aInput s) = map of_nat ws \<and> b64_padding 0 inp = Some (unat (de_nEqualCounter s)) \<and>
     unat (de_nEqualCounter s) \<le> 2)"

lemma dec_repI: "fair malloc \<Longrightarrow> dec_buf s out \<Longrightarrow> b64_values inp = us @ ws \<Longrightarrow> 4 dvd length us \<Longrightarrow>
    taken @ out = b64_decode us \<Longrightarrow> length ws < 4 \<Longrightarrow> de_nInputLength s = length ws \<Longrightarrow> length (de_aInput s) = 4 \<Longrightarrow>
    take (length ws) (de_aInput s) = map of_nat ws \<Longrightarrow> b64_padding 0 inp = Some (unat (de_nEqualCounter s)) \<Longrightarrow>
    unat (de_nEqualCounter s) \<le> 2 \<Longrightarrow> dec_rep malloc s inp taken"
  unfolding dec_rep_def by blast

definition dec_good :: "u8 list \<Rightarrow> u8 list \<Rightarrow> bool" where
  "dec_good inp out \<longleftrightarrow> out = b64_decode (b64_values inp) \<and> b64_padding 0 inp \<noteq> None"

definition dec_fails :: "u8 allocator \<Rightarrow> HRESULT \<Rightarrow> u8 list \<Rightarrow> bool" where
  "dec_fails malloc h inp \<longleftrightarrow> h = MX_E_InvalidData \<and> b64_padding 0 inp = None \<or>
     h = E_OUTOFMEMORY \<and> \<not> roomy malloc (dec_room inp)"

lemma dec_fails_later: "dec_fails malloc h inp \<Longrightarrow> dec_fails malloc h (inp @ xs)"
  using roomy_mono [of malloc "dec_room (inp @ xs)" "dec_room inp"]
  by (auto simp: dec_fails_def padding_append dec_room_def)

lemma length_decode_le: "length (b64_decode vs) \<le> length vs"
  by (induction vs rule: b64_decode.induct) (simp_all add: b64_bytes_def)

lemma length_values_le: "length (b64_values inp) \<le> length inp"
  by (induction inp) (auto split: option.split)

lemma dec_room_le:
  assumes "b64_values inp = us @ ws" and "taken @ out = b64_decode us" and "\<not> roomy malloc (length out + 1028)"
  shows "dec_fails malloc E_OUTOFMEMORY inp"
proof -
  have "length out \<le> length us"
    using arg_cong [OF assms(2), of length] length_decode_le [of us] by simp
  also have "\<dots> \<le> length inp"
    using arg_cong [OF assms(1), of length] length_values_le [of inp] by simp
  finally show ?thesis
    using assms(3) roomy_mono [of malloc "dec_room inp" "length out + 1028"] by (auto simp: dec_fails_def dec_room_def)
qed

lemma dec_step_other:
  assumes rep: "dec_rep malloc s inp taken" and c: "b64_value c = None"
  shows "\<exists>h s'. dec_step malloc s c = Some (h, s') \<and>
      (if h = S_OK then dec_rep malloc s' (inp @ [c]) taken else dec_fails malloc h (inp @ [c]))"
proof (cases "c = b64_pad")
  case True
  obtain out us ws where r: "fair malloc" "dec_buf s out" "b64_values inp = us @ ws" "4 dvd length us" "taken @ out = b64_decode us"
    "length ws < 4" "de_nInputLength s = length ws" "length (de_aInput s) = 4" "take (length ws) (de_aInput s) = map of_nat ws"
    "b64_padding 0 inp = Some (unat (de_nEqualCounter s))" "unat (de_nEqualCounter s) \<le> 2"
    using rep by (auto simp: dec_rep_def)
  let ?s = "s\<lparr>de_nEqualCounter := de_nEqualCounter s + 1\<rparr>"
  have n: "unat (de_nEqualCounter s + 1) = unat (de_nEqualCounter s) + 1"
    using r(11) by (simp add: unat_add_small)
  have v: "b64_values (inp @ [c]) = us @ ws"
    using r(3) c by simp
  have step: "dec_step malloc s c = Some (if unat (de_nEqualCounter s) + 1 > 2 then MX_E_InvalidData else S_OK, ?s)"
    using n by (simp add: dec_step_def dec_value_table True word_less_nat_alt Let_def)
  show ?thesis
  proof (cases "unat (de_nEqualCounter s) < 2")
    case True
    have "dec_buf ?s out"
      using r(2) by (simp add: dec_buf_def)
    then have "dec_rep malloc ?s (inp @ [c]) taken"
      using r n True \<open>c = b64_pad\<close> by (intro dec_repI [OF r(1) _ v r(4,5)]) (simp_all add: padding_append)
    then show ?thesis
      using step True by simp
  next
    case False
    then have "dec_fails malloc MX_E_InvalidData (inp @ [c])"
      using r(10) \<open>c = b64_pad\<close> by (simp add: dec_fails_def padding_append)
    then show ?thesis
      using step False by simp
  qed
next
  case False
  have "dec_step malloc s c = Some (S_OK, s)"
    using False c by (simp add: dec_step_def dec_value_table)
  moreover have "dec_rep malloc s (inp @ [c]) taken"
    using rep False c by (auto simp: dec_rep_def padding_append)
  ultimately show ?thesis
    by simp
qed

lemma value_codes: "v < 64 \<Longrightarrow> (of_nat v + 62 :: u8) \<noteq> of_char CHR ''$'' \<and> (of_nat v + 62 :: u8) \<noteq> of_char CHR ''=''"
proof -
  assume "v < 64"
  then have "unat (of_nat v + 62 :: u8) = v + 62"
    by (simp add: unat_of_nat unat_add_small)
  moreover define w :: u8 where "w = of_nat v + 62"
  ultimately have "unat w \<noteq> 36" "unat w \<noteq> 61"
    by simp_all
  then show ?thesis
    unfolding w_def [symmetric] by auto
qed

lemma dec_digits:
  assumes "length ws = 4" and "\<forall>x \<in> set ws. x < 64"
  shows "\<exists>ds. dec_group (map of_nat ws) = Some ds \<and> length ds = 3 \<and> b64_decode ws = ds"
proof -
  obtain v w x y where "ws = [v, w, x, y]"
    using assms(1) by (auto simp: numeral_eq_Suc length_Suc_conv)
  then show ?thesis
    using assms(2) dec_group_bytes [of v w x y] by simp
qed

lemma dec_step_digit:
  assumes rep: "dec_rep malloc s inp taken" and c: "b64_value c = Some v"
  shows "\<exists>h s'. dec_step malloc s c = Some (h, s') \<and>
      (if h = S_OK then dec_rep malloc s' (inp @ [c]) taken else dec_fails malloc h (inp @ [c]))"
proof -
  obtain out us ws where r: "fair malloc" "dec_buf s out" "b64_values inp = us @ ws" "4 dvd length us" "taken @ out = b64_decode us"
    "length ws < 4" "de_nInputLength s = length ws" "length (de_aInput s) = 4" "take (length ws) (de_aInput s) = map of_nat ws"
    "b64_padding 0 inp = Some (unat (de_nEqualCounter s))" "unat (de_nEqualCounter s) \<le> 2"
    using rep by (auto simp: dec_rep_def)
  have v: "v < 64"
    using c by (rule b64_value_less)
  have np: "c \<noteq> b64_pad"
    using c b64_value_pad by auto
  let ?a = "(de_aInput s)[length ws := of_nat v]"
  let ?s = "s\<lparr>de_nEqualCounter := 0, de_aInput := ?a, de_nInputLength := length ws + 1\<rparr>"
  have put: "put_item (de_aInput s) (de_nInputLength s) (of_nat v) = Some ?a"
    using r by (simp add: put_item_def)
  have a: "take (Suc (length ws)) ?a = map of_nat (ws @ [v])"
    using r by (simp add: take_Suc_conv_app_nth)
  have buf: "dec_buf ?s out"
    using r(2) by (simp add: dec_buf_def)
  have vs: "b64_values (inp @ [c]) = us @ ws @ [v]"
    using r(3) c by simp
  have pad: "b64_padding 0 (inp @ [c]) = Some 0"
    using r(10) np c by (simp add: padding_append)
  have val: "dec_value c = Some (of_nat v + 62)"
    using np c by (simp add: dec_value_table)
  show ?thesis
  proof (cases "length ws = 3")
    case False
    then have "dec_rep malloc ?s (inp @ [c]) taken"
      using r a pad by (intro dec_repI [OF r(1) buf vs r(4,5)]) auto
    then show ?thesis
      using False put r(6,7) val value_codes [OF v] by (simp add: dec_step_def Let_def)
  next
    case True
    have l4: "length (ws @ [v]) = 4"
      using True by simp
    have a4: "?a = map of_nat (ws @ [v])"
      using a r(8) True by simp
    have less: "\<forall>x \<in> set (ws @ [v]). x < 64"
      using values_less [of _ "inp @ [c]", unfolded vs] by auto
    obtain ds where g: "dec_group ?a = Some ds" "length ds = 3" "b64_decode (ws @ [v]) = ds"
      using dec_digits [OF l4 less] a4 by auto
    have e: "b64_decode (us @ ws @ [v]) = b64_decode us @ ds"
      using r(4) g(3) by (simp only: decode_append)
    have d4: "4 dvd length (us @ ws @ [v])"
      using r(4) True by simp
    have len: "unat (3 :: u64) \<le> length ds" "unat (3 :: u64) \<le> 3"
      using g(2) by simp_all
    from dec_AddToBuffer_buf [OF buf r(1) len] consider
        (ok) s' where "dec_AddToBuffer malloc ?s ds 3 = Some (True, s')" "de_aInput s' = ?a" "de_nEqualCounter s' = 0"
          "de_nInputLength s' = length ws + 1" "dec_buf s' (out @ ds)"
      | (no) "dec_AddToBuffer malloc ?s ds 3 = Some (False, ?s)" "\<not> roomy malloc (length out + 1028)"
      using g(2) by auto
    then show ?thesis
    proof cases
      case ok
      have "dec_buf (s'\<lparr>de_nInputLength := 0\<rparr>) (out @ ds)"
        using ok(5) by (simp add: dec_buf_def)
      then have "dec_rep malloc (s'\<lparr>de_nInputLength := 0\<rparr>) (inp @ [c]) taken"
        using r e ok pad vs d4 by (intro dec_repI [OF r(1), of _ "out @ ds" _ "us @ ws @ [v]" "[]"]) auto
      then show ?thesis
        using True put r(6,7) val value_codes [OF v] g(1) ok(1) by (simp add: dec_step_def Let_def)
    next
      case no
      have "dec_fails malloc E_OUTOFMEMORY (inp @ [c])"
        by (rule dec_room_le [OF vs r(5) no(2)])
      then show ?thesis
        using True put r(6,7) val value_codes [OF v] g(1) no(1) by (simp add: dec_step_def Let_def)
    qed
  qed
qed


lemma dec_step_rep: "dec_rep malloc s inp taken \<Longrightarrow> \<exists>h s'. dec_step malloc s c = Some (h, s') \<and>
      (if h = S_OK then dec_rep malloc s' (inp @ [c]) taken else dec_fails malloc h (inp @ [c]))"
  by (cases "b64_value c") (blast intro: dec_step_other, blast intro: dec_step_digit)

lemma dec_loop_rep: "dec_rep malloc s inp taken \<Longrightarrow> \<exists>h s'. dec_loop malloc s xs (length xs) = Some (h, s') \<and>
      (if h = S_OK then dec_rep malloc s' (inp @ xs) taken else dec_fails malloc h (inp @ xs))"
proof (induction xs arbitrary: s inp)
  case (Cons c xs)
  obtain h s' where e: "dec_step malloc s c = Some (h, s')"
    and r: "if h = S_OK then dec_rep malloc s' (inp @ [c]) taken else dec_fails malloc h (inp @ [c])"
    using dec_step_rep [OF Cons(2)] by blast
  show ?case
  proof (cases "h = S_OK")
    case True
    then obtain h2 s2 where "dec_loop malloc s' xs (length xs) = Some (h2, s2)"
      "if h2 = S_OK then dec_rep malloc s2 (inp @ c # xs) taken else dec_fails malloc h2 (inp @ c # xs)"
      using Cons.IH [of s' "inp @ [c]", unfolded append_assoc append_Cons append_Nil] r by auto
    then show ?thesis
      using True by (simp add: e)
  next
    case False
    then have "dec_fails malloc h (inp @ c # xs)"
      using dec_fails_later [of malloc h "inp @ [c]" xs] r by simp
    then show ?thesis
      using False by (simp add: e)
  qed
qed simp

lemma dec_Process_rep: "dec_rep malloc s inp taken \<Longrightarrow> length xs < 2 ^ 64 - 1 \<Longrightarrow>
    \<exists>h s'. dec_Process malloc s (Some xs) (of_nat (length xs)) = Some (h, s') \<and>
      (if h = S_OK then dec_rep malloc s' (inp @ xs) taken else dec_fails malloc h (inp @ xs))"
proof -
  assume rep: "dec_rep malloc s inp taken" and l: "length xs < 2 ^ 64 - 1"
  then have u: "unat (of_nat (length xs) :: u64) = length xs"
    by (simp add: unat_of_nat)
  then have "(of_nat (length xs) :: u64) \<noteq> -1"
    using l by (auto simp: word_unat_eq_iff unsigned_minus_1_eq_mask mask_eq_exp_minus_1)
  then show ?thesis
    using dec_loop_rep [OF rep, of xs] u by (simp add: dec_Process_def)
qed

lemma put_from_zeros: "i + n = length xs \<Longrightarrow> put_from xs i n x = Some (take i xs @ replicate n x)"
proof (induction n arbitrary: xs i)
  case (Suc n)
  have "take (Suc i) (xs[i := x]) = take i xs @ [x]"
    using Suc.prems by (simp add: take_Suc_conv_app_nth)
  then show ?case
    using Suc.IH [of "i + 1" "xs[i := x]"] Suc.prems by (simp add: put_item_def)
qed simp

lemma dec_tail:
  assumes "length ws = n" and "n = 2 \<or> n = 3" and "\<forall>x \<in> set ws. x < 64"
  shows "\<exists>ds. dec_group (map of_nat ws @ replicate (4 - n) 0) = Some ds \<and> length ds = 3 \<and> b64_decode ws = take (n - 1) ds"
proof -
  consider v w where "ws = [v, w]" "n = 2" | v w x where "ws = [v, w, x]" "n = 3"
    using assms(1,2) by (auto simp: numeral_2_eq_2 numeral_3_eq_3 length_Suc_conv)
  then show ?thesis
  proof cases
    case (1 v w)
    then show ?thesis
      using assms(3) dec_group_bytes [of v w 0 0] by (simp add: numeral_2_eq_2)
  next
    case (2 v w x)
    then show ?thesis
      using assms(3) dec_group_bytes [of v w x 0] by simp
  qed
qed

lemma dec_End_rep:
  assumes rep: "dec_rep malloc s inp taken"
  shows "\<exists>h s' out. dec_End malloc s = Some (h, s') \<and> dec_output s' = Some out \<and>
      (if h = S_OK then dec_good inp (taken @ out) else dec_fails malloc h inp)"
proof -
  obtain out us ws where r: "fair malloc" "dec_buf s out" "b64_values inp = us @ ws" "4 dvd length us" "taken @ out = b64_decode us"
    "length ws < 4" "de_nInputLength s = length ws" "length (de_aInput s) = 4" "take (length ws) (de_aInput s) = map of_nat ws"
    "b64_padding 0 inp = Some (unat (de_nEqualCounter s))" "unat (de_nEqualCounter s) \<le> 2"
    using rep by (auto simp: dec_rep_def)
  have e: "b64_decode (us @ ws) = b64_decode us @ b64_decode ws"
    using r(4) by (rule decode_append)
  define n where "n = length ws"
  show ?thesis
  proof (cases "n > 1")
    case False
    then have "b64_decode ws = []"
      unfolding n_def by (cases ws) auto
    then show ?thesis
      using False r e by (simp add: dec_End_def dec_good_def dec_output_buf n_def)
  next
    case True
    then have n: "n = 2 \<or> n = 3"
      using r(6) unfolding n_def by linarith
    have less: "\<forall>x \<in> set ws. x < 64"
      using values_less [of _ inp] r(3) by simp
    obtain ds where ds: "dec_group (map of_nat ws @ replicate (4 - n) 0) = Some ds" "length ds = 3" "b64_decode ws = take (n - 1) ds"
      using dec_tail [OF _ n less] by (auto simp: n_def)
    have put: "put_from (de_aInput s) n (4 - n) 0 = Some (map of_nat ws @ replicate (4 - n) 0)"
      using put_from_zeros [of n "4 - n" "de_aInput s" 0] n r(8,9) by (auto simp: n_def)
    let ?s = "s\<lparr>de_aInput := map of_nat ws @ replicate (4 - n) 0\<rparr>"
    have buf: "dec_buf ?s out"
      using r(2) by (simp add: dec_buf_def)
    have m: "unat (of_nat (n - 1) :: u64) = n - 1"
      using n by auto
    have len: "unat (of_nat (n - 1) :: u64) \<le> length ds" "unat (of_nat (n - 1) :: u64) \<le> 3"
      using n ds(2) unfolding m by auto
    have z: "de_nInputLength s = n"
      using r(7) by (simp add: n_def)
    from dec_AddToBuffer_buf [OF buf r(1) len] consider
        (ok) s' where "dec_AddToBuffer malloc ?s ds (of_nat (n - 1)) = Some (True, s')" "dec_buf s' (out @ b64_decode ws)"
      | (no) "dec_AddToBuffer malloc ?s ds (of_nat (n - 1)) = Some (False, ?s)" "\<not> roomy malloc (length out + 1028)"
      unfolding m ds(3) by blast
    then show ?thesis
    proof cases
      case ok
      have "dec_good inp (taken @ out @ b64_decode ws)"
        using r e by (simp add: dec_good_def)
      then show ?thesis
        using ok z put ds(1) True by (simp add: dec_End_def dec_output_buf)
    next
      case no
      have "dec_fails malloc E_OUTOFMEMORY inp"
        by (rule dec_room_le [OF r(3,5) no(2)])
      then show ?thesis
        using no z put ds(1) True buf by (simp add: dec_End_def dec_output_buf)
    qed
  qed
qed

lemma dec_ConsumeOutput_rep:
  assumes rep: "dec_rep malloc s inp taken"
  shows "\<exists>s' out. dec_output s = Some out \<and> dec_ConsumeOutput s n = Some s' \<and> dec_rep malloc s' inp (taken @ take (unat n) out)"
proof -
  obtain out us ws where r: "fair malloc" "dec_buf s out" "b64_values inp = us @ ws" "4 dvd length us" "taken @ out = b64_decode us"
    "length ws < 4" "de_nInputLength s = length ws" "length (de_aInput s) = 4" "take (length ws) (de_aInput s) = map of_nat ws"
    "b64_padding 0 inp = Some (unat (de_nEqualCounter s))" "unat (de_nEqualCounter s) \<le> 2"
    using rep by (auto simp: dec_rep_def)
  obtain s' where s': "dec_ConsumeOutput s n = Some s'" "de_aInput s' = de_aInput s" "de_nInputLength s' = de_nInputLength s"
    "de_nEqualCounter s' = de_nEqualCounter s" "dec_buf s' (drop (unat n) out)"
    using dec_ConsumeOutput_buf [OF r(2)] by blast
  have "dec_rep malloc s' inp (taken @ take (unat n) out)"
    using r s' by (intro dec_repI [OF r(1) s'(5) r(3,4)]) auto
  then show ?thesis
    using s'(1) dec_output_buf [OF r(2)] by blast
qed

interpretation decoder: translator "\<lambda>s xs. dec_Process malloc s (Some xs) (of_nat (length xs))" "dec_End malloc" dec_output
  dec_ConsumeOutput "dec_rep malloc" dec_good "dec_fails malloc" for malloc
  by unfold_locales (fact dec_Process_rep dec_End_rep dec_ConsumeOutput_rep dec_fails_later)+

text \<open>A session of a decoder in any state, with \<open>Begin\<close> first and \<open>End\<close> at the end.\<close>

definition dec_session :: "u8 allocator \<Rightarrow> dec \<Rightarrow> u64 \<Rightarrow> io list \<Rightarrow> (HRESULT \<times> u8 list) option" where
  "dec_session malloc s nPreallocateOutputLen ops = (case dec_Begin malloc s nPreallocateOutputLen of (hRes, s) \<Rightarrow>
     if hRes \<noteq> S_OK then Some (hRes, [])
     else stream_run (\<lambda>s xs. dec_Process malloc s (Some xs) (of_nat (length xs))) (dec_End malloc) dec_output
            dec_ConsumeOutput s [] ops)"

lemma dec_session_result:
  assumes fair: "fair malloc" and "chunks_fit ops"
  shows "\<exists>h out. dec_session malloc s n ops = Some (h, out) \<and>
      (if h = S_OK then dec_good (fed_of ops) out
       else h = E_OUTOFMEMORY \<and> malloc (first_size n) = None \<or> dec_fails malloc h (fed_of ops))"
proof (cases "malloc (first_size n)")
  case None
  then show ?thesis
    by (simp add: dec_session_def dec_Begin_def Let_def)
next
  case (Some b)
  note b = first_size_fair [OF fair Some]
  let ?s = "s\<lparr>de_aInput := [0, 0, 0, 0], de_nLength := 0, de_nInputLength := 0, de_nEqualCounter := 0, de_lpBuffer := Some b,
    de_nSize := first_size n\<rparr>"
  have "dec_rep malloc ?s [] []"
    using b by (intro dec_repI [OF fair, of _ "[]" _ "[]" "[]"]) (auto simp: dec_buf_def)
  then obtain h out where "stream_run (\<lambda>s xs. dec_Process malloc s (Some xs) (of_nat (length xs))) (dec_End malloc) dec_output
      dec_ConsumeOutput ?s [] ops = Some (h, out)" "if h = S_OK then dec_good (fed_of ops) out else dec_fails malloc h (fed_of ops)"
    using decoder.run_rep [of malloc ?s "[]" "[]" ops, unfolded append_Nil] assms(2) by auto
  then show ?thesis
    using Some by (simp add: dec_session_def dec_Begin_def Let_def split: if_splits)
qed

section \<open>Properties\<close>

lemma zeros_room: "b \<le> 65536 \<Longrightarrow> roomy zeros b" "zeros (first_size 0) \<noteq> None"
  by (auto simp: roomy_def zeros_def first_size_def word_le_nat_alt)

text \<open>C26. Whatever the state of a \<open>CBase64Encoder\<close>, the first size, the chunks and the parts of the output that are
  taken between them, the session touches no memory outside of its buffers, and what the caller gets is the Base64
  encoding (RFC 4648, with padding) of the bytes that were fed; only a failed allocation can stop it.\<close>

theorem base64_encodes:
  assumes "fair malloc" and "chunks_fit ops"
  shows "\<exists>h out. enc_session malloc s n ops = Some (h, out) \<and>
      (if h = S_OK then out = b64_encode (fed_of ops)
       else h = E_OUTOFMEMORY \<and> (malloc (first_size n) = None \<or> \<not> roomy malloc (4 * ((length (fed_of ops) + 2) div 3) + 1028)))"
  using enc_session_result [OF assms, of s n] unfolding enc_room_def .

lemma sample_encoding: "b64_encode [77, 97, 110, 77] = [84, 87, 70, 117, 84, 81, 61, 61]"
  by (simp add: b64_number_def b64_digit_def b64_pad_def Let_def)

lemma base64_encodes_witness: "enc_session zeros CBase64Encoder 0 [Feed [77, 97], Take 1, Feed [110, 77], Take 2] =
    Some (S_OK, [84, 87, 70, 117, 84, 81, 61, 61])"
proof -
  have f: "fed_of [Feed [77, 97], Take 1, Feed [110, 77], Take 2] = [77, 97, 110, 77]"
    by simp
  have fit: "chunks_fit [Feed [77, 97], Take 1, Feed [110, 77], Take 2]"
    by simp
  obtain h out where "enc_session zeros CBase64Encoder 0 [Feed [77, 97], Take 1, Feed [110, 77], Take 2] = Some (h, out)"
    "if h = S_OK then out = [84, 87, 70, 117, 84, 81, 61, 61] else h = E_OUTOFMEMORY \<and> (zeros (first_size 0) = None \<or>
      \<not> roomy zeros (4 * ((length [77, 97, 110, 77 :: u8] + 2) div 3) + 1028))"
    using base64_encodes [OF fair_zeros fit, of CBase64Encoder 0] unfolding f sample_encoding by blast
  then show ?thesis
    using zeros_room(2) by (simp add: zeros_room(1) split: if_splits)
qed

text \<open>C27. A decoder session gives the bytes that the digits of the text spell, in groups of four, whatever stands
  between them; it reports invalid data exactly when three equal signs follow each other with no digit between them.\<close>

theorem base64_decodes:
  assumes "fair malloc" and "chunks_fit ops"
  shows "\<exists>h out. dec_session malloc s n ops = Some (h, out) \<and>
      (h = S_OK \<and> b64_padding 0 (fed_of ops) \<noteq> None \<and> out = b64_decode (b64_values (fed_of ops)) \<or>
       h = MX_E_InvalidData \<and> b64_padding 0 (fed_of ops) = None \<or>
       h = E_OUTOFMEMORY \<and> (malloc (first_size n) = None \<or> \<not> roomy malloc (length (fed_of ops) + 1028)))"
  using dec_session_result [OF assms, of s n]
  by (auto simp: dec_good_def dec_fails_def dec_room_def split: if_splits)

lemma base64_decodes_witness:
  "dec_session zeros CBase64Decoder 0 [Feed [84, 87, 10], Take 1, Feed [70, 61, 61]] = Some (S_OK, [77, 97]) \<and>
   (\<exists>out. dec_session zeros CBase64Decoder 0 [Feed [84, 61, 61], Feed [61]] = Some (MX_E_InvalidData, out))"
proof
  have v: "b64_decode (b64_values [84, 87, 10, 70, 61, 61]) = [77, 97]" "b64_padding 0 [84, 87, 10, 70, 61, 61] = Some 2"
    and p: "b64_padding 0 [84, 61, 61, 61] = None"
    by (simp_all add: b64_value_def b64_bytes_def b64_pad_def)
  have f: "fed_of [Feed [84, 87, 10], Take 1, Feed [70, 61, 61]] = [84, 87, 10, 70, 61, 61]"
    "fed_of [Feed [84, 61, 61], Feed [61]] = [84, 61, 61, 61]"
    by simp_all
  have r: "roomy zeros (length [84, 87, 10, 70, 61, 61 :: u8] + 1028)" "roomy zeros (length [84, 61, 61, 61 :: u8] + 1028)"
    by (simp_all add: zeros_room)
  have fit: "chunks_fit [Feed [84, 87, 10], Take 1, Feed [70, 61, 61]]" "chunks_fit [Feed [84, 61, 61], Feed [61]]"
    by simp_all
  show "dec_session zeros CBase64Decoder 0 [Feed [84, 87, 10], Take 1, Feed [70, 61, 61]] = Some (S_OK, [77, 97])"
    using base64_decodes [OF fair_zeros fit(1), of CBase64Decoder 0] zeros_room(2) r(1) unfolding f v by blast
  show "\<exists>out. dec_session zeros CBase64Decoder 0 [Feed [84, 61, 61], Feed [61]] = Some (MX_E_InvalidData, out)"
    using base64_decodes [OF fair_zeros fit(2), of CBase64Decoder 0] zeros_room(2) r(2) unfolding f p by blast
qed

text \<open>C28. Decoding undoes encoding: what an encoder gives, cut into any chunks and with any other characters (line
  breaks, for example) in between, is decoded to the bytes that were encoded.\<close>

theorem base64_round_trip:
  assumes "fair malloc" and "chunks_fit ops" and "chunks_fit ops'"
    and "enc_session malloc e n ops = Some (S_OK, cs)"
    and "filter (\<lambda>c. b64_value c \<noteq> None \<or> c = b64_pad) (fed_of ops') = cs"
  shows "\<exists>h out. dec_session malloc d n' ops' = Some (h, out) \<and>
      (h = S_OK \<and> out = fed_of ops \<or>
       h = E_OUTOFMEMORY \<and> (malloc (first_size n') = None \<or> \<not> roomy malloc (length (fed_of ops') + 1028)))"
proof -
  have cs: "cs = b64_encode (fed_of ops)"
    using enc_session_result [OF assms(1,2), of e n] assms(4) by auto
  have v: "b64_values (fed_of ops') = b64_values cs"
    using values_skip [of "fed_of ops'"] assms(5) by simp
  have p: "b64_padding 0 (fed_of ops') = b64_padding 0 cs"
    using padding_skip [of 0 "fed_of ops'"] assms(5) by simp
  show ?thesis
    using dec_session_result [OF assms(1,3), of d n'] padding_encode [of 0 "fed_of ops"]
    by (auto simp: dec_good_def dec_fails_def dec_room_def v p cs decode_encode split: if_splits)
qed

lemma base64_round_trip_witness:
  "dec_session zeros CBase64Decoder 0 [Feed [84, 87, 13, 10], Take 1, Feed [70, 117, 84, 81, 61, 61]] = Some (S_OK, [77, 97, 110, 77])"
proof -
  let ?ops = "[Feed [77, 97], Take 1, Feed [110, 77], Take 2]"
  let ?ops' = "[Feed [84, 87, 13, 10], Take 1, Feed [70, 117, 84, 81, 61, 61]]"
  have fit: "chunks_fit ?ops" "chunks_fit ?ops'"
    by simp_all
  have f: "fed_of ?ops = [77, 97, 110, 77]"
    by simp
  obtain h out where "enc_session zeros CBase64Encoder 0 ?ops = Some (h, out)"
    "if h = S_OK then out = [84, 87, 70, 117, 84, 81, 61, 61] else h = E_OUTOFMEMORY \<and> (zeros (first_size 0) = None \<or>
      \<not> roomy zeros (enc_room [77, 97, 110, 77]))"
    using enc_session_result [OF fair_zeros fit(1), of CBase64Encoder 0] unfolding f sample_encoding by blast
  then have "enc_session zeros CBase64Encoder 0 ?ops = Some (S_OK, [84, 87, 70, 117, 84, 81, 61, 61])"
    using zeros_room(2) by (simp add: zeros_room(1) enc_room_def split: if_splits)
  moreover have "filter (\<lambda>c. b64_value c \<noteq> None \<or> c = b64_pad) (fed_of ?ops') = [84, 87, 70, 117, 84, 81, 61, 61]"
    by (simp add: b64_value_def b64_pad_def)
  ultimately obtain h out where r: "dec_session zeros CBase64Decoder 0 ?ops' = Some (h, out)"
    "h = S_OK \<and> out = fed_of ?ops \<or>
     h = E_OUTOFMEMORY \<and> (zeros (first_size 0) = None \<or> \<not> roomy zeros (length (fed_of ?ops') + 1028))"
    using base64_round_trip [OF fair_zeros fit] by blast
  have "roomy zeros (length (fed_of ?ops') + 1028)"
    by (simp add: zeros_room)
  then show ?thesis
    using r zeros_room(2) by auto
qed

text \<open>The calls in another order.\<close>

lemma enc_full_faults: "en_nInputLength s \<ge> length (en_aInput s) \<Longrightarrow> n \<noteq> 0 \<Longrightarrow> enc_Process malloc s (Some (c # cs)) n = None"
  by (cases "unat n") (auto simp: enc_Process_def enc_step_def put_item_def unat_eq_zero)

lemma enc_End_full:
  assumes "length (en_aInput s) = 3" and "0 < en_nInputLength s" and "enc_End malloc s = Some (h, s')"
  shows "en_nInputLength s' \<ge> length (en_aInput s')"
proof -
  have add: "en_aInput t' = en_aInput t \<and> en_nInputLength t' = en_nInputLength t"
    if "enc_AddToBuffer malloc t ds = Some (ok, t')" for t ds ok t'
    using that by (auto simp: enc_AddToBuffer_def bind_eq_Some_conv split: if_splits option.splits)
  have put: "length ys = length xs" if "put_from xs i n x = Some ys" for xs i n x ys
    using that by (induction xs i n x rule: put_from.induct) (auto simp: put_item_def bind_eq_Some_conv split: if_splits)
  show ?thesis
    using assms by (auto simp: enc_End_def bind_eq_Some_conv split: if_splits dest!: add put)
qed

text \<open>The classes do not check the order of the calls: before \<open>Begin\<close> the third byte (the fourth digit) is
  written through a null pointer, and once \<open>End\<close> has closed an incomplete group, the next byte that is
  processed is written behind \<open>aInput\<close>.\<close>

theorem base64_order_faults:
  "enc_Process malloc CBase64Encoder (Some [a, b, c]) 3 = None \<and>
   dec_Process malloc CBase64Decoder (Some [b64_digit 0, b64_digit 0, b64_digit 0, b64_digit 0]) 4 = None \<and>
   (\<forall>s h s'. length (en_aInput s) = 3 \<and> 0 < en_nInputLength s \<and> enc_End malloc s = Some (h, s') \<and> n \<noteq> 0 \<longrightarrow>
     enc_Process malloc s' (Some (x # xs)) n = None)"
proof (intro conjI allI impI)
  have u3: "unat (3 :: u64) = Suc (Suc (Suc 0))" and u4: "unat (4 :: u64) = Suc (Suc (Suc (Suc 0)))" and m: "(4 :: u64) \<noteq> -1"
    by simp_all
  have g: "enc_group [a, b, c] \<noteq> None"
    by (simp add: enc_group_digits Let_def)
  then obtain ds where ds: "enc_group [a, b, c] = Some ds"
    by blast
  show "enc_Process malloc CBase64Encoder (Some [a, b, c]) 3 = None"
    unfolding enc_Process_def u3 using ds by (simp add: enc_step_def put_item_def CBase64Encoder_def Let_def enc_AddToBuffer_def)
  have v: "dec_value (b64_digit 0) = Some 62"
    using b64_digit_pad [of 0] b64_value_digit [of 0] by (simp add: dec_value_table)
  obtain es where es: "dec_group [0, 0, 0, 0] = Some es" "length es = 3"
    using dec_group_bytes [of 0 0 0 0] by auto
  have l: "dec_loop malloc CBase64Decoder [b64_digit 0, b64_digit 0, b64_digit 0, b64_digit 0] (unat (4 :: u64)) = None"
    unfolding u4 using v es by (simp add: dec_step_def put_item_def CBase64Decoder_def Let_def dec_AddToBuffer_def block_read_def)
  show "dec_Process malloc CBase64Decoder (Some [b64_digit 0, b64_digit 0, b64_digit 0, b64_digit 0]) 4 = None"
    using l m by (simp add: dec_Process_def)
next
  fix s h s'
  assume "length (en_aInput s) = 3 \<and> 0 < en_nInputLength s \<and> enc_End malloc s = Some (h, s') \<and> n \<noteq> 0"
  then show "enc_Process malloc s' (Some (x # xs)) n = None"
    using enc_End_full enc_full_faults by blast
qed

lemma base64_order_faults_witness:
  "\<exists>h s'. enc_End zeros (CBase64Encoder\<lparr>en_szBufferA := Some (replicate 1024 0), en_nSize := 1024, en_nInputLength := 1\<rparr>) = Some (h, s') \<and>
     enc_Process zeros s' (Some [7]) 1 = None"
proof -
  let ?s = "CBase64Encoder\<lparr>en_szBufferA := Some (replicate 1024 0), en_nSize := 1024, en_nInputLength := 1\<rparr>"
  have "enc_buf ?s []"
    by (simp add: enc_buf_def CBase64Encoder_def)
  then have "enc_rep zeros ?s [0] []"
    by (intro enc_repI [OF fair_zeros, of _ "[]" _ "[]" "[0]"]) (simp_all add: CBase64Encoder_def)
  then obtain h s' where e: "enc_End zeros ?s = Some (h, s')"
    using enc_End_rep by blast
  have "length (en_aInput ?s) = 3" "0 < en_nInputLength ?s"
    by (simp_all add: CBase64Encoder_def)
  then show ?thesis
    using e base64_order_faults [where malloc = zeros and n = 1 and x = 7 and xs = "[]"] by (metis one_neq_zero)
qed
end
