(* ===== verification/CString.thy ===== *)
theory CString
  imports Blocks Strings
begin

unbundle bit_operations_syntax

text \<open>
  The string classes \<open>CStringA\<close> and \<open>CStringW\<close> of \<open>Source/Strings/Strings.cpp\<close>: a block that grows, the
  number of its characters and the length of the string, which a zero follows. The two classes are the
  same code over characters of one and of two bytes; here the code is written once, for characters
  of \<open>sz\<close> bytes, and the two classes are its instances. The memory that a source pointer gives
  access to is a list, with the terminator where the code looks for one; a read or a write outside of
  a block is \<open>None\<close>.
\<close>

section \<open>State\<close>

record 'c cstr =
  cs_szStr :: "'c list option"
  cs_nSize :: u64
  cs_nLen :: u64

definition CString_new :: "'c cstr" where
  "CString_new = \<lparr>cs_szStr = None, cs_nSize = 0, cs_nLen = 0\<rparr>"

definition cs_Empty :: "'c cstr \<Rightarrow> 'c cstr" where
  "cs_Empty s = s\<lparr>cs_szStr := None, cs_nSize := 0, cs_nLen := 0\<rparr>"

text \<open>The position of the terminator.\<close>

definition zlength :: "'c::len word list \<Rightarrow> u64 option" where
  "zlength xs = (if 0 \<in> set xs then Some (of_nat (length (takeWhile (\<lambda>c. c \<noteq> 0) xs))) else None)"

definition zlength_opt :: "'c::len word list option \<Rightarrow> u64 option" where
  "zlength_opt szSrc = (case szSrc of None \<Rightarrow> Some 0 | Some xs \<Rightarrow> zlength xs)"

definition cs_Refresh :: "'c::len word cstr \<Rightarrow> 'c word cstr option" where
  "cs_Refresh s = (case cs_szStr s of
     None \<Rightarrow> Some (s\<lparr>cs_nLen := 0\<rparr>)
   | Some b \<Rightarrow> do {
       b \<leftarrow> block_write b (unat (cs_nSize s - 1)) [0];
       n \<leftarrow> zlength b;
       Some (s\<lparr>cs_szStr := Some b, cs_nLen := n\<rparr>)
     })"

definition cs_GetLength :: "'c cstr \<Rightarrow> u64" where
  "cs_GetLength s = cs_nLen s"

section \<open>Room\<close>

definition X_ALIGN :: "u64 \<Rightarrow> u64 \<Rightarrow> u64" where
  "X_ALIGN x sz = (x + (sz - 1)) AND NOT (sz - 1)"

definition cs_EnsureBuffer :: "u64 \<Rightarrow> 'c::len word allocator \<Rightarrow> 'c word cstr \<Rightarrow> u64 \<Rightarrow> (bool \<times> 'c word cstr) option" where
  "cs_EnsureBuffer sz malloc s nChars = (let nChars = nChars + 1 in
     if nChars \<ge> cs_nSize s then
       (let nChars = (if cs_nSize s > 0 then X_ALIGN nChars 256 else nChars) in
        case malloc (nChars * sz) of
          None \<Rightarrow> Some (False, s)
        | Some b \<Rightarrow> do {
            xs \<leftarrow> (if cs_nLen s = 0 then Some [] else do { d \<leftarrow> cs_szStr s; block_read d 0 (unat (cs_nLen s)) });
            b \<leftarrow> block_write b 0 xs;
            b \<leftarrow> block_write b (unat (cs_nLen s)) [0];
            Some (True, s\<lparr>cs_szStr := Some b, cs_nSize := nChars\<rparr>)
          })
     else Some (True, s))"

section \<open>Editing\<close>

definition cs_ConcatN :: "u64 \<Rightarrow> 'c::len word allocator \<Rightarrow> 'c word cstr \<Rightarrow> 'c word list option \<Rightarrow> u64 \<Rightarrow>
    (bool \<times> 'c word cstr) option" where
  "cs_ConcatN sz malloc s szSrc nSrcLen =
     (if nSrcLen = 0 then Some (True, s)
      else case szSrc of
        None \<Rightarrow> Some (False, s)
      | Some src \<Rightarrow>
          if cs_nLen s + nSrcLen + 1 < cs_nLen s then Some (False, s)
          else do {
            (ok, s) \<leftarrow> cs_EnsureBuffer sz malloc s (cs_nLen s + nSrcLen + 1);
            if \<not> ok then Some (False, s)
            else do {
              xs \<leftarrow> block_read src 0 (unat nSrcLen);
              b \<leftarrow> cs_szStr s;
              b \<leftarrow> block_write b (unat (cs_nLen s)) xs;
              b \<leftarrow> block_write b (unat (cs_nLen s + nSrcLen)) [0];
              Some (True, s\<lparr>cs_szStr := Some b, cs_nLen := cs_nLen s + nSrcLen\<rparr>)
            }
          })"

definition cs_Concat :: "u64 \<Rightarrow> 'c::len word allocator \<Rightarrow> 'c word cstr \<Rightarrow> 'c word list option \<Rightarrow>
    (bool \<times> 'c word cstr) option" where
  "cs_Concat sz malloc s szSrc = do { nSrcLen \<leftarrow> zlength_opt szSrc; cs_ConcatN sz malloc s szSrc nSrcLen }"

definition cs_CopyN :: "u64 \<Rightarrow> 'c::len word allocator \<Rightarrow> 'c word cstr \<Rightarrow> 'c word list option \<Rightarrow> u64 \<Rightarrow>
    (bool \<times> 'c word cstr) option" where
  "cs_CopyN sz malloc s szSrc nSrcLen = cs_ConcatN sz malloc (cs_Empty s) szSrc nSrcLen"

definition cs_Copy :: "u64 \<Rightarrow> 'c::len word allocator \<Rightarrow> 'c word cstr \<Rightarrow> 'c word list option \<Rightarrow>
    (bool \<times> 'c word cstr) option" where
  "cs_Copy sz malloc s szSrc = cs_Concat sz malloc (cs_Empty s) szSrc"

definition cs_InsertN :: "u64 \<Rightarrow> 'c::len word allocator \<Rightarrow> 'c word cstr \<Rightarrow> 'c word list option \<Rightarrow> u64 \<Rightarrow> u64 \<Rightarrow>
    (bool \<times> 'c word cstr) option" where
  "cs_InsertN sz malloc s szSrc nInsertPosition nSrcLen =
     (if nSrcLen = 0 then Some (True, s)
      else case szSrc of
        None \<Rightarrow> Some (False, s)
      | Some src \<Rightarrow>
          if cs_nLen s + nSrcLen + 1 < cs_nLen s then Some (False, s)
          else do {
            (ok, s) \<leftarrow> cs_EnsureBuffer sz malloc s (cs_nLen s + nSrcLen + 1);
            if \<not> ok then Some (False, s)
            else do {
              let nInsertPosition = (if nInsertPosition > cs_nLen s then cs_nLen s else nInsertPosition);
              b \<leftarrow> cs_szStr s;
              tail \<leftarrow> block_read b (unat nInsertPosition) (unat (cs_nLen s - nInsertPosition));
              b \<leftarrow> block_write b (unat (nInsertPosition + nSrcLen)) tail;
              xs \<leftarrow> block_read src 0 (unat nSrcLen);
              b \<leftarrow> block_write b (unat nInsertPosition) xs;
              b \<leftarrow> block_write b (unat (cs_nLen s + nSrcLen)) [0];
              Some (True, s\<lparr>cs_szStr := Some b, cs_nLen := cs_nLen s + nSrcLen\<rparr>)
            }
          })"

definition cs_Insert :: "u64 \<Rightarrow> 'c::len word allocator \<Rightarrow> 'c word cstr \<Rightarrow> 'c word list option \<Rightarrow> u64 \<Rightarrow>
    (bool \<times> 'c word cstr) option" where
  "cs_Insert sz malloc s szSrc nInsertPosition =
     do { nSrcLen \<leftarrow> zlength_opt szSrc; cs_InsertN sz malloc s szSrc nInsertPosition nSrcLen }"

text \<open>
  \<open>CStringA\<close> leaves the string alone when the first character is at its end (\<open>\<ge>\<close>), \<open>CStringW\<close> only when
  it is behind (\<open>>\<close>); the flag tells the narrow class.
\<close>

definition cs_Delete :: "bool \<Rightarrow> 'c::len word cstr \<Rightarrow> u64 \<Rightarrow> u64 \<Rightarrow> 'c word cstr option" where
  "cs_Delete narrow s nStartChar nChars =
     (if cs_nLen s > 0 then
        (if (if narrow then nStartChar \<ge> cs_nLen s else nStartChar > cs_nLen s) then Some s
         else do {
           let nChars = (if nStartChar + nChars > cs_nLen s \<or> nStartChar + nChars < nStartChar
                         then cs_nLen s - nStartChar else nChars);
           let k = cs_nLen s - nChars - nStartChar;
           b \<leftarrow> cs_szStr s;
           xs \<leftarrow> block_read b (unat (nStartChar + nChars)) (unat k);
           b \<leftarrow> block_write b (unat nStartChar) xs;
           b \<leftarrow> block_write b (unat (cs_nLen s - nChars)) [0];
           Some (s\<lparr>cs_szStr := Some b, cs_nLen := cs_nLen s - nChars\<rparr>)
         })
      else Some s)"

text \<open>The string takes over a block of the caller, or gives its own away.\<close>

definition cs_Attach :: "'c::len word cstr \<Rightarrow> 'c word list option \<Rightarrow> 'c word cstr option" where
  "cs_Attach s szSrc = (case szSrc of
     None \<Rightarrow> Some (cs_Empty s)
   | Some b \<Rightarrow> do {
       n \<leftarrow> zlength b;
       Some ((cs_Empty s)\<lparr>cs_szStr := Some b, cs_nLen := n, cs_nSize := n + 1\<rparr>)
     })"

definition cs_Detach :: "'c cstr \<Rightarrow> 'c list option \<times> 'c cstr" where
  "cs_Detach s = (cs_szStr s, s\<lparr>cs_szStr := None, cs_nSize := 0, cs_nLen := 0\<rparr>)"

section \<open>The two classes\<close>

definition CStringA_EnsureBuffer :: "u8 allocator \<Rightarrow> u8 cstr \<Rightarrow> u64 \<Rightarrow> (bool \<times> u8 cstr) option" where
  "CStringA_EnsureBuffer = cs_EnsureBuffer 1"

definition CStringW_EnsureBuffer :: "u16 allocator \<Rightarrow> u16 cstr \<Rightarrow> u64 \<Rightarrow> (bool \<times> u16 cstr) option" where
  "CStringW_EnsureBuffer = cs_EnsureBuffer 2"

definition CStringA_ConcatN :: "u8 allocator \<Rightarrow> u8 cstr \<Rightarrow> u8 list option \<Rightarrow> u64 \<Rightarrow> (bool \<times> u8 cstr) option" where
  "CStringA_ConcatN = cs_ConcatN 1"

definition CStringW_ConcatN :: "u16 allocator \<Rightarrow> u16 cstr \<Rightarrow> u16 list option \<Rightarrow> u64 \<Rightarrow> (bool \<times> u16 cstr) option" where
  "CStringW_ConcatN = cs_ConcatN 2"

definition CStringA_InsertN :: "u8 allocator \<Rightarrow> u8 cstr \<Rightarrow> u8 list option \<Rightarrow> u64 \<Rightarrow> u64 \<Rightarrow> (bool \<times> u8 cstr) option" where
  "CStringA_InsertN = cs_InsertN 1"

definition CStringW_InsertN :: "u16 allocator \<Rightarrow> u16 cstr \<Rightarrow> u16 list option \<Rightarrow> u64 \<Rightarrow> u64 \<Rightarrow> (bool \<times> u16 cstr) option" where
  "CStringW_InsertN = cs_InsertN 2"

definition CStringA_Delete :: "u8 cstr \<Rightarrow> u64 \<Rightarrow> u64 \<Rightarrow> u8 cstr option" where
  "CStringA_Delete = cs_Delete True"

definition CStringW_Delete :: "u16 cstr \<Rightarrow> u64 \<Rightarrow> u64 \<Rightarrow> u16 cstr option" where
  "CStringW_Delete = cs_Delete False"

section \<open>Tests\<close>

text \<open>\<open>StartsWith\<close>, \<open>EndsWith\<close> and \<open>Contains\<close> are for strings with a buffer, as strings of \<open>Strings\<close>.\<close>

definition cs_text :: "'c::len word cstr \<Rightarrow> 'c word str option" where
  "cs_text s = map_option (takeWhile (\<lambda>c. c \<noteq> 0)) (cs_szStr s)"

definition CStringA_StartsWith :: "u8 cstr \<Rightarrow> u8 str option \<Rightarrow> bool \<Rightarrow> bool" where
  "CStringA_StartsWith s szStrA bCaseInsensitive = (let nSrcLen = StrLenA szStrA in
     if nSrcLen = 0 \<or> cs_nLen s < nSrcLen then False
     else StrNCompareA (cs_text s) szStrA nSrcLen bCaseInsensitive = 0)"

definition CStringW_StartsWith :: "u16 cstr \<Rightarrow> u16 str option \<Rightarrow> bool \<Rightarrow> bool" where
  "CStringW_StartsWith s szStrW bCaseInsensitive = (let nSrcLen = StrLenW szStrW in
     if nSrcLen = 0 \<or> cs_nLen s < nSrcLen then False
     else StrNCompareW (cs_text s) szStrW nSrcLen bCaseInsensitive = 0)"

definition cs_text_from :: "'c::len word cstr \<Rightarrow> u64 \<Rightarrow> 'c word str option" where
  "cs_text_from s n = map_option (\<lambda>b. takeWhile (\<lambda>c. c \<noteq> 0) (drop (unat n) b)) (cs_szStr s)"

definition CStringA_EndsWith :: "u8 cstr \<Rightarrow> u8 str option \<Rightarrow> bool \<Rightarrow> bool" where
  "CStringA_EndsWith s szStrA bCaseInsensitive = (let nSrcLen = StrLenA szStrA in
     if nSrcLen = 0 \<or> cs_nLen s < nSrcLen then False
     else StrNCompareA (cs_text_from s (cs_nLen s - nSrcLen)) szStrA nSrcLen bCaseInsensitive = 0)"

definition CStringW_EndsWith :: "u16 cstr \<Rightarrow> u16 str option \<Rightarrow> bool \<Rightarrow> bool" where
  "CStringW_EndsWith s szStrW bCaseInsensitive = (let nSrcLen = StrLenW szStrW in
     if nSrcLen = 0 \<or> cs_nLen s < nSrcLen then False
     else StrNCompareW (cs_text_from s (cs_nLen s - nSrcLen)) szStrW nSrcLen bCaseInsensitive = 0)"

end
