(* ===== verification/CString_Props.thy ===== *)
theory CString_Props
  imports CString
begin

unbundle bit_operations_syntax

text \<open>
  The string classes hold a list of characters: every operation edits that list, whatever the
  allocations do, and touches nothing outside of its block.
\<close>

section \<open>The strings that a state holds\<close>

definition cs_rep :: "'c::len word cstr \<Rightarrow> 'c word list \<Rightarrow> bool" where
  "cs_rep s xs \<longleftrightarrow> unat (cs_nLen s) = length xs \<and> (case cs_szStr s of
     None \<Rightarrow> cs_nSize s = 0 \<and> xs = []
   | Some b \<Rightarrow> length b = unat (cs_nSize s) \<and> length b \<le> 2 ^ 47 \<and> length xs < length b \<and> take (Suc (length xs)) b = xs @ [0])"

text \<open>An allocator of blocks of bytes that are used as characters of \<open>sz\<close> bytes.\<close>

definition cs_fair :: "u64 \<Rightarrow> 'c allocator \<Rightarrow> bool" where
  "cs_fair sz malloc \<longleftrightarrow> (sz = 1 \<or> sz = 2) \<and>
     (\<forall>n b. malloc n = Some b \<longrightarrow> length b = unat n div unat sz \<and> unat n \<le> 2 ^ 47)"

lemma cs_rep_SomeD: "cs_rep s xs \<Longrightarrow> cs_szStr s = Some b \<Longrightarrow> length b = unat (cs_nSize s) \<and> length b \<le> 2 ^ 47 \<and>
    unat (cs_nLen s) = length xs \<and> length xs < length b \<and> take (length xs) b = xs"
  by (auto simp: cs_rep_def dest: arg_cong [where f = "take (length xs)"])

lemma cs_rep_len: "cs_rep s xs \<Longrightarrow> unat (cs_nLen s) = length xs \<and> length xs < 2 ^ 47"
  by (auto simp: cs_rep_def split: option.splits)

lemma cs_rep_new: "cs_rep CString_new []"
  by (simp add: cs_rep_def CString_new_def)

lemma cs_rep_Empty: "cs_rep (cs_Empty s) []"
  by (simp add: cs_rep_def cs_Empty_def)

lemma X_ALIGN_256:
  assumes "unat n < 2 ^ 60"
  shows "unat n \<le> unat (X_ALIGN n 256)" "unat (X_ALIGN n 256) \<le> unat n + 255"
proof -
  let ?w = "n + 255"
  have m: "255 = (mask 8 :: u64)"
    by (simp add: mask_eq_exp_minus_1)
  have u: "unat ?w = unat n + 255"
    using assms by (simp add: unat_add_small)
  have "?w AND NOT (mask 8) = push_bit 8 (drop_bit 8 ?w)"
    by (rule bit_word_eqI) (auto simp: bit_simps)
  then have "X_ALIGN n 256 = drop_bit 8 ?w * 256"
    by (simp add: X_ALIGN_def m [symmetric] push_bit_eq_mult)
  moreover have "unat (drop_bit 8 ?w) = (unat n + 255) div 256"
    using u by (simp only: drop_bit_nat) simp
  moreover have "unat (drop_bit 8 ?w * 256) = unat (drop_bit 8 ?w) * unat (256 :: u64)"
    by (rule unat_mult_small) (use assms in \<open>simp add: drop_bit_nat u\<close>)
  ultimately have e: "unat (X_ALIGN n 256) = (unat n + 255) div 256 * 256"
    by simp
  show "unat n \<le> unat (X_ALIGN n 256)" "unat (X_ALIGN n 256) \<le> unat n + 255"
    unfolding e by simp_all
qed

section \<open>Room\<close>

lemma cs_EnsureBuffer_rep:
  assumes rep: "cs_rep s xs" and fair: "cs_fair sz malloc" and n: "unat n < 2 ^ 50" "length xs \<le> unat n"
  shows "(\<exists>s' b. cs_EnsureBuffer sz malloc s n = Some (True, s') \<and> cs_rep s' xs \<and> cs_nLen s' = cs_nLen s \<and>
      cs_szStr s' = Some b \<and> unat n < length b) \<or>
    cs_EnsureBuffer sz malloc s n = Some (False, s) \<and> \<not> roomy malloc (2 * (unat n + 256))"
proof -
  have n1: "unat (n + 1) = unat n + 1"
    using n by (simp add: unat_add_small)
  show ?thesis
  proof (cases "n + 1 \<ge> cs_nSize s")
    case False
    then have lt: "unat n + 1 < unat (cs_nSize s)"
      using n1 by (simp add: word_le_nat_alt)
    then obtain b where "cs_szStr s = Some b" "length b = unat (cs_nSize s)"
      using rep by (auto simp: cs_rep_def split: option.splits)
    then show ?thesis
      using False rep lt by (simp add: cs_EnsureBuffer_def Let_def)
  next
    case True
    define m where "m = (if cs_nSize s > 0 then X_ALIGN (n + 1) 256 else n + 1)"
    have m: "unat n < unat m" "unat m \<le> unat n + 256"
      using X_ALIGN_256 [of "n + 1"] n n1 by (auto simp: m_def)
    have sz: "unat sz = 1 \<or> unat sz = 2"
      using fair by (auto simp: cs_fair_def)
    have ms: "unat (m * sz) = unat m * unat sz"
      using m n sz by (intro unat_mult_small) auto
    show ?thesis
    proof (cases "malloc (m * sz)")
      case None
      then have "cs_EnsureBuffer sz malloc s n = Some (False, s)"
        using True by (simp add: cs_EnsureBuffer_def m_def [symmetric] Let_def)
      moreover have "unat (m * sz) \<le> 2 * (unat n + 256)"
        unfolding ms using m sz by auto
      ultimately show ?thesis
        using not_roomyI [of malloc "m * sz"] None by blast
    next
      case (Some b)
      note ms
      moreover have "length b = unat (m * sz) div unat sz" "unat (m * sz) \<le> 2 ^ 47"
        using Some fair by (auto simp: cs_fair_def)
      ultimately have b: "length b = unat m" "length b \<le> 2 ^ 47"
        using sz by auto
      have nl: "cs_nLen s = 0 \<longleftrightarrow> xs = []"
        using rep by (metis cs_rep_len length_0_conv unat_eq_zero)
      have src: "(if cs_nLen s = 0 then Some [] else do { d \<leftarrow> cs_szStr s; block_read d 0 (unat (cs_nLen s)) }) = Some xs"
      proof (cases "cs_szStr s")
        case None
        then show ?thesis
          using rep nl by (simp add: cs_rep_def)
      next
        case (Some d)
        then show ?thesis
          using cs_rep_SomeD [OF rep Some] nl by (simp add: block_read_ok)
      qed
      obtain b1 where b1: "block_write b 0 xs = Some b1" "length b1 = length b" "take (length xs) b1 = xs"
        using block_write_prefix [of 0 xs b] b(1) m(1) n(2) by auto
      obtain b2 where b2: "block_write b1 (length xs) [0] = Some b2" "length b2 = length b"
        "take (Suc (length xs)) b2 = xs @ [0]"
        using block_write_prefix [of "length xs" "[0]" b1] b1 b(1) m(1) n(2) by auto
      have l: "unat (cs_nLen s) = length xs"
        using rep cs_rep_len by blast
      have "cs_EnsureBuffer sz malloc s n = Some (True, s\<lparr>cs_szStr := Some b2, cs_nSize := m\<rparr>)"
        unfolding cs_EnsureBuffer_def Let_def m_def [symmetric] using True Some src b1(1) b2(1) l by simp
      moreover have "cs_rep (s\<lparr>cs_szStr := Some b2, cs_nSize := m\<rparr>) xs"
        using b b2 l m(1) n(2) by (simp add: cs_rep_def)
      ultimately show ?thesis
        using b b2(2) m(1) by auto
    qed
  qed
qed

section \<open>Editing\<close>

text \<open>Writing a part behind a prefix of the block, and the zero that closes the string.\<close>

lemma write_behind:
  assumes "take (length xs) b = xs" and "length xs + length ys < length b"
  shows "\<exists>b1 b2. block_write b (length xs) ys = Some b1 \<and> block_write b1 (length xs + length ys) [0] = Some b2 \<and>
    length b1 = length b \<and> length b2 = length b \<and> take (Suc (length xs + length ys)) b2 = xs @ ys @ [0]"
proof -
  obtain b1 where b1: "block_write b (length xs) ys = Some b1" "length b1 = length b" "take (length xs + length ys) b1 = xs @ ys"
    using block_write_prefix [of "length xs" ys b] assms by auto
  then show ?thesis
    using block_write_prefix [of "length xs + length ys" "[0]" b1] assms by auto
qed

lemma take_whole: "take (length xs) (xs @ ys) = xs"
  by simp

lemma cs_rep_build:
  assumes "length b = unat (cs_nSize s)" "length b \<le> 2 ^ 47" "unat n = length zs" "length zs < length b"
    "take (Suc (length zs)) b = zs @ [0]"
  shows "cs_rep (s\<lparr>cs_szStr := Some b, cs_nLen := n\<rparr>) zs"
  using assms by (simp add: cs_rep_def)

lemma room_sum:
  assumes "cs_rep s xs" and "unat n \<le> 2 ^ 48"
  shows "unat (cs_nLen s + n) = length xs + unat n" "unat (cs_nLen s + n + 1) = length xs + unat n + 1"
    "\<not> cs_nLen s + n + 1 < cs_nLen s"
proof -
  have l: "unat (cs_nLen s) = length xs" "length xs < 2 ^ 47"
    using assms(1) cs_rep_len by blast+
  then show a: "unat (cs_nLen s + n) = length xs + unat n"
    using assms(2) by (simp add: unat_add_small)
  then show b: "unat (cs_nLen s + n + 1) = length xs + unat n + 1"
    using assms(2) l(2) by (simp add: unat_add_small)
  show "\<not> cs_nLen s + n + 1 < cs_nLen s"
    using b l(1) by (simp add: word_less_nat_alt)
qed

lemma cs_ConcatN_rep:
  assumes rep: "cs_rep s xs" and fair: "cs_fair sz malloc" and n: "unat n \<le> length src" "length src \<le> 2 ^ 48"
  shows "(\<exists>s'. cs_ConcatN sz malloc s (Some src) n = Some (True, s') \<and> cs_rep s' (xs @ take (unat n) src)) \<or>
    cs_ConcatN sz malloc s (Some src) n = Some (False, s) \<and> \<not> roomy malloc (2 * (length xs + unat n + 257))"
proof (cases "n = 0")
  case True
  then show ?thesis
    using rep by (simp add: cs_ConcatN_def)
next
  case False
  have n48: "unat n \<le> 2 ^ 48"
    using n by simp
  note sum = room_sum [OF rep n48]
  have fit: "unat (cs_nLen s + n + 1) < 2 ^ 50" "length xs \<le> unat (cs_nLen s + n + 1)"
    using sum(2) n48 cs_rep_len [OF rep] by simp_all
  have room: "2 * (unat (cs_nLen s + n + 1) + 256) = 2 * (length xs + unat n + 257)"
    unfolding sum(2) by simp
  from cs_EnsureBuffer_rep [OF rep fair fit, unfolded room] consider
      (ok) s' b where "cs_EnsureBuffer sz malloc s (cs_nLen s + n + 1) = Some (True, s')" "cs_rep s' xs" "cs_nLen s' = cs_nLen s"
        "cs_szStr s' = Some b" "unat (cs_nLen s + n + 1) < length b"
    | (no) "cs_EnsureBuffer sz malloc s (cs_nLen s + n + 1) = Some (False, s)" "\<not> roomy malloc (2 * (length xs + unat n + 257))"
    by blast
  then show ?thesis
  proof cases
    case ok
    have rd: "block_read src 0 (unat n) = Some (take (unat n) src)" "length (take (unat n) src) = unat n"
      using n(1) by (simp_all add: block_read_ok)
    note b = cs_rep_SomeD [OF ok(2,4)]
    obtain b1 b2 where w: "block_write b (length xs) (take (unat n) src) = Some b1"
      "block_write b1 (length xs + unat n) [0] = Some b2" "length b2 = length b"
      "take (Suc (length xs + unat n)) b2 = xs @ take (unat n) src @ [0]"
      using write_behind [of xs b "take (unat n) src"] b ok(5) sum(2) rd(2) by auto
    let ?s = "s'\<lparr>cs_szStr := Some b2, cs_nLen := cs_nLen s' + n\<rparr>"
    have "cs_ConcatN sz malloc s (Some src) n = Some (True, ?s)"
      using False sum(1,3) ok(1,3,4) rd(1) w b by (simp add: cs_ConcatN_def)
    moreover have "cs_rep ?s (xs @ take (unat n) src)"
      by (rule cs_rep_build) (use b w(3,4) ok(3,5) sum rd(2) in simp_all)
    ultimately show ?thesis
      by blast
  next
    case no
    then show ?thesis
      using False sum(3) by (simp add: cs_ConcatN_def)
  qed
qed

lemma cs_InsertN_rep:
  assumes rep: "cs_rep s xs" and fair: "cs_fair sz malloc" and n: "unat n \<le> length src" "length src \<le> 2 ^ 48"
  shows "(\<exists>s'. cs_InsertN sz malloc s (Some src) p n = Some (True, s') \<and>
      cs_rep s' (take (unat p) xs @ take (unat n) src @ drop (unat p) xs)) \<or>
    cs_InsertN sz malloc s (Some src) p n = Some (False, s) \<and> \<not> roomy malloc (2 * (length xs + unat n + 257))"
proof (cases "n = 0")
  case True
  then show ?thesis
    using rep by (simp add: cs_InsertN_def)
next
  case False
  have n48: "unat n \<le> 2 ^ 48"
    using n by simp
  note sum = room_sum [OF rep n48]
  have fit: "unat (cs_nLen s + n + 1) < 2 ^ 50" "length xs \<le> unat (cs_nLen s + n + 1)"
    using sum(2) n48 cs_rep_len [OF rep] by simp_all
  have room: "2 * (unat (cs_nLen s + n + 1) + 256) = 2 * (length xs + unat n + 257)"
    unfolding sum(2) by simp
  from cs_EnsureBuffer_rep [OF rep fair fit, unfolded room] consider
      (ok) s' b where "cs_EnsureBuffer sz malloc s (cs_nLen s + n + 1) = Some (True, s')" "cs_rep s' xs" "cs_nLen s' = cs_nLen s"
        "cs_szStr s' = Some b" "unat (cs_nLen s + n + 1) < length b"
    | (no) "cs_EnsureBuffer sz malloc s (cs_nLen s + n + 1) = Some (False, s)" "\<not> roomy malloc (2 * (length xs + unat n + 257))"
    by blast
  then show ?thesis
  proof cases
    case ok
    note b = cs_rep_SomeD [OF ok(2,4)]
    define q where "q = (if p > cs_nLen s then cs_nLen s else p)"
    have q: "unat q = min (unat p) (length xs)"
      using b ok(3) by (auto simp: q_def word_less_nat_alt)
    have qle: "unat q \<le> length xs"
      using q by simp
    have "unat q < 2 ^ 47"
      using q cs_rep_len [OF rep] by (simp add: min_less_iff_disj)
    then have ql: "unat (cs_nLen s - q) = length xs - unat q" "unat (q + n) = unat q + unat n"
      using q b ok(3) n48 by (simp_all add: unat_sub_le unat_add_small word_le_nat_alt)
    let ?src = "take (unat n) src"
    have rd: "block_read src 0 (unat n) = Some ?src" "length ?src = unat n"
      using n(1) by (simp_all add: block_read_ok)
    have "take (length xs - unat q) (drop (unat q) b) = drop (unat q) (take (length xs) b)"
      by (simp add: drop_take)
    then have tl: "block_read b (unat q) (unat (cs_nLen s - q)) = Some (drop (unat q) xs)"
      using b qle ql by (simp add: block_read_ok)
    have tq: "take (unat q) b = take (unat q) xs"
      using b qle by (metis min.absorb1 take_take)
    define b1 where "b1 = take (unat q + unat n) b @ drop (unat q) xs @ drop (length xs + unat n) b"
    have fit: "length xs + unat n + 1 < length b"
      using ok(5) sum(2) by simp
    have w1: "block_write b (unat (q + n)) (drop (unat q) xs) = Some b1"
      using block_write_ok [of "unat q + unat n" "drop (unat q) xs" b] fit qle ql(2) by (simp add: b1_def add.commute)
    define b2 where "b2 = (take (unat q) xs @ ?src @ drop (unat q) xs) @ drop (length xs + unat n) b"
    have w2: "block_write b1 (unat q) ?src = Some b2"
      using block_write_ok [of "unat q" ?src b1] rd(2) fit qle
      by (simp add: b1_def b2_def tq)
    let ?zs = "take (unat q) xs @ ?src @ drop (unat q) xs"
    have lz: "length ?zs = length xs + unat n" "length b2 = length b"
      using qle rd(2) fit by (simp_all add: b2_def)
    have "take (length xs + unat n) b2 = ?zs"
      unfolding b2_def lz(1) [symmetric] by (rule take_whole)
    then obtain b3 where w3: "block_write b2 (length xs + unat n) [0] = Some b3" "length b3 = length b"
      "take (Suc (length xs + unat n)) b3 = ?zs @ [0]"
      using block_write_prefix [of "length xs + unat n" "[0]" b2] lz fit by auto
    let ?s = "s'\<lparr>cs_szStr := Some b3, cs_nLen := cs_nLen s' + n\<rparr>"
    have qd: "(if cs_nLen s < p then cs_nLen s' else p) = q"
      by (simp add: q_def ok(3))
    have "cs_InsertN sz malloc s (Some src) p n = Some (True, ?s)"
      using False sum(1,3) ok(1,3,4) rd(1) tl w1 w2 w3(1) by (simp add: cs_InsertN_def qd Let_def split del: if_split)
    moreover have "cs_rep ?s ?zs"
      by (rule cs_rep_build) (use b w3 lz(2) fit ok(3) sum(1) in \<open>simp_all only: lz(1), simp_all\<close>)
    moreover have "?zs = take (unat p) xs @ ?src @ drop (unat p) xs"
      using q by (simp add: min_def)
    ultimately show ?thesis
      by auto
  next
    case no
    then show ?thesis
      using False sum(3) by (simp add: cs_InsertN_def)
  qed
qed

lemma cs_Delete_rep:
  assumes rep: "cs_rep s xs"
  shows "\<exists>s'. cs_Delete narrow s p n = Some s' \<and> cs_rep s' (take (unat p) xs @ drop (unat p + unat n) xs)"
proof -
  have l: "unat (cs_nLen s) = length xs" "length xs < 2 ^ 47"
    using rep cs_rep_len by blast+
  consider "cs_nLen s = 0 \<or> p > cs_nLen s \<or> narrow \<and> p = cs_nLen s" | "0 < cs_nLen s" "p \<le> cs_nLen s" "\<not> (narrow \<and> p = cs_nLen s)"
    by (metis not_le word_gt_0)
  then show ?thesis
  proof cases
    case 1
    then have "cs_Delete narrow s p n = Some s" "length xs \<le> unat p"
      using l by (auto simp: cs_Delete_def word_less_nat_alt word_le_nat_alt unat_eq_zero [symmetric])
    then show ?thesis
      using rep by simp
  next
    case 2
    obtain b where sb: "cs_szStr s = Some b"
      using rep 2(1) l by (cases "cs_szStr s") (auto simp: cs_rep_def word_gt_0 unat_eq_zero [symmetric])
    note b = cs_rep_SomeD [OF rep sb]
    have p: "unat p \<le> length xs"
      using 2(2) l by (simp add: word_le_nat_alt)
    define m where "m = (if p + n > cs_nLen s \<or> p + n < p then cs_nLen s - p else n)"
    have m: "unat m = min (unat n) (length xs - unat p)"
    proof (cases "unat p + unat n < 2 ^ 64")
      case True
      then have "unat (p + n) = unat p + unat n"
        by (simp add: unat_add_small)
      then show ?thesis
        using p l 2(2) by (auto simp: m_def word_less_nat_alt unat_sub_le)
    next
      case False
      moreover have "unat n < 2 ^ 64" "unat p < 2 ^ 64"
        using unsigned_less [of n] unsigned_less [of p] by simp_all
      ultimately have "(unat p + unat n) mod 2 ^ 64 = unat p + unat n - 2 ^ 64"
        by (simp add: le_mod_geq)
      then have "unat (p + n) = unat p + unat n - 2 ^ 64"
        by (simp add: unat_word_ariths)
      then have "p + n < p"
        using False \<open>unat n < 2 ^ 64\<close> \<open>unat p < 2 ^ 64\<close> by (simp add: word_less_nat_alt)
      then show ?thesis
        using False p l 2(2) by (simp add: m_def unat_sub_le)
    qed
    have u: "unat (p + m) = unat p + unat m" "unat (cs_nLen s - m) = length xs - unat m"
      "unat (cs_nLen s - m - p) = length xs - unat m - unat p"
      using m p l by (simp_all add: unat_add_small unat_sub_le word_le_nat_alt)
    have "take (length xs - unat m - unat p) (drop (unat p + unat m) b) = drop (unat p + unat m) (take (length xs) b)"
      by (simp add: drop_take add.commute)
    then have rd: "block_read b (unat (p + m)) (unat (cs_nLen s - m - p)) = Some (drop (unat p + unat m) xs)"
      unfolding u using b p m block_read_ok [of "unat p + unat m" "length xs - unat m - unat p" b] by simp
    have tp: "take (unat p) b = take (unat p) xs"
      using b p by (metis min.absorb1 take_take)
    have ml: "unat m + unat p \<le> length xs" "unat p + (length xs - unat m - unat p) = length xs - unat m"
      using m p by auto
    have lx: "length (take (unat p) xs) = unat p" "length (drop (unat p + unat m) xs) = length xs - unat m - unat p"
      using p by simp_all
    obtain b1 b2 where w: "block_write b (unat p) (drop (unat p + unat m) xs) = Some b1"
      "block_write b1 (length xs - unat m) [0] = Some b2" "length b2 = length b"
      "take (Suc (length xs - unat m)) b2 = take (unat p) xs @ drop (unat p + unat m) xs @ [0]"
      using write_behind [of "take (unat p) xs" b "drop (unat p + unat m) xs"] tp lx ml b by (auto simp: less_imp_diff_less)
    let ?s = "s\<lparr>cs_szStr := Some b2, cs_nLen := cs_nLen s - m\<rparr>"
    have "cs_Delete narrow s p n = Some ?s"
      using 2 sb rd w u by (auto simp: cs_Delete_def m_def [symmetric] Let_def)
    moreover have "cs_rep ?s (take (unat p) xs @ drop (unat p + unat m) xs)"
      by (rule cs_rep_build) (use b w(3,4) u lx ml in \<open>simp_all add: less_imp_diff_less\<close>)
    moreover have "drop (unat p + unat m) xs = drop (unat p + unat n) xs"
      using m by (simp add: min_def)
    ultimately show ?thesis
      by auto
  qed
qed

lemma length_zero_less: "0 \<in> set xs \<Longrightarrow> length (takeWhile (\<lambda>c. c \<noteq> (0 :: 'c::zero)) xs) < length xs"
  by (induction xs) auto

lemma takeWhile_zero: "takeWhile (\<lambda>c. c \<noteq> (0 :: 'c::zero)) (xs @ 0 # ys) = takeWhile (\<lambda>c. c \<noteq> 0) xs"
  by (induction xs) auto

lemma zlength_bound: "0 \<in> set xs \<Longrightarrow> length xs \<le> 2 ^ 48 \<Longrightarrow>
    \<exists>n. zlength xs = Some n \<and> unat n = length (takeWhile (\<lambda>c. c \<noteq> 0) xs) \<and> unat n < length xs"
proof -
  assume z: "0 \<in> set xs" and l: "length xs \<le> 2 ^ 48"
  have "length (takeWhile (\<lambda>c. c \<noteq> 0) xs) < 2 ^ LENGTH(64)"
    using length_zero_less [OF z] l by simp
  then have "unat (of_nat (length (takeWhile (\<lambda>c. c \<noteq> 0) xs)) :: u64) = length (takeWhile (\<lambda>c. c \<noteq> 0) xs)"
    by (simp only: unat_of_nat mod_less)
  then show ?thesis
    using z length_zero_less [OF z] by (simp add: zlength_def)
qed

lemma take_takeWhile: "take (length (takeWhile P xs)) xs = takeWhile P xs"
  by (rule takeWhile_eq_take [symmetric])

lemma cs_Refresh_rep:
  assumes rep: "cs_rep s xs"
  shows "\<exists>s'. cs_Refresh s = Some s' \<and> cs_rep s' (takeWhile (\<lambda>c. c \<noteq> 0) xs)"
proof (cases "cs_szStr s")
  case None
  then show ?thesis
    using rep by (simp add: cs_Refresh_def cs_rep_def)
next
  case (Some b)
  have b: "length b = unat (cs_nSize s)" "length b \<le> 2 ^ 47" "length xs < length b" "take (Suc (length xs)) b = xs @ [0]"
    using rep Some by (simp_all add: cs_rep_def)
  have u: "unat (cs_nSize s - 1) = length b - 1"
    using b(1,3) by (simp add: unat_sub_le word_le_nat_alt)
  define b1 where "b1 = take (length b - 1) b @ [0]"
  have w: "block_write b (unat (cs_nSize s - 1)) [0] = Some b1"
    using b(3) u by (simp add: block_write_ok b1_def)
  have l1: "length b1 = length b"
    using b(3) by (simp add: b1_def)
  have t1: "take (Suc (length xs)) b1 = xs @ [0]"
  proof (cases "length xs = length b - 1")
    case True
    then have "take (length xs) b = xs"
      using b(4) by (metis append_eq_conv_conj min_def take_take lessI less_imp_le)
    then show ?thesis
      using True b(3) by (simp add: b1_def)
  next
    case False
    then show ?thesis
      using b(3,4) by (simp add: b1_def min_def)
  qed
  have z: "0 \<in> set b1"
    by (simp add: b1_def)
  have d: "b1 = xs @ 0 # drop (Suc (length xs)) b1"
    using append_take_drop_id [of "Suc (length xs)" b1] t1 by simp
  have tw: "takeWhile (\<lambda>c. c \<noteq> 0) b1 = takeWhile (\<lambda>c. c \<noteq> 0) xs"
    by (subst d) (rule takeWhile_zero)
  let ?ys = "takeWhile (\<lambda>c. c \<noteq> 0) xs"
  obtain n where n: "zlength b1 = Some n" "unat n = length ?ys" "length ?ys < length b1"
    using zlength_bound [OF z] b(2) l1 unfolding tw by auto
  have "b1 ! length ?ys = 0"
    using nth_length_takeWhile [of "\<lambda>c. c \<noteq> 0" b1] n(3) unfolding tw by simp
  then have "take (Suc (length ?ys)) b1 = ?ys @ [0]"
    using n(3) take_takeWhile [of "\<lambda>c. c \<noteq> 0" b1] unfolding tw by (simp add: take_Suc_conv_app_nth)
  then have "cs_rep (s\<lparr>cs_szStr := Some b1, cs_nLen := n\<rparr>) ?ys"
    using b l1 n by (simp add: cs_rep_def)
  then show ?thesis
    using Some w n(1) by (simp add: cs_Refresh_def)
qed

section \<open>Sessions\<close>

datatype 'c cs_op = OpEmpty | OpRefresh | OpEnsureBuffer u64 | OpCopy "'c list option" | OpCopyN "'c list option" u64
  | OpConcat "'c list option" | OpConcatN "'c list option" u64 | OpInsert "'c list option" u64
  | OpInsertN "'c list option" u64 u64 | OpDelete u64 u64

fun cs_step :: "u64 \<Rightarrow> bool \<Rightarrow> 'c::len word allocator \<Rightarrow> 'c word cstr \<Rightarrow> 'c word cs_op \<Rightarrow> (bool \<times> 'c word cstr) option" where
  "cs_step sz narrow malloc s OpEmpty = Some (True, cs_Empty s)"
| "cs_step sz narrow malloc s OpRefresh = map_option (Pair True) (cs_Refresh s)"
| "cs_step sz narrow malloc s (OpEnsureBuffer n) = cs_EnsureBuffer sz malloc s n"
| "cs_step sz narrow malloc s (OpCopy src) = cs_Copy sz malloc s src"
| "cs_step sz narrow malloc s (OpCopyN src n) = cs_CopyN sz malloc s src n"
| "cs_step sz narrow malloc s (OpConcat src) = cs_Concat sz malloc s src"
| "cs_step sz narrow malloc s (OpConcatN src n) = cs_ConcatN sz malloc s src n"
| "cs_step sz narrow malloc s (OpInsert src p) = cs_Insert sz malloc s src p"
| "cs_step sz narrow malloc s (OpInsertN src p n) = cs_InsertN sz malloc s src p n"
| "cs_step sz narrow malloc s (OpDelete p n) = map_option (Pair True) (cs_Delete narrow s p n)"

text \<open>What the operations mean for the list, when they succeed and when they do not.\<close>

definition zsrc :: "'c::len word list option \<Rightarrow> 'c word list" where
  "zsrc src = (case src of None \<Rightarrow> [] | Some xs \<Rightarrow> takeWhile (\<lambda>c. c \<noteq> 0) xs)"

definition nsrc :: "'c list option \<Rightarrow> u64 \<Rightarrow> 'c list" where
  "nsrc src n = (case src of None \<Rightarrow> [] | Some xs \<Rightarrow> take (unat n) xs)"

fun cs_spec :: "'c::len word cs_op \<Rightarrow> bool \<Rightarrow> 'c word list \<Rightarrow> 'c word list" where
  "cs_spec OpEmpty ok xs = []"
| "cs_spec OpRefresh ok xs = takeWhile (\<lambda>c. c \<noteq> 0) xs"
| "cs_spec (OpEnsureBuffer n) ok xs = xs"
| "cs_spec (OpCopy src) ok xs = (if ok then zsrc src else [])"
| "cs_spec (OpCopyN src n) ok xs = (if ok then nsrc src n else [])"
| "cs_spec (OpConcat src) ok xs = (if ok then xs @ zsrc src else xs)"
| "cs_spec (OpConcatN src n) ok xs = (if ok then xs @ nsrc src n else xs)"
| "cs_spec (OpInsert src p) ok xs = (if ok then take (unat p) xs @ zsrc src @ drop (unat p) xs else xs)"
| "cs_spec (OpInsertN src p n) ok xs = (if ok then take (unat p) xs @ nsrc src n @ drop (unat p) xs else xs)"
| "cs_spec (OpDelete p n) ok xs = take (unat p) xs @ drop (unat p + unat n) xs"

text \<open>What the caller owes: a source that ends with a zero, or has the length that is passed.\<close>

definition zfits :: "'c::len word list option \<Rightarrow> bool" where
  "zfits src = (case src of None \<Rightarrow> True | Some xs \<Rightarrow> 0 \<in> set xs \<and> length xs \<le> 2 ^ 48)"

definition nfits :: "'c list option \<Rightarrow> u64 \<Rightarrow> bool" where
  "nfits src n = (case src of None \<Rightarrow> n = 0 | Some xs \<Rightarrow> unat n \<le> length xs \<and> length xs \<le> 2 ^ 48)"

fun op_fits :: "'c::len word cs_op \<Rightarrow> bool" where
  "op_fits (OpEnsureBuffer n) = (unat n < 2 ^ 50)"
| "op_fits (OpCopy src) = zfits src"
| "op_fits (OpCopyN src n) = nfits src n"
| "op_fits (OpConcat src) = zfits src"
| "op_fits (OpConcatN src n) = nfits src n"
| "op_fits (OpInsert src p) = zfits src"
| "op_fits (OpInsertN src p n) = nfits src n"
| "op_fits op = True"

lemma cs_ConcatN_opt:
  assumes "cs_rep s xs" and "cs_fair sz malloc" and "nfits src n"
  shows "\<exists>ok s'. cs_ConcatN sz malloc s src n = Some (ok, s') \<and> cs_rep s' (if ok then xs @ nsrc src n else xs) \<and>
    (ok \<or> \<not> roomy malloc (2 * (length xs + length (nsrc src n) + 257)))"
proof (cases src)
  case None
  then show ?thesis
    using assms by (simp add: nfits_def nsrc_def cs_ConcatN_def ex_bool_eq)
next
  case (Some d)
  then show ?thesis
    using cs_ConcatN_rep [OF assms(1,2), of n d] assms(1,3) by (auto simp: nfits_def nsrc_def ex_bool_eq)
qed

lemma cs_InsertN_opt:
  assumes "cs_rep s xs" and "cs_fair sz malloc" and "nfits src n"
  shows "\<exists>ok s'. cs_InsertN sz malloc s src p n = Some (ok, s') \<and>
    cs_rep s' (if ok then take (unat p) xs @ nsrc src n @ drop (unat p) xs else xs) \<and>
    (ok \<or> \<not> roomy malloc (2 * (length xs + length (nsrc src n) + 257)))"
proof (cases src)
  case None
  then show ?thesis
    using assms by (simp add: nfits_def nsrc_def cs_InsertN_def ex_bool_eq)
next
  case (Some d)
  then show ?thesis
    using cs_InsertN_rep [OF assms(1,2), of n d p] assms(1,3) by (auto simp: nfits_def nsrc_def ex_bool_eq)
qed

lemma zfits_nfits: "zfits src \<Longrightarrow> \<exists>n. zlength_opt src = Some n \<and> nfits src n \<and> nsrc src n = zsrc src"
  by (cases src) (auto simp: zfits_def nfits_def nsrc_def zsrc_def zlength_opt_def take_takeWhile dest!: zlength_bound)

text \<open>How many characters an operation may ask for.\<close>

fun op_size :: "'c::len word cs_op \<Rightarrow> nat" where
  "op_size (OpEnsureBuffer n) = unat n"
| "op_size (OpCopy src) = length (zsrc src)"
| "op_size (OpCopyN src n) = length (nsrc src n)"
| "op_size (OpConcat src) = length (zsrc src)"
| "op_size (OpConcatN src n) = length (nsrc src n)"
| "op_size (OpInsert src p) = length (zsrc src)"
| "op_size (OpInsertN src p n) = length (nsrc src n)"
| "op_size op = 0"

lemma length_spec: "length (cs_spec op ok xs) \<le> length xs + op_size op"
  by (cases op) (auto simp: length_takeWhile_le min_def le_diff_conv)

lemma cs_step_rep:
  assumes rep: "cs_rep s xs" and fair: "cs_fair sz malloc" and fits: "op_fits op"
  shows "\<exists>ok s'. cs_step sz narrow malloc s op = Some (ok, s') \<and> cs_rep s' (cs_spec op ok xs) \<and>
    (ok \<or> \<not> roomy malloc (2 * (length xs + op_size op + 257)))"
proof (cases op)
  case OpEmpty
  then show ?thesis
    by (simp add: cs_rep_Empty ex_bool_eq)
next
  case OpRefresh
  then show ?thesis
    using cs_Refresh_rep [OF rep] by auto
next
  case (OpEnsureBuffer n)
  show ?thesis
  proof (cases "length xs \<le> unat n")
    case True
    then show ?thesis
      using cs_EnsureBuffer_rep [OF rep fair, of n] rep fits OpEnsureBuffer
        roomy_mono [of malloc "2 * (length xs + unat n + 257)" "2 * (unat n + 256)"]
      by auto
  next
    case False
    then have "unat (n + 1) = unat n + 1" "length xs < unat (cs_nSize s)"
      using fits OpEnsureBuffer rep by (auto simp: unat_add_small cs_rep_def split: option.splits)
    then have "\<not> n + 1 \<ge> cs_nSize s"
      using False by (simp add: word_le_nat_alt)
    then show ?thesis
      using rep OpEnsureBuffer by (simp add: cs_EnsureBuffer_def Let_def ex_bool_eq)
  qed
next
  case (OpCopy src)
  then obtain n where "zlength_opt src = Some n" "nfits src n" "nsrc src n = zsrc src"
    using zfits_nfits fits by auto
  then show ?thesis
    using OpCopy cs_ConcatN_opt [OF cs_rep_Empty fair, of src n s]
      roomy_mono [of malloc "2 * (length xs + length (zsrc src) + 257)" "2 * (length (zsrc src) + 257)"]
    by (auto simp: cs_Copy_def cs_Concat_def ex_bool_eq)
next
  case (OpCopyN src n)
  then show ?thesis
    using cs_ConcatN_opt [OF cs_rep_Empty fair, of src n s] fits
      roomy_mono [of malloc "2 * (length xs + length (nsrc src n) + 257)" "2 * (length (nsrc src n) + 257)"]
    by (auto simp: cs_CopyN_def ex_bool_eq)
next
  case (OpConcat src)
  then obtain n where "zlength_opt src = Some n" "nfits src n" "nsrc src n = zsrc src"
    using zfits_nfits fits by auto
  then show ?thesis
    using OpConcat cs_ConcatN_opt [OF rep fair, of src n] by (simp add: cs_Concat_def ex_bool_eq)
next
  case (OpConcatN src n)
  then show ?thesis
    using cs_ConcatN_opt [OF rep fair, of src n] fits by (simp add: ex_bool_eq)
next
  case (OpInsert src p)
  then obtain n where "zlength_opt src = Some n" "nfits src n" "nsrc src n = zsrc src"
    using zfits_nfits fits by auto
  then show ?thesis
    using OpInsert cs_InsertN_opt [OF rep fair, of src n p] by (simp add: cs_Insert_def ex_bool_eq)
next
  case (OpInsertN src p n)
  then show ?thesis
    using cs_InsertN_opt [OF rep fair, of src n p] fits by (simp add: ex_bool_eq)
next
  case (OpDelete p n)
  then show ?thesis
    using cs_Delete_rep [OF rep, of narrow p n] by auto
qed

fun cs_run :: "u64 \<Rightarrow> bool \<Rightarrow> 'c::len word allocator \<Rightarrow> 'c word cstr \<Rightarrow> 'c word cs_op list \<Rightarrow> (bool list \<times> 'c word cstr) option" where
  "cs_run sz narrow malloc s [] = Some ([], s)"
| "cs_run sz narrow malloc s (op # ops) = do {
     (ok, s) \<leftarrow> cs_step sz narrow malloc s op;
     (oks, s) \<leftarrow> cs_run sz narrow malloc s ops;
     Some (ok # oks, s)
   }"

fun cs_run_spec :: "'c::len word cs_op list \<Rightarrow> bool list \<Rightarrow> 'c word list \<Rightarrow> 'c word list" where
  "cs_run_spec (op # ops) (ok # oks) xs = cs_run_spec ops oks (cs_spec op ok xs)"
| "cs_run_spec ops oks xs = xs"

text \<open>C31. Every session of edits of a \<open>CStringA\<close> (\<open>sz\<close> 1) or \<open>CStringW\<close> (\<open>sz\<close> 2) acts on the list of characters that the
  string holds, touches nothing outside of its block and keeps the terminator; an operation can fail only when the
  allocator refuses a block that the session may need, and then an insertion or concatenation leaves the string as it was and a copy leaves it empty.\<close>

theorem string_edits:
  assumes "cs_rep s xs" and "cs_fair sz malloc" and "list_all op_fits ops"
  shows "\<exists>oks s'. cs_run sz narrow malloc s ops = Some (oks, s') \<and> length oks = length ops \<and>
    cs_rep s' (cs_run_spec ops oks xs) \<and> (False \<in> set oks \<longrightarrow> \<not> roomy malloc (2 * (length xs + sum_list (map op_size ops) + 257)))"
  using assms
proof (induction ops arbitrary: s xs)
  case (Cons op ops)
  obtain ok s1 where s1: "cs_step sz narrow malloc s op = Some (ok, s1)" "cs_rep s1 (cs_spec op ok xs)"
    "ok \<or> \<not> roomy malloc (2 * (length xs + op_size op + 257))"
    using cs_step_rep [OF Cons.prems(1,2), of op narrow] Cons.prems(3) by auto
  let ?rest = "sum_list (map op_size ops)"
  obtain oks s2 where s2: "cs_run sz narrow malloc s1 ops = Some (oks, s2)" "length oks = length ops"
    "cs_rep s2 (cs_run_spec ops oks (cs_spec op ok xs))"
    "False \<in> set oks \<longrightarrow> \<not> roomy malloc (2 * (length (cs_spec op ok xs) + ?rest + 257))"
    using Cons.IH [OF s1(2) Cons.prems(2)] Cons.prems(3) by auto
  have "\<not> ok \<or> False \<in> set oks \<longrightarrow> \<not> roomy malloc (2 * (length xs + (op_size op + ?rest) + 257))"
  proof -
    have "2 * (length (cs_spec op ok xs) + ?rest + 257) \<le> 2 * (length xs + (op_size op + ?rest) + 257)"
      using length_spec [of op ok xs] by simp
    moreover have "2 * (length xs + op_size op + 257) \<le> 2 * (length xs + (op_size op + ?rest) + 257)"
      by simp
    ultimately show ?thesis
      using s1(3) s2(4) roomy_mono by blast
  qed
  then show ?case
    using s1(1) s2(1-3) by (intro exI [of _ "ok # oks"] exI [of _ s2]) auto
qed simp

lemma cs_fair_zeros: "cs_fair 1 zeros"
proof -
  have "unat n \<le> 65536" if "n \<le> 0x10000" for n :: u64
    using that by (simp add: word_le_nat_alt)
  then show ?thesis
    by (fastforce simp: cs_fair_def zeros_def split: if_splits)
qed

lemma string_edits_witness:
  "\<exists>s'. cs_run 1 True zeros CString_new [OpCopy (Some [104, 111, 0]), OpInsertN (Some [101, 108, 108]) 1 3, OpDelete 0 1] =
      Some ([True, True, True], s') \<and> cs_rep s' [101, 108, 108, 111 :: u8]"
proof -
  let ?ops = "[OpCopy (Some [104, 111, 0]), OpInsertN (Some [101, 108, 108]) 1 3, OpDelete 0 1] :: u8 cs_op list"
  have "list_all op_fits ?ops"
    by (simp add: zfits_def nfits_def)
  from string_edits [OF cs_rep_new cs_fair_zeros this, of True] obtain oks s' where r: "cs_run 1 True zeros CString_new ?ops = Some (oks, s')"
    "length oks = length ?ops" "cs_rep s' (cs_run_spec ?ops oks [])"
    "False \<in> set oks \<longrightarrow> \<not> roomy zeros (2 * (length ([] :: u8 list) + sum_list (map op_size ?ops) + 257))"
    by blast
  have "roomy zeros (2 * (length ([] :: u8 list) + sum_list (map op_size ?ops) + 257))"
    by (auto simp: roomy_def zeros_def zsrc_def nsrc_def word_le_nat_alt)
  then have "oks = [True, True, True]"
    using r(2,4) by (auto simp: length_Suc_conv)
  then show ?thesis
    using r(1,3) by (simp add: zsrc_def nsrc_def)
qed
end
