(* ===== verification/Utf8.thy ===== *)
theory Utf8
  imports CString
begin

unbundle bit_operations_syntax

text \<open>
  The conversions between UTF-8 and UTF-16 of \<open>Source/Strings/Utf8.cpp\<close>. The memory that a source
  pointer gives access to is a list, a null pointer is \<open>None\<close>; a read outside of it is \<open>None\<close>. The
  project is built with the compiler's default, in which \<open>CHAR\<close> is signed: a character that the
  code reads as \<open>CHAR\<close> is compared as a number from -128 to 127.
\<close>

section \<open>Reading the source\<close>

definition byte_at :: "'c list \<Rightarrow> nat \<Rightarrow> 'c option" where
  "byte_at xs i = (if i < length xs then Some (xs ! i) else None)"

text \<open>A \<open>CHAR\<close> as the \<open>int\<close> that it is promoted to.\<close>

definition char_value :: "u8 \<Rightarrow> int" where
  "char_value c = sint c"

section \<open>One character\<close>

definition aFirstByteMark :: "u64 list" where
  "aFirstByteMark = [0x00, 0xC0, 0xE0, 0xF0]"

text \<open>The switch of \<open>Utf8_EncodeChar\<close>, with its fall-through: the bytes from the last to the first.\<close>

fun encode_bytes :: "nat \<Rightarrow> u64 \<Rightarrow> u64 \<Rightarrow> u8 list" where
  "encode_bytes 0 mark nVal = []"
| "encode_bytes (Suc 0) mark nVal = [ucast (nVal OR mark)]"
| "encode_bytes (Suc k) mark nVal = encode_bytes k mark (drop_bit 6 nVal) @ [ucast ((nVal OR 0x80) AND 0xBF)]"

text \<open>The number of bytes (-1 for a wrong pair) and the bytes.\<close>

definition Utf8_EncodeChar :: "u16 \<Rightarrow> u16 \<Rightarrow> int \<times> u8 list" where
  "Utf8_EncodeChar chW chSurrogatePairW =
     (let encode = (\<lambda>nVal. let k = (if nVal < 0x80 then 1 else if nVal < 0x800 then 2 else if nVal < 0x10000 then 3 else 4) in
            (int k, encode_bytes k (aFirstByteMark ! (k - 1)) nVal)) in
      if chW \<ge> 0xD800 \<and> chW \<le> 0xDBFF \<and> chSurrogatePairW \<noteq> 0 then
        if chSurrogatePairW < 0xDC00 \<or> chSurrogatePairW > 0xDFFF then (-1, [])
        else encode (push_bit 10 (ucast chW - 0xD800) + 0x10000 + (ucast chSurrogatePairW - 0xDC00))
      else encode (ucast chW))"

text \<open>A continuation byte, as the tests of the code have it.\<close>

definition cont :: "u8 \<Rightarrow> bool" where
  "cont c \<longleftrightarrow> c AND 0xC0 = 0x80"

definition dword :: "u8 \<Rightarrow> u32" where
  "dword c = ucast c"

text \<open>
  The result of \<open>Utf8_DecodeChar\<close>, and the two wide characters that it writes. The test for three
  bytes reads the character through the \<open>CHAR\<close> pointer.
\<close>

definition Utf8_DecodeChar :: "u8 list option \<Rightarrow> u64 \<Rightarrow> (int \<times> u16 \<times> u16) option" where
  "Utf8_DecodeChar szSrcA nSrcLen = (case szSrcA of
     None \<Rightarrow> Some (0, 0, 0)
   | Some sA \<Rightarrow>
       if nSrcLen = 0 then Some (0, 0, 0)
       else do {
         s0 \<leftarrow> byte_at sA 0;
         if s0 < 0x80 then Some (1, ucast s0, 0)
         else if s0 < 0xC2 \<or> s0 > 0xF8 then Some (-1, 0, 0)
         else if s0 \<le> 0xDF then
           if nSrcLen < 2 then Some (-1, 0, 0)
           else do {
             s1 \<leftarrow> byte_at sA 1;
             if \<not> cont s1 then Some (-1, 0, 0)
             else Some (2, ucast (push_bit 6 (dword s0) + dword s1 - 0x3080), 0)
           }
         else if char_value s0 \<le> 0xEF then
           if nSrcLen < 3 then Some (-1, 0, 0)
           else do {
             s1 \<leftarrow> byte_at sA 1;
             if \<not> cont s1 then Some (-1, 0, 0)
             else do {
               s2 \<leftarrow> byte_at sA 2;
               if \<not> cont s2 \<or> (s0 = 0xE0 \<and> s0 < 0xA0) \<or> (s0 = 0xED \<and> s0 \<ge> 0xA0) then Some (-1, 0, 0)
               else Some (3, ucast (push_bit 12 (dword s0) + push_bit 6 (dword s1) + dword s2 - 0xE2080), 0)
             }
           }
         else if nSrcLen < 4 then Some (-1, 0, 0)
         else do {
           s1 \<leftarrow> byte_at sA 1;
           if \<not> cont s1 then Some (-1, 0, 0)
           else do {
             s2 \<leftarrow> byte_at sA 2;
             if \<not> cont s2 then Some (-1, 0, 0)
             else do {
               s3 \<leftarrow> byte_at sA 3;
               if \<not> cont s3 \<or> (s0 = 0xF0 \<and> s1 < 0x90) \<or> (s0 = 0xF4 \<and> s1 \<ge> 0x90) then Some (-1, 0, 0)
               else (let dw = push_bit 18 (dword s0) + push_bit 12 (dword s1) + push_bit 6 (dword s2) + dword s3 - 0x3C82080 in
                 if dw \<le> 0xFFFF then Some (4, ucast dw, 0)
                 else (let dw = dw - 0x10000 in
                   Some (4, ucast (drop_bit 10 dw + 0xD800), ucast ((dw AND 0x3FF) + 0xDC00))))
             }
           }
         }
       })"

section \<open>Strings\<close>

fun encode_loop :: "u8 allocator \<Rightarrow> u8 cstr \<Rightarrow> u16 list \<Rightarrow> nat \<Rightarrow> (HRESULT \<times> u8 cstr) option" where
  "encode_loop malloc cStrDestA src 0 = Some (S_OK, cStrDestA)"
| "encode_loop malloc cStrDestA src (Suc n) = do {
     c0 \<leftarrow> byte_at src 0;
     if c0 \<ge> 0xD800 \<and> c0 \<le> 0xDBFF then
       if Suc n < 2 then Some (MX_E_InvalidData, cStrDestA)
       else do {
         c1 \<leftarrow> byte_at src 1;
         if c1 < 0xDC00 \<or> c1 > 0xDFFF then Some (MX_E_InvalidData, cStrDestA)
         else (let (k, chA) = Utf8_EncodeChar c0 c1 in
           if k < 0 then Some (MX_E_InvalidData, cStrDestA)
           else do {
             (ok, cStrDestA) \<leftarrow> CStringA_ConcatN malloc cStrDestA (Some chA) (of_int k);
             if \<not> ok then Some (E_OUTOFMEMORY, cStrDestA) else encode_loop malloc cStrDestA (drop 2 src) (n - 1)
           })
       }
     else (let (k, chA) = Utf8_EncodeChar c0 0 in
       if k < 0 then Some (MX_E_InvalidData, cStrDestA)
       else do {
         (ok, cStrDestA) \<leftarrow> CStringA_ConcatN malloc cStrDestA (Some chA) (of_int k);
         if \<not> ok then Some (E_OUTOFMEMORY, cStrDestA) else encode_loop malloc cStrDestA (drop 1 src) n
       })
   }"

definition Utf8_Encode :: "u8 allocator \<Rightarrow> u8 cstr \<Rightarrow> u16 list option \<Rightarrow> u64 \<Rightarrow> bool \<Rightarrow> (HRESULT \<times> u8 cstr) option" where
  "Utf8_Encode malloc cStrDestA szSrcW nSrcLen bAppend = do {
     let cStrDestA = (if \<not> bAppend then cs_Empty cStrDestA else cStrDestA);
     nSrcLen \<leftarrow> (if nSrcLen = -1 then zlength_opt szSrcW else Some nSrcLen);
     case szSrcW of
       None \<Rightarrow> if nSrcLen > 0 then Some (E_POINTER, cStrDestA) else Some (S_OK, cStrDestA)
     | Some src \<Rightarrow> encode_loop malloc cStrDestA src (unat nSrcLen)
   }"

text \<open>The loop of \<open>Utf8_Decode\<close>; each turn takes at least one byte, so the length is enough fuel.\<close>

function decode_loop :: "u16 allocator \<Rightarrow> u16 cstr \<Rightarrow> u8 list \<Rightarrow> u64 \<Rightarrow> (HRESULT \<times> u16 cstr) option" where
  "decode_loop malloc cStrDestW src nSrcLen =
     (if nSrcLen = 0 then Some (S_OK, cStrDestW)
      else case Utf8_DecodeChar (Some src) nSrcLen of
        None \<Rightarrow> None
      | Some (res, w0, w1) \<Rightarrow>
          if res \<le> 0 then Some (MX_E_InvalidData, cStrDestW)
          else (case CStringW_ConcatN malloc cStrDestW (Some [w0, w1]) (if w1 = 0 then 1 else 2) of
              None \<Rightarrow> None
            | Some (ok, cStrDestW) \<Rightarrow>
                if \<not> ok then Some (E_OUTOFMEMORY, cStrDestW)
                else decode_loop malloc cStrDestW (drop (nat res) src) (nSrcLen - of_int res)))"
  by pat_completeness auto

text \<open>Never more bytes are taken than there are.\<close>

lemma DecodeChar_le:
  assumes "Utf8_DecodeChar src n = Some (res, w0, w1)" and "res > 0"
  shows "unat (of_int res :: u64) = nat res" and "nat res \<le> unat n" and "0 < nat res" and "res \<in> {1, 2, 3, 4}"
proof -
  have "res \<in> {1, 2, 3, 4} \<and> nat res \<le> unat n"
    using assms by (auto simp: Utf8_DecodeChar_def bind_eq_Some_conv word_less_nat_alt word_le_nat_alt not_less Let_def
        unat_gt_0 Suc_le_eq split: option.splits if_splits)
  then show "unat (of_int res :: u64) = nat res" "nat res \<le> unat n" "0 < nat res" "res \<in> {1, 2, 3, 4}"
    by auto
qed

termination decode_loop
proof (relation "measure (\<lambda>(m, s, src, n). unat n)", goal_cases)
  case (2 malloc s src n x1 res y w0 w1 x2 ok s')
  then have "unat (of_int res :: u64) = nat res" "nat res \<le> unat n" "0 < nat res"
    using DecodeChar_le [of "Some src" n res w0 w1] by auto
  then show ?case
    by (simp add: unat_sub_le word_le_nat_alt)
qed simp

declare decode_loop.simps [simp del]

definition Utf8_Decode :: "u16 allocator \<Rightarrow> u16 cstr \<Rightarrow> u8 list option \<Rightarrow> u64 \<Rightarrow> bool \<Rightarrow> (HRESULT \<times> u16 cstr) option" where
  "Utf8_Decode malloc cStrDestW szSrcA nSrcLen bAppend = do {
     let cStrDestW = (if \<not> bAppend then cs_Empty cStrDestW else cStrDestW);
     nSrcLen \<leftarrow> (if nSrcLen = -1 then zlength_opt szSrcA else Some nSrcLen);
     case szSrcA of
       None \<Rightarrow> if nSrcLen > 0 then Some (E_POINTER, cStrDestW) else Some (S_OK, cStrDestW)
     | Some src \<Rightarrow> decode_loop malloc cStrDestW src nSrcLen
   }"

section \<open>Length\<close>

text \<open>The loop of \<open>Utf8_StrLen\<close>; every test reads through the \<open>CHAR\<close> pointer.\<close>

function strlen_loop :: "u8 list \<Rightarrow> u64 \<Rightarrow> u64 option" where
  "strlen_loop [] nLen = None"
| "strlen_loop (s0 # s) nLen =
     (if s0 = 0 then Some nLen
      else if char_value s0 < 0x80 then strlen_loop s (nLen + 1)
      else if char_value s0 < 0xC2 \<or> char_value s0 > 0xF8 then Some 0
      else if char_value s0 \<le> 0xDF then do {
        s1 \<leftarrow> byte_at s 0;
        if s1 = 0 then Some 0 else strlen_loop (drop 1 s) (nLen + 1)
      }
      else if char_value s0 \<le> 0xEF then do {
        s1 \<leftarrow> byte_at s 0;
        if s1 = 0 then Some 0
        else do {
          s2 \<leftarrow> byte_at s 1;
          if s2 = 0 then Some 0 else strlen_loop (drop 2 s) (nLen + 1)
        }
      }
      else do {
        s1 \<leftarrow> byte_at s 0;
        if s1 = 0 then Some 0
        else do {
          s2 \<leftarrow> byte_at s 1;
          if s2 = 0 then Some 0
          else do {
            s3 \<leftarrow> byte_at s 2;
            if s3 = 0 then Some 0 else strlen_loop (drop 3 s) (nLen + 2)
          }
        }
      })"
  by pat_completeness auto
termination
  by (relation "measure (\<lambda>(s, n). length s)") auto

declare strlen_loop.simps(2) [simp del]

definition Utf8_StrLen :: "u8 list option \<Rightarrow> u64 option" where
  "Utf8_StrLen szSrcA = (case szSrcA of None \<Rightarrow> Some 0 | Some s \<Rightarrow> strlen_loop s 0)"

section \<open>Comparison with a wide string\<close>

text \<open>\<open>wcsncmp\<close> and \<open>_wcsnicmp\<close> on memory: they stop at the first difference or at a common zero.\<close>

fun mem_ncmp :: "(u16 \<Rightarrow> u16) \<Rightarrow> u16 list \<Rightarrow> u16 list \<Rightarrow> nat \<Rightarrow> int option" where
  "mem_ncmp f xs ys 0 = Some 0"
| "mem_ncmp f (x # xs) (y # ys) (Suc n) =
     (if f x = f y then if x = 0 then Some 0 else mem_ncmp f xs ys n
      else Some (if f x < f y then -1 else 1))"
| "mem_ncmp f xs ys (Suc n) = None"

text \<open>
  The inner loop of \<open>Utf8_StrNCompareW\<close> fills the buffer of 64 wide characters. The result \<open>Some None\<close>
  is a character that cannot be decoded.
\<close>

function fill_buf :: "u8 list \<Rightarrow> u64 \<Rightarrow> u16 list \<Rightarrow> (u16 list \<times> u8 list) option option" where
  "fill_buf src nLen buf =
     (if of_nat (length buf) < nLen \<and> length buf < 63 then
        case Utf8_DecodeChar (Some src) (-1) of
          None \<Rightarrow> None
        | Some (res, w0, w1) \<Rightarrow>
            if res \<le> 0 then Some None
            else fill_buf (drop (nat res) src) nLen (buf @ (if w1 = 0 then [w0] else [w0, w1]))
      else Some (Some (buf, src)))"
  by pat_completeness auto
termination
  by (relation "measure (\<lambda>(src, n, buf). 63 - length buf)") auto

declare fill_buf.simps [simp del]

text \<open>
  The outer loop; it takes at least one character in each turn, so the case of an empty buffer does
  not occur and is there for the recursion only.
\<close>

function ncompare_loop :: "u8 list \<Rightarrow> u16 list \<Rightarrow> u64 \<Rightarrow> bool \<Rightarrow> int option" where
  "ncompare_loop src w nLen ci =
     (if nLen = 0 then Some 0
      else case fill_buf src nLen [] of
        None \<Rightarrow> None
      | Some None \<Rightarrow> Some 1
      | Some (Some (buf, src)) \<Rightarrow>
          (let nTempBufLen = (if of_nat (length buf) > nLen then nLen else of_nat (length buf)) in
           if nTempBufLen = 0 then None
           else case mem_ncmp (if ci then to_lower else id) buf w (unat nTempBufLen) of
             None \<Rightarrow> None
           | Some res \<Rightarrow>
               if res = 0 then ncompare_loop src (drop (unat nTempBufLen) w) (nLen - nTempBufLen) ci else Some res))"
  by pat_completeness auto
termination
proof (relation "measure (\<lambda>(src, w, n, ci). unat n)", goal_cases)
  case (2 src w nLen ci x2 x2a buf s m res)
  then have "m \<le> nLen" "0 < unat m"
    by (auto simp: unat_gt_0 split: if_splits)
  then show ?case
    by (simp add: unat_sub_le word_le_nat_alt)
qed simp

declare ncompare_loop.simps [simp del]

definition Utf8_StrNCompareW :: "u8 list option \<Rightarrow> u16 list option \<Rightarrow> u64 \<Rightarrow> bool \<Rightarrow> int option" where
  "Utf8_StrNCompareW szSrcUtf8 szSrcW nLen bCaseInsensitive =
     (if nLen = 0 \<or> szSrcUtf8 = None \<and> szSrcW = None then Some 0
      else case szSrcUtf8 of
        None \<Rightarrow> Some (-1)
      | Some src \<Rightarrow> (case szSrcW of None \<Rightarrow> Some 1 | Some w \<Rightarrow> ncompare_loop src w nLen bCaseInsensitive))"

definition Utf8_StrCompareW :: "u8 list option \<Rightarrow> u16 list option \<Rightarrow> bool \<Rightarrow> int option" where
  "Utf8_StrCompareW szSrcUtf8 szSrcW bCaseInsensitive = do {
     n0 \<leftarrow> Utf8_StrLen szSrcUtf8;
     n1 \<leftarrow> zlength_opt szSrcW;
     res \<leftarrow> Utf8_StrNCompareW szSrcUtf8 szSrcW (min_length n0 n1) bCaseInsensitive;
     Some (if res = 0 then if n0 < n1 then -1 else if n0 > n1 then 1 else res else res)
   }"

end
