(* ===== verification/Utf8_Props.thy ===== *)
theory Utf8_Props
  imports Utf8 CString_Props
begin

unbundle bit_operations_syntax

text \<open>
  The conversions between UTF-8 and UTF-16 against a reference definition of UTF-8 by the numbers of
  the code points.
\<close>

section \<open>Reference definitions\<close>

text \<open>The bytes of a code point (RFC 3629).\<close>

definition utf8_char :: "nat \<Rightarrow> u8 list" where
  "utf8_char cp =
     (if cp < 0x80 then [of_nat cp]
      else if cp < 0x800 then [of_nat (0xC0 + cp div 64), of_nat (0x80 + cp mod 64)]
      else if cp < 0x10000 then [of_nat (0xE0 + cp div 4096), of_nat (0x80 + cp div 64 mod 64), of_nat (0x80 + cp mod 64)]
      else [of_nat (0xF0 + cp div 262144), of_nat (0x80 + cp div 4096 mod 64), of_nat (0x80 + cp div 64 mod 64),
            of_nat (0x80 + cp mod 64)])"

definition utf8 :: "nat list \<Rightarrow> u8 list" where
  "utf8 cps = concat (map utf8_char cps)"

text \<open>The code points of a UTF-16 string; none when a high surrogate has no low one behind it.\<close>

definition high :: "u16 \<Rightarrow> bool" where
  "high c \<longleftrightarrow> 0xD800 \<le> unat c \<and> unat c \<le> 0xDBFF"

definition low :: "u16 \<Rightarrow> bool" where
  "low c \<longleftrightarrow> 0xDC00 \<le> unat c \<and> unat c \<le> 0xDFFF"

fun code_points :: "u16 list \<Rightarrow> nat list option" where
  "code_points [] = Some []"
| "code_points [c] = (if high c then None else Some [unat c])"
| "code_points (c # d # cs) =
     (if high c then
        if low d then map_option (Cons (0x10000 + (unat c - 0xD800) * 1024 + (unat d - 0xDC00))) (code_points cs)
        else None
      else map_option (Cons (unat c)) (code_points (d # cs)))"

section \<open>Encoding a character\<close>

lemma or_high:
  assumes "take_bit k x = x" and "m AND mask k = 0"
  shows "x OR m = x + (m :: 'a::len word)"
proof -
  have "x AND m = 0"
  proof (rule bit_word_eqI)
    fix n
    have "bit x n \<Longrightarrow> n < k" for n
      using assms(1) by (metis bit_take_bit_iff)
    moreover have "bit m n \<Longrightarrow> n < LENGTH('a) \<Longrightarrow> \<not> n < k" for n
      using arg_cong [OF assms(2), of "\<lambda>x. bit x n"] by (simp add: bit_simps)
    ultimately show "n < LENGTH('a) \<Longrightarrow> bit (x AND m) n = bit 0 n"
      by (auto simp: bit_simps)
  qed
  then show ?thesis
    by (simp add: disjunctive_add_eq_or)
qed

lemma take_bit_less: "unat x < 2 ^ k \<Longrightarrow> take_bit k x = (x :: 'a::len word)"
  by (simp add: word_unat_eq_iff unsigned_take_bit_eq take_bit_nat_eq_self)

lemma or_mark:
  fixes x :: u64
  shows "unat x < 32 \<Longrightarrow> unat (x OR 0xC0) = 0xC0 + unat x" "unat x < 16 \<Longrightarrow> unat (x OR 0xE0) = 0xE0 + unat x"
    "unat x < 8 \<Longrightarrow> unat (x OR 0xF0) = 0xF0 + unat x"
proof -
  have m: "0xC0 AND mask 5 = (0 :: u64)" "0xE0 AND mask 4 = (0 :: u64)" "0xF0 AND mask 3 = (0 :: u64)"
    by (simp_all add: mask_eq_exp_minus_1)
  show "unat x < 32 \<Longrightarrow> unat (x OR 0xC0) = 0xC0 + unat x"
    using or_high [of 5 x "0xC0"] m(1) by (simp add: take_bit_less unat_add_small)
  show "unat x < 16 \<Longrightarrow> unat (x OR 0xE0) = 0xE0 + unat x"
    using or_high [of 4 x "0xE0"] m(2) by (simp add: take_bit_less unat_add_small)
  show "unat x < 8 \<Longrightarrow> unat (x OR 0xF0) = 0xF0 + unat x"
    using or_high [of 3 x "0xF0"] m(3) by (simp add: take_bit_less unat_add_small)
qed

lemma cont_byte: "unat ((x OR 0x80) AND 0xBF :: u64) = 0x80 + unat x mod 64"
proof -
  have d: "(x OR b) AND (m OR b) = (x AND m) OR b" for b m :: u64
    by (rule bit_word_eqI) (auto simp: bit_simps)
  have n: "0xBF = mask 6 OR (0x80 :: u64)" "0x80 AND mask 6 = (0 :: u64)"
    by (simp_all add: mask_eq_exp_minus_1)
  have u: "unat (x AND mask 6) = unat x mod 64"
    by (simp add: and_mask_nat del: take_bit_eq_mask)
  then have "take_bit 6 (x AND mask 6) = x AND mask 6"
    by (intro take_bit_less) (simp only:, simp)
  then have "(x OR 0x80) AND 0xBF = (x AND mask 6) + 0x80"
    unfolding n(1) d using or_high [of 6 "x AND mask 6" "0x80"] n(2) by simp
  then show ?thesis
    using u by (simp add: unat_add_small)
qed

lemma ucast_of_unat: "unat x = n \<Longrightarrow> (ucast (x :: u64) :: u8) = of_nat n"
  by (auto simp: word_unat_eq_iff unat_of_nat unsigned_ucast_eq take_bit_eq_mod)


lemma drop_bit_6: "unat (drop_bit 6 x :: u64) = unat x div 64"
  using drop_bit_nat [of 6 x] by simp

lemma encode_bytes_num:
  "encode_bytes 1 m x = [ucast (x OR m)]"
  "encode_bytes 2 m x = [ucast (drop_bit 6 x OR m), ucast ((x OR 0x80) AND 0xBF)]"
  "encode_bytes 3 m x = [ucast (drop_bit 6 (drop_bit 6 x) OR m), ucast ((drop_bit 6 x OR 0x80) AND 0xBF), ucast ((x OR 0x80) AND 0xBF)]"
  "encode_bytes 4 m x = [ucast (drop_bit 6 (drop_bit 6 (drop_bit 6 x)) OR m), ucast ((drop_bit 6 (drop_bit 6 x) OR 0x80) AND 0xBF),
     ucast ((drop_bit 6 x OR 0x80) AND 0xBF), ucast ((x OR 0x80) AND 0xBF)]"
proof -
  have n: "2 = Suc (Suc 0)" "3 = Suc (Suc (Suc 0))" "4 = Suc (Suc (Suc (Suc 0)))"
    by simp_all
  show "encode_bytes 1 m x = [ucast (x OR m)]"
    by simp
  show "encode_bytes 2 m x = [ucast (drop_bit 6 x OR m), ucast ((x OR 0x80) AND 0xBF)]"
    unfolding n(1) encode_bytes.simps by simp
  show "encode_bytes 3 m x = [ucast (drop_bit 6 (drop_bit 6 x) OR m), ucast ((drop_bit 6 x OR 0x80) AND 0xBF), ucast ((x OR 0x80) AND 0xBF)]"
    unfolding n(2) encode_bytes.simps by simp
  show "encode_bytes 4 m x = [ucast (drop_bit 6 (drop_bit 6 (drop_bit 6 x)) OR m), ucast ((drop_bit 6 (drop_bit 6 x) OR 0x80) AND 0xBF),
     ucast ((drop_bit 6 x OR 0x80) AND 0xBF), ucast ((x OR 0x80) AND 0xBF)]"
    unfolding n(3) encode_bytes.simps by simp
qed

lemma unat_ucast_16: "unat (ucast (c :: u16) :: u64) = unat c" "unat c < 0x10000"
proof -
  show c: "unat c < 0x10000"
    using unsigned_less [of c, where ?'a = nat] by simp
  show "unat (ucast c :: u64) = unat c"
    unfolding unsigned_ucast_eq by (rule take_bit_nat_eq_self) (use c in simp)
qed

lemma encode_bytes_ref:
  "unat x < 0x80 \<Longrightarrow> encode_bytes 1 0 x = utf8_char (unat x)"
  "0x80 \<le> unat x \<Longrightarrow> unat x < 0x800 \<Longrightarrow> encode_bytes 2 0xC0 x = utf8_char (unat x)"
  "0x800 \<le> unat x \<Longrightarrow> unat x < 0x10000 \<Longrightarrow> encode_bytes 3 0xE0 x = utf8_char (unat x)"
  "0x10000 \<le> unat x \<Longrightarrow> unat x < 0x110000 \<Longrightarrow> encode_bytes 4 0xF0 x = utf8_char (unat x)"
proof -
  have c: "ucast ((y OR 0x80) AND 0xBF :: u64) = (of_nat (0x80 + unat y mod 64) :: u8)" for y
    by (rule ucast_of_unat) (rule cont_byte)
  have d2: "unat (drop_bit 6 (drop_bit 6 x)) = unat x div 4096"
    by (simp add: drop_bit_6 div_mult2_eq [symmetric] del: drop_bit_drop_bit)
  have d3: "unat (drop_bit 6 (drop_bit 6 (drop_bit 6 x))) = unat x div 262144"
    by (simp add: drop_bit_6 div_mult2_eq [symmetric] del: drop_bit_drop_bit)
  show "unat x < 0x80 \<Longrightarrow> encode_bytes 1 0 x = utf8_char (unat x)"
    using ucast_of_unat [of x "unat x"] by (simp add: utf8_char_def)
  show "encode_bytes 2 0xC0 x = utf8_char (unat x)" if "0x80 \<le> unat x" "unat x < 0x800"
  proof -
    have "ucast (drop_bit 6 x OR 0xC0) = (of_nat (0xC0 + unat x div 64) :: u8)"
      by (rule ucast_of_unat) (use or_mark(1) [of "drop_bit 6 x"] that in \<open>simp add: drop_bit_6\<close>)
    then show ?thesis
      using that c by (simp add: utf8_char_def encode_bytes_num)
  qed
  show "encode_bytes 3 0xE0 x = utf8_char (unat x)" if "0x800 \<le> unat x" "unat x < 0x10000"
  proof -
    have "ucast (drop_bit 6 (drop_bit 6 x) OR 0xE0) = (of_nat (0xE0 + unat x div 4096) :: u8)"
      by (rule ucast_of_unat) (use or_mark(2) [of "drop_bit 6 (drop_bit 6 x)"] that d2 in \<open>simp del: drop_bit_drop_bit\<close>)
    then show ?thesis
      using that c by (simp add: utf8_char_def encode_bytes_num drop_bit_6 del: drop_bit_drop_bit)
  qed
  show "encode_bytes 4 0xF0 x = utf8_char (unat x)" if "0x10000 \<le> unat x" "unat x < 0x110000"
  proof -
    have "ucast (drop_bit 6 (drop_bit 6 (drop_bit 6 x)) OR 0xF0) = (of_nat (0xF0 + unat x div 262144) :: u8)"
      by (rule ucast_of_unat)
        (use or_mark(3) [of "drop_bit 6 (drop_bit 6 (drop_bit 6 x))"] that d3 in \<open>simp del: drop_bit_drop_bit\<close>)
    then show ?thesis
      using that c d2 by (simp add: utf8_char_def encode_bytes_num drop_bit_6 del: drop_bit_drop_bit)
  qed
qed

lemma length_utf8_char: "length (utf8_char cp) = (if cp < 0x80 then 1 else if cp < 0x800 then 2 else if cp < 0x10000 then 3 else 4)"
  by (simp add: utf8_char_def)

text \<open>One word, and a pair.\<close>

definition encode_number :: "u64 \<Rightarrow> int \<times> u8 list" where
  "encode_number nVal =
     (let k = (if nVal < 0x80 then 1 else if nVal < 0x800 then 2 else if nVal < 0x10000 then 3 else 4) in
      (int k, encode_bytes k (aFirstByteMark ! (k - 1)) nVal))"

lemma encode_number_ref: "unat x < 0x110000 \<Longrightarrow> encode_number x = (int (length (utf8_char (unat x))), utf8_char (unat x))"
proof -
  assume x: "unat x < 0x110000"
  have l: "x < 0x80 \<longleftrightarrow> unat x < 0x80" "x < 0x800 \<longleftrightarrow> unat x < 0x800" "x < 0x10000 \<longleftrightarrow> unat x < 0x10000"
    by (simp_all add: word_less_nat_alt)
  consider "unat x < 0x80" | "0x80 \<le> unat x" "unat x < 0x800" | "0x800 \<le> unat x" "unat x < 0x10000" | "0x10000 \<le> unat x"
    by linarith
  then show ?thesis
  proof cases
    case 1
    then show ?thesis
      using encode_bytes_ref(1) [of x] by (simp add: encode_number_def l length_utf8_char aFirstByteMark_def)
  next
    case 2
    then show ?thesis
      using encode_bytes_ref(2) [of x] by (simp add: encode_number_def l length_utf8_char aFirstByteMark_def)
  next
    case 3
    then show ?thesis
      using encode_bytes_ref(3) [of x] by (simp add: encode_number_def l length_utf8_char aFirstByteMark_def)
  next
    case 4
    then show ?thesis
      using encode_bytes_ref(4) [of x] x by (simp add: encode_number_def l length_utf8_char aFirstByteMark_def)
  qed
qed

lemma EncodeChar_single: "Utf8_EncodeChar c 0 = (int (length (utf8_char (unat c))), utf8_char (unat c))"
proof -
  note u = unat_ucast_16 [of c]
  have "Utf8_EncodeChar c 0 = encode_number (ucast c)"
    by (simp add: Utf8_EncodeChar_def encode_number_def)
  then show ?thesis
    using encode_number_ref [of "ucast c"] u by simp
qed

lemma EncodeChar_pair:
  assumes "high c" and "low d"
  shows "Utf8_EncodeChar c d = (int (length (utf8_char (0x10000 + (unat c - 0xD800) * 1024 + (unat d - 0xDC00)))),
      utf8_char (0x10000 + (unat c - 0xD800) * 1024 + (unat d - 0xDC00)))"
proof -
  have u: "unat (ucast c :: u64) = unat c" "unat (ucast d :: u64) = unat d"
    by (simp_all only: unat_ucast_16)
  let ?x = "push_bit 10 (ucast c - 0xD800) + 0x10000 + (ucast d - 0xDC00) :: u64"
  have s: "unat (ucast c - 0xD800 :: u64) = unat c - 0xD800" "unat (ucast d - 0xDC00 :: u64) = unat d - 0xDC00"
    using assms u by (simp_all add: unat_sub_le word_le_nat_alt high_def low_def)
  have p: "unat (push_bit 10 (ucast c - 0xD800 :: u64)) = (unat c - 0xD800) * 1024"
    using assms(1) s(1) push_bit_nat [of "ucast c - 0xD800 :: u64" 10] by (simp add: high_def less_imp_diff_less le_less_trans)
  have x: "unat ?x = 0x10000 + (unat c - 0xD800) * 1024 + (unat d - 0xDC00)"
  proof -
    have "unat (A + 0x10000 + B) = 0x10000 + unat A + unat B" if "unat A < 2 ^ 32" "unat B < 2 ^ 32" for A B :: u64
      using that by (simp add: unat_add_small)
    moreover have "unat (push_bit 10 (ucast c - 0xD800 :: u64)) < 2 ^ 32" "unat (ucast d - 0xDC00 :: u64) < 2 ^ 32"
      using assms unfolding p s by (auto simp: high_def low_def)
    ultimately show ?thesis
      by (simp only: p s)
  qed
  have "unat c - 0xD800 \<le> 1023" "unat d - 0xDC00 \<le> 1023"
    using assms by (auto simp: high_def low_def)
  then have b: "0x10000 + (unat c - 0xD800) * 1024 + (unat d - 0xDC00) < (0x110000 :: nat)"
    by linarith
  have "c \<ge> 0xD800" "c \<le> 0xDBFF" "\<not> d < 0xDC00" "\<not> d > 0xDFFF" "d \<noteq> 0"
    using assms by (auto simp: high_def low_def word_le_nat_alt word_less_nat_alt)
  then have "Utf8_EncodeChar c d = encode_number ?x"
    by (simp add: Utf8_EncodeChar_def encode_number_def)
  then show ?thesis
    using encode_number_ref [of ?x] x b by simp
qed

section \<open>Encoding a string\<close>

lemma ConcatN_bytes:
  assumes "cs_rep s xs" and "cs_fair 1 malloc" and "length bs \<le> 4"
  shows "(\<exists>s'. CStringA_ConcatN malloc s (Some bs) (of_int (int (length bs))) = Some (True, s') \<and> cs_rep s' (xs @ bs)) \<or>
    CStringA_ConcatN malloc s (Some bs) (of_int (int (length bs))) = Some (False, s) \<and>
      \<not> roomy malloc (2 * (length xs + length bs + 257))"
proof -
  have "unat (of_int (int (length bs)) :: u64) = length bs"
    using assms(3) by (simp add: unat_of_nat)
  then show ?thesis
    using cs_ConcatN_rep [OF assms(1,2), of "of_int (int (length bs))" bs] assms(3) by (auto simp: CStringA_ConcatN_def)
qed

lemma high_word: "c \<ge> 0xD800 \<and> c \<le> 0xDBFF \<longleftrightarrow> high c"
  by (simp add: high_def word_le_nat_alt)

lemma low_word: "d < 0xDC00 \<or> d > 0xDFFF \<longleftrightarrow> \<not> low d"
  by (auto simp: low_def word_less_nat_alt)

text \<open>What a loop leaves that has to append at most \<open>k\<close> bytes.\<close>

definition encode_result :: "u8 allocator \<Rightarrow> u8 list \<Rightarrow> nat \<Rightarrow> nat list option \<Rightarrow> HRESULT \<Rightarrow> u8 cstr \<Rightarrow> bool" where
  "encode_result malloc xs k cps h s \<longleftrightarrow> (\<exists>ys. cs_rep s ys) \<and>
     (h = E_OUTOFMEMORY \<and> \<not> roomy malloc (2 * (length xs + k + 257)) \<or>
      (case cps of None \<Rightarrow> h = MX_E_InvalidData | Some cps \<Rightarrow> h = S_OK \<and> cs_rep s (xs @ utf8 cps)))"

lemma encode_result_Cons: "encode_result malloc (xs @ utf8_char cp) j cps h s \<Longrightarrow> length (utf8_char cp) + j \<le> k \<Longrightarrow>
    encode_result malloc xs k (map_option (Cons cp) cps) h s"
  using roomy_mono [of malloc "2 * (length xs + k + 257)" "2 * (length (xs @ utf8_char cp) + j + 257)"]
  by (auto simp: encode_result_def utf8_def split: option.splits)

lemma encode_result_full: "\<not> roomy malloc (2 * (length xs + n + 257)) \<Longrightarrow> n \<le> k \<Longrightarrow> cs_rep s ys \<Longrightarrow>
    encode_result malloc xs k cps E_OUTOFMEMORY s"
  using roomy_mono [of malloc "2 * (length xs + k + 257)" "2 * (length xs + n + 257)"] by (auto simp: encode_result_def)

lemma encode_loop_rep:
  assumes "cs_fair 1 malloc"
  shows "cs_rep s xs \<Longrightarrow> \<exists>h s'. encode_loop malloc s (ws @ rest) (length ws) = Some (h, s') \<and>
    encode_result malloc xs (3 * length ws) (code_points ws) h s'"
proof (induction ws arbitrary: s xs rule: code_points.induct)
  case 1
  then show ?case
    by (auto simp: encode_result_def utf8_def)
next
  case (2 c)
  show ?case
  proof (cases "high c")
    case True
    then show ?thesis
      using 2 by (auto simp: byte_at_def high_word encode_result_def)
  next
    case False
    have l: "length (utf8_char (unat c)) \<le> 4" "length (utf8_char (unat c)) \<le> 3"
      using unat_ucast_16(2) [of c] by (simp_all add: length_utf8_char)
    show ?thesis
      using ConcatN_bytes [OF 2 assms l(1)]
    proof
      assume "CStringA_ConcatN malloc s (Some (utf8_char (unat c))) (of_int (int (length (utf8_char (unat c))))) = Some (False, s) \<and>
        \<not> roomy malloc (2 * (length xs + length (utf8_char (unat c)) + 257))"
      then show ?thesis
        using False 2 l(2) encode_result_full [of malloc xs "length (utf8_char (unat c))" 3 s xs "Some [unat c]"]
        by (simp add: byte_at_def high_word EncodeChar_single)
    qed (use False in \<open>auto simp: byte_at_def high_word EncodeChar_single encode_result_def utf8_def\<close>)
  qed
next
  case (3 c d cs)
  have b: "byte_at ((c # d # cs) @ rest) 0 = Some c" "byte_at ((c # d # cs) @ rest) 1 = Some d"
    by (simp_all add: byte_at_def)
  show ?case
  proof (cases "high c")
    case False
    have l: "length (utf8_char (unat c)) \<le> 4" "length (utf8_char (unat c)) \<le> 3"
      using unat_ucast_16(2) [of c] by (simp_all add: length_utf8_char)
    from ConcatN_bytes [OF 3(3) assms l(1)] show ?thesis
    proof
      assume "\<exists>s'. CStringA_ConcatN malloc s (Some (utf8_char (unat c))) (of_int (int (length (utf8_char (unat c))))) = Some (True, s') \<and>
        cs_rep s' (xs @ utf8_char (unat c))"
      then obtain s' where s': "CStringA_ConcatN malloc s (Some (utf8_char (unat c))) (of_int (int (length (utf8_char (unat c))))) = Some (True, s')"
        "cs_rep s' (xs @ utf8_char (unat c))"
        by blast
      obtain h s2 where "encode_loop malloc s' ((d # cs) @ rest) (length (d # cs)) = Some (h, s2)"
        "encode_result malloc (xs @ utf8_char (unat c)) (3 * length (d # cs)) (code_points (d # cs)) h s2"
        using 3(2) [OF False s'(2)] by blast
      then show ?thesis
        using False s'(1) b l(2) by (auto simp: high_word EncodeChar_single intro: encode_result_Cons)
    next
      assume "CStringA_ConcatN malloc s (Some (utf8_char (unat c))) (of_int (int (length (utf8_char (unat c))))) = Some (False, s) \<and>
        \<not> roomy malloc (2 * (length xs + length (utf8_char (unat c)) + 257))"
      then show ?thesis
        using False b 3(3) l(2) encode_result_full by (auto simp: high_word EncodeChar_single)
    qed
  next
    case True
    show ?thesis
    proof (cases "low d")
      case False
      then show ?thesis
        using True b 3(3) by (auto simp: high_word low_word encode_result_def)
    next
      case lo: True
      let ?cp = "0x10000 + (unat c - 0xD800) * 1024 + (unat d - 0xDC00)"
      have l: "length (utf8_char ?cp) \<le> 4"
        by (simp add: length_utf8_char)
      note e = EncodeChar_pair [OF True lo]
      from ConcatN_bytes [OF 3(3) assms l] show ?thesis
      proof
        assume "\<exists>s'. CStringA_ConcatN malloc s (Some (utf8_char ?cp)) (of_int (int (length (utf8_char ?cp)))) = Some (True, s') \<and>
          cs_rep s' (xs @ utf8_char ?cp)"
        then obtain s' where s': "CStringA_ConcatN malloc s (Some (utf8_char ?cp)) (of_int (int (length (utf8_char ?cp)))) = Some (True, s')"
          "cs_rep s' (xs @ utf8_char ?cp)"
          by blast
        obtain h s2 where "encode_loop malloc s' (cs @ rest) (length cs) = Some (h, s2)"
          "encode_result malloc (xs @ utf8_char ?cp) (3 * length cs) (code_points cs) h s2"
          using 3(1) [OF True lo s'(2)] by blast
        then show ?thesis
          using True lo s'(1) b e l by (auto simp: high_word low_word intro: encode_result_Cons)
      next
        assume "CStringA_ConcatN malloc s (Some (utf8_char ?cp)) (of_int (int (length (utf8_char ?cp)))) = Some (False, s) \<and>
          \<not> roomy malloc (2 * (length xs + length (utf8_char ?cp) + 257))"
        then show ?thesis
          using True lo b e 3(3) l encode_result_full by (auto simp: high_word low_word)
      qed
    qed
  qed
qed

section \<open>Decoding a character\<close>

lemma char_value_small: "char_value c \<le> 0xEF"
  using sint_lt [of c] by (simp add: char_value_def)

lemma unat_of_byte: "n < 256 \<Longrightarrow> unat (of_nat n :: u8) = n"
  by (simp add: unat_of_nat)

lemma cont_of_nat: "b < 64 \<Longrightarrow> cont (of_nat (0x80 + b))"
proof -
  assume b: "b < 64"
  let ?c = "of_nat (0x80 + b) :: u8"
  have u: "unat ?c = 0x80 + b"
    using b by (intro unat_of_byte) simp
  have m: "0xC0 = NOT (mask 6 :: u8)"
    by (simp add: mask_eq_exp_minus_1)
  have "?c AND NOT (mask 6) = push_bit 6 (drop_bit 6 ?c)"
    by (rule bit_word_eqI) (auto simp: bit_simps)
  moreover have d: "unat (drop_bit 6 ?c) = 2"
    unfolding drop_bit_nat u using b by simp
  moreover have "unat (push_bit 6 (drop_bit 6 ?c)) = unat (drop_bit 6 ?c) * 2 ^ 6"
    by (rule push_bit_nat) (simp only: d, simp)
  ultimately have "unat (?c AND 0xC0) = 128"
    unfolding m by simp
  then show ?thesis
    by (simp add: cont_def word_unat_eq_iff)
qed

lemma dword_of_nat: "n < 256 \<Longrightarrow> dword (of_nat n) = of_nat n"
proof -
  assume "n < 256"
  then have "unat (of_nat n :: u8) = n" "n < 2 ^ 32"
    by (simp_all add: unat_of_byte)
  then show ?thesis
    by (simp add: dword_def word_unat_eq_iff unsigned_ucast_eq unat_of_nat take_bit_nat_eq_self)
qed

lemma ucast_of_nat_16: "(ucast (of_nat n :: u32) :: u16) = of_nat n"
  by (simp add: word_unat_eq_iff unsigned_ucast_eq unat_of_nat take_bit_eq_mod mod_mod_cancel)

lemma ucast_byte_16: "n < 256 \<Longrightarrow> (ucast (of_nat n :: u8) :: u16) = of_nat n"
  by (simp add: word_unat_eq_iff unsigned_ucast_eq unat_of_nat take_bit_eq_mod)

lemma decode_1: "cp < 0x80 \<Longrightarrow> n \<noteq> 0 \<Longrightarrow> Utf8_DecodeChar (Some (utf8_char cp @ rest)) n = Some (1, of_nat cp, 0)"
  by (simp add: Utf8_DecodeChar_def utf8_char_def byte_at_def word_less_nat_alt unat_of_byte ucast_byte_16)

lemma decode_2:
  assumes "0x80 \<le> cp" and "cp < 0x800" and "2 \<le> unat n"
  shows "Utf8_DecodeChar (Some (utf8_char cp @ rest)) n = Some (2, of_nat cp, 0)"
proof -
  define a b where ab: "a = cp div 64" "b = cp mod 64"
  have cp: "cp = a * 64 + b"
    by (simp add: ab)
  have l: "2 \<le> a" "a < 32" "b < 64"
    using assms by (simp_all add: ab)
  let ?s0 = "of_nat (0xC0 + a) :: u8" and ?s1 = "of_nat (0x80 + b) :: u8"
  have u0: "unat ?s0 = 0xC0 + a"
    using l by (intro unat_of_byte) simp
  have v: "push_bit 6 (dword ?s0) + dword ?s1 - 0x3080 = of_nat cp"
    using l by (simp add: dword_of_nat push_bit_eq_mult cp del: of_nat_add of_nat_mult) (simp add: algebra_simps)
  have c: "cont ?s1"
    using l(3) by (rule cont_of_nat)
  have n: "n \<noteq> 0" "\<not> n < 2"
    using assms(3) by (auto simp: word_less_nat_alt)
  have t: "\<not> ?s0 < 0x80" "\<not> ?s0 < 0xC2" "\<not> ?s0 > 0xF8" "?s0 \<le> 0xDF"
    using l by (simp_all only: word_less_nat_alt word_le_nat_alt u0) simp_all
  have e: "utf8_char cp = [?s0, ?s1]"
    using assms by (simp add: utf8_char_def ab)
  show ?thesis
    unfolding Utf8_DecodeChar_def e using n t c v by (simp add: byte_at_def ucast_of_nat_16 del: of_nat_add)
qed

lemma decode_3:
  assumes "0x800 \<le> cp" and "cp < 0x10000" and "3 \<le> unat n"
  shows "Utf8_DecodeChar (Some (utf8_char cp @ rest)) n =
    Some (if 0xD000 \<le> cp \<and> cp < 0xE000 then (-1, 0, 0) else (3, of_nat cp, 0))"
proof -
  define a b c where abc: "a = cp div 4096" "b = cp div 64 mod 64" "c = cp mod 64"
  have "cp div 64 = a * 64 + b"
    using div_mult2_eq [of cp 64 64] by (simp add: abc)
  moreover have "cp = cp div 64 * 64 + c"
    by (simp add: abc)
  ultimately have cp: "cp = a * 4096 + b * 64 + c"
    by linarith
  have l: "a < 16" "b < 64" "c < 64"
    using assms by (simp_all add: abc)
  let ?s0 = "of_nat (0xE0 + a) :: u8" and ?s1 = "of_nat (0x80 + b) :: u8" and ?s2 = "of_nat (0x80 + c) :: u8"
  have u0: "unat ?s0 = 0xE0 + a"
    using l by (intro unat_of_byte) simp
  have v: "push_bit 12 (dword ?s0) + push_bit 6 (dword ?s1) + dword ?s2 - 0xE2080 = of_nat cp"
    using l by (simp add: dword_of_nat push_bit_eq_mult cp del: of_nat_add of_nat_mult) (simp add: algebra_simps)
  have k: "cont ?s1" "cont ?s2"
    using cont_of_nat [OF l(2)] cont_of_nat [OF l(3)] by simp_all
  have n: "n \<noteq> 0" "\<not> n < 3"
    using assms(3) by (auto simp: word_less_nat_alt)
  have t: "\<not> ?s0 < 0x80" "\<not> ?s0 < 0xC2" "\<not> ?s0 > 0xF8" "\<not> ?s0 \<le> 0xDF" "?s0 \<ge> 0xA0"
    using l by (simp_all only: word_less_nat_alt word_le_nat_alt u0) simp_all
  have "?s0 = 0xED \<longleftrightarrow> unat ?s0 = 0xED"
    by (simp only: word_unat_eq_iff) simp
  then have d: "?s0 = 0xED \<longleftrightarrow> 0xD000 \<le> cp \<and> cp < 0xE000"
    unfolding u0 using l by (auto simp: cp)
  have e: "utf8_char cp = [?s0, ?s1, ?s2]"
    using assms by (simp add: utf8_char_def abc)
  show ?thesis
    unfolding Utf8_DecodeChar_def e using n t k v d
    by (simp add: byte_at_def ucast_of_nat_16 char_value_small not_less [symmetric, of "0xA0"] del: of_nat_add)
qed

lemma decode_cont: "b < 64 \<Longrightarrow> n \<noteq> 0 \<Longrightarrow> Utf8_DecodeChar (Some (of_nat (0x80 + b) # rest)) n = Some (-1, 0, 0)"
proof -
  assume b: "b < 64" and n: "n \<noteq> 0"
  have "unat (of_nat (0x80 + b) :: u8) = 0x80 + b"
    using b by (intro unat_of_byte) simp
  then have "\<not> (of_nat (0x80 + b) :: u8) < 0x80" "(of_nat (0x80 + b) :: u8) < 0xC2"
    using b by (simp_all only: word_less_nat_alt) simp_all
  then show ?thesis
    using n by (simp add: Utf8_DecodeChar_def byte_at_def del: of_nat_add)
qed

lemma decode_4:
  assumes "0x10000 \<le> cp" and "cp < 0x110000" and "4 \<le> unat n"
  shows "\<exists>w. Utf8_DecodeChar (Some (utf8_char cp @ rest)) n = Some (3, w, 0)"
    and "unat m \<noteq> 0 \<Longrightarrow> Utf8_DecodeChar (Some (drop 3 (utf8_char cp) @ rest)) m = Some (-1, 0, 0)"
proof -
  define a b c where abc: "a = cp div 262144" "b = cp div 4096 mod 64" "c = cp div 64 mod 64"
  have l: "a < 5" "b < 64" "c < 64"
    using assms by (auto simp: abc)
  let ?s0 = "of_nat (0xF0 + a) :: u8" and ?s1 = "of_nat (0x80 + b) :: u8" and ?s2 = "of_nat (0x80 + c) :: u8"
    and ?s3 = "of_nat (0x80 + cp mod 64) :: u8"
  have u0: "unat ?s0 = 0xF0 + a"
    using l by (intro unat_of_byte) simp
  have k: "cont ?s1" "cont ?s2"
    using cont_of_nat [OF l(2)] cont_of_nat [OF l(3)] by simp_all
  have n: "n \<noteq> 0" "\<not> n < 3"
    using assms(3) by (auto simp: word_less_nat_alt)
  have t: "\<not> ?s0 < 0x80" "\<not> ?s0 < 0xC2" "\<not> ?s0 > 0xF8" "\<not> ?s0 \<le> 0xDF"
    using l by (simp_all only: word_less_nat_alt word_le_nat_alt u0) simp_all
  have "?s0 = 0xE0 \<longleftrightarrow> unat ?s0 = 0xE0" "?s0 = 0xED \<longleftrightarrow> unat ?s0 = 0xED"
    by (simp_all only: word_unat_eq_iff) simp_all
  then have d: "?s0 \<noteq> 0xE0" "?s0 \<noteq> 0xED"
    unfolding u0 by simp_all
  have e: "utf8_char cp = [?s0, ?s1, ?s2, ?s3]"
    using assms by (simp add: utf8_char_def abc)
  show "\<exists>w. Utf8_DecodeChar (Some (utf8_char cp @ rest)) n = Some (3, w, 0)"
    unfolding Utf8_DecodeChar_def e using n t k d
    by (simp add: byte_at_def char_value_small del: of_nat_add)
  show "unat m \<noteq> 0 \<Longrightarrow> Utf8_DecodeChar (Some (drop 3 (utf8_char cp) @ rest)) m = Some (-1, 0, 0)"
    unfolding e using decode_cont [of "cp mod 64" m rest] by (simp add: unat_eq_zero)
qed

section \<open>Decoding a string\<close>

text \<open>What the code accepts: the Basic Multilingual Plane without U+D000 to U+DFFF.\<close>

definition decodable :: "nat \<Rightarrow> bool" where
  "decodable cp \<longleftrightarrow> cp < 0xD000 \<or> 0xE000 \<le> cp \<and> cp < 0x10000"

lemma ConcatN_unit:
  assumes "cs_rep s xs" and "cs_fair 2 malloc"
  shows "(\<exists>s'. CStringW_ConcatN malloc s (Some [w, 0]) 1 = Some (True, s') \<and> cs_rep s' (xs @ [w])) \<or>
    CStringW_ConcatN malloc s (Some [w, 0]) 1 = Some (False, s) \<and> \<not> roomy malloc (2 * (length xs + 1 + 257))"
  using cs_ConcatN_rep [OF assms, of 1 "[w, 0]"] by (simp add: CStringW_ConcatN_def)

lemma decode_decodable:
  assumes "decodable cp" and "length (utf8_char cp) \<le> unat n"
  shows "Utf8_DecodeChar (Some (utf8_char cp @ rest)) n = Some (int (length (utf8_char cp)), of_nat cp, 0)"
proof -
  consider "cp < 0x80" | "0x80 \<le> cp" "cp < 0x800" | "0x800 \<le> cp" "cp < 0x10000"
    using assms(1) unfolding decodable_def by linarith
  then show ?thesis
  proof cases
    case 1
    then have "n \<noteq> 0"
      using assms(2) by (auto simp: length_utf8_char)
    then show ?thesis
      using 1 decode_1 [of cp n rest] by (simp add: length_utf8_char)
  next
    case 2
    then show ?thesis
      using decode_2 [of cp n rest] assms(2) by (simp add: length_utf8_char)
  next
    case 3
    then have "\<not> (0xD000 \<le> cp \<and> cp < 0xE000)"
      using assms(1) by (auto simp: decodable_def)
    then show ?thesis
      using 3 decode_3 [of cp n rest] assms(2) by (simp add: length_utf8_char)
  qed
qed

definition decode_result :: "u16 allocator \<Rightarrow> u16 list \<Rightarrow> nat list \<Rightarrow> HRESULT \<Rightarrow> u16 cstr \<Rightarrow> bool" where
  "decode_result malloc xs cps h s \<longleftrightarrow> (\<exists>ys. cs_rep s ys) \<and>
     (h = E_OUTOFMEMORY \<and> \<not> roomy malloc (2 * (length xs + length cps + 257)) \<or>
      (if list_all decodable cps then h = S_OK \<and> cs_rep s (xs @ map of_nat cps) else h = MX_E_InvalidData))"

lemma utf8_Cons: "utf8 (cp # cps) = utf8_char cp @ utf8 cps"
  by (simp add: utf8_def)

lemma decode_loop_ok:
  assumes "Utf8_DecodeChar (Some src) n = Some (int k, w, 0)" and "0 < k" "k \<le> 4" "k \<le> unat n"
  shows "decode_loop malloc s src n = (case CStringW_ConcatN malloc s (Some [w, 0]) 1 of
      None \<Rightarrow> None
    | Some (ok, s) \<Rightarrow> if \<not> ok then Some (E_OUTOFMEMORY, s) else decode_loop malloc s (drop k src) (n - of_nat k))"
proof -
  have "n \<noteq> 0"
    using assms by auto
  then show ?thesis
    using assms by (subst decode_loop.simps) (simp split: option.split)
qed

lemma decode_loop_bad:
  assumes "Utf8_DecodeChar (Some src) n = Some (-1, w, v)" and "n \<noteq> 0"
  shows "decode_loop malloc s src n = Some (MX_E_InvalidData, s)"
  using assms by (subst decode_loop.simps) simp

lemma unat_minus_k: "k \<le> unat n \<Longrightarrow> unat (n - of_nat k :: u64) = unat n - k"
proof -
  assume k: "k \<le> unat n"
  then have "k < 2 ^ LENGTH(64)"
    using unsigned_less [of n, where ?'a = nat] by simp
  then have "unat (of_nat k :: u64) = k"
    by (simp only: unat_of_nat mod_less)
  then show ?thesis
    using k by (simp add: unat_sub_le word_le_nat_alt)
qed

lemma decode_loop_rep:
  assumes fair: "cs_fair 2 malloc" and "\<forall>cp \<in> set cps. cp < 0x110000"
  shows "cs_rep s xs \<Longrightarrow> unat n = length (utf8 cps) \<Longrightarrow>
    \<exists>h s'. decode_loop malloc s (utf8 cps @ rest) n = Some (h, s') \<and> decode_result malloc xs cps h s'"
  using assms(2)
proof (induction cps arbitrary: s xs n)
  case Nil
  then have "n = 0"
    by (simp add: utf8_def unat_eq_zero)
  then show ?case
    using Nil by (subst decode_loop.simps) (auto simp: decode_result_def)
next
  case (Cons cp cps)
  let ?b = "utf8_char cp"
  have lb: "0 < length ?b" "length ?b \<le> 4"
    by (simp_all add: length_utf8_char)
  have n: "length ?b \<le> unat n" "n \<noteq> 0"
    using Cons.prems(2) lb by (auto simp: utf8_Cons)
  have assoc: "utf8 (cp # cps) @ rest = ?b @ utf8 cps @ rest"
    by (simp add: utf8_Cons)
  have more: "\<not> roomy malloc (2 * (length xs + 1 + 257)) \<Longrightarrow> \<not> roomy malloc (2 * (length xs + length (cp # cps) + 257))"
    using roomy_mono [of malloc "2 * (length xs + length (cp # cps) + 257)" "2 * (length xs + 1 + 257)"] by auto
  consider (good) "decodable cp" | (gap) "0xD000 \<le> cp" "cp < 0xE000" | (big) "0x10000 \<le> cp" "cp < 0x110000"
    using Cons.prems(3) by (force simp: decodable_def)
  then show ?case
  proof cases
    case good
    note l = decode_loop_ok [OF decode_decodable [OF good n(1)] lb n(1), of malloc s "utf8 cps @ rest"]
    have n': "unat (n - of_nat (length ?b)) = length (utf8 cps)"
      using unat_minus_k [OF n(1)] Cons.prems(2) by (simp add: utf8_Cons)
    from ConcatN_unit [OF Cons.prems(1) fair, of "of_nat cp"] show ?thesis
    proof
      assume "\<exists>s'. CStringW_ConcatN malloc s (Some [of_nat cp, 0]) 1 = Some (True, s') \<and> cs_rep s' (xs @ [of_nat cp])"
      then obtain s' where s': "CStringW_ConcatN malloc s (Some [of_nat cp, 0]) 1 = Some (True, s')" "cs_rep s' (xs @ [of_nat cp])"
        by blast
      obtain h s2 where "decode_loop malloc s' (utf8 cps @ rest) (n - of_nat (length ?b)) = Some (h, s2)"
        "decode_result malloc (xs @ [of_nat cp]) cps h s2"
        using Cons.IH [OF s'(2) n'] Cons.prems(3) by auto
      then show ?thesis
        unfolding assoc l using s'(1) good by (auto simp: decode_result_def)
    next
      assume "CStringW_ConcatN malloc s (Some [of_nat cp, 0]) 1 = Some (False, s) \<and> \<not> roomy malloc (2 * (length xs + 1 + 257))"
      then show ?thesis
        unfolding assoc l using Cons.prems(1) more by (auto simp: decode_result_def)
    qed
  next
    case gap
    then have "length ?b = 3"
      by (simp add: length_utf8_char)
    then have "Utf8_DecodeChar (Some (?b @ utf8 cps @ rest)) n = Some (-1, 0, 0)"
      using decode_3 [of cp n "utf8 cps @ rest"] gap n(1) by simp
    then show ?thesis
      unfolding assoc using decode_loop_bad n(2) Cons.prems(1) gap by (auto simp: decode_result_def decodable_def)
  next
    case big
    have l4: "length ?b = 4"
      using big by (simp add: length_utf8_char)
    then have n4: "4 \<le> unat n"
      using n(1) by simp
    obtain w where w: "Utf8_DecodeChar (Some (?b @ utf8 cps @ rest)) n = Some (int 3, w, 0)"
      using decode_4(1) [OF big n4] by auto
    have m: "unat (n - of_nat 3) \<noteq> 0"
      using unat_minus_k [of 3 n] n4 by simp
    have bad: "decode_loop malloc s' (drop 3 (?b @ utf8 cps @ rest)) (n - of_nat 3) = Some (MX_E_InvalidData, s')" for s'
      using decode_4(2) [OF big n4 m, of "utf8 cps @ rest"] m l4
      by (intro decode_loop_bad) (auto simp: unat_eq_zero)
    note l = decode_loop_ok [OF w _ _, of malloc s]
    from ConcatN_unit [OF Cons.prems(1) fair, of w] show ?thesis
      unfolding assoc using l n4 bad big Cons.prems(1) more by (auto simp: decode_result_def decodable_def)
  qed
qed

section \<open>Length and comparison\<close>

lemma strlen_loop_bytes: "strlen_loop (bs @ 0 # rest) n = Some (n + of_nat (length bs))" if "0 \<notin> set bs"
  using that
proof (induction bs arbitrary: n)
  case Nil
  then show ?case
    by (simp add: strlen_loop.simps(2))
next
  case (Cons b bs)
  have "char_value b < 0x80"
    using sint_lt [of b] by (simp add: char_value_def)
  then show ?case
    using Cons by (simp add: strlen_loop.simps(2) algebra_simps)
qed

lemma mem_ncmp_same: "0 \<notin> set xs \<Longrightarrow> mem_ncmp f (xs @ ys) (xs @ zs) (length xs) = Some 0"
  by (induction xs) auto

definition units_ok :: "u16 list \<Rightarrow> bool" where
  "units_ok ws \<longleftrightarrow> (\<forall>c \<in> set ws. c \<noteq> 0 \<and> decodable (unat c))"

lemma units_ok_simps [simp]: "units_ok []" "units_ok (c # ws) \<longleftrightarrow> c \<noteq> 0 \<and> decodable (unat c) \<and> units_ok ws"
  "units_ok (vs @ ws) \<longleftrightarrow> units_ok vs \<and> units_ok ws"
  by (auto simp: units_ok_def)

lemma decode_unit: "decodable (unat c) \<Longrightarrow>
    Utf8_DecodeChar (Some (utf8_char (unat c) @ rest)) (-1) = Some (int (length (utf8_char (unat c))), c, 0)"
proof -
  assume d: "decodable (unat c)"
  have "unat (-1 :: u64) = 2 ^ 64 - 1"
    by (simp add: unsigned_minus_1_eq_mask mask_eq_exp_minus_1)
  then have "length (utf8_char (unat c)) \<le> unat (-1 :: u64)"
    by (simp add: length_utf8_char)
  then show ?thesis
    using decode_decodable [OF d, of "-1" rest] by simp
qed

lemma utf8_append: "utf8 (cps @ dps) = utf8 cps @ utf8 dps"
  by (simp add: utf8_def)

lemma fill_buf_units:
  assumes "units_ok us" and "length buf + length us = min 63 (unat n)"
  shows "fill_buf (utf8 (map unat us) @ rest) n buf = Some (Some (buf @ us, rest))"
  using assms
proof (induction us arbitrary: buf)
  case Nil
  have "length buf \<le> 63"
    using Nil(2) by simp
  then have "unat (of_nat (length buf) :: u64) = length buf"
    by (simp add: unat_of_nat)
  then have "\<not> (of_nat (length buf) < n \<and> length buf < 63)"
    using Nil(2) by (auto simp: word_less_nat_alt)
  then show ?case
    by (subst fill_buf.simps, subst if_not_P) (simp_all add: utf8_def)
next
  case (Cons c us)
  have l: "length buf < 63" "length buf < unat n"
    using Cons.prems(2) by auto
  then have "unat (of_nat (length buf) :: u64) = length buf"
    by (simp add: unat_of_nat)
  then have t: "of_nat (length buf) < n \<and> length buf < 63"
    using l by (simp add: word_less_nat_alt)
  have e: "utf8 (map unat (c # us)) @ rest = utf8_char (unat c) @ utf8 (map unat us) @ rest"
    by (simp add: utf8_Cons)
  have d: "Utf8_DecodeChar (Some (utf8_char (unat c) @ utf8 (map unat us) @ rest)) (-1) = Some (int (length (utf8_char (unat c))), c, 0)"
    using decode_unit [of c "utf8 (map unat us) @ rest"] Cons.prems(1) by simp
  have "length (utf8_char (unat c)) \<noteq> 0"
    by (simp add: length_utf8_char)
  then show ?case
    unfolding e using t Cons.IH [of "buf @ [c]"] Cons.prems by (subst fill_buf.simps) (simp add: d)
qed

lemma ncompare_same:
  assumes "units_ok ws" and "length ws < 2 ^ 64"
  shows "ncompare_loop (utf8 (map unat ws) @ rest) (ws @ zs) (of_nat (length ws)) False = Some 0"
  using assms
proof (induction "length ws" arbitrary: ws rule: less_induct)
  case less
  show ?case
  proof (cases "ws = []")
    case True
    then show ?thesis
      by (subst ncompare_loop.simps) simp
  next
    case False
    define k where "k = min 63 (length ws)"
    have k: "0 < k" "k \<le> length ws" "k \<le> 63"
      using False by (simp_all add: k_def)
    have lw: "unat (of_nat (length ws) :: u64) = length ws" "unat (of_nat k :: u64) = k"
      using less.prems(2) k by (simp_all only: unat_of_nat) simp_all
    let ?us = "take k ws" and ?vs = "drop k ws"
    have ok: "units_ok ?us" "units_ok ?vs"
      using less.prems(1) by (metis append_take_drop_id units_ok_simps(3))+
    have "map unat ws = map unat ?us @ map unat ?vs"
      by (metis append_take_drop_id map_append)
    then have sp: "utf8 (map unat ws) @ rest = utf8 (map unat ?us) @ utf8 (map unat ?vs) @ rest"
      by (simp only: utf8_append append_assoc)
    have "fill_buf (utf8 (map unat ws) @ rest) (of_nat (length ws)) [] = Some (Some (?us, utf8 (map unat ?vs) @ rest))"
      using fill_buf_units [OF ok(1), of "[]" "of_nat (length ws)" "utf8 (map unat ?vs) @ rest"] k lw sp
      by (simp add: k_def)
    moreover have "\<not> of_nat (length ?us) > (of_nat (length ws) :: u64)" "length ?us = k"
      using k lw by (simp_all add: word_less_nat_alt)
    moreover have "0 \<notin> set ?us"
      using ok(1) by (auto simp: units_ok_def)
    then have "mem_ncmp id ?us (ws @ zs) k = Some 0"
      using mem_ncmp_same [of ?us id "[]" "?vs @ zs"] k by (simp add: append_assoc [symmetric] del: append_assoc)
    moreover have "drop k (ws @ zs) = ?vs @ zs"
      using k by simp
    moreover have "of_nat (length ws) - of_nat k = (of_nat (length ?vs) :: u64)"
      using k by (simp add: of_nat_diff)
    moreover have "ncompare_loop (utf8 (map unat ?vs) @ rest) (?vs @ zs) (of_nat (length ?vs)) False = Some 0"
      using less.hyps [of ?vs] ok(2) k less.prems(2) False by simp
    moreover have "(of_nat (length ws) :: u64) \<noteq> 0" "(of_nat k :: u64) \<noteq> 0"
      using lw k False by auto
    ultimately show ?thesis
      using lw by (subst ncompare_loop.simps) simp
  qed
qed

lemma utf8_length: "length ws \<le> length (utf8 (map unat ws))"
  "length (utf8 (map unat ws)) = length ws \<longleftrightarrow> (\<forall>c \<in> set ws. unat c < 0x80)"
proof (induction ws)
  case (Cons c ws)
  case 1
  then show ?case
    using Cons by (simp add: utf8_Cons length_utf8_char)
  case 2
  then show ?case
    using Cons by (auto simp: utf8_Cons length_utf8_char)
qed (simp_all add: utf8_def)

lemma utf8_char_nonzero: "0 < cp \<Longrightarrow> cp < 0x10000 \<Longrightarrow> 0 \<notin> set (utf8_char cp)"
proof -
  have nz: "0 < m \<Longrightarrow> m < 256 \<Longrightarrow> (of_nat m :: u8) \<noteq> 0" for m
    by (metis unat_0 unat_of_byte less_irrefl)
  show "0 < cp \<Longrightarrow> cp < 0x10000 \<Longrightarrow> 0 \<notin> set (utf8_char cp)"
    using nz by (auto simp: utf8_char_def simp del: of_nat_add)
qed

lemma utf8_nonzero: "units_ok ws \<Longrightarrow> 0 \<notin> set (utf8 (map unat ws))"
proof (induction ws)
  case (Cons c ws)
  then have "0 < unat c" "unat c < 0x10000"
    by (auto simp: decodable_def unat_gt_0)
  then show ?case
    using Cons utf8_char_nonzero [of "unat c"] by (simp add: utf8_Cons)
qed (simp add: utf8_def)


section \<open>Sources with a length and with a terminator\<close>

text \<open>The text that a call is given: by its length, or (-1) by the zero that ends it.\<close>

definition source :: "'c::len word list option \<Rightarrow> u64 \<Rightarrow> 'c word list \<Rightarrow> bool" where
  "source src n ws \<longleftrightarrow> length ws < 2 ^ 48 \<and> (\<exists>rest. src = Some (ws @ rest) \<and>
     (if n = -1 then 0 \<notin> set ws \<and> (\<exists>r. rest = 0 # r) else unat n = length ws))"

lemma zlength_terminated: "0 \<notin> set ws \<Longrightarrow> zlength (ws @ 0 # r) = Some (of_nat (length ws))"
proof -
  assume "0 \<notin> set ws"
  then have "takeWhile (\<lambda>c. c \<noteq> 0) (ws @ 0 # r) = ws"
    unfolding takeWhile_zero by (auto simp: takeWhile_eq_all_conv)
  then show ?thesis
    by (simp add: zlength_def)
qed

lemma source_length: "source src n ws \<Longrightarrow> \<exists>rest m. src = Some (ws @ rest) \<and> unat m = length ws \<and>
    (if n = -1 then zlength_opt src else Some n) = Some m"
proof -
  assume s: "source src n ws"
  then have "length ws < 2 ^ LENGTH(64)"
    by (simp add: source_def)
  then have "unat (of_nat (length ws) :: u64) = length ws"
    by (simp only: unat_of_nat mod_less)
  then show ?thesis
    using s by (auto simp: source_def zlength_opt_def zlength_terminated split: if_splits)
qed

lemma Encode_source: "source src n ws \<Longrightarrow> \<exists>rest. Utf8_Encode malloc s src n bAppend =
    encode_loop malloc (if bAppend then s else cs_Empty s) (ws @ rest) (length ws)"
  using source_length [of src n ws] by (cases "n = -1") (auto simp: Utf8_Encode_def)

lemma Decode_source:
  assumes "source src n bs"
  shows "\<exists>rest m. unat m = length bs \<and> Utf8_Decode malloc s src n bAppend =
    decode_loop malloc (if bAppend then s else cs_Empty s) (bs @ rest) m"
proof -
  obtain rest m where m: "src = Some (bs @ rest)" "unat m = length bs" "(if n = -1 then zlength_opt src else Some n) = Some m"
    using source_length [OF assms] by blast
  have "Utf8_Decode malloc s src n bAppend = decode_loop malloc (if bAppend then s else cs_Empty s) (bs @ rest) m"
    using m by (cases "n = -1") (simp_all add: Utf8_Decode_def)
  then show ?thesis
    using m(2) by blast
qed

section \<open>Properties\<close>

text \<open>C29. \<open>Utf8_Encode\<close> appends (or assigns) exactly the UTF-8 bytes of the code points of the UTF-16 text, surrogate
  pairs included, and fails with invalid data exactly for a high surrogate that no low one follows; only a failed
  allocation can make it fail otherwise, and the destination is a well-formed string in every case.\<close>

theorem utf8_encodes:
  assumes "cs_rep s xs" and "cs_fair 1 malloc" and "source src n ws"
  shows "\<exists>h s'. Utf8_Encode malloc s src n bAppend = Some (h, s') \<and> (\<exists>ys. cs_rep s' ys) \<and>
    (h = E_OUTOFMEMORY \<and> \<not> roomy malloc (2 * (length (if bAppend then xs else []) + 3 * length ws + 257)) \<or>
     (case code_points ws of None \<Rightarrow> h = MX_E_InvalidData
      | Some cps \<Rightarrow> h = S_OK \<and> cs_rep s' ((if bAppend then xs else []) @ utf8 cps)))"
proof -
  obtain rest where e: "Utf8_Encode malloc s src n bAppend = encode_loop malloc (if bAppend then s else cs_Empty s) (ws @ rest) (length ws)"
    using Encode_source [OF assms(3)] by blast
  have "cs_rep (if bAppend then s else cs_Empty s) (if bAppend then xs else [])"
    using assms(1) cs_rep_Empty by auto
  from encode_loop_rep [OF assms(2) this, of ws rest] show ?thesis
    unfolding e encode_result_def .
qed

lemma zeros_roomy: "b \<le> 65536 \<Longrightarrow> roomy zeros b"
  by (auto simp: roomy_def zeros_def word_le_nat_alt)

lemma utf8_encodes_witness:
  "\<exists>s'. Utf8_Encode zeros CString_new (Some [0xD83D, 0xDE00, 0]) (-1) False = Some (S_OK, s') \<and>
    cs_rep s' [0xF0, 0x9F, 0x98, 0x80]"
proof -
  have c: "code_points [0xD83D, 0xDE00] = Some [0x1F600]"
    by (simp add: high_def low_def)
  have u: "utf8 [0x1F600] = [0xF0, 0x9F, 0x98, 0x80]"
    by (simp add: utf8_def utf8_char_def)
  have "source (Some [0xD83D, 0xDE00, 0 :: u16]) (-1) [0xD83D, 0xDE00]"
    by (simp add: source_def)
  from utf8_encodes [OF cs_rep_new cs_fair_zeros this, of False] show ?thesis
    unfolding c option.case u by (auto simp: zeros_roomy)
qed

text \<open>C30. \<open>Utf8_Decode\<close> of the UTF-8 bytes of any code points gives their UTF-16 text when all of them are in the Basic
  Multilingual Plane below U+D000 or from U+E000; it refuses every other text as invalid data, although U+D000 to
  U+D7FF and the supplementary planes are valid UTF-8 that its other branches are there for.\<close>

theorem utf8_decodes:
  assumes "cs_rep s xs" and "cs_fair 2 malloc" and "source src n (utf8 cps)" and "\<forall>cp \<in> set cps. cp < 0x110000"
  shows "\<exists>h s'. Utf8_Decode malloc s src n bAppend = Some (h, s') \<and> (\<exists>ys. cs_rep s' ys) \<and>
    (h = E_OUTOFMEMORY \<and> \<not> roomy malloc (2 * (length (if bAppend then xs else []) + length cps + 257)) \<or>
     (if \<forall>cp \<in> set cps. cp < 0xD000 \<or> 0xE000 \<le> cp \<and> cp < 0x10000
      then h = S_OK \<and> cs_rep s' ((if bAppend then xs else []) @ map of_nat cps)
      else h = MX_E_InvalidData))"
proof -
  obtain rest m where m: "unat m = length (utf8 cps)"
    and e: "Utf8_Decode malloc s src n bAppend = decode_loop malloc (if bAppend then s else cs_Empty s) (utf8 cps @ rest) m"
    using Decode_source [OF assms(3)] by blast
  have rep: "cs_rep (if bAppend then s else cs_Empty s) (if bAppend then xs else [])"
    using assms(1) cs_rep_Empty by auto
  have d: "list_all decodable cps \<longleftrightarrow> (\<forall>cp \<in> set cps. cp < 0xD000 \<or> 0xE000 \<le> cp \<and> cp < 0x10000)"
    by (simp add: list_all_iff decodable_def)
  from decode_loop_rep [OF assms(2,4) rep m, of rest] show ?thesis
    unfolding e decode_result_def d .
qed

definition zeros16 :: "u16 allocator" where
  "zeros16 n = (if n \<le> 0x10000 then Some (replicate (unat n div 2) 0) else None)"

lemma cs_fair_zeros16: "cs_fair 2 zeros16"
proof -
  have "unat n \<le> 65536" if "n \<le> 0x10000" for n :: u64
    using that by (simp add: word_le_nat_alt)
  then show ?thesis
    by (fastforce simp: cs_fair_def zeros16_def split: if_splits)
qed

lemma zeros16_roomy: "b \<le> 65536 \<Longrightarrow> roomy zeros16 b"
  by (auto simp: roomy_def zeros16_def word_le_nat_alt)

lemma utf8_decodes_witness:
  "(\<exists>s'. Utf8_Decode zeros16 CString_new (Some [0xE2, 0x82, 0xAC, 0]) (-1) False = Some (S_OK, s') \<and> cs_rep s' [0x20AC]) \<and>
   (\<exists>s'. Utf8_Decode zeros16 CString_new (Some [0xF0, 0x9F, 0x98, 0x80, 0]) (-1) False = Some (MX_E_InvalidData, s'))"
proof -
  have u: "utf8 [0x20AC] = [0xE2, 0x82, 0xAC]" "utf8 [0x1F600] = [0xF0, 0x9F, 0x98, 0x80]"
    by (simp_all add: utf8_def utf8_char_def)
  have "source (Some [0xE2, 0x82, 0xAC, 0]) (-1) (utf8 [0x20AC])" "source (Some [0xF0, 0x9F, 0x98, 0x80, 0]) (-1) (utf8 [0x1F600])"
    unfolding u by (simp_all add: source_def)
  from utf8_decodes [OF cs_rep_new cs_fair_zeros16 this(1), of False] utf8_decodes [OF cs_rep_new cs_fair_zeros16 this(2), of False]
  show ?thesis
    by (auto simp: zeros16_roomy)
qed

text \<open>Encoding and decoding again gives the text back, for every UTF-16 text of units outside of U+D000 to U+DFFF:
  what \<open>Utf8_Encode\<close> leaves in a \<open>CStringA\<close> is decoded by \<open>Utf8_Decode\<close> to the units that were encoded.\<close>

theorem utf8_round_trip:
  assumes "cs_fair 1 malloc" and "cs_fair 2 malloc'" and "source src n ws" and "\<forall>c \<in> set ws. \<not> (0xD000 \<le> unat c \<and> unat c < 0xE000)"
    and "Utf8_Encode malloc s src n False = Some (S_OK, s')" and "cs_szStr s' = Some b"
  shows "\<exists>h t'. Utf8_Decode malloc' t (Some b) (cs_nLen s') False = Some (h, t') \<and>
    (h = S_OK \<and> cs_rep t' ws \<or> h = E_OUTOFMEMORY \<and> \<not> roomy malloc' (2 * (length ws + 257)))"
proof -
  have cp: "code_points vs = Some (map unat vs)" if "\<forall>c \<in> set vs. \<not> (0xD000 \<le> unat c \<and> unat c < 0xE000)" for vs
    using that by (induction vs rule: code_points.induct) (auto simp: high_def)
  obtain rest where e: "Utf8_Encode malloc s src n False = encode_loop malloc (cs_Empty s) (ws @ rest) (length ws)"
    using Encode_source [OF assms(3), of malloc s False] by auto
  have rep: "cs_rep s' (utf8 (map unat ws))"
  proof -
    have "encode_loop malloc (cs_Empty s) (ws @ rest) (length ws) = Some (S_OK, s')"
      using e assms(5) by simp
    then show ?thesis
      using encode_loop_rep [OF assms(1) cs_rep_Empty, of s ws rest] by (auto simp: encode_result_def cp [OF assms(4)])
  qed
  note len = cs_rep_len [OF rep] cs_rep_SomeD [OF rep assms(6)]
  have b: "b = utf8 (map unat ws) @ drop (length (utf8 (map unat ws))) b"
    using len append_take_drop_id [of "length (utf8 (map unat ws))" b] by simp
  have lt: "length (utf8 (map unat ws)) < 2 ^ 47" and un: "unat (cs_nLen s') = length (utf8 (map unat ws))"
    using len by simp_all
  then have "cs_nLen s' \<noteq> -1"
    by (auto simp: word_unat_eq_iff unsigned_minus_1_eq_mask mask_eq_exp_minus_1)
  have all: "\<forall>cp \<in> set (map unat ws). cp < 0x110000"
    using unat_ucast_16(2) by (fastforce intro: less_trans)
  have "list_all decodable (map unat ws)"
    using assms(4) unat_ucast_16(2) by (auto simp: list_all_iff decodable_def not_le not_less)
  moreover have "map of_nat (map unat ws) = ws"
    by (simp add: map_idI)
  ultimately show ?thesis
    using decode_loop_rep [OF assms(2) all cs_rep_Empty un, of t "drop (length (utf8 (map unat ws))) b"] \<open>cs_nLen s' \<noteq> -1\<close>
    unfolding b [symmetric] by (auto simp: Utf8_Decode_def decode_result_def)
qed

lemma utf8_round_trip_witness:
  "\<exists>s'. Utf8_Encode (\<lambda>m. if m = 5 then Some [0, 0, 0, 0, 0] else None) CString_new (Some [0x20AC, 0]) (-1) False = Some (S_OK, s') \<and>
    cs_szStr s' = Some [0xE2, 0x82, 0xAC, 0, 0] \<and>
    (\<exists>t'. Utf8_Decode zeros16 CString_new (Some [0xE2, 0x82, 0xAC, 0, 0]) (cs_nLen s') False = Some (S_OK, t') \<and> cs_rep t' [0x20AC])"
proof -
  let ?five = "\<lambda>m :: u64. if m = 5 then Some [0, 0, 0, 0, 0 :: u8] else None"
  let ?s = "\<lparr>cs_szStr = Some [0xE2, 0x82, 0xAC, 0, 0], cs_nSize = 5, cs_nLen = 3\<rparr> :: u8 cstr"
  have fair: "cs_fair 1 ?five"
    by (simp add: cs_fair_def)
  have z: "zlength_opt (Some [0x20AC, 0 :: u16]) = Some 1"
    by (simp add: zlength_opt_def zlength_def)
  have u: "utf8_char 0x20AC = [0xE2, 0x82, 0xAC]"
    by (simp add: utf8_char_def)
  have w: "block_write [0, 0, 0, 0, 0 :: u8] 0 [0] = Some [0, 0, 0, 0, 0]"
    "block_write [0, 0, 0, 0, 0 :: u8] 0 [0xE2, 0x82, 0xAC] = Some [0xE2, 0x82, 0xAC, 0, 0]"
    "block_write [0xE2, 0x82, 0xAC, 0, 0 :: u8] 3 [0] = Some [0xE2, 0x82, 0xAC, 0, 0]"
    "block_read [0xE2, 0x82, 0xAC :: u8] 0 3 = Some [0xE2, 0x82, 0xAC]"
    "block_write [0, 0, 0, 0, 0 :: u8] 0 [] = Some [0, 0, 0, 0, 0]"
    by (simp_all add: block_write_def block_read_def)
  have e: "CStringA_EnsureBuffer ?five CString_new 4 = Some (True, CString_new\<lparr>cs_szStr := Some [0, 0, 0, 0, 0], cs_nSize := 5\<rparr>)"
    by (simp add: CStringA_EnsureBuffer_def cs_EnsureBuffer_def CString_new_def Let_def w)
  have "cs_ConcatN 1 ?five CString_new (Some [0xE2, 0x82, 0xAC]) 3 = Some (True, ?s)"
    using e by (simp add: CStringA_EnsureBuffer_def cs_ConcatN_def CString_new_def Let_def w)
  then have enc: "Utf8_Encode ?five CString_new (Some [0x20AC, 0]) (-1) False = Some (S_OK, ?s)"
    using z by (simp add: Utf8_Encode_def byte_at_def EncodeChar_single u CStringA_ConcatN_def cs_Empty_def CString_new_def)
  have "source (Some [0x20AC, 0 :: u16]) (-1) [0x20AC]" "\<forall>c \<in> set [0x20AC :: u16]. \<not> (0xD000 \<le> unat c \<and> unat c < 0xE000)"
    by (simp_all add: source_def)
  from utf8_round_trip [OF fair cs_fair_zeros16 this enc, of "[0xE2, 0x82, 0xAC, 0, 0]" CString_new] show ?thesis
    using enc by (auto simp: zeros16_roomy)
qed

text \<open>\<open>Utf8_StrLen\<close> counts bytes, not characters, because it compares signed characters; so \<open>Utf8_StrCompareW\<close> tells
  that a string with any character outside of ASCII is greater than itself, and equal only for ASCII.\<close>

theorem utf8_compare_itself:
  assumes "units_ok ws" and "length (utf8 (map unat ws)) < 2 ^ 48"
  shows "Utf8_StrLen (Some (utf8 (map unat ws) @ 0 # r)) = Some (of_nat (length (utf8 (map unat ws)))) \<and>
    Utf8_StrCompareW (Some (utf8 (map unat ws) @ 0 # r)) (Some (ws @ 0 # q)) False =
      Some (if \<forall>c \<in> set ws. unat c < 0x80 then 0 else 1)"
proof -
  let ?n0 = "of_nat (length (utf8 (map unat ws))) :: u64" and ?n1 = "of_nat (length ws) :: u64"
  have len: "Utf8_StrLen (Some (utf8 (map unat ws) @ 0 # r)) = Some ?n0"
    using strlen_loop_bytes [OF utf8_nonzero [OF assms(1)], of r 0] by (simp add: Utf8_StrLen_def)
  have "0 \<notin> set ws"
    using assms(1) by (auto simp: units_ok_def)
  then have z: "zlength_opt (Some (ws @ 0 # q)) = Some ?n1"
    by (simp add: zlength_opt_def zlength_terminated)
  have le: "length ws \<le> length (utf8 (map unat ws))"
    by (rule utf8_length)
  then have u: "unat ?n0 = length (utf8 (map unat ws))" "unat ?n1 = length ws"
    using assms(2) by (simp_all only: unat_of_nat) simp_all
  then have "?n1 \<le> ?n0"
    using le by (simp add: word_le_nat_alt)
  then have m: "min_length ?n0 ?n1 = ?n1"
    by (simp add: min_length_min min_def)
  have l64: "length ws < 2 ^ 64"
    using le assms(2) by simp
  have "Utf8_StrNCompareW (Some (utf8 (map unat ws) @ 0 # r)) (Some (ws @ 0 # q)) ?n1 False = Some 0"
    using ncompare_same [OF assms(1) l64, of "0 # r" "0 # q"] by (simp add: Utf8_StrNCompareW_def)
  moreover have "?n0 < ?n1 \<longleftrightarrow> False" "?n0 > ?n1 \<longleftrightarrow> \<not> (\<forall>c \<in> set ws. unat c < 0x80)"
    using u le utf8_length(2) [of ws] by (auto simp: word_less_nat_alt)
  ultimately show ?thesis
    using len z m by (simp add: Utf8_StrCompareW_def)
qed

lemma utf8_compare_itself_witness:
  "Utf8_StrCompareW (Some [0xC3, 0xA9, 0]) (Some [0xE9, 0]) False = Some 1"
proof -
  have ok: "units_ok [0xE9]"
    by (simp add: decodable_def)
  have u: "utf8 (map unat [0xE9 :: u16]) = [0xC3, 0xA9]"
    by (simp add: utf8_def utf8_char_def)
  then have l: "length (utf8 (map unat [0xE9 :: u16])) < 2 ^ 48"
    by simp
  show ?thesis
    using utf8_compare_itself [OF ok l, of "[]" "[]"] unfolding u by simp
qed

text \<open>\<open>Utf8_StrNCompareW\<close> does not stop at the end of the UTF-8 string: with a length of two characters more it reads
  behind the terminator, whatever the other string is.\<close>

theorem utf8_compare_overreads:
  assumes "units_ok ws" and "length ws + 1 < 63" and "length ws + 1 < unat n"
  shows "Utf8_StrNCompareW (Some (utf8 (map unat ws) @ [0])) (Some w) n bCaseInsensitive = None"
proof -
  have fill: "fill_buf (utf8 (map unat us) @ [0]) n buf = None"
    if "units_ok us" "length buf + length us + 1 < 63" "length buf + length us + 1 < unat n" for us buf
    using that
  proof (induction us arbitrary: buf)
    case Nil
    have l: "unat (of_nat (length buf) :: u64) = length buf" "unat (of_nat (length buf + 1) :: u64) = length buf + 1"
      using Nil(2) by (simp_all only: unat_of_nat) simp_all
    have t: "of_nat (length buf) < n \<and> length buf < 63" "of_nat (length (buf @ [0])) < n \<and> length (buf @ [0]) < 63"
      using l Nil(2,3) by (simp_all add: word_less_nat_alt del: of_nat_Suc of_nat_add)
    have e: "fill_buf [] n (buf @ [0]) = None"
      by (subst fill_buf.simps, subst if_P [OF t(2)]) (simp add: Utf8_DecodeChar_def byte_at_def)
    have d: "Utf8_DecodeChar (Some [0]) (-1) = Some (1, 0, 0)"
      by (simp add: Utf8_DecodeChar_def byte_at_def)
    show ?case
      by (subst fill_buf.simps, subst if_P [OF t(1)]) (simp add: d e utf8_def)
  next
    case (Cons c us)
    have "unat (of_nat (length buf) :: u64) = length buf"
      using Cons.prems(2) by (simp only: unat_of_nat) simp
    then have t: "of_nat (length buf) < n \<and> length buf < 63"
      using Cons.prems(2,3) by (simp add: word_less_nat_alt)
    have e: "utf8 (map unat (c # us)) @ [0] = utf8_char (unat c) @ utf8 (map unat us) @ [0]"
      by (simp add: utf8_Cons)
    have d: "Utf8_DecodeChar (Some (utf8_char (unat c) @ utf8 (map unat us) @ [0])) (-1) =
        Some (int (length (utf8_char (unat c))), c, 0)"
      using decode_unit [of c "utf8 (map unat us) @ [0]"] Cons.prems(1) by simp
    have "length (utf8_char (unat c)) \<noteq> 0"
      by (simp add: length_utf8_char)
    then show ?case
      unfolding e using Cons.IH [of "buf @ [c]"] Cons.prems
      by (subst fill_buf.simps, subst if_P [OF t]) (simp add: d)
  qed
  have "n \<noteq> 0"
    using assms(3) by auto
  then show ?thesis
    using fill [OF assms(1), of "[]"] assms(2,3)
    by (simp add: Utf8_StrNCompareW_def) (subst ncompare_loop.simps, simp)
qed

lemma utf8_compare_overreads_witness:
  "Utf8_StrCompareW (Some [0xC3, 0xA9, 0xC3, 0xA9, 0]) (Some [0xE9, 0xE9, 0x61, 0x62, 0]) False = None"
proof -
  have ok: "units_ok [0xE9, 0xE9]"
    by (simp add: decodable_def)
  have u: "utf8 (map unat [0xE9, 0xE9 :: u16]) = [0xC3, 0xA9, 0xC3, 0xA9]"
    by (simp add: utf8_def utf8_char_def)
  have len: "Utf8_StrLen (Some [0xC3, 0xA9, 0xC3, 0xA9, 0]) = Some 4"
    using strlen_loop_bytes [of "[0xC3, 0xA9, 0xC3, 0xA9]" "[]" 0] by (simp add: Utf8_StrLen_def)
  have z: "zlength_opt (Some [0xE9, 0xE9, 0x61, 0x62, 0 :: u16]) = Some 4"
    by (simp add: zlength_opt_def zlength_def)
  have "Utf8_StrNCompareW (Some [0xC3, 0xA9, 0xC3, 0xA9, 0]) (Some [0xE9, 0xE9, 0x61, 0x62, 0]) 4 False = None"
    using utf8_compare_overreads [OF ok, of 4 "[0xE9, 0xE9, 0x61, 0x62, 0]" False] unfolding u by simp
  then show ?thesis
    using len z by (simp add: Utf8_StrCompareW_def min_length_min)
qed
end
