(* ===== verification/MemoryStream.thy ===== *)
theory MemoryStream
  imports Base64
begin

unbundle bit_operations_syntax

text \<open>
  The memory stream of \<open>Source/MemoryStream.cpp\<close> and the copy of one stream to another
  (\<open>CStream::CopyTo\<close> of \<open>Source/Streams.cpp\<close>). A stream is a block that grows, the number of bytes in
  use and a position. The buffers of the caller are lists; a copy that does not lie inside its
  blocks is \<open>None\<close>. Every size is a 64-bit word.
\<close>

section \<open>State\<close>

record mstream =
  ms_lpData :: "u8 list option"
  ms_nCurrPos :: u64
  ms_nSize :: u64
  ms_nAllocated :: u64
  ms_nGranularity :: u64
  ms_bCanGrow :: bool

definition or_shift :: "nat \<Rightarrow> u64 \<Rightarrow> u64" where
  "or_shift k n = n OR drop_bit k n"

definition granularity :: "u64 \<Rightarrow> u64" where
  "granularity n =
     (if n < 0x100 then 0x100
      else if n > 0x1000000 then 0x1000000
      else or_shift 16 (or_shift 8 (or_shift 4 (or_shift 2 (or_shift 1 (n - 1))))) + 1)"

definition CMemoryStream :: "u64 \<Rightarrow> mstream" where
  "CMemoryStream nAllocationGranularity = \<lparr>ms_lpData = None, ms_nCurrPos = 0, ms_nSize = 0, ms_nAllocated = 0,
     ms_nGranularity = granularity nAllocationGranularity, ms_bCanGrow = False\<rparr>"

definition ms_Close :: "mstream \<Rightarrow> mstream" where
  "ms_Close s = s\<lparr>ms_lpData := None, ms_nCurrPos := 0, ms_nSize := 0, ms_nAllocated := 0\<rparr>"

section \<open>Room\<close>

text \<open>\<open>MX_REALLOC\<close>: a block of the new size that starts with what fits of the old one.\<close>

definition realloc :: "u8 allocator \<Rightarrow> u8 list \<Rightarrow> u64 \<Rightarrow> u8 list option" where
  "realloc malloc old n = map_option (\<lambda>b. take (length b) old @ drop (length old) b) (malloc n)"

definition ms_EnsureSize :: "u8 allocator \<Rightarrow> mstream \<Rightarrow> u64 \<Rightarrow> bool \<times> mstream" where
  "ms_EnsureSize malloc s nRequiredSize =
     (if nRequiredSize > ms_nAllocated s then
        (let nRequiredSize = (if nRequiredSize < SIZE_T_MAX - ms_nGranularity s
               then (nRequiredSize + ms_nGranularity s - 1) AND NOT (ms_nGranularity s - 1) else nRequiredSize);
             lpNewData = (if ms_nAllocated s = 0 then malloc nRequiredSize
               else case ms_lpData s of None \<Rightarrow> malloc nRequiredSize | Some old \<Rightarrow> realloc malloc old nRequiredSize)
         in case lpNewData of
              None \<Rightarrow> (False, s)
            | Some b \<Rightarrow> (True, s\<lparr>ms_lpData := Some b, ms_nAllocated := nRequiredSize\<rparr>))
      else (True, s))"

definition ms_Create :: "u8 allocator \<Rightarrow> mstream \<Rightarrow> u64 \<Rightarrow> bool \<Rightarrow> HRESULT \<times> mstream" where
  "ms_Create malloc s nInitialSize bGrowable =
     (let s = ms_Close s;
          (ok, s) = (if nInitialSize > 0 then ms_EnsureSize malloc s nInitialSize else (True, s))
      in if \<not> ok then (E_OUTOFMEMORY, s) else (S_OK, s\<lparr>ms_bCanGrow := bGrowable\<rparr>))"

section \<open>Reading, writing and seeking\<close>

text \<open>The result, the buffer of the caller, \<open>nBytesRead\<close> and the stream. \<open>ULONGLONG_MAX\<close> is -1.\<close>

definition ms_Read :: "mstream \<Rightarrow> u8 list option \<Rightarrow> u64 \<Rightarrow> u64 \<Rightarrow> (HRESULT \<times> u8 list option \<times> u64 \<times> mstream) option" where
  "ms_Read s lpDest nBytes nStartOffset = (case lpDest of
     None \<Rightarrow> Some (E_POINTER, None, 0, s)
   | Some dest \<Rightarrow>
       if nStartOffset = -1 \<and> ms_nCurrPos s \<ge> ms_nSize s \<or> nStartOffset \<noteq> -1 \<and> nStartOffset \<ge> ms_nSize s
       then Some (MX_E_EndOfFileReached, Some dest, 0, s)
       else do {
         let nReadPos = (if nStartOffset = -1 then ms_nCurrPos s else nStartOffset);
         let nBytes = (if nBytes > ms_nSize s - nReadPos then ms_nSize s - nReadPos else nBytes);
         d \<leftarrow> ms_lpData s;
         xs \<leftarrow> block_read d (unat nReadPos) (unat nBytes);
         dest \<leftarrow> block_write dest 0 xs;
         Some (S_OK, Some dest, nBytes, if nStartOffset = -1 then s\<lparr>ms_nCurrPos := ms_nCurrPos s + nBytes\<rparr> else s)
       })"

text \<open>The end of \<open>Write\<close>: the copy, and the position and the size after it.\<close>

definition ms_put :: "mstream \<Rightarrow> u8 list \<Rightarrow> u64 \<Rightarrow> u64 \<Rightarrow> u64 \<Rightarrow> (HRESULT \<times> u64 \<times> mstream) option" where
  "ms_put s xs nWritePos nBytes nStartOffset = do {
     s \<leftarrow> (if xs = [] then Some s
          else do {
            d \<leftarrow> ms_lpData s;
            d \<leftarrow> block_write d (unat nWritePos) xs;
            Some (s\<lparr>ms_lpData := Some d\<rparr>)
          });
     let s = (if nStartOffset = -1 then s\<lparr>ms_nCurrPos := ms_nCurrPos s + nBytes\<rparr> else s);
     let s = (if ms_nSize s < nWritePos + nBytes then s\<lparr>ms_nSize := nWritePos + nBytes\<rparr> else s);
     Some (S_OK, nBytes, s)
   }"

text \<open>The test of the offset against \<open>SIZE_T_MAX\<close> never fails on a 64-bit machine.\<close>

definition ms_Write :: "u8 allocator \<Rightarrow> mstream \<Rightarrow> u8 list option \<Rightarrow> u64 \<Rightarrow> u64 \<Rightarrow> (HRESULT \<times> u64 \<times> mstream) option" where
  "ms_Write malloc s lpSrc nBytes nStartOffset =
     (if nBytes = 0 then Some (S_OK, 0, s)
      else case lpSrc of
        None \<Rightarrow> Some (E_POINTER, 0, s)
      | Some src \<Rightarrow>
          if nStartOffset \<noteq> -1 \<and> nStartOffset > SIZE_T_MAX then Some (MX_E_Unsupported, 0, s)
          else do {
            let nWritePos = (if nStartOffset = -1 then ms_nCurrPos s else nStartOffset);
            let (ok, nBytes, s) =
              (if nBytes > ms_nSize s - nWritePos then
                 if ms_bCanGrow s then (let (ok, s) = ms_EnsureSize malloc s (nWritePos + nBytes) in (ok, nBytes, s))
                 else (True, ms_nSize s - nWritePos, s)
               else (True, nBytes, s));
            if \<not> ok then Some (E_OUTOFMEMORY, 0, s)
            else do {
              xs \<leftarrow> block_read src 0 (unat nBytes);
              ms_put s xs nWritePos nBytes nStartOffset
            }
          })"

datatype eSeekMethod = Start | Current | End

definition ms_Seek :: "mstream \<Rightarrow> u64 \<Rightarrow> eSeekMethod \<Rightarrow> HRESULT \<times> mstream" where
  "ms_Seek s nPosition nMethod = (case nMethod of
     Start \<Rightarrow> (S_OK, s\<lparr>ms_nCurrPos := if nPosition > ms_nSize s then ms_nSize s else nPosition\<rparr>)
   | Current \<Rightarrow>
       if sint nPosition \<ge> 0 then
         (S_OK, s\<lparr>ms_nCurrPos := (if nPosition > ms_nSize s - ms_nCurrPos s then ms_nSize s - ms_nCurrPos s else nPosition) +
             ms_nCurrPos s\<rparr>)
       else (let nPosition = NOT nPosition + 1 in
         if nPosition > ms_nCurrPos s then (E_FAIL, s) else (S_OK, s\<lparr>ms_nCurrPos := ms_nCurrPos s - nPosition\<rparr>))
   | End \<Rightarrow>
       (S_OK, s\<lparr>ms_nCurrPos := ms_nSize s - (if nPosition > ms_nSize s then ms_nSize s else nPosition)\<rparr>))"

definition ms_GetLength :: "mstream \<Rightarrow> u64" where
  "ms_GetLength s = ms_nSize s"

definition ms_CanGrow :: "mstream \<Rightarrow> bool" where
  "ms_CanGrow s = ms_bCanGrow s"

definition ms_GetRawBuffer :: "mstream \<Rightarrow> u8 list option" where
  "ms_GetRawBuffer s = ms_lpData s"

section \<open>Copying a stream\<close>

text \<open>
  The loop of \<open>CStream::CopyTo\<close>, from one memory stream to another one; the buffer is a block of the heap
  or, when there is none, of the stack, and its contents do not matter before they are read.
\<close>

partial_function (option) copy_loop :: "u8 allocator \<Rightarrow> mstream \<Rightarrow> mstream \<Rightarrow> u8 list \<Rightarrow> u64 \<Rightarrow> u64 \<Rightarrow> u64 \<Rightarrow>
    (HRESULT \<times> u64 \<times> mstream \<times> mstream) option" where
  "copy_loop malloc s t buf nBytes nBytesWritten nStartOffset =
     (if nBytes = 0 then Some (S_OK, nBytesWritten, s, t)
      else do {
        (hRes, buf', nRead, s) \<leftarrow> ms_Read s (Some buf) (if nBytes > of_nat (length buf) then of_nat (length buf) else nBytes) nStartOffset;
        if hRes \<noteq> S_OK then Some (hRes, nBytesWritten, s, t)
        else if nRead = 0 then Some (S_OK, nBytesWritten, s, t)
        else do {
          let nStartOffset = (if nStartOffset \<noteq> -1 then nStartOffset + nRead else nStartOffset);
          (hRes, nWritten, t) \<leftarrow> ms_Write malloc t buf' nRead (-1);
          if hRes \<noteq> S_OK then Some (hRes, nBytesWritten, s, t)
          else if nWritten \<noteq> nRead then Some (MX_E_WriteFault, nBytesWritten + nWritten, s, t)
          else copy_loop malloc s t (the buf') (nBytes - nRead) (nBytesWritten + nWritten) nStartOffset
        }
      })"

definition ms_CopyTo :: "u8 allocator \<Rightarrow> mstream \<Rightarrow> mstream option \<Rightarrow> u64 \<Rightarrow> u64 \<Rightarrow>
    (HRESULT \<times> u64 \<times> mstream \<times> mstream option) option" where
  "ms_CopyTo malloc s lpTarget nBytes nStartOffset = (case lpTarget of
     None \<Rightarrow> Some (E_POINTER, 0, s, None)
   | Some t \<Rightarrow> do {
       let buf = (case malloc 65536 of Some b \<Rightarrow> b | None \<Rightarrow> replicate 1024 0);
       (hRes, n, s, t) \<leftarrow> copy_loop malloc s t buf nBytes 0 nStartOffset;
       Some (if hRes = MX_E_EndOfFileReached then S_OK else hRes, n, s, Some t)
     })"

end
