(* ===== verification/MemoryStream_Props.thy ===== *)
theory MemoryStream_Props
  imports MemoryStream
begin

unbundle bit_operations_syntax

text \<open>
  The memory stream is a file in memory: a sequence of bytes and a position. The theory proves it for
  every session of the operations whose offsets lie inside of the sequence, and shows what a write
  behind the end does.
\<close>

section \<open>Granularity\<close>

lemma bit_or_shift:
  assumes "\<And>i. bit y i \<longleftrightarrow> (\<exists>j < k. bit x (i + j))"
  shows "bit (or_shift k y) i \<longleftrightarrow> (\<exists>j < 2 * k. bit x (i + j))"
proof
  assume "bit (or_shift k y) i"
  then have "(\<exists>j < k. bit x (i + j)) \<or> (\<exists>j < k. bit x (i + k + j))"
    using assms by (auto simp: or_shift_def bit_simps add.commute)
  then show "\<exists>j < 2 * k. bit x (i + j)"
  proof
    assume "\<exists>j < k. bit x (i + k + j)"
    then obtain j where "j < k" "bit x (i + (k + j))"
      by (auto simp: ac_simps)
    then show ?thesis
      by (intro exI [of _ "k + j"]) auto
  qed (force intro: less_le_trans)
next
  assume "\<exists>j < 2 * k. bit x (i + j)"
  then obtain j where j: "j < 2 * k" "bit x (i + j)"
    by blast
  show "bit (or_shift k y) i"
  proof (cases "j < k")
    case False
    then have "j - k < k" "bit x (i + k + (j - k))"
      using j by simp_all
    then have "bit y (i + k)"
      using assms by blast
    then show ?thesis
      by (simp add: or_shift_def bit_simps add.commute)
  qed (use assms j in \<open>auto simp: or_shift_def bit_simps\<close>)
qed

lemma smear_bits:
  "bit (or_shift 16 (or_shift 8 (or_shift 4 (or_shift 2 (or_shift 1 x))))) i \<longleftrightarrow> (\<exists>j < 32. bit x (i + j))"
proof -
  have 1: "bit x i \<longleftrightarrow> (\<exists>j < 1. bit x (i + j))" for i
    by simp
  have 2: "bit (or_shift 1 x) i \<longleftrightarrow> (\<exists>j < 2. bit x (i + j))" for i
    using bit_or_shift [of x 1 x, OF 1] by simp
  have 4: "bit (or_shift 2 (or_shift 1 x)) i \<longleftrightarrow> (\<exists>j < 4. bit x (i + j))" for i
    using bit_or_shift [of _ 2 x, OF 2] by simp
  have 8: "bit (or_shift 4 (or_shift 2 (or_shift 1 x))) i \<longleftrightarrow> (\<exists>j < 8. bit x (i + j))" for i
    using bit_or_shift [of _ 4 x, OF 4] by simp
  have 16: "bit (or_shift 8 (or_shift 4 (or_shift 2 (or_shift 1 x)))) i \<longleftrightarrow> (\<exists>j < 16. bit x (i + j))" for i
    using bit_or_shift [of _ 8 x, OF 8] by simp
  show ?thesis
    using bit_or_shift [of _ 16 x, OF 16] by simp
qed

lemma smear_mask:
  assumes m: "2 ^ m \<le> unat x" "unat x < 2 ^ Suc m" and "m < 32"
  shows "or_shift 16 (or_shift 8 (or_shift 4 (or_shift 2 (or_shift 1 x)))) = mask (Suc m)"
proof (rule bit_word_eqI)
  fix i :: nat
  assume "i < LENGTH(64)"
  have b: "bit x n \<longleftrightarrow> odd (unat x div 2 ^ n)" for n
  proof -
    have "bit x n \<longleftrightarrow> bit (unat x) n"
      by (auto simp: bit_unsigned_iff dest: bit_imp_le_length)
    then show ?thesis
      by (simp only: bit_iff_odd)
  qed
  have "unat x div 2 ^ m = 1"
    using m by (intro div_nat_eqI) simp_all
  then have top: "bit x m"
    unfolding b by simp
  have above: "\<not> bit x n" if "m < n" for n
  proof -
    have "unat x < 2 ^ n"
      using m(2) that by (metis Suc_leI le_less_trans not_less numeral_One one_le_numeral power_increasing)
    then show ?thesis
      unfolding b by simp
  qed
  have "(\<exists>j < 32. bit x (i + j)) \<longleftrightarrow> i < Suc m"
  proof
    assume "i < Suc m"
    then show "\<exists>j < 32. bit x (i + j)"
      using top assms(3) by (intro exI [of _ "m - i"]) simp
  qed (use above in \<open>force simp: not_less\<close>)
  then show "bit (or_shift 16 (or_shift 8 (or_shift 4 (or_shift 2 (or_shift 1 x))))) i \<longleftrightarrow> bit (mask (Suc m) :: u64) i"
    unfolding smear_bits using \<open>i < LENGTH(64)\<close> by (simp add: bit_mask_iff)
qed

text \<open>The granularity is the power of two that is not below the argument, between 256 and 2 to the 24th.\<close>

lemma granularity_power: "\<exists>k. 8 \<le> k \<and> k \<le> 24 \<and> granularity n = 2 ^ k"
proof -
  consider "n < 0x100" | "n > 0x1000000" | "0x100 \<le> n" "n \<le> 0x1000000"
    by (meson not_less)
  then show ?thesis
  proof cases
    case 3
    then have u: "256 \<le> unat n" "unat n \<le> 2 ^ 24"
      by (simp_all add: word_le_nat_alt)
    define x where "x = n - 1"
    have x: "unat x = unat n - 1"
      using u by (simp add: x_def unat_sub_le word_le_nat_alt)
    then have "0 < unat x"
      using u by simp
    then obtain m where m: "2 ^ m \<le> unat x" "unat x < 2 ^ Suc m"
      using ex_power_ivl1 [of 2 "unat x"] by auto
    have "(2 :: nat) ^ m < 2 ^ 24"
      using m(1) x u by linarith
    then have m24: "m < 24"
      by (rule power_less_imp_less_exp [rotated]) simp
    have "(2 :: nat) ^ 7 < 2 ^ Suc m"
      using m(2) x u by simp
    then have "7 < Suc m"
      by (rule power_less_imp_less_exp [rotated]) simp
    then have "8 \<le> Suc m \<and> Suc m \<le> 24"
      using m24 by simp
    moreover have "granularity n = 2 ^ Suc m"
      using smear_mask [OF m] m24 3 [folded not_less] by (simp add: granularity_def x_def [symmetric] mask_eq_exp_minus_1)
    ultimately show ?thesis
      by blast
  qed (auto simp: granularity_def intro: exI [of _ 8] exI [of _ 24])
qed

text \<open>Rounding up to a power of two.\<close>

lemma round_up_power:
  assumes "unat n < 2 ^ 60" and "k \<le> 24"
  shows "unat n \<le> unat ((n + 2 ^ k - 1) AND NOT (2 ^ k - 1) :: u64)"
    "unat ((n + 2 ^ k - 1) AND NOT (2 ^ k - 1) :: u64) \<le> unat n + 2 ^ 24"
proof -
  let ?w = "n + 2 ^ k - 1"
  have k: "(2 :: nat) ^ k \<le> 2 ^ 24"
    using assms(2) by (rule power_increasing) simp
  have "unat (of_nat (2 ^ k) :: u64) = 2 ^ k"
    using k by (simp only: unat_of_nat) simp
  then have k2: "unat (2 ^ k :: u64) = 2 ^ k"
    by simp
  have "unat n + 2 ^ k < 2 ^ 64"
    using assms(1) k by simp
  then have a: "unat (n + 2 ^ k) = unat n + 2 ^ k"
    using k2 by (simp add: unat_add_small)
  have "1 \<le> n + 2 ^ k"
    using a by (simp add: word_le_nat_alt Suc_le_eq)
  then have u: "unat ?w = unat n + 2 ^ k - 1"
    using a by (simp add: unat_sub_le)
  have "?w AND NOT (mask k) = push_bit k (drop_bit k ?w)"
    by (rule bit_word_eqI) (auto simp: bit_simps)
  then have e: "?w AND NOT (2 ^ k - 1) = push_bit k (drop_bit k ?w)"
    by (simp add: mask_eq_exp_minus_1)
  have d: "unat (drop_bit k ?w) = (unat n + 2 ^ k - 1) div 2 ^ k"
    by (simp only: drop_bit_nat u)
  have le: "(unat n + 2 ^ k - 1) div 2 ^ k * 2 ^ k \<le> unat n + 2 ^ k - 1"
    by (rule div_times_less_eq_dividend)
  also have "unat n + 2 ^ k - 1 < 2 ^ 64"
    using assms(1) k by simp
  finally have "unat (drop_bit k ?w) * unat (2 ^ k :: u64) < 2 ^ LENGTH(64)"
    unfolding d k2 by simp
  then have "unat (push_bit k (drop_bit k ?w)) = (unat n + 2 ^ k - 1) div 2 ^ k * 2 ^ k"
    unfolding push_bit_eq_mult by (simp only: unat_mult_small d k2)
  then have r: "unat (?w AND NOT (2 ^ k - 1)) = (unat n + 2 ^ k - 1) div 2 ^ k * 2 ^ k"
    unfolding e .
  have "(unat n + 2 ^ k - 1) mod 2 ^ k < 2 ^ k"
    by simp
  then show "unat n \<le> unat (?w AND NOT (2 ^ k - 1))"
    unfolding r using div_mult_mod_eq [of "unat n + 2 ^ k - 1" "2 ^ k"] by linarith
  have "unat n + 2 ^ k - 1 \<le> unat n + 2 ^ 24"
    using k by simp
  with le show "unat (?w AND NOT (2 ^ k - 1)) \<le> unat n + 2 ^ 24"
    unfolding r by (rule order_trans)
qed

section \<open>Representation\<close>

text \<open>The bytes that a stream holds.\<close>

definition ms_rep :: "mstream \<Rightarrow> u8 list \<Rightarrow> bool" where
  "ms_rep s xs \<longleftrightarrow> (\<exists>k. 8 \<le> k \<and> k \<le> 24 \<and> ms_nGranularity s = 2 ^ k) \<and> unat (ms_nSize s) = length xs \<and>
     ms_nCurrPos s \<le> ms_nSize s \<and> length xs \<le> unat (ms_nAllocated s) \<and> unat (ms_nAllocated s) \<le> 2 ^ 47 \<and>
     (case ms_lpData s of
        None \<Rightarrow> ms_nAllocated s = 0
      | Some b \<Rightarrow> ms_nAllocated s \<noteq> 0 \<and> length b = unat (ms_nAllocated s) \<and> take (length xs) b = xs)"

lemma ms_rep_new: "ms_rep (CMemoryStream n) []"
  using granularity_power [of n] by (simp add: ms_rep_def CMemoryStream_def)

lemma ms_rep_Close: "ms_rep s xs \<Longrightarrow> ms_rep (ms_Close s) []"
  by (simp add: ms_rep_def ms_Close_def)

lemma ms_rep_le: "ms_rep s xs \<Longrightarrow> unat (ms_nCurrPos s) \<le> length xs \<and> length xs \<le> 2 ^ 47"
  by (auto simp: ms_rep_def word_le_nat_alt)

lemma ms_rep_data:
  assumes "ms_rep s xs" and "xs \<noteq> []"
  obtains b where "ms_lpData s = Some b" "length b = unat (ms_nAllocated s)" "take (length xs) b = xs"
  using assms by (fastforce simp: ms_rep_def split: option.splits)

lemma ms_EnsureSize_rep:
  assumes rep: "ms_rep s xs" and fair: "fair malloc" and n: "unat n < 2 ^ 60"
  shows "(\<exists>s'. ms_EnsureSize malloc s n = (True, s') \<and> ms_rep s' xs \<and> unat n \<le> unat (ms_nAllocated s') \<and>
      ms_nSize s' = ms_nSize s \<and> ms_nCurrPos s' = ms_nCurrPos s \<and> ms_bCanGrow s' = ms_bCanGrow s) \<or>
    ms_EnsureSize malloc s n = (False, s) \<and> \<not> roomy malloc (unat n + 2 ^ 24)"
proof (cases "n > ms_nAllocated s")
  case False
  then have "ms_EnsureSize malloc s n = (True, s)"
    by (simp add: ms_EnsureSize_def)
  moreover have "unat n \<le> unat (ms_nAllocated s)"
    using False by (simp add: word_le_nat_alt not_less)
  ultimately show ?thesis
    using rep by simp
next
  case True
  obtain k where k: "k \<le> 24" "ms_nGranularity s = 2 ^ k"
    using rep by (auto simp: ms_rep_def)
  define m where "m = (if n < SIZE_T_MAX - ms_nGranularity s
    then (n + ms_nGranularity s - 1) AND NOT (ms_nGranularity s - 1) else n)"
  have m: "unat n \<le> unat m" "unat m \<le> unat n + 2 ^ 24"
    using round_up_power [OF n k(1)] by (simp_all add: m_def k(2))
  show ?thesis
  proof (cases "malloc m")
    case None
    then have "ms_EnsureSize malloc s n = (False, s)"
      using True by (auto simp: ms_EnsureSize_def m_def [symmetric] Let_def realloc_def split: option.splits)
    then show ?thesis
      using not_roomyI [of malloc m] None m(2) by blast
  next
    case (Some b)
    have b: "length b = unat m" "unat m \<le> 2 ^ 47"
      using fairD [OF fair Some] by simp_all
    have le: "unat (ms_nAllocated s) < unat m" "m \<noteq> 0"
      using True m(1) by (auto simp: word_less_nat_alt)
    show ?thesis
    proof (cases "ms_lpData s")
      case None
      then have "ms_nAllocated s = 0" "xs = []"
        using rep by (auto simp: ms_rep_def)
      then show ?thesis
        using rep True Some b le m(1) None
        by (simp add: ms_EnsureSize_def m_def [symmetric] ms_rep_def Let_def)
    next
      case (Some old)
      have old: "length old = unat (ms_nAllocated s)" "take (length xs) old = xs" "ms_nAllocated s \<noteq> 0"
        "length xs \<le> unat (ms_nAllocated s)"
        using rep Some by (auto simp: ms_rep_def)
      have r: "realloc malloc old m = Some (old @ drop (length old) b)"
        using \<open>malloc m = Some b\<close> b old le by (simp add: realloc_def)
      have "length (old @ drop (length old) b) = unat m" "take (length xs) (old @ drop (length old) b) = xs"
        using b old le by simp_all
      then show ?thesis
        using rep True Some b le m(1) old(3,4) r
        by (simp add: ms_EnsureSize_def m_def [symmetric] ms_rep_def Let_def)
    qed
  qed
qed

section \<open>Operations\<close>

text \<open>The place that an offset means; the largest offset stands for the position of the stream.\<close>

definition ms_at :: "u64 \<Rightarrow> nat \<Rightarrow> nat" where
  "ms_at off p = (if off = -1 then p else unat off)"

definition read_part :: "u8 list \<Rightarrow> nat \<Rightarrow> nat \<Rightarrow> u8 list" where
  "read_part xs q n = take n (drop q xs)"

lemma ms_Read_rep:
  fixes off :: u64
  assumes rep: "ms_rep s xs" and n: "unat n \<le> length dest"
  defines "q \<equiv> ms_at off (unat (ms_nCurrPos s))"
  defines "ys \<equiv> read_part xs q (unat n)"
  shows "ms_Read s (Some dest) n off =
    (if length xs \<le> q then Some (MX_E_EndOfFileReached, Some dest, 0, s)
     else Some (S_OK, Some (ys @ drop (length ys) dest), of_nat (length ys),
       if off = -1 then s\<lparr>ms_nCurrPos := ms_nCurrPos s + of_nat (length ys)\<rparr> else s))"
proof -
  define pos where "pos = (if off = -1 then ms_nCurrPos s else off)"
  have q: "q = unat pos"
    by (simp add: q_def ms_at_def pos_def)
  have size: "unat (ms_nSize s) = length xs"
    using rep by (simp add: ms_rep_def)
  show ?thesis
  proof (cases "length xs \<le> q")
    case True
    then have "pos \<ge> ms_nSize s"
      by (simp add: word_le_nat_alt q size)
    then show ?thesis
      using True by (auto simp: ms_Read_def pos_def)
  next
    case False
    then have lt: "pos < ms_nSize s"
      by (simp add: word_less_nat_alt q size)
    then have c: "\<not> (off = -1 \<and> ms_nCurrPos s \<ge> ms_nSize s \<or> off \<noteq> -1 \<and> off \<ge> ms_nSize s)"
      by (auto simp: pos_def not_le split: if_splits)
    define m where "m = (if n > ms_nSize s - pos then ms_nSize s - pos else n)"
    have diff: "unat (ms_nSize s - pos) = length xs - q"
      using lt by (simp add: unat_sub_le size q)
    then have m: "unat m = min (unat n) (length xs - q)"
      by (auto simp: m_def word_less_nat_alt min_def)
    have ys: "length ys = unat m" "ys = take (unat m) (drop q xs)"
      using m by (auto simp: ys_def read_part_def min_def)
    have "xs \<noteq> []"
      using False by auto
    then obtain b where b: "ms_lpData s = Some b" "length b = unat (ms_nAllocated s)" "take (length xs) b = xs"
      by (rule ms_rep_data [OF rep])
    have "length xs \<le> length b"
      using rep b(2) by (simp add: ms_rep_def)
    moreover have "take (unat m) (drop q b) = ys"
    proof -
      have "drop q xs = take (length xs - q) (drop q b)"
        using b(3) drop_take [of q "length xs" b] by simp
      then show ?thesis
        using m by (simp add: ys(2) min_def)
    qed
    ultimately have "block_read b (unat pos) (unat m) = Some ys"
      using m q False by (auto simp: block_read_def)
    moreover have "block_write dest 0 ys = Some (ys @ drop (length ys) dest)"
      using n ys(1) m by (auto simp: block_write_def)
    moreover have "of_nat (length ys) = m"
      by (simp add: ys(1))
    ultimately show ?thesis
      using False c b(1) by (simp add: ms_Read_def pos_def [symmetric] m_def [symmetric])
  qed
qed
text \<open>A write replaces what it covers and may go over the end.\<close>

definition overwrite :: "u8 list \<Rightarrow> nat \<Rightarrow> u8 list \<Rightarrow> u8 list" where
  "overwrite xs q ws = take q xs @ ws @ drop (q + length ws) xs"

lemma length_overwrite: "q \<le> length xs \<Longrightarrow> length (overwrite xs q ws) = max (length xs) (q + length ws)"
  by (auto simp: overwrite_def max_def)

lemma overwrite_block:
  assumes "q \<le> length xs" and "take (length xs) b = xs" and "q + length ws \<le> length b" and "length xs \<le> length b"
  shows "take (length (overwrite xs q ws)) (take q b @ ws @ drop (q + length ws) b) = overwrite xs q ws"
proof -
  obtain r where b: "b = xs @ r"
    using assms(2) by (metis append_take_drop_id)
  show ?thesis
    using assms(1,3) unfolding b by (cases "q + length ws \<le> length xs") (auto simp: overwrite_def)
qed

lemma ms_write_part:
  fixes off :: u64
  assumes rep: "ms_rep s xs" and q: "q = ms_at off (unat (ms_nCurrPos s))" "q \<le> length xs"
    and w: "length ws = unat n" "q + length ws \<le> unat (ms_nAllocated s)"
    and pos: "pos = (if off = -1 then ms_nCurrPos s else off)"
  shows "\<exists>s'. ms_put s ws pos n off = Some (S_OK, n, s') \<and> ms_rep s' (overwrite xs q ws) \<and> ms_bCanGrow s' = ms_bCanGrow s \<and>
      ms_nCurrPos s' = (if off = -1 then ms_nCurrPos s + n else ms_nCurrPos s)"
proof -
  have up: "unat pos = q"
    by (simp add: pos q(1) ms_at_def)
  have alloc: "unat (ms_nAllocated s) \<le> 2 ^ 47" "length xs \<le> unat (ms_nAllocated s)"
    using rep by (simp_all add: ms_rep_def)
  have sum: "unat (pos + n) = q + length ws"
    using w alloc up by (simp add: unat_add_small)
  define s1 where "s1 = (if off = -1 then s\<lparr>ms_nCurrPos := ms_nCurrPos s + n\<rparr> else s)"
  define s2 where "s2 = (if ms_nSize s1 < pos + n then s1\<lparr>ms_nSize := pos + n\<rparr> else s1)"
  have size: "unat (ms_nSize s) = length xs"
    using rep by (simp add: ms_rep_def)
  have s1: "ms_nSize s1 = ms_nSize s" "ms_lpData s1 = ms_lpData s" "ms_nAllocated s1 = ms_nAllocated s"
    "ms_nGranularity s1 = ms_nGranularity s" "ms_bCanGrow s1 = ms_bCanGrow s"
    by (simp_all add: s1_def)
  have s2: "ms_lpData s2 = ms_lpData s" "ms_nAllocated s2 = ms_nAllocated s" "ms_nGranularity s2 = ms_nGranularity s"
    "ms_bCanGrow s2 = ms_bCanGrow s" "ms_nCurrPos s2 = (if off = -1 then ms_nCurrPos s + n else ms_nCurrPos s)"
    by (simp_all add: s2_def s1) (simp add: s1_def)
  have len: "unat (ms_nSize s2) = length (overwrite xs q ws)"
    using size sum q(2) by (auto simp: s2_def s1 length_overwrite word_less_nat_alt max_def)
  have "ms_nCurrPos s2 \<le> ms_nSize s2"
  proof -
    have "unat (ms_nCurrPos s) \<le> length xs"
      using ms_rep_le [OF rep] by simp
    then show ?thesis
      using sum q(2) pos len by (auto simp: s2(5) word_le_nat_alt length_overwrite max_def split: if_splits)
  qed
  note cur = this
  have all: "length (overwrite xs q ws) \<le> unat (ms_nAllocated s)"
    using alloc w(2) q(2) by (simp add: length_overwrite)
  show ?thesis
  proof (cases "ws = []")
    case True
    then have "overwrite xs q ws = xs"
      by (simp add: overwrite_def)
    then have "ms_rep s2 (overwrite xs q ws)"
      using rep s2 len cur all by (simp add: ms_rep_def split: option.splits)
    then show ?thesis
      using True s2(4,5) by (auto simp: s1_def s2_def pos [symmetric] Let_def ms_put_def split: if_splits)
  next
    case False
    then obtain b where b: "ms_lpData s = Some b" "length b = unat (ms_nAllocated s)" "take (length xs) b = xs" "ms_nAllocated s \<noteq> 0"
      using rep w(2) by (auto simp: ms_rep_def split: option.splits)
    let ?b = "take q b @ ws @ drop (q + length ws) b"
    have wr: "block_write b q ws = Some ?b" "length ?b = length b"
      using w(2) b(2) False by (simp_all add: block_write_ok)
    have tk: "take (length (overwrite xs q ws)) ?b = overwrite xs q ws"
      using overwrite_block [OF q(2) b(3)] w(2) b(2) alloc(2) by simp
    have "ms_rep (s2\<lparr>ms_lpData := Some ?b\<rparr>) (overwrite xs q ws)"
      using rep s2 len cur all b wr(2) tk by (simp add: ms_rep_def)
    then show ?thesis
      using False s2(4,5) b(1) wr(1) up
      by (auto simp: s1_def s2_def pos [symmetric] Let_def ms_rep_def ms_put_def split: if_splits)
  qed
qed

lemma overwrite_Nil [simp]: "overwrite xs q [] = xs"
  by (simp add: overwrite_def)

text \<open>A write that starts inside of the bytes or right behind them.\<close>

lemma ms_Write_rep:
  fixes off :: u64
  assumes rep: "ms_rep s xs" and fair: "fair malloc" and q: "q = ms_at off (unat (ms_nCurrPos s))" "q \<le> length xs"
    and n: "unat n \<le> length src" "unat n \<le> 2 ^ 47"
  defines "ws \<equiv> (if ms_bCanGrow s then take (unat n) src else take (length xs - q) (take (unat n) src))"
  shows "(\<exists>s'. ms_Write malloc s (Some src) n off = Some (S_OK, of_nat (length ws), s') \<and> ms_rep s' (overwrite xs q ws) \<and>
      ms_bCanGrow s' = ms_bCanGrow s \<and>
      ms_nCurrPos s' = (if off = -1 then ms_nCurrPos s + of_nat (length ws) else ms_nCurrPos s)) \<or>
    ms_bCanGrow s \<and> length xs < q + unat n \<and> ms_Write malloc s (Some src) n off = Some (E_OUTOFMEMORY, 0, s) \<and>
      \<not> roomy malloc (q + unat n + 2 ^ 24)"
proof (cases "n = 0")
  case True
  then show ?thesis
    using rep by (intro disjI1 exI [of _ s]) (simp add: ms_Write_def ws_def)
next
  case False
  define pos where "pos = (if off = -1 then ms_nCurrPos s else off)"
  have up: "unat pos = q"
    by (simp add: pos_def q(1) ms_at_def)
  have size: "unat (ms_nSize s) = length xs" and le: "length xs \<le> unat (ms_nAllocated s)" "unat (ms_nAllocated s) \<le> 2 ^ 47"
    using rep by (simp_all add: ms_rep_def)
  have sum: "unat (pos + n) = q + unat n"
    using n(2) up q(2) le by (simp add: unat_add_small)
  have diff: "unat (ms_nSize s - pos) = length xs - q"
    using q(2) up size by (simp add: unat_sub_le word_le_nat_alt)
  have big: "\<not> off > SIZE_T_MAX"
    by (simp add: SIZE_T_MAX_def)
  have src: "length (take (unat n) src) = unat n" "block_read src 0 (unat n) = Some (take (unat n) src)"
    using n(1) by (simp_all add: block_read_ok)
  show ?thesis
  proof (cases "n > ms_nSize s - pos")
    case False
    then have fit: "q + unat n \<le> length xs"
      using diff q(2) by (simp add: word_less_nat_alt)
    then have ws: "ws = take (unat n) src" "length ws = unat n"
      using src(1) by (simp_all add: ws_def)
    then have "q + length ws \<le> unat (ms_nAllocated s)"
      using fit le by simp
    note put = ms_write_part [OF rep q ws(2) this pos_def]
    have "ms_Write malloc s (Some src) n off = ms_put s ws pos n off"
      using \<open>n \<noteq> 0\<close> big False src(2) ws(1) by (simp add: ms_Write_def pos_def [symmetric] Let_def)
    then show ?thesis
      using put ws(2) by auto
  next
    case True
    then have over: "length xs - q < unat n"
      using diff by (simp add: word_less_nat_alt)
    show ?thesis
    proof (cases "ms_bCanGrow s")
      case grow: True
      have ws: "ws = take (unat n) src" "length ws = unat n"
        using src(1) grow by (simp_all add: ws_def)
      have "unat (pos + n) < 2 ^ 60"
        using sum n(2) q(2) le by simp
      from ms_EnsureSize_rep [OF rep fair this] consider
          (ok) s1 where "ms_EnsureSize malloc s (pos + n) = (True, s1)" "ms_rep s1 xs" "unat (pos + n) \<le> unat (ms_nAllocated s1)"
            "ms_nSize s1 = ms_nSize s" "ms_nCurrPos s1 = ms_nCurrPos s" "ms_bCanGrow s1 = ms_bCanGrow s"
        | (no) "ms_EnsureSize malloc s (pos + n) = (False, s)" "\<not> roomy malloc (unat (pos + n) + 2 ^ 24)"
        by blast
      then show ?thesis
      proof cases
        case ok
        have q1: "q = ms_at off (unat (ms_nCurrPos s1))" and pos1: "pos = (if off = -1 then ms_nCurrPos s1 else off)"
          and room: "q + length ws \<le> unat (ms_nAllocated s1)"
          using ok q(1) sum ws(2) by (simp_all add: pos_def)
        note put = ms_write_part [OF ok(2) q1 q(2) ws(2) room pos1]
        have "ms_Write malloc s (Some src) n off = ms_put s1 ws pos n off"
          using \<open>n \<noteq> 0\<close> big True src(2) ws(1) grow ok(1) by (simp add: ms_Write_def pos_def [symmetric] Let_def)
        then show ?thesis
          using put ws(2) ok(5,6) by auto
      next
        case no
        then show ?thesis
          using \<open>n \<noteq> 0\<close> big True grow sum over q(2) by (simp add: ms_Write_def pos_def [symmetric] Let_def)
      qed
    next
      case fixed: False
      define m where "m = ms_nSize s - pos"
      have m: "unat m = length xs - q"
        using diff by (simp add: m_def)
      have ws: "ws = take (unat m) src" "length ws = unat m"
        using src(1) fixed over m n(1) by (simp_all add: ws_def min_def)
      have rd: "block_read src 0 (unat m) = Some ws"
        using over m n(1) by (simp add: block_read_ok ws(1))
      have "q + length ws \<le> unat (ms_nAllocated s)"
        using m ws(2) q(2) le by simp
      note put = ms_write_part [OF rep q ws(2) this pos_def]
      have "ms_Write malloc s (Some src) n off = ms_put s ws pos m off"
        using \<open>n \<noteq> 0\<close> big True rd fixed by (simp add: ms_Write_def pos_def [symmetric] m_def [symmetric] Let_def)
      then show ?thesis
        using put ws(2) by auto
    qed
  qed
qed

text \<open>Seeking, over the length and the position; an offset from the position is signed.\<close>

definition seek_to :: "nat \<Rightarrow> nat \<Rightarrow> u64 \<Rightarrow> eSeekMethod \<Rightarrow> nat option" where
  "seek_to len p n m = (case m of
     Start \<Rightarrow> Some (min (unat n) len)
   | Current \<Rightarrow>
       if sint n \<ge> 0 then Some (min (p + nat (sint n)) len)
       else if nat (- sint n) > p then None else Some (p - nat (- sint n))
   | End \<Rightarrow> Some (len - unat n))"

lemma sint_parts:
  "0 \<le> sint n \<Longrightarrow> nat (sint n) = unat n" "sint n < 0 \<Longrightarrow> unat (NOT n + 1) = nat (- sint n)" for n :: u64
proof -
  have b: "0 \<le> uint n" "uint n < 2 ^ 64"
    using uint_lt2p [of n] by simp_all
  have s: "sint n = uint n - 2 ^ 64 * of_bool (bit (uint n) 63)"
    using b by (simp add: sint_uint signed_take_bit_eq_take_bit_minus take_bit_int_eq_self)
  show "nat (sint n) = unat n" if "0 \<le> sint n"
    using that b unfolding s by (cases "bit (uint n) 63") simp_all
  show "unat (NOT n + 1) = nat (- sint n)" if "sint n < 0"
  proof -
    have e: "NOT n + 1 = - n"
      by (simp add: minus_eq_not_plus_1)
    have "sint n = uint n - 2 ^ 64"
      using that b unfolding s by (cases "bit (uint n) 63") simp_all
    moreover have "uint n \<noteq> 0"
      using that b unfolding s by (cases "bit (uint n) 63") auto
    moreover have "uint (- n) = (- uint n) mod 2 ^ 64"
      by (simp add: uint_word_ariths(4))
    ultimately have "uint (- n) = - sint n"
      using b by (simp add: zmod_zminus1_eq_if)
    then show ?thesis
      unfolding e by (simp only: unat_eq_nat_uint)
  qed
qed

lemma ms_rep_pos: "ms_rep s xs \<Longrightarrow> unat pos \<le> length xs \<Longrightarrow> ms_rep (s\<lparr>ms_nCurrPos := pos\<rparr>) xs"
  by (auto simp: ms_rep_def word_le_nat_alt split: option.splits)

lemma ms_Seek_rep:
  assumes rep: "ms_rep s xs"
  shows "case seek_to (length xs) (unat (ms_nCurrPos s)) n m of
      None \<Rightarrow> ms_Seek s n m = (E_FAIL, s)
    | Some p \<Rightarrow> \<exists>pos. ms_Seek s n m = (S_OK, s\<lparr>ms_nCurrPos := pos\<rparr>) \<and> unat pos = p \<and> ms_rep (s\<lparr>ms_nCurrPos := pos\<rparr>) xs"
proof -
  have size: "unat (ms_nSize s) = length xs" and cur: "ms_nCurrPos s \<le> ms_nSize s"
    using rep by (simp_all add: ms_rep_def)
  have rp: "ms_rep (s\<lparr>ms_nCurrPos := pos\<rparr>) xs" if "unat pos \<le> length xs" for pos
    using ms_rep_pos [OF rep that] .
  note w = word_less_nat_alt word_le_nat_alt size
  show ?thesis
  proof (cases m)
    case Start
    define p where "p = (if n > ms_nSize s then ms_nSize s else n)"
    have "unat p = min (unat n) (length xs)"
      by (simp add: p_def w min_def)
    then show ?thesis
      using Start rp [of p] by (auto simp: seek_to_def ms_Seek_def p_def [symmetric])
  next
    case End
    define p where "p = ms_nSize s - (if n > ms_nSize s then ms_nSize s else n)"
    have "unat p = length xs - unat n"
      by (auto simp: p_def unat_sub_le w)
    then show ?thesis
      using End rp [of p] by (auto simp: seek_to_def ms_Seek_def p_def [symmetric])
  next
    case Current
    show ?thesis
    proof (cases "0 \<le> sint n")
      case True
      define k where "k = (if n > ms_nSize s - ms_nCurrPos s then ms_nSize s - ms_nCurrPos s else n)"
      have uk: "unat k = min (unat n) (length xs - unat (ms_nCurrPos s))"
        using cur by (auto simp: k_def unat_sub_le w min_def)
      have le: "unat (ms_nCurrPos s) \<le> length xs" "length xs \<le> 2 ^ 47"
        using ms_rep_le [OF rep] by simp_all
      then have "unat k + unat (ms_nCurrPos s) < 2 ^ LENGTH(64)"
        unfolding uk by simp
      then have "unat (k + ms_nCurrPos s) = min (unat n) (length xs - unat (ms_nCurrPos s)) + unat (ms_nCurrPos s)"
        using uk by (simp only: unat_add_small)
      also have "\<dots> = min (unat (ms_nCurrPos s) + unat n) (length xs)"
        using le(1) by simp
      finally show ?thesis
        using Current True rp [of "k + ms_nCurrPos s"] by (auto simp: seek_to_def ms_Seek_def sint_parts(1) k_def [symmetric])
    next
      case False
      then have u: "unat (NOT n + 1) = nat (- sint n)"
        by (simp add: sint_parts(2))
      have gt: "NOT n + 1 > ms_nCurrPos s \<longleftrightarrow> nat (- sint n) > unat (ms_nCurrPos s)"
        unfolding word_less_nat_alt u ..
      show ?thesis
      proof (cases "nat (- sint n) > unat (ms_nCurrPos s)")
        case True
        then have "ms_Seek s n m = (E_FAIL, s)"
          using Current False gt by (simp add: ms_Seek_def Let_def)
        then show ?thesis
          using Current False True by (simp add: seek_to_def)
      next
        case in_range: False
        let ?p = "ms_nCurrPos s - (NOT n + 1)"
        have p: "unat ?p = unat (ms_nCurrPos s) - nat (- sint n)"
          using in_range gt u by (simp add: unat_sub_le not_less)
        have "ms_Seek s n m = (S_OK, s\<lparr>ms_nCurrPos := ?p\<rparr>)"
          using Current False in_range gt by (simp add: ms_Seek_def Let_def)
        moreover have "unat ?p \<le> length xs"
          using p ms_rep_le [OF rep] by linarith
        ultimately show ?thesis
          using Current False in_range rp [of ?p] p by (auto simp: seek_to_def)
      qed
    qed
  qed
qed

section \<open>Sessions\<close>

datatype ms_op = OpRead "u8 list" u64 | OpWrite "u8 list" u64 | OpSeek u64 eSeekMethod

datatype ms_out = GotRead HRESULT "u8 list" nat | GotWrite HRESULT nat | GotSeek HRESULT

fun ms_step :: "u8 allocator \<Rightarrow> mstream \<Rightarrow> ms_op \<Rightarrow> (ms_out \<times> mstream) option" where
  "ms_step malloc s (OpRead dest off) = do {
     (h, d, n, s) \<leftarrow> ms_Read s (Some dest) (of_nat (length dest)) off;
     Some (GotRead h (the d) (unat n), s)
   }"
| "ms_step malloc s (OpWrite src off) = do {
     (h, n, s) \<leftarrow> ms_Write malloc s (Some src) (of_nat (length src)) off;
     Some (GotWrite h (unat n), s)
   }"
| "ms_step malloc s (OpSeek n m) = (let (h, s) = ms_Seek s n m in Some (GotSeek h, s))"

fun ms_run :: "u8 allocator \<Rightarrow> mstream \<Rightarrow> ms_op list \<Rightarrow> (ms_out list \<times> mstream) option" where
  "ms_run malloc s [] = Some ([], s)"
| "ms_run malloc s (op # ops) = do {
     (r, s) \<leftarrow> ms_step malloc s op;
     (rs, s) \<leftarrow> ms_run malloc s ops;
     Some (r # rs, s)
   }"

text \<open>
  The same on a file: the bytes and the position. A file that may grow has a limit; one that may not
  takes what fits. A write that starts behind the end is not among the operations of a file.
\<close>

fun file_step :: "bool \<Rightarrow> nat \<Rightarrow> u8 list \<times> nat \<Rightarrow> ms_op \<Rightarrow> (ms_out \<times> u8 list \<times> nat) option" where
  "file_step grow limit (xs, p) (OpRead dest off) = (let q = ms_at off p; ys = read_part xs q (length dest) in
     if length xs \<le> q then Some (GotRead MX_E_EndOfFileReached dest 0, xs, p)
     else Some (GotRead S_OK (ys @ drop (length ys) dest) (length ys), xs, if off = -1 then p + length ys else p))"
| "file_step grow limit (xs, p) (OpWrite src off) = (let q = ms_at off p; ws = (if grow then src else take (length xs - q) src) in
     if length xs < q \<or> limit < q + length ws then None
     else Some (GotWrite S_OK (length ws), overwrite xs q ws, if off = -1 then p + length ws else p))"
| "file_step grow limit (xs, p) (OpSeek n m) = (case seek_to (length xs) p n m of
     None \<Rightarrow> Some (GotSeek E_FAIL, xs, p)
   | Some p' \<Rightarrow> Some (GotSeek S_OK, xs, p'))"

fun file_run :: "bool \<Rightarrow> nat \<Rightarrow> u8 list \<times> nat \<Rightarrow> ms_op list \<Rightarrow> (ms_out list \<times> u8 list \<times> nat) option" where
  "file_run grow limit f [] = Some ([], f)"
| "file_run grow limit f (op # ops) = do {
     (r, f) \<leftarrow> file_step grow limit f op;
     (rs, f) \<leftarrow> file_run grow limit f ops;
     Some (r # rs, f)
   }"

definition op_small :: "ms_op \<Rightarrow> bool" where
  "op_small op \<longleftrightarrow> (case op of OpRead dest off \<Rightarrow> length dest \<le> 2 ^ 47 | OpWrite src off \<Rightarrow> length src \<le> 2 ^ 47 | OpSeek n m \<Rightarrow> True)"

lemma u64_length: "length xs \<le> 2 ^ 47 \<Longrightarrow> unat (of_nat (length xs) :: u64) = length xs"
  by (simp only: unat_of_nat) simp

lemma ms_step_rep:
  assumes rep: "ms_rep s xs" and fair: "fair malloc" and room: "roomy malloc (limit + 2 ^ 24)" and small: "op_small op"
    and f: "file_step (ms_bCanGrow s) limit (xs, unat (ms_nCurrPos s)) op = Some (r, xs', p')"
  shows "\<exists>s'. ms_step malloc s op = Some (r, s') \<and> ms_rep s' xs' \<and> unat (ms_nCurrPos s') = p' \<and> ms_bCanGrow s' = ms_bCanGrow s"
proof (cases op)
  case (OpRead dest off)
  let ?n = "of_nat (length dest) :: u64" and ?q = "ms_at off (unat (ms_nCurrPos s))"
  let ?ys = "read_part xs ?q (length dest)"
  have n: "unat ?n = length dest"
    using small OpRead by (intro u64_length) (simp add: op_small_def)
  note rd = ms_Read_rep [OF rep, of ?n dest off, unfolded n]
  have le: "unat (ms_nCurrPos s) \<le> length xs" "length xs \<le> 2 ^ 47"
    using ms_rep_le [OF rep] by simp_all
  have ly: "length ?ys \<le> length xs - ?q" "length ?ys \<le> 2 ^ 47"
    using le(2) by (simp_all add: read_part_def)
  then have u: "unat (of_nat (length ?ys) :: u64) = length ?ys"
    by (intro u64_length)
  show ?thesis
  proof (cases "length xs \<le> ?q")
    case True
    then show ?thesis
      using rd f OpRead rep by (auto simp: Let_def)
  next
    case False
    let ?s = "if off = -1 then s\<lparr>ms_nCurrPos := ms_nCurrPos s + of_nat (length ?ys)\<rparr> else s"
    have "unat (ms_nCurrPos ?s) = p' \<and> ms_rep ?s xs"
    proof (cases "off = -1")
      case cur: True
      then have "?q = unat (ms_nCurrPos s)"
        by (simp add: ms_at_def)
      then have s2: "unat (ms_nCurrPos s + of_nat (length ?ys)) = unat (ms_nCurrPos s) + length ?ys"
        "unat (ms_nCurrPos s) + length ?ys \<le> length xs"
        using u le ly(1) by (simp_all add: unat_add_small)
      then have "ms_rep ?s xs"
        using ms_rep_pos [OF rep, of "ms_nCurrPos s + of_nat (length ?ys)"] cur by simp
      then show ?thesis
        using f OpRead False cur s2 by (auto simp: Let_def)
    next
      case no: False
      then show ?thesis
        using f OpRead False rep by (auto simp: Let_def)
    qed
    then show ?thesis
      using rd f OpRead False u by (auto simp: Let_def)
  qed
next
  case (OpWrite src off)
  let ?n = "of_nat (length src) :: u64" and ?q = "ms_at off (unat (ms_nCurrPos s))"
  let ?ws = "if ms_bCanGrow s then src else take (length xs - ?q) src"
  have small': "length src \<le> 2 ^ 47"
    using small OpWrite by (simp add: op_small_def)
  then have n: "unat ?n = length src"
    by (rule u64_length)
  have q: "?q \<le> length xs" "?q + length ?ws \<le> limit" "xs' = overwrite xs ?q ?ws" "r = GotWrite S_OK (length ?ws)"
    "p' = (if off = -1 then unat (ms_nCurrPos s) + length ?ws else unat (ms_nCurrPos s))"
    using f OpWrite by (auto simp: Let_def not_less split: if_splits)
  have lw: "length ?ws \<le> 2 ^ 47"
    using small' by (auto simp: min_le_iff_disj)
  then have u: "unat (of_nat (length ?ws) :: u64) = length ?ws"
    by (rule u64_length)
  have "roomy malloc (?q + length src + 2 ^ 24)" if "ms_bCanGrow s"
    using roomy_mono [OF room] q(2) that by simp
  then obtain s' where s': "ms_Write malloc s (Some src) ?n off = Some (S_OK, of_nat (length ?ws), s')"
    "ms_rep s' (overwrite xs ?q ?ws)" "ms_bCanGrow s' = ms_bCanGrow s"
    "ms_nCurrPos s' = (if off = -1 then ms_nCurrPos s + of_nat (length ?ws) else ms_nCurrPos s)"
    using ms_Write_rep [OF rep fair refl q(1), of ?n src] small' unfolding n by auto
  have "unat (ms_nCurrPos s) + length ?ws < 2 ^ 64"
    using ms_rep_le [OF rep] lw by simp
  then have "unat (ms_nCurrPos s') = p'"
    unfolding s'(4) q(5) using u by (simp add: unat_add_small)
  then show ?thesis
    using OpWrite s' u q(3,4) by auto
next
  case (OpSeek n m)
  then show ?thesis
    using ms_Seek_rep [OF rep, of n m] f rep by (auto split: option.splits)
qed

lemma ms_Write_gap:
  fixes off :: u64
  assumes rep: "ms_rep s xs" and n: "unat n \<le> length src" "unat n \<le> 2 ^ 47" and q: "q = ms_at off (unat (ms_nCurrPos s))"
    and gap: "length xs < q" "n \<noteq> 0" "q < 2 ^ 63"
  shows "if q + unat n \<le> unat (ms_nAllocated s)
    then \<exists>s' b. ms_Write malloc s (Some src) n off = Some (S_OK, n, s') \<and> ms_lpData s = Some b \<and>
      ms_rep s' (take q b @ take (unat n) src)
    else ms_Write malloc s (Some src) n off = None"
proof -
  have le: "unat (ms_nCurrPos s) \<le> length xs" "length xs \<le> 2 ^ 47"
    using ms_rep_le [OF rep] by simp_all
  then have off: "off \<noteq> -1"
    using q gap(1) by (auto simp: ms_at_def)
  then have uq: "unat off = q"
    using q by (simp add: ms_at_def)
  have size: "unat (ms_nSize s) = length xs"
    using rep by (simp add: ms_rep_def)
  have "ms_nSize s < off"
    using gap(1) by (simp add: word_less_nat_alt size uq)
  then have "unat (ms_nSize s - off) = 2 ^ 64 + length xs - q"
    using size uq gap(1) by (simp add: unat_sub_if_size not_le word_size)
  then have small: "\<not> n > ms_nSize s - off"
    using n(2) gap(3) by (simp add: word_less_nat_alt)
  have big: "\<not> off > SIZE_T_MAX"
    by (simp add: SIZE_T_MAX_def)
  let ?ws = "take (unat n) src"
  have ws: "length ?ws = unat n" "?ws \<noteq> []" "block_read src 0 (unat n) = Some ?ws"
    using n(1) gap(2) by (auto simp: block_read_ok unat_eq_zero)
  have w: "ms_Write malloc s (Some src) n off = ms_put s ?ws off n off"
    using gap(2) big small ws(3) off by (simp add: ms_Write_def)
  show ?thesis
  proof (cases "ms_lpData s")
    case None
    then have "unat (ms_nAllocated s) = 0"
      using rep by (simp add: ms_rep_def)
    moreover have "ms_put s ?ws off n off = None"
      using None ws(2) by (simp add: ms_put_def)
    ultimately show ?thesis
      using gap(1) w by simp
  next
    case (Some b)
    have b: "length b = unat (ms_nAllocated s)" "unat (ms_nAllocated s) \<le> 2 ^ 47"
      using rep Some by (simp_all add: ms_rep_def)
    show ?thesis
    proof (cases "q + unat n \<le> unat (ms_nAllocated s)")
      case False
      then have "block_write b q ?ws = None"
        using ws b by (simp add: block_write_def)
      then show ?thesis
        using False w Some ws(2) uq by (simp add: ms_put_def)
    next
      case True
      let ?b = "take q b @ ?ws @ drop (q + length ?ws) b"
      have wr: "block_write b q ?ws = Some ?b"
        using True b ws(1) by (simp add: block_write_ok)
      have sum: "unat (off + n) = q + unat n"
        using True b uq by (simp add: unat_add_small)
      then have grow: "ms_nSize s < off + n"
        using size gap(1) by (simp add: word_less_nat_alt)
      let ?s = "s\<lparr>ms_lpData := Some ?b, ms_nSize := off + n\<rparr>"
      have "ms_put s ?ws off n off = Some (S_OK, n, ?s)"
        using Some ws(2) wr uq off grow by (simp add: ms_put_def)
      moreover have "ms_rep ?s (take q b @ ?ws)"
      proof -
        have "length (take q b @ ?ws) = q + unat n" "take (q + unat n) ?b = take q b @ ?ws" "length ?b = length b"
          using True b ws(1) by simp_all
        moreover have "ms_nCurrPos s \<le> off + n"
          using le sum gap(1) by (simp add: word_le_nat_alt)
        moreover have "ms_nAllocated s \<noteq> 0"
          using True gap(1) by auto
        ultimately show ?thesis
          using rep True b sum by (simp add: ms_rep_def)
      qed
      ultimately show ?thesis
        using True w Some by auto
    qed
  qed
qed

section \<open>Copying\<close>

lemma overwrite_overwrite:
  "p \<le> length ys \<Longrightarrow> overwrite (overwrite ys p us) (p + length us) vs = overwrite ys p (us @ vs)"
  by (simp add: overwrite_def ac_simps)

lemma read_part_split:
  "read_part xs q n = read_part xs q k @ read_part xs (q + length (read_part xs q k)) (n - length (read_part xs q k))" if "k \<le> n"
proof (cases "length xs \<le> q + k")
  case True
  then have "length (read_part xs q k) = length xs - q"
    by (simp add: read_part_def)
  then show ?thesis
    using True that by (simp add: read_part_def)
next
  case False
  then have "length (read_part xs q k) = k"
    by (simp add: read_part_def)
  then show ?thesis
    using that take_add [of k "n - k" "drop q xs"] by (simp add: read_part_def add.commute)
qed

lemma copy_loop_rep:
  fixes off :: u64
  assumes fair: "fair malloc" and buf: "0 < length buf" "length buf \<le> 65536"
  shows "ms_rep s xs \<Longrightarrow> ms_rep t ys \<Longrightarrow> ms_bCanGrow t \<Longrightarrow>
    roomy malloc (unat (ms_nCurrPos t) + length (read_part xs (ms_at off (unat (ms_nCurrPos s))) (unat n)) + 2 ^ 24) \<Longrightarrow>
    \<exists>h s' t'. copy_loop malloc s t buf n w off =
        Some (h, w + of_nat (length (read_part xs (ms_at off (unat (ms_nCurrPos s))) (unat n))), s', t') \<and>
      h \<in> {S_OK, MX_E_EndOfFileReached} \<and> ms_rep s' xs \<and>
      ms_rep t' (overwrite ys (unat (ms_nCurrPos t)) (read_part xs (ms_at off (unat (ms_nCurrPos s))) (unat n)))"
  using buf
proof (induction "unat n" arbitrary: s t ys n w off buf rule: less_induct)
  case less
  note s = less.prems(1) and t = less.prems(2) and buf = less.prems(5,6)
  let ?q = "ms_at off (unat (ms_nCurrPos s))"
  show ?case
  proof (cases "n = 0")
    case True
    then show ?thesis
      using s t by (subst copy_loop.simps) (simp add: read_part_def)
  next
    case False
    have ub: "unat (of_nat (length buf) :: u64) = length buf"
      using buf(2) by (intro u64_length) simp
    define k where "k = (if n > of_nat (length buf) then of_nat (length buf) else n)"
    have k: "unat k = min (unat n) (length buf)"
      using ub by (auto simp: k_def word_less_nat_alt min_def)
    note rd = ms_Read_rep [OF s, of k buf off]
    let ?us = "read_part xs ?q (unat k)"
    show ?thesis
    proof (cases "length xs \<le> ?q")
      case True
      then have "read_part xs ?q m = []" for m
        by (simp add: read_part_def)
      then show ?thesis
        using True rd k s t \<open>n \<noteq> 0\<close> by (subst copy_loop.simps) (simp add: k_def [symmetric])
    next
      case inside: False
      have kn: "0 < unat k" "unat k \<le> unat n" "unat k \<le> length buf"
        using k buf(1) \<open>n \<noteq> 0\<close> by (auto simp: unat_eq_zero intro: gr_zeroI)
      have lu: "length ?us = min (unat k) (length xs - ?q)" "0 < length ?us" "length ?us \<le> 65536"
        using kn inside buf(2) by (auto simp: read_part_def min_def)
      have uu: "unat (of_nat (length ?us) :: u64) = length ?us"
        using lu(3) by (intro u64_length) simp
      let ?m = "of_nat (length ?us) :: u64"
      have m0: "?m \<noteq> 0"
        using lu(2) uu by (metis less_irrefl unat_0)
      let ?s = "if off = -1 then s\<lparr>ms_nCurrPos := ms_nCurrPos s + ?m\<rparr> else s"
      let ?buf = "?us @ drop (length ?us) buf"
      let ?off = "if off \<noteq> -1 then off + ?m else off"
      have rd': "ms_Read s (Some buf) k off = Some (S_OK, Some ?buf, ?m, ?s)"
        using rd kn(3) inside by simp
      have sxs: "length xs \<le> 2 ^ 47" "unat (ms_nCurrPos s) \<le> length xs"
        using ms_rep_le [OF s] by simp_all
      have sum: "unat ((if off = -1 then ms_nCurrPos s else off) + ?m) = ?q + length ?us" "?q + length ?us \<le> length xs"
        using uu lu(1) inside sxs by (auto simp: ms_at_def unat_add_small)
      have s1: "ms_rep ?s xs" "ms_at ?off (unat (ms_nCurrPos ?s)) = ?q + length ?us"
      proof -
        show "ms_rep ?s xs"
          using s ms_rep_pos [OF s, of "ms_nCurrPos s + ?m"] sum by auto
        have "off + ?m \<noteq> -1" if "off \<noteq> -1"
        proof
          assume "off + ?m = -1"
          then have "unat (- 1 :: u64) \<le> 2 ^ 47"
            using sum sxs(1) that by simp
          then show False
            by (simp add: unsigned_minus_1_eq_mask mask_eq_exp_minus_1)
        qed
        then show "ms_at ?off (unat (ms_nCurrPos ?s)) = ?q + length ?us"
          using sum(1) by (auto simp: ms_at_def)
      qed
      have split: "read_part xs ?q (unat n) = ?us @ read_part xs (?q + length ?us) (unat n - length ?us)"
        by (rule read_part_split [OF kn(2)])
      have nm: "unat (n - ?m) = unat n - length ?us" "unat n - length ?us < unat n"
        using uu lu(1,2) kn by (simp_all add: unat_sub_le word_le_nat_alt)
      have tp: "unat (ms_nCurrPos t) \<le> length ys" "length ys \<le> 2 ^ 47"
        using ms_rep_le [OF t] by simp_all
      have "roomy malloc (unat (ms_nCurrPos t) + unat ?m + 2 ^ 24)"
        using less.prems(4) unfolding split uu by (rule roomy_mono) simp
      moreover have "take (unat ?m) ?buf = ?us" "unat ?m \<le> length ?buf" "unat ?m \<le> 2 ^ 47"
        using uu lu(3) by simp_all
      ultimately obtain t1 where t1: "ms_Write malloc t (Some ?buf) ?m (-1) = Some (S_OK, ?m, t1)"
        "ms_rep t1 (overwrite ys (unat (ms_nCurrPos t)) ?us)" "ms_bCanGrow t1" "ms_nCurrPos t1 = ms_nCurrPos t + ?m"
        using ms_Write_rep [OF t fair refl, of "-1" ?m ?buf] less.prems(3) tp(1) by (auto simp: ms_at_def)
      have tp1: "unat (ms_nCurrPos t1) = unat (ms_nCurrPos t) + length ?us"
        using t1(4) uu tp lu(3) by (simp add: unat_add_small)
      have room1: "roomy malloc (unat (ms_nCurrPos t1) + length (read_part xs (ms_at ?off (unat (ms_nCurrPos ?s))) (unat (n - ?m))) + 2 ^ 24)"
        using less.prems(4) unfolding split tp1 s1(2) nm(1) by (simp add: add.assoc)
      have lb: "0 < length ?buf" "length ?buf \<le> 65536"
        using buf lu kn by simp_all
      have lt: "unat (n - ?m) < unat n"
        using nm by simp
      note IH = less.hyps [OF lt s1(1) t1(2,3) room1 lb, of "w + ?m"]
      have unfold: "copy_loop malloc s t buf n w off = copy_loop malloc ?s t1 ?buf (n - ?m) (w + ?m) ?off"
        using \<open>n \<noteq> 0\<close> rd' m0 t1(1) by (subst copy_loop.simps) (simp add: k_def [symmetric])
      show ?thesis
        using IH unfolding unfold split s1(2) nm(1) tp1 by (simp add: overwrite_overwrite [OF tp(1)] add.assoc)
    qed
  qed
qed

section \<open>Properties\<close>

text \<open>C23. A memory stream is a file: in every session of reads, writes and seeks, at the position or at an offset, the
  stream returns what the file returns and holds the bytes of the file at its position, as long as no write starts
  behind the end and the allocator grants what the session needs. Nothing outside of the block is touched, whatever
  the granularity is.\<close>

theorem stream_is_file:
  assumes "ms_rep s xs" and "fair malloc" and "roomy malloc (limit + 2 ^ 24)" and "\<forall>op \<in> set ops. op_small op"
    and "file_run (ms_bCanGrow s) limit (xs, unat (ms_nCurrPos s)) ops = Some (rs, xs', p')"
  shows "\<exists>s'. ms_run malloc s ops = Some (rs, s') \<and> ms_rep s' xs' \<and> unat (ms_nCurrPos s') = p' \<and>
    ms_GetLength s' = of_nat (length xs')"
  using assms(1,4,5)
proof (induction ops arbitrary: s xs rs)
  case Nil
  then have "unat (ms_GetLength s) = length xs'"
    by (simp add: ms_GetLength_def ms_rep_def)
  then have "ms_GetLength s = of_nat (length xs')"
    by (auto simp flip: \<open>unat (ms_GetLength s) = length xs'\<close>)
  then show ?case
    using Nil by simp
next
  case (Cons op ops)
  obtain r xs1 p1 rs1 where f: "file_step (ms_bCanGrow s) limit (xs, unat (ms_nCurrPos s)) op = Some (r, xs1, p1)"
    "file_run (ms_bCanGrow s) limit (xs1, p1) ops = Some (rs1, xs', p')" "rs = r # rs1"
    using Cons.prems(3) by (auto simp: bind_eq_Some_conv)
  obtain s1 where s1: "ms_step malloc s op = Some (r, s1)" "ms_rep s1 xs1" "unat (ms_nCurrPos s1) = p1" "ms_bCanGrow s1 = ms_bCanGrow s"
    using ms_step_rep [OF Cons.prems(1) assms(2,3) _ f(1)] Cons.prems(2) by auto
  then show ?case
    using Cons.IH [OF s1(2), of rs1] Cons.prems(2) f(2,3) by auto
qed

text \<open>C24. A write on every path: no bytes and a null source; a write that starts inside of the bytes or right behind them
  replaces what it covers and makes the stream longer, or takes what fits when the stream may not grow, and fails only
  when the allocator refuses a block, which leaves the stream as it was. A write that starts behind the end (at a
  position below \<open>2 ^ 63\<close>) does not
  make room: it faults unless the block happens to be large enough, and then the bytes in between are the old
  contents of the block.\<close>

theorem stream_write:
  fixes off :: u64
  assumes "ms_rep s xs" and "fair malloc" and "unat n \<le> length src" and "unat n \<le> 2 ^ 47" and "q = ms_at off (unat (ms_nCurrPos s))"
  shows "ms_Write malloc s None 0 off = Some (S_OK, 0, s) \<and> (n \<noteq> 0 \<longrightarrow> ms_Write malloc s None n off = Some (E_POINTER, 0, s)) \<and>
    (q \<le> length xs \<longrightarrow> (let ws = (if ms_bCanGrow s then take (unat n) src else take (length xs - q) (take (unat n) src)) in
      (\<exists>s'. ms_Write malloc s (Some src) n off = Some (S_OK, of_nat (length ws), s') \<and> ms_rep s' (overwrite xs q ws)) \<or>
      ms_bCanGrow s \<and> ms_Write malloc s (Some src) n off = Some (E_OUTOFMEMORY, 0, s) \<and> \<not> roomy malloc (q + unat n + 2 ^ 24))) \<and>
    (length xs < q \<and> n \<noteq> 0 \<and> q < 2 ^ 63 \<longrightarrow>
      (if q + unat n \<le> unat (ms_nAllocated s)
       then \<exists>s' b. ms_Write malloc s (Some src) n off = Some (S_OK, n, s') \<and> ms_lpData s = Some b \<and>
         ms_rep s' (take q b @ take (unat n) src)
       else ms_Write malloc s (Some src) n off = None))"
proof (intro conjI impI)
  show "ms_Write malloc s None 0 off = Some (S_OK, 0, s)" "n \<noteq> 0 \<Longrightarrow> ms_Write malloc s None n off = Some (E_POINTER, 0, s)"
    by (simp_all add: ms_Write_def)
  show "let ws = (if ms_bCanGrow s then take (unat n) src else take (length xs - q) (take (unat n) src)) in
      (\<exists>s'. ms_Write malloc s (Some src) n off = Some (S_OK, of_nat (length ws), s') \<and> ms_rep s' (overwrite xs q ws)) \<or>
      ms_bCanGrow s \<and> ms_Write malloc s (Some src) n off = Some (E_OUTOFMEMORY, 0, s) \<and> \<not> roomy malloc (q + unat n + 2 ^ 24)"
    if "q \<le> length xs"
    using ms_Write_rep [OF assms(1,2,5) that assms(3,4)] unfolding Let_def by blast
  assume gap: "length xs < q \<and> n \<noteq> 0 \<and> q < 2 ^ 63"
  show "if q + unat n \<le> unat (ms_nAllocated s)
       then \<exists>s' b. ms_Write malloc s (Some src) n off = Some (S_OK, n, s') \<and> ms_lpData s = Some b \<and>
         ms_rep s' (take q b @ take (unat n) src)
       else ms_Write malloc s (Some src) n off = None"
    using ms_Write_gap [OF assms(1,3,4,5)] gap by blast
qed
lemma stream_write_witness:
  "ms_Write zeros (CMemoryStream 0) (Some [1, 2]) 2 1 = None \<and>
   ms_Write zeros (CMemoryStream 0) (Some [1, 2]) 2 (-1) = Some (S_OK, 0, CMemoryStream 0)"
proof
  have e: "(1 :: u64) \<noteq> -1" "unat (2 :: u64) \<le> length [1, 2 :: u8]" "unat (2 :: u64) \<le> 2 ^ 47"
    by simp_all
  note w = stream_write [OF ms_rep_new fair_zeros e(2,3)]
  show "ms_Write zeros (CMemoryStream 0) (Some [1, 2]) 2 1 = None"
    using w [OF refl, of 0 1] e(1) by (simp add: ms_at_def CMemoryStream_def)
  obtain s' where s': "ms_Write zeros (CMemoryStream 0) (Some [1, 2]) 2 (-1) = Some (S_OK, 0, s')"
    using w [OF refl, of 0 "-1"] by (auto simp: ms_at_def CMemoryStream_def Let_def)
  then show "ms_Write zeros (CMemoryStream 0) (Some [1, 2]) 2 (-1) = Some (S_OK, 0, CMemoryStream 0)"
    by (auto simp: ms_Write_def ms_put_def CMemoryStream_def block_read_def)
qed

text \<open>An allocator for the examples: zeros, up to 32 MB.\<close>

definition plenty :: "u8 allocator" where
  "plenty n = (if unat n \<le> 2 ^ 25 then Some (replicate (unat n) 0) else None)"

lemma plenty_ok: "fair plenty" "b \<le> 2 ^ 25 \<Longrightarrow> roomy plenty b"
  by (auto simp: fair_def roomy_def plenty_def split: if_splits)

lemma stream_is_file_witness:
  "\<exists>s'. ms_run plenty ((CMemoryStream 0)\<lparr>ms_bCanGrow := True\<rparr>)
      [OpWrite [1, 2, 3] (-1), OpWrite [9] 1, OpSeek (-2) Current, OpRead [0, 0, 0, 0] (-1)] =
    Some ([GotWrite S_OK 3, GotWrite S_OK 1, GotSeek S_OK, GotRead S_OK [9, 3, 0, 0] 2], s') \<and> ms_rep s' [1, 9, 3]"
proof -
  let ?s = "(CMemoryStream 0)\<lparr>ms_bCanGrow := True\<rparr>"
  let ?ops = "[OpWrite [1, 2, 3] (-1), OpWrite [9] 1, OpSeek (-2) Current, OpRead [0, 0, 0, 0] (-1)]"
  have rep: "ms_rep ?s []"
    using ms_rep_new [of 0] by (auto simp: ms_rep_def CMemoryStream_def)
  have room: "roomy plenty (3 + 2 ^ 24)"
    by (rule plenty_ok(2)) simp
  have small: "\<forall>op \<in> set ?ops. op_small op"
    by (simp add: op_small_def)
  have "file_run True 3 ([], 0) ?ops = Some ([GotWrite S_OK 3, GotWrite S_OK 1, GotSeek S_OK, GotRead S_OK [9, 3, 0, 0] 2], [1, 9, 3], 3)"
    by (simp add: ms_at_def overwrite_def seek_to_def read_part_def Let_def)
  then have "file_run (ms_bCanGrow ?s) 3 ([], unat (ms_nCurrPos ?s)) ?ops =
      Some ([GotWrite S_OK 3, GotWrite S_OK 1, GotSeek S_OK, GotRead S_OK [9, 3, 0, 0] 2], [1, 9, 3], 3)"
    by (simp add: CMemoryStream_def)
  then show ?thesis
    using stream_is_file [OF rep plenty_ok(1) room small] by blast
qed

text \<open>C25. \<open>CopyTo\<close> ends and writes exactly the bytes that the source holds from its position, or from the offset, on,
  at most \<open>nBytes\<close>, at the position of the target, with a buffer from the heap or from the stack; the end of the
  source is no error, and the source keeps its bytes. The target may grow, and the allocator has room for the
  bytes and for what a growing block takes in addition.\<close>

theorem stream_copy:
  assumes "ms_rep s xs" and "ms_rep t ys" and "ms_bCanGrow t" and "fair malloc"
    and "part = read_part xs (ms_at off (unat (ms_nCurrPos s))) (unat n)"
    and "roomy malloc (unat (ms_nCurrPos t) + length part + 2 ^ 24)"
  shows "ms_CopyTo malloc s None n off = Some (E_POINTER, 0, s, None) \<and>
    (\<exists>s' t'. ms_CopyTo malloc s (Some t) n off = Some (S_OK, of_nat (length part), s', Some t') \<and> ms_rep s' xs \<and>
      ms_rep t' (overwrite ys (unat (ms_nCurrPos t)) part))"
proof -
  define buf where "buf = (case malloc 65536 of Some b \<Rightarrow> b | None \<Rightarrow> replicate 1024 0)"
  have buf: "0 < length buf" "length buf \<le> 65536"
    using fairD(1) [OF assms(4), of 65536] by (auto simp: buf_def split: option.split)
  from copy_loop_rep [OF assms(4) buf assms(1-3), of off n 0] assms(5,6) show ?thesis
    by (auto simp: ms_CopyTo_def buf_def [symmetric])
qed

lemma stream_copy_witness:
  "\<exists>s t s' t'. ms_rep s [1, 2, 3] \<and> ms_CopyTo plenty s (Some t) 5 1 = Some (S_OK, 2, s', Some t') \<and> ms_rep t' [2, 3]"
proof -
  let ?s = "\<lparr>ms_lpData = Some [1, 2, 3], ms_nCurrPos = 0, ms_nSize = 3, ms_nAllocated = 3, ms_nGranularity = 256, ms_bCanGrow = False\<rparr>"
  let ?t = "(CMemoryStream 0)\<lparr>ms_bCanGrow := True\<rparr>"
  have s: "ms_rep ?s [1, 2, 3]"
    by (auto simp: ms_rep_def intro: exI [of _ 8])
  have t: "ms_rep ?t []" "ms_bCanGrow ?t"
    using ms_rep_new [of 0] by (auto simp: ms_rep_def CMemoryStream_def)
  have p: "[2, 3] = read_part [1, 2, 3 :: u8] (ms_at 1 (unat (ms_nCurrPos ?s))) (unat (5 :: u64))"
    by (simp add: read_part_def ms_at_def)
  have room: "roomy plenty (unat (ms_nCurrPos ?t) + length [2, 3 :: u8] + 2 ^ 24)"
    by (rule plenty_ok(2)) (simp add: CMemoryStream_def)
  from stream_copy [OF s t plenty_ok(1) p room] s show ?thesis
    by (auto simp: CMemoryStream_def overwrite_def)
qed

text \<open>A stream that \<open>Create\<close> makes with a size and without growth keeps the length 0, so it takes no byte.\<close>

lemma fixed_stream_takes_nothing:
  assumes "ms_rep s xs" and "fair malloc" and "unat n < 2 ^ 60" and "ms_Create malloc s n False = (S_OK, s1)"
  shows "ms_Write malloc s1 (Some src) k (-1) = Some (S_OK, 0, s1)"
proof -
  have "ms_nSize s1 = 0 \<and> ms_nCurrPos s1 = 0 \<and> \<not> ms_bCanGrow s1"
  proof (cases "n > 0")
    case True
    then show ?thesis
      using ms_EnsureSize_rep [OF ms_rep_Close [OF assms(1)] assms(2,3)] assms(4)
      by (auto simp: ms_Create_def Let_def ms_Close_def split: prod.splits if_splits)
  next
    case False
    then show ?thesis
      using assms(4) by (auto simp: ms_Create_def Let_def ms_Close_def)
  qed
  then show ?thesis
    using word_gt_0 [of k] by (cases "k = 0") (simp_all add: ms_Write_def ms_put_def block_read_def Let_def)
qed

end
