(* ===== verification/Fnv.thy ===== *)
theory Fnv
  imports MX_Prelude
begin

unbundle bit_operations_syntax

text \<open>
  The Fowler/Noll/Vo hashes of \<open>Source/FnvHash.cpp\<close>, which multiply by the prime with shifts. A buffer
  is the list of its octets.
\<close>

definition FNV1A_32_INIT :: u32 where
  "FNV1A_32_INIT = 0x811C9DC5"

definition FNV1A_64_INIT :: u64 where
  "FNV1A_64_INIT = 0xCBF29CE484222325"

fun fnv_32a_buf :: "u8 list \<Rightarrow> u32 \<Rightarrow> u32" where
  "fnv_32a_buf [] hval = hval"
| "fnv_32a_buf (b # bs) hval =
     (let hval = hval XOR ucast b;
          hval = hval + (push_bit 1 hval + push_bit 4 hval + push_bit 7 hval + push_bit 8 hval + push_bit 24 hval)
      in fnv_32a_buf bs hval)"

fun fnv_64a_buf :: "u8 list \<Rightarrow> u64 \<Rightarrow> u64" where
  "fnv_64a_buf [] hval = hval"
| "fnv_64a_buf (b # bs) hval =
     (let hval = hval XOR ucast b;
          hval = hval + (push_bit 1 hval + push_bit 4 hval + push_bit 5 hval + push_bit 7 hval + push_bit 8 hval + push_bit 40 hval)
      in fnv_64a_buf bs hval)"

text \<open>The definition of FNV-1a: exclusive or with the octet, then multiplication by the prime.\<close>

definition fnv1a :: "'a::len word \<Rightarrow> u8 list \<Rightarrow> 'a word \<Rightarrow> 'a word" where
  "fnv1a prime bs hval = fold (\<lambda>b h. (h XOR ucast b) * prime) bs hval"

lemma fnv1a_simps [simp]: "fnv1a p [] h = h" "fnv1a p (b # bs) h = fnv1a p bs ((h XOR ucast b) * p)"
  by (simp_all add: fnv1a_def)

lemma fnv1a_append: "fnv1a p (xs @ ys) h = fnv1a p ys (fnv1a p xs h)"
  by (simp add: fnv1a_def)

lemma fnv_prime: "h + (push_bit 1 h + push_bit 4 h + push_bit 7 h + push_bit 8 h + push_bit 24 h) = h * 0x01000193" for h :: u32
  by (simp add: push_bit_eq_mult algebra_simps)

lemma fnv_prime_64: "h + (push_bit 1 h + push_bit 4 h + push_bit 5 h + push_bit 7 h + push_bit 8 h + push_bit 40 h) =
    h * 0x100000001B3" for h :: u64
  by (simp add: push_bit_eq_mult algebra_simps)

lemma fnv_32a: "fnv_32a_buf bs h = fnv1a 0x01000193 bs h"
  by (induction bs arbitrary: h) (simp_all only: fnv_32a_buf.simps fnv1a_simps Let_def fnv_prime)

lemma fnv_64a: "fnv_64a_buf bs h = fnv1a 0x100000001B3 bs h"
  by (induction bs arbitrary: h) (simp_all only: fnv_64a_buf.simps fnv1a_simps Let_def fnv_prime_64)

text \<open>Both hashes are FNV-1a with the primes of the standard, whole or block after block: hashing the parts of a buffer,
  each with the hash of the parts before it, is hashing the buffer.\<close>

theorem fnv_hashes:
  "fnv_32a_buf bs h = fnv1a 0x01000193 bs h \<and> fnv_64a_buf bs k = fnv1a 0x100000001B3 bs k \<and>
   fnv_32a_buf cs (fnv_32a_buf bs FNV1A_32_INIT) = fnv_32a_buf (bs @ cs) FNV1A_32_INIT \<and>
   fnv_64a_buf cs (fnv_64a_buf bs FNV1A_64_INIT) = fnv_64a_buf (bs @ cs) FNV1A_64_INIT"
  by (simp add: fnv_32a fnv_64a fnv1a_append)

end
