(* ===== verification/WebSocket.thy ===== *)
theory WebSocket
  imports Fnv CircularBuffer
begin

unbundle bit_operations_syntax

text \<open>
  The WebSocket connection of \<open>Source/Http/WebSockets.cpp\<close>. The sending side cuts a message into frames;
  the receiving side is a state machine over the bytes that wait in the circular buffer of the
  connection. \<open>None\<close> is an access outside of a buffer or, for the sender, a call that waits for the lock.

  The state that the automaton of the frame headers uses is a record of its own, which the buffers of
  the messages extend. What the environment provides is a record of parameters: the side of the
  connection, the limit of the message size (a virtual function), the clock and the address that the
  masking key is made of, the results of sending and of finding the connection.
\<close>

section \<open>Constants\<close>

definition OPCODE_Continuation :: u8 where "OPCODE_Continuation = 0"
definition OPCODE_Text :: u8 where "OPCODE_Text = 1"
definition OPCODE_Binary :: u8 where "OPCODE_Binary = 2"
definition OPCODE_ConnectionClose :: u8 where "OPCODE_ConnectionClose = 8"
definition OPCODE_Ping :: u8 where "OPCODE_Ping = 9"
definition OPCODE_Pong :: u8 where "OPCODE_Pong = 10"
definition OPCODE_NONE :: u8 where "OPCODE_NONE = 15"
definition OPCODE_ControlFrameMask :: u8 where "OPCODE_ControlFrameMask = 0x08"

lemmas opcodes = OPCODE_Continuation_def OPCODE_Text_def OPCODE_Binary_def OPCODE_ConnectionClose_def OPCODE_Ping_def
  OPCODE_Pong_def OPCODE_NONE_def OPCODE_ControlFrameMask_def

definition SEND_PAYLOAD_SIZE :: nat where "SEND_PAYLOAD_SIZE = 16384"
definition RECEIVE_DATA_BLOCK_SIZE :: nat where "RECEIVE_DATA_BLOCK_SIZE = 16384"
definition XOR_PING :: u32 where "XOR_PING = 0xA64F239A"

section \<open>Frame headers\<close>

text \<open>The bit fields of \<open>FRAME_HEADER\<close>: \<open>nOpcode\<close>, \<open>nRsv\<close>, \<open>nFin\<close> in the first byte, \<open>nPayloadLen\<close>, \<open>nMask\<close> in the second.\<close>

definition fh_nOpcode :: "u8 \<Rightarrow> u8" where "fh_nOpcode b = b AND 0x0F"
definition fh_nRsv :: "u8 \<Rightarrow> u8" where "fh_nRsv b = drop_bit 4 b AND 0x07"
definition fh_nFin :: "u8 \<Rightarrow> u8" where "fh_nFin b = drop_bit 7 b"
definition fh_nPayloadLen :: "u8 \<Rightarrow> u8" where "fh_nPayloadLen b = b AND 0x7F"
definition fh_nMask :: "u8 \<Rightarrow> u8" where "fh_nMask b = drop_bit 7 b"

record ws_env =
  we_bServerSide :: bool
  we_nMaxMessageSize :: u64
  we_nTickCount :: u32
  we_this :: u64
  we_SendMsg :: "u8 list \<Rightarrow> HRESULT"
  we_hConn :: HRESULT

definition le_bytes :: "nat \<Rightarrow> 'a::len word \<Rightarrow> u8 list" where
  "le_bytes n w = map (\<lambda>i. ucast (drop_bit (8 * i) w)) [0..<n]"

text \<open>The loop that applies the masking key, from an index on.\<close>

fun mask_from :: "u8 list \<Rightarrow> nat \<Rightarrow> u8 list \<Rightarrow> u8 list" where
  "mask_from key i [] = []"
| "mask_from key i (x # xs) = (x XOR key ! (i mod 4)) # mask_from key (i + 1) xs"

definition frame_key :: "ws_env \<Rightarrow> u8 list \<Rightarrow> u8 list \<Rightarrow> u8 list" where
  "frame_key env header payload = le_bytes 4 (fnv_32a_buf payload (fnv_32a_buf header
     (fnv_32a_buf (le_bytes 8 (we_this env)) (fnv_32a_buf (le_bytes 4 (we_nTickCount env)) FNV1A_32_INIT))))"

text \<open>\<open>BuildFrame\<close>: the bytes of the header, and the buffer of the payload, which it masks in place.\<close>

definition BuildFrame :: "ws_env \<Rightarrow> u8 list \<Rightarrow> u32 \<Rightarrow> u8 \<Rightarrow> bool \<Rightarrow> (u8 list \<times> u8 list) option" where
  "BuildFrame env lpPayload nPayloadSize nOpcode bFinal =
     (let h0 = (nOpcode AND 0x0F) OR (if bFinal then 0x80 else 0);
          (nLen, aExtended) =
            (if nPayloadSize \<ge> 65536 then (127, [0, 0, 0, 0, ucast (drop_bit 24 nPayloadSize), ucast (drop_bit 16 nPayloadSize),
               ucast (drop_bit 8 nPayloadSize), ucast nPayloadSize])
             else if nPayloadSize \<ge> 126 then (126, [ucast (drop_bit 8 nPayloadSize), ucast nPayloadSize])
             else (ucast nPayloadSize, []))
      in if we_bServerSide env then Some (h0 # nLen # aExtended, lpPayload)
         else do {
           xs \<leftarrow> block_read lpPayload 0 (unat nPayloadSize);
           let key = frame_key env [h0, nLen OR 0x80] xs;
           lpPayload \<leftarrow> block_write lpPayload 0 (mask_from key 0 xs);
           Some (h0 # (nLen OR 0x80) # aExtended @ key, lpPayload)
         })"

section \<open>Sending\<close>

text \<open>The lock holds the id of the thread that sends, or 0; \<open>lpFrameData\<close> is an offset into the buffer.\<close>

record wsend =
  sd_nSendInProgressMutex :: u32
  sd_nOpcode :: u8
  sd_cFrameBuffer :: "u8 list option"
  sd_lpFrameData :: "nat option"
  sd_nFilledFrame :: u32
  sd_sent :: "u8 list list"

definition wsend_new :: wsend where
  "wsend_new = \<lparr>sd_nSendInProgressMutex = 0, sd_nOpcode = OPCODE_NONE, sd_cFrameBuffer = None, sd_lpFrameData = None,
     sd_nFilledFrame = 0, sd_sent = []\<rparr>"

definition BeginMessage :: "u8 allocator \<Rightarrow> u8 \<Rightarrow> u32 \<Rightarrow> wsend \<Rightarrow> (HRESULT \<times> wsend) option" where
  "BeginMessage malloc nOpcode tid s =
     (if sd_nSendInProgressMutex s \<noteq> 0 then None
      else let s = s\<lparr>sd_nSendInProgressMutex := tid, sd_nOpcode := nOpcode\<rparr> in
        case sd_cFrameBuffer s of
          Some _ \<Rightarrow> Some (S_OK, s)
        | None \<Rightarrow> (case malloc (of_nat SEND_PAYLOAD_SIZE) of
            None \<Rightarrow> Some (E_OUTOFMEMORY, s\<lparr>sd_nSendInProgressMutex := 0\<rparr>)
          | Some b \<Rightarrow> Some (S_OK, s\<lparr>sd_cFrameBuffer := Some b\<rparr>)))"

definition BeginTextMessage :: "u8 allocator \<Rightarrow> u32 \<Rightarrow> wsend \<Rightarrow> (HRESULT \<times> wsend) option" where
  "BeginTextMessage malloc = BeginMessage malloc OPCODE_Text"

definition BeginBinaryMessage :: "u8 allocator \<Rightarrow> u32 \<Rightarrow> wsend \<Rightarrow> (HRESULT \<times> wsend) option" where
  "BeginBinaryMessage malloc = BeginMessage malloc OPCODE_Binary"

text \<open>One message to the connection: it is sent, or the call fails.\<close>

definition SendMsg :: "ws_env \<Rightarrow> u8 list \<Rightarrow> u8 list list \<Rightarrow> HRESULT \<times> u8 list list" where
  "SendMsg env m sent = (if we_SendMsg env m = S_OK then (S_OK, sent @ [m]) else (we_SendMsg env m, sent))"

definition InternalSendFrame :: "ws_env \<Rightarrow> bool \<Rightarrow> wsend \<Rightarrow> (HRESULT \<times> wsend) option" where
  "InternalSendFrame env bFinalFrame s = do {
     b \<leftarrow> sd_cFrameBuffer s;
     (header, b) \<leftarrow> BuildFrame env b (sd_nFilledFrame s) (sd_nOpcode s) bFinalFrame;
     let s = s\<lparr>sd_cFrameBuffer := Some b\<rparr>;
     let (hRes, sent) = SendMsg env header (sd_sent s);
     if hRes = S_OK then do {
       xs \<leftarrow> block_read b 0 (unat (sd_nFilledFrame s));
       let (hRes, sent) = SendMsg env xs sent;
       Some (hRes, s\<lparr>sd_sent := sent\<rparr>)
     }
     else Some (hRes, s\<lparr>sd_sent := sent\<rparr>)
   }"

text \<open>The loop of \<open>SendBinaryMessage\<close> over the data that is left.\<close>

partial_function (option) send_loop :: "ws_env \<Rightarrow> u8 list \<Rightarrow> wsend \<Rightarrow> (HRESULT \<times> wsend) option" where
  "send_loop env data s =
     (if data = [] then Some (S_OK, s)
      else do {
        (hRes, s) \<leftarrow> (if unat (sd_nFilledFrame s) \<ge> SEND_PAYLOAD_SIZE then do {
            (hRes, s) \<leftarrow> InternalSendFrame env False s;
            Some (hRes, if hRes = S_OK then s\<lparr>sd_nOpcode := OPCODE_Continuation, sd_lpFrameData := None, sd_nFilledFrame := 0\<rparr> else s)
          }
          else Some (S_OK, s));
        if hRes \<noteq> S_OK then Some (hRes, s)
        else do {
          let s = (if sd_lpFrameData s = None then s\<lparr>sd_lpFrameData := Some 0\<rparr> else s);
          let nToWrite = min (SEND_PAYLOAD_SIZE - unat (sd_nFilledFrame s)) (length data);
          off \<leftarrow> sd_lpFrameData s;
          b \<leftarrow> sd_cFrameBuffer s;
          b \<leftarrow> block_write b off (take nToWrite data);
          send_loop env (drop nToWrite data)
            (s\<lparr>sd_cFrameBuffer := Some b, sd_nFilledFrame := sd_nFilledFrame s + of_nat nToWrite\<rparr>)
        }
      })"

definition SendBinaryMessage :: "ws_env \<Rightarrow> u32 \<Rightarrow> u8 list option \<Rightarrow> u64 \<Rightarrow> wsend \<Rightarrow> (HRESULT \<times> wsend) option" where
  "SendBinaryMessage env tid lpData nDataLen s =
     (if sd_nSendInProgressMutex s \<noteq> tid then Some (MX_E_NotReady, s)
      else if nDataLen = 0 then Some (S_OK, s)
      else case lpData of
        None \<Rightarrow> Some (E_POINTER, s\<lparr>sd_nSendInProgressMutex := 0\<rparr>)
      | Some data \<Rightarrow> do { xs \<leftarrow> block_read data 0 (unat nDataLen); send_loop env xs s })"

definition EndMessage :: "ws_env \<Rightarrow> u32 \<Rightarrow> wsend \<Rightarrow> (HRESULT \<times> wsend) option" where
  "EndMessage env tid s =
     (if sd_nSendInProgressMutex s \<noteq> tid then Some (MX_E_NotReady, s)
      else do {
        (hRes, s) \<leftarrow> (if sd_nFilledFrame s > 0 then InternalSendFrame env True s else Some (S_OK, s));
        if hRes \<noteq> S_OK then Some (hRes, s\<lparr>sd_nSendInProgressMutex := 0\<rparr>)
        else Some (S_OK, s\<lparr>sd_nOpcode := OPCODE_NONE, sd_lpFrameData := None, sd_nFilledFrame := 0, sd_nSendInProgressMutex := 0\<rparr>)
      })"

text \<open>Control frames; the assertion on the size exists in debug builds only.\<close>

definition InternalSendControlFrame :: "ws_env \<Rightarrow> u8 \<Rightarrow> u8 list \<Rightarrow> u32 \<Rightarrow> u8 list list \<Rightarrow> (HRESULT \<times> u8 list \<times> u8 list list) option" where
  "InternalSendControlFrame env nOpcode lpPayload nPayloadSize sent = do {
     (header, b) \<leftarrow> BuildFrame env lpPayload nPayloadSize nOpcode True;
     let (hRes, sent) = SendMsg env header sent;
     if hRes = S_OK \<and> nPayloadSize > 0 then do {
       xs \<leftarrow> block_read b 0 (unat nPayloadSize);
       let (hRes, sent) = SendMsg env xs sent;
       Some (hRes, b, sent)
     }
     else Some (hRes, b, sent)
   }"

text \<open>\<open>SendClose\<close> and \<open>SendPing\<close>; a reason is the list of its characters, [] for a null pointer.\<close>

definition SendClose :: "ws_env \<Rightarrow> u16 \<Rightarrow> u8 list \<Rightarrow> u8 list list \<Rightarrow> (HRESULT \<times> u8 list list) option" where
  "SendClose env wCode szReasonA sent = do {
     let reason = take 123 szReasonA;
     (hRes, _, sent) \<leftarrow> InternalSendControlFrame env OPCODE_ConnectionClose
        (ucast (drop_bit 8 wCode) # ucast (wCode AND 0xFF) # reason) (2 + of_nat (length reason)) sent;
     Some (hRes, sent)
   }"

definition SendPing :: "ws_env \<Rightarrow> u8 list list \<Rightarrow> (HRESULT \<times> u8 list list) option" where
  "SendPing env sent = do {
     (hRes, _, sent) \<leftarrow> InternalSendControlFrame env OPCODE_Ping (le_bytes 4 (ucast (we_this env) XOR XOR_PING)) 4 sent;
     Some (hRes, sent)
   }"

end
