(* ===== verification/WebSocketRecv.thy ===== *)
theory WebSocketRecv
  imports WebSocket
begin

unbundle bit_operations_syntax

text \<open>
  The receiving side of \<open>CWebSocket\<close> (\<open>OnSocketDataReceived\<close> of \<open>Source/Http/WebSockets.cpp\<close>). The bytes
  wait in the circular buffer of the connection (\<open>GetBufferedMessage\<close> and \<open>ConsumeBufferedMessage\<close> of
  \<open>Source/Comm/IpcCommon.cpp\<close>); the code takes at most 4096 of them at a time. The calls of the virtual
  functions and the frames that are sent in reply are logged.
\<close>

section \<open>State\<close>

datatype ws_event = TextMessage "u8 list" | BinaryMessage "u8 list" | PongFrame | CloseFrame u16 HRESULT | Reply "u8 list list" | IpcClose

text \<open>What the automaton of the headers and the end of the frames share. \<open>None\<close> as the closing error is \<open>S_FALSE\<close>.\<close>

record wcore =
  wc_nState :: nat
  wc_h0 :: u8
  wc_h1 :: u8
  wc_nPayloadLen :: u64
  wc_nKey :: "u8 list"
  wc_nOpcode :: u8
  wc_nTotalDataLength :: u64
  wc_hrCloseError :: "HRESULT option"
  wc_log :: "ws_event list"

record wrecv = wcore +
  cm_aReceivedDataList :: "u8 list list"
  cm_lpData :: "nat option"
  cm_nFilledFrame :: nat
  cf_aBuffer :: "u8 list"
  cf_nFilledFrame :: nat
  rc_lpBuffer :: "u8 list list"

definition wrecv_new :: wrecv where
  "wrecv_new = \<lparr>wc_nState = 0, wc_h0 = 0, wc_h1 = 0, wc_nPayloadLen = 0, wc_nKey = [0, 0, 0, 0], wc_nOpcode = OPCODE_NONE,
     wc_nTotalDataLength = 0, wc_hrCloseError = None, wc_log = [],
     cm_aReceivedDataList = [], cm_lpData = None, cm_nFilledFrame = 0, cf_aBuffer = replicate 128 0, cf_nFilledFrame = 0,
     rc_lpBuffer = []\<rparr>"

definition is_control :: "'a wcore_scheme \<Rightarrow> bool" where
  "is_control s \<longleftrightarrow> fh_nOpcode (wc_h0 s) AND OPCODE_ControlFrameMask \<noteq> 0"

definition is_masked :: "'a wcore_scheme \<Rightarrow> bool" where
  "is_masked s \<longleftrightarrow> fh_nMask (wc_h1 s) \<noteq> 0"

section \<open>The cache of buffers\<close>

text \<open>The cache holds at most four buffers, from the first place on.\<close>

definition GetReceiveBufferFromCache :: "u8 allocator \<Rightarrow> wrecv \<Rightarrow> u8 list option \<times> wrecv" where
  "GetReceiveBufferFromCache malloc s =
     (if rc_lpBuffer s \<noteq> [] then (Some (last (rc_lpBuffer s)), s\<lparr>rc_lpBuffer := butlast (rc_lpBuffer s)\<rparr>)
      else (malloc (of_nat RECEIVE_DATA_BLOCK_SIZE), s))"

definition PutReceiveBufferOnCache :: "u8 list \<Rightarrow> wrecv \<Rightarrow> wrecv" where
  "PutReceiveBufferOnCache lpBuffer s =
     (if length (rc_lpBuffer s) < 4 then s\<lparr>rc_lpBuffer := rc_lpBuffer s @ [lpBuffer]\<rparr> else s)"

definition PutAllReceiveBuffersOnCache :: "wrecv \<Rightarrow> wrecv" where
  "PutAllReceiveBuffersOnCache s =
     (let nCount = min (length (cm_aReceivedDataList s)) (4 - length (rc_lpBuffer s))
      in (fold PutReceiveBufferOnCache (take nCount (cm_aReceivedDataList s)) s)\<lparr>cm_aReceivedDataList := []\<rparr>)"

section \<open>Headers\<close>

definition validate_message_length :: "ws_env \<Rightarrow> 'a wcore_scheme \<Rightarrow> HRESULT \<times> 'a wcore_scheme" where
  "validate_message_length env s =
     (if wc_nTotalDataLength s + wc_nPayloadLen s < wc_nPayloadLen s then (MX_E_InvalidData, s)
      else if wc_nTotalDataLength s + wc_nPayloadLen s > we_nMaxMessageSize env then (MX_E_Unsupported, s)
      else (S_OK, s))"

definition jump_to_maskkey_or_payloaddata :: "ws_env \<Rightarrow> 'a wcore_scheme \<Rightarrow> HRESULT \<times> 'a wcore_scheme" where
  "jump_to_maskkey_or_payloaddata env s =
     (if is_masked s then (S_OK, s\<lparr>wc_nState := 12\<rparr>) else validate_message_length env (s\<lparr>wc_nState := 16\<rparr>))"

text \<open>The first byte of a frame.\<close>

definition check_opcode :: "'a wcore_scheme \<Rightarrow> HRESULT \<times> 'a wcore_scheme" where
  "check_opcode s = (let op = fh_nOpcode (wc_h0 s) in
     if fh_nRsv (wc_h0 s) \<noteq> 0 then (MX_E_Unsupported, s)
     else if op = OPCODE_Continuation then
       (if wc_nOpcode s = OPCODE_NONE then (MX_E_InvalidData, s) else (S_OK, s))
     else if op = OPCODE_Text \<or> op = OPCODE_Binary then
       (if wc_nOpcode s = OPCODE_NONE then (S_OK, s\<lparr>wc_nOpcode := op\<rparr>)
        else if wc_nOpcode s \<noteq> op then (MX_E_InvalidData, s) else (S_OK, s))
     else if op = OPCODE_ConnectionClose \<or> op = OPCODE_Ping \<or> op = OPCODE_Pong then (S_OK, s)
     else (MX_E_Unsupported, s))"

text \<open>The second byte.\<close>

definition check_length :: "ws_env \<Rightarrow> 'a wcore_scheme \<Rightarrow> HRESULT \<times> 'a wcore_scheme" where
  "check_length env s =
     (if fh_nPayloadLen (wc_h1 s) < 126 then
        jump_to_maskkey_or_payloaddata env (s\<lparr>wc_nPayloadLen := ucast (fh_nPayloadLen (wc_h1 s))\<rparr>)
      else if is_control s then (MX_E_InvalidData, s)
      else (S_OK, s\<lparr>wc_nPayloadLen := 0, wc_nState := if fh_nPayloadLen (wc_h1 s) = 126 then 2 else 4\<rparr>))"

definition set_byte :: "u64 \<Rightarrow> nat \<Rightarrow> u8 \<Rightarrow> u64" where
  "set_byte w i b = (w AND NOT (push_bit (8 * i) 0xFF)) OR push_bit (8 * i) (ucast b)"

text \<open>One byte in a state below 16.\<close>

definition header_byte :: "ws_env \<Rightarrow> 'a wcore_scheme \<Rightarrow> u8 \<Rightarrow> HRESULT \<times> 'a wcore_scheme" where
  "header_byte env s b = (let st = wc_nState s in
     if st = 0 then check_opcode (s\<lparr>wc_h0 := b, wc_nState := 1\<rparr>)
     else if st = 1 then check_length env (s\<lparr>wc_h1 := b, wc_nState := 2\<rparr>)
     else if st < 4 then
       (let s = s\<lparr>wc_nPayloadLen := set_byte (wc_nPayloadLen s) (3 - st) b, wc_nState := st + 1\<rparr>
        in if wc_nState s = 4 then jump_to_maskkey_or_payloaddata env s else (S_OK, s))
     else if st < 12 then
       (let s = s\<lparr>wc_nPayloadLen := set_byte (wc_nPayloadLen s) (11 - st) b, wc_nState := st + 1\<rparr>
        in if wc_nState s = 12 \<and> \<not> is_masked s then validate_message_length env (s\<lparr>wc_nState := 16\<rparr>) else (S_OK, s))
     else
       (let s = s\<lparr>wc_nKey := (wc_nKey s)[st - 12 := b], wc_nState := st + 1\<rparr>
        in if wc_nState s = 16 then validate_message_length env s else (S_OK, s)))"

fun header_loop :: "ws_env \<Rightarrow> 'a wcore_scheme \<Rightarrow> u8 list \<Rightarrow> HRESULT \<times> 'a wcore_scheme \<times> u8 list" where
  "header_loop env s [] = (S_OK, s, [])"
| "header_loop env s (b # msg) =
     (if wc_nState s < 16 then
        (case header_byte env s b of (hRes, s) \<Rightarrow> if hRes \<noteq> S_OK then (hRes, s, msg) else header_loop env s msg)
      else (S_OK, s, b # msg))"

section \<open>Payload\<close>

text \<open>The payload of a data frame: one turn of the loop fills the current buffer, or a new one. \<open>more_fits n\<close> tells
  whether the array of the buffers can hold one more than \<open>n\<close>.\<close>

partial_function (option) data_loop :: "u8 allocator \<Rightarrow> (nat \<Rightarrow> bool) \<Rightarrow> wrecv \<Rightarrow> u8 list \<Rightarrow> (HRESULT \<times> wrecv \<times> u8 list) option" where
  "data_loop malloc more_fits s msg =
     (if msg = [] \<or> wc_nPayloadLen s = 0 then Some (S_OK, s, msg)
      else do {
        let (hRes, s) =
          (case cm_lpData s of
             Some _ \<Rightarrow> (S_OK, s)
           | None \<Rightarrow> (case GetReceiveBufferFromCache malloc s of
               (None, s) \<Rightarrow> (E_OUTOFMEMORY, s)
             | (Some b, s) \<Rightarrow>
                 if more_fits (length (cm_aReceivedDataList s))
                 then (S_OK, s\<lparr>cm_lpData := Some 0, cm_aReceivedDataList := cm_aReceivedDataList s @ [b], cm_nFilledFrame := 0\<rparr>)
                 else (E_OUTOFMEMORY, PutReceiveBufferOnCache b (s\<lparr>cm_lpData := Some 0\<rparr>))));
        if hRes \<noteq> S_OK then Some (hRes, s, msg)
        else do {
          let nToRead = min (min (RECEIVE_DATA_BLOCK_SIZE - cm_nFilledFrame s) (length msg)) (unat (wc_nPayloadLen s));
          let xs = take nToRead msg;
          let xs = (if is_masked s then mask_from (wc_nKey s) (cm_nFilledFrame s) xs else xs);
          off \<leftarrow> cm_lpData s;
          b \<leftarrow> (if cm_aReceivedDataList s = [] then None else block_write (last (cm_aReceivedDataList s)) off xs);
          let nFilledFrame = cm_nFilledFrame s + nToRead;
          data_loop malloc more_fits
            (s\<lparr>cm_aReceivedDataList := butlast (cm_aReceivedDataList s) @ [b],
               cm_lpData := if nFilledFrame = RECEIVE_DATA_BLOCK_SIZE then None else Some (off + nToRead),
               wc_nTotalDataLength := wc_nTotalDataLength s + of_nat nToRead,
               wc_nPayloadLen := wc_nPayloadLen s - of_nat nToRead,
               cm_nFilledFrame := nFilledFrame\<rparr>)
            (drop nToRead msg)
        }
      })"

text \<open>The payload of a control frame: the first turn takes all there is, so there is no second one.\<close>

definition control_part :: "wrecv \<Rightarrow> u8 list \<Rightarrow> (HRESULT \<times> wrecv \<times> u8 list) option" where
  "control_part s msg =
     (if msg = [] \<or> wc_nPayloadLen s = 0 then Some (S_OK, s, msg)
      else do {
        let nToRead = min (unat (wc_nPayloadLen s)) (length msg);
        let xs = take nToRead msg;
        let xs = (if is_masked s then mask_from (wc_nKey s) (cf_nFilledFrame s) xs else xs);
        b \<leftarrow> block_write (cf_aBuffer s) (cf_nFilledFrame s) xs;
        Some (S_OK, s\<lparr>cf_aBuffer := b, cf_nFilledFrame := cf_nFilledFrame s + nToRead,
            wc_nPayloadLen := wc_nPayloadLen s - of_nat nToRead\<rparr>, drop nToRead msg)
      })"

section \<open>The end of a frame\<close>

text \<open>The blocks of a message, copied into one buffer.\<close>

fun join_blocks :: "u8 list list \<Rightarrow> nat \<Rightarrow> u8 list option" where
  "join_blocks [] n = Some []"
| "join_blocks [b] n = block_read b 0 n"
| "join_blocks (b # bs) n = do {
     xs \<leftarrow> block_read b 0 RECEIVE_DATA_BLOCK_SIZE;
     ys \<leftarrow> join_blocks bs (n - RECEIVE_DATA_BLOCK_SIZE);
     Some (xs @ ys)
   }"

definition deliver :: "u8 \<Rightarrow> u8 list \<Rightarrow> ws_event" where
  "deliver op data = (if op = OPCODE_Text then TextMessage data else BinaryMessage data)"

definition data_frame_end :: "u8 allocator \<Rightarrow> wrecv \<Rightarrow> (HRESULT \<times> wrecv) option" where
  "data_frame_end malloc s =
     (if fh_nFin (wc_h0 s) = 0 then Some (S_OK, s)
      else do {
        (hRes, s) \<leftarrow> (if wc_nTotalDataLength s > 0 then
            (if unat (wc_nTotalDataLength s) < RECEIVE_DATA_BLOCK_SIZE then do {
               xs \<leftarrow> (if cm_aReceivedDataList s = [] then None
                     else block_read (hd (cm_aReceivedDataList s)) 0 (unat (wc_nTotalDataLength s)));
               Some (S_OK, s\<lparr>wc_log := wc_log s @ [deliver (wc_nOpcode s) xs]\<rparr>)
             }
             else (case malloc (wc_nTotalDataLength s) of
                None \<Rightarrow> Some (E_OUTOFMEMORY, s)
              | Some b \<Rightarrow> do {
                  xs \<leftarrow> join_blocks (cm_aReceivedDataList s) (unat (wc_nTotalDataLength s));
                  b \<leftarrow> block_write b 0 xs;
                  xs \<leftarrow> block_read b 0 (unat (wc_nTotalDataLength s));
                  Some (S_OK, s\<lparr>wc_log := wc_log s @ [deliver (wc_nOpcode s) xs]\<rparr>)
                }))
          else Some (S_OK, s));
        if hRes \<noteq> S_OK then Some (hRes, s)
        else Some (S_OK, (PutAllReceiveBuffersOnCache s)
               \<lparr>wc_nOpcode := OPCODE_NONE, cm_lpData := None, cm_nFilledFrame := 0, wc_nTotalDataLength := 0\<rparr>)
      })"

text \<open>The close code of the peer, and the error that it stands for.\<close>

definition close_error :: "u16 \<Rightarrow> HRESULT" where
  "close_error wCode =
     (if wCode = 1000 then S_OK else if wCode = 1001 then WSAECONNRESET else if wCode = 1002 then MX_E_Unsupported
      else if wCode = 1003 then MX_E_InvalidData else E_FAIL)"

text \<open>
  The end of a control frame: the frame is closing (the call returns), or the result of the pong and
  the state with the frame reset.
\<close>

definition control_frame_end :: "ws_env \<Rightarrow> wrecv \<Rightarrow> (bool \<times> HRESULT \<times> wrecv) option" where
  "control_frame_end env s = (let op = fh_nOpcode (wc_h0 s);
       reset = (\<lambda>s. s\<lparr>cf_aBuffer := replicate 128 0, cf_nFilledFrame := 0\<rparr>) in
     if op = OPCODE_ConnectionClose then do {
       let wCode = (if cf_nFilledFrame s \<ge> 2 then ucast (cf_aBuffer s ! 1) OR push_bit 8 (ucast (cf_aBuffer s ! 0)) else 1000);
       case wc_hrCloseError s of
         Some _ \<Rightarrow> Some (True, S_OK, s)
       | None \<Rightarrow> do {
           let s = s\<lparr>wc_hrCloseError := Some (close_error wCode), wc_log := wc_log s @ [CloseFrame wCode (close_error wCode)]\<rparr>;
           s \<leftarrow> (if wCode = 1000 then do {
                  (_, sent) \<leftarrow> SendClose env wCode [] [];
                  Some (s\<lparr>wc_log := wc_log s @ [Reply sent]\<rparr>)
                }
                else Some s);
           Some (True, S_OK, s\<lparr>wc_log := wc_log s @ [IpcClose]\<rparr>)
         }
     }
     else if op = OPCODE_Ping then do {
       (hRes, b, sent) \<leftarrow> InternalSendControlFrame env OPCODE_Pong (cf_aBuffer s) (of_nat (cf_nFilledFrame s)) [];
       let s = s\<lparr>cf_aBuffer := b, wc_log := wc_log s @ [Reply sent]\<rparr>;
       if hRes \<noteq> S_OK then Some (True, hRes, s) else Some (False, S_OK, reset s)
     }
     else if op = OPCODE_Pong then Some (False, S_OK, reset (s\<lparr>wc_log := wc_log s @ [PongFrame]\<rparr>))
     else Some (False, S_OK, reset s))"

text \<open>Whether the call returns, with which result, and the state.\<close>

definition frame_end :: "ws_env \<Rightarrow> u8 allocator \<Rightarrow> wrecv \<Rightarrow> (HRESULT option \<times> wrecv) option" where
  "frame_end env malloc s = do {
     (return, hRes, s) \<leftarrow> (if is_control s then control_frame_end env s
        else do { (hRes, s) \<leftarrow> data_frame_end malloc s; Some (hRes \<noteq> S_OK, hRes, s) });
     if return then Some (Some hRes, s) else Some (None, s\<lparr>wc_nState := 0, wc_nKey := [0, 0, 0, 0]\<rparr>)
   }"

section \<open>OnSocketDataReceived\<close>

text \<open>One turn over the bytes that wait: the result if the call returns, the state and the bytes that are left.\<close>

definition ws_turn :: "ws_env \<Rightarrow> u8 allocator \<Rightarrow> (nat \<Rightarrow> bool) \<Rightarrow> wrecv \<Rightarrow> u8 list \<Rightarrow> (HRESULT option \<times> wrecv \<times> u8 list) option" where
  "ws_turn env malloc more_fits s msg =
     (case header_loop env s msg of (hRes, s, msg) \<Rightarrow>
        if hRes \<noteq> S_OK then Some (Some hRes, s, msg)
        else if wc_nState s < 16 then Some (None, s, msg)
        else do {
          (hRes, s, msg) \<leftarrow> (if is_control s then control_part s msg else data_loop malloc more_fits s msg);
          if hRes \<noteq> S_OK then Some (Some hRes, s, msg)
          else if wc_nPayloadLen s = 0 then do { (r, s) \<leftarrow> frame_end env malloc s; Some (r, s, msg) }
          else Some (None, s, msg)
        })"

definition GetBufferedMessage :: "ws_env \<Rightarrow> cbuf \<Rightarrow> u64 \<Rightarrow> (HRESULT \<times> u8 list) option" where
  "GetBufferedMessage env cb n = (if we_hConn env \<noteq> S_OK then Some (we_hConn env, []) else do { xs \<leftarrow> Peek cb False n; Some (S_OK, xs) })"

definition ConsumeBufferedMessage :: "ws_env \<Rightarrow> cbuf \<Rightarrow> u64 \<Rightarrow> HRESULT \<times> cbuf" where
  "ConsumeBufferedMessage env cb n = (if we_hConn env \<noteq> S_OK then (we_hConn env, cb) else AdvanceReadPtr cb n)"

partial_function (option) OnSocketDataReceived :: "ws_env \<Rightarrow> u8 allocator \<Rightarrow> (nat \<Rightarrow> bool) \<Rightarrow> wrecv \<Rightarrow> cbuf \<Rightarrow> (HRESULT \<times> wrecv \<times> cbuf) option" where
  "OnSocketDataReceived env malloc more_fits s cb = do {
     (hRes, aMsgBuf) \<leftarrow> GetBufferedMessage env cb 4096;
     if hRes \<noteq> S_OK then Some (hRes, s, cb)
     else if aMsgBuf = [] then Some (S_OK, s, cb)
     else do {
       (r, s, msg) \<leftarrow> ws_turn env malloc more_fits s aMsgBuf;
       case r of
         Some hRes \<Rightarrow> Some (hRes, s, cb)
       | None \<Rightarrow>
           (if length msg < length aMsgBuf then
              (case ConsumeBufferedMessage env cb (of_nat (length aMsgBuf - length msg)) of (hRes, cb) \<Rightarrow>
                 if hRes \<noteq> S_OK then Some (hRes, s, cb) else OnSocketDataReceived env malloc more_fits s cb)
            else OnSocketDataReceived env malloc more_fits s cb)
     }
   }"

end
