(* ===== verification/WebSocket_Rep.thy ===== *)
theory WebSocket_Rep
  imports WebSocketRecv CircularBuffer_Props
begin

unbundle bit_operations_syntax

text \<open>
  The receiving side of a WebSocket refines an automaton that takes one byte at a time and keeps the
  message as one list: whatever is delivered together, the code makes the same calls as the automaton.
\<close>

section \<open>The automaton\<close>

record wabs = wcore +
  wa_data :: "u8 list"
  wa_ctl :: "u8 list"

definition wa_new :: wabs where
  "wa_new = \<lparr>wc_nState = 0, wc_h0 = 0, wc_h1 = 0, wc_nPayloadLen = 0, wc_nKey = [0, 0, 0, 0], wc_nOpcode = OPCODE_NONE,
     wc_nTotalDataLength = 0, wc_hrCloseError = None, wc_log = [], wa_data = [], wa_ctl = []\<rparr>"

definition unmask :: "'a wcore_scheme \<Rightarrow> nat \<Rightarrow> u8 list \<Rightarrow> u8 list" where
  "unmask a i xs = (if is_masked a then mask_from (wc_nKey a) i xs else xs)"

definition add_data :: "u8 list \<Rightarrow> wabs \<Rightarrow> wabs" where
  "add_data xs a = a\<lparr>wa_data := wa_data a @ unmask a (length (wa_data a)) xs,
     wc_nTotalDataLength := wc_nTotalDataLength a + of_nat (length xs), wc_nPayloadLen := wc_nPayloadLen a - of_nat (length xs)\<rparr>"

definition add_control :: "u8 list \<Rightarrow> wabs \<Rightarrow> wabs" where
  "add_control xs a = a\<lparr>wa_ctl := wa_ctl a @ unmask a (length (wa_ctl a)) xs, wc_nPayloadLen := wc_nPayloadLen a - of_nat (length xs)\<rparr>"

definition add_payload :: "u8 list \<Rightarrow> wabs \<Rightarrow> wabs" where
  "add_payload xs a = (if is_control a then add_control xs a else add_data xs a)"

definition wa_reply :: "ws_env \<Rightarrow> u8 list \<Rightarrow> HRESULT \<times> u8 list list" where
  "wa_reply env ctl = (case InternalSendControlFrame env OPCODE_Pong ctl (of_nat (length ctl)) [] of
     None \<Rightarrow> (E_FAIL, []) | Some (hRes, _, sent) \<Rightarrow> (hRes, sent))"

definition wa_control_end :: "ws_env \<Rightarrow> wabs \<Rightarrow> HRESULT option \<times> wabs" where
  "wa_control_end env a = (let op = fh_nOpcode (wc_h0 a); a0 = a\<lparr>wa_ctl := []\<rparr> in
     if op = OPCODE_ConnectionClose then
       (let code = (if length (wa_ctl a) \<ge> 2 then ucast (wa_ctl a ! 1) OR push_bit 8 (ucast (wa_ctl a ! 0)) else 1000) in
        if wc_hrCloseError a \<noteq> None then (Some S_OK, a)
        else (Some S_OK, a\<lparr>wc_hrCloseError := Some (close_error code), wc_log := wc_log a @ [CloseFrame code (close_error code)] @
          (if code = 1000 then [Reply (snd (the (SendClose env code [] [])))] else []) @ [IpcClose]\<rparr>))
     else if op = OPCODE_Ping then
       (case wa_reply env (wa_ctl a) of (hRes, sent) \<Rightarrow>
          (if hRes = S_OK then None else Some hRes, (if hRes = S_OK then a0 else a)\<lparr>wc_log := wc_log a @ [Reply sent]\<rparr>))
     else (None, if op = OPCODE_Pong then a0\<lparr>wc_log := wc_log a @ [PongFrame]\<rparr> else a0))"

definition wa_data_end :: "wabs \<Rightarrow> wabs" where
  "wa_data_end a = (if fh_nFin (wc_h0 a) = 0 then a
     else a\<lparr>wc_log := wc_log a @ (if wa_data a \<noteq> [] then [deliver (wc_nOpcode a) (wa_data a)] else []),
            wc_nOpcode := OPCODE_NONE, wc_nTotalDataLength := 0, wa_data := []\<rparr>)"

definition wa_frame_end :: "ws_env \<Rightarrow> wabs \<Rightarrow> HRESULT option \<times> wabs" where
  "wa_frame_end env a = (case (if is_control a then wa_control_end env a else (None, wa_data_end a)) of
     (None, a) \<Rightarrow> (None, a\<lparr>wc_nState := 0, wc_nKey := [0, 0, 0, 0]\<rparr>)
   | (Some hRes, a) \<Rightarrow> (Some hRes, a))"

definition at_end :: "'a wcore_scheme \<Rightarrow> bool" where
  "at_end a \<longleftrightarrow> 16 \<le> wc_nState a \<and> wc_nPayloadLen a = 0"

definition wa_step :: "ws_env \<Rightarrow> wabs \<Rightarrow> u8 \<Rightarrow> HRESULT option \<times> wabs" where
  "wa_step env a b = (case (if wc_nState a < 16 then header_byte env a b else (S_OK, add_payload [b] a)) of (hRes, a) \<Rightarrow>
     if hRes \<noteq> S_OK then (Some hRes, a) else if at_end a then wa_frame_end env a else (None, a))"

fun wa_run :: "ws_env \<Rightarrow> wabs \<Rightarrow> u8 list \<Rightarrow> HRESULT option \<times> wabs" where
  "wa_run env a [] = (None, a)"
| "wa_run env a (b # bs) = (case wa_step env a b of (None, a) \<Rightarrow> wa_run env a bs | (Some hRes, a) \<Rightarrow> (Some hRes, a))"

lemma wa_run_append: "wa_run env a (xs @ ys) = (case wa_run env a xs of (None, a) \<Rightarrow> wa_run env a ys | r \<Rightarrow> r)"
  by (induction xs arbitrary: a) (auto split: prod.splits option.splits)

section \<open>Masking\<close>

lemma length_mask [simp]: "length (mask_from key i xs) = length xs"
  by (induction key i xs rule: mask_from.induct) simp_all

lemma mask_append: "mask_from key i (xs @ ys) = mask_from key i xs @ mask_from key (i + length xs) ys"
  by (induction key i xs rule: mask_from.induct) simp_all

lemma mask_mod: "i mod 4 = j mod 4 \<Longrightarrow> mask_from key i xs = mask_from key j xs"
proof (induction xs arbitrary: i j)
  case (Cons x xs)
  have "(i + 1) mod 4 = (j + 1) mod 4"
    using Cons.prems by (rule mod_add_cong) simp
  then show ?case
    using Cons.IH [of "i + 1" "j + 1"] by (simp only: mask_from.simps Cons.prems)
qed (simp only: mask_from.simps)

lemma mask_twice [simp]: "mask_from key i (mask_from key i xs) = xs"
  by (induction key i xs rule: mask_from.induct) (simp_all add: xor.assoc)

lemma mask_take: "take n (mask_from key i xs) = mask_from key i (take n xs)"
  by (induction key i xs arbitrary: n rule: mask_from.induct) (simp_all add: take_Cons split: nat.split)

lemma length_unmask [simp]: "length (unmask a i xs) = length xs"
  by (simp add: unmask_def)

lemma unmask_append: "unmask a i (xs @ ys) = unmask a i xs @ unmask a (i + length xs) ys"
  by (simp add: unmask_def mask_append)

section \<open>The automaton over a whole header and a whole payload\<close>

text \<open>The automaton of the headers does not see the buffers.\<close>

lemma header_byte_core: "header_byte env s b =
    (fst (header_byte env (wcore.truncate s) b), wcore.extend (snd (header_byte env (wcore.truncate s) b)) (wcore.more s))"
  by (cases s) (auto simp: header_byte_def check_opcode_def check_length_def jump_to_maskkey_or_payloaddata_def
      validate_message_length_def is_masked_def is_control_def wcore.defs Let_def split: if_splits)

lemma header_byte_truncate: "header_byte env (wcore.truncate s) b = (fst (header_byte env s b), wcore.truncate (snd (header_byte env s b)))"
  by (cases s) (auto simp: header_byte_def check_opcode_def check_length_def jump_to_maskkey_or_payloaddata_def
      validate_message_length_def is_masked_def is_control_def wcore.defs Let_def split: if_splits)

lemma header_byte_more [simp]: "wcore.more (snd (header_byte env s b)) = wcore.more s"
  by (subst header_byte_core) (simp add: wcore.defs)

lemma header_loop_truncate: "header_loop env (wcore.truncate s) msg =
    (case header_loop env s msg of (hRes, s, msg) \<Rightarrow> (hRes, wcore.truncate s, msg))"
proof (induction msg arbitrary: s)
  case (Cons b msg)
  have st: "wc_nState (wcore.truncate s) = wc_nState s" for s :: "'a wcore_scheme"
    by (simp add: wcore.defs)
  show ?case
    by (simp add: st header_byte_truncate Cons.IH split: prod.split)
qed simp

lemma header_loop_more: "header_loop env s msg = (hRes, s', msg') \<Longrightarrow> wcore.more s' = wcore.more s"
proof (induction msg arbitrary: s)
  case (Cons b msg)
  show ?case
    using Cons.prems Cons.IH [of "snd (header_byte env s b)"] header_byte_more [of env s b]
    by (cases "header_byte env s b") (auto split: if_splits)
qed simp
definition is_rest :: "'b list \<Rightarrow> 'b list \<Rightarrow> bool" where
  "is_rest msg rest \<longleftrightarrow> (\<exists>used. msg = used @ rest)"

lemma is_rest_simps [simp]: "is_rest msg msg" "is_rest msg []" "is_rest msg (drop k msg)" "is_rest msg rest \<Longrightarrow> is_rest (b # msg) rest"
proof -
  show "is_rest msg (drop k msg)"
    by (auto simp: is_rest_def intro: exI [of _ "take k msg"])
  show "is_rest msg rest \<Longrightarrow> is_rest (b # msg) rest"
    by (metis append_Cons is_rest_def)
qed (simp_all add: is_rest_def)

lemma is_rest_trans: "is_rest a b \<Longrightarrow> is_rest b c \<Longrightarrow> is_rest a c"
  by (auto simp: is_rest_def)

lemma is_rest_length: "is_rest msg rest \<Longrightarrow> length rest \<le> length msg"
  by (auto simp: is_rest_def)

lemma is_rest_drop: "is_rest msg rest \<Longrightarrow> rest = drop (length msg - length rest) msg"
  by (auto simp: is_rest_def)

lemma header_loop_rest: "header_loop env s msg = (hRes, s', rest) \<Longrightarrow>
    is_rest msg rest \<and> (hRes = S_OK \<longrightarrow> wc_nState s' < 16 \<longrightarrow> rest = []) \<and> (wc_nState s < 16 \<longrightarrow> msg \<noteq> [] \<longrightarrow> length rest < length msg)"
proof (induction msg arbitrary: s)
  case (Cons b msg)
  obtain h1 s1 where h1: "header_byte env s b = (h1, s1)"
    by (cases "header_byte env s b")
  show ?case
    using Cons.prems h1 Cons.IH [of s1] is_rest_length [of msg rest] by (auto split: if_splits)
qed simp

lemma header_loop_stop: "16 \<le> wc_nState s \<Longrightarrow> header_loop env s msg = (S_OK, s, msg)"
  by (cases msg) simp_all

lemma run_header: "wc_nState a < 16 \<Longrightarrow> wa_run env a msg = (case header_loop env a msg of (hRes, a', rest) \<Rightarrow>
     if hRes \<noteq> S_OK then (Some hRes, a') else if wc_nState a' < 16 then (None, a')
     else if at_end a' then (case wa_frame_end env a' of (None, a') \<Rightarrow> wa_run env a' rest | (Some r, a') \<Rightarrow> (Some r, a'))
     else wa_run env a' rest)"
proof (induction msg arbitrary: a)
  case (Cons b msg)
  obtain h1 a1 where h1: "header_byte env a b = (h1, a1)"
    by (cases "header_byte env a b")
  have step: "wa_step env a b = (if h1 \<noteq> S_OK then (Some h1, a1) else if at_end a1 then wa_frame_end env a1 else (None, a1))"
    using Cons.prems h1 by (simp add: wa_step_def)
  show ?case
  proof (cases "h1 = S_OK \<and> wc_nState a1 < 16")
    case True
    then show ?thesis
      using Cons.prems Cons.IH [of a1] h1 step by (simp add: at_end_def)
  next
    case False
    then show ?thesis
      using Cons.prems h1 step header_loop_stop [of a1 env msg] by (auto split: option.split prod.split)
  qed
qed simp

section \<open>The payload\<close>

lemma add_payload_core [simp]: "wc_nState (add_payload xs a) = wc_nState a" "is_control (add_payload xs a) = is_control a"
    "is_masked (add_payload xs a) = is_masked a" "wc_nKey (add_payload xs a) = wc_nKey a" "wc_h0 (add_payload xs a) = wc_h0 a"
    "wc_nPayloadLen (add_payload xs a) = wc_nPayloadLen a - of_nat (length xs)"
  by (simp_all add: add_payload_def add_control_def add_data_def is_control_def is_masked_def)

lemma unmask_core: "is_masked a' = is_masked a \<Longrightarrow> wc_nKey a' = wc_nKey a \<Longrightarrow> unmask a' i xs = unmask a i xs"
  by (simp add: unmask_def)

lemma add_payload_append: "add_payload ys (add_payload xs a) = add_payload (xs @ ys) a"
  by (cases "is_control a")
    (simp_all add: add_payload_def add_control_def add_data_def unmask_append is_control_def is_masked_def unmask_def mask_append
      algebra_simps)

lemma run_payload: "16 \<le> wc_nState a \<Longrightarrow> length xs < unat (wc_nPayloadLen a) \<Longrightarrow> wa_run env a (xs @ rest) = wa_run env (add_payload xs a) rest"
proof (induction xs arbitrary: a)
  case Nil
  have "add_payload [] a = a"
    by (simp add: add_payload_def add_control_def add_data_def unmask_def)
  then show ?case
    by simp
next
  case (Cons b xs)
  have u: "unat (wc_nPayloadLen a - 1) = unat (wc_nPayloadLen a) - 1"
    using Cons.prems by (simp add: unat_sub word_le_nat_alt)
  have len: "wc_nPayloadLen (add_payload [b] a) = wc_nPayloadLen a - 1"
    by simp
  have "\<not> at_end (add_payload [b] a)"
    using Cons.prems u by (auto simp: at_end_def)
  then have "wa_run env a ((b # xs) @ rest) = wa_run env (add_payload [b] a) (xs @ rest)"
    using Cons.prems by (simp add: wa_step_def)
  also have "\<dots> = wa_run env (add_payload xs (add_payload [b] a)) rest"
    using Cons.prems u by (intro Cons.IH) simp_all
  finally show ?case
    by (simp add: add_payload_append)
qed
lemma run_payload_end:
  assumes "16 \<le> wc_nState a" and "length xs = unat (wc_nPayloadLen a)" and "xs \<noteq> []"
  shows "wa_run env a (xs @ rest) =
    (case wa_frame_end env (add_payload xs a) of (None, a') \<Rightarrow> wa_run env a' rest | (Some r, a') \<Rightarrow> (Some r, a'))"
proof -
  obtain ys y where xs: "xs = ys @ [y]"
    using assms(3) by (cases xs rule: rev_cases) auto
  have len: "of_nat (length xs) = wc_nPayloadLen a"
    unfolding assms(2) by simp
  have "wa_run env a (xs @ rest) = wa_run env (add_payload ys a) (y # rest)"
    using run_payload [OF assms(1), of ys env "y # rest"] assms(2) by (simp add: xs)
  moreover have "wa_step env (add_payload ys a) y = wa_frame_end env (add_payload xs a)"
    using assms(1) len by (simp add: wa_step_def add_payload_append at_end_def xs)
  ultimately show ?thesis
    by (simp split: option.split prod.split)
qed
end
