(* ===== verification/WebSocketRecv_Rep.thy ===== *)
theory WebSocketRecv_Rep
  imports WebSocket_Rep
begin

unbundle bit_operations_syntax

text \<open>
  The state of the receiver against the automaton: the blocks of the message, of which the last one may
  be filled in part, hold the data; the buffer of the control frame starts with its payload. Every
  operation keeps the relation.
\<close>

section \<open>The relation\<close>

abbreviation BLK :: nat where
  "BLK \<equiv> RECEIVE_DATA_BLOCK_SIZE"

definition blocks_rel :: "u8 list list \<Rightarrow> nat option \<Rightarrow> nat \<Rightarrow> u8 list \<Rightarrow> bool" where
  "blocks_rel bl p n data \<longleftrightarrow> (\<forall>b \<in> set bl. length b = BLK) \<and>
     (case p of None \<Rightarrow> data = concat bl
      | Some off \<Rightarrow> off = n \<and> n < BLK \<and> bl \<noteq> [] \<and> data = concat (butlast bl) @ take n (last bl))"

definition ws_rel :: "wrecv \<Rightarrow> wabs \<Rightarrow> bool" where
  "ws_rel s a \<longleftrightarrow> wcore.truncate s = wcore.truncate a \<and>
     blocks_rel (cm_aReceivedDataList s) (cm_lpData s) (cm_nFilledFrame s) (wa_data a) \<and>
     length (cf_aBuffer s) = 128 \<and> cf_nFilledFrame s = length (wa_ctl a) \<and> take (length (wa_ctl a)) (cf_aBuffer s) = wa_ctl a \<and>
     length (rc_lpBuffer s) \<le> 4 \<and> (\<forall>b \<in> set (rc_lpBuffer s). length b = BLK)"

definition wa_inv :: "ws_env \<Rightarrow> wabs \<Rightarrow> bool" where
  "wa_inv env a \<longleftrightarrow> wc_nTotalDataLength a = of_nat (length (wa_data a)) \<and> length (wa_data a) \<le> unat (we_nMaxMessageSize env) \<and>
     (16 \<le> wc_nState a \<longrightarrow> length (wa_data a) + unat (wc_nPayloadLen a) \<le> unat (we_nMaxMessageSize env)) \<and>
     (is_control a \<longrightarrow> 2 \<le> wc_nState a \<longrightarrow> 12 \<le> wc_nState a \<and> length (wa_ctl a) + unat (wc_nPayloadLen a) \<le> 125) \<and>
     (wc_nState a < 16 \<longrightarrow> wa_ctl a = []) \<and> length (wc_nKey a) = 4"

lemma ws_rel_core:
  assumes "ws_rel s a"
  shows "wc_nState s = wc_nState a" "wc_h0 s = wc_h0 a" "wc_h1 s = wc_h1 a" "wc_nPayloadLen s = wc_nPayloadLen a"
    "wc_nKey s = wc_nKey a" "wc_nOpcode s = wc_nOpcode a" "wc_nTotalDataLength s = wc_nTotalDataLength a"
    "wc_hrCloseError s = wc_hrCloseError a" "wc_log s = wc_log a" "is_control s = is_control a" "is_masked s = is_masked a"
  using assms by (simp_all add: ws_rel_def wcore.defs is_control_def is_masked_def)

lemma wcore_eqI: "wcore.truncate s = wcore.truncate a \<longleftrightarrow> wc_nState s = wc_nState a \<and> wc_h0 s = wc_h0 a \<and> wc_h1 s = wc_h1 a \<and>
    wc_nPayloadLen s = wc_nPayloadLen a \<and> wc_nKey s = wc_nKey a \<and> wc_nOpcode s = wc_nOpcode a \<and>
    wc_nTotalDataLength s = wc_nTotalDataLength a \<and> wc_hrCloseError s = wc_hrCloseError a \<and> wc_log s = wc_log a"
  by (simp add: wcore.defs)

lemma wa_inv_new: "wa_inv env wa_new"
  by (simp add: wa_inv_def wa_new_def)

lemma ws_rel_new: "ws_rel wrecv_new wa_new"
  by (simp add: ws_rel_def wrecv_new_def wa_new_def wcore.defs blocks_rel_def)

section \<open>Headers\<close>

lemma unat_ucast_octet [simp]: "unat (ucast b :: u64) = unat b" for b :: u8
proof -
  have "unat b < 2 ^ 64"
    using unsigned_less [of b, where 'a = nat] by simp
  then show ?thesis
    by (simp add: unsigned_ucast_eq take_bit_nat_eq_self)
qed

lemma payload_len_small: "fh_nPayloadLen b < 126 \<Longrightarrow> unat (fh_nPayloadLen b) \<le> 125"
  by (simp add: word_less_nat_alt)

lemma unat_of_nat_le: "n \<le> unat (w :: 'a::len word) \<Longrightarrow> unat (of_nat n :: 'a word) = n"
  using unsigned_less [of w, where 'a = nat] by (simp only: unat_of_nat mod_less order.strict_trans1)

lemma no_wrap_sum: "\<not> t + p < p \<Longrightarrow> unat (t + p) = unat t + unat p" for t p :: "'a::len word"
proof (rule ccontr)
  assume a: "\<not> t + p < p" "unat (t + p) \<noteq> unat t + unat p"
  then have "unat (t + p) = unat t + unat p - 2 ^ LENGTH('a)" "2 ^ LENGTH('a) \<le> unat t + unat p"
    by (simp_all add: unat_plus_if' split: if_splits)
  then have "unat (t + p) < unat p"
    using unsigned_less [of t, where 'a = nat] by linarith
  then show False
    using a(1) by (simp add: word_less_nat_alt)
qed

lemma validate_inv:
  assumes "validate_message_length env a = (S_OK, a')" and "wc_nTotalDataLength a = of_nat (length (wa_data a))"
    and "length (wa_data a) \<le> unat (we_nMaxMessageSize env)"
  shows "a' = a" "length (wa_data a) + unat (wc_nPayloadLen a) \<le> unat (we_nMaxMessageSize env)"
proof -
  have "\<not> wc_nTotalDataLength a + wc_nPayloadLen a < wc_nPayloadLen a" "wc_nTotalDataLength a + wc_nPayloadLen a \<le> we_nMaxMessageSize env"
    using assms(1) by (auto simp: validate_message_length_def split: if_splits)
  then have "unat (wc_nTotalDataLength a) + unat (wc_nPayloadLen a) \<le> unat (we_nMaxMessageSize env)"
    using no_wrap_sum [of "wc_nTotalDataLength a" "wc_nPayloadLen a"] by (simp add: word_le_nat_alt del: linorder_not_less)
  then show "length (wa_data a) + unat (wc_nPayloadLen a) \<le> unat (we_nMaxMessageSize env)"
    unfolding assms(2) unat_of_nat_le [OF assms(3)] .
  show "a' = a"
    using assms(1) by (auto simp: validate_message_length_def split: if_splits)
qed

text \<open>What a header byte does not change, and what it keeps.\<close>

lemma validate_ok: "validate_message_length env s = (S_OK, s') \<Longrightarrow> s' = s"
  by (auto simp: validate_message_length_def split: if_splits)

lemma header_byte_keeps:
  assumes "header_byte env s b = (hRes, s')" and "wc_nState s < 16"
  shows "wc_nTotalDataLength s' = wc_nTotalDataLength s" "length (wc_nKey s') = length (wc_nKey s)"
    "wcore.more s' = wcore.more s"
  using assms
  by (auto simp: header_byte_def check_opcode_def check_length_def jump_to_maskkey_or_payloaddata_def
      validate_message_length_def Let_def header_byte_more [of env s b, symmetric] split: if_splits)

lemma header_byte_payload:
  assumes "header_byte env s b = (S_OK, s')" and "wc_nState s < 16" and "16 \<le> wc_nState s'"
  shows "validate_message_length env s' = (S_OK, s')"
  using assms by (auto simp: header_byte_def check_opcode_def check_length_def jump_to_maskkey_or_payloaddata_def
      Let_def dest: validate_ok split: if_splits)

lemma header_byte_control:
  assumes "header_byte env s b = (S_OK, s')" and "wc_nState s < 16" and "is_control s'" and "2 \<le> wc_nState s'"
    and "is_control s \<longrightarrow> 2 \<le> wc_nState s \<longrightarrow> 12 \<le> wc_nState s \<and> unat (wc_nPayloadLen s) \<le> 125"
  shows "12 \<le> wc_nState s' \<and> unat (wc_nPayloadLen s') \<le> 125"
  using assms by (auto simp: header_byte_def check_opcode_def check_length_def jump_to_maskkey_or_payloaddata_def
      Let_def is_control_def payload_len_small dest!: validate_ok split: if_splits)

lemma header_byte_inv:
  assumes "header_byte env a b = (S_OK, a')" and "wc_nState a < 16" and "wa_inv env a"
  shows "wa_inv env a'"
proof -
  have keep: "wc_nTotalDataLength a' = wc_nTotalDataLength a" "length (wc_nKey a') = length (wc_nKey a)" "wcore.more a' = wcore.more a"
    by (rule header_byte_keeps [OF assms(1,2)])+
  have data: "wa_data a' = wa_data a" "wa_ctl a' = wa_ctl a"
    using keep(3) by (cases a; cases a'; simp)+
  have inv: "wc_nTotalDataLength a = of_nat (length (wa_data a))" "length (wa_data a) \<le> unat (we_nMaxMessageSize env)"
      "is_control a \<longrightarrow> 2 \<le> wc_nState a \<longrightarrow> 12 \<le> wc_nState a \<and> unat (wc_nPayloadLen a) \<le> 125" "wa_ctl a = []" "length (wc_nKey a) = 4"
    using assms(2,3) by (auto simp: wa_inv_def)
  have "length (wa_data a') + unat (wc_nPayloadLen a') \<le> unat (we_nMaxMessageSize env)" if "16 \<le> wc_nState a'"
    using validate_inv(2) [OF header_byte_payload [OF assms(1,2) that]] inv keep data by simp
  moreover have "12 \<le> wc_nState a' \<and> unat (wc_nPayloadLen a') \<le> 125" if "is_control a'" "2 \<le> wc_nState a'"
    using header_byte_control [OF assms(1,2) that inv(3)] .
  ultimately show ?thesis
    using inv keep data by (simp add: wa_inv_def)
qed

lemma header_loop_inv: "header_loop env a msg = (S_OK, a', rest) \<Longrightarrow> wa_inv env a \<Longrightarrow> wa_inv env a'"
proof (induction msg arbitrary: a)
  case (Cons b msg)
  obtain h1 a1 where h1: "header_byte env a b = (h1, a1)"
    by (cases "header_byte env a b")
  show ?case
    using Cons.prems Cons.IH [of a1] h1 header_byte_inv [of env a b a1] by (auto split: if_splits)
qed simp

lemma same_buffers: "wcore.more s' = wcore.more s \<Longrightarrow> cm_aReceivedDataList s' = cm_aReceivedDataList s \<and> cm_lpData s' = cm_lpData s \<and>
    cm_nFilledFrame s' = cm_nFilledFrame s \<and> cf_aBuffer s' = cf_aBuffer s \<and> cf_nFilledFrame s' = cf_nFilledFrame s \<and>
    rc_lpBuffer s' = rc_lpBuffer s" for s :: wrecv
  by (cases s; cases s'; simp)

lemma same_payload: "wcore.more a' = wcore.more a \<Longrightarrow> wa_data a' = wa_data a \<and> wa_ctl a' = wa_ctl a" for a :: wabs
  by (cases a; cases a'; simp)

lemma header_loop_rep:
  assumes rel: "ws_rel s a" and run: "header_loop env a msg = (hRes, a', rest)"
  shows "\<exists>s'. header_loop env s msg = (hRes, s', rest) \<and> ws_rel s' a'"
proof -
  obtain h s' rest' where s': "header_loop env s msg = (h, s', rest')"
    by (cases "header_loop env s msg")
  have "(h, wcore.truncate s', rest') = (hRes, wcore.truncate a', rest)"
    using header_loop_truncate [of env s msg] header_loop_truncate [of env a msg] rel s' run by (simp add: ws_rel_def)
  then show ?thesis
    using s' rel same_buffers [OF header_loop_more [OF s']] same_payload [OF header_loop_more [OF run]] by (simp add: ws_rel_def)
qed

section \<open>The data of a message\<close>

lemma new_block:
  assumes rel: "ws_rel s a" and d: "cm_lpData s = None" and al: "fair malloc" "roomy malloc BLK"
  shows "\<exists>b s'. GetReceiveBufferFromCache malloc s = (Some b, s') \<and>
    ws_rel (s'\<lparr>cm_lpData := Some 0, cm_aReceivedDataList := cm_aReceivedDataList s' @ [b], cm_nFilledFrame := 0\<rparr>) a"
proof (cases "rc_lpBuffer s = []")
  case True
  have n: "unat (of_nat BLK :: u64) = BLK"
    by (simp add: RECEIVE_DATA_BLOCK_SIZE_def)
  then obtain b where b: "malloc (of_nat BLK) = Some b"
    using al(2) by (metis not_roomyI option.exhaust order_refl)
  have "length b = BLK"
    using fairD(1) [OF al(1) b] n by simp
  then show ?thesis
    using True b rel d by (auto simp: GetReceiveBufferFromCache_def ws_rel_def wcore.defs blocks_rel_def RECEIVE_DATA_BLOCK_SIZE_def)
next
  case False
  then show ?thesis
    using rel d by (auto simp: GetReceiveBufferFromCache_def ws_rel_def wcore.defs blocks_rel_def RECEIVE_DATA_BLOCK_SIZE_def
        dest: in_set_butlastD)
qed

lemma write_block:
  assumes rel: "blocks_rel bl (Some off) n data" and fit: "n + length xs \<le> BLK"
  shows "\<exists>b. block_write (last bl) off xs = Some b \<and>
    blocks_rel (butlast bl @ [b]) (if n + length xs = BLK then None else Some (off + length xs)) (n + length xs) (data @ xs)"
proof -
  have r: "\<forall>b \<in> set bl. length b = BLK" "off = n" "bl \<noteq> []" "data = concat (butlast bl) @ take n (last bl)"
    using rel by (auto simp: blocks_rel_def)
  then have last: "length (last bl) = BLK"
    by simp
  define b where "b = take n (last bl) @ xs @ drop (n + length xs) (last bl)"
  have "block_write (last bl) off xs = Some b" "length b = BLK"
    using last fit r(2) by (simp_all add: b_def block_write_ok)
  moreover have "take (n + length xs) b = take n (last bl) @ xs"
    using last fit by (simp add: b_def)
  ultimately show ?thesis
    using r fit by (auto simp: blocks_rel_def dest: in_set_butlastD)
qed

lemma length_blocks: "\<forall>b \<in> set bl. length b = BLK \<Longrightarrow> length (concat bl) = length bl * BLK"
  by (induction bl) auto

lemma blocks_mask:
  assumes "blocks_rel bl (Some off) n data"
  shows "mask_from key n xs = mask_from key (length data) xs"
proof (rule mask_mod)
  have "length (concat (butlast bl)) = length (butlast bl) * BLK"
    using assms by (intro length_blocks) (auto simp: blocks_rel_def dest: in_set_butlastD)
  then have "length data = (length bl - 1) * 16384 + n"
    using assms by (auto simp: blocks_rel_def RECEIVE_DATA_BLOCK_SIZE_def)
  then have "length data = n + (length bl - 1) * 4096 * 4"
    by simp
  then show "n mod 4 = length data mod 4"
    by (simp only: mod_mult_self1)
qed
lemma add_data_append: "add_data ys (add_data xs a) = add_data (xs @ ys) a"
  by (simp add: add_data_def unmask_def is_masked_def mask_append algebra_simps)

lemma add_data_take: "add_data (take k (drop n msg)) (add_data (take n msg) a) = add_data (take (n + k) msg) a"
  by (simp add: add_data_append take_add)

lemma data_loop_rep:
  assumes al: "fair malloc" "roomy malloc BLK" "\<forall>n. more_fits n"
  shows "ws_rel s a \<Longrightarrow> k = min (length msg) (unat (wc_nPayloadLen a)) \<Longrightarrow>
    \<exists>s'. data_loop malloc more_fits s msg = Some (S_OK, s', drop k msg) \<and> ws_rel s' (add_data (take k msg) a)"
proof (induction "length msg" arbitrary: s a msg k rule: less_induct)
  case less
  note rel = less.prems(1)
  show ?case
  proof (cases "msg = [] \<or> wc_nPayloadLen a = 0")
    case True
    have "add_data [] a = a"
      by (simp add: add_data_def unmask_def)
    then show ?thesis
      using True rel less.prems(2) ws_rel_core(4) [OF rel] by (auto simp: data_loop.simps [of malloc more_fits s msg])
  next
    case False
    define s1 where "s1 = (case cm_lpData s of Some _ \<Rightarrow> s | None \<Rightarrow>
        (case GetReceiveBufferFromCache malloc s of (b, s) \<Rightarrow>
          s\<lparr>cm_lpData := Some 0, cm_aReceivedDataList := cm_aReceivedDataList s @ [the b], cm_nFilledFrame := 0\<rparr>))"
    have s1: "ws_rel s1 a"
      using new_block [OF rel _ al(1,2)] rel by (auto simp: s1_def split: option.split)
    obtain off where off: "cm_lpData s1 = Some off"
      by (cases "cm_lpData s"; cases "GetReceiveBufferFromCache malloc s") (auto simp: s1_def)
    have bl: "blocks_rel (cm_aReceivedDataList s1) (Some off) (cm_nFilledFrame s1) (wa_data a)"
      using s1 off by (simp add: ws_rel_def)
    then have lt: "cm_nFilledFrame s1 < BLK" "cm_aReceivedDataList s1 \<noteq> []"
      by (auto simp: blocks_rel_def)
    define n where "n = min (min (BLK - cm_nFilledFrame s1) (length msg)) (unat (wc_nPayloadLen a))"
    have "wc_nPayloadLen a \<noteq> 0 \<longleftrightarrow> 0 < unat (wc_nPayloadLen a)"
      by (simp add: unat_gt_0)
    then have n: "0 < n" "n \<le> length msg" "n \<le> unat (wc_nPayloadLen a)" "cm_nFilledFrame s1 + n \<le> BLK"
      using False lt(1) by (auto simp: n_def)
    define xs where "xs = unmask a (length (wa_data a)) (take n msg)"
    have xs: "(if is_masked s1 then mask_from (wc_nKey s1) (cm_nFilledFrame s1) (take n msg) else take n msg) = xs" "length xs = n"
      using n(2) ws_rel_core(5,11) [OF s1] blocks_mask [OF bl] by (simp_all add: xs_def unmask_def)
    obtain b where b: "block_write (last (cm_aReceivedDataList s1)) off xs = Some b"
      "blocks_rel (butlast (cm_aReceivedDataList s1) @ [b]) (if cm_nFilledFrame s1 + n = BLK then None else Some (off + n))
         (cm_nFilledFrame s1 + n) (wa_data a @ xs)"
      using write_block [OF bl, of xs] n(4) xs(2) by auto
    define s2 where "s2 = s1\<lparr>cm_aReceivedDataList := butlast (cm_aReceivedDataList s1) @ [b],
        cm_lpData := if cm_nFilledFrame s1 + n = BLK then None else Some (off + n),
        wc_nTotalDataLength := wc_nTotalDataLength s1 + of_nat n, wc_nPayloadLen := wc_nPayloadLen s1 - of_nat n,
        cm_nFilledFrame := cm_nFilledFrame s1 + n\<rparr>"
    have s2: "ws_rel s2 (add_data (take n msg) a)"
      using s1 b(2) n(2) unfolding ws_rel_def s2_def by (simp add: add_data_def xs_def wcore.defs)
    have alloc: "(case cm_lpData s of
           None \<Rightarrow> (case GetReceiveBufferFromCache malloc s of
               (None, s) \<Rightarrow> (E_OUTOFMEMORY, s)
             | (Some b, s) \<Rightarrow>
                 if more_fits (length (cm_aReceivedDataList s))
                 then (S_OK, s\<lparr>cm_lpData := Some 0, cm_aReceivedDataList := cm_aReceivedDataList s @ [b], cm_nFilledFrame := 0\<rparr>)
                 else (E_OUTOFMEMORY, PutReceiveBufferOnCache b (s\<lparr>cm_lpData := Some 0\<rparr>)))
         | Some _ \<Rightarrow> (S_OK, s)) = (S_OK, s1)"
      using new_block [OF rel _ al(1,2)] al(3) by (cases "cm_lpData s") (auto simp: s1_def)
    have step: "data_loop malloc more_fits s msg = data_loop malloc more_fits s2 (drop n msg)"
    proof -
      have "(msg = [] \<or> wc_nPayloadLen s = 0) = False" "(cm_aReceivedDataList s1 = []) = False" "(S_OK \<noteq> S_OK) = False"
        "min (min (BLK - cm_nFilledFrame s1) (length msg)) (unat (wc_nPayloadLen s1)) = n"
        using False ws_rel_core(4) [OF rel] ws_rel_core(4) [OF s1] lt(2) by (simp_all add: n_def)
      then show ?thesis
        unfolding data_loop.simps [of malloc more_fits s msg] alloc
        by (simp only: if_False Let_def prod.case off Option.bind.simps xs(1) b(1) s2_def)
    qed
    have u: "unat (wc_nPayloadLen (add_data (take n msg) a)) = unat (wc_nPayloadLen a) - n"
      using n(2,3) by (simp add: add_data_def unat_sub_le unat_of_nat_le word_le_nat_alt)
    have k: "k = n + min (length (drop n msg)) (unat (wc_nPayloadLen (add_data (take n msg) a)))"
      using less.prems(2) n(2,3) u by simp
    define m where "m = min (length (drop n msg)) (unat (wc_nPayloadLen (add_data (take n msg) a)))"
    have "length (drop n msg) < length msg"
      using n(1,2) by simp
    then obtain s' where "data_loop malloc more_fits s2 (drop n msg) = Some (S_OK, s', drop m (drop n msg))"
      "ws_rel s' (add_data (take m (drop n msg)) (add_data (take n msg) a))"
      using less.hyps [OF _ s2 m_def] by blast
    then show ?thesis
      using step unfolding k m_def [symmetric] by (simp add: add_data_take add.commute)
  qed
qed

section \<open>The payload of a control frame\<close>

lemma control_part_rep:
  assumes rel: "ws_rel s a" and k: "k = min (length msg) (unat (wc_nPayloadLen a))" and fit: "length (wa_ctl a) + unat (wc_nPayloadLen a) \<le> 125"
  shows "\<exists>s'. control_part s msg = Some (S_OK, s', drop k msg) \<and> ws_rel s' (add_control (take k msg) a)"
proof (cases "msg = [] \<or> wc_nPayloadLen a = 0")
  case True
  have "add_control [] a = a"
    by (simp add: add_control_def unmask_def)
  then show ?thesis
    using True rel k ws_rel_core(4) [OF rel] by (auto simp: control_part_def)
next
  case False
  define xs where "xs = unmask a (length (wa_ctl a)) (take k msg)"
  have r: "length (cf_aBuffer s) = 128" "cf_nFilledFrame s = length (wa_ctl a)" "take (length (wa_ctl a)) (cf_aBuffer s) = wa_ctl a"
    using rel by (auto simp: ws_rel_def)
  have xs: "(if is_masked s then mask_from (wc_nKey s) (cf_nFilledFrame s) (take k msg) else take k msg) = xs" "length xs = k"
    using ws_rel_core(5,11) [OF rel] r(2) k by (simp_all add: xs_def unmask_def)
  have k': "min (unat (wc_nPayloadLen s)) (length msg) = k"
    using k ws_rel_core(4) [OF rel] by (simp add: min.commute)
  obtain b where b: "block_write (cf_aBuffer s) (cf_nFilledFrame s) xs = Some b" "length b = 128" "take (length (wa_ctl a) + k) b = wa_ctl a @ xs"
  proof -
    have "length (wa_ctl a) + length xs \<le> length (cf_aBuffer s)"
      unfolding xs(2) k r(1) using fit by simp
    then show thesis
      using that block_write_prefix [of "length (wa_ctl a)" xs "cf_aBuffer s"] unfolding r xs(2) by blast
  qed
  have "(msg = [] \<or> wc_nPayloadLen s = 0) = False"
    using False ws_rel_core(4) [OF rel] by simp
  then have "control_part s msg = Some (S_OK, s\<lparr>cf_aBuffer := b, cf_nFilledFrame := cf_nFilledFrame s + k,
       wc_nPayloadLen := wc_nPayloadLen s - of_nat k\<rparr>, drop k msg)"
    unfolding control_part_def by (simp only: if_False Let_def k' xs(1) b(1) Option.bind.simps)
  then show ?thesis
    using rel b xs(2) r(2) k unfolding ws_rel_def by (auto simp: add_control_def xs_def wcore.defs)
qed

lemma payload_rep:
  assumes rel: "ws_rel s a" and inv: "wa_inv env a" "16 \<le> wc_nState a" and k: "k = min (length msg) (unat (wc_nPayloadLen a))"
    and al: "fair malloc" "roomy malloc BLK" "\<forall>n. more_fits n"
  shows "\<exists>s'. (if is_control s then control_part s msg else data_loop malloc more_fits s msg) = Some (S_OK, s', drop k msg) \<and>
    ws_rel s' (add_payload (take k msg) a)"
  using data_loop_rep [OF al rel k] control_part_rep [OF rel k] inv ws_rel_core(10) [OF rel]
  by (auto simp: add_payload_def wa_inv_def)

lemma add_payload_inv:
  assumes inv: "wa_inv env a" "16 \<le> wc_nState a" and k: "length xs \<le> unat (wc_nPayloadLen a)"
  shows "wa_inv env (add_payload xs a)"
proof -
  have "unat (wc_nPayloadLen a - of_nat (length xs)) = unat (wc_nPayloadLen a) - length xs"
    using k by (simp add: unat_sub_le unat_of_nat_le word_le_nat_alt)
  then show ?thesis
    using inv k by (auto simp: wa_inv_def add_payload_def add_control_def add_data_def is_control_def)
qed

section \<open>The end of a frame\<close>

lemma join_blocks_rep:
  assumes "\<forall>b \<in> set bl. length b = BLK" and "bl \<noteq> []" and "k \<le> BLK" and "n = length (butlast bl) * BLK + k"
  shows "join_blocks bl n = Some (concat (butlast bl) @ take k (last bl))"
  using assms
proof (induction bl arbitrary: n)
  case (Cons b bl)
  show ?case
  proof (cases bl)
    case Nil
    then show ?thesis
      using Cons.prems by (simp add: block_read_ok)
  next
    case (Cons b' bl')
    then have "join_blocks bl (n - BLK) = Some (concat (butlast bl) @ take k (last bl))"
      using Cons.prems Cons.IH [of "n - BLK"] by simp
    then show ?thesis
      using Cons Cons.prems by (simp add: block_read_ok)
  qed
qed simp

lemma blocks_length:
  assumes rel: "blocks_rel bl p n data" and "data \<noteq> []"
  shows "\<exists>k \<le> BLK. bl \<noteq> [] \<and> data = concat (butlast bl) @ take k (last bl) \<and> length data = length (butlast bl) * BLK + k"
proof -
  have bl: "\<forall>b \<in> set bl. length b = BLK" "bl \<noteq> []"
    using assms by (auto simp: blocks_rel_def split: option.splits)
  then have len: "length (concat (butlast bl)) = length (butlast bl) * BLK" "length (last bl) = BLK"
    using length_blocks [of "butlast bl"] by (auto dest: in_set_butlastD)
  obtain k where k: "k \<le> BLK" "data = concat (butlast bl) @ take k (last bl)"
  proof (cases p)
    case None
    have "concat bl = concat (butlast bl) @ last bl"
      using append_butlast_last_id [OF bl(2)] by (metis concat_append concat.simps append_Nil2)
    then show thesis
      using that [of BLK] rel len(2) None by (simp add: blocks_rel_def)
  next
    case (Some off)
    then show thesis
      using that [of n] rel by (simp add: blocks_rel_def)
  qed
  then show ?thesis
    using bl(2) len by auto
qed

text \<open>The message that is given to the callback.\<close>

lemma message_rep:
  assumes rel: "ws_rel s a" and inv: "wa_inv env a" and ne: "wa_data a \<noteq> []" and al: "fair malloc" "roomy malloc (unat (we_nMaxMessageSize env))"
  shows "if length (wa_data a) < BLK
    then cm_aReceivedDataList s \<noteq> [] \<and> block_read (hd (cm_aReceivedDataList s)) 0 (length (wa_data a)) = Some (wa_data a)
    else \<exists>b b'. malloc (wc_nTotalDataLength s) = Some b \<and> join_blocks (cm_aReceivedDataList s) (length (wa_data a)) = Some (wa_data a) \<and>
      block_write b 0 (wa_data a) = Some b' \<and> block_read b' 0 (length (wa_data a)) = Some (wa_data a)"
proof -
  define bl where "bl = cm_aReceivedDataList s"
  have total: "unat (wc_nTotalDataLength s) = length (wa_data a)" "length (wa_data a) \<le> unat (we_nMaxMessageSize env)"
    using inv ws_rel_core(7) [OF rel] unat_of_nat_le [of "length (wa_data a)" "we_nMaxMessageSize env"] by (auto simp: wa_inv_def)
  have r: "blocks_rel bl (cm_lpData s) (cm_nFilledFrame s) (wa_data a)"
    using rel by (simp add: ws_rel_def bl_def)
  then have bl: "\<forall>b \<in> set bl. length b = BLK"
    by (simp add: blocks_rel_def)
  obtain k where k: "k \<le> BLK" "bl \<noteq> []" "wa_data a = concat (butlast bl) @ take k (last bl)" "length (wa_data a) = length (butlast bl) * BLK + k"
    using blocks_length [OF r ne] by blast
  show ?thesis
  proof (cases "length (wa_data a) < BLK")
    case True
    then have "length (butlast bl) = 0"
      using k(4) by (cases "length (butlast bl)") simp_all
    then have "butlast bl = []"
      by (simp only: length_0_conv)
    then have "hd bl = last bl" "wa_data a = take k (last bl)" "length (wa_data a) = k"
      using k by (cases bl; simp split: if_splits)+
    then show ?thesis
      using True k(1,2) bl by (simp add: bl_def [symmetric] block_read_ok)
  next
    case False
    obtain b where b: "malloc (wc_nTotalDataLength s) = Some b"
      using al(2) total by (metis not_roomyI option.exhaust)
    then have "length b = length (wa_data a)"
      using fairD(1) [OF al(1) b] total by simp
    then have "block_write b 0 (wa_data a) = Some (wa_data a)"
      by (simp add: block_write_ok)
    moreover have "join_blocks bl (length (wa_data a)) = Some (wa_data a)"
      using join_blocks_rep [OF bl k(2,1,4)] k(3) by simp
    ultimately show ?thesis
      using False b by (simp add: bl_def [symmetric] block_read_ok)
  qed
qed

lemma put_all_rep:
  assumes "\<forall>b \<in> set (cm_aReceivedDataList s). length b = BLK" and "length (rc_lpBuffer s) \<le> 4" and "\<forall>b \<in> set (rc_lpBuffer s). length b = BLK"
  shows "\<exists>c. PutAllReceiveBuffersOnCache s = s\<lparr>cm_aReceivedDataList := [], rc_lpBuffer := c\<rparr> \<and> length c \<le> 4 \<and> (\<forall>b \<in> set c. length b = BLK)"
proof -
  have "\<exists>c. fold PutReceiveBufferOnCache bs s = s\<lparr>rc_lpBuffer := c\<rparr> \<and> length c \<le> 4 \<and> (\<forall>b \<in> set c. length b = BLK)"
    if "\<forall>b \<in> set bs. length b = BLK" "length (rc_lpBuffer s) \<le> 4" "\<forall>b \<in> set (rc_lpBuffer s). length b = BLK" for bs s
    using that
  proof (induction bs arbitrary: s)
    case Nil
    then show ?case
      by (intro exI [of _ "rc_lpBuffer s"]) simp
  next
    case (Cons b bs)
    define c0 where "c0 = (if length (rc_lpBuffer s) < 4 then rc_lpBuffer s @ [b] else rc_lpBuffer s)"
    have "PutReceiveBufferOnCache b s = s\<lparr>rc_lpBuffer := c0\<rparr>" "length c0 \<le> 4" "\<forall>b \<in> set c0. length b = BLK"
      using Cons.prems by (auto simp: PutReceiveBufferOnCache_def c0_def)
    then show ?case
      using Cons.IH [of "s\<lparr>rc_lpBuffer := c0\<rparr>"] Cons.prems(1) by simp
  qed
  note put = this
  have "\<forall>b \<in> set (take n (cm_aReceivedDataList s)). length b = BLK" for n
    using assms(1) by (auto dest: in_set_takeD)
  from put [OF this assms(2,3)] obtain c where
    "fold PutReceiveBufferOnCache (take (min (length (cm_aReceivedDataList s)) (4 - length (rc_lpBuffer s))) (cm_aReceivedDataList s)) s =
      s\<lparr>rc_lpBuffer := c\<rparr>" "length c \<le> 4" "\<forall>b \<in> set c. length b = BLK"
    by blast
  then show ?thesis
    by (intro exI [of _ c]) (simp add: PutAllReceiveBuffersOnCache_def Let_def)
qed

lemma data_frame_end_rep:
  assumes rel: "ws_rel s a" and inv: "wa_inv env a" and al: "fair malloc" "roomy malloc (unat (we_nMaxMessageSize env))"
  shows "\<exists>s'. data_frame_end malloc s = Some (S_OK, s') \<and> ws_rel s' (wa_data_end a)"
proof (cases "fh_nFin (wc_h0 a) = 0")
  case True
  then show ?thesis
    using rel ws_rel_core(2) [OF rel] by (simp add: data_frame_end_def wa_data_end_def)
next
  case False
  have total: "unat (wc_nTotalDataLength s) = length (wa_data a)"
    using inv ws_rel_core(7) [OF rel] unat_of_nat_le [of "length (wa_data a)" "we_nMaxMessageSize env"] by (auto simp: wa_inv_def)
  have pos: "0 < wc_nTotalDataLength s \<longleftrightarrow> wa_data a \<noteq> []"
    by (simp add: word_less_nat_alt total)
  define s1 where "s1 = s\<lparr>wc_log := wc_log a @ (if wa_data a \<noteq> [] then [deliver (wc_nOpcode a) (wa_data a)] else [])\<rparr>"
  have s1: "ws_rel s1 (a\<lparr>wc_log := wc_log a @ (if wa_data a \<noteq> [] then [deliver (wc_nOpcode a) (wa_data a)] else [])\<rparr>)"
    using rel by (simp add: s1_def ws_rel_def wcore.defs)
  have step: "data_frame_end malloc s = Some (S_OK, (PutAllReceiveBuffersOnCache s1)
      \<lparr>wc_nOpcode := OPCODE_NONE, cm_lpData := None, cm_nFilledFrame := 0, wc_nTotalDataLength := 0\<rparr>)"
  proof (cases "wa_data a = []")
    case True
    then have "s1 = s"
      using ws_rel_core(9) [OF rel] by (simp add: s1_def)
    then show ?thesis
      using False True pos ws_rel_core(2) [OF rel] by (simp add: data_frame_end_def)
  next
    case ne: False
    then have s1_eq: "s1 = s\<lparr>wc_log := wc_log s @ [deliver (wc_nOpcode s) (wa_data a)]\<rparr>"
      using ws_rel_core(6,9) [OF rel] by (simp add: s1_def)
    show ?thesis
    proof (cases "length (wa_data a) < BLK")
      case True
      then show ?thesis
        using message_rep [OF rel inv ne al] False ne pos ws_rel_core(2) [OF rel] s1_eq
        by (simp add: data_frame_end_def total)
    next
      case long: False
      then obtain b b' where "malloc (wc_nTotalDataLength s) = Some b" "join_blocks (cm_aReceivedDataList s) (length (wa_data a)) = Some (wa_data a)"
        "block_write b 0 (wa_data a) = Some b'" "block_read b' 0 (length (wa_data a)) = Some (wa_data a)"
        using message_rep [OF rel inv ne al] by auto
      then show ?thesis
        using long False ne pos ws_rel_core(2) [OF rel] s1_eq by (simp add: data_frame_end_def total)
    qed
  qed
  obtain c where c: "PutAllReceiveBuffersOnCache s1 = s1\<lparr>cm_aReceivedDataList := [], rc_lpBuffer := c\<rparr>" "length c \<le> 4" "\<forall>b \<in> set c. length b = BLK"
    using put_all_rep [of s1] s1 unfolding ws_rel_def blocks_rel_def by blast
  show ?thesis
    unfolding step c(1) using s1 c(2,3) False by (simp add: ws_rel_def wcore.defs wa_data_end_def blocks_rel_def)
qed

lemma BuildFrame_part:
  assumes "unat n = length xs"
  shows "\<exists>h body. BuildFrame env xs n op fin = Some (h, body) \<and> length body = length xs \<and> BuildFrame env (xs @ junk) n op fin = Some (h, body @ junk)"
proof -
  have "block_read (xs @ junk) 0 (length xs) = Some xs" "block_read xs 0 (length xs) = Some xs"
    by (simp_all add: block_read_ok)
  moreover have "block_write (xs @ junk) 0 (mask_from key 0 xs) = Some (mask_from key 0 xs @ junk)"
    "block_write xs 0 (mask_from key 0 xs) = Some (mask_from key 0 xs)" for key
    by (simp_all add: block_write_ok)
  ultimately show ?thesis
    by (simp add: BuildFrame_def Let_def assms split: prod.split)
qed

lemma control_frame_part:
  assumes "unat n = length xs"
  shows "\<exists>hRes body sent'. InternalSendControlFrame env op xs n sent = Some (hRes, body, sent') \<and> length body = length xs \<and>
    InternalSendControlFrame env op (xs @ junk) n sent = Some (hRes, body @ junk, sent')"
proof -
  obtain h body where b: "BuildFrame env xs n op True = Some (h, body)" "length body = length xs"
    "BuildFrame env (xs @ junk) n op True = Some (h, body @ junk)"
    using BuildFrame_part [OF assms] by blast
  then have "block_read (body @ junk) 0 (length xs) = Some body" "block_read body 0 (length xs) = Some body"
    by (simp_all add: block_read_ok)
  then show ?thesis
    using b by (simp add: InternalSendControlFrame_def assms split: prod.split)
qed
lemma SendClose_some: "\<exists>r sent'. SendClose env code [] sent = Some (r, sent')"
  using control_frame_part [of 2 "[ucast (drop_bit 8 code), ucast (code AND 255)]" env OPCODE_ConnectionClose sent "[]"]
  by (auto simp: SendClose_def)

lemma control_frame_end_rep:
  assumes rel: "ws_rel s a" and inv: "wa_inv env a" and at: "16 \<le> wc_nState a" "is_control a"
  shows "\<exists>ret hRes s' a'. control_frame_end env s = Some (ret, hRes, s') \<and>
    wa_control_end env a = (if ret then Some hRes else None, a') \<and> wcore.truncate s' = wcore.truncate a' \<and>
    (\<not> ret \<longrightarrow> ws_rel s' a' \<and> wa_ctl a' = [] \<and> wa_data a' = wa_data a \<and> wc_nTotalDataLength a' = wc_nTotalDataLength a \<and> wc_nKey a' = wc_nKey a)"
proof -
  define ctl where "ctl = wa_ctl a"
  have r: "length (cf_aBuffer s) = 128" "cf_nFilledFrame s = length ctl" "take (length ctl) (cf_aBuffer s) = ctl"
    using rel by (auto simp: ws_rel_def ctl_def)
  define junk where "junk = drop (length ctl) (cf_aBuffer s)"
  have "cf_aBuffer s = take (length ctl) (cf_aBuffer s) @ junk"
    unfolding junk_def by (rule append_take_drop_id [symmetric])
  then have buf: "cf_aBuffer s = ctl @ junk" "length (ctl @ junk) = 128" "cf_nFilledFrame s = length ctl"
    using r by simp_all
  have ctl: "length ctl \<le> 125"
    using inv at by (auto simp: wa_inv_def ctl_def)
  note core = ws_rel_core [OF rel]
  have reset: "ws_rel (s\<lparr>wc_log := l, cf_aBuffer := replicate 128 0, cf_nFilledFrame := 0\<rparr>) (a\<lparr>wa_ctl := [], wc_log := l\<rparr>)" for l
    using rel by (simp add: ws_rel_def wcore.defs)
  consider (close) "fh_nOpcode (wc_h0 a) = OPCODE_ConnectionClose" | (ping) "fh_nOpcode (wc_h0 a) = OPCODE_Ping"
    | (other) "fh_nOpcode (wc_h0 a) \<noteq> OPCODE_ConnectionClose" "fh_nOpcode (wc_h0 a) \<noteq> OPCODE_Ping"
    by blast
  then show ?thesis
  proof cases
    case close
    define code :: u16 where "code = (if length ctl \<ge> 2 then ucast (ctl ! 1) OR push_bit 8 (ucast (ctl ! 0)) else 1000)"
    have code: "(if cf_nFilledFrame s \<ge> 2 then ucast (cf_aBuffer s ! 1) OR push_bit 8 (ucast (cf_aBuffer s ! 0)) else 1000) = code"
      by (auto simp: code_def buf nth_append)
    obtain r sent where sc: "SendClose env code [] [] = Some (r, sent)"
      using SendClose_some by blast
    define u :: "ws_event list" where "u = wc_log a @ [CloseFrame code (close_error code)] @ (if code = 1000 then [Reply sent] else []) @ [IpcClose]"
    have c1: "control_frame_end env s =
        Some (True, S_OK, if wc_hrCloseError a \<noteq> None then s else s\<lparr>wc_hrCloseError := Some (close_error code), wc_log := u\<rparr>)"
      unfolding control_frame_end_def Let_def core(2) close code
      using sc by (cases "wc_hrCloseError a"; cases "code = 1000") (simp_all add: core(8,9) u_def)
    have c2: "wa_control_end env a =
        (Some S_OK, if wc_hrCloseError a \<noteq> None then a else a\<lparr>wc_hrCloseError := Some (close_error code), wc_log := u\<rparr>)"
      unfolding wa_control_end_def Let_def close ctl_def [symmetric] code_def [symmetric]
      using sc by (cases "wc_hrCloseError a"; cases "code = 1000") (simp_all add: u_def)
    have "wcore.truncate s = wcore.truncate a"
      using rel by (simp add: ws_rel_def)
    then show ?thesis
      unfolding c1 c2 by (intro exI [of _ True]) (simp add: wcore.defs)
  next
    case ping
    have "unat (of_nat (length ctl) :: u32) = length ctl"
      using ctl by (simp only: unat_of_nat) simp
    then obtain hRes body sent where f: "InternalSendControlFrame env OPCODE_Pong ctl (of_nat (length ctl)) [] = Some (hRes, body, sent)"
      "InternalSendControlFrame env OPCODE_Pong (ctl @ junk) (of_nat (length ctl)) [] = Some (hRes, body @ junk, sent)"
      using control_frame_part [of "of_nat (length ctl)" ctl env OPCODE_Pong "[]" junk] by blast
    have ne: "OPCODE_Ping \<noteq> OPCODE_ConnectionClose"
      by (simp add: opcodes)
    define s0 where "s0 = s\<lparr>cf_aBuffer := body @ junk, wc_log := wc_log a @ [Reply sent]\<rparr>"
    have c1: "control_frame_end env s =
        Some (if hRes \<noteq> S_OK then (True, hRes, s0) else (False, S_OK, s0\<lparr>cf_aBuffer := replicate 128 0, cf_nFilledFrame := 0\<rparr>))"
      unfolding control_frame_end_def Let_def core(2) ping if_not_P [OF ne] buf(1,3)
      by (simp add: f s0_def core(9))
    have c2: "wa_control_end env a = (if hRes = S_OK then (None, a\<lparr>wa_ctl := [], wc_log := wc_log a @ [Reply sent]\<rparr>)
        else (Some hRes, a\<lparr>wc_log := wc_log a @ [Reply sent]\<rparr>))"
      unfolding wa_control_end_def Let_def ping if_not_P [OF ne] ctl_def [symmetric] wa_reply_def
      by (simp add: f)
    have "wcore.truncate s0 = wcore.truncate (a\<lparr>wc_log := wc_log a @ [Reply sent]\<rparr>)"
      "s0\<lparr>cf_aBuffer := replicate 128 0, cf_nFilledFrame := 0\<rparr> =
        s\<lparr>wc_log := wc_log a @ [Reply sent], cf_aBuffer := replicate 128 0, cf_nFilledFrame := 0\<rparr>"
      using rel by (simp_all add: ws_rel_def wcore.defs s0_def)
    note t = this
    show ?thesis
    proof (cases "hRes = S_OK")
      case True
      then show ?thesis
        using reset [of "wc_log a @ [Reply sent]"] t(2) unfolding c1 c2
        by (intro exI [of _ False] exI [of _ S_OK] exI [of _ "s0\<lparr>cf_aBuffer := replicate 128 0, cf_nFilledFrame := 0\<rparr>"]
            exI [of _ "a\<lparr>wa_ctl := [], wc_log := wc_log a @ [Reply sent]\<rparr>"]) (simp add: ws_rel_def)
    next
      case False
      then show ?thesis
        using t(1) unfolding c1 c2
        by (intro exI [of _ True] exI [of _ hRes] exI [of _ s0] exI [of _ "a\<lparr>wc_log := wc_log a @ [Reply sent]\<rparr>"]) simp
    qed
  next
    case other
    have plain: "ws_rel (s\<lparr>cf_aBuffer := replicate 128 0, cf_nFilledFrame := 0\<rparr>) (a\<lparr>wa_ctl := []\<rparr>)"
      using rel by (simp add: ws_rel_def wcore.defs)
    show ?thesis
    proof (cases "fh_nOpcode (wc_h0 a) = OPCODE_Pong")
      case True
      have "control_frame_end env s = Some (False, S_OK, s\<lparr>wc_log := wc_log a @ [PongFrame], cf_aBuffer := replicate 128 0, cf_nFilledFrame := 0\<rparr>)"
        "wa_control_end env a = (None, a\<lparr>wa_ctl := [], wc_log := wc_log a @ [PongFrame]\<rparr>)"
        using other True unfolding control_frame_end_def wa_control_end_def Let_def core(2,9) by simp_all
      then show ?thesis
        using reset [of "wc_log a @ [PongFrame]"] by (intro exI [of _ False]) (simp add: ws_rel_def)
    next
      case False
      have "control_frame_end env s = Some (False, S_OK, s\<lparr>cf_aBuffer := replicate 128 0, cf_nFilledFrame := 0\<rparr>)"
        "wa_control_end env a = (None, a\<lparr>wa_ctl := []\<rparr>)"
        using other False unfolding control_frame_end_def wa_control_end_def Let_def core(2,9) by simp_all
      then show ?thesis
        using plain by (intro exI [of _ False]) (simp add: ws_rel_def)
    qed
  qed
qed

lemma wa_data_end_core: "wc_nState (wa_data_end a) = wc_nState a" "wc_h0 (wa_data_end a) = wc_h0 a" "wc_nKey (wa_data_end a) = wc_nKey a"
    "wa_ctl (wa_data_end a) = wa_ctl a"
  by (simp_all add: wa_data_end_def)

lemma frame_end_rep:
  assumes rel: "ws_rel s a" and inv: "wa_inv env a" and at: "16 \<le> wc_nState a" and ctl: "is_control a \<or> wa_ctl a = []"
    and al: "fair malloc" "roomy malloc (unat (we_nMaxMessageSize env))"
  shows "\<exists>r s' a'. frame_end env malloc s = Some (r, s') \<and> wa_frame_end env a = (r, a') \<and> wcore.truncate s' = wcore.truncate a' \<and>
    (r = None \<longrightarrow> ws_rel s' a' \<and> wa_inv env a' \<and> wc_nState a' = 0)"
proof (cases "is_control a")
  case True
  obtain ret hRes s' a' where c: "control_frame_end env s = Some (ret, hRes, s')"
    "wa_control_end env a = (if ret then Some hRes else None, a')" "wcore.truncate s' = wcore.truncate a'"
    "\<not> ret \<longrightarrow> ws_rel s' a' \<and> wa_ctl a' = [] \<and> wa_data a' = wa_data a \<and> wc_nTotalDataLength a' = wc_nTotalDataLength a \<and> wc_nKey a' = wc_nKey a"
    using control_frame_end_rep [OF rel inv at True] by blast
  show ?thesis
  proof (cases ret)
    case True
    then show ?thesis
      using \<open>is_control a\<close> c ws_rel_core(10) [OF rel] by (simp add: frame_end_def wa_frame_end_def)
  next
    case False
    then have "ws_rel s' a'" "wa_ctl a' = []" "wa_data a' = wa_data a" "wc_nTotalDataLength a' = wc_nTotalDataLength a"
      using c(4) by simp_all
    then have "ws_rel (s'\<lparr>wc_nState := 0, wc_nKey := [0, 0, 0, 0]\<rparr>) (a'\<lparr>wc_nState := 0, wc_nKey := [0, 0, 0, 0]\<rparr>)"
      "wa_inv env (a'\<lparr>wc_nState := 0, wc_nKey := [0, 0, 0, 0]\<rparr>)"
      using inv by (simp_all add: ws_rel_def wcore.defs wa_inv_def)
    then show ?thesis
      using \<open>is_control a\<close> False c(1,2) ws_rel_core(10) [OF rel] unfolding frame_end_def wa_frame_end_def
      by (simp add: ws_rel_def)
  qed
next
  case False
  obtain s' where d: "data_frame_end malloc s = Some (S_OK, s')" "ws_rel s' (wa_data_end a)"
    using data_frame_end_rep [OF rel inv al] by blast
  have "ws_rel (s'\<lparr>wc_nState := 0, wc_nKey := [0, 0, 0, 0]\<rparr>) ((wa_data_end a)\<lparr>wc_nState := 0, wc_nKey := [0, 0, 0, 0]\<rparr>)"
    using d(2) by (simp add: ws_rel_def wcore.defs)
  moreover have "wa_inv env ((wa_data_end a)\<lparr>wc_nState := 0, wc_nKey := [0, 0, 0, 0]\<rparr>)"
    using inv ctl False by (auto simp: wa_inv_def wa_data_end_def)
  ultimately show ?thesis
    using False d(1) ws_rel_core(10) [OF rel] unfolding frame_end_def wa_frame_end_def by (simp add: ws_rel_def)
qed

section \<open>A turn, and the call\<close>

text \<open>Between two turns a frame is not at its end, and a data frame leaves the buffer of the control frames alone.\<close>

definition wa_ready :: "ws_env \<Rightarrow> wabs \<Rightarrow> bool" where
  "wa_ready env a \<longleftrightarrow> wa_inv env a \<and> \<not> at_end a \<and> (is_control a \<or> wa_ctl a = [])"

definition payload_part :: "ws_env \<Rightarrow> u8 allocator \<Rightarrow> (nat \<Rightarrow> bool) \<Rightarrow> wrecv \<Rightarrow> u8 list \<Rightarrow> (HRESULT option \<times> wrecv \<times> u8 list) option" where
  "payload_part env malloc more_fits s msg = do {
     (hRes, s, msg) \<leftarrow> (if is_control s then control_part s msg else data_loop malloc more_fits s msg);
     if hRes \<noteq> S_OK then Some (Some hRes, s, msg)
     else if wc_nPayloadLen s = 0 then do { (r, s) \<leftarrow> frame_end env malloc s; Some (r, s, msg) }
     else Some (None, s, msg)
   }"
lemma add_payload_nil [simp]: "add_payload [] a = a"
  by (simp add: add_payload_def add_control_def add_data_def unmask_def)

lemma add_payload_ctl: "\<not> is_control a \<Longrightarrow> wa_ctl (add_payload xs a) = wa_ctl a"
  by (simp add: add_payload_def add_data_def)

lemma payload_turn:
  assumes rel: "ws_rel s a" and inv: "wa_inv env a" "16 \<le> wc_nState a" "is_control a \<or> wa_ctl a = []"
    and al: "fair malloc" "roomy malloc (max BLK (unat (we_nMaxMessageSize env)))" "\<forall>n. more_fits n"
    and k: "k = min (length msg) (unat (wc_nPayloadLen a))"
  shows "\<exists>r s' a'. payload_part env malloc more_fits s msg = Some (r, s', drop k msg) \<and> wcore.truncate s' = wcore.truncate a' \<and>
    (r = None \<longrightarrow> ws_rel s' a' \<and> wa_ready env a') \<and>
    (if at_end a then case wa_frame_end env a of (None, a') \<Rightarrow> wa_run env a' msg | (Some h, a') \<Rightarrow> (Some h, a') else wa_run env a msg) =
    (case r of None \<Rightarrow> wa_run env a' (drop k msg) | Some h \<Rightarrow> (Some h, a'))"
proof -
  define a1 where "a1 = add_payload (take k msg) a"
  have rooms: "roomy malloc BLK" "roomy malloc (unat (we_nMaxMessageSize env))"
    by (rule roomy_mono [OF al(2)], simp)+
  obtain s1 where s1: "(if is_control s then control_part s msg else data_loop malloc more_fits s msg) = Some (S_OK, s1, drop k msg)" "ws_rel s1 a1"
    using payload_rep [OF rel inv(1,2) k al(1) rooms(1) al(3)] unfolding a1_def by blast
  have len: "length (take k msg) = k"
    by (simp add: k)
  have a1: "wc_nState a1 = wc_nState a" "is_control a1 = is_control a" "is_control a1 \<or> wa_ctl a1 = []" "wa_inv env a1"
  proof -
    have "length (take k msg) \<le> unat (wc_nPayloadLen a)"
      unfolding len k by simp
    then show "wa_inv env a1"
      unfolding a1_def by (rule add_payload_inv [OF inv(1,2)])
    show "is_control a1 \<or> wa_ctl a1 = []"
      using inv(3) add_payload_ctl [of a "take k msg"] by (cases "is_control a") (simp_all add: a1_def)
  qed (simp_all add: a1_def)
  have plen: "unat (wc_nPayloadLen a1) = unat (wc_nPayloadLen a) - k"
  proof -
    have "k \<le> unat (wc_nPayloadLen a)"
      unfolding k by simp
    then show ?thesis
      using len by (simp add: a1_def unat_sub_le unat_of_nat_le word_le_nat_alt)
  qed
  show ?thesis
  proof (cases "k = unat (wc_nPayloadLen a)")
    case True
    then have z: "wc_nPayloadLen a1 = 0"
      using plen by (simp add: unat_eq_zero)
    obtain r s' a' where f: "frame_end env malloc s1 = Some (r, s')" "wa_frame_end env a1 = (r, a')" "wcore.truncate s' = wcore.truncate a'"
      "r = None \<longrightarrow> ws_rel s' a' \<and> wa_inv env a' \<and> wc_nState a' = 0"
      using frame_end_rep [OF s1(2) a1(4) _ a1(3) al(1) rooms(2)] a1(1) inv(2) by auto
    have part: "payload_part env malloc more_fits s msg = Some (r, s', drop k msg)"
      using s1(1) ws_rel_core(4) [OF s1(2)] z f(1) by (simp add: payload_part_def)
    have run: "(if at_end a then case wa_frame_end env a of (None, a') \<Rightarrow> wa_run env a' msg | (Some h, a') \<Rightarrow> (Some h, a') else wa_run env a msg) =
        (case wa_frame_end env a1 of (None, a') \<Rightarrow> wa_run env a' (drop k msg) | (Some h, a') \<Rightarrow> (Some h, a'))"
    proof (cases "k = 0")
      case True
      then have "at_end a" "a1 = a"
        using \<open>k = unat (wc_nPayloadLen a)\<close> inv(2) by (simp_all add: at_end_def a1_def unat_eq_zero)
      then show ?thesis
        unfolding True drop_0 by simp
    next
      case False
      then have "\<not> at_end a" "take k msg \<noteq> []"
        using \<open>k = unat (wc_nPayloadLen a)\<close> len by (auto simp: at_end_def)
      then show ?thesis
        using run_payload_end [OF inv(2), of "take k msg" env "drop k msg"] True len by (simp add: a1_def)
    qed
    have "ws_rel s' a' \<and> wa_ready env a'" if "r = None"
      using f(4) that by (auto simp: wa_ready_def wa_inv_def at_end_def)
    then show ?thesis
      using part f(3) unfolding run f(2) by (intro exI [of _ r] exI [of _ s'] exI [of _ a']) (auto split: option.split)
  next
    case False
    then have lt: "k < unat (wc_nPayloadLen a)" "drop k msg = []" "take k msg = msg"
      using k by auto
    then have nz: "wc_nPayloadLen a1 \<noteq> 0" "\<not> at_end a"
      using plen by (auto simp: at_end_def)
    have "wa_run env a msg = (None, a1)"
      using run_payload [OF inv(2), of msg env "[]"] lt len by (simp add: a1_def)
    then show ?thesis
      using s1 ws_rel_core(4) [OF s1(2)] nz a1 lt(2) by (auto simp: payload_part_def wa_ready_def at_end_def ws_rel_def)
  qed
qed
lemma ws_turn_rep:
  assumes rel: "ws_rel s a" and ready: "wa_ready env a" and ne: "msg \<noteq> []"
    and al: "fair malloc" "roomy malloc (max BLK (unat (we_nMaxMessageSize env)))" "\<forall>n. more_fits n"
  shows "\<exists>r s' a' rest. ws_turn env malloc more_fits s msg = Some (r, s', rest) \<and> is_rest msg rest \<and> length rest < length msg \<and>
    wcore.truncate s' = wcore.truncate a' \<and> (r = None \<longrightarrow> ws_rel s' a' \<and> wa_ready env a') \<and>
    wa_run env a msg = (case r of None \<Rightarrow> wa_run env a' rest | Some h \<Rightarrow> (Some h, a'))"
proof (cases "wc_nState a < 16")
  case True
  obtain hRes a1 rest1 where h: "header_loop env a msg = (hRes, a1, rest1)"
    by (cases "header_loop env a msg")
  obtain s1 where s1: "header_loop env s msg = (hRes, s1, rest1)" "ws_rel s1 a1"
    using header_loop_rep [OF rel h] by blast
  have rest1: "is_rest msg rest1" "length rest1 < length msg" "hRes = S_OK \<longrightarrow> wc_nState a1 < 16 \<longrightarrow> rest1 = []"
    using header_loop_rest [OF h] True ne by auto
  have ctl: "wa_ctl a1 = []"
    using same_payload [OF header_loop_more [OF h]] ready True by (simp add: wa_ready_def wa_inv_def)
  have trunc: "wcore.truncate s1 = wcore.truncate a1"
    using s1(2) by (simp add: ws_rel_def)
  show ?thesis
  proof (cases "hRes = S_OK")
    case False
    then show ?thesis
      using s1 rest1 trunc run_header [OF True, of env msg] h by (simp add: ws_turn_def)
  next
    case ok: True
    then have inv1: "wa_inv env a1"
      using header_loop_inv [of env a msg a1 rest1] h ready by (simp add: wa_ready_def)
    show ?thesis
    proof (cases "wc_nState a1 < 16")
      case True
      then have "wa_ready env a1"
        using inv1 ctl by (simp add: wa_ready_def at_end_def)
      then show ?thesis
        using True ok s1 rest1 trunc run_header [OF \<open>wc_nState a < 16\<close>, of env msg] h ws_rel_core(1) [OF s1(2)]
        by (simp add: ws_turn_def)
    next
      case False
      define k where "k = min (length rest1) (unat (wc_nPayloadLen a1))"
      have st: "16 \<le> wc_nState a1"
        using False by simp
      obtain r s' a' where p: "payload_part env malloc more_fits s1 rest1 = Some (r, s', drop k rest1)" "wcore.truncate s' = wcore.truncate a'"
        "r = None \<longrightarrow> ws_rel s' a' \<and> wa_ready env a'"
        "(if at_end a1 then case wa_frame_end env a1 of (None, a') \<Rightarrow> wa_run env a' rest1 | (Some h, a') \<Rightarrow> (Some h, a') else wa_run env a1 rest1) =
          (case r of None \<Rightarrow> wa_run env a' (drop k rest1) | Some h \<Rightarrow> (Some h, a'))"
        using payload_turn [OF s1(2) inv1 st _ al k_def] ctl by blast
      have "ws_turn env malloc more_fits s msg = Some (r, s', drop k rest1)"
        using s1(1) ok False p(1) ws_rel_core(1) [OF s1(2)] unfolding payload_part_def by (simp add: ws_turn_def)
      moreover have "wa_run env a msg = (case r of None \<Rightarrow> wa_run env a' (drop k rest1) | Some h \<Rightarrow> (Some h, a'))"
        using run_header [OF True, of env msg] h ok False p(4) by simp
      moreover have "is_rest msg (drop k rest1)" "length (drop k rest1) < length msg"
        using rest1 is_rest_trans [of msg rest1 "drop k rest1"] by simp_all
      ultimately show ?thesis
        using p(2,3) by blast
    qed
  qed
next
  case False
  define k where "k = min (length msg) (unat (wc_nPayloadLen a))"
  have st: "16 \<le> wc_nState a" "\<not> at_end a" "wa_inv env a" "is_control a \<or> wa_ctl a = []"
    using False ready by (auto simp: wa_ready_def)
  then have "0 < unat (wc_nPayloadLen a)"
    by (simp add: at_end_def unat_gt_0)
  then have k: "0 < k" "k \<le> length msg"
    using ne by (simp_all add: k_def)
  obtain r s' a' where p: "payload_part env malloc more_fits s msg = Some (r, s', drop k msg)" "wcore.truncate s' = wcore.truncate a'"
    "r = None \<longrightarrow> ws_rel s' a' \<and> wa_ready env a'"
    "wa_run env a msg = (case r of None \<Rightarrow> wa_run env a' (drop k msg) | Some h \<Rightarrow> (Some h, a'))"
    using payload_turn [OF rel st(3,1,4) al k_def] st(2) by auto
  have "ws_turn env malloc more_fits s msg = Some (r, s', drop k msg)"
    using p(1) False ws_rel_core(1) [OF rel] header_loop_stop [of s env msg] unfolding payload_part_def by (simp add: ws_turn_def)
  then show ?thesis
    using p k ne by (intro exI [of _ r] exI [of _ s'] exI [of _ a'] exI [of _ "drop k msg"]) auto
qed

text \<open>The whole call on the bytes that wait: what it does is what the automaton does with these bytes.\<close>

lemma Peek_page: "cb_rep cb bs \<Longrightarrow> Peek cb False 4096 = Some (take 4096 bs)"
  using Peek_rep [of cb bs 4096] by simp

lemma OnSocketDataReceived_rep:
  assumes al: "fair malloc" "roomy malloc (max BLK (unat (we_nMaxMessageSize env)))" "\<forall>n. more_fits n" and conn: "we_hConn env = S_OK"
  shows "ws_rel s a \<Longrightarrow> wa_ready env a \<Longrightarrow> cb_rep cb bs \<Longrightarrow>
    \<exists>r s' cb' a'. OnSocketDataReceived env malloc more_fits s cb = Some (case r of None \<Rightarrow> S_OK | Some h \<Rightarrow> h, s', cb') \<and>
      wa_run env a bs = (r, a') \<and> wcore.truncate s' = wcore.truncate a' \<and>
      (r = None \<longrightarrow> ws_rel s' a' \<and> wa_ready env a' \<and> cb_rep cb' [])"
proof (induction "length bs" arbitrary: s a cb bs rule: less_induct)
  case less
  show ?case
  proof (cases "bs = []")
    case True
    then show ?thesis
      using less.prems conn Peek_page [OF less.prems(3)]
      by (simp add: OnSocketDataReceived.simps [of env malloc more_fits s cb] GetBufferedMessage_def ws_rel_def)
  next
    case False
    define msg where "msg = take 4096 bs"
    define tail where "tail = drop 4096 bs"
    have bs: "bs = msg @ tail" "msg \<noteq> []" "length msg \<le> 4096"
      using False by (simp_all add: msg_def tail_def)
    obtain r s1 a1 rest where t: "ws_turn env malloc more_fits s msg = Some (r, s1, rest)" "is_rest msg rest" "length rest < length msg"
      "wcore.truncate s1 = wcore.truncate a1" "r = None \<longrightarrow> ws_rel s1 a1 \<and> wa_ready env a1"
      "wa_run env a msg = (case r of None \<Rightarrow> wa_run env a1 rest | Some h \<Rightarrow> (Some h, a1))"
      using ws_turn_rep [OF less.prems(1,2) bs(2) al] by blast
    have peek: "GetBufferedMessage env cb 4096 = Some (S_OK, msg)"
      using conn Peek_page [OF less.prems(3)] by (simp add: GetBufferedMessage_def msg_def)
    show ?thesis
    proof (cases r)
      case (Some h)
      then have "wa_run env a bs = (Some h, a1)"
        unfolding bs(1) wa_run_append t(6) by simp
      moreover have "OnSocketDataReceived env malloc more_fits s cb = Some (h, s1, cb)"
        using t(1) bs(2) Some by (simp add: OnSocketDataReceived.simps [of env malloc more_fits s cb] peek)
      ultimately show ?thesis
        using t(4) by auto
    next
      case None
      define n where "n = length msg - length rest"
      have rest: "rest @ tail = drop n bs" "n \<le> length bs" "0 < n" "n \<le> 4096"
        using is_rest_drop [OF t(2)] t(3) bs unfolding n_def by auto
      have run: "wa_run env a bs = wa_run env a1 (drop n bs)"
        unfolding rest(1) [symmetric] unfolding bs(1) wa_run_append t(6) None by simp
      have u: "unat (of_nat n :: u64) = n"
        using rest(4) by (simp only: unat_of_nat) simp
      have "(of_nat n :: u64) \<le> cb_nLen cb"
        using cb_rep_length [OF less.prems(3)] rest(2) u by (simp add: word_le_nat_alt)
      moreover have "cb_lpData cb \<noteq> None"
        using False less.prems(3) by (cases "cb_lpData cb") (simp_all add: cb_rep_def)
      ultimately obtain cb1 where cb1: "AdvanceReadPtr cb (of_nat n) = (S_OK, cb1)" "cb_rep cb1 (drop n bs)"
        using AdvanceReadPtr_rep [OF less.prems(3), of "of_nat n"] u by auto
      have "OnSocketDataReceived env malloc more_fits s cb = OnSocketDataReceived env malloc more_fits s1 cb1"
        using t(1,3) bs(2) None cb1(1) conn
        by (simp add: OnSocketDataReceived.simps [of env malloc more_fits s cb] peek ConsumeBufferedMessage_def n_def)
      moreover have "length (drop n bs) < length bs"
        using rest(2,3) by simp
      ultimately show ?thesis
        using less.hyps [of "drop n bs" s1 a1 cb1] t(5) None cb1(2) run by simp
    qed
  qed
qed
end
