(* ===== verification/WebSocketSend_Rep.thy ===== *)
theory WebSocketSend_Rep
  imports WebSocketRecv_Rep
begin

unbundle bit_operations_syntax

text \<open>
  The frames of RFC 6455, which \<open>BuildFrame\<close> makes, and what the automaton of the receiver makes of them;
  the frames that the sender makes of a message.
\<close>

section \<open>Numbers in bytes\<close>

definition be_bytes :: "nat \<Rightarrow> nat \<Rightarrow> u8 list" where
  "be_bytes k n = map (\<lambda>i. of_nat (n div 256 ^ i)) (rev [0..<k])"

lemma div_256_power: "n div 256 ^ i = drop_bit (8 * i) n" for n :: nat
  by (simp add: drop_bit_eq_div power_mult)

lemma byte_of_nat: "8 * i + 8 \<le> LENGTH('a) \<Longrightarrow> ucast (drop_bit (8 * i) (of_nat n :: 'a::len word)) = (of_nat (n div 256 ^ i) :: u8)"
  by (rule bit_word_eqI) (auto simp: div_256_power bit_simps)

lemma bit_set_byte: "bit (set_byte w i b) j \<longleftrightarrow> j < 64 \<and> (if 8 * i \<le> j \<and> j < 8 * i + 8 then bit b (j - 8 * i) else bit w j)"
proof -
  have "bit (0xFF :: u64) m \<longleftrightarrow> m < 8" for m
  proof -
    have mask: "(0xFF :: u64) = mask 8"
      by (simp add: mask_eq_exp_minus_1)
    show ?thesis
      unfolding mask bit_mask_iff by auto
  qed
  moreover have "\<not> bit b m" if "8 \<le> m" for m
    using that bit_imp_le_length [of b m] by auto
  ultimately show ?thesis
    unfolding set_byte_def by (auto simp: bit_or_iff bit_and_iff bit_not_iff bit_push_bit_iff bit_ucast_iff)
qed

lemma bit_byte_of_nat: "bit (of_nat (n div 256 ^ i) :: u8) m \<longleftrightarrow> m < 8 \<and> bit n (8 * i + m)"
  by (auto simp: div_256_power bit_simps)

lemma read_16: "n < 65536 \<Longrightarrow> set_byte (set_byte 0 1 (of_nat (n div 256))) 0 (of_nat n) = of_nat n"
proof (rule bit_word_eqI)
  fix j
  assume "n < 65536" "j < LENGTH(64)"
  have "\<not> bit n j" if "16 \<le> j"
  proof -
    have "n < 2 ^ j"
      using \<open>n < 65536\<close> power_increasing [OF that, of "2::nat"] by simp
    then show ?thesis
      by (simp add: bit_iff_odd)
  qed
  then show "bit (set_byte (set_byte 0 1 (of_nat (n div 256))) 0 (of_nat n)) j \<longleftrightarrow> bit (of_nat n :: u64) j"
    using \<open>j < LENGTH(64)\<close> bit_byte_of_nat [of n 0 j] bit_byte_of_nat [of n 1 "j - 8"]
    by (auto simp: bit_set_byte bit_of_nat_iff)
qed

lemma read_64: "set_byte (set_byte (set_byte (set_byte (set_byte (set_byte (set_byte (set_byte 0 7 (of_nat (n div 256 ^ 7)))
    6 (of_nat (n div 256 ^ 6))) 5 (of_nat (n div 256 ^ 5))) 4 (of_nat (n div 256 ^ 4))) 3 (of_nat (n div 256 ^ 3)))
    2 (of_nat (n div 256 ^ 2))) 1 (of_nat (n div 256))) 0 (of_nat n) = of_nat n" (is "?l = _")
proof (rule bit_word_eqI)
  fix j
  assume j: "j < LENGTH(64)"
  consider "j < 8" | "8 \<le> j" "j < 16" | "16 \<le> j" "j < 24" | "24 \<le> j" "j < 32" | "32 \<le> j" "j < 40" | "40 \<le> j" "j < 48"
    | "48 \<le> j" "j < 56" | "56 \<le> j" "j < 64"
    using j by fastforce
  then show "bit ?l j \<longleftrightarrow> bit (of_nat n :: u64) j"
    using bit_byte_of_nat [of n 0 j] bit_byte_of_nat [of n 1 "j - 8"] bit_byte_of_nat [of n 2 "j - 16"] bit_byte_of_nat [of n 3 "j - 24"]
      bit_byte_of_nat [of n 4 "j - 32"] bit_byte_of_nat [of n 5 "j - 40"] bit_byte_of_nat [of n 6 "j - 48"] bit_byte_of_nat [of n 7 "j - 56"] j
    by cases (simp_all add: bit_set_byte bit_of_nat_iff less_diff_conv2)
qed

section \<open>Frames\<close>

text \<open>A frame of RFC 6455, masked with a key or not.\<close>

definition frame_len :: "nat \<Rightarrow> u8 \<times> u8 list" where
  "frame_len n = (if n < 126 then (of_nat n, []) else if n < 65536 then (126, be_bytes 2 n) else (127, be_bytes 8 n))"

definition ws_frame :: "u8 list option \<Rightarrow> u8 \<Rightarrow> bool \<Rightarrow> u8 list \<Rightarrow> u8 list" where
  "ws_frame key op fin xs = (case frame_len (length xs) of (len, ext) \<Rightarrow>
     ((op AND 0x0F) OR (if fin then 0x80 else 0)) # (len OR (if key = None then 0 else 0x80)) # ext @
     (case key of None \<Rightarrow> xs | Some k \<Rightarrow> k @ mask_from k 0 xs))"

definition sender_key :: "ws_env \<Rightarrow> u8 \<Rightarrow> bool \<Rightarrow> u8 list \<Rightarrow> u8 list option" where
  "sender_key env op fin xs = (if we_bServerSide env then None else Some (frame_key env (take 2 (ws_frame (Some []) op fin xs)) xs))"

lemma length_key [simp]: "length (frame_key env h xs) = 4"
  by (simp add: frame_key_def le_bytes_def)

lemma sender_key_length: "sender_key env op fin xs = Some k \<Longrightarrow> length k = 4"
  by (auto simp: sender_key_def split: if_splits)

lemma be_bytes_simps: "be_bytes 2 n = [of_nat (n div 256), of_nat n]"
    "be_bytes 8 n = [of_nat (n div 256 ^ 7), of_nat (n div 256 ^ 6), of_nat (n div 256 ^ 5), of_nat (n div 256 ^ 4), of_nat (n div 256 ^ 3),
      of_nat (n div 256 ^ 2), of_nat (n div 256), of_nat n]"
proof -
  have "[0..<2] = [0, 1]" "[0..<8] = [0, 1, 2, 3, 4, 5, 6, 7]"
    by (simp_all add: upt_conv_Cons)
  then show "be_bytes 2 n = [of_nat (n div 256), of_nat n]"
    "be_bytes 8 n = [of_nat (n div 256 ^ 7), of_nat (n div 256 ^ 6), of_nat (n div 256 ^ 5), of_nat (n div 256 ^ 4), of_nat (n div 256 ^ 3),
      of_nat (n div 256 ^ 2), of_nat (n div 256), of_nat n]"
    by (simp_all add: be_bytes_def)
qed

lemma frame_len_u32:
  assumes "n < 2 ^ 32"
  shows "(if (of_nat n :: u32) \<ge> 65536 then (127, [0, 0, 0, 0, ucast (drop_bit 24 (of_nat n :: u32)), ucast (drop_bit 16 (of_nat n :: u32)),
        ucast (drop_bit 8 (of_nat n :: u32)), ucast (of_nat n :: u32)])
      else if (of_nat n :: u32) \<ge> 126 then (126, [ucast (drop_bit 8 (of_nat n :: u32)), ucast (of_nat n :: u32)])
      else (ucast (of_nat n :: u32), [])) = frame_len n"
proof -
  have u: "unat (of_nat n :: u32) = n"
    using assms by (simp only: unat_of_nat) simp
  have b: "ucast (of_nat n :: u32) = (of_nat n :: u8)" "ucast (drop_bit 8 (of_nat n :: u32)) = (of_nat (n div 256) :: u8)"
    "ucast (drop_bit 16 (of_nat n :: u32)) = (of_nat (n div 256 ^ 2) :: u8)" "ucast (drop_bit 24 (of_nat n :: u32)) = (of_nat (n div 256 ^ 3) :: u8)"
    using byte_of_nat [where 'a = 32, of 0 n] byte_of_nat [where 'a = 32, of 1 n] byte_of_nat [where 'a = 32, of 2 n] byte_of_nat [where 'a = 32, of 3 n]
    by simp_all
  have "n div 256 ^ i = 0" if "4 \<le> i" for i
  proof -
    have "n < 256 ^ i"
      using assms power_increasing [OF that, of "256 :: nat"] by simp
    then show ?thesis
      by simp
  qed
  note z = this [of 4] this [of 5] this [of 6] this [of 7]
  have c: "((of_nat n :: u32) \<ge> 65536) = (65536 \<le> n)" "((of_nat n :: u32) \<ge> 126) = (126 \<le> n)"
    unfolding word_le_nat_alt u by simp_all
  show ?thesis
    unfolding c b frame_len_def be_bytes_simps using z by simp
qed

lemma BuildFrame_rep:
  assumes n: "length xs < 2 ^ 32"
  shows "\<exists>h body. BuildFrame env (xs @ junk) (of_nat (length xs)) op fin = Some (h, body @ junk) \<and> length body = length xs \<and>
    h @ body = ws_frame (sender_key env op fin xs) op fin xs"
proof -
  have u: "unat (of_nat (length xs) :: u32) = length xs"
    using n by (simp only: unat_of_nat) simp
  obtain len ext where l: "frame_len (length xs) = (len, ext)"
    by (cases "frame_len (length xs)")
  have "block_read (xs @ junk) 0 (length xs) = Some xs"
    by (simp add: block_read_ok)
  moreover have "block_write (xs @ junk) 0 (mask_from key 0 xs) = Some (mask_from key 0 xs @ junk)" for key
    by (simp add: block_write_ok)
  ultimately show ?thesis
    unfolding BuildFrame_def Let_def frame_len_u32 [OF n] l u
    by (simp add: ws_frame_def l sender_key_def)
qed
section \<open>Reading a header\<close>

definition head0 :: "u8 \<Rightarrow> bool \<Rightarrow> u8" where
  "head0 op fin = (op AND 0x0F) OR (if fin then 0x80 else 0)"

definition head1 :: "nat \<Rightarrow> bool \<Rightarrow> u8" where
  "head1 n m = fst (frame_len n) OR (if m then 0x80 else 0)"

lemma head0_fields: "fh_nOpcode (head0 op fin) = op AND 0x0F" "fh_nRsv (head0 op fin) = 0" "fh_nFin (head0 op fin) = (if fin then 1 else 0)"
  by (simp_all add: head0_def fh_nOpcode_def fh_nRsv_def fh_nFin_def bit.conj_disj_distrib2 and.assoc drop_bit_or drop_bit_and)

lemma head1_fields: "fh_nPayloadLen (head1 n m) = fst (frame_len n)" "fh_nMask (head1 n m) = (if m then 1 else 0)"
proof -
  have small: "fst (frame_len n) AND 0x7F = fst (frame_len n)"
  proof (cases "n < 126")
    case True
    have "(of_nat n :: u8) AND mask 7 = of_nat n"
      unfolding take_bit_eq_mask [symmetric] using True by (simp add: take_bit_of_nat take_bit_nat_eq_self)
    moreover have "mask 7 = (0x7F :: u8)"
      by (simp add: mask_eq_exp_minus_1)
    ultimately show ?thesis
      using True by (simp add: frame_len_def)
  qed (simp add: frame_len_def)
  then show "fh_nPayloadLen (head1 n m) = fst (frame_len n)"
    by (simp add: head1_def fh_nPayloadLen_def bit.conj_disj_distrib2)
  have "drop_bit 7 (fst (frame_len n)) = drop_bit 7 (fst (frame_len n) AND 0x7F)"
    by (simp only: small)
  also have "\<dots> = 0"
    by (simp add: drop_bit_and)
  finally show "fh_nMask (head1 n m) = (if m then 1 else 0)"
    by (simp add: head1_def fh_nMask_def drop_bit_or)
qed

definition op_allowed :: "u8 \<Rightarrow> 'a wcore_scheme \<Rightarrow> bool" where
  "op_allowed op a \<longleftrightarrow> (if op = OPCODE_Continuation then wc_nOpcode a \<noteq> OPCODE_NONE
     else if op = OPCODE_Text \<or> op = OPCODE_Binary then wc_nOpcode a = OPCODE_NONE \<or> wc_nOpcode a = op
     else op = OPCODE_ConnectionClose \<or> op = OPCODE_Ping \<or> op = OPCODE_Pong)"

definition op_after :: "u8 \<Rightarrow> u8 \<Rightarrow> u8" where
  "op_after op cur = (if op = OPCODE_Text \<or> op = OPCODE_Binary then op else cur)"

lemma op_after_Continuation [simp]: "op_after OPCODE_Continuation c = c"
  by (simp add: op_after_def opcodes)

lemma op_and: "op_allowed op a \<Longrightarrow> op AND 0x0F = op"
  by (auto simp: op_allowed_def opcodes split: if_splits)

lemma header_first:
  assumes "wc_nState a = 0" and "op_allowed op a"
  shows "header_byte env a (head0 op fin) = (S_OK, a\<lparr>wc_h0 := head0 op fin, wc_nState := 1, wc_nOpcode := op_after op (wc_nOpcode a)\<rparr>)"
  using assms op_and [OF assms(2)]
  by (auto simp: header_byte_def check_opcode_def head0_fields op_allowed_def op_after_def Let_def opcodes split: if_splits)

lemma header_key:
  assumes "wc_nState a = 12" and "length (wc_nKey a) = 4" and "length key = 4"
  shows "header_loop env a (key @ rest) = (case validate_message_length env (a\<lparr>wc_nKey := key, wc_nState := 16\<rparr>) of (h, a') \<Rightarrow> (h, a', rest))"
proof -
  obtain k0 k1 k2 k3 where key: "key = [k0, k1, k2, k3]"
    using assms(3) by (auto simp: length_Suc_conv eval_nat_numeral)
  obtain w0 w1 w2 w3 where w: "wc_nKey a = [w0, w1, w2, w3]"
    using assms(2) by (auto simp: length_Suc_conv eval_nat_numeral)
  show ?thesis
    using assms(1) w by (auto simp: key header_byte_def Let_def header_loop_stop validate_message_length_def)
qed
lemma frame_len_cases:
  "n < 126 \<Longrightarrow> frame_len n = (of_nat n, [])" "126 \<le> n \<Longrightarrow> n < 65536 \<Longrightarrow> frame_len n = (126, [of_nat (n div 256), of_nat n])"
  "65536 \<le> n \<Longrightarrow> frame_len n = (127, [of_nat (n div 256 ^ 7), of_nat (n div 256 ^ 6), of_nat (n div 256 ^ 5), of_nat (n div 256 ^ 4),
     of_nat (n div 256 ^ 3), of_nat (n div 256 ^ 2), of_nat (n div 256), of_nat n])"
  by (simp_all add: frame_len_def be_bytes_simps)

lemma header_len:
  assumes st: "wc_nState a = 1" and ctl: "is_control a \<longrightarrow> n < 126"
  shows "header_loop env a (head1 n m # snd (frame_len n) @ rest) =
    (if m then header_loop env (a\<lparr>wc_h1 := head1 n m, wc_nPayloadLen := of_nat n, wc_nState := 12\<rparr>) rest
     else case validate_message_length env (a\<lparr>wc_h1 := head1 n m, wc_nPayloadLen := of_nat n, wc_nState := 16\<rparr>) of (h, a') \<Rightarrow> (h, a', rest))"
proof -
  have masked: "is_masked (a\<lparr>wc_h1 := head1 n m, wc_nPayloadLen := p, wc_nState := st\<rparr>) = m" for p st
    by (simp add: is_masked_def head1_fields)
  have swap: "a\<lparr>wc_h1 := h, wc_nState := st, wc_nPayloadLen := p\<rparr> = a\<lparr>wc_h1 := h, wc_nPayloadLen := p, wc_nState := st\<rparr>" for h st p
    by (cases a) simp
  have control: "is_control (a\<lparr>wc_h1 := h, wc_nState := st\<rparr>) = is_control a" for h st
    by (simp add: is_control_def)
  have stop: "header_loop env a' rest = (S_OK, a', rest)" if "validate_message_length env (b\<lparr>wc_nState := 16\<rparr>) = (S_OK, a')" for a' b
    using validate_ok [OF that] by (intro header_loop_stop) simp
  have jump: "(case jump_to_maskkey_or_payloaddata env (a\<lparr>wc_h1 := head1 n m, wc_nPayloadLen := of_nat n, wc_nState := st\<rparr>) of
      (h, a') \<Rightarrow> if h \<noteq> S_OK then (h, a', rest) else header_loop env a' rest) =
    (if m then header_loop env (a\<lparr>wc_h1 := head1 n m, wc_nPayloadLen := of_nat n, wc_nState := 12\<rparr>) rest
     else case validate_message_length env (a\<lparr>wc_h1 := head1 n m, wc_nPayloadLen := of_nat n, wc_nState := 16\<rparr>) of (h, a') \<Rightarrow> (h, a', rest))" for st
    using stop [of "a\<lparr>wc_h1 := head1 n m, wc_nPayloadLen := of_nat n\<rparr>"]
    by (auto simp: jump_to_maskkey_or_payloaddata_def masked split: prod.split)
  consider (small) "n < 126" | (medium) "126 \<le> n" "n < 65536" | (large) "65536 \<le> n"
    by linarith
  then show ?thesis
  proof cases
    case small
    have "unat (of_nat n :: u8) = n" "unat (of_nat n :: u64) = n"
      using small by (simp_all only: unat_of_nat) simp_all
    then have lt: "fh_nPayloadLen (head1 n m) < 126" and u: "ucast (fh_nPayloadLen (head1 n m)) = (of_nat n :: u64)"
      using small by (simp_all add: head1_fields frame_len_cases word_less_nat_alt word_unat_eq_iff)
    have "check_length env (a\<lparr>wc_h1 := head1 n m, wc_nState := 2\<rparr>) =
        jump_to_maskkey_or_payloaddata env (a\<lparr>wc_h1 := head1 n m, wc_nPayloadLen := of_nat n, wc_nState := 2\<rparr>)"
      using lt u by (simp add: check_length_def swap)
    then show ?thesis
      unfolding jump [of 2, symmetric] using st small by (simp add: frame_len_cases header_byte_def)
  next
    case medium
    have "check_length env (a\<lparr>wc_h1 := head1 n m, wc_nState := 2\<rparr>) = (S_OK, a\<lparr>wc_h1 := head1 n m, wc_nPayloadLen := 0, wc_nState := 2\<rparr>)"
      using medium ctl control by (simp add: check_length_def head1_fields frame_len_cases)
    then show ?thesis
      unfolding jump [of 4, symmetric] using st medium read_16 [OF medium(2)] by (simp add: frame_len_cases header_byte_def Let_def)
  next
    case large
    have "check_length env (a\<lparr>wc_h1 := head1 n m, wc_nState := 2\<rparr>) = (S_OK, a\<lparr>wc_h1 := head1 n m, wc_nPayloadLen := 0, wc_nState := 4\<rparr>)"
      using large ctl control by (simp add: check_length_def head1_fields frame_len_cases)
    then show ?thesis
      using st large read_64 [of n] stop [of "a\<lparr>wc_h1 := head1 n m, wc_nPayloadLen := of_nat n\<rparr>"]
      by (auto simp: frame_len_cases header_byte_def Let_def masked split: prod.split)
  qed
qed

section \<open>Reading a frame\<close>

definition wire :: "u8 list option \<Rightarrow> u8 list \<Rightarrow> u8 list" where
  "wire key xs = (case key of None \<Rightarrow> xs | Some k \<Rightarrow> mask_from k 0 xs)"

lemma length_wire [simp]: "length (wire key xs) = length xs"
  by (simp add: wire_def split: option.split)

definition opened :: "u8 list option \<Rightarrow> u8 \<Rightarrow> bool \<Rightarrow> nat \<Rightarrow> 'a wcore_scheme \<Rightarrow> 'a wcore_scheme" where
  "opened key op fin n a = a\<lparr>wc_nState := 16, wc_h0 := head0 op fin, wc_h1 := head1 n (key \<noteq> None), wc_nPayloadLen := of_nat n,
     wc_nKey := (case key of None \<Rightarrow> wc_nKey a | Some k \<Rightarrow> k), wc_nOpcode := op_after op (wc_nOpcode a)\<rparr>"

lemma ws_frame_parts: "ws_frame key op fin xs = head0 op fin # head1 (length xs) (key \<noteq> None) # snd (frame_len (length xs)) @
    (case key of None \<Rightarrow> [] | Some k \<Rightarrow> k) @ wire key xs"
  by (simp add: ws_frame_def head0_def head1_def wire_def split: prod.split option.split)

lemma validate_passes:
  assumes "wc_nTotalDataLength a = of_nat d" and "wc_nPayloadLen a = of_nat n" and "d + n \<le> unat (we_nMaxMessageSize env)"
  shows "validate_message_length env a = (S_OK, a)"
proof -
  have u: "unat (of_nat (d + n) :: u64) = d + n" "unat (of_nat n :: u64) = n"
    using assms(3) unat_of_nat_le [of "d + n" "we_nMaxMessageSize env"] unat_of_nat_le [of n "we_nMaxMessageSize env"] by auto
  have sum: "wc_nTotalDataLength a + wc_nPayloadLen a = of_nat (d + n)"
    by (simp add: assms(1,2))
  have "\<not> of_nat (d + n) < (of_nat n :: u64)" "\<not> of_nat (d + n) > we_nMaxMessageSize env"
    unfolding word_less_nat_alt u using assms(3) by simp_all
  then show ?thesis
    unfolding validate_message_length_def sum by (simp add: assms(2) del: of_nat_add)
qed

lemma header_frame:
  assumes st: "wc_nState a = 0" and inv: "wa_inv env a" and op: "op_allowed op a" and key: "\<forall>k. key = Some k \<longrightarrow> length k = 4"
    and ctl: "op AND OPCODE_ControlFrameMask \<noteq> 0 \<longrightarrow> length xs < 126"
    and max: "length (wa_data a) + length xs \<le> unat (we_nMaxMessageSize env)"
  shows "header_loop env a (ws_frame key op fin xs @ rest) = (S_OK, opened key op fin (length xs) a, wire key xs @ rest)"
proof -
  define n where "n = length xs"
  define a1 where "a1 = a\<lparr>wc_h0 := head0 op fin, wc_nState := 1, wc_nOpcode := op_after op (wc_nOpcode a)\<rparr>"
  have a1: "wc_nState a1 = 1" "is_control a1 \<longrightarrow> n < 126" "length (wc_nKey a1) = 4" "wc_nTotalDataLength a1 = of_nat (length (wa_data a))"
    using ctl inv op_and [OF op] by (simp_all add: a1_def is_control_def head0_fields n_def wa_inv_def)
  have valid: "validate_message_length env b = (S_OK, b)" if "wc_nTotalDataLength b = of_nat (length (wa_data a))" "wc_nPayloadLen b = of_nat n" for b :: wabs
    using validate_passes [OF that] max by (simp add: n_def)
  have "header_loop env a (ws_frame key op fin xs @ rest) =
      header_loop env a1 (head1 n (key \<noteq> None) # snd (frame_len n) @ (case key of None \<Rightarrow> [] | Some k \<Rightarrow> k) @ wire key xs @ rest)"
    using st header_first [OF st op, of env fin] by (simp add: ws_frame_parts a1_def n_def)
  also have "\<dots> = (S_OK, opened key op fin n a, wire key xs @ rest)"
  proof (cases key)
    case None
    then show ?thesis
      using a1(4) unfolding header_len [OF a1(1,2)]
      by (subst valid) (simp_all add: opened_def a1_def)
  next
    case (Some k)
    then show ?thesis
      using a1(3,4) key unfolding header_len [OF a1(1,2)]
      by (simp add: header_key valid) (simp add: opened_def a1_def)
  qed
  finally show ?thesis
    by (simp add: n_def)
qed

lemma run_frame:
  assumes st: "wc_nState a = 0" and inv: "wa_inv env a" and op: "op_allowed op a" and key: "\<forall>k. key = Some k \<longrightarrow> length k = 4"
    and ctl: "op AND OPCODE_ControlFrameMask \<noteq> 0 \<longrightarrow> length xs < 126"
    and max: "length (wa_data a) + length xs \<le> unat (we_nMaxMessageSize env)"
  shows "wa_run env a (ws_frame key op fin xs @ rest) =
    (case wa_frame_end env (add_payload (wire key xs) (opened key op fin (length xs) a)) of
       (None, a') \<Rightarrow> wa_run env a' rest | (Some h, a') \<Rightarrow> (Some h, a'))"
proof -
  define a1 where "a1 = opened key op fin (length xs) a"
  have a1: "wc_nState a1 = 16" "unat (wc_nPayloadLen a1) = length xs"
    using max unat_of_nat_le [of "length xs" "we_nMaxMessageSize env"] by (simp_all add: a1_def opened_def)
  have run: "wa_run env a (ws_frame key op fin xs @ rest) =
      (if at_end a1 then (case wa_frame_end env a1 of (None, a') \<Rightarrow> wa_run env a' (wire key xs @ rest) | (Some r, a') \<Rightarrow> (Some r, a'))
       else wa_run env a1 (wire key xs @ rest))"
    using run_header [of a env] header_frame [OF st inv op key ctl max, of fin rest] st a1(1) by (simp add: a1_def [symmetric])
  show ?thesis
  proof (cases "xs = []")
    case True
    then have e: "at_end a1" "wire key xs = []"
      using a1 by (auto simp: at_end_def unat_eq_zero wire_def split: option.split)
    show ?thesis
      unfolding run a1_def [symmetric] e(2) append_Nil using e(1) by simp
  next
    case False
    then have "\<not> at_end a1" "length (wire key xs) = unat (wc_nPayloadLen a1)"
      using a1(2) by (auto simp: at_end_def)
    moreover have "wire key xs \<noteq> []"
      using False length_wire [of key xs] by (metis length_0_conv)
    ultimately show ?thesis
      unfolding run a1_def [symmetric] using run_payload_end [of a1 "wire key xs" env rest] a1(1) by simp
  qed
qed
text \<open>A frame of data: its bytes go to the message, unmasked from the length of the message on; the last frame delivers it.\<close>

definition data_op :: "u8 \<Rightarrow> bool" where
  "data_op op \<longleftrightarrow> op = OPCODE_Continuation \<or> op = OPCODE_Text \<or> op = OPCODE_Binary"

definition unwire :: "u8 list option \<Rightarrow> nat \<Rightarrow> u8 list \<Rightarrow> u8 list" where
  "unwire key i xs = (case key of None \<Rightarrow> xs | Some k \<Rightarrow> mask_from k i (mask_from k 0 xs))"

lemma unwire_aligned: "i mod 4 = 0 \<Longrightarrow> unwire key i xs = xs"
  using mask_mod [of i 0] by (simp add: unwire_def split: option.split)

lemma length_unwire [simp]: "length (unwire key i xs) = length xs"
  by (simp add: unwire_def split: option.split)

lemma run_data_frame:
  assumes st: "wc_nState a = 0" and inv: "wa_inv env a" and op: "data_op op" "op_allowed op a" and key: "\<forall>k. key = Some k \<longrightarrow> length k = 4"
    and max: "length (wa_data a) + length xs \<le> unat (we_nMaxMessageSize env)"
  shows "\<exists>a'. wa_run env a (ws_frame key op fin xs @ rest) = wa_run env a' rest \<and> wc_nState a' = 0 \<and> wa_inv env a' \<and>
    wc_hrCloseError a' = wc_hrCloseError a \<and>
    (let data = wa_data a @ unwire key (length (wa_data a)) xs; op' = op_after op (wc_nOpcode a) in
     if fin then wa_data a' = [] \<and> wc_nOpcode a' = OPCODE_NONE \<and> wc_log a' = wc_log a @ (if data = [] then [] else [deliver op' data])
     else wa_data a' = data \<and> wc_nOpcode a' = op' \<and> wc_log a' = wc_log a)"
proof -
  define a1 where "a1 = opened key op fin (length xs) a"
  define data where "data = wa_data a @ unwire key (length (wa_data a)) xs"
  have op0: "op AND OPCODE_ControlFrameMask = 0" "op AND 0x0F = op"
    using op(1) op_and [OF op(2)] by (auto simp: data_op_def opcodes)
  have control: "\<not> is_control a1"
    using op0 by (simp add: a1_def opened_def is_control_def head0_fields)
  have masked: "is_masked a1 = (key \<noteq> None)"
    by (simp add: a1_def opened_def is_masked_def head1_fields)
  have d: "wa_data a1 @ unmask a1 (length (wa_data a1)) (wire key xs) = data"
    using masked by (auto simp: data_def unwire_def unmask_def wire_def a1_def opened_def split: option.split)
  define a2 where "a2 = add_payload (wire key xs) a1"
  have a2: "wa_data a2 = data" "wc_nOpcode a2 = op_after op (wc_nOpcode a)" "wc_log a2 = wc_log a" "wc_h0 a2 = head0 op fin"
    "wc_nTotalDataLength a2 = of_nat (length data)" "wc_hrCloseError a2 = wc_hrCloseError a" "wa_ctl a2 = []" "length (wc_nKey a2) = 4"
    "\<not> is_control a2"
    using control d inv st key
    by (auto simp: a2_def add_payload_def add_data_def a1_def opened_def data_def wa_inv_def is_control_def split: option.split)
  define a' where "a' = (wa_data_end a2)\<lparr>wc_nState := 0, wc_nKey := [0, 0, 0, 0]\<rparr>"
  have "wa_frame_end env a2 = (None, a')"
    using a2(9) by (simp add: wa_frame_end_def a'_def)
  then have "wa_run env a (ws_frame key op fin xs @ rest) = wa_run env a' rest"
    using run_frame [OF st inv op(2) key _ max, of fin rest] op0(1) by (simp add: a2_def a1_def)
  moreover have "wa_inv env a'"
    using a2 max by (auto simp: a'_def wa_data_end_def wa_inv_def data_def)
  moreover have "wc_nState a' = 0" "wc_hrCloseError a' = wc_hrCloseError a"
    using a2 by (simp_all add: a'_def wa_data_end_def)
  moreover have "if fin then wa_data a' = [] \<and> wc_nOpcode a' = OPCODE_NONE \<and>
      wc_log a' = wc_log a @ (if data = [] then [] else [deliver (op_after op (wc_nOpcode a)) data])
     else wa_data a' = data \<and> wc_nOpcode a' = op_after op (wc_nOpcode a) \<and> wc_log a' = wc_log a"
    using a2 by (simp add: a'_def wa_data_end_def head0_fields)
  ultimately show ?thesis
    unfolding Let_def data_def [symmetric] by blast
qed

section \<open>A message\<close>

text \<open>The frames of a message: blocks of 16384 bytes, the first one with the opcode of the message.\<close>

function message_frames :: "(u8 \<Rightarrow> bool \<Rightarrow> u8 list \<Rightarrow> u8 list option) \<Rightarrow> u8 \<Rightarrow> u8 list \<Rightarrow> u8 list" where
  "message_frames key op xs =
     (if length xs \<le> SEND_PAYLOAD_SIZE then ws_frame (key op True xs) op True xs
      else ws_frame (key op False (take SEND_PAYLOAD_SIZE xs)) op False (take SEND_PAYLOAD_SIZE xs) @
        message_frames key OPCODE_Continuation (drop SEND_PAYLOAD_SIZE xs))"
  by pat_completeness auto
termination
  by (relation "measure (\<lambda>(key, op, xs). length xs)") (auto simp: SEND_PAYLOAD_SIZE_def)

declare message_frames.simps [simp del]

text \<open>The frames of a message deliver the message, because every frame but the last one has a multiple of four bytes.\<close>

lemma run_message:
  assumes key: "\<forall>op fin xs k. key op fin xs = Some k \<longrightarrow> length k = 4"
  shows "wc_nState a = 0 \<Longrightarrow> wa_inv env a \<Longrightarrow> data_op op \<Longrightarrow> op_allowed op a \<Longrightarrow> length (wa_data a) mod 4 = 0 \<Longrightarrow>
    length (wa_data a) + length xs \<le> unat (we_nMaxMessageSize env) \<Longrightarrow> xs \<noteq> [] \<Longrightarrow>
    \<exists>a'. wa_run env a (message_frames key op xs @ rest) = wa_run env a' rest \<and> wc_nState a' = 0 \<and> wa_inv env a' \<and>
      wc_hrCloseError a' = wc_hrCloseError a \<and> wa_data a' = [] \<and> wc_nOpcode a' = OPCODE_NONE \<and>
      wc_log a' = wc_log a @ [deliver (op_after op (wc_nOpcode a)) (wa_data a @ xs)]"
proof (induction "length xs" arbitrary: op xs a rule: less_induct)
  case less
  have key': "\<forall>k. key op fin ys = Some k \<longrightarrow> length k = 4" for op fin ys
    using key by blast
  show ?case
  proof (cases "length xs \<le> SEND_PAYLOAD_SIZE")
    case True
    then show ?thesis
      using run_data_frame [OF less.prems(1-4) key' [of op True xs] less.prems(6), where fin = True and rest = rest] less.prems(5,7)
      by (simp add: message_frames.simps [of key op xs] Let_def unwire_aligned)
  next
    case False
    define ys where "ys = take SEND_PAYLOAD_SIZE xs"
    define zs where "zs = drop SEND_PAYLOAD_SIZE xs"
    have len: "length ys = SEND_PAYLOAD_SIZE" "length zs < length xs" "zs \<noteq> []" "xs = ys @ zs"
      using False by (auto simp: ys_def zs_def SEND_PAYLOAD_SIZE_def)
    have max: "length (wa_data a) + length ys \<le> unat (we_nMaxMessageSize env)"
      using less.prems(6) len(4) by simp
    obtain a1 where a1: "wa_run env a (ws_frame (key op False ys) op False ys @ message_frames key OPCODE_Continuation zs @ rest) =
        wa_run env a1 (message_frames key OPCODE_Continuation zs @ rest)" "wc_nState a1 = 0" "wa_inv env a1" "wc_hrCloseError a1 = wc_hrCloseError a"
      "wa_data a1 = wa_data a @ ys" "wc_nOpcode a1 = op_after op (wc_nOpcode a)" "wc_log a1 = wc_log a"
      using run_data_frame [OF less.prems(1-4) key' [of op False ys] max, where fin = False and rest = "message_frames key OPCODE_Continuation zs @ rest"] less.prems(5)
      by (auto simp: Let_def unwire_aligned)
    have "op_after op (wc_nOpcode a) \<noteq> OPCODE_NONE"
      using less.prems(3,4) by (auto simp: op_after_def data_op_def op_allowed_def opcodes split: if_splits)
    then have "data_op OPCODE_Continuation" "op_allowed OPCODE_Continuation a1"
      using a1(6) by (simp_all add: data_op_def op_allowed_def)
    moreover have "length (wa_data a1) mod 4 = 0"
    proof -
      have "length (wa_data a1) = length (wa_data a) + 4096 * 4"
        using len(1) a1(5) by (simp add: SEND_PAYLOAD_SIZE_def)
      then show ?thesis
        using less.prems(5) by (simp only: mod_mult_self1)
    qed
    moreover have "length (wa_data a1) + length zs \<le> unat (we_nMaxMessageSize env)"
      using less.prems(6) len(4) a1(5) by simp
    moreover have "op_after OPCODE_Continuation (wc_nOpcode a1) = op_after op (wc_nOpcode a)"
      using a1(6) by simp
    ultimately obtain a' where "wa_run env a1 (message_frames key OPCODE_Continuation zs @ rest) = wa_run env a' rest" "wc_nState a' = 0" "wa_inv env a'"
      "wc_hrCloseError a' = wc_hrCloseError a1" "wa_data a' = []" "wc_nOpcode a' = OPCODE_NONE"
      "wc_log a' = wc_log a1 @ [deliver (op_after op (wc_nOpcode a)) (wa_data a1 @ zs)]"
      using less.hyps [OF len(2) a1(2,3) _ _ _ _ len(3)] by (metis (no_types, lifting))
    then show ?thesis
      using a1(1,4,5,7) len(4) False unfolding message_frames.simps [of key op xs] ys_def [symmetric] zs_def [symmetric]
      by (intro exI [of _ a']) simp
  qed
qed

section \<open>Sending a message\<close>

text \<open>The connection takes every message; the buffer of the sender exists.\<close>

definition sending :: "ws_env \<Rightarrow> u32 \<Rightarrow> u8 \<Rightarrow> nat \<Rightarrow> u8 list \<Rightarrow> wsend \<Rightarrow> bool" where
  "sending env tid op n xs s \<longleftrightarrow> sd_nSendInProgressMutex s = tid \<and> sd_nOpcode s = op \<and> unat (sd_nFilledFrame s) = n \<and> n \<le> SEND_PAYLOAD_SIZE \<and>
     sd_lpFrameData s = (if n = 0 then None else Some 0) \<and> (\<exists>b. sd_cFrameBuffer s = Some b \<and> length b = SEND_PAYLOAD_SIZE \<and> take n b = xs)"

lemma SendMsg_ok: "\<forall>m. we_SendMsg env m = S_OK \<Longrightarrow> SendMsg env m sent = (S_OK, sent @ [m])"
  by (simp add: SendMsg_def)

lemma InternalSendFrame_rep:
  assumes ok: "\<forall>m. we_SendMsg env m = S_OK" and s: "sending env tid op n xs s"
  shows "\<exists>s' h body b'. InternalSendFrame env fin s = Some (S_OK, s') \<and> s' = s\<lparr>sd_cFrameBuffer := Some b', sd_sent := sd_sent s @ [h, body]\<rparr> \<and>
    length b' = SEND_PAYLOAD_SIZE \<and> h @ body = ws_frame (sender_key env op fin xs) op fin xs"
proof -
  obtain b where b: "sd_cFrameBuffer s = Some b" "length b = SEND_PAYLOAD_SIZE" "take n b = xs" "unat (sd_nFilledFrame s) = n" "n \<le> SEND_PAYLOAD_SIZE"
    using s by (auto simp: sending_def)
  have len: "length xs = n" "length xs < 2 ^ 32" "b = xs @ drop n b"
    using b append_take_drop_id [of n b] by (auto simp: SEND_PAYLOAD_SIZE_def)
  have n: "sd_nFilledFrame s = of_nat (length xs)"
    unfolding len(1) b(4) [symmetric] by simp
  obtain h body where f: "BuildFrame env (xs @ drop n b) (of_nat (length xs)) op fin = Some (h, body @ drop n b)" "length body = length xs"
    "h @ body = ws_frame (sender_key env op fin xs) op fin xs"
    using BuildFrame_rep [OF len(2)] by blast
  have "block_read (body @ drop n b) 0 (length xs) = Some body" "length (body @ drop n b) = SEND_PAYLOAD_SIZE"
    using f(2) b(2,5) len(1) by (simp_all add: block_read_ok)
  then show ?thesis
    using f s b(1,4) len(1) n unfolding InternalSendFrame_def
    by (intro exI [of _ "s\<lparr>sd_cFrameBuffer := Some (body @ drop n b), sd_sent := sd_sent s @ [h, body]\<rparr>"] exI [of _ h] exI [of _ body]
        exI [of _ "body @ drop n b"]) (simp add: SendMsg_ok [OF ok] sending_def len(3) [symmetric])
qed
lemma send_chunk:
  assumes s: "sending env tid op 0 [] s" and data: "data \<noteq> []"
  shows "\<exists>s1. send_loop env data s = send_loop env (drop SEND_PAYLOAD_SIZE data) s1 \<and>
    sending env tid op (min SEND_PAYLOAD_SIZE (length data)) (take SEND_PAYLOAD_SIZE data) s1 \<and> sd_sent s1 = sd_sent s"
proof -
  define n where "n = min SEND_PAYLOAD_SIZE (length data)"
  obtain b where b: "sd_cFrameBuffer s = Some b" "length b = SEND_PAYLOAD_SIZE" "unat (sd_nFilledFrame s) = 0" "sd_lpFrameData s = None"
    using s by (auto simp: sending_def)
  have f0: "sd_nFilledFrame s = 0"
    using b(3) by (simp add: unat_eq_zero)
  have n: "0 < n" "n \<le> SEND_PAYLOAD_SIZE" "unat (of_nat n :: u32) = n" "take n data = take SEND_PAYLOAD_SIZE data" "drop n data = drop SEND_PAYLOAD_SIZE data"
  proof -
    show "0 < n" "n \<le> SEND_PAYLOAD_SIZE"
      using data by (simp_all add: n_def SEND_PAYLOAD_SIZE_def)
    then show "unat (of_nat n :: u32) = n"
      by (simp only: unat_of_nat SEND_PAYLOAD_SIZE_def) simp
    show "take n data = take SEND_PAYLOAD_SIZE data" "drop n data = drop SEND_PAYLOAD_SIZE data"
      by (simp_all add: n_def min_def)
  qed
  obtain b' where b': "block_write b 0 (take n data) = Some b'" "length b' = SEND_PAYLOAD_SIZE" "take n b' = take n data"
    using block_write_prefix [of 0 "take n data" b] b(2) n(2) by (auto simp: n_def)
  define s1 where "s1 = s\<lparr>sd_lpFrameData := Some 0, sd_cFrameBuffer := Some b', sd_nFilledFrame := of_nat n\<rparr>"
  have room: "\<not> SEND_PAYLOAD_SIZE \<le> (0 :: nat)"
    by (simp add: SEND_PAYLOAD_SIZE_def)
  have "send_loop env data s = send_loop env (drop n data) s1"
    using data b(1,4) f0 b'(1) room by (simp add: send_loop.simps [of env data s] n_def [symmetric] s1_def)
  moreover have "sending env tid op n (take n data) s1"
    using s b'(2,3) n(1-3) by (auto simp: sending_def s1_def)
  ultimately show ?thesis
    using n(4,5) by (auto simp: s1_def n_def)
qed

lemma send_full:
  assumes ok: "\<forall>m. we_SendMsg env m = S_OK" and s: "sending env tid op SEND_PAYLOAD_SIZE xs s" and data: "data \<noteq> []"
  shows "\<exists>s1. send_loop env data s = send_loop env data s1 \<and> sending env tid OPCODE_Continuation 0 [] s1 \<and>
    concat (sd_sent s1) = concat (sd_sent s) @ ws_frame (sender_key env op False xs) op False xs"
proof -
  obtain s' h body b' where f: "InternalSendFrame env False s = Some (S_OK, s')" "s' = s\<lparr>sd_cFrameBuffer := Some b', sd_sent := sd_sent s @ [h, body]\<rparr>"
    "length b' = SEND_PAYLOAD_SIZE" "h @ body = ws_frame (sender_key env op False xs) op False xs"
    using InternalSendFrame_rep [OF ok s, of False] by blast
  define s1 where "s1 = s'\<lparr>sd_nOpcode := OPCODE_Continuation, sd_lpFrameData := None, sd_nFilledFrame := 0\<rparr>"
  have full: "unat (sd_nFilledFrame s) = SEND_PAYLOAD_SIZE" "unat (sd_nFilledFrame s1) = 0" "\<not> SEND_PAYLOAD_SIZE \<le> (0 :: nat)"
    using s by (simp_all add: sending_def s1_def SEND_PAYLOAD_SIZE_def)
  have "send_loop env data s = send_loop env data s1"
    using data f(1) full unfolding send_loop.simps [of env data s] send_loop.simps [of env data s1] by (simp add: s1_def)
  moreover have "sending env tid OPCODE_Continuation 0 [] s1"
    using s f(3) by (auto simp: s1_def f(2) sending_def)
  moreover have "concat (sd_sent s1) = concat (sd_sent s) @ ws_frame (sender_key env op False xs) op False xs"
    using f(4) by (simp add: s1_def f(2))
  ultimately show ?thesis
    by blast
qed

lemma EndMessage_rep:
  assumes ok: "\<forall>m. we_SendMsg env m = S_OK" and s: "sending env tid op n xs s" and n: "0 < n"
  shows "\<exists>s'. EndMessage env tid s = Some (S_OK, s') \<and> sd_nSendInProgressMutex s' = 0 \<and>
    concat (sd_sent s') = concat (sd_sent s) @ ws_frame (sender_key env op True xs) op True xs"
proof -
  obtain s' h body b' where f: "InternalSendFrame env True s = Some (S_OK, s')" "s' = s\<lparr>sd_cFrameBuffer := Some b', sd_sent := sd_sent s @ [h, body]\<rparr>"
    "h @ body = ws_frame (sender_key env op True xs) op True xs"
    using InternalSendFrame_rep [OF ok s, of True] by blast
  have "sd_nSendInProgressMutex s = tid" "0 < sd_nFilledFrame s"
    using s n by (simp_all add: sending_def word_less_nat_alt)
  then show ?thesis
    using f(1,3) by (simp add: EndMessage_def f(2))
qed

lemma send_message_rep:
  assumes ok: "\<forall>m. we_SendMsg env m = S_OK"
  shows "sending env tid op 0 [] s \<Longrightarrow> data \<noteq> [] \<Longrightarrow> \<exists>s1 s2. send_loop env data s = Some (S_OK, s1) \<and> EndMessage env tid s1 = Some (S_OK, s2) \<and>
    sd_nSendInProgressMutex s1 = tid \<and> sd_nSendInProgressMutex s2 = 0 \<and>
    concat (sd_sent s2) = concat (sd_sent s) @ message_frames (sender_key env) op data"
proof (induction "length data" arbitrary: op s data rule: less_induct)
  case less
  obtain s1 where s1: "send_loop env data s = send_loop env (drop SEND_PAYLOAD_SIZE data) s1"
    "sending env tid op (min SEND_PAYLOAD_SIZE (length data)) (take SEND_PAYLOAD_SIZE data) s1" "sd_sent s1 = sd_sent s"
    using send_chunk [OF less.prems] by blast
  show ?case
  proof (cases "length data \<le> SEND_PAYLOAD_SIZE")
    case True
    then have "send_loop env data s = Some (S_OK, s1)"
      unfolding s1(1) by (simp add: send_loop.simps)
    moreover have "sending env tid op (length data) data s1"
      using s1(2) True by (simp add: min_absorb2)
    ultimately show ?thesis
      using EndMessage_rep [OF ok, of tid op "length data" data s1] less.prems(2) True s1(3)
      by (auto simp: message_frames.simps [of _ op data] sending_def)
  next
    case False
    define zs where "zs = drop SEND_PAYLOAD_SIZE data"
    have zs: "zs \<noteq> []" "length zs < length data" "sending env tid op SEND_PAYLOAD_SIZE (take SEND_PAYLOAD_SIZE data) s1"
      using False s1(2) by (auto simp: zs_def min_def SEND_PAYLOAD_SIZE_def)
    obtain s2 where s2: "send_loop env zs s1 = send_loop env zs s2" "sending env tid OPCODE_Continuation 0 [] s2"
      "concat (sd_sent s2) = concat (sd_sent s1) @ ws_frame (sender_key env op False (take SEND_PAYLOAD_SIZE data)) op False (take SEND_PAYLOAD_SIZE data)"
      using send_full [OF ok zs(3,1)] by blast
    show ?thesis
      using less.hyps [OF zs(2) s2(2) zs(1)] s1(1,3) s2(1,3) False
      by (auto simp: message_frames.simps [of _ op data] zs_def)
  qed
qed
end
