(* ===== verification/WebSocket_Props.thy ===== *)
theory WebSocket_Props
  imports WebSocketSend_Rep
begin

unbundle bit_operations_syntax

text \<open>
  Sessions of a WebSocket: bytes that arrive in chunks, messages that are sent, and both together.
\<close>

section \<open>Receiving in chunks\<close>

text \<open>
  The connection stores each chunk in its circular buffer and calls \<open>OnSocketDataReceived\<close>, until a call
  fails or the connection is closed.
\<close>

fun ws_receive :: "ws_env \<Rightarrow> u8 allocator \<Rightarrow> (nat \<Rightarrow> bool) \<Rightarrow> wrecv \<Rightarrow> cbuf \<Rightarrow> u8 list list \<Rightarrow> (HRESULT \<times> wrecv) option" where
  "ws_receive env malloc more_fits s cb [] = Some (S_OK, s)"
| "ws_receive env malloc more_fits s cb (c # cs) = do {
     (hRes, cb) \<leftarrow> Write malloc cb (Some c) (of_nat (length c)) True;
     if hRes \<noteq> S_OK then Some (hRes, s)
     else do {
       (hRes, s, cb) \<leftarrow> OnSocketDataReceived env malloc more_fits s cb;
       if hRes \<noteq> S_OK \<or> wc_hrCloseError s \<noteq> None then Some (hRes, s)
       else ws_receive env malloc more_fits s cb cs
     }
   }"

lemma header_byte_open: "wc_nState a < 16 \<Longrightarrow> wc_hrCloseError (snd (header_byte env a b)) = wc_hrCloseError a"
  by (auto simp: header_byte_def check_opcode_def check_length_def jump_to_maskkey_or_payloaddata_def validate_message_length_def Let_def)

lemma add_payload_open [simp]: "wc_hrCloseError (add_payload xs a) = wc_hrCloseError a"
  by (simp add: add_payload_def add_control_def add_data_def)

lemma frame_end_open: "wa_frame_end env a = (r, a') \<Longrightarrow> (r = None \<longrightarrow> wc_hrCloseError a' = wc_hrCloseError a) \<and> (r = Some S_OK \<longrightarrow> wc_hrCloseError a' \<noteq> None)"
  by (auto simp: wa_frame_end_def wa_control_end_def wa_data_end_def Let_def split: if_splits option.splits prod.splits)

lemma wa_step_open: "wa_step env a b = (r, a') \<Longrightarrow> (r = None \<longrightarrow> wc_hrCloseError a' = wc_hrCloseError a) \<and> (r = Some S_OK \<longrightarrow> wc_hrCloseError a' \<noteq> None)"
  using header_byte_open [of a env b] frame_end_open [of env _ r a']
  by (auto simp: wa_step_def split: if_splits prod.splits)

lemma wa_run_open: "wa_run env a bs = (r, a') \<Longrightarrow> (r = None \<longrightarrow> wc_hrCloseError a' = wc_hrCloseError a) \<and> (r = Some S_OK \<longrightarrow> wc_hrCloseError a' \<noteq> None)"
proof (induction bs arbitrary: a)
  case (Cons b bs)
  obtain r1 a1 where "wa_step env a b = (r1, a1)"
    by (cases "wa_step env a b")
  then show ?case
    using Cons.prems Cons.IH [of a1] wa_step_open [of env a b r1 a1] by (auto split: option.splits)
qed simp

lemma Write_empty:
  assumes "cb_rep cb []" and "fair malloc" and "roomy malloc (2 * L + 4095)" and "c \<noteq> []" and "length c \<le> L" and "length c \<le> 2 ^ 47"
  shows "\<exists>cb'. Write malloc cb (Some c) (of_nat (length c)) True = Some (S_OK, cb') \<and> cb_rep cb' c"
proof -
  have u: "unat (of_nat (length c) :: u64) = length c"
    using assms(6) by (simp only: unat_of_nat) simp
  then have nz: "(of_nat (length c) :: u64) \<noteq> 0"
    using assms(4) by (metis length_0_conv unat_0)
  obtain r cb' where w: "Write malloc cb (Some c) (of_nat (length c)) True = Some (r, cb')"
    "if r = S_OK then cb_rep cb' ([] @ take (unat (of_nat (length c) :: u64)) c) else cb_rep cb' [] \<and> cb' = cb"
    "r = MX_E_BufferOverflow \<longleftrightarrow> \<not> True \<and> unat (cb_nSize cb) < length ([] :: u8 list) + unat (of_nat (length c) :: u64)"
    "r \<in> {S_OK, MX_E_BufferOverflow} \<or> r = E_OUTOFMEMORY \<and> unat (cb_nSize cb) < length ([] :: u8 list) + unat (of_nat (length c) :: u64) \<and>
      (\<exists>m. malloc m = None \<and> length ([] :: u8 list) + unat (of_nat (length c) :: u64) \<le> unat m \<and>
      unat m \<le> max (2 * unat (cb_nSize cb)) (length ([] :: u8 list) + unat (of_nat (length c) :: u64)) + 4095)"
    using Write_rep [OF assms(1,2) _ _ nz, of c True] u assms(6) by auto
  have "r = S_OK"
  proof (rule ccontr)
    assume "r \<noteq> S_OK"
    then obtain m where "malloc m = None" "unat (cb_nSize cb) < length c" "unat m \<le> max (2 * unat (cb_nSize cb)) (length c) + 4095"
      using w(3,4) u by auto
    then show False
      using assms(3,5) not_roomyI [of malloc m "2 * L + 4095"] by auto
  qed
  then show ?thesis
    using w(1,2) u by auto
qed

text \<open>What the call returns and the state that it leaves, from the automaton.\<close>

lemma ws_receive_rep:
  assumes al: "fair malloc" "roomy malloc (max (max BLK (unat (we_nMaxMessageSize env))) (2 * L + 4095))" "\<forall>n. more_fits n"
    and conn: "we_hConn env = S_OK" and L: "L \<le> 2 ^ 47"
  shows "ws_rel s a \<Longrightarrow> wa_ready env a \<Longrightarrow> wc_hrCloseError a = None \<Longrightarrow> cb_rep cb [] \<Longrightarrow> \<forall>c \<in> set chunks. c \<noteq> [] \<and> length c \<le> L \<Longrightarrow>
    \<exists>s'. ws_receive env malloc more_fits s cb chunks =
        Some (case fst (wa_run env a (concat chunks)) of None \<Rightarrow> S_OK | Some h \<Rightarrow> h, s') \<and>
      wcore.truncate s' = wcore.truncate (snd (wa_run env a (concat chunks))) \<and>
      (fst (wa_run env a (concat chunks)) = None \<longrightarrow> ws_rel s' (snd (wa_run env a (concat chunks))))"
proof (induction chunks arbitrary: s a cb)
  case Nil
  then show ?case
    by (simp add: ws_rel_def)
next
  case (Cons c cs)
  have rooms: "roomy malloc (max BLK (unat (we_nMaxMessageSize env)))" "roomy malloc (2 * L + 4095)"
    by (rule roomy_mono [OF al(2)], simp)+
  obtain cb1 where w: "Write malloc cb (Some c) (of_nat (length c)) True = Some (S_OK, cb1)" "cb_rep cb1 c"
    using Write_empty [OF Cons.prems(4) al(1) rooms(2), of c] Cons.prems(5) L by auto
  obtain r s1 cb2 a1 where o: "OnSocketDataReceived env malloc more_fits s cb1 = Some (case r of None \<Rightarrow> S_OK | Some h \<Rightarrow> h, s1, cb2)"
    "wa_run env a c = (r, a1)" "wcore.truncate s1 = wcore.truncate a1" "r = None \<longrightarrow> ws_rel s1 a1 \<and> wa_ready env a1 \<and> cb_rep cb2 []"
    using OnSocketDataReceived_rep [OF al(1) rooms(1) al(3) conn Cons.prems(1,2) w(2)] by blast
  have hr: "wc_hrCloseError s1 = wc_hrCloseError a1"
    using o(3) by (simp add: wcore.defs)
  show ?case
  proof (cases r)
    case None
    then show ?thesis
      using Cons.IH [of s1 a1 cb2] Cons.prems(3,5) o w(1) wa_run_open [OF o(2)] hr by (simp add: wa_run_append)
  next
    case (Some h)
    then show ?thesis
      using o w(1) wa_run_open [OF o(2)] hr by (cases "h = S_OK") (simp_all add: wa_run_append)
  qed
qed

lemma wa_ready_new: "wa_ready env wa_new"
  using wa_inv_new [of env] by (simp add: wa_ready_def at_end_def) (simp add: wa_new_def)

text \<open>C13. The receiver depends on the bytes only, not on how they are cut into chunks. Whatever the peer sends, in chunks of
  any sizes, across frames and across the 4096 bytes that the code takes at a time, with the blocks, the cache and the
  circular buffer, it makes the same calls, sends the same replies and ends with the same result as the automaton
  that takes the bytes one by one and keeps a message as one list; nothing outside of a buffer is touched. (The
  allocator grants the blocks that the limit of the message size and the chunks need.)\<close>

theorem receive_any_chunks:
  assumes "fair malloc" and "roomy malloc (max (max BLK (unat (we_nMaxMessageSize env))) (2 * L + 4095))" and "\<forall>n. more_fits n"
    and "we_hConn env = S_OK" and "L \<le> 2 ^ 47" and "\<forall>c \<in> set chunks. c \<noteq> [] \<and> length c \<le> L"
    and "wa_run env wa_new (concat chunks) = (r, a)"
  shows "\<exists>s. ws_receive env malloc more_fits wrecv_new CCircularBuffer chunks = Some (case r of None \<Rightarrow> S_OK | Some h \<Rightarrow> h, s) \<and>
    wc_log s = wc_log a \<and> wc_hrCloseError s = wc_hrCloseError a \<and> wc_nState s = wc_nState a \<and> wc_nTotalDataLength s = wc_nTotalDataLength a"
proof -
  have "wc_hrCloseError wa_new = None"
    by (simp add: wa_new_def)
  from ws_receive_rep [OF assms(1-5) ws_rel_new wa_ready_new this cb_rep_init assms(6)] show ?thesis
    unfolding assms(7) by (auto simp: wcore.defs)
qed

text \<open>A sample side of a connection, and a short text that arrives in two chunks.\<close>

definition sample_env :: "bool \<Rightarrow> ws_env" where
  "sample_env server = \<lparr>we_bServerSide = server, we_nMaxMessageSize = 8192, we_nTickCount = 7, we_this = 0x1000, we_SendMsg = (\<lambda>_. S_OK), we_hConn = S_OK\<rparr>"

lemma sample_env_simps [simp]: "unat (we_nMaxMessageSize (sample_env server)) = 8192" "we_hConn (sample_env server) = S_OK"
    "we_SendMsg (sample_env server) m = S_OK" "we_bServerSide (sample_env server) = server"
  by (simp_all add: sample_env_def)

lemma zeros_grants: "roomy zeros 65536"
  by (auto simp: roomy_def zeros_def word_le_nat_alt)

lemma wa_new_simps [simp]: "wc_nState wa_new = 0" "wa_data wa_new = []" "wc_nOpcode wa_new = OPCODE_NONE" "wc_log wa_new = []"
    "wc_hrCloseError wa_new = None"
  by (simp_all add: wa_new_def)

lemma op_allowed_new: "op = OPCODE_Text \<or> op = OPCODE_Binary \<Longrightarrow> data_op op \<and> op_allowed op wa_new \<and> op_after op OPCODE_NONE = op"
  by (auto simp: data_op_def op_allowed_def op_after_def opcodes)

lemma sample_text: "\<exists>a. wa_run (sample_env server) wa_new [129, 2, 72, 105] = (None, a) \<and> wc_log a = [TextMessage [72, 105]]"
proof -
  have "ws_frame None OPCODE_Text True [72, 105] = [129, 2, 72, 105]"
    by (simp add: ws_frame_def frame_len_def opcodes)
  then show ?thesis
    using run_data_frame [of wa_new "sample_env server" OPCODE_Text None "[72, 105]" True "[]"] op_allowed_new [of OPCODE_Text] wa_inv_new
    by (auto simp: Let_def unwire_def deliver_def)
qed

lemma receive_any_chunks_witness:
  "\<exists>s. ws_receive (sample_env True) zeros (\<lambda>_. True) wrecv_new CCircularBuffer [[129], [2, 72], [105]] = Some (S_OK, s) \<and>
    wc_log s = [TextMessage [72, 105]]"
proof -
  obtain a where a: "wa_run (sample_env True) wa_new (concat [[129], [2, 72], [105]]) = (None, a)" "wc_log a = [TextMessage [72, 105]]"
    using sample_text [of True] by auto
  have "roomy zeros (max (max BLK (unat (we_nMaxMessageSize (sample_env True)))) (2 * 3 + 4095))"
    by (rule roomy_mono [OF zeros_grants]) (simp add: RECEIVE_DATA_BLOCK_SIZE_def)
  from receive_any_chunks [OF fair_zeros this _ _ _ _ a(1), of "\<lambda>_. True"] show ?thesis
    using a(2) by (auto simp del: ws_receive.simps)
qed

section \<open>Frames and messages that are sent\<close>

text \<open>C16. \<open>BuildFrame\<close> makes a frame of RFC 6455: for every payload below 2 to the 32nd bytes the header with the shortest form
  of the length, and for a client the masking key and the payload masked with it, in place and with nothing
  touched behind it; a receiver that reads the frame at the beginning of a message gets the payload.\<close>

theorem frames_are_read:
  assumes "length xs < 2 ^ 32" and "length xs \<le> unat (we_nMaxMessageSize env')" and "op = OPCODE_Text \<or> op = OPCODE_Binary"
  shows "\<exists>h body. BuildFrame env (xs @ junk) (of_nat (length xs)) op True = Some (h, body @ junk) \<and>
    h @ body = ws_frame (sender_key env op True xs) op True xs \<and>
    (\<exists>a. wa_run env' wa_new (h @ body) = (None, a) \<and> wc_log a = (if xs = [] then [] else [deliver op xs]))"
proof -
  obtain h body where f: "BuildFrame env (xs @ junk) (of_nat (length xs)) op True = Some (h, body @ junk)"
    "h @ body = ws_frame (sender_key env op True xs) op True xs"
    using BuildFrame_rep [OF assms(1)] by blast
  have op: "data_op op" "op_allowed op wa_new" "op_after op OPCODE_NONE = op"
    using op_allowed_new [OF assms(3)] by simp_all
  have key: "\<forall>k. sender_key env op True xs = Some k \<longrightarrow> length k = 4"
    using sender_key_length by blast
  obtain a where "wa_run env' wa_new (ws_frame (sender_key env op True xs) op True xs @ []) = wa_run env' a []"
    "wc_log a = (if xs = [] then [] else [deliver op xs])"
    using run_data_frame [OF wa_new_simps(1) wa_inv_new op(1,2) key, where env = env' and fin = True and rest = "[]"] assms(2) op(3)
    by (auto simp: Let_def unwire_aligned)
  then show ?thesis
    using f by auto
qed

lemma frames_are_read_witness:
  "\<exists>h body a. BuildFrame (sample_env False) [1, 2, 3] 3 OPCODE_Binary True = Some (h, body) \<and>
    wa_run (sample_env True) wa_new (h @ body) = (None, a) \<and> wc_log a = [BinaryMessage [1, 2, 3]]"
  using frames_are_read [of "[1, 2, 3]" "sample_env True" OPCODE_Binary "sample_env False" "[]"] by (auto simp: deliver_def opcodes)

text \<open>A message in parts: one call for each part, between the two calls that open and close the message.\<close>

fun send_parts :: "ws_env \<Rightarrow> u32 \<Rightarrow> u8 list list \<Rightarrow> wsend \<Rightarrow> (HRESULT \<times> wsend) option" where
  "send_parts env tid [] s = EndMessage env tid s"
| "send_parts env tid (p # ps) s = do {
     (hRes, s) \<leftarrow> SendBinaryMessage env tid (Some p) (of_nat (length p)) s;
     if hRes \<noteq> S_OK then Some (hRes, s) else send_parts env tid ps s
   }"

definition ws_send :: "ws_env \<Rightarrow> u8 allocator \<Rightarrow> u32 \<Rightarrow> u8 \<Rightarrow> u8 list list \<Rightarrow> wsend \<Rightarrow> (HRESULT \<times> wsend) option" where
  "ws_send env malloc tid op ps s = do {
     (hRes, s) \<leftarrow> BeginMessage malloc op tid s;
     if hRes \<noteq> S_OK then Some (hRes, s) else send_parts env tid ps s
   }"

lemma BeginMessage_new:
  assumes "fair malloc" and "malloc (of_nat SEND_PAYLOAD_SIZE) = Some b"
  shows "\<exists>s. BeginMessage malloc op tid wsend_new = Some (S_OK, s) \<and> sending env tid op 0 [] s \<and> sd_sent s = [] \<and> sd_cFrameBuffer s = Some b"
  using fairD(1) [OF assms] assms(2)
  by (auto simp: BeginMessage_def wsend_new_def sending_def SEND_PAYLOAD_SIZE_def)

text \<open>C14. A message of at least one byte that is sent with one call arrives: whatever its size up to the limit of the receiver, as text or as binary data,
  from a client or from a server, cut into frames by the sender and into chunks by the network, the
  receiver delivers exactly the message, once, and stays open; the sender releases its lock.\<close>

theorem message_round_trip:
  assumes "fair malloc" and "roomy malloc (max (max BLK (unat (we_nMaxMessageSize env'))) (2 * L + 4095))" and "\<forall>n. more_fits n"
    and "we_hConn env' = S_OK" and "L \<le> 2 ^ 47" and "\<forall>m. we_SendMsg env m = S_OK" and "op = OPCODE_Text \<or> op = OPCODE_Binary"
    and "data \<noteq> []" and "length data \<le> unat (we_nMaxMessageSize env')"
  shows "\<exists>s. ws_send env malloc tid op [data] wsend_new = Some (S_OK, s) \<and> sd_nSendInProgressMutex s = 0 \<and>
    concat (sd_sent s) = message_frames (sender_key env) op data \<and>
    (\<forall>chunks. concat chunks = concat (sd_sent s) \<longrightarrow> (\<forall>c \<in> set chunks. c \<noteq> [] \<and> length c \<le> L) \<longrightarrow>
      (\<exists>r. ws_receive env' malloc more_fits wrecv_new CCircularBuffer chunks = Some (S_OK, r) \<and>
        wc_log r = [deliver op data] \<and> wc_hrCloseError r = None))"
proof -
  have u: "unat (of_nat SEND_PAYLOAD_SIZE :: u64) = SEND_PAYLOAD_SIZE"
    by (simp add: SEND_PAYLOAD_SIZE_def)
  have "roomy malloc SEND_PAYLOAD_SIZE"
    by (rule roomy_mono [OF assms(2)]) (simp add: SEND_PAYLOAD_SIZE_def RECEIVE_DATA_BLOCK_SIZE_def)
  then obtain b where "malloc (of_nat SEND_PAYLOAD_SIZE) = Some b"
    using u by (metis not_roomyI option.exhaust order_refl)
  then obtain s0 where s0: "BeginMessage malloc op tid wsend_new = Some (S_OK, s0)" "sending env tid op 0 [] s0" "sd_sent s0 = []"
    using BeginMessage_new [OF assms(1)] by blast
  obtain s1 s2 where s: "send_loop env data s0 = Some (S_OK, s1)" "EndMessage env tid s1 = Some (S_OK, s2)" "sd_nSendInProgressMutex s2 = 0"
    "concat (sd_sent s2) = message_frames (sender_key env) op data"
    using send_message_rep [OF assms(6) s0(2) assms(8)] s0(3) by auto
  have len: "unat (of_nat (length data) :: u64) = length data"
    by (rule unat_of_nat_le [OF assms(9)])
  then have nz: "(of_nat (length data) :: u64) \<noteq> 0"
    using assms(8) by (metis length_0_conv unat_0)
  have "SendBinaryMessage env tid (Some data) (of_nat (length data)) s0 = Some (S_OK, s1)"
    using s0(2) s(1) nz len by (simp add: SendBinaryMessage_def sending_def block_read_ok)
  then have send: "ws_send env malloc tid op [data] wsend_new = Some (S_OK, s2)"
    using s0(1) s(2) by (simp add: ws_send_def)
  have op: "data_op op" "op_allowed op wa_new" "op_after op OPCODE_NONE = op"
    using op_allowed_new [OF assms(7)] by simp_all
  have key: "\<forall>op fin xs k. sender_key env op fin xs = Some k \<longrightarrow> length k = 4"
    using sender_key_length by blast
  obtain a where a: "wa_run env' wa_new (message_frames (sender_key env) op data) = (None, a)" "wc_log a = [deliver op data]" "wc_hrCloseError a = None"
    using run_message [OF key wa_new_simps(1) wa_inv_new op(1,2), where env = env' and xs = data and rest = "[]"] assms(8,9) op(3) by auto
  have "\<exists>r. ws_receive env' malloc more_fits wrecv_new CCircularBuffer chunks = Some (S_OK, r) \<and> wc_log r = [deliver op data] \<and> wc_hrCloseError r = None"
    if "concat chunks = concat (sd_sent s2)" "\<forall>c \<in> set chunks. c \<noteq> [] \<and> length c \<le> L" for chunks
    using ws_receive_rep [OF assms(1-5) ws_rel_new wa_ready_new wa_new_simps(5) cb_rep_init that(2)] that(1) a s(4) by (auto simp: wcore.defs)
  then show ?thesis
    using send s(3,4) by blast
qed
lemma message_round_trip_witness:
  "\<exists>s r. ws_send (sample_env False) zeros 9 OPCODE_Binary [[1, 2, 3, 4, 5]] wsend_new = Some (S_OK, s) \<and>
    ws_receive (sample_env True) zeros (\<lambda>_. True) wrecv_new CCircularBuffer [concat (sd_sent s)] = Some (S_OK, r) \<and>
    wc_log r = [BinaryMessage [1, 2, 3, 4, 5]]"
proof -
  have len: "length (ws_frame k op fin [1, 2, 3, 4, 5]) \<le> 20 \<and> ws_frame k op fin [1, 2, 3, 4, 5] \<noteq> []" if "\<forall>k'. k = Some k' \<longrightarrow> length k' = 4" for k op fin
    using that by (auto simp: ws_frame_def frame_len_def split: option.split)
  have "roomy zeros (max (max BLK (unat (we_nMaxMessageSize (sample_env True)))) (2 * 20 + 4095))"
    by (rule roomy_mono [OF zeros_grants]) (simp add: RECEIVE_DATA_BLOCK_SIZE_def)
  from message_round_trip [OF fair_zeros this, of "\<lambda>_. True" "sample_env False" OPCODE_Binary "[1, 2, 3, 4, 5]" 9]
  obtain s where s: "ws_send (sample_env False) zeros 9 OPCODE_Binary [[1, 2, 3, 4, 5]] wsend_new = Some (S_OK, s)"
    "concat (sd_sent s) = message_frames (sender_key (sample_env False)) OPCODE_Binary [1, 2, 3, 4, 5]"
    "\<forall>chunks. concat chunks = concat (sd_sent s) \<longrightarrow> (\<forall>c \<in> set chunks. c \<noteq> [] \<and> length c \<le> 20) \<longrightarrow>
      (\<exists>r. ws_receive (sample_env True) zeros (\<lambda>_. True) wrecv_new CCircularBuffer chunks = Some (S_OK, r) \<and>
        wc_log r = [deliver OPCODE_Binary [1, 2, 3, 4, 5]] \<and> wc_hrCloseError r = None)"
    by auto
  have "length (concat (sd_sent s)) \<le> 20 \<and> concat (sd_sent s) \<noteq> []"
    unfolding s(2) message_frames.simps [of _ _ "[1, 2, 3, 4, 5]"] using len sender_key_length by (simp add: SEND_PAYLOAD_SIZE_def)
  then obtain r where "ws_receive (sample_env True) zeros (\<lambda>_. True) wrecv_new CCircularBuffer [concat (sd_sent s)] = Some (S_OK, r)"
    "wc_log r = [deliver OPCODE_Binary [1, 2, 3, 4, 5]]"
    using s(3) [rule_format, of "[concat (sd_sent s)]"] by (auto simp del: ws_receive.simps)
  then show ?thesis
    using s(1) by (auto simp: deliver_def opcodes simp del: ws_receive.simps)
qed

section \<open>Where the code does not do what it means to do\<close>

text \<open>C18. A message that is sent in two parts, neither empty and both together in one frame, is not the parts one after the other: the second call copies its bytes to the
  beginning of the frame, because the pointer is not advanced, while the length counts both. The frame starts with
  the second part, and its last bytes are what is left of the first part or of the fresh block.\<close>

theorem second_part_overwrites:
  assumes "fair malloc" and "malloc (of_nat SEND_PAYLOAD_SIZE) = Some b" and "\<forall>m. we_SendMsg env m = S_OK"
    and "xs \<noteq> []" and "ys \<noteq> []" and "length xs + length ys \<le> SEND_PAYLOAD_SIZE"
    and "zs = take (length xs + length ys) (ys @ drop (length ys) (xs @ drop (length xs) b))"
  shows "\<exists>s. ws_send env malloc tid op [xs, ys] wsend_new = Some (S_OK, s) \<and> take (length ys) zs = ys \<and>
    concat (sd_sent s) = ws_frame (sender_key env op True zs) op True zs"
proof -
  obtain s where s: "BeginMessage malloc op tid wsend_new = Some (S_OK, s)" "sending env tid op 0 [] s" "sd_sent s = []" "sd_cFrameBuffer s = Some b"
    using BeginMessage_new [OF assms(1,2)] by blast
  have b: "length b = SEND_PAYLOAD_SIZE"
    using s(2,4) by (simp add: sending_def)
  have n: "length xs < 2 ^ 32" "length ys < 2 ^ 32" "length xs + length ys < 2 ^ 32"
    using assms(6) by (simp_all add: SEND_PAYLOAD_SIZE_def)
  have u64: "unat (of_nat (length xs) :: u64) = length xs" "unat (of_nat (length ys) :: u64) = length ys"
    using n by (simp_all only: unat_of_nat) simp_all
  then have nz: "(of_nat (length xs) :: u64) \<noteq> 0" "(of_nat (length ys) :: u64) \<noteq> 0"
    using assms(4,5) by (metis length_0_conv unat_0)+
  have u32: "unat (of_nat (length xs) :: u32) = length xs" "unat (of_nat (length xs) + of_nat (length ys) :: u32) = length xs + length ys"
  proof -
    show "unat (of_nat (length xs) :: u32) = length xs"
      using n(1) by (simp only: unat_of_nat) simp
    have "unat (of_nat (length xs + length ys) :: u32) = length xs + length ys"
      using n(3) by (simp only: unat_of_nat) simp
    then show "unat (of_nat (length xs) + of_nat (length ys) :: u32) = length xs + length ys"
      by (simp only: of_nat_add)
  qed
  define b1 where "b1 = xs @ drop (length xs) b"
  define b2 where "b2 = ys @ drop (length ys) b1"
  have len: "length b1 = SEND_PAYLOAD_SIZE" "length b2 = SEND_PAYLOAD_SIZE" "zs = take (length xs + length ys) b2"
    using b assms(6,7) by (simp_all add: b1_def b2_def)
  define s1 where "s1 = s\<lparr>sd_lpFrameData := Some 0, sd_cFrameBuffer := Some b1, sd_nFilledFrame := of_nat (length xs)\<rparr>"
  define s2 where "s2 = s1\<lparr>sd_cFrameBuffer := Some b2, sd_nFilledFrame := of_nat (length xs) + of_nat (length ys)\<rparr>"
  have s0: "sd_nFilledFrame s = 0" "sd_lpFrameData s = None" "sd_nSendInProgressMutex s = tid"
    using s(2) by (simp_all add: sending_def unat_eq_zero)
  have lt: "length xs < SEND_PAYLOAD_SIZE" "0 < SEND_PAYLOAD_SIZE"
    using assms(5,6) by (cases ys; simp)+
  have w: "block_write b 0 xs = Some b1" "block_write b1 0 ys = Some b2"
    using b len assms(6) by (simp_all add: block_write_ok b1_def b2_def)
  have "send_loop env xs s = send_loop env [] s1"
    using s0 s(4) assms(4,6) w(1) lt(2) by (simp add: send_loop.simps [of env xs s] s1_def min_absorb2)
  then have l1: "send_loop env xs s = Some (S_OK, s1)"
    by (simp add: send_loop.simps)
  have "min (SEND_PAYLOAD_SIZE - length xs) (length ys) = length ys"
    using assms(6) by simp
  then have "send_loop env ys s1 = send_loop env [] s2"
    using u32(1) assms(5) w(2) lt(1) unfolding send_loop.simps [of env ys s1] by (simp add: s1_def s2_def)
  then have l2: "send_loop env ys s1 = Some (S_OK, s2)"
    by (simp add: send_loop.simps)
  have p: "SendBinaryMessage env tid (Some xs) (of_nat (length xs)) s = Some (S_OK, s1)"
    "SendBinaryMessage env tid (Some ys) (of_nat (length ys)) s1 = Some (S_OK, s2)"
    using l1 l2 s0(3) nz u64 by (simp_all add: SendBinaryMessage_def block_read_ok s1_def)
  have "sending env tid op (length xs + length ys) zs s2"
    using s(2) u32(2) assms(4,6) len by (simp add: sending_def s2_def s1_def)
  moreover have "0 < length xs + length ys"
    using assms(4) by simp
  ultimately obtain s3 where "EndMessage env tid s2 = Some (S_OK, s3)" "concat (sd_sent s3) = concat (sd_sent s2) @ ws_frame (sender_key env op True zs) op True zs"
    using EndMessage_rep [OF assms(3)] by blast
  moreover have "take (length ys) zs = ys"
    by (simp add: len(3) b2_def)
  ultimately show ?thesis
    using s(1,3) p by (simp add: ws_send_def s2_def s1_def)
qed

lemma second_part_overwrites_witness:
  "\<exists>s zs. ws_send (sample_env True) zeros 9 OPCODE_Text [[72, 101], [108]] wsend_new = Some (S_OK, s) \<and>
    concat (sd_sent s) = ws_frame None OPCODE_Text True zs \<and> zs = [108, 101, 0]"
proof -
  have b: "zeros (of_nat SEND_PAYLOAD_SIZE) = Some (replicate 16384 0)"
    by (simp add: zeros_def SEND_PAYLOAD_SIZE_def)
  have "take (length [72, 101 :: u8] + length [108 :: u8]) ([108] @ drop (length [108 :: u8]) ([72, 101] @ drop (length [72, 101 :: u8]) (replicate 16384 0))) =
      [108, 101, 0 :: u8]"
    by simp
  then show ?thesis
    using second_part_overwrites [OF fair_zeros b, of "sample_env True" "[72, 101]" "[108]" _ 9 OPCODE_Text]
    by (simp add: sender_key_def SEND_PAYLOAD_SIZE_def)
qed
text \<open>A mask that is applied with a shifted key.\<close>

lemma mask_shift: "mask_from key j (mask_from key m ys) = ys \<longleftrightarrow> (\<forall>i < length ys. key ! ((j + i) mod 4) = key ! ((m + i) mod 4))"
proof (induction ys arbitrary: j m)
  case (Cons y ys)
  have "(y XOR u) XOR v = y \<longleftrightarrow> v = u" for u v :: u8
    by (metis xor.assoc xor.commute xor.right_neutral xor_self_eq)
  moreover have "(\<forall>i < length (y # ys). key ! ((j + i) mod 4) = key ! ((m + i) mod 4)) \<longleftrightarrow>
      key ! (j mod 4) = key ! (m mod 4) \<and> (\<forall>i < length ys. key ! ((j + 1 + i) mod 4) = key ! ((m + 1 + i) mod 4))"
    by (auto simp: less_Suc_eq_0_disj)
  ultimately show ?case
    using Cons.IH [of "j + 1" "m + 1"] by simp
qed simp

text \<open>C17. A masked message in two fragments, as a client may send it, arrives unchanged only if the key happens to repeat: the
  receiver unmasks the second fragment with the key rotated by the length of the first one, because it takes the
  index of the mask from the position in the block. It is right for every key when the first length is a multiple of four.\<close>

theorem fragments_are_garbled:
  assumes "fair malloc" and "roomy malloc (max (max BLK (unat (we_nMaxMessageSize env))) (2 * L + 4095))" and "\<forall>n. more_fits n"
    and "we_hConn env = S_OK" and "L \<le> 2 ^ 47" and "\<forall>c \<in> set chunks. c \<noteq> [] \<and> length c \<le> L"
    and "op = OPCODE_Text \<or> op = OPCODE_Binary" and "length k1 = 4" and "length k2 = 4" and "xs \<noteq> []"
    and "length xs + length ys \<le> unat (we_nMaxMessageSize env)"
    and "concat chunks = ws_frame (Some k1) op False xs @ ws_frame (Some k2) OPCODE_Continuation True ys"
  shows "\<exists>r ys'. ws_receive env malloc more_fits wrecv_new CCircularBuffer chunks = Some (S_OK, r) \<and> wc_log r = [deliver op (xs @ ys')] \<and>
    ys' = mask_from k2 (length xs) (mask_from k2 0 ys) \<and>
    (ys' = ys \<longleftrightarrow> (\<forall>i < length ys. k2 ! ((length xs + i) mod 4) = k2 ! (i mod 4))) \<and> (length xs mod 4 = 0 \<longrightarrow> ys' = ys)"
proof -
  have op: "data_op op" "op_allowed op wa_new" "op_after op OPCODE_NONE = op" "op \<noteq> OPCODE_NONE"
    using op_allowed_new [OF assms(7)] assms(7) by (auto simp: opcodes)
  define tail where "tail = ws_frame (Some k2) OPCODE_Continuation True ys"
  obtain a1 where a1: "wa_run env wa_new (ws_frame (Some k1) op False xs @ tail) = wa_run env a1 tail" "wc_nState a1 = 0" "wa_inv env a1"
    "wc_hrCloseError a1 = None" "wa_data a1 = xs" "wc_nOpcode a1 = op" "wc_log a1 = []"
    using run_data_frame [OF wa_new_simps(1) wa_inv_new op(1,2), where env = env and key = "Some k1" and xs = xs and fin = False and rest = tail]
      assms(8,11) op(3) by (auto simp: Let_def unwire_aligned)
  have c: "data_op OPCODE_Continuation" "op_allowed OPCODE_Continuation a1"
    using a1(6) op(4) by (simp_all add: data_op_def op_allowed_def)
  obtain a2 where a2: "wa_run env a1 (tail @ []) = wa_run env a2 []" "wc_hrCloseError a2 = None"
    "wc_log a2 = [deliver op (xs @ mask_from k2 (length xs) (mask_from k2 0 ys))]"
    using run_data_frame [OF a1(2,3) c, where key = "Some k2" and xs = ys and fin = True and rest = "[]"] assms(9-11) a1(4-7)
    by (auto simp: Let_def unwire_def tail_def)
  have "wa_run env wa_new (concat chunks) = (None, a2)"
    using a1(1) a2(1) assms(12) by (simp add: tail_def)
  then obtain r where "ws_receive env malloc more_fits wrecv_new CCircularBuffer chunks = Some (S_OK, r)" "wc_log r = wc_log a2"
    using ws_receive_rep [OF assms(1-5) ws_rel_new wa_ready_new wa_new_simps(5) cb_rep_init assms(6)] by (auto simp: wcore.defs)
  moreover have "length xs mod 4 = 0 \<longrightarrow> mask_from k2 (length xs) (mask_from k2 0 ys) = ys"
    using unwire_aligned [of "length xs" "Some k2" ys] by (simp add: unwire_def)
  ultimately show ?thesis
    using a2(3) mask_shift [of k2 "length xs" 0 ys] by auto
qed

lemma fragments_are_garbled_witness:
  "\<exists>r ys'. ws_receive (sample_env True) zeros (\<lambda>_. True) wrecv_new CCircularBuffer
      [ws_frame (Some [1, 2, 3, 4]) OPCODE_Binary False [7], ws_frame (Some [1, 2, 3, 4]) OPCODE_Continuation True [8]] = Some (S_OK, r) \<and>
    wc_log r = [BinaryMessage ([7] @ ys')] \<and> ys' \<noteq> [8]"
proof -
  have room: "roomy zeros (max (max BLK (unat (we_nMaxMessageSize (sample_env True)))) (2 * 20 + 4095))"
    by (rule roomy_mono [OF zeros_grants]) (simp add: RECEIVE_DATA_BLOCK_SIZE_def)
  have "\<forall>c \<in> set [ws_frame (Some [1, 2, 3, 4]) OPCODE_Binary False [7], ws_frame (Some [1, 2, 3, 4]) OPCODE_Continuation True [8]]. c \<noteq> [] \<and> length c \<le> 20"
    by (simp add: ws_frame_def frame_len_def)
  from fragments_are_garbled [OF fair_zeros room _ _ _ this, of "\<lambda>_. True" OPCODE_Binary "[1, 2, 3, 4]" "[1, 2, 3, 4]" "[7]" "[8]"]
  show ?thesis
    by (auto simp: deliver_def opcodes simp del: ws_receive.simps)
qed

text \<open>Errors of the sender: a call from another thread is refused and changes nothing; a null pointer is refused and releases
  the lock. When the connection refuses a frame in the middle of a message, the call fails and keeps the lock, so
  that the next message of any thread waits until the thread of this one has called \<open>EndMessage\<close>, which fails again.\<close>

theorem send_errors:
  assumes "fair malloc" and "BeginMessage malloc op tid wsend_new = Some (S_OK, s)" and "tid \<noteq> 0"
    and "\<forall>m. we_SendMsg env m = e" and "e \<noteq> S_OK" and "SEND_PAYLOAD_SIZE < length data" and "length data < 2 ^ 64"
  shows "(tid' \<noteq> tid \<longrightarrow> SendBinaryMessage env tid' d n s = Some (MX_E_NotReady, s) \<and> EndMessage env tid' s = Some (MX_E_NotReady, s)) \<and>
    (n \<noteq> 0 \<longrightarrow> SendBinaryMessage env tid None n s = Some (E_POINTER, s\<lparr>sd_nSendInProgressMutex := 0\<rparr>)) \<and>
    (\<exists>s'. SendBinaryMessage env tid (Some data) (of_nat (length data)) s = Some (e, s') \<and> sd_nSendInProgressMutex s' = tid \<and>
      BeginMessage malloc op' tid' s' = None \<and>
      (\<exists>s''. EndMessage env tid s' = Some (e, s'') \<and> sd_nSendInProgressMutex s'' = 0 \<and> sd_sent s'' = []))"
proof -
  have fail: "\<exists>b'. InternalSendFrame env fin t = Some (e, t\<lparr>sd_cFrameBuffer := Some b'\<rparr>) \<and> length b' = SEND_PAYLOAD_SIZE"
    if t: "sending env tid op k zs t" for fin t k zs
  proof -
    obtain b where b: "sd_cFrameBuffer t = Some b" "length b = SEND_PAYLOAD_SIZE" "take k b = zs" "unat (sd_nFilledFrame t) = k" "k \<le> SEND_PAYLOAD_SIZE"
      using t by (auto simp: sending_def)
    have len: "length zs = k" "length zs < 2 ^ 32" "b = zs @ drop k b"
      using b append_take_drop_id [of k b] by (auto simp: SEND_PAYLOAD_SIZE_def)
    have n: "sd_nFilledFrame t = of_nat (length zs)"
      unfolding len(1) b(4) [symmetric] by simp
    obtain h body where f: "BuildFrame env (zs @ drop k b) (of_nat (length zs)) op fin = Some (h, body @ drop k b)" "length body = length zs"
      using BuildFrame_rep [OF len(2)] by blast
    then have "length (body @ drop k b) = SEND_PAYLOAD_SIZE"
      using b(2,5) len(1) by simp
    then show ?thesis
      using f t b(1) n assms(4,5) unfolding InternalSendFrame_def
      by (intro exI [of _ "body @ drop k b"]) (simp add: SendMsg_def sending_def len(3) [symmetric])
  qed
  obtain b where b: "malloc (of_nat SEND_PAYLOAD_SIZE) = Some b"
    using assms(2) by (auto simp: BeginMessage_def wsend_new_def Let_def split: option.splits)
  obtain s0 where "BeginMessage malloc op tid wsend_new = Some (S_OK, s0)" "sending env tid op 0 [] s0" "sd_sent s0 = []"
    using BeginMessage_new [OF assms(1) b] by blast
  then have s: "sending env tid op 0 [] s" "sd_sent s = []"
    using assms(2) by simp_all
  have ne: "data \<noteq> []" "drop SEND_PAYLOAD_SIZE data \<noteq> []"
    using assms(6) by auto
  obtain s1 where s1: "send_loop env data s = send_loop env (drop SEND_PAYLOAD_SIZE data) s1"
    "sending env tid op (min SEND_PAYLOAD_SIZE (length data)) (take SEND_PAYLOAD_SIZE data) s1" "sd_sent s1 = sd_sent s"
    using send_chunk [OF s(1) ne(1)] by blast
  have full: "sending env tid op SEND_PAYLOAD_SIZE (take SEND_PAYLOAD_SIZE data) s1"
    using s1(2) assms(6) by (simp add: min_absorb1)
  obtain b1 where b1: "InternalSendFrame env False s1 = Some (e, s1\<lparr>sd_cFrameBuffer := Some b1\<rparr>)" "length b1 = SEND_PAYLOAD_SIZE"
    using fail [OF full] by blast
  define s' where "s' = s1\<lparr>sd_cFrameBuffer := Some b1\<rparr>"
  have "unat (sd_nFilledFrame s1) = SEND_PAYLOAD_SIZE"
    using full by (simp add: sending_def)
  then have loop: "send_loop env data s = Some (e, s')"
    unfolding s1(1) send_loop.simps [of env "drop SEND_PAYLOAD_SIZE data" s1] using ne(2) b1(1) assms(5) by (simp add: s'_def)
  have u: "unat (of_nat (length data) :: u64) = length data"
    using assms(7) by (simp only: unat_of_nat) simp
  then have nz: "(of_nat (length data) :: u64) \<noteq> 0"
    using ne(1) by (metis length_0_conv unat_0)
  have mutex: "sd_nSendInProgressMutex s = tid" "sd_nSendInProgressMutex s' = tid"
    using s(1) full by (simp_all add: sending_def s'_def)
  have "SendBinaryMessage env tid (Some data) (of_nat (length data)) s = Some (e, s')"
    using loop mutex(1) nz u by (simp add: SendBinaryMessage_def block_read_ok)
  moreover have "BeginMessage malloc op' tid' s' = None"
    using mutex(2) assms(3) by (simp add: BeginMessage_def)
  moreover have "\<exists>s''. EndMessage env tid s' = Some (e, s'') \<and> sd_nSendInProgressMutex s'' = 0 \<and> sd_sent s'' = []"
  proof -
    have "sending env tid op SEND_PAYLOAD_SIZE (take SEND_PAYLOAD_SIZE b1) s'"
      using full b1(2) by (simp add: sending_def s'_def)
    then obtain b2 where "InternalSendFrame env True s' = Some (e, s'\<lparr>sd_cFrameBuffer := Some b2\<rparr>)"
      using fail by blast
    moreover have "0 < sd_nFilledFrame s'"
      using full by (simp add: sending_def s'_def word_less_nat_alt SEND_PAYLOAD_SIZE_def)
    ultimately show ?thesis
      using mutex(2) assms(5) s(2) s1(3) by (simp add: EndMessage_def s'_def)
  qed
  ultimately show ?thesis
    using mutex by (auto simp: SendBinaryMessage_def EndMessage_def)
qed
lemma send_errors_witness:
  "\<exists>s s'. BeginMessage zeros OPCODE_Text 9 wsend_new = Some (S_OK, s) \<and>
    SendBinaryMessage ((sample_env True)\<lparr>we_SendMsg := \<lambda>_. E_FAIL\<rparr>) 9 (Some (replicate 20000 65)) 20000 s = Some (E_FAIL, s') \<and>
    BeginMessage zeros OPCODE_Binary 10 s' = None"
proof -
  define env where "env = (sample_env True)\<lparr>we_SendMsg := \<lambda>_. E_FAIL\<rparr>"
  have "zeros (of_nat SEND_PAYLOAD_SIZE) = Some (replicate 16384 0)"
    by (simp add: zeros_def SEND_PAYLOAD_SIZE_def)
  then obtain s where s: "BeginMessage zeros OPCODE_Text 9 wsend_new = Some (S_OK, s)"
    using BeginMessage_new [OF fair_zeros] by blast
  have refuses: "\<forall>m. we_SendMsg env m = E_FAIL"
    by (simp add: env_def)
  have "\<exists>s'. SendBinaryMessage env 9 (Some (replicate 20000 65)) (of_nat (length (replicate 20000 65 :: u8 list))) s = Some (E_FAIL, s') \<and>
      BeginMessage zeros OPCODE_Binary 10 s' = None"
    using send_errors [OF fair_zeros s _ refuses, of "replicate 20000 65" 10 None 0 OPCODE_Binary] by (auto simp: SEND_PAYLOAD_SIZE_def)
  then show ?thesis
    using s by (auto simp: env_def)
qed

section \<open>Control frames\<close>

lemma wa_frame_end_inv:
  assumes "wa_frame_end env a = (None, a')" and "wa_inv env a" and "16 \<le> wc_nState a" and "is_control a \<or> wa_ctl a = []"
  shows "wa_inv env a' \<and> wc_nState a' = 0"
proof (cases "is_control a")
  case True
  obtain b where b: "wa_control_end env a = (None, b)" "a' = b\<lparr>wc_nState := 0, wc_nKey := [0, 0, 0, 0]\<rparr>"
    using assms(1) True by (auto simp: wa_frame_end_def split: prod.splits option.splits)
  have "wa_data b = wa_data a \<and> wa_ctl b = [] \<and> wc_nTotalDataLength b = wc_nTotalDataLength a"
    using b(1) by (auto simp: wa_control_end_def Let_def split: if_splits prod.splits)
  then show ?thesis
    using assms(2) b(2) by (simp add: wa_inv_def)
next
  case False
  then show ?thesis
    using assms by (auto simp: wa_frame_end_def wa_data_end_def wa_inv_def split: if_splits)
qed

lemma wa_step_ready:
  assumes "wa_step env a b = (None, a')" and "wa_ready env a"
  shows "wa_ready env a'"
proof -
  obtain a1 where a1: "(if wc_nState a < 16 then header_byte env a b else (S_OK, add_payload [b] a)) = (S_OK, a1)"
    "(if at_end a1 then wa_frame_end env a1 else (None, a1)) = (None, a')"
    using assms(1) by (auto simp: wa_step_def split: prod.splits if_splits)
  have "wa_inv env a1 \<and> (is_control a1 \<or> wa_ctl a1 = [])"
  proof (cases "wc_nState a < 16")
    case True
    have inv: "wa_inv env a"
      using assms(2) by (simp add: wa_ready_def)
    have "header_byte env a b = (S_OK, a1)" "wa_ctl a = []"
      using a1(1) True inv by (simp_all add: wa_inv_def)
    then show ?thesis
      using header_byte_inv [of env a b a1] header_byte_keeps(3) [of env a b S_OK a1] True inv same_payload [of a1 a] by simp
  next
    case False
    then have "length [b] \<le> unat (wc_nPayloadLen a)"
      using assms(2) by (auto simp: wa_ready_def at_end_def Suc_le_eq unat_gt_0)
    moreover have "a1 = add_payload [b] a"
      using False a1(1) by simp
    ultimately show ?thesis
      using False assms(2) add_payload_inv [of env a "[b]"] add_payload_ctl [of a "[b]"]
      by (cases "is_control a") (simp_all add: wa_ready_def)
  qed
  then show ?thesis
    using a1(2) wa_frame_end_inv [of env a1 a'] by (auto simp: wa_ready_def at_end_def wa_inv_def split: if_splits)
qed

lemma wa_run_ready: "wa_run env a bs = (None, a') \<Longrightarrow> wa_ready env a \<Longrightarrow> wa_ready env a'"
proof (induction bs arbitrary: a)
  case (Cons b bs)
  obtain r a1 where "wa_step env a b = (r, a1)"
    by (cases "wa_step env a b")
  then show ?case
    using Cons.prems Cons.IH [of a1] wa_step_ready [of env a b a1] by (auto split: option.splits)
qed simp

text \<open>C15. A ping is answered with its payload: between any two frames, also in the middle of a message in fragments, a ping of at
  most 125 bytes, masked or not, makes the receiver send one frame, a pong with the same payload, and nothing of the
  message that is being received is lost: the blocks and the fill counter hold exactly the bytes of the message
  that arrived before the ping, the length and the opcode of the message are the same, and the next byte is the
  first one of a frame. (The part of the message that is there and the ping together are not longer than
  the limit: the code counts the ping against the limit of the message.)\<close>

theorem ping_is_answered:
  assumes "fair malloc" and "roomy malloc (max (max BLK (unat (we_nMaxMessageSize env))) (2 * L + 4095))" and "\<forall>n. more_fits n"
    and "we_hConn env = S_OK" and "L \<le> 2 ^ 47" and "\<forall>c \<in> set chunks. c \<noteq> [] \<and> length c \<le> L" and "\<forall>m. we_SendMsg env m = S_OK"
    and "wa_run env wa_new before = (None, a)" and "wc_nState a = 0"
    and "\<forall>k. key = Some k \<longrightarrow> length k = 4" and "length xs \<le> 125" and "length (wa_data a) + length xs \<le> unat (we_nMaxMessageSize env)"
    and "concat chunks = before @ ws_frame key OPCODE_Ping True xs"
  shows "\<exists>r reply. ws_receive env malloc more_fits wrecv_new CCircularBuffer chunks = Some (S_OK, r) \<and> wc_log r = wc_log a @ [Reply reply] \<and>
    concat reply = ws_frame (sender_key env OPCODE_Pong True xs) OPCODE_Pong True xs \<and>
    blocks_rel (cm_aReceivedDataList r) (cm_lpData r) (cm_nFilledFrame r) (wa_data a) \<and>
    wc_nTotalDataLength r = of_nat (length (wa_data a)) \<and> wc_nTotalDataLength r = wc_nTotalDataLength a \<and>
    wc_nOpcode r = wc_nOpcode a \<and> wc_nState r = 0 \<and> cf_nFilledFrame r = 0"
proof -
  have inv: "wa_inv env a" "wa_ctl a = []"
    using wa_run_ready [OF assms(8) wa_ready_new] assms(9) by (auto simp: wa_ready_def wa_inv_def)
  have op: "op_allowed OPCODE_Ping a" "OPCODE_Ping AND OPCODE_ControlFrameMask \<noteq> 0" "OPCODE_Ping AND 0x0F = OPCODE_Ping"
    "OPCODE_Ping \<noteq> OPCODE_ConnectionClose" "op_after OPCODE_Ping c = c" for c
    by (simp_all add: op_allowed_def opcodes op_after_def)
  define a1 where "a1 = opened key OPCODE_Ping True (length xs) a"
  have a1: "is_control a1" "wa_ctl a1 = []" "wc_log a1 = wc_log a" "wc_nTotalDataLength a1 = wc_nTotalDataLength a" "wc_nOpcode a1 = wc_nOpcode a"
    "wc_hrCloseError a1 = wc_hrCloseError a" "fh_nOpcode (wc_h0 a1) = OPCODE_Ping" "is_masked a1 = (key \<noteq> None)"
    using op(2,3,5) inv(2) by (simp_all add: a1_def opened_def is_control_def head0_fields is_masked_def head1_fields)
  have un: "unmask a1 0 (wire key xs) = xs"
    using a1(8) by (auto simp: unmask_def wire_def a1_def opened_def split: option.split)
  define a2 where "a2 = add_payload (wire key xs) a1"
  have a2: "is_control a2" "wa_ctl a2 = xs" "wc_log a2 = wc_log a" "wc_nTotalDataLength a2 = wc_nTotalDataLength a" "wc_nOpcode a2 = wc_nOpcode a"
    "wc_hrCloseError a2 = wc_hrCloseError a" "fh_nOpcode (wc_h0 a2) = OPCODE_Ping"
    using a1 un by (simp_all add: a2_def add_payload_def add_control_def is_control_def)
  have n: "length xs < 2 ^ 32" "unat (of_nat (length xs) :: u32) = length xs" "0 < (of_nat (length xs) :: u32) \<longleftrightarrow> xs \<noteq> []"
  proof -
    show "length xs < 2 ^ 32"
      using assms(11) by simp
    then show u: "unat (of_nat (length xs) :: u32) = length xs"
      by (simp only: unat_of_nat) simp
    show "0 < (of_nat (length xs) :: u32) \<longleftrightarrow> xs \<noteq> []"
      unfolding word_less_nat_alt u by simp
  qed
  obtain h body where f: "BuildFrame env xs (of_nat (length xs)) OPCODE_Pong True = Some (h, body)" "length body = length xs"
    "h @ body = ws_frame (sender_key env OPCODE_Pong True xs) OPCODE_Pong True xs"
    using BuildFrame_rep [OF n(1), of env "[]" OPCODE_Pong True] by auto
  define reply where "reply = (if xs = [] then [h] else [h, body])"
  have reply: "wa_reply env xs = (S_OK, reply)"
    using f(1,2) n by (simp add: wa_reply_def InternalSendControlFrame_def SendMsg_ok [OF assms(7)] reply_def block_read_ok)
  define a' where "a' = a2\<lparr>wa_ctl := [], wc_log := wc_log a @ [Reply reply], wc_nState := 0, wc_nKey := [0, 0, 0, 0]\<rparr>"
  have "wa_frame_end env a2 = (None, a')"
    using a2(1-3,7) op(4) reply by (simp add: wa_frame_end_def wa_control_end_def a'_def)
  then have "wa_run env a (ws_frame key OPCODE_Ping True xs @ []) = (None, a')"
    using run_frame [OF assms(9) inv(1) op(1) assms(10) _ assms(12), of True "[]"] assms(11) by (simp add: a2_def a1_def)
  then have run: "wa_run env wa_new (concat chunks) = (None, a')"
    using assms(8,13) by (simp add: wa_run_append)
  obtain r where "ws_receive env malloc more_fits wrecv_new CCircularBuffer chunks = Some (S_OK, r)" "wcore.truncate r = wcore.truncate a'"
    and rel: "ws_rel r a'"
    using ws_receive_rep [OF assms(1-5) ws_rel_new wa_ready_new wa_new_simps(5) cb_rep_init assms(6)] run by auto
  moreover have "concat reply = ws_frame (sender_key env OPCODE_Pong True xs) OPCODE_Pong True xs"
    using f(2,3) by (auto simp: reply_def)
  moreover have "wa_data a' = wa_data a" "wa_ctl a' = []"
    using a1(1) by (simp_all add: a'_def a2_def a1_def add_payload_def add_control_def opened_def)
  then have "blocks_rel (cm_aReceivedDataList r) (cm_lpData r) (cm_nFilledFrame r) (wa_data a)" "cf_nFilledFrame r = 0"
    using rel by (simp_all add: ws_rel_def)
  moreover have "wc_nTotalDataLength a = of_nat (length (wa_data a))"
    using inv(1) by (simp add: wa_inv_def)
  ultimately show ?thesis
    using a2(4,5) by (auto simp: wcore.defs a'_def)
qed

text \<open>A ping in the middle of a message.\<close>

lemma ping_is_answered_witness:
  "\<exists>r reply. ws_receive (sample_env True) zeros (\<lambda>_. True) wrecv_new CCircularBuffer
      [ws_frame None OPCODE_Binary False [7, 8], ws_frame None OPCODE_Ping True [1, 2]] = Some (S_OK, r) \<and>
    wc_log r = [Reply reply] \<and> concat reply = ws_frame None OPCODE_Pong True [1, 2] \<and>
    blocks_rel (cm_aReceivedDataList r) (cm_lpData r) (cm_nFilledFrame r) [7, 8]"
proof -
  let ?env = "sample_env True" and ?part = "ws_frame None OPCODE_Binary False [7, 8]" and ?ping = "ws_frame None OPCODE_Ping True [1, 2]"
  have room: "roomy zeros (max (max BLK (unat (we_nMaxMessageSize ?env))) (2 * 20 + 4095))"
    by (rule roomy_mono [OF zeros_grants]) (simp add: RECEIVE_DATA_BLOCK_SIZE_def)
  have chunks: "\<forall>c \<in> set [?part, ?ping]. c \<noteq> [] \<and> length c \<le> 20"
    by (simp add: ws_frame_def frame_len_def)
  have op: "data_op OPCODE_Binary" "op_allowed OPCODE_Binary wa_new" "op_after OPCODE_Binary OPCODE_NONE = OPCODE_Binary"
    using op_allowed_new [of OPCODE_Binary] by simp_all
  obtain a where "wa_run ?env wa_new (?part @ []) = wa_run ?env a []" and a: "wc_nState a = 0" "wa_data a = [7, 8]" "wc_log a = []"
    using run_data_frame [OF wa_new_simps(1) wa_inv_new op(1,2), of None "[7, 8]" ?env False "[]"] by (auto simp: Let_def unwire_def)
  then have run: "wa_run ?env wa_new ?part = (None, a)"
    by simp
  from ping_is_answered [OF fair_zeros room _ _ _ chunks _ run a(1), of "\<lambda>_. True" None "[1, 2]"] show ?thesis
    using a(2,3) by (auto simp: sender_key_def simp del: ws_receive.simps)
qed
end
