(* ===== verification/Spec2Isabelle.thy ===== *)
theory Spec2Isabelle
  imports LinkedList RBTree_Props RequestLimiter Core_Props PropertyBag Adler32 Crc32_Provider Locks_Props TimedEvent_Props CircularBuffer_Props Base64_Props CString_Props Utf8_Props MemoryStream_Props WebSocket_Props
begin

text \<open>
  mxlib is a C++ library for Windows servers: containers, strings, memory, timers, locks and
  checksums at the bottom, and sockets, HTTP, scripting and databases on top of them. This
  development models the bottom layer, which all of the rest is built of, and the components of the
  upper layers that work on memory alone. Every definition is translated from the source, in its
  order and with its branches, and the theorems are about those definitions.

  Conventions. A pointer into linked structures is an address in an explicit store, and null is 0; a
  block of the heap that is filled by copying is a list; a machine integer is a word of its width, and
  arithmetic wraps. A read or a write that is undefined behaviour in C++ (a null or dead object, an
  index outside of a block, a read behind a terminator) is \<open>None\<close>, so a theorem that an operation
  returns \<open>Some\<close> says that it touches only memory that it owns. A failure that the code reports is a
  value (\<open>FALSE\<close>, an \<open>HRESULT\<close>, a null result) and one of the branches. The allocator is a parameter: any
  call may fail, and a block comes with arbitrary contents; the hypotheses on it (\<open>fair\<close> and \<open>cs_fair\<close>)
  are that a block has the size that was asked for and that the address space is finite. Where an
  allocation may fail, the theorems say that \<open>E_OUTOFMEMORY\<close> needs an allocator that refuses a block of a
  size they bound (\<open>roomy\<close>).

  Parts, and the theories that hold them:

  \<^item> Shared vocabulary: \<open>MX_Prelude\<close> (stores, loads, words, the interfaces \<open>callback_order\<close> and
    \<open>search_order\<close> of comparison callbacks), \<open>Blocks\<close> (blocks of bytes, allocators, results) and
    \<open>Streams\<close> (the interface \<open>translator\<close> of objects that take input in chunks).
  \<^item> Lists: \<open>LinkedList\<close>, for \<open>CLnkLst\<close> and \<open>CLnkLstNode\<close> of \<open>Include/LinkedList.h\<close>. A session of any
    operations refines the same session on plain lists; the queue that the users of the class make of
    it is the locale \<open>fifo_queue\<close>, interpreted in both directions.
  \<^item> Trees: \<open>RBTree_Model\<close> (the operations of \<open>CRedBlackTree\<close>, \<open>Include/RedBlackTree.h\<close>, pointer by pointer),
    \<open>RBTree_Rep\<close> (a focus in a tree of addresses, and its mirror image, which halves the proofs),
    \<open>RBTree_Insert\<close>, \<open>RBTree_Remove\<close>, \<open>RBTree_Delete\<close>, \<open>RBTree_Unlink\<close>, \<open>RBTree_Search\<close>
    (the correctness of the operations), \<open>RBTree\<close> (the contract, and the locales \<open>tree_order\<close> and
    \<open>searchable_order\<close> for callbacks), \<open>RBTree_Clients\<close> (the four users of the tree in the library, each an
    interpretation) and \<open>RBTree_Props\<close>.
  \<^item> The connection limiter of the HTTP server: \<open>RequestLimiter\<close>, for parts of
    \<open>Source/Http/HttpServer.cpp\<close>, over the tree.
  \<^item> Arrays and bags: \<open>ArrayList\<close> (\<open>TArrayList\<close> of \<open>Include/ArrayList.h\<close>, the locale
    \<open>sorted_array\<close>) and \<open>PropertyBag\<close> (\<open>Source/PropertyBag.cpp\<close>), which keeps its properties in such an array
    sorted by folded name and is proved to be a finite map.
  \<^item> Memory and strings: \<open>MemoryObjects\<close> (the word-wise primitives of \<open>Source/MemoryObjects.cpp\<close>), \<open>Strings\<close> (comparison
    and search of \<open>Source/Strings/Strings.cpp\<close>), \<open>Core_Props\<close>; \<open>CString\<close> and \<open>CString_Props\<close> (the buffers of
    \<open>CStringA\<close> and \<open>CStringW\<close>; the code of the two classes is the same up to the size of a character and
    one comparison, so it is written once and instantiated twice); \<open>Utf8\<close> and \<open>Utf8_Props\<close>
    (\<open>Source/Strings/Utf8.cpp\<close>).
  \<^item> Checksums: \<open>Adler32\<close>, \<open>Crc32_Tables\<close>, \<open>Crc32\<close>, \<open>Crc32_Props\<close> (\<open>Source/ZipLib/Source\<close>) and
    \<open>Crc32_Provider\<close> (\<open>Source/Crypto/CRC32_Provider.cpp\<close>).
  \<^item> Buffers and coders: \<open>CircularBuffer\<close>, \<open>CircularBuffer_Props\<close> (\<open>Source/CircularBuffer.cpp\<close>); \<open>Base64\<close>,
    \<open>Base64_Ref\<close>, \<open>Base64_Rep\<close>, \<open>Base64_Props\<close> (\<open>Source/Crypto/Base64.cpp\<close>), whose encoder and decoder
    interpret \<open>translator\<close>.
  \<^item> Streams and hashes: \<open>MemoryStream\<close> and \<open>MemoryStream_Props\<close> (\<open>Source/MemoryStream.cpp\<close> and \<open>CopyTo\<close> of
    \<open>Source/Streams.cpp\<close>), proved to be a file; \<open>Fnv\<close> (\<open>Source/FnvHash.cpp\<close>).
  \<^item> WebSocket connections (\<open>Source/Http/WebSockets.cpp\<close>): \<open>WebSocket\<close> (sending), \<open>WebSocketRecv\<close> (the state machine of
    \<open>OnSocketDataReceived\<close>, over the circular buffer), \<open>WebSocket_Rep\<close> (an automaton that takes one byte at a
    time), \<open>WebSocketRecv_Rep\<close> (the receiver refines it), \<open>WebSocketSend_Rep\<close> (frames of RFC 6455 and the
    messages made of them) and \<open>WebSocket_Props\<close> (sessions of a sender and a receiver). The masking key comes from \<open>Fnv\<close>.
  \<^item> Threads: \<open>Locks\<close>, \<open>Locks_Props\<close> (\<open>Source/WaitableObjects.cpp\<close>) and \<open>TimedEvent_Model\<close>,
    \<open>TimedEvent_Rep\<close>, \<open>TimedEvent\<close>, \<open>TimedEvent_Places\<close>, \<open>TimedEvent_Props\<close> (\<open>Source/TimedEvent.cpp\<close>). A thread is a program
    counter with the values it has read; each interlocked operation, or each section under a
    lock, is one step, and the properties hold in all interleavings (invariants of the reachable states). The timer
    queue is composed of the models of the tree and of the array; \<open>TimedEvent_Places\<close> shows that each timer is in exactly
    one place at any time, and follows a removed one until it is free.

  What the lemmas show. For each structure there is a relation between the state of the code and what
  it stands for (\<open>lst_rep\<close>, \<open>rb_rep\<close>, \<open>arr_rep\<close>, \<open>bag_rep\<close>, \<open>cb_rep\<close>, \<open>cs_rep\<close>, \<open>enc_rep\<close>, \<open>dec_rep\<close>, \<open>ms_rep\<close>,
  \<open>tq_rep\<close>), a lemma for each operation (its name with \<open>_rep\<close>) that it keeps the relation and what it returns,
  on every branch, and properties over whole sessions. The optimised checksums are proved equal to
  bit-by-bit and sum-by-sum references, the Base64 coder to RFC 4648, and the UTF-8 coder to the
  encoding of code points. Where the code does not do what it means to do, the theorem states what
  it does: the limiter, one waiting time of the timers, \<open>ReArrangeBuffer\<close>, \<open>SetSize\<close> near the end of the address space, the UTF-8
  decoder and comparison, writes of a memory stream behind its end, WebSocket messages that are sent in parts or received in masked fragments.

  Loops and bounds. A loop over a length is a recursion over the number of turns that are left. A loop that follows pointers is a
  \<open>partial_function (option)\<close> and its end is proved (the tree operations return \<open>Some\<close>). Fuel is used
  only where the code bounds the turns itself. The spinning loops of the locks are steps that may be
  repeated for ever; that a waiting writer can get in is a theorem of its own. Bounds such as \<open>2 ^ 47\<close>
  for the size of a string are those of the address space of the system and keep the sums of sizes
  from wrapping; where a size is under the control of a caller, the wrap is in the model.

  Not modelled. Third-party code: OpenSSL, SQLite, Duktape, RapidJSON and most of zlib, where only the checksums
  are modelled. The code that is mostly calls to Windows: completion ports, sockets, named pipes, threads, files,
  the heap, the events and mutexes of \<open>WaitableObjects.cpp\<close>, the conversions of strings with the code
  page of the system and the \<open>printf\<close> family. The HTTP client and server beyond the parts named above, the script bindings and
  the database connectors: they are left out because they are glue between
  callbacks of those systems. Locks are left out of the models of objects whose operations run
  under one lock as a whole (the limiter, the bag).
\<close>

end
